(* ===== verification/Prelude.thy ===== *)
theory Prelude
  imports Complex_Main "HOL-Library.Monad_Syntax" "HOL-Library.Multiset"
begin

text \<open>
  Shared vocabulary of the development.

  A Go statement that can panic (an index out of range, an explicit \<open>panic\<close>) is a value of
  type \<open>'a option\<close>: \<open>None\<close> is the panic, \<open>Some x\<close> the normal result. Blocks of statements
  are written with the \<open>do\<close> notation of the option monad. \<open>get\<close> and \<open>put\<close> are the Go
  expressions \<open>xs[i]\<close> and the assignment \<open>xs[i] = v\<close> for a loop counter \<open>i\<close> that is
  never negative, \<open>geti\<close> and \<open>puti\<close> the same for a Go integer.

  Two readings of a block: \<open>wp m Q\<close> says that \<open>m\<close> does not panic and its result satisfies
  \<open>Q\<close> (total correctness), \<open>wlp m Q\<close> that its result satisfies \<open>Q\<close> unless it panics.
\<close>

named_theorems wp_rules \<open>weakest preconditions of the statements\<close>
named_theorems lit_simps \<open>arithmetic of encoded literals\<close>

section \<open>Panicking statements\<close>

definition wp :: "'a option \<Rightarrow> ('a \<Rightarrow> bool) \<Rightarrow> bool" where
  "wp m Q = (case m of None \<Rightarrow> False | Some x \<Rightarrow> Q x)"

definition wlp :: "'a option \<Rightarrow> ('a \<Rightarrow> bool) \<Rightarrow> bool" where
  "wlp m Q = (case m of None \<Rightarrow> True | Some x \<Rightarrow> Q x)"

lemma wp_Some [simp, wp_rules]: "wp (Some x) Q = Q x"
  by (simp add: wp_def)

lemma wp_None [simp, wp_rules]: "wp None Q = False"
  by (simp add: wp_def)

lemma wp_bind [simp, wp_rules]: "wp (Option.bind m f) Q = wp m (\<lambda>x. wp (f x) Q)"
  by (cases m) (simp_all add: wp_def)

lemma wlp_Some [simp, wp_rules]: "wlp (Some x) Q = Q x"
  by (simp add: wlp_def)

lemma wlp_None [simp, wp_rules]: "wlp None Q"
  by (simp add: wlp_def)

lemma wlp_bind [simp, wp_rules]: "wlp (Option.bind m f) Q = wlp m (\<lambda>x. wlp (f x) Q)"
  by (cases m) (simp_all add: wlp_def)

lemma wp_iff: "wp m Q \<longleftrightarrow> (\<exists>x. m = Some x \<and> Q x)"
  by (cases m) (simp_all add: wp_def)

lemma wlp_iff: "wlp m Q \<longleftrightarrow> (\<forall>x. m = Some x \<longrightarrow> Q x)"
  by (cases m) (simp_all add: wlp_def)

lemma wp_mono: "wp m P \<Longrightarrow> (\<And>x. P x \<Longrightarrow> Q x) \<Longrightarrow> wp m Q"
  by (auto simp: wp_iff)

lemma wlp_mono: "wlp m P \<Longrightarrow> (\<And>x. P x \<Longrightarrow> Q x) \<Longrightarrow> wlp m Q"
  by (auto simp: wlp_iff)

lemma wp_conj: "wp m P \<Longrightarrow> wp m Q \<Longrightarrow> wp m (\<lambda>x. P x \<and> Q x)"
  by (auto simp: wp_iff)

lemma wlp_conj: "wlp m P \<Longrightarrow> wlp m Q \<Longrightarrow> wlp m (\<lambda>x. P x \<and> Q x)"
  by (auto simp: wlp_iff)

lemma wp_wlp: "wp m Q \<Longrightarrow> wlp m Q"
  by (auto simp: wp_iff wlp_iff)

lemma wp_SomeD: "wp m Q \<Longrightarrow> m = Some x \<Longrightarrow> Q x"
  by (simp add: wp_def)

lemma wlp_SomeD: "wlp m Q \<Longrightarrow> m = Some x \<Longrightarrow> Q x"
  by (simp add: wlp_def)

lemma wlp_I: "(\<And>x. Q x) \<Longrightarrow> wlp m Q"
  by (simp add: wlp_iff)

lemma wlp_eqI: "(\<And>x. m = Some x \<Longrightarrow> Q x) \<Longrightarrow> wlp m Q"
  by (simp add: wlp_iff)

text \<open>What holds of every value of the last statement of a block holds of the block.\<close>

lemma wlp_then: "(\<And>x. wlp (f x) Q) \<Longrightarrow> wlp (Option.bind m f) Q"
  by (cases m) simp_all

lemma wlp_case_prod: "(\<And>x y. wlp (f x y) Q) \<Longrightarrow> wlp (case p of (x, y) \<Rightarrow> f x y) Q"
  by (cases p) simp

lemma wlp_if: "(b \<Longrightarrow> wlp m Q) \<Longrightarrow> (\<not> b \<Longrightarrow> wlp n Q) \<Longrightarrow> wlp (if b then m else n) Q"
  by simp

lemma wlp_first: "wlp m P \<Longrightarrow> (\<And>x. P x \<Longrightarrow> wlp (f x) Q) \<Longrightarrow> wlp (Option.bind m f) Q"
  by (cases m) simp_all

lemmas wlp_last = wlp_then wlp_case_prod wlp_if

lemma wlp_True [simp]: "wlp m (\<lambda>_. True)"
  by (simp add: wlp_iff)

section \<open>Slices\<close>

definition get :: "'a list \<Rightarrow> nat \<Rightarrow> 'a option" where
  "get xs i = (if i < length xs then Some (xs ! i) else None)"

definition put :: "'a list \<Rightarrow> nat \<Rightarrow> 'a \<Rightarrow> 'a list option" where
  "put xs i v = (if i < length xs then Some (xs[i := v]) else None)"

definition geti :: "'a list \<Rightarrow> int \<Rightarrow> 'a option" where
  "geti xs i = (if 0 \<le> i \<and> i < int (length xs) then Some (xs ! nat i) else None)"

definition puti :: "'a list \<Rightarrow> int \<Rightarrow> 'a \<Rightarrow> 'a list option" where
  "puti xs i v = (if 0 \<le> i \<and> i < int (length xs) then Some (xs[nat i := v]) else None)"

text \<open>The Go slice expression \<open>xs[:n]\<close> for \<open>n\<close> up to the length.\<close>

definition upto :: "'a list \<Rightarrow> nat \<Rightarrow> 'a list option" where
  "upto xs n = (if n \<le> length xs then Some (take n xs) else None)"

text \<open>\<open>xs[i] = append(xs[i], x)\<close>\<close>

definition appendAt :: "'a list list \<Rightarrow> int \<Rightarrow> 'a \<Rightarrow> 'a list list option" where
  "appendAt xs i x = do { ys \<leftarrow> geti xs i; puti xs i (ys @ [x]) }"

lemma wp_get [simp, wp_rules]: "wp (get xs i) Q \<longleftrightarrow> i < length xs \<and> Q (xs ! i)"
  by (simp add: get_def)

lemma wlp_get [simp, wp_rules]: "wlp (get xs i) Q \<longleftrightarrow> (i < length xs \<longrightarrow> Q (xs ! i))"
  by (simp add: get_def)

lemma wp_put [simp, wp_rules]: "wp (put xs i v) Q \<longleftrightarrow> i < length xs \<and> Q (xs[i := v])"
  by (simp add: put_def)

lemma wlp_put [simp, wp_rules]: "wlp (put xs i v) Q \<longleftrightarrow> (i < length xs \<longrightarrow> Q (xs[i := v]))"
  by (simp add: put_def)

lemma wp_geti [simp, wp_rules]:
  "wp (geti xs i) Q \<longleftrightarrow> 0 \<le> i \<and> i < int (length xs) \<and> Q (xs ! nat i)"
  by (auto simp: geti_def)

lemma wlp_geti [simp, wp_rules]:
  "wlp (geti xs i) Q \<longleftrightarrow> (0 \<le> i \<longrightarrow> i < int (length xs) \<longrightarrow> Q (xs ! nat i))"
  by (auto simp: geti_def)

lemma wp_puti [simp, wp_rules]:
  "wp (puti xs i v) Q \<longleftrightarrow> 0 \<le> i \<and> i < int (length xs) \<and> Q (xs[nat i := v])"
  by (auto simp: puti_def)

lemma wlp_puti [simp, wp_rules]:
  "wlp (puti xs i v) Q \<longleftrightarrow> (0 \<le> i \<longrightarrow> i < int (length xs) \<longrightarrow> Q (xs[nat i := v]))"
  by (auto simp: puti_def)

lemma wp_upto [simp, wp_rules]: "wp (upto xs n) Q \<longleftrightarrow> n \<le> length xs \<and> Q (take n xs)"
  by (simp add: upto_def)

lemma wlp_upto [simp, wp_rules]: "wlp (upto xs n) Q \<longleftrightarrow> (n \<le> length xs \<longrightarrow> Q (take n xs))"
  by (simp add: upto_def)

lemma wp_if [wp_rules]: "wp (if b then m else n) Q = (if b then wp m Q else wp n Q)"
  by simp

lemma get_Some [simp]: "i < length xs \<Longrightarrow> get xs i = Some (xs ! i)"
  by (simp add: get_def)

lemma geti_Some [simp]: "0 \<le> i \<Longrightarrow> i < int (length xs) \<Longrightarrow> geti xs i = Some (xs ! nat i)"
  by (simp add: geti_def)

lemma put_Some [simp]: "i < length xs \<Longrightarrow> put xs i v = Some (xs[i := v])"
  by (simp add: put_def)

section \<open>Machine integers\<close>

text \<open>
  The \<open>int\<close> of the code has 64 bits and its \<open>int32\<close> has 32; both wrap around in two's complement.
  \<open>int64\<close> and \<open>int32\<close> are the conversions to these types: they are applied to the exact result of
  an operation that can leave the range.
\<close>

definition int64 :: "int \<Rightarrow> int" where
  "int64 x = (x + 2 ^ 63) mod 2 ^ 64 - 2 ^ 63"

definition int32 :: "int \<Rightarrow> int" where
  "int32 x = (x + 2 ^ 31) mod 2 ^ 32 - 2 ^ 31"

text \<open>The loop \<open>for _, w := range ws { res += w }\<close>, from 0.\<close>

definition sum64 :: "int list \<Rightarrow> int" where
  "sum64 ws = foldl (\<lambda>res w. int64 (res + w)) 0 ws"

lemma int64_id: "- (2 ^ 63) \<le> x \<Longrightarrow> x < 2 ^ 63 \<Longrightarrow> int64 x = x"
  by (simp add: int64_def)

lemma int64_abs: "\<bar>x\<bar> < 2 ^ 63 \<Longrightarrow> int64 x = x"
  by (rule int64_id) auto

lemma int32_id: "- (2 ^ 31) \<le> x \<Longrightarrow> x < 2 ^ 31 \<Longrightarrow> int32 x = x"
  by (simp add: int32_def)

lemma int64_add [simp]: "int64 (int64 x + y) = int64 (x + y)"
proof -
  have "int64 x + y + 2 ^ 63 = (x + 2 ^ 63) mod 2 ^ 64 + y" by (simp add: int64_def)
  then show ?thesis unfolding int64_def [of "int64 x + y"] int64_def [of "x + y"]
    by (simp only: mod_add_left_eq) (simp add: ac_simps)
qed

lemma int64_int64 [simp]: "int64 (int64 x) = int64 x"
  using int64_add [of x 0] by simp

lemma int64_diff [simp]: "int64 (int64 x - y) = int64 (x - y)"
  using int64_add [of x "- y"] by simp

lemma sum64_int64: "sum64 ws = int64 (sum_list ws)"
proof -
  have "foldl (\<lambda>res w. int64 (res + w)) (int64 r) ws = int64 (r + sum_list ws)" for r
    by (induction ws arbitrary: r) (simp_all add: add.assoc)
  from this [of 0] show ?thesis by (simp add: sum64_def int64_id)
qed

text \<open>Weights whose sum is far from the bounds of the 64-bit integers.\<close>

definition sum_fits :: "int list \<Rightarrow> bool" where
  "sum_fits ws \<longleftrightarrow> sum_list (map abs ws) < 2 ^ 62"

lemma sum_le_abs: "\<bar>sum_list ws\<bar> \<le> sum_list (map abs (ws :: int list))"
  by (induction ws) auto

lemma sum_fits_sum: "sum_fits ws \<Longrightarrow> \<bar>sum_list ws\<bar> < 2 ^ 62"
  using sum_le_abs [of ws] by (simp add: sum_fits_def)

lemma sum64_small: "sum_fits ws \<Longrightarrow> sum64 ws = sum_list ws"
  using sum_fits_sum [of ws] by (simp add: sum64_int64 int64_abs)

lemma sum_fits_sub: "mset ws \<subseteq># mset vs \<Longrightarrow> sum_fits vs \<Longrightarrow> sum_fits ws"
proof -
  assume "mset ws \<subseteq># mset vs" and "sum_fits vs"
  then obtain M where "mset vs = mset ws + M" by (auto simp: subset_mset.le_iff_add)
  then have "sum_list (map abs vs) = sum_list (map abs ws) + (\<Sum>w\<in>#M. \<bar>w\<bar>)"
    by (metis image_mset_union mset_map sum_mset.union sum_mset_sum_list)
  moreover have "0 \<le> (\<Sum>w\<in>#M. \<bar>w\<bar>)" by (induction M) auto
  ultimately show ?thesis using \<open>sum_fits vs\<close> by (simp add: sum_fits_def)
qed

lemma sum_fits_cong: "mset ws = mset vs \<Longrightarrow> sum_fits ws = sum_fits vs"
  using sum_fits_sub [of ws vs] sum_fits_sub [of vs ws] by auto

lemma sum_fits_pos: "\<forall>w \<in> set ws. 0 \<le> w \<Longrightarrow> sum_fits ws \<longleftrightarrow> sum_list ws < 2 ^ 62"
proof -
  assume "\<forall>w \<in> set ws. 0 \<le> w"
  then have "map abs ws = ws" by (intro map_idI) auto
  then show ?thesis by (simp add: sum_fits_def)
qed

section \<open>Lists\<close>

text \<open>
  Go removes an element of an unordered slice by copying the last element over it and
  shortening the slice.
\<close>

definition swap_remove :: "'a list \<Rightarrow> nat \<Rightarrow> 'a list" where
  "swap_remove xs i = butlast (xs[i := last xs])"

lemma length_swap_remove [simp]: "length (swap_remove xs i) = length xs - 1"
  by (simp add: swap_remove_def)

lemma mset_swap_remove:
  assumes "i < length xs"
  shows "mset xs = add_mset (xs ! i) (mset (swap_remove xs i))"
proof -
  define ys where "ys = butlast xs"
  have xs: "xs = ys @ [last xs]" unfolding ys_def
    by (rule append_butlast_last_id [symmetric]) (use assms in auto)
  show ?thesis
  proof (cases "i < length ys")
    case True
    have "xs[i := last xs] = ys[i := last xs] @ [last xs]"
      by (subst xs) (simp add: list_update_append True)
    then have "swap_remove xs i = ys[i := last xs]"
      by (simp add: swap_remove_def)
    moreover have "xs ! i = ys ! i" using xs True by (metis nth_append)
    moreover have "mset xs = mset ys + {#last xs#}"
      by (subst xs) simp
    ultimately show ?thesis using True by (simp add: mset_update)
  next
    case False
    then have i: "i = length ys" using assms ys_def by simp
    have "xs[i := last xs] = ys @ [last xs]" by (subst xs) (simp add: i)
    then have "swap_remove xs i = ys" by (simp add: swap_remove_def)
    moreover have "xs ! i = last xs" by (subst xs) (simp add: i)
    moreover have "mset xs = mset ys + {#last xs#}"
      by (subst xs) simp
    ultimately show ?thesis by simp
  qed
qed

lemma set_swap_remove: "i < length xs \<Longrightarrow> set xs = insert (xs ! i) (set (swap_remove xs i))"
  using mset_swap_remove [of i xs] by (metis set_mset_add_mset_insert set_mset_mset)

text \<open>\<open>ys := make([]int, n); copy(ys, xs)\<close>.\<close>

definition copyPad :: "nat \<Rightarrow> int list \<Rightarrow> int list" where
  "copyPad n xs = take n (xs @ replicate n 0)"

lemma length_copyPad [simp]: "length (copyPad n xs) = n"
  by (simp add: copyPad_def)

lemma copyPad_same: "length xs = n \<Longrightarrow> copyPad n xs = xs"
  by (simp add: copyPad_def)

lemma take_Suc_nth: "i < length xs \<Longrightarrow> take (Suc i) xs = take i xs @ [xs ! i]"
  by (rule take_Suc_conv_app_nth)

lemma drop_nth: "i < length xs \<Longrightarrow> drop i xs = xs ! i # drop (Suc i) xs"
  by (rule Cons_nth_drop_Suc [symmetric])

section \<open>Segments\<close>

text \<open>The elements at the indices from \<open>i\<close> up to, not including, \<open>n\<close>.\<close>

definition seg :: "'a list \<Rightarrow> nat \<Rightarrow> nat \<Rightarrow> 'a set" where
  "seg xs i n = (!) xs ` {i..<n}"

lemma seg_take: "n \<le> length xs \<Longrightarrow> seg xs 0 n = set (take n xs)"
  by (simp add: seg_def nth_image)

lemma seg_empty [simp]: "n \<le> i \<Longrightarrow> seg xs i n = {}"
  by (simp add: seg_def)

lemma seg_Suc: "i < n \<Longrightarrow> seg xs i n = insert (xs ! i) (seg xs (Suc i) n)"
  by (auto simp: seg_def atLeastLessThanSuc_atLeastAtMost Suc_le_eq image_iff)
    (metis atLeastLessThan_iff le_neq_implies_less less_eq_Suc_le)

lemma seg_update [simp]: "j < i \<Longrightarrow> seg (xs[j := x]) i n = seg xs i n"
  by (auto simp: seg_def intro!: image_cong)

text \<open>Overwriting one element by the last of a segment and dropping the last.\<close>

lemma seg_move:
  assumes "i < n" and "n \<le> length xs"
  shows "seg xs i n = insert (xs ! i) (seg (xs[i := xs ! (n - 1)]) i (n - 1))"
proof -
  have "{i..<n} = insert i (insert (n - 1) {Suc i..<n - 1})" using assms by auto
  then have "seg xs i n = insert (xs ! i) (insert (xs ! (n - 1)) (seg xs (Suc i) (n - 1)))"
    by (simp add: seg_def)
  also have "\<dots> = insert (xs ! i) (seg (xs[i := xs ! (n - 1)]) i (n - 1))"
  proof (cases "i < n - 1")
    case True
    then show ?thesis using assms seg_Suc [OF True, of "xs[i := xs ! (n - 1)]"] by simp
  next
    case False
    then have "n - 1 = i" using assms by simp
    then show ?thesis by simp
  qed
  finally show ?thesis .
qed

lemma seg_cong: "(\<And>k. i \<le> k \<Longrightarrow> k < n \<Longrightarrow> xs ! k = ys ! k) \<Longrightarrow> seg xs i n = seg ys i n"
  by (auto simp: seg_def intro!: image_cong)

lemma seg_mono: "i \<le> j \<Longrightarrow> m \<le> n \<Longrightarrow> seg xs j m \<subseteq> seg xs i n"
  by (auto simp: seg_def)

lemma nth_in_seg: "i \<le> k \<Longrightarrow> k < n \<Longrightarrow> xs ! k \<in> seg xs i n"
  by (simp add: seg_def)

lemma seg_split: "i \<le> j \<Longrightarrow> j \<le> n \<Longrightarrow> seg xs i n = seg xs i j \<union> seg xs j n"
  by (simp add: seg_def image_Un [symmetric] ivl_disj_un_two(3))

lemma seg_update_ge [simp]: "n \<le> j \<Longrightarrow> seg (xs[j := x]) i n = seg xs i n"
  by (auto simp: seg_def intro!: image_cong)

lemma seg_move_at:
  assumes "i \<le> j" and "j < n" and "n \<le> length xs"
  shows "seg xs i n = insert (xs ! j) (seg (xs[j := xs ! (n - 1)]) i (n - 1))"
proof -
  have "seg xs i n = seg xs i j \<union> seg xs j n" using assms by (intro seg_split) auto
  also have "\<dots> = insert (xs ! j) (seg xs i j \<union> seg (xs[j := xs ! (n - 1)]) j (n - 1))"
    using seg_move [OF assms(2,3)] by auto
  also have "seg xs i j \<union> seg (xs[j := xs ! (n - 1)]) j (n - 1) = seg (xs[j := xs ! (n - 1)]) i (n - 1)"
    using assms seg_split [of i j "n - 1" "xs[j := xs ! (n - 1)]"] by simp
  finally show ?thesis .
qed

lemma seg_all_put:
  assumes "i \<le> j" and "j < n" and "n \<le> length xs" and "P x \<longleftrightarrow> P (xs ! j)"
  shows "(\<forall>c \<in> seg (xs[j := x]) i n. P c) \<longleftrightarrow> (\<forall>c \<in> seg xs i n. P c)"
  using assms by (auto simp: seg_def nth_list_update)

section \<open>Decimal numbers\<close>

text \<open>The digits that \<open>%d\<close> prints for a number.\<close>

definition digit :: "nat \<Rightarrow> char" where
  "digit n = char_of (48 + n)"

fun itoa :: "nat \<Rightarrow> string" where
  "itoa n = (if n < 10 then [digit n] else itoa (n div 10) @ [digit (n mod 10)])"

declare itoa.simps [simp del]

definition undigits :: "string \<Rightarrow> nat" where
  "undigits s = foldl (\<lambda>n c. 10 * n + (of_char c - 48)) 0 s"

lemma of_char_digit: "n < 10 \<Longrightarrow> (of_char (digit n) :: nat) = 48 + n"
  unfolding digit_def by (simp add: of_char_of)

lemma undigits_itoa [simp]: "undigits (itoa n) = n"
proof (induction n rule: itoa.induct)
  case (1 n)
  then show ?case
    by (cases "n < 10") (simp_all add: itoa.simps [of n] undigits_def of_char_digit)
qed

lemma itoa_inject [simp]: "itoa m = itoa n \<longleftrightarrow> m = n"
  by (metis undigits_itoa)

lemma itoa_nonempty [simp]: "itoa n \<noteq> []"
  by (simp add: itoa.simps [of n])

end
