(* ===== verification/Types.thy ===== *)
theory Types
  imports Prelude "HOL-Library.Word" "HOL-Library.Signed_Division"
begin

unbundle bit_operations_syntax

text \<open>
  Model of \<open>solver/types.go\<close>: the status values, and the encoding of variables and literals.

  The code stores variables and literals as \<open>int32\<close>. The development reasons about them as
  integers: \<open>IntToLit\<close> and its kin are the Go functions over unbounded integers. The functions
  whose name ends in \<open>32\<close> are the same functions on 32-bit words, with wrap-around; the lemmas
  \<open>*_exact\<close> show that both agree for variables below \<open>2 ^ 30\<close>, so the integer model is exact
  for every problem the encoding can hold. \<open>litOf\<close> is the expression \<open>IntToLit(int32(i))\<close> with which
  the readers encode an \<open>int\<close>, wrap-around included.
\<close>

section \<open>Statuses\<close>

datatype status = Indet | Sat | Unsat | UnitClause | Many

section \<open>Literals as integers\<close>

type_synonym lit = int
type_synonym var = int
type_synonym declevel = int

definition IntToLit :: "int \<Rightarrow> lit" where
  "IntToLit i = (if i < 0 then 2 * (- i - 1) + 1 else 2 * (i - 1))"

definition litOf :: "int \<Rightarrow> lit" where
  "litOf i = int32 (IntToLit (int32 i))"

definition IntsToLits :: "int list \<Rightarrow> lit list" where
  "IntsToLits vals = map IntToLit vals"

definition IntToVar :: "int \<Rightarrow> var" where
  "IntToVar i = i - 1"

definition Var_Lit :: "var \<Rightarrow> lit" where
  "Var_Lit v = v * 2"

definition Var_Int :: "var \<Rightarrow> int" where
  "Var_Int v = v + 1"

definition SignedLit :: "var \<Rightarrow> bool \<Rightarrow> lit" where
  "SignedLit v neg = (if neg then v * 2 + 1 else v * 2)"

definition Lit_Var :: "lit \<Rightarrow> var" where
  "Lit_Var l = l sdiv 2"

definition Lit_Int :: "lit \<Rightarrow> int" where
  "Lit_Int l = (let sign = (l AND 1 = 1); res = (l sdiv 2) + 1 in if sign then - res else res)"

definition IsPositive :: "lit \<Rightarrow> bool" where
  "IsPositive l \<longleftrightarrow> l smod 2 = 0"

definition Negation :: "lit \<Rightarrow> lit" where
  "Negation l = l XOR 1"

section \<open>Literals as 32-bit words\<close>

type_synonym i32 = "32 word"

definition sdiv32 :: "i32 \<Rightarrow> i32 \<Rightarrow> i32" where
  "sdiv32 a b = word_of_int (sint a sdiv sint b)"

definition IntToLit32 :: "i32 \<Rightarrow> i32" where
  "IntToLit32 i = (if sint i < 0 then 2 * (- i - 1) + 1 else 2 * (i - 1))"

definition Lit_Var32 :: "i32 \<Rightarrow> i32" where
  "Lit_Var32 l = sdiv32 l 2"

definition Lit_Int32 :: "i32 \<Rightarrow> i32" where
  "Lit_Int32 l =
     (let sign = (l AND 1 = 1); res = sdiv32 l 2 + 1 in if sign then - res else res)"

definition Negation32 :: "i32 \<Rightarrow> i32" where
  "Negation32 l = l XOR 1"

section \<open>Facts about the encoding\<close>

lemma Negation_alt [lit_simps]: "Negation l = (if even l then l + 1 else l - 1)"
proof -
  have "l XOR 1 = (if even l then l + 1 else l - 1)"
    by (simp add: xor_one_eq of_bool_def odd_iff_mod_2_eq_one)
  then show ?thesis by (simp add: Negation_def)
qed

lemma sdiv2_nonneg [lit_simps]: "0 \<le> (l :: int) \<Longrightarrow> l sdiv 2 = l div 2"
  by (cases "l = 0") (simp_all add: signed_divide_int_def)

lemma Lit_Var_nonneg [lit_simps]: "0 \<le> l \<Longrightarrow> Lit_Var l = l div 2"
  by (simp add: Lit_Var_def sdiv2_nonneg)

lemma IsPositive_alt [lit_simps]: "0 \<le> l \<Longrightarrow> IsPositive l \<longleftrightarrow> even l"
  by (auto simp: IsPositive_def signed_modulo_int_def sdiv2_nonneg minus_div_mult_eq_mod
      even_iff_mod_2_eq_zero sgn_if)

lemma odd_and_one [lit_simps]: "(l :: int) AND 1 = 1 \<longleftrightarrow> odd l"
  by (simp add: and_one_eq odd_iff_mod_2_eq_one)

lemma Negation_nonneg [simp]: "0 \<le> Negation l \<longleftrightarrow> 0 \<le> l"
  by (auto simp: Negation_alt) presburger

lemma Negation_Negation [simp]: "Negation (Negation l) = l"
  by (simp add: Negation_alt)

lemma Lit_Var_Negation [simp]: "0 \<le> l \<Longrightarrow> Lit_Var (Negation l) = Lit_Var l"
  by (simp add: Lit_Var_nonneg) (simp add: Negation_alt; presburger)

lemma IsPositive_Negation [simp]: "0 \<le> l \<Longrightarrow> IsPositive (Negation l) \<longleftrightarrow> \<not> IsPositive l"
  by (simp add: IsPositive_alt) (simp add: Negation_alt)

lemma Negation_neq [simp]: "Negation l \<noteq> l"
  by (simp add: Negation_alt)

lemma lit_eq_iff: "0 \<le> l \<Longrightarrow> 0 \<le> m \<Longrightarrow>
    l = m \<longleftrightarrow> Lit_Var l = Lit_Var m \<and> IsPositive l = IsPositive m"
  by (auto simp: lit_simps) presburger

lemma lit_neg_iff: "0 \<le> l \<Longrightarrow> 0 \<le> m \<Longrightarrow>
    l = Negation m \<longleftrightarrow> Lit_Var l = Lit_Var m \<and> IsPositive l \<noteq> IsPositive m"
  using lit_eq_iff [of l "Negation m"] by auto

lemma litOf_exact: "\<bar>i\<bar> \<le> 2 ^ 30 \<Longrightarrow> litOf i = IntToLit i"
  by (auto simp: litOf_def int32_id IntToLit_def)

lemma map_litOf: "\<forall>i \<in> set is. \<bar>i\<bar> \<le> 2 ^ 30 \<Longrightarrow> map litOf is = map IntToLit is"
  by (simp add: litOf_exact)

lemma IntToLit_nonneg: "i \<noteq> 0 \<Longrightarrow> 0 \<le> IntToLit i"
  by (simp add: IntToLit_def)

lemma Lit_Var_IntToLit [simp]: "i \<noteq> 0 \<Longrightarrow> Lit_Var (IntToLit i) = \<bar>i\<bar> - 1"
  by (auto simp: Lit_Var_nonneg IntToLit_nonneg) (auto simp: IntToLit_def)

lemma IsPositive_IntToLit [simp]: "i \<noteq> 0 \<Longrightarrow> IsPositive (IntToLit i) \<longleftrightarrow> 0 < i"
  by (auto simp: IsPositive_alt IntToLit_nonneg) (auto simp: IntToLit_def split: if_splits)

lemma Negation_IntToLit: "i \<noteq> 0 \<Longrightarrow> Negation (IntToLit i) = IntToLit (- i)"
  by (rule iffD2 [OF lit_eq_iff]) (auto simp: IntToLit_nonneg)

lemma Lit_Int_nonneg: "0 \<le> l \<Longrightarrow> Lit_Int l = (if odd l then - (l div 2 + 1) else l div 2 + 1)"
  by (simp add: Lit_Int_def Let_def odd_and_one sdiv2_nonneg)

lemma Lit_Int_IntToLit: "i \<noteq> 0 \<Longrightarrow> Lit_Int (IntToLit i) = i"
  by (simp add: Lit_Int_nonneg IntToLit_nonneg) (auto simp: IntToLit_def)

lemma IntToLit_Lit_Int: "0 \<le> l \<Longrightarrow> IntToLit (Lit_Int l) = l"
  by (simp add: Lit_Int_nonneg IntToLit_def) presburger

lemma Var_Lit_SignedLit: "Var_Lit v = SignedLit v False" "Negation (Var_Lit v) = SignedLit v True"
  by (simp_all add: Var_Lit_def SignedLit_def Negation_alt)

section \<open>Exactness of the 32-bit encoding\<close>

definition in_i32 :: "int \<Rightarrow> bool" where
  "in_i32 i \<longleftrightarrow> - (2 ^ 31) \<le> i \<and> i < 2 ^ 31"

lemma sint_of_int_i32: "in_i32 i \<Longrightarrow> sint (word_of_int i :: i32) = i"
  by (simp add: in_i32_def sint_sbintrunc' signed_take_bit_int_eq_self)

lemma IntToLit32_of_int:
  "in_i32 i \<Longrightarrow> IntToLit32 (word_of_int i) = word_of_int (IntToLit i)"
  by (simp add: IntToLit32_def IntToLit_def sint_of_int_i32)

lemma int32_sint: "int32 x = sint (word_of_int x :: i32)"
  by (simp add: int32_def sint_sbintrunc' signed_take_bit_eq_take_bit_shift take_bit_eq_mod)

lemma litOf_word: "litOf i = sint (IntToLit32 (word_of_int i))"
proof -
  have "in_i32 (int32 i)" by (auto simp: in_i32_def int32_def)
  from IntToLit32_of_int [OF this] show ?thesis
    by (simp add: litOf_def int32_sint)
qed

lemma Lit_Int32_of_int:
  assumes "in_i32 l" and "0 \<le> l"
  shows "Lit_Int32 (word_of_int l) = word_of_int (Lit_Int l)"
proof -
  have "sint (2 :: i32) = 2" by simp
  then have d: "sdiv32 (word_of_int l) 2 = word_of_int (l sdiv 2)"
    by (simp add: sdiv32_def sint_of_int_i32 [OF assms(1)])
  have b: "(word_of_int l :: i32) AND 1 = 1 \<longleftrightarrow> l AND 1 = 1"
    by (simp add: and_one_eq odd_iff_mod_2_eq_one [symmetric] bit_0 [symmetric]
        bit_word_of_int_iff)
  show ?thesis
    by (simp add: Lit_Int32_def Lit_Int_def Let_def d b)
qed

text \<open>
  C30. For every CNF literal of a variable up to \<open>2 ^ 30\<close>, the 32-bit encoding does not wrap
  around: \<open>IntToLit\<close> gives the non-negative literal of the integer model, and \<open>Int\<close> decodes
  it back to the literal given.
\<close>

theorem IntToLit32_exact:
  assumes "i \<noteq> 0" and "\<bar>i\<bar> \<le> 2 ^ 30"
  shows "sint (IntToLit32 (word_of_int i)) = IntToLit i
       \<and> sint (Lit_Int32 (IntToLit32 (word_of_int i))) = i"
proof -
  have i: "in_i32 i" and l: "in_i32 (IntToLit i)" and n: "0 \<le> IntToLit i"
    using assms by (auto simp: in_i32_def IntToLit_def)
  have e: "IntToLit32 (word_of_int i) = word_of_int (IntToLit i)"
    by (rule IntToLit32_of_int [OF i])
  have "sint (Lit_Int32 (IntToLit32 (word_of_int i))) = i"
    unfolding e Lit_Int32_of_int [OF l n] Lit_Int_IntToLit [OF assms(1)]
    by (rule sint_of_int_i32 [OF i])
  then show ?thesis by (simp add: e sint_of_int_i32 [OF l])
qed

theorem IntToLit32_exact_witness:
  "sint (IntToLit32 (word_of_int (- 3))) = IntToLit (- 3)
   \<and> sint (Lit_Int32 (IntToLit32 (word_of_int (- 3)))) = - 3"
  by (rule IntToLit32_exact) simp_all

end
