(* ===== verification/GoFloat.thy ===== *)
theory GoFloat
  imports Prelude
begin

text \<open>
  The floating-point numbers of the code. A finite \<open>float64\<close> or \<open>float32\<close> is the rational number it
  stands for. The result of an operation is the exact result rounded to the nearest number with a
  mantissa of 53 or 24 bits, ties to the even mantissa, with the least exponent of the format; no two
  operations are fused. The solver rescales its activities long before they reach the largest
  exponent, so infinities are not part of the model.
\<close>

text \<open>The number of bits of a non-negative integer.\<close>

function bitLen :: "int \<Rightarrow> int" where
  "bitLen n = (if n \<le> 0 then 0 else 1 + bitLen (n div 2))"
  by pat_completeness auto
termination
  by (relation "measure nat") auto

declare bitLen.simps [simp del]

definition pow2 :: "int \<Rightarrow> int" where
  "pow2 e = 2 ^ nat e"

text \<open>The integer nearest to \<open>n / d\<close>.\<close>

definition divEven :: "int \<Rightarrow> int \<Rightarrow> int" where
  "divEven n d = (let q = n div d; r = n mod d in if 2 * r < d \<or> 2 * r = d \<and> even q then q else q + 1)"

text \<open>\<open>e\<close> is the exponent of the last bit of the mantissa.\<close>

definition roundFloat :: "int \<Rightarrow> int \<Rightarrow> rat \<Rightarrow> rat" where
  "roundFloat p emin x =
     (let (n, d) = quotient_of x in
      if d = 1 \<and> \<bar>n\<bar> \<le> pow2 p then x
      else
        let e0 = bitLen \<bar>n\<bar> - bitLen d - p;
            e1 = (if \<bar>n\<bar> * pow2 (- (e0 + p)) \<ge> d * pow2 (e0 + p) then e0 + 1 else e0);
            e = max e1 emin;
            m = divEven (n * pow2 (- e)) (d * pow2 e)
        in Fract (m * pow2 e) (pow2 (- e)))"

definition float64 :: "rat \<Rightarrow> rat" where
  "float64 x = roundFloat 53 (- 1074) x"

definition float32 :: "rat \<Rightarrow> rat" where
  "float32 x = roundFloat 24 (- 149) x"

text \<open>The conversion \<open>int(x)\<close>.\<close>

definition floatInt :: "rat \<Rightarrow> int" where
  "floatInt x = (if x < 0 then - \<lfloor>- x\<rfloor> else \<lfloor>x\<rfloor>)"

lemma pow2_pos [simp]: "0 < pow2 e"
  by (simp add: pow2_def)

lemma pow2_nonzero [simp]: "pow2 e \<noteq> 0"
  by (simp add: pow2_def)

text \<open>Small integers are exact, and rounding goes to a nearest multiple of the last bit.\<close>

lemma roundFloat_int [simp]: "\<bar>n\<bar> \<le> pow2 p \<Longrightarrow> roundFloat p emin (of_int n) = of_int n"
  by (simp add: roundFloat_def quotient_of_int [unfolded Rat.of_int_def [symmetric]])

lemma divEven_near:
  assumes "0 < d"
  shows "\<bar>rat_of_int (divEven n d) - of_int n / of_int d\<bar> \<le> 1 / 2"
proof -
  define q r where "q = n div d" and "r = n mod d"
  have n: "n = q * d + r" by (simp add: q_def r_def)
  have r: "0 \<le> r" "r < d" using assms by (simp_all add: r_def)
  have x: "rat_of_int n / of_int d = of_int q + of_int r / of_int d"
    using assms by (simp add: n add_divide_distrib)
  have low: "rat_of_int r / of_int d \<le> 1 / 2" if "2 * r \<le> d"
  proof -
    have "rat_of_int (2 * r) \<le> of_int d" using that by (simp only: of_int_le_iff)
    then show ?thesis using assms by (simp add: divide_simps)
  qed
  have high: "1 / 2 \<le> rat_of_int r / of_int d" if "d \<le> 2 * r"
  proof -
    have "rat_of_int d \<le> of_int (2 * r)" using that by (simp only: of_int_le_iff)
    then show ?thesis using assms by (simp add: divide_simps)
  qed
  define y where "y = rat_of_int r / of_int d"
  have y: "0 \<le> y" "y \<le> 1" "2 * r \<le> d \<Longrightarrow> y \<le> 1 / 2" "d \<le> 2 * r \<Longrightarrow> 1 / 2 \<le> y"
    using assms r low high by (simp_all add: y_def divide_simps)
  show ?thesis
  proof (cases "2 * r < d \<or> 2 * r = d \<and> even q")
    case True
    then have "divEven n d = q" by (auto simp: divEven_def q_def r_def Let_def)
    then show ?thesis using y(1,3) True unfolding x y_def [symmetric] by auto
  next
    case False
    then have "divEven n d = q + 1" by (auto simp: divEven_def q_def r_def Let_def)
    then show ?thesis using y(2,4) False unfolding x y_def [symmetric] by auto
  qed
qed

lemma roundFloat_near:
  "\<exists>u > 0. \<bar>roundFloat p emin x - x\<bar> \<le> u / 2 \<and> (\<exists>m. roundFloat p emin x = of_int m * u)"
proof -
  obtain n d where q: "quotient_of x = (n, d)" by (cases "quotient_of x")
  then have d: "0 < d" and x: "x = of_int n / of_int d"
    using quotient_of_denom_pos quotient_of_div by auto
  show ?thesis
  proof (cases "d = 1 \<and> \<bar>n\<bar> \<le> pow2 p")
    case True
    then show ?thesis using q x by (intro exI [of _ 1]) (auto simp: roundFloat_def intro: exI [of _ n])
  next
    case False
    then obtain e where e: "roundFloat p emin x
        = Fract (divEven (n * pow2 (- e)) (d * pow2 e) * pow2 e) (pow2 (- e))"
      by (simp add: roundFloat_def q Let_def)
    define m u where "m = divEven (n * pow2 (- e)) (d * pow2 e)" and "u = rat_of_int (pow2 e) / of_int (pow2 (- e))"
    have u: "0 < u" by (simp add: u_def)
    have r: "roundFloat p emin x = of_int m * u"
      unfolding e m_def [symmetric] u_def by (simp add: Fract_of_int_quotient)
    have "rat_of_int (n * pow2 (- e)) / of_int (d * pow2 e) = x / u" by (simp add: x u_def)
    then have "\<bar>of_int m - x / u\<bar> \<le> 1 / 2"
      using divEven_near [of "d * pow2 e" "n * pow2 (- e)"] d by (simp add: m_def)
    then have "\<bar>of_int m - x / u\<bar> * u \<le> 1 / 2 * u" using u by (intro mult_right_mono) auto
    then have "\<bar>(of_int m - x / u) * u\<bar> \<le> u / 2" using u by (simp add: abs_mult)
    moreover have "(of_int m - x / u) * u = of_int m * u - x" using u by (simp add: left_diff_distrib)
    ultimately show ?thesis using u r by auto
  qed
qed

lemma float64_tenth: "float64 (1 / 10) = 3602879701896397 / 36028797018963968"
  by code_simp

lemma float32_tenth: "float32 (1 / 10) = 13421773 / 134217728"
  by code_simp

end
