(* ===== verification/Clause.thy ===== *)
theory Clause
  imports Types GoFloat
begin

text \<open>
  Model of \<open>solver/clause.go\<close>: a constraint of the solver, its packed bookkeeping word, and the
  simplification of a pseudo-boolean constraint.

  A constraint is a list of literals, a minimal cardinality and, for a pseudo-boolean
  constraint, one weight per literal. \<open>lbdValue\<close> is the 32-bit word of the code: bit 31 says that
  the clause was learned, bit 30 that it is locked, the other bits hold the LBD of a learned
  clause or the cardinality minus one. \<open>sat_clause\<close> is the meaning of a constraint: the weights
  of its true literals sum up to at least the cardinality. Sums of weights wrap around as
  64-bit integers do; a well-formed constraint has weights whose sum is far from that.
\<close>

section \<open>The data\<close>

record pbdata =
  weights :: "int list"
  watched :: "bool list"

record clause =
  lits :: "lit list"
  lbdValue :: "32 word"
  c_activity :: rat
  pbData :: "pbdata option"

definition learnedMask :: "32 word" where
  "learnedMask = push_bit 31 1"

definition lockedMask :: "32 word" where
  "lockedMask = push_bit 30 1"

definition bothMasks :: "32 word" where
  "bothMasks = learnedMask OR lockedMask"

definition NewClause :: "lit list \<Rightarrow> clause" where
  "NewClause ls = \<lparr>lits = ls, lbdValue = 0, c_activity = 0, pbData = None\<rparr>"

definition NewCardClause :: "lit list \<Rightarrow> int \<Rightarrow> clause option" where
  "NewCardClause ls cd =
     (if cd < 1 \<or> cd > int (length ls) then None
      else Some \<lparr>lits = ls, lbdValue = word_of_int (cd - 1), c_activity = 0, pbData = None\<rparr>)"

text \<open>
  \<open>sort.Sort\<close> on the pairs of literals and weights, heaviest first; without weights nothing is
  less than anything and the order is kept. The comparisons read every weight as soon as there
  are two literals, so missing weights panic; weights beyond the literals are left in place.
\<close>

definition sortWeighted :: "lit list \<Rightarrow> int list option \<Rightarrow> (lit list \<times> int list option) option"
  where
  "sortWeighted ls ws = (case ws of
       None \<Rightarrow> Some (ls, None)
     | Some w \<Rightarrow>
         if 2 \<le> length ls \<and> length w < length ls then None
         else if length ls \<le> length w then
           let ps = sort_key (\<lambda>p. - snd p) (zip ls w)
           in Some (map fst ps, Some (map snd ps @ drop (length ls) w))
         else Some (ls, Some w))"

definition NewPBClause :: "lit list \<Rightarrow> int list option \<Rightarrow> int \<Rightarrow> clause option" where
  "NewPBClause ls ws cd =
     (if cd < 1 then None
      else do {
        (ls', ws') \<leftarrow> sortWeighted ls ws;
        let w = (case ws' of None \<Rightarrow> replicate (length ls') 1 | Some w \<Rightarrow> w);
        Some \<lparr>lits = ls', lbdValue = word_of_int (cd - 1), c_activity = 0,
              pbData = Some \<lparr>weights = w, watched = replicate (length ls') False\<rparr>\<rparr>
      })"

definition NewLearnedClause :: "lit list \<Rightarrow> clause" where
  "NewLearnedClause ls = \<lparr>lits = ls, lbdValue = learnedMask, c_activity = 0, pbData = None\<rparr>"

section \<open>Queries and updates\<close>

definition Learned :: "clause \<Rightarrow> bool" where
  "Learned c \<longleftrightarrow> lbdValue c AND learnedMask = learnedMask"

definition Cardinality :: "clause \<Rightarrow> int" where
  "Cardinality c =
     (if Learned c then 1 else int (unat (lbdValue c AND NOT bothMasks)) + 1)"

definition PseudoBoolean :: "clause \<Rightarrow> bool" where
  "PseudoBoolean c \<longleftrightarrow> pbData c \<noteq> None"

definition lock :: "clause \<Rightarrow> clause" where
  "lock c = c\<lparr>lbdValue := lbdValue c OR lockedMask\<rparr>"

definition unlock :: "clause \<Rightarrow> clause" where
  "unlock c = c\<lparr>lbdValue := lbdValue c AND NOT lockedMask\<rparr>"

definition lbd :: "clause \<Rightarrow> int" where
  "lbd c = int (unat (lbdValue c AND NOT bothMasks))"

definition setLbd :: "clause \<Rightarrow> int \<Rightarrow> clause" where
  "setLbd c n = c\<lparr>lbdValue := (lbdValue c AND bothMasks) OR word_of_int n\<rparr>"

definition incLbd :: "clause \<Rightarrow> clause" where
  "incLbd c = c\<lparr>lbdValue := lbdValue c + 1\<rparr>"

definition isLocked :: "clause \<Rightarrow> bool" where
  "isLocked c \<longleftrightarrow> lbdValue c AND bothMasks = bothMasks"

definition Len :: "clause \<Rightarrow> nat" where
  "Len c = length (lits c)"

definition Get :: "clause \<Rightarrow> nat \<Rightarrow> lit option" where
  "Get c i = get (lits c) i"

definition First :: "clause \<Rightarrow> lit option" where
  "First c = get (lits c) 0"

definition Second :: "clause \<Rightarrow> lit option" where
  "Second c = get (lits c) 1"

definition Set :: "clause \<Rightarrow> nat \<Rightarrow> lit \<Rightarrow> clause option" where
  "Set c i l = do { ls \<leftarrow> put (lits c) i l; Some (c\<lparr>lits := ls\<rparr>) }"

definition Weight :: "clause \<Rightarrow> nat \<Rightarrow> int option" where
  "Weight c i = (case pbData c of None \<Rightarrow> Some 1 | Some p \<Rightarrow> get (weights p) i)"

definition WeightSum :: "clause \<Rightarrow> int" where
  "WeightSum c = (case pbData c of
     None \<Rightarrow> int (length (lits c)) | Some p \<Rightarrow> sum64 (weights p))"

definition swapElems :: "'a list \<Rightarrow> nat \<Rightarrow> nat \<Rightarrow> 'a list option" where
  "swapElems xs i j = do {
     y \<leftarrow> get xs j; x \<leftarrow> get xs i;
     xs \<leftarrow> put xs i y;
     put xs j x }"

definition swap :: "clause \<Rightarrow> nat \<Rightarrow> nat \<Rightarrow> clause option" where
  "swap c i j = do {
     ls \<leftarrow> swapElems (lits c) i j;
     case pbData c of
       None \<Rightarrow> Some (c\<lparr>lits := ls\<rparr>)
     | Some p \<Rightarrow> do {
         ws \<leftarrow> swapElems (weights p) i j;
         Some (c\<lparr>lits := ls, pbData := Some (p\<lparr>weights := ws\<rparr>)\<rparr>) } }"

definition updateCardinality :: "clause \<Rightarrow> int \<Rightarrow> clause" where
  "updateCardinality c add =
     (if add < 0 \<and> (word_of_int (- add) :: 32 word) > lbdValue c then c\<lparr>lbdValue := 0\<rparr>
      else c\<lparr>lbdValue := lbdValue c + word_of_int add\<rparr>)"

definition removeLast :: "'a list \<Rightarrow> nat \<Rightarrow> 'a list option" where
  "removeLast xs idx = (if idx < length xs then Some (swap_remove xs idx) else None)"

definition removeLit :: "clause \<Rightarrow> nat \<Rightarrow> clause option" where
  "removeLit c idx = do {
     ls \<leftarrow> removeLast (lits c) idx;
     case pbData c of
       None \<Rightarrow> Some (c\<lparr>lits := ls\<rparr>)
     | Some p \<Rightarrow> do {
         ws \<leftarrow> removeLast (weights p) idx;
         Some (c\<lparr>lits := ls, pbData := Some (p\<lparr>weights := ws\<rparr>)\<rparr>) } }"

definition Shrink :: "clause \<Rightarrow> nat \<Rightarrow> clause option" where
  "Shrink c newLen = do {
     ls \<leftarrow> upto (lits c) newLen;
     case pbData c of
       None \<Rightarrow> Some (c\<lparr>lits := ls\<rparr>)
     | Some p \<Rightarrow> do {
         ws \<leftarrow> upto (weights p) newLen;
         wd \<leftarrow> upto (watched p) newLen;
         Some (c\<lparr>lits := ls, pbData := Some (p\<lparr>weights := ws, watched := wd\<rparr>)\<rparr>) } }"

section \<open>Simplification of a pseudo-boolean constraint\<close>

text \<open>The first loop of \<open>SimplifyPB\<close>: the leading literals heavier than \<open>thresh\<close> are units.\<close>

function simplifyUnits ::
  "clause \<Rightarrow> int \<Rightarrow> nat \<Rightarrow> lit list \<Rightarrow> int \<Rightarrow> (nat \<times> lit list \<times> int) option" where
  "simplifyUnits c thresh i units cd =
     (if i < Len c then do {
        w \<leftarrow> Weight c i;
        if w > thresh then do {
          l \<leftarrow> Get c i;
          simplifyUnits c thresh (Suc i) (units @ [l]) (int64 (cd - w)) }
        else Some (i, units, cd) }
      else Some (i, units, cd))"
  by pat_completeness auto
termination
  by (relation "measure (\<lambda>(c, thresh, i, units, cd). Len c - i)") auto

declare simplifyUnits.simps [simp del]

text \<open>
  The result is \<open>(units, c2, ok)\<close>. The loop that saturates the weights tests and changes index
  0 only, so it runs at most once.
\<close>

definition SimplifyPB :: "clause \<Rightarrow> (lit list \<times> clause option \<times> bool) option" where
  "SimplifyPB c =
     (let cd = Cardinality c; thresh = int64 (WeightSum c - cd) in
      if thresh < 0 then Some ([], None, False)
      else do {
        (i, units, cd) \<leftarrow> simplifyUnits c thresh 0 [] cd;
        if cd \<le> 0 then Some (units, None, True)
        else do {
          p \<leftarrow> pbData c;
          let newLits = drop i (lits c);
          let newWeights = copyPad (Len c - i) (drop i (weights p));
          w0 \<leftarrow> get newWeights 0;
          let newWeights = (if w0 > cd then newWeights[0 := cd] else newWeights);
          c2 \<leftarrow> NewPBClause newLits (Some newWeights) cd;
          Some (units, Some c2, True) } })"

section \<open>The packed word\<close>

lemma masks_numeral:
  "learnedMask = 0x80000000" "lockedMask = 0x40000000" "NOT bothMasks = 0x3FFFFFFF"
  "bothMasks = 0xC0000000"
  by (simp_all add: learnedMask_def lockedMask_def bothMasks_def)

lemma low_mask: "w AND NOT bothMasks = take_bit 30 (w :: 32 word)"
proof -
  have "mask 30 = (0x3FFFFFFF :: 32 word)" by (simp add: mask_eq_exp_minus_1)
  then show ?thesis by (simp add: masks_numeral(3) take_bit_eq_mask)
qed

lemma unat_low_mask: "int (unat (w AND NOT bothMasks)) = int (unat w) mod 2 ^ 30"
  for w :: "32 word"
proof -
  have "int (unat (w AND NOT bothMasks)) = uint (take_bit 30 w)"
    by (simp only: low_mask uint_nat)
  also have "\<dots> = uint w mod 2 ^ 30"
    by (simp only: unsigned_take_bit_eq) (simp add: take_bit_eq_mod)
  finally show ?thesis by (simp only: uint_nat)
qed

lemma bit_learnedMask [simp]: "bit learnedMask n \<longleftrightarrow> n = 31"
  unfolding learnedMask_def bit_push_bit_iff bit_1_iff by auto

lemma bit_lockedMask [simp]: "bit lockedMask n \<longleftrightarrow> n = 30"
  unfolding lockedMask_def bit_push_bit_iff bit_1_iff by auto

lemma bit_bothMasks [simp]: "bit bothMasks n \<longleftrightarrow> n = 31 \<or> n = 30"
  by (simp add: bothMasks_def bit_or_iff)

lemma learned_bit: "w AND learnedMask = learnedMask \<longleftrightarrow> bit w 31" for w :: "32 word"
proof
  assume "w AND learnedMask = learnedMask"
  then have "bit (w AND learnedMask) 31 = bit learnedMask 31" by simp
  then show "bit w 31" by (simp add: bit_and_iff)
next
  assume "bit w 31"
  then show "w AND learnedMask = learnedMask"
    by (intro bit_word_eqI) (auto simp: bit_and_iff)
qed

lemma Learned_iff: "Learned c \<longleftrightarrow> bit (lbdValue c) 31"
  by (simp add: Learned_def learned_bit)

lemma not_bit31:
  assumes "unat w < 2 ^ 31"
  shows "\<not> bit (w :: 32 word) 31"
proof
  assume "bit w 31"
  then have "bit (unat w) 31" by (simp add: bit_unsigned_iff)
  then have o: "odd (unat w div 2 ^ 31)" by (rule bit_iff_odd [THEN iffD1])
  have z: "unat w div 2 ^ 31 = 0" using assms by (rule div_less)
  from o show False unfolding z by simp
qed

lemma small_word: "0 \<le> k \<Longrightarrow> k < 2 ^ 32 \<Longrightarrow> int (unat (word_of_int k :: 32 word)) = k"
  by (simp add: unsigned_of_int take_bit_int_eq_self)

text \<open>A cardinality that the packed word can hold without touching its flags.\<close>

definition card_fits :: "int \<Rightarrow> bool" where
  "card_fits k \<longleftrightarrow> 1 \<le> k \<and> k \<le> 2 ^ 30"

lemma Cardinality_word:
  assumes "card_fits k" and "lbdValue c = word_of_int (k - 1)"
  shows "Cardinality c = k" "\<not> Learned c" "int (unat (lbdValue c)) = k - 1"
proof -
  have k: "0 \<le> k - 1" "k - 1 < 2 ^ 30" using assms(1) by (auto simp: card_fits_def)
  have u: "int (unat (word_of_int (k - 1) :: 32 word)) = k - 1"
    using k by (intro small_word) auto
  have "int (unat (word_of_int (k - 1) :: 32 word)) < int (2 ^ 31)"
    unfolding u using k by simp
  then have "unat (word_of_int (k - 1) :: 32 word) < 2 ^ 31" by (simp only: of_nat_less_iff)
  then show l: "\<not> Learned c" by (simp add: Learned_iff assms(2) not_bit31)
  have "int (unat (lbdValue c AND NOT bothMasks)) = (k - 1) mod 2 ^ 30"
    by (simp only: unat_low_mask assms(2) u)
  then show "Cardinality c = k" using l k by (simp add: Cardinality_def)
  show "int (unat (lbdValue c)) = k - 1" by (simp only: assms(2) u)
qed

section \<open>The meaning of a constraint\<close>

type_synonym asg = "var \<Rightarrow> bool"
type_synonym wterm = "lit \<times> int"

definition lit_true :: "asg \<Rightarrow> lit \<Rightarrow> bool" where
  "lit_true a l \<longleftrightarrow> a (Lit_Var l) = IsPositive l"

definition wsum :: "asg \<Rightarrow> wterm list \<Rightarrow> int" where
  "wsum a ps = (\<Sum>p\<leftarrow>ps. if lit_true a (fst p) then snd p else 0)"

definition c_weights :: "clause \<Rightarrow> int list" where
  "c_weights c = (case pbData c of None \<Rightarrow> replicate (length (lits c)) 1 | Some p \<Rightarrow> weights p)"

definition terms :: "clause \<Rightarrow> wterm list" where
  "terms c = zip (lits c) (c_weights c)"

definition sat_clause :: "asg \<Rightarrow> clause \<Rightarrow> bool" where
  "sat_clause a c \<longleftrightarrow> Cardinality c \<le> wsum a (terms c)"

text \<open>Literals of the first \<open>n\<close> variables.\<close>

definition lit_ok :: "int \<Rightarrow> lit \<Rightarrow> bool" where
  "lit_ok n l \<longleftrightarrow> 0 \<le> l \<and> Lit_Var l < n"

abbreviation lits_ok :: "int \<Rightarrow> lit list \<Rightarrow> bool" where
  "lits_ok n ls \<equiv> (\<forall>l \<in> set ls. lit_ok n l)"

text \<open>Neither flag of the packed word is set.\<close>

definition flags_clear :: "clause \<Rightarrow> bool" where
  "flags_clear c \<longleftrightarrow> unat (lbdValue c) < 2 ^ 30"

text \<open>
  A well-formed pseudo-boolean constraint: as many weights as literals, all positive, whose sum is
  below \<open>2 ^ 62\<close>.
\<close>

definition pb_ok :: "clause \<Rightarrow> bool" where
  "pb_ok c \<longleftrightarrow> flags_clear c \<and>
     (\<exists>p. pbData c = Some p \<and> length (weights p) = length (lits c) \<and> (\<forall>w \<in> set (weights p). 0 < w)
        \<and> sum_fits (weights p))"

lemma lit_okD: "lit_ok n l \<Longrightarrow> 0 \<le> l" "lit_ok n l \<Longrightarrow> Lit_Var l < n"
  by (simp_all add: lit_ok_def)

lemma lit_ok_var: "lit_ok n l \<Longrightarrow> 0 \<le> Lit_Var l"
  by (auto simp: lit_ok_def Lit_Var_nonneg)

lemma lit_ok_Negation [simp]: "lit_ok n (Negation l) = lit_ok n l"
  by (auto simp: lit_ok_def)

lemma lit_true_Negation [simp]: "0 \<le> l \<Longrightarrow> lit_true a (Negation l) \<longleftrightarrow> \<not> lit_true a l"
  by (auto simp: lit_true_def)

lemma wsum_Nil [simp]: "wsum a [] = 0"
  by (simp add: wsum_def)

lemma wsum_Cons [simp]:
  "wsum a (p # ps) = (if lit_true a (fst p) then snd p else 0) + wsum a ps"
  by (simp add: wsum_def)

lemma wsum_append [simp]: "wsum a (ps @ qs) = wsum a ps + wsum a qs"
  by (simp add: wsum_def)

lemma wsum_mset: "wsum a ps = (\<Sum>p\<in>#mset ps. if lit_true a (fst p) then snd p else 0)"
  by (induction ps) simp_all

lemma wsum_cong_mset: "mset ps = mset qs \<Longrightarrow> wsum a ps = wsum a qs"
  by (simp add: wsum_mset)

lemma wsum_bounds:
  "(\<forall>p \<in> set ps. 0 \<le> snd p) \<Longrightarrow> 0 \<le> wsum a ps \<and> wsum a ps \<le> sum_list (map snd ps)"
  by (induction ps) (auto simp: add_increasing)

lemma wsum_all_true: "(\<forall>p \<in> set ps. lit_true a (fst p)) \<Longrightarrow> wsum a ps = sum_list (map snd ps)"
  by (induction ps) auto

lemma wsum_false_bound:
  assumes "\<forall>p \<in> set ps. 0 \<le> snd p" and "p \<in> set ps" and "\<not> lit_true a (fst p)"
  shows "wsum a ps \<le> sum_list (map snd ps) - snd p"
proof -
  obtain us vs where ps: "ps = us @ p # vs" using assms(2) by (meson split_list)
  then show ?thesis using assms(1,3) wsum_bounds [of us a] wsum_bounds [of vs a] by auto
qed

lemma wsum_ones: "wsum a (zip ls (replicate (length ls) 1)) = int (length (filter (lit_true a) ls))"
  by (induction ls) auto

lemma flags_clear_card: "flags_clear c \<Longrightarrow> Cardinality c = int (unat (lbdValue c)) + 1"
  unfolding flags_clear_def
proof -
  assume f: "unat (lbdValue c) < 2 ^ 30"
  have "lbdValue c = word_of_int (int (unat (lbdValue c)) + 1 - 1)" by simp
  moreover have "card_fits (int (unat (lbdValue c)) + 1)"
  proof -
    have "int (unat (lbdValue c)) < int (2 ^ 30)" using f by (simp only: of_nat_less_iff)
    then show ?thesis by (simp add: card_fits_def)
  qed
  ultimately show ?thesis by (rule Cardinality_word(1) [rotated])
qed

lemma flags_clear_fits: "flags_clear c \<Longrightarrow> card_fits (Cardinality c)"
proof -
  assume f: "flags_clear c"
  then have "int (unat (lbdValue c)) < int (2 ^ 30)"
    unfolding flags_clear_def by (simp only: of_nat_less_iff)
  then show ?thesis using flags_clear_card [OF f] by (simp add: card_fits_def)
qed

lemma flags_clear_word: "card_fits k \<Longrightarrow> lbdValue c = word_of_int (k - 1) \<Longrightarrow> flags_clear c"
proof -
  assume k: "card_fits k" "lbdValue c = word_of_int (k - 1)"
  have "int (unat (lbdValue c)) < int (2 ^ 30)"
    using Cardinality_word(3) [OF k] k(1) by (simp add: card_fits_def)
  then show ?thesis unfolding flags_clear_def by (simp only: of_nat_less_iff)
qed

section \<open>Constructors and updates\<close>

lemma sortWeighted_spec:
  assumes "length ws = length ls"
  shows "\<exists>ls' ws'. sortWeighted ls (Some ws) = Some (ls', Some ws') \<and> length ls' = length ls
      \<and> length ws' = length ls \<and> mset (zip ls' ws') = mset (zip ls ws)
      \<and> sorted_wrt (\<ge>) ws'"
proof -
  define ps where "ps = sort_key (\<lambda>p. - snd p) (zip ls ws)"
  have "sorted (map (\<lambda>p. - snd p) ps)" by (simp add: ps_def)
  then have "sorted_wrt (\<ge>) (map snd ps)" by (simp add: sorted_wrt_map sorted_map)
  moreover have "length ps = length ls" using assms by (simp add: ps_def)
  moreover have "mset (zip (map fst ps) (map snd ps)) = mset (zip ls ws)"
    by (simp add: zip_map_fst_snd) (simp add: ps_def)
  ultimately show ?thesis
    using assms by (auto simp: sortWeighted_def Let_def ps_def [symmetric])
qed

lemma NewPBClause_spec:
  assumes "1 \<le> k" and "length ws = length ls"
  shows "wp (NewPBClause ls (Some ws) k) (\<lambda>c.
      \<exists>ws'. pbData c = Some \<lparr>weights = ws', watched = replicate (length ls) False\<rparr>
        \<and> length ws' = length ls \<and> length (lits c) = length ls
        \<and> mset (terms c) = mset (zip ls ws) \<and> sorted_wrt (\<ge>) ws'
        \<and> lbdValue c = word_of_int (k - 1))"
proof -
  obtain ls' ws' where s: "sortWeighted ls (Some ws) = Some (ls', Some ws')"
    and l: "length ls' = length ls" "length ws' = length ls"
    and m: "mset (zip ls' ws') = mset (zip ls ws)" "sorted_wrt (\<ge>) ws'"
    using sortWeighted_spec [OF assms(2)] by blast
  show ?thesis
    using assms(1) l m by (auto simp: NewPBClause_def s Let_def terms_def c_weights_def)
qed

lemma zip_mset_map: "length ws = length ls \<Longrightarrow> mset (zip ls ws) = mset (zip ls' ws') \<Longrightarrow>
    length ws' = length ls' \<Longrightarrow> mset ls = mset ls' \<and> mset ws = mset ws'"
  by (metis map_fst_zip map_snd_zip mset_map)

lemma set_via_mset: "mset xs = mset ys \<Longrightarrow> set xs = set ys"
  by (metis set_mset_mset)

text \<open>
  What the parsers rely on: the constraint built has the terms given, up to their order, the
  cardinality given, and its weights are in decreasing order.
\<close>

lemma NewPBClause_pb_ok:
  assumes "card_fits k" and "length ws = length ls" and "\<forall>w \<in> set ws. 0 < w" and "sum_fits ws"
  shows "wp (NewPBClause ls (Some ws) k) (\<lambda>c. pb_ok c \<and> Cardinality c = k
      \<and> mset (terms c) = mset (zip ls ws) \<and> set (lits c) = set ls \<and> sorted_wrt (\<ge>) (c_weights c))"
proof (rule wp_mono [OF NewPBClause_spec [OF _ assms(2)]], goal_cases)
  case 1
  then show ?case using assms(1) by (simp add: card_fits_def)
next
  case (2 c)
  then obtain ws' where c: "pbData c = Some \<lparr>weights = ws', watched = replicate (length ls) False\<rparr>"
      "length ws' = length ls" "length (lits c) = length ls" "mset (terms c) = mset (zip ls ws)"
      "sorted_wrt (\<ge>) ws'" "lbdValue c = word_of_int (k - 1)"
    by blast
  have "mset (zip (lits c) ws') = mset (zip ls ws)"
    using c(1,4) by (simp add: terms_def c_weights_def)
  then have "mset (lits c) = mset ls" "mset ws' = mset ws"
    using zip_mset_map [of ws' "lits c" ls ws] c(2,3) assms(2) by auto
  then have "set (lits c) = set ls" "set ws' = set ws" by (auto dest: set_via_mset)
  moreover have "sum_fits ws'" using \<open>mset ws' = mset ws\<close> assms(4) sum_fits_cong by blast
  moreover have "flags_clear c" by (rule flags_clear_word [OF assms(1) c(6)])
  ultimately show ?case
    using c assms(3) Cardinality_word(1) [OF assms(1) c(6)]
    by (simp add: pb_ok_def c_weights_def)
qed

lemma removeLast_spec:
  "wp (removeLast xs i) (\<lambda>ys. length ys = length xs - 1 \<and> mset xs = add_mset (xs ! i) (mset ys))
   \<longleftrightarrow> i < length xs"
  by (simp add: removeLast_def mset_swap_remove)

lemma zip_swap_remove:
  assumes "i < length xs" and "length ys = length xs"
  shows "zip (swap_remove xs i) (swap_remove ys i) = swap_remove (zip xs ys) i"
proof -
  have l: "last (zip xs ys) = (last xs, last ys)"
    using assms by (cases xs rule: rev_cases; cases ys rule: rev_cases) auto
  have z: "(zip xs ys)[i := (last xs, last ys)] = zip (xs[i := last xs]) (ys[i := last ys])"
    by (simp add: update_zip)
  show ?thesis
    unfolding swap_remove_def l z by (simp add: butlast_conv_take take_zip assms(2))
qed

lemma removeLit_spec:
  assumes "i < length (lits c)" and "length (c_weights c) = length (lits c)"
  shows "wp (removeLit c i) (\<lambda>c'. terms c' = swap_remove (terms c) i
      \<and> lits c' = swap_remove (lits c) i \<and> c_weights c' = swap_remove (c_weights c) i
      \<and> lbdValue c' = lbdValue c \<and> (pbData c' = None \<longleftrightarrow> pbData c = None))"
proof (cases "pbData c")
  case None
  have "swap_remove (replicate (length (lits c)) (1 :: int)) i
      = replicate (length (lits c) - 1) 1"
    using assms(1) last_replicate [of "length (lits c)" "1 :: int", OF gr_implies_not0 [OF assms(1)]]
    by (intro nth_equalityI) (auto simp: swap_remove_def nth_butlast nth_list_update)
  then show ?thesis
    using assms None zip_swap_remove [OF assms(1), of "c_weights c"]
    by (simp add: removeLit_def removeLast_def terms_def c_weights_def)
next
  case (Some p)
  then show ?thesis
    using assms zip_swap_remove [OF assms(1), of "c_weights c"]
    by (simp add: removeLit_def removeLast_def terms_def c_weights_def)
qed

text \<open>
  \<open>updateCardinality\<close> adds to the cardinality, but never goes below one: the word holds the
  cardinality minus one and is clamped at zero.
\<close>

lemma updateCardinality_decrease:
  assumes "flags_clear c" and "0 \<le> w" and "w < 2 ^ 32"
  shows "flags_clear (updateCardinality c (- w))"
    and "Cardinality (updateCardinality c (- w)) = max 1 (Cardinality c - w)"
proof -
  define x where "x = int (unat (lbdValue c))"
  have x: "0 \<le> x" "x < 2 ^ 30"
  proof -
    have "int (unat (lbdValue c)) < int (2 ^ 30)"
      using assms(1) unfolding flags_clear_def by (simp only: of_nat_less_iff)
    then show "x < 2 ^ 30" "0 \<le> x" by (simp_all add: x_def)
  qed
  have lx: "lbdValue c = word_of_int x" by (simp add: x_def)
  have cx: "Cardinality c = x + 1" using flags_clear_card [OF assms(1)] by (simp add: x_def)
  have uw: "int (unat (word_of_int w :: 32 word)) = w" using assms(2,3) by (rule small_word)
  have gt: "(word_of_int (- (- w)) :: 32 word) > lbdValue c \<longleftrightarrow> x < w"
    unfolding word_less_nat_alt by (simp only: minus_minus of_nat_less_iff [where 'a = int, symmetric] uw x_def)
  have "flags_clear (updateCardinality c (- w))
      \<and> Cardinality (updateCardinality c (- w)) = max 1 (Cardinality c - w)"
  proof (cases "x < w")
    case True
    then have "lbdValue (updateCardinality c (- w)) = word_of_int (1 - 1)"
      using gt assms(2) x by (simp add: updateCardinality_def)
    moreover have "card_fits 1" by (simp add: card_fits_def)
    ultimately show ?thesis
      using flags_clear_word Cardinality_word(1) True cx by (simp add: max_def)
  next
    case False
    have fits: "card_fits (x - w + 1)" using False x assms(2) by (simp add: card_fits_def)
    have "lbdValue (updateCardinality c (- w)) = word_of_int (x - w + 1 - 1)"
      using gt False by (simp add: updateCardinality_def lx)
    then show ?thesis
      using flags_clear_word [OF fits] Cardinality_word(1) [OF fits] False cx by (simp add: max_def)
  qed
  then show "flags_clear (updateCardinality c (- w))"
    "Cardinality (updateCardinality c (- w)) = max 1 (Cardinality c - w)" by auto
qed

lemma updateCardinality_frame [simp]:
  "lits (updateCardinality c k) = lits c" "pbData (updateCardinality c k) = pbData c"
  "c_weights (updateCardinality c k) = c_weights c" "terms (updateCardinality c k) = terms c"
  by (simp_all add: updateCardinality_def c_weights_def terms_def split: option.split)

section \<open>Correctness of SimplifyPB\<close>

lemma simplifyUnits_spec:
  assumes "pbData c = Some p" and "length (weights p) = length (lits c)" and "i \<le> Len c" and "int64 k = k"
  shows "wp (simplifyUnits c t i us k) (\<lambda>(j, us', k').
      i \<le> j \<and> j \<le> Len c \<and> us' = us @ drop i (take j (lits c))
      \<and> k' = int64 (k - sum_list (drop i (take j (weights p))))
      \<and> (\<forall>m. i \<le> m \<and> m < j \<longrightarrow> t < weights p ! m) \<and> (j < Len c \<longrightarrow> weights p ! j \<le> t))"
  using assms
proof (induction c t i us k rule: simplifyUnits.induct)
  case (1 c t i us k)
  show ?case
  proof (cases "i < Len c \<and> t < weights p ! i")
    case True
    have i: "i < length (lits c)" "i < length (weights p)"
      using True "1.prems" by (simp_all add: Len_def)
    have d: "drop i (take j xs) = xs ! i # drop (Suc i) (take j xs)"
      if "Suc i \<le> j" "j \<le> length xs" for j and xs :: "'x list"
      using that by (subst drop_nth) auto
    have "wp (simplifyUnits c t (Suc i) (us @ [lits c ! i]) (int64 (k - weights p ! i))) (\<lambda>(j, us', k').
        Suc i \<le> j \<and> j \<le> Len c \<and> us' = (us @ [lits c ! i]) @ drop (Suc i) (take j (lits c))
        \<and> k' = int64 (k - weights p ! i - sum_list (drop (Suc i) (take j (weights p))))
        \<and> (\<forall>m. Suc i \<le> m \<and> m < j \<longrightarrow> t < weights p ! m) \<and> (j < Len c \<longrightarrow> weights p ! j \<le> t))"
      using "1.IH" True i "1.prems" by (simp add: Weight_def Get_def)
    then have "wp (simplifyUnits c t (Suc i) (us @ [lits c ! i]) (int64 (k - weights p ! i))) (\<lambda>(j, us', k').
        i \<le> j \<and> j \<le> Len c \<and> us' = us @ drop i (take j (lits c))
        \<and> k' = int64 (k - sum_list (drop i (take j (weights p))))
        \<and> (\<forall>m. i \<le> m \<and> m < j \<longrightarrow> t < weights p ! m) \<and> (j < Len c \<longrightarrow> weights p ! j \<le> t))"
    proof (rule wp_mono, goal_cases)
      case (1 r)
      obtain j us' k' where r: "r = (j, us', k')" by (cases r)
      have "t < weights p ! m" if "i \<le> m" "m < j" for m
        using that 1 r True by (cases "m = i") auto
      then show ?case using 1 r "1.prems" by (simp add: d Len_def diff_diff_eq)
    qed
    then show ?thesis
      using True i "1.prems" by (subst simplifyUnits.simps) (simp add: Weight_def Get_def)
  next
    case False
    then show ?thesis
      using "1.prems" by (subst simplifyUnits.simps) (auto simp: Weight_def Len_def)
  qed
qed

lemma saturate_first:
  assumes "\<forall>w \<in> set (w0 # ws). 0 < w" and "0 < k"
  shows "k \<le> wsum a (zip (l # ls) (min w0 k # ws)) \<longleftrightarrow> k \<le> wsum a (zip (l # ls) (w0 # ws))"
proof -
  have "0 \<le> wsum a (zip ls ws)"
    using assms(1) by (intro wsum_bounds [THEN conjunct1]) (auto dest!: set_zip_rightD intro: less_imp_le)
  then show ?thesis by auto
qed

lemma wsum_split_units:
  assumes len: "length ws = length ls" and pos: "\<forall>w \<in> set ws. 0 < w" and j: "j \<le> length ls"
    and heavy: "\<forall>m < j. sum_list ws - k < ws ! m"
  shows "k \<le> wsum a (zip ls ws) \<longleftrightarrow> (\<forall>l \<in> set (take j ls). lit_true a l)
     \<and> k - sum_list (take j ws) \<le> wsum a (zip (drop j ls) (drop j ws))"
proof -
  have z: "zip ls ws = zip (take j ls) (take j ws) @ zip (drop j ls) (drop j ws)"
    by (metis append_take_drop_id length_take len zip_append)
  have units: "\<forall>l \<in> set (take j ls). lit_true a l" if "k \<le> wsum a (zip ls ws)"
  proof (rule ccontr)
    assume "\<not> ?thesis"
    then obtain m where m: "m < j" "m < length ls" "\<not> lit_true a (ls ! m)"
      using j by (auto simp: in_set_conv_nth)
    have "(ls ! m, ws ! m) \<in> set (zip ls ws)" using m len by (auto simp: set_zip)
    then have "wsum a (zip ls ws) \<le> sum_list (map snd (zip ls ws)) - ws ! m"
      using wsum_false_bound [of "zip ls ws" "(ls ! m, ws ! m)" a] m(3) pos
      by (force dest: set_zip_rightD intro: less_imp_le)
    then show False using heavy m(1) that by (fastforce simp: len)
  qed
  have "wsum a (zip (take j ls) (take j ws)) = sum_list (take j ws)"
    if "\<forall>l \<in> set (take j ls). lit_true a l"
    using that len j by (subst wsum_all_true) (auto dest: set_zip_leftD)
  then show ?thesis using units unfolding z by auto
qed

lemma rebuildSaturated:
  assumes pos: "\<forall>w \<in> set (w0 # ws). 0 < w" and sum: "sum_fits (w0 # ws)"
    and len: "length (min w0 k # ws) = length (l # ls)" and fits: "card_fits k"
  shows "wp (NewPBClause (l # ls) (Some (min w0 k # ws)) k) (\<lambda>c. pb_ok c
     \<and> sorted_wrt (\<ge>) (c_weights c)
     \<and> (\<forall>a. sat_clause a c \<longleftrightarrow> k \<le> wsum a (zip (l # ls) (w0 # ws))))"
proof (rule wp_mono [OF NewPBClause_pb_ok [OF fits len]])
  have k: "0 < k" using fits by (simp add: card_fits_def)
  then show "\<forall>w \<in> set (min w0 k # ws). 0 < w" using pos by auto
  show "sum_fits (min w0 k # ws)" using sum pos k by (simp add: sum_fits_def)
  fix c assume c: "pb_ok c \<and> Cardinality c = k \<and> mset (terms c) = mset (zip (l # ls) (min w0 k # ws))
    \<and> set (lits c) = set (l # ls) \<and> sorted_wrt (\<ge>) (c_weights c)"
  then have "wsum a (terms c) = wsum a (zip (l # ls) (min w0 k # ws))" for a
    by (blast intro: wsum_cong_mset)
  then show "pb_ok c \<and> sorted_wrt (\<ge>) (c_weights c)
     \<and> (\<forall>a. sat_clause a c \<longleftrightarrow> k \<le> wsum a (zip (l # ls) (w0 # ws)))"
    using c saturate_first [OF pos k] by (simp add: sat_clause_def)
qed

text \<open>
  C18. \<open>SimplifyPB\<close> on a well-formed constraint, with positive, decreasing weights that sum up to less
  than \<open>2 ^ 62\<close> and a cardinality that fits the packed word, never panics. When it
  reports that the constraint cannot be satisfied, no assignment satisfies it; otherwise the
  constraint is equivalent to its unit literals together with the simplified constraint (if
  any), which is well formed again.
\<close>

theorem SimplifyPB_correct:
  assumes "pb_ok c" and "sorted_wrt (\<ge>) (c_weights c)"
  shows "wp (SimplifyPB c) (\<lambda>(units, c2, ok).
      (ok \<longrightarrow> (\<forall>a. sat_clause a c \<longleftrightarrow>
          (\<forall>l \<in> set units. lit_true a l) \<and> (case c2 of None \<Rightarrow> True | Some c' \<Rightarrow> sat_clause a c')))
    \<and> (\<not> ok \<longrightarrow> (\<forall>a. \<not> sat_clause a c))
    \<and> (\<forall>c'. c2 = Some c' \<longrightarrow> pb_ok c' \<and> sorted_wrt (\<ge>) (c_weights c')))"
proof -
  obtain p where p: "pbData c = Some p" "length (weights p) = length (lits c)"
    and pos: "\<forall>w \<in> set (weights p). 0 < w" and fl: "flags_clear c" and sum: "sum_fits (weights p)"
    using assms(1) by (auto simp: pb_ok_def)
  define ls ws k where "ls = lits c" and "ws = weights p" and "k = Cardinality c"
  have tm: "terms c = zip ls ws" "WeightSum c = sum_list ws" and len: "length ws = length ls"
    and pos: "\<forall>w \<in> set ws. 0 < w" and sum: "sum_fits ws"
    using p pos sum by (simp_all add: terms_def c_weights_def WeightSum_def ls_def ws_def sum64_small)
  have fits: "card_fits k" using flags_clear_fits [OF fl] by (simp add: k_def)
  have "0 \<le> sum_list ws" using pos by (intro sum_list_nonneg) (auto intro: less_imp_le)
  then have in64: "int64 (sum_list ws - k) = sum_list ws - k" "int64 k = k"
    using sum_fits_sum [OF sum] fits by (simp_all add: card_fits_def int64_id)
  have part: "int64 (k - sum_list (take j ws)) = k - sum_list (take j ws)" for j
  proof -
    have "mset (take j ws) \<subseteq># mset ws" by (metis append_take_drop_id mset_append mset_subset_eq_add_left)
    then have "sum_fits (take j ws)" by (rule sum_fits_sub [OF _ sum])
    then show ?thesis using sum_fits_sum [of "take j ws"] fits unfolding card_fits_def by (intro int64_abs) (simp, linarith)
  qed
  have nn: "\<forall>q \<in> set (zip xs ys). 0 \<le> snd q" if "set ys \<subseteq> set ws" for xs :: "lit list" and ys
    using pos that by (fastforce dest: set_zip_rightD)
  have sat: "sat_clause a c \<longleftrightarrow> k \<le> wsum a (zip ls ws)" for a
    by (simp add: sat_clause_def tm k_def)
  show ?thesis
  proof (cases "sum_list ws - k < 0")
    case True
    have "wsum a (zip ls ws) \<le> sum_list ws" for a
      using wsum_bounds [OF nn [of ws ls]] by (simp add: len)
    then have "\<not> sat_clause a c" for a using True by (simp add: sat) (meson diff_less_0_iff_less le_less_trans not_le)
    then show ?thesis using True by (simp add: SimplifyPB_def tm k_def [symmetric] in64)
  next
    case False
    have "wp (simplifyUnits c (sum_list ws - k) 0 [] k) (\<lambda>(j, us, k'). j \<le> length ls
        \<and> us = take j ls \<and> k' = k - sum_list (take j ws) \<and> (\<forall>m < j. sum_list ws - k < ws ! m))"
      by (rule wp_mono [OF simplifyUnits_spec [OF p _ in64(2)]])
        (auto simp: part [unfolded ws_def] ls_def ws_def Len_def split: prod.splits)
    then obtain j k' where su: "simplifyUnits c (sum_list ws - k) 0 [] k = Some (j, take j ls, k')"
      and j: "j \<le> length ls" and k': "k' = k - sum_list (take j ws)"
      and heavy: "\<forall>m < j. sum_list ws - k < ws ! m"
      by (auto simp: wp_iff)
    have eqv: "sat_clause a c \<longleftrightarrow> (\<forall>l \<in> set (take j ls). lit_true a l)
        \<and> k' \<le> wsum a (zip (drop j ls) (drop j ws))" for a
      unfolding sat k' by (rule wsum_split_units [OF len pos j heavy])
    show ?thesis
    proof (cases "k' \<le> 0")
      case True
      have "0 \<le> wsum a (zip (drop j ls) (drop j ws))" for a
        using wsum_bounds [OF nn [OF set_drop_subset]] by blast
      then have "sat_clause a c \<longleftrightarrow> (\<forall>l \<in> set (take j ls). lit_true a l)" for a
        using True by (auto simp: eqv intro: order_trans)
      then show ?thesis using False True by (simp add: SimplifyPB_def tm k_def [symmetric] su in64)
    next
      case k'pos: False
      have "sum_list (take j ws) = sum_list ws" if "length ls \<le> j" using that len by simp
      then have "j < length ls" using False k'pos unfolding k' by linarith
      then obtain l0 lt w0 wt where dl: "drop j ls = l0 # lt" and dw: "drop j ws = w0 # wt"
        using len by (metis drop_nth)
      have nw: "copyPad (Len c - j) (drop j (weights p)) = w0 # wt"
        using len by (simp add: Len_def ls_def [symmetric] ws_def [symmetric] dw [symmetric] copyPad_same)
      have posd: "\<forall>w \<in> set (w0 # wt). 0 < w"
        using pos unfolding dw [symmetric] by (auto dest: in_set_dropD)
      have "0 \<le> sum_list (take j ws)"
        using pos by (intro sum_list_nonneg) (force dest: in_set_takeD)
      then have fits': "card_fits k'" using k'pos fits by (simp add: card_fits_def k')
      have len': "length (min w0 k' # wt) = length (l0 # lt)"
        using len dl dw by (metis length_Cons length_drop)
      have "mset (w0 # wt) \<subseteq># mset ws"
        unfolding dw [symmetric] by (metis append_take_drop_id mset_append mset_subset_eq_add_right)
      then have "sum_fits (w0 # wt)" by (rule sum_fits_sub [OF _ sum])
      note rebuildSaturated [OF posd this len' fits']
      then obtain c' where c': "NewPBClause (l0 # lt) (Some (min w0 k' # wt)) k' = Some c'"
        "pb_ok c'" "sorted_wrt (\<ge>) (c_weights c')"
        "\<And>a. sat_clause a c' \<longleftrightarrow> k' \<le> wsum a (zip (l0 # lt) (w0 # wt))"
        by (auto simp: wp_iff)
      have "SimplifyPB c = Some (take j ls, Some c', True)"
        using False k'pos c'(1)
        by (simp add: SimplifyPB_def tm k_def [symmetric] in64 su p(1) nw Let_def ls_def [symmetric] dl
            min_def split: if_splits)
      then show ?thesis using c'(2-4) eqv by (simp add: dl dw)
    qed
  qed
qed

definition simplifyExample :: clause where
  "simplifyExample = \<lparr>lits = [0, 3, 4], lbdValue = 3, c_activity = 0,
     pbData = Some \<lparr>weights = [3, 2, 1], watched = [False, False, False]\<rparr>\<rparr>"

theorem SimplifyPB_correct_witness:
  "wp (SimplifyPB simplifyExample) (\<lambda>(units, c2, ok).
      (ok \<longrightarrow> (\<forall>a. sat_clause a simplifyExample \<longleftrightarrow>
          (\<forall>l \<in> set units. lit_true a l) \<and> (case c2 of None \<Rightarrow> True | Some c' \<Rightarrow> sat_clause a c')))
    \<and> (\<not> ok \<longrightarrow> (\<forall>a. \<not> sat_clause a simplifyExample))
    \<and> (\<forall>c'. c2 = Some c' \<longrightarrow> pb_ok c' \<and> sorted_wrt (\<ge>) (c_weights c')))"
  by (rule SimplifyPB_correct) (simp_all add: simplifyExample_def pb_ok_def flags_clear_def c_weights_def sum_fits_def)

section \<open>Flags\<close>

lemma bit_lock: "bit (lbdValue (lock c)) n \<longleftrightarrow> bit (lbdValue c) n \<or> n = 30"
  by (simp add: lock_def bit_or_iff)

lemma bit_unlock: "bit (lbdValue (unlock c)) n \<longleftrightarrow> bit (lbdValue c) n \<and> n \<noteq> 30"
  by (auto simp: unlock_def bit_and_iff bit_not_iff dest: bit_imp_le_length)

lemma low_bits_eq:
  "(\<And>n. n < 30 \<Longrightarrow> bit v n = bit w n) \<Longrightarrow> v AND NOT bothMasks = w AND NOT bothMasks" for v w :: "32 word"
  by (intro bit_word_eqI) (auto simp: low_mask bit_take_bit_iff)

lemma isLocked_iff: "isLocked c \<longleftrightarrow> bit (lbdValue c) 31 \<and> bit (lbdValue c) 30"
proof
  assume "isLocked c"
  then have "bit (lbdValue c AND bothMasks) n = bit bothMasks n" for n
    by (simp add: isLocked_def)
  from this [of 31] this [of 30] show "bit (lbdValue c) 31 \<and> bit (lbdValue c) 30"
    by (simp add: bit_and_iff)
next
  assume "bit (lbdValue c) 31 \<and> bit (lbdValue c) 30"
  then show "isLocked c"
    unfolding isLocked_def by (intro bit_word_eqI) (auto simp: bit_and_iff)
qed

text \<open>
  Locking and unlocking a constraint change neither its cardinality, nor its LBD, nor
  whether it counts as learned; a constraint is locked after \<open>lock\<close> exactly when it was
  learned, and never after \<open>unlock\<close>.
\<close>

theorem lock_unlock_frame:
  "Cardinality (lock c) = Cardinality c \<and> lbd (lock c) = lbd c \<and> Learned (lock c) = Learned c
   \<and> isLocked (lock c) = Learned c
   \<and> Cardinality (unlock c) = Cardinality c \<and> lbd (unlock c) = lbd c
   \<and> Learned (unlock c) = Learned c \<and> \<not> isLocked (unlock c)"
proof -
  have "lbdValue (lock c) AND NOT bothMasks = lbdValue c AND NOT bothMasks"
    "lbdValue (unlock c) AND NOT bothMasks = lbdValue c AND NOT bothMasks"
    by (rule low_bits_eq; simp add: bit_lock bit_unlock)+
  then show ?thesis
    by (simp add: Cardinality_def lbd_def Learned_iff isLocked_iff bit_lock bit_unlock)
qed

text \<open>
  C31. The packed word holds the minimal cardinality minus one in 30 bits, under the learned flag in
  bit 31. So for every bound \<open>k\<close> of at least one, the constraint that \<open>NewPBClause\<close> builds passes for a
  learned clause when \<open>k - 1\<close> has bit 31, its cardinality is then one and otherwise \<open>k - 1\<close> modulo
  \<open>2 ^ 30\<close> plus one, and it has the cardinality it was given exactly for bounds up to \<open>2 ^ 30\<close>.
\<close>

theorem NewPBClause_cardinality:
  assumes "1 \<le> k" and "length ws = length ls"
  shows "wp (NewPBClause ls (Some ws) k) (\<lambda>c. mset (terms c) = mset (zip ls ws)
    \<and> (Learned c \<longleftrightarrow> odd ((k - 1) div 2 ^ 31))
    \<and> Cardinality c = (if odd ((k - 1) div 2 ^ 31) then 1 else (k - 1) mod 2 ^ 30 + 1)
    \<and> (Cardinality c = k \<longleftrightarrow> k \<le> 2 ^ 30))"
proof (rule wp_mono [OF NewPBClause_spec [OF assms]])
  fix c
  assume "\<exists>ws'. pbData c = Some \<lparr>weights = ws', watched = replicate (length ls) False\<rparr> \<and> length ws' = length ls
    \<and> length (lits c) = length ls \<and> mset (terms c) = mset (zip ls ws) \<and> sorted_wrt (\<ge>) ws' \<and> lbdValue c = word_of_int (k - 1)"
  then have t: "mset (terms c) = mset (zip ls ws)" and w: "lbdValue c = word_of_int (k - 1)" by auto
  have l: "Learned c \<longleftrightarrow> odd ((k - 1) div 2 ^ 31)"
    unfolding Learned_iff w bit_word_of_int_iff by (simp add: bit_iff_odd)
  have "int (unat (word_of_int x :: 32 word)) mod 2 ^ 30 = x mod 2 ^ 30" for x
    by (simp add: unsigned_of_int take_bit_eq_mod mod_mod_cancel)
  then have cd: "Cardinality c = (if odd ((k - 1) div 2 ^ 31) then 1 else (k - 1) mod 2 ^ 30 + 1)"
    by (simp only: Cardinality_def l unat_low_mask w)
  have "Cardinality c = k \<longleftrightarrow> k \<le> 2 ^ 30"
  proof (cases "k \<le> 2 ^ 30")
    case True
    then have "(k - 1) div 2 ^ 31 = 0" "(k - 1) mod 2 ^ 30 = k - 1" using assms(1) by simp_all
    then show ?thesis using True by (simp only: cd) simp
  next
    case False
    have "(k - 1) mod 2 ^ 30 < 2 ^ 30" by simp
    then show ?thesis using False assms(1) unfolding cd by (auto split: if_splits)
  qed
  with t l cd show "mset (terms c) = mset (zip ls ws) \<and> (Learned c \<longleftrightarrow> odd ((k - 1) div 2 ^ 31))
    \<and> Cardinality c = (if odd ((k - 1) div 2 ^ 31) then 1 else (k - 1) mod 2 ^ 30 + 1)
    \<and> (Cardinality c = k \<longleftrightarrow> k \<le> 2 ^ 30)" by blast
qed

text \<open>\<open>w x1 + x2 \<ge> w\<close> for \<open>w = 2 ^ 31 + 1\<close>: satisfied by \<open>x2\<close> alone.\<close>

theorem NewPBClause_cardinality_witness:
  "\<exists>c. NewPBClause [0, 2] (Some [2 ^ 31 + 1, 1]) (2 ^ 31 + 1) = Some c \<and> Learned c \<and> Cardinality c = 1
     \<and> sat_clause (\<lambda>v. v = 1) c \<and> wsum (\<lambda>v. v = 1) (terms c) < 2 ^ 31 + 1"
proof -
  have "wp (NewPBClause [0, 2] (Some [2 ^ 31 + 1, 1]) (2 ^ 31 + 1)) (\<lambda>c. mset (terms c) = mset (zip [0, 2] [2 ^ 31 + 1, 1])
    \<and> (Learned c \<longleftrightarrow> odd ((2 ^ 31 + 1 - 1) div 2 ^ 31 :: int))
    \<and> Cardinality c = (if odd ((2 ^ 31 + 1 - 1) div 2 ^ 31 :: int) then 1 else (2 ^ 31 + 1 - 1) mod 2 ^ 30 + 1)
    \<and> (Cardinality c = 2 ^ 31 + 1 \<longleftrightarrow> 2 ^ 31 + 1 \<le> (2 ^ 30 :: int)))"
    by (rule NewPBClause_cardinality) simp_all
  then obtain c where c: "NewPBClause [0, 2] (Some [2 ^ 31 + 1, 1]) (2 ^ 31 + 1) = Some c" "Learned c" "Cardinality c = 1"
    "mset (terms c) = mset (zip [0, 2] [2 ^ 31 + 1, 1])" unfolding wp_iff by fastforce
  have "wsum (\<lambda>v. v = 1) (terms c) = wsum (\<lambda>v. v = 1) (zip [0, 2] [2 ^ 31 + 1, 1])" by (rule wsum_cong_mset [OF c(4)])
  also have "\<dots> = 1" by (simp add: lit_true_def Lit_Var_def IsPositive_def)
  finally show ?thesis using c by (simp add: sat_clause_def)
qed

end
