(* ===== verification/PBConstr.thy ===== *)
theory PBConstr
  imports Clause
begin

text \<open>
  Model of \<open>solver/pb.go\<close> and \<open>solver/card.go\<close>: the constraints a user builds, over signed
  integer literals, before they become clauses of the solver. A nil slice of weights is
  \<open>None\<close>. \<open>GtEq\<close>, \<open>LtEq\<close> and \<open>Eq\<close> overwrite the slices they are given; the model returns
  the constraint built from the final contents. Negations, sums and bounds wrap around as 64-bit
  integers do, and literals as 32-bit ones when they are encoded. \<open>pb_holds\<close> is the meaning of a
  constraint, over the integers.
\<close>

section \<open>The constraints\<close>

record PBConstr =
  pc_Lits :: "int list"
  pc_Weights :: "int list option"
  pc_AtLeast :: int

record CardConstr =
  cc_Lits :: "int list"
  cc_AtLeast :: int

definition AtLeast1 :: "int list \<Rightarrow> CardConstr" where
  "AtLeast1 ls = \<lparr>cc_Lits = ls, cc_AtLeast = 1\<rparr>"

definition AtMost1 :: "int list \<Rightarrow> CardConstr" where
  "AtMost1 ls = \<lparr>cc_Lits = map (\<lambda>l. int64 (- l)) ls, cc_AtLeast = int (length ls) - 1\<rparr>"

definition Exactly1 :: "int list \<Rightarrow> CardConstr list" where
  "Exactly1 ls = [AtLeast1 ls, AtMost1 ls]"

definition PB_WeightSum :: "PBConstr \<Rightarrow> int" where
  "PB_WeightSum c = (case pc_Weights c of
     None \<Rightarrow> int (length (pc_Lits c)) | Some ws \<Rightarrow> sum64 ws)"

definition PropClause :: "int list \<Rightarrow> PBConstr" where
  "PropClause ls = \<lparr>pc_Lits = ls, pc_Weights = None, pc_AtLeast = 1\<rparr>"

definition AtLeast :: "int list \<Rightarrow> int \<Rightarrow> PBConstr" where
  "AtLeast ls n = \<lparr>pc_Lits = ls, pc_Weights = None, pc_AtLeast = n\<rparr>"

definition AtMost :: "int list \<Rightarrow> int \<Rightarrow> PBConstr" where
  "AtMost ls n =
     \<lparr>pc_Lits = map (\<lambda>l. int64 (- l)) ls, pc_Weights = None, pc_AtLeast = int64 (int (length ls) - n)\<rparr>"

text \<open>\<open>PBConstr.Clause\<close>: saturate the weights, then build the solver's constraint.\<close>

definition PB_Clause :: "PBConstr \<Rightarrow> clause option" where
  "PB_Clause c =
     (let ls = map litOf (pc_Lits c);
          ws = map_option (map (\<lambda>w. if w > pc_AtLeast c then pc_AtLeast c else w)) (pc_Weights c)
      in NewPBClause ls ws (pc_AtLeast c))"

section \<open>Normalising constructors\<close>

text \<open>
  The loop of \<open>GtEq\<close> at index \<open>i\<close>: a negative weight is negated together with its literal,
  raising the bound; a zero weight is cut out with its literal.
\<close>

function gtEqLoop :: "int list \<Rightarrow> int list \<Rightarrow> int \<Rightarrow> nat \<Rightarrow> int list \<times> int list \<times> int" where
  "gtEqLoop ws ls n i =
     (if i < length ws then
        let neg = ws ! i < 0;
            ws1 = (if neg then ws[i := int64 (- (ws ! i))] else ws);
            n1 = (if neg then int64 (n + ws1 ! i) else n);
            ls1 = (if neg then ls[i := int64 (- (ls ! i))] else ls)
        in if ws1 ! i = 0
           then gtEqLoop (take i ws1 @ drop (Suc i) ws1) (take i ls1 @ drop (Suc i) ls1) n1 i
           else gtEqLoop ws1 ls1 n1 (Suc i)
      else (ws, ls, n))"
  by pat_completeness auto
termination
  by (relation "measure (\<lambda>(ws, ls, n, i). length ws - i)") auto

declare gtEqLoop.simps [simp del]

definition GtEq :: "int list \<Rightarrow> int list option \<Rightarrow> int \<Rightarrow> PBConstr option" where
  "GtEq ls ws n = (case ws of
     None \<Rightarrow> Some \<lparr>pc_Lits = ls, pc_Weights = None, pc_AtLeast = n\<rparr>
   | Some w \<Rightarrow>
       if length w \<noteq> 0 \<and> length ls \<noteq> length w then None
       else let (w', ls', n') = gtEqLoop w ls n 0
            in Some \<lparr>pc_Lits = ls', pc_Weights = Some w', pc_AtLeast = n'\<rparr>)"

text \<open>\<open>LtEq\<close> reads one weight per literal, so it panics when there are fewer.\<close>

definition LtEq :: "int list \<Rightarrow> int list option \<Rightarrow> int \<Rightarrow> PBConstr option" where
  "LtEq ls ws n =
     (let w = (case ws of None \<Rightarrow> [] | Some w \<Rightarrow> w) in
      if length w < length ls then None
      else GtEq (map (\<lambda>l. int64 (- l)) ls) ws (int64 (sum64 (take (length ls) w) - n)))"

definition Eq :: "int list \<Rightarrow> int list option \<Rightarrow> int \<Rightarrow> PBConstr list option" where
  "Eq ls ws n = do {
     ge \<leftarrow> GtEq ls (Some (case ws of None \<Rightarrow> [] | Some w \<Rightarrow> w)) n;
     le \<leftarrow> LtEq ls ws n;
     Some ((if pc_AtLeast ge > 0 then [ge] else []) @ (if pc_AtLeast le > 0 then [le] else [])) }"

section \<open>Meaning\<close>

abbreviation ilit_true :: "asg \<Rightarrow> int \<Rightarrow> bool" where
  "ilit_true a i \<equiv> lit_true a (IntToLit i)"

definition isum :: "asg \<Rightarrow> int list \<Rightarrow> int list \<Rightarrow> int" where
  "isum a ls ws = wsum a (zip (map IntToLit ls) ws)"

definition pb_holds :: "asg \<Rightarrow> PBConstr \<Rightarrow> bool" where
  "pb_holds a c \<longleftrightarrow> pc_AtLeast c \<le>
     (case pc_Weights c of None \<Rightarrow> isum a (pc_Lits c) (replicate (length (pc_Lits c)) 1)
                         | Some ws \<Rightarrow> isum a (pc_Lits c) ws)"

definition card_holds :: "asg \<Rightarrow> CardConstr \<Rightarrow> bool" where
  "card_holds a c \<longleftrightarrow> cc_AtLeast c \<le> int (length (filter (ilit_true a) (cc_Lits c)))"

text \<open>Literals are non-zero and there is one positive weight per literal.\<close>

definition pb_normal :: "PBConstr \<Rightarrow> bool" where
  "pb_normal c \<longleftrightarrow> 0 \<notin> set (pc_Lits c) \<and>
     (\<forall>ws. pc_Weights c = Some ws \<longrightarrow> length ws = length (pc_Lits c) \<and> (\<forall>w \<in> set ws. 0 < w))"

text \<open>Literals that can be negated, and bounds far from the ends of the 64-bit integers.\<close>

definition lits_fit :: "int list \<Rightarrow> bool" where
  "lits_fit ls \<longleftrightarrow> (\<forall>l \<in> set ls. \<bar>l\<bar> < 2 ^ 63)"

definition linear_fits :: "int list \<Rightarrow> int list \<Rightarrow> int \<Rightarrow> bool" where
  "linear_fits ls ws n \<longleftrightarrow> lits_fit ls \<and> sum_list (map abs ws) + \<bar>n\<bar> < 2 ^ 62"

lemma negate_lits: "lits_fit ls \<Longrightarrow> map (\<lambda>l. int64 (- l)) ls = map uminus ls"
  by (auto simp: lits_fit_def int64_abs)

lemma sum_abs_nonneg: "0 \<le> sum_list (map abs (ws :: int list))"
  by (rule sum_list_nonneg) auto

lemma ilit_true_minus: "i \<noteq> 0 \<Longrightarrow> ilit_true a (- i) \<longleftrightarrow> \<not> ilit_true a i"
  by (auto simp: Negation_IntToLit [symmetric] IntToLit_nonneg)

lemma isum_Nil [simp]: "isum a [] ws = 0" "isum a ls [] = 0"
  by (simp_all add: isum_def)

lemma isum_Cons [simp]:
  "isum a (l # ls) (w # ws) = (if ilit_true a l then w else 0) + isum a ls ws"
  by (simp add: isum_def)

lemma isum_append:
  "length ws = length ls \<Longrightarrow> isum a (ls @ ls') (ws @ ws') = isum a ls ws + isum a ls' ws'"
  by (simp add: isum_def)

lemma isum_minus:
  "length ws = length ls \<Longrightarrow> 0 \<notin> set ls \<Longrightarrow>
     isum a (map uminus ls) ws = sum_list ws - isum a ls ws"
  by (induction ls ws rule: list_induct2') (auto simp: ilit_true_minus)

lemma isum_ones: "isum a ls (replicate (length ls) 1) = int (length (filter (ilit_true a) ls))"
  using wsum_ones [of a "map IntToLit ls"] by (simp add: isum_def filter_map o_def)

text \<open>
  The loop works on the suffix from \<open>i\<close> on, one term at a time: what is before \<open>i\<close> stays,
  positive, and the sum minus the bound never changes.
\<close>

lemma gtEqLoop_spec:
  assumes "length ws = length ls" and "0 \<notin> set ls" and "\<forall>w \<in> set (take i ws). 0 < w"
    and "lits_fit ls" and "sum_list (map abs (drop i ws)) + \<bar>n\<bar> < 2 ^ 63"
    and "gtEqLoop ws ls n i = (ws', ls', n')"
  shows "length ws' = length ls' \<and> 0 \<notin> set ls' \<and> (\<forall>w \<in> set ws'. 0 < w)
       \<and> sum_list (map abs ws') = sum_list (map abs ws) \<and> abs ` set ls' \<subseteq> abs ` set ls
       \<and> isum a ls' ws' - n' = isum a ls ws - n"
  using assms
proof (induction ws ls n i rule: gtEqLoop.induct)
  case (1 ws ls n i)
  show ?case
  proof (cases "i < length ws")
    case False
    then have "(ws', ls', n') = (ws, ls, n)" using "1.prems"(6) by (simp add: gtEqLoop.simps [of ws])
    then show ?thesis using False "1.prems" by simp
  next
    case i: True
    define w l where "w = ws ! i" and "l = ls ! i"
    define us vs where "us = take i ws" and "vs = drop (Suc i) ws"
    define ks ms where "ks = take i ls" and "ms = drop (Suc i) ls"
    have ws: "ws = us @ w # vs" and ls: "ls = ks @ l # ms"
      and len: "length us = i" "length ks = i" "length vs = length ms"
      using i "1.prems"(1) by (simp_all add: w_def l_def us_def vs_def ks_def ms_def id_take_nth_drop)
    have l: "l \<noteq> 0" "0 \<notin> set ks" "0 \<notin> set ms" using "1.prems"(2) ls by auto
    have us: "\<forall>w \<in> set us. 0 < w" using "1.prems"(3) by (simp add: us_def)
    have fit: "lits_fit ks" "lits_fit ms" "\<bar>l\<bar> < 2 ^ 63" using "1.prems"(4) by (auto simp: ls lits_fit_def)
    have bound: "\<bar>w\<bar> + sum_list (map abs vs) + \<bar>n\<bar> < 2 ^ 63" using "1.prems"(5) len by (simp add: ws)
    have in64: "int64 (- w) = - w" "int64 (- l) = - l" "w < 0 \<Longrightarrow> int64 (n - w) = n - w"
      using bound fit(3) sum_abs_nonneg [of vs] by (intro int64_abs; linarith)+
    note step = "1.prems"(6) [unfolded gtEqLoop.simps [of ws ls n i]]
    consider "w < 0" | "w = 0" | "0 < w" by linarith
    then show ?thesis
    proof cases
      case neg: 1
      have b2: "sum_list (map abs vs) + \<bar>n - w\<bar> < 2 ^ 63"
        using bound abs_triangle_ineq4 [of n w] by linarith
      have "gtEqLoop (us @ - w # vs) (ks @ - l # ms) (n - w) (Suc i) = (ws', ls', n')"
        using step neg len in64 by (simp add: ws ls nth_append Let_def list_update_append)
      then have "length ws' = length ls' \<and> 0 \<notin> set ls' \<and> (\<forall>w \<in> set ws'. 0 < w)
         \<and> sum_list (map abs ws') = sum_list (map abs (us @ - w # vs)) \<and> abs ` set ls' \<subseteq> abs ` set (ks @ - l # ms)
         \<and> isum a ls' ws' - n' = isum a (ks @ - l # ms) (us @ - w # vs) - (n - w)"
        using "1.IH"(2) [OF i refl refl refl refl] neg len l us in64 fit b2
        by (simp add: ws ls nth_append Let_def list_update_append lits_fit_def ball_Un)
      then show ?thesis using len l by (auto simp: ws ls isum_append ilit_true_minus)
    next
      case zero: 2
      have "gtEqLoop (us @ vs) (ks @ ms) n i = (ws', ls', n')"
        using step zero len by (simp add: ws ls nth_append Let_def)
      then have "length ws' = length ls' \<and> 0 \<notin> set ls' \<and> (\<forall>w \<in> set ws'. 0 < w)
         \<and> sum_list (map abs ws') = sum_list (map abs (us @ vs)) \<and> abs ` set ls' \<subseteq> abs ` set (ks @ ms)
         \<and> isum a ls' ws' - n' = isum a (ks @ ms) (us @ vs) - n"
        using "1.IH"(1) [OF i refl refl refl refl] zero len l us fit bound
        by (simp add: ws ls nth_append Let_def lits_fit_def ball_Un)
      then show ?thesis using len zero by (auto simp: ws ls isum_append)
    next
      case pos: 3
      have "gtEqLoop (us @ w # vs) (ks @ l # ms) n (Suc i) = (ws', ls', n')"
        using step pos len by (simp add: ws ls nth_append Let_def)
      then show ?thesis
        using "1.IH"(2) [OF i refl refl refl refl] pos len l us fit bound
        by (simp add: ws ls nth_append Let_def lits_fit_def ball_Un)
    qed
  qed
qed

definition linear_post :: "int list \<Rightarrow> int list \<Rightarrow> PBConstr \<Rightarrow> bool" where
  "linear_post ls ws c \<longleftrightarrow> pb_normal c \<and> abs ` set (pc_Lits c) \<subseteq> abs ` set ls
     \<and> (\<exists>ws'. pc_Weights c = Some ws' \<and> sum_list (map abs ws') = sum_list (map abs ws))"

lemma GtEq_bounded:
  assumes "length ws = length ls" and "0 \<notin> set ls" and "lits_fit ls" and "sum_list (map abs ws) + \<bar>n\<bar> < 2 ^ 63"
  shows "wp (GtEq ls (Some ws) n) (\<lambda>c. linear_post ls ws c \<and> (\<forall>a. pb_holds a c \<longleftrightarrow> n \<le> isum a ls ws))"
proof -
  obtain ws' ls' n' where g: "gtEqLoop ws ls n 0 = (ws', ls', n')"
    by (cases "gtEqLoop ws ls n 0")
  have spec: "length ws' = length ls' \<and> 0 \<notin> set ls' \<and> (\<forall>w \<in> set ws'. 0 < w)
      \<and> sum_list (map abs ws') = sum_list (map abs ws) \<and> abs ` set ls' \<subseteq> abs ` set ls
      \<and> isum a ls' ws' - n' = isum a ls ws - n" for a
    using gtEqLoop_spec [OF assms(1,2) _ assms(3) _ g] assms(4) by simp
  have "pb_holds a \<lparr>pc_Lits = ls', pc_Weights = Some ws', pc_AtLeast = n'\<rparr> \<longleftrightarrow> n \<le> isum a ls ws" for a
    using spec [of a] by (auto simp: pb_holds_def)
  then show ?thesis using spec assms(1) by (simp add: GtEq_def g pb_normal_def linear_post_def)
qed

lemma GtEq_spec:
  assumes "length ws = length ls" and "0 \<notin> set ls" and "linear_fits ls ws n"
  shows "wp (GtEq ls (Some ws) n) (\<lambda>c. linear_post ls ws c \<and> (\<forall>a. pb_holds a c \<longleftrightarrow> n \<le> isum a ls ws))"
  using assms(3) by (intro GtEq_bounded [OF assms(1,2)]) (auto simp: linear_fits_def)

lemma LtEq_spec:
  assumes "length ws = length ls" and "0 \<notin> set ls" and "linear_fits ls ws n"
  shows "wp (LtEq ls (Some ws) n) (\<lambda>c. linear_post ls ws c \<and> (\<forall>a. pb_holds a c \<longleftrightarrow> isum a ls ws \<le> n))"
proof -
  have fit: "lits_fit ls" "lits_fit (map uminus ls)" "sum_fits ws" and b: "sum_list (map abs ws) + \<bar>n\<bar> < 2 ^ 62"
    using assms(3) sum_abs_nonneg [of ws] by (auto simp: linear_fits_def lits_fit_def sum_fits_def)
  have s: "\<bar>sum_list ws\<bar> \<le> sum_list (map abs ws)" by (rule sum_le_abs)
  then have "int64 (sum64 ws - n) = sum_list ws - n"
    using b unfolding sum64_small [OF fit(3)] by (intro int64_abs) simp
  moreover have "wp (GtEq (map uminus ls) (Some ws) (sum_list ws - n)) (\<lambda>c. linear_post (map uminus ls) ws c
      \<and> (\<forall>a. pb_holds a c \<longleftrightarrow> sum_list ws - n \<le> isum a (map uminus ls) ws))"
    using assms(1,2) fit s b by (intro GtEq_bounded) auto
  moreover have "linear_post (map uminus ls) ws c = linear_post ls ws c" for c
    by (simp add: linear_post_def image_image)
  ultimately show ?thesis
    using assms(1) isum_minus [OF assms(1,2)] by (simp add: LtEq_def Let_def negate_lits [OF fit(1)])
qed

text \<open>A normal constraint whose bound is not positive holds everywhere.\<close>

lemma isum_nonneg: "\<forall>w \<in> set ws. 0 < w \<Longrightarrow> 0 \<le> isum a ls ws"
  unfolding isum_def
  by (rule wsum_bounds [THEN conjunct1]) (fastforce dest: set_zip_rightD)

lemma pb_holds_trivial:
  "pb_normal c \<Longrightarrow> pc_AtLeast c \<le> 0 \<Longrightarrow> pb_holds a c"
proof (cases "pc_Weights c")
  case None
  assume "pc_AtLeast c \<le> 0"
  then show ?thesis using None by (simp add: pb_holds_def isum_ones)
next
  case (Some ws)
  assume "pb_normal c" "pc_AtLeast c \<le> 0"
  then show ?thesis using Some isum_nonneg [of ws a "pc_Lits c"]
    by (simp add: pb_holds_def pb_normal_def)
qed

text \<open>
  C23. \<open>GtEq\<close>, \<open>LtEq\<close> and \<open>Eq\<close> on as many weights as literals (all literals non-zero, weights of
  any sign), when the absolute values of the weights and the bound sum up to less than \<open>2 ^ 62\<close>, do
  not panic and build normal constraints, with positive weights only, that hold exactly for the
  assignments whose weighted sum is at least, at most, or equal to the bound.
\<close>

theorem linear_constructors_correct:
  assumes "length ws = length ls" and "0 \<notin> set ls" and "linear_fits ls ws n"
  shows "wp (GtEq ls (Some ws) n) (\<lambda>c. pb_normal c \<and> (\<forall>a. pb_holds a c \<longleftrightarrow> n \<le> isum a ls ws))
    \<and> wp (LtEq ls (Some ws) n) (\<lambda>c. pb_normal c \<and> (\<forall>a. pb_holds a c \<longleftrightarrow> isum a ls ws \<le> n))
    \<and> wp (Eq ls (Some ws) n) (\<lambda>cs. (\<forall>c \<in> set cs. pb_normal c \<and> 0 < pc_AtLeast c)
        \<and> (\<forall>a. (\<forall>c \<in> set cs. pb_holds a c) \<longleftrightarrow> isum a ls ws = n))"
proof (intro conjI)
  note ge = GtEq_spec [OF assms] and le = LtEq_spec [OF assms]
  show "wp (GtEq ls (Some ws) n) (\<lambda>c. pb_normal c \<and> (\<forall>a. pb_holds a c \<longleftrightarrow> n \<le> isum a ls ws))"
    using ge by (rule wp_mono) (simp add: linear_post_def)
  show "wp (LtEq ls (Some ws) n) (\<lambda>c. pb_normal c \<and> (\<forall>a. pb_holds a c \<longleftrightarrow> isum a ls ws \<le> n))"
    using le by (rule wp_mono) (simp add: linear_post_def)
  obtain g l where gl: "GtEq ls (Some ws) n = Some g" "LtEq ls (Some ws) n = Some l"
    and g: "pb_normal g" "\<And>a. pb_holds a g \<longleftrightarrow> n \<le> isum a ls ws"
    and l: "pb_normal l" "\<And>a. pb_holds a l \<longleftrightarrow> isum a ls ws \<le> n"
    using ge le by (auto simp: wp_iff linear_post_def)
  define cs where "cs = (if pc_AtLeast g > 0 then [g] else []) @ (if pc_AtLeast l > 0 then [l] else [])"
  have eq: "Eq ls (Some ws) n = Some cs" by (simp add: Eq_def gl cs_def)
  have norm: "\<forall>c \<in> set cs. pb_normal c \<and> 0 < pc_AtLeast c" using g(1) l(1) by (auto simp: cs_def)
  have "(\<forall>c \<in> set cs. pb_holds a c) \<longleftrightarrow> pb_holds a g \<and> pb_holds a l" for a
    using pb_holds_trivial [OF g(1), of a] pb_holds_trivial [OF l(1), of a]
    unfolding cs_def by (cases "0 < pc_AtLeast g"; cases "0 < pc_AtLeast l") simp_all
  then have "(\<forall>c \<in> set cs. pb_holds a c) \<longleftrightarrow> isum a ls ws = n" for a
    unfolding g(2) l(2) by (simp only: eq_iff [of "isum a ls ws"]) blast
  with norm show "wp (Eq ls (Some ws) n) (\<lambda>cs. (\<forall>c \<in> set cs. pb_normal c \<and> 0 < pc_AtLeast c)
        \<and> (\<forall>a. (\<forall>c \<in> set cs. pb_holds a c) \<longleftrightarrow> isum a ls ws = n))"
    unfolding eq wp_Some by blast
qed

theorem linear_constructors_correct_witness:
  "wp (GtEq [1, -2, 3] (Some [2, -3, 0]) 1) (\<lambda>c. pb_normal c
      \<and> (\<forall>a. pb_holds a c \<longleftrightarrow> 1 \<le> isum a [1, -2, 3] [2, -3, 0]))
    \<and> wp (LtEq [1, -2, 3] (Some [2, -3, 0]) 1) (\<lambda>c. pb_normal c
      \<and> (\<forall>a. pb_holds a c \<longleftrightarrow> isum a [1, -2, 3] [2, -3, 0] \<le> 1))
    \<and> wp (Eq [1, -2, 3] (Some [2, -3, 0]) 1) (\<lambda>cs. (\<forall>c \<in> set cs. pb_normal c \<and> 0 < pc_AtLeast c)
        \<and> (\<forall>a. (\<forall>c \<in> set cs. pb_holds a c) \<longleftrightarrow> isum a [1, -2, 3] [2, -3, 0] = 1))"
  by (rule linear_constructors_correct) (simp_all add: linear_fits_def lits_fit_def)

lemma filter_minus:
  "0 \<notin> set ls \<Longrightarrow> length (filter (ilit_true a) (map uminus ls)) + length (filter (ilit_true a) ls) = length ls"
  by (induction ls) (auto simp: ilit_true_minus)

text \<open>
  The cardinality constructors mean what they say: \<open>AtLeast\<close> and \<open>AtMost\<close> bound the number
  of true literals, and the two constraints of \<open>Exactly1\<close> hold together exactly when one
  literal is true.
\<close>

theorem card_constructors_correct:
  assumes "0 \<notin> set ls" and "lits_fit ls" and "\<bar>int (length ls) - n\<bar> < 2 ^ 63"
  shows "pb_holds a (AtLeast ls n) = (n \<le> int (length (filter (ilit_true a) ls)))
       \<and> pb_holds a (AtMost ls n) = (int (length (filter (ilit_true a) ls)) \<le> n)
       \<and> pb_holds a (PropClause ls) = (\<exists>l \<in> set ls. ilit_true a l)
       \<and> (\<forall>c \<in> set (Exactly1 ls). card_holds a c) = (length (filter (ilit_true a) ls) = 1)"
proof -
  have "length (filter (ilit_true a) (map uminus ls)) + length (filter (ilit_true a) ls) = length ls"
    using assms(1) by (rule filter_minus)
  moreover have "1 \<le> int (length (filter (ilit_true a) ls)) \<longleftrightarrow> (\<exists>l \<in> set ls. ilit_true a l)"
    by (induction ls) auto
  ultimately show ?thesis
    using isum_ones [of a "map uminus ls"]
    by (auto simp: pb_holds_def AtLeast_def AtMost_def PropClause_def isum_ones card_holds_def
        Exactly1_def AtLeast1_def AtMost1_def negate_lits [OF assms(2)] int64_abs [OF assms(3)])
qed

theorem card_constructors_correct_witness:
  "pb_holds (\<lambda>v. v = 0) (AtLeast [1, 2] 1) = (1 \<le> int (length (filter (ilit_true (\<lambda>v. v = 0)) [1, 2])))
   \<and> pb_holds (\<lambda>v. v = 0) (AtMost [1, 2] 1) = (int (length (filter (ilit_true (\<lambda>v. v = 0)) [1, 2])) \<le> 1)
   \<and> pb_holds (\<lambda>v. v = 0) (PropClause [1, 2]) = (\<exists>l \<in> set [1, 2]. ilit_true (\<lambda>v. v = 0) l)
   \<and> (\<forall>c \<in> set (Exactly1 [1, 2]). card_holds (\<lambda>v. v = 0) c)
      = (length (filter (ilit_true (\<lambda>v. v = 0)) [1, 2]) = 1)"
  by (rule card_constructors_correct) (simp_all add: lits_fit_def)

lemma saturate_all:
  assumes "\<forall>w \<in> set ws. 0 < w" and "0 \<le> k"
  shows "min k (isum a ls (map (\<lambda>w. min w k) ws)) = min k (isum a ls ws)"
  using assms(1)
proof (induction ls ws rule: list_induct2')
  case (4 l ls w ws)
  then have "0 \<le> isum a ls ws" "0 \<le> isum a ls (map (\<lambda>w. min w k) ws) \<or> k = 0" "0 < w"
    using assms(2) by (auto intro!: isum_nonneg)
  then show ?case using 4 assms(2) by (auto simp: min_def split: if_splits)
qed auto

lemma NewPBClause_nil_weights:
  assumes "card_fits k" and len: "length ls < 2 ^ 62"
  shows "wp (NewPBClause ls None k) (\<lambda>c. pb_ok c \<and> Cardinality c = k \<and> lits c = ls
      \<and> c_weights c = replicate (length ls) 1)"
proof -
  let ?c = "\<lparr>lits = ls, lbdValue = word_of_int (k - 1), c_activity = 0,
    pbData = Some \<lparr>weights = replicate (length ls) 1, watched = replicate (length ls) False\<rparr>\<rparr>"
  have "flags_clear ?c" "Cardinality ?c = k"
    by (rule flags_clear_word [OF assms(1)] Cardinality_word(1) [OF assms(1)]; simp)+
  moreover have "sum_fits (replicate (length ls) 1)"
    using len by (simp add: sum_fits_def sum_list_replicate)
  ultimately show ?thesis
    using assms(1) by (simp add: NewPBClause_def sortWeighted_def pb_ok_def c_weights_def card_fits_def)
qed

text \<open>
  C24. \<open>PBConstr.Clause\<close> on a normal constraint over variables up to \<open>2 ^ 30\<close>, whose bound fits the
  packed word and whose weights sum up to less than \<open>2 ^ 62\<close>, saturates the weights and builds,
  without panic, a well-formed solver constraint over the encoded literals that is satisfied by the
  same assignments.
\<close>

theorem PB_Clause_correct:
  assumes "pb_normal c" and "card_fits (pc_AtLeast c)" and "\<forall>l \<in> set (pc_Lits c). \<bar>l\<bar> \<le> 2 ^ 30"
    and "case pc_Weights c of None \<Rightarrow> length (pc_Lits c) < 2 ^ 62 | Some ws \<Rightarrow> sum_fits ws"
  shows "wp (PB_Clause c) (\<lambda>cl. pb_ok cl \<and> set (lits cl) = IntToLit ` set (pc_Lits c)
      \<and> (\<forall>a. sat_clause a cl \<longleftrightarrow> pb_holds a c))"
proof (cases "pc_Weights c")
  case None
  have "pb_holds a c \<longleftrightarrow> pc_AtLeast c \<le> wsum a (zip (map IntToLit (pc_Lits c))
      (replicate (length (map IntToLit (pc_Lits c))) 1))" for a
    by (simp add: pb_holds_def None isum_def)
  then show ?thesis
    unfolding PB_Clause_def Let_def None option.map map_litOf [OF assms(3)]
    by (intro wp_mono [OF NewPBClause_nil_weights [OF assms(2)]]) (use assms(4) None in \<open>simp_all add: sat_clause_def terms_def\<close>)
next
  case (Some ws)
  define k ls where "k = pc_AtLeast c" and "ls = pc_Lits c"
  have fits: "card_fits k" and pos: "\<forall>w \<in> set ws. 0 < w" and len: "length ws = length ls"
    using assms(1,2) Some by (simp_all add: k_def ls_def pb_normal_def)
  have k: "0 < k" using fits by (simp add: card_fits_def)
  have m: "map (\<lambda>w. if w > k then k else w) ws = map (\<lambda>w. min w k) ws" by (simp add: min_def)
  have "wp (NewPBClause (map IntToLit ls) (Some (map (\<lambda>w. min w k) ws)) k) (\<lambda>cl. pb_ok cl
      \<and> set (lits cl) = IntToLit ` set ls \<and> (\<forall>a. sat_clause a cl \<longleftrightarrow> k \<le> isum a ls ws))"
  proof (rule wp_mono [OF NewPBClause_pb_ok [OF fits]])
    show "length (map (\<lambda>w. min w k) ws) = length (map IntToLit ls)" by (simp add: len)
    show "\<forall>w \<in> set (map (\<lambda>w. min w k) ws). 0 < w" using pos k by simp
    have "sum_list (map abs (map (\<lambda>w. min w k) ws)) \<le> sum_list (map abs ws)"
      unfolding map_map by (rule sum_list_mono) (use pos k in \<open>auto simp: min_def\<close>)
    then show "sum_fits (map (\<lambda>w. min w k) ws)" using assms(4) Some by (simp add: sum_fits_def)
    fix cl assume cl: "pb_ok cl \<and> Cardinality cl = k
      \<and> mset (terms cl) = mset (zip (map IntToLit ls) (map (\<lambda>w. min w k) ws))
      \<and> set (lits cl) = set (map IntToLit ls) \<and> sorted_wrt (\<ge>) (c_weights cl)"
    then have "wsum a (terms cl) = isum a ls (map (\<lambda>w. min w k) ws)" for a
      unfolding isum_def by (blast intro: wsum_cong_mset)
    then have "sat_clause a cl \<longleftrightarrow> k \<le> isum a ls ws" for a
      using cl saturate_all [OF pos, of k a ls] k by (auto simp: sat_clause_def min_def split: if_splits)
    then show "pb_ok cl \<and> set (lits cl) = IntToLit ` set ls \<and> (\<forall>a. sat_clause a cl \<longleftrightarrow> k \<le> isum a ls ws)"
      using cl by simp
  qed
  then show ?thesis
    unfolding PB_Clause_def Let_def Some option.map k_def [symmetric] ls_def [symmetric] m map_litOf [OF assms(3) [folded ls_def]]
    by (rule wp_mono) (simp add: pb_holds_def Some k_def ls_def)
qed

theorem PB_Clause_correct_witness:
  "wp (PB_Clause \<lparr>pc_Lits = [1, -2], pc_Weights = Some [5, 1], pc_AtLeast = 3\<rparr>) (\<lambda>cl. pb_ok cl
      \<and> set (lits cl) = IntToLit ` set (pc_Lits \<lparr>pc_Lits = [1, -2], pc_Weights = Some [5, 1], pc_AtLeast = 3\<rparr>)
      \<and> (\<forall>a. sat_clause a cl \<longleftrightarrow>
            pb_holds a \<lparr>pc_Lits = [1, -2], pc_Weights = Some [5, 1], pc_AtLeast = 3\<rparr>))"
  by (rule PB_Clause_correct) (simp_all add: pb_normal_def card_fits_def sum_fits_def)

end
