(* ===== verification/Problem.thy ===== *)
theory Problem
  imports PBConstr
begin

text \<open>
  Model of the data of \<open>solver/problem.go\<close>: a problem, its unit literals and its partial model,
  and the operations the simplifiers share. \<open>pModel\<close> holds 0 for an unbound variable, 1 for
  true and -1 for false.

  \<open>pb_models\<close> is the meaning of a problem: the assignments that make every unit and every
  constraint true. \<open>units_model\<close> is the invariant between units and partial model.
\<close>

section \<open>The data\<close>

record problem =
  NbVars :: int
  Clauses :: "clause list"
  pStatus :: status
  Units :: "lit list"
  pModel :: "declevel list"
  minLits :: "lit list option"
  minWeights :: "int list option"

definition Optim :: "problem \<Rightarrow> bool" where
  "Optim pb \<longleftrightarrow> minLits pb \<noteq> None"

definition SetCostFunc :: "problem \<Rightarrow> lit list option \<Rightarrow> int list option \<Rightarrow> problem option" where
  "SetCostFunc pb ls ws =
     (case ws of
        Some w \<Rightarrow>
          if length (case ls of None \<Rightarrow> [] | Some l \<Rightarrow> l) \<noteq> length w then None
          else Some (pb\<lparr>minLits := ls, minWeights := ws\<rparr>)
      | None \<Rightarrow> Some (pb\<lparr>minLits := ls, minWeights := ws\<rparr>))"

definition updateStatus :: "problem \<Rightarrow> nat \<Rightarrow> problem option" where
  "updateStatus pb nbClauses = do {
     cs \<leftarrow> upto (Clauses pb) nbClauses;
     let pb = pb\<lparr>Clauses := cs\<rparr>;
     Some (if pStatus pb = Indet \<and> nbClauses = 0 then pb\<lparr>pStatus := Sat\<rparr> else pb) }"

definition addUnit :: "problem \<Rightarrow> lit \<Rightarrow> problem option" where
  "addUnit pb l = do {
     m \<leftarrow> geti (pModel pb) (Lit_Var l);
     if IsPositive l then
       if m = - 1 then Some (pb\<lparr>pStatus := Unsat\<rparr>)
       else do {
         ms \<leftarrow> puti (pModel pb) (Lit_Var l) 1;
         Some (pb\<lparr>pModel := ms, Units := Units pb @ [l]\<rparr>) }
     else
       if m = 1 then Some (pb\<lparr>pStatus := Unsat\<rparr>)
       else do {
         ms \<leftarrow> puti (pModel pb) (Lit_Var l) (- 1);
         Some (pb\<lparr>pModel := ms, Units := Units pb @ [l]\<rparr>) } }"

fun addUnitLits :: "problem \<Rightarrow> lit list \<Rightarrow> problem option" where
  "addUnitLits pb [] = Some pb"
| "addUnitLits pb (l # ls) = do { pb \<leftarrow> addUnit pb l; addUnitLits pb ls }"

definition addUnits :: "problem \<Rightarrow> clause \<Rightarrow> nat \<Rightarrow> problem option" where
  "addUnits pb c nbLits = do { ls \<leftarrow> upto (lits c) nbLits; addUnitLits pb ls }"

fun replicateUnitsIn :: "declevel list \<Rightarrow> lit list \<Rightarrow> declevel list option" where
  "replicateUnitsIn ms [] = Some ms"
| "replicateUnitsIn ms (u # us) = do {
     ms \<leftarrow> puti ms (Lit_Var u) (if IsPositive u then 1 else - 1);
     replicateUnitsIn ms us }"

definition replicateUnits :: "problem \<Rightarrow> problem option" where
  "replicateUnits pb = do {
     ms \<leftarrow> replicateUnitsIn (pModel pb) (Units pb);
     Some (pb\<lparr>pModel := ms\<rparr>) }"

section \<open>Meaning\<close>

definition pb_models :: "asg \<Rightarrow> problem \<Rightarrow> bool" where
  "pb_models a pb \<longleftrightarrow> (\<forall>u \<in> set (Units pb). lit_true a u) \<and> (\<forall>c \<in> set (Clauses pb). sat_clause a c)"

text \<open>A model of the problem: the status says that there is none, or the units and clauses decide.\<close>

definition pb_sat :: "asg \<Rightarrow> problem \<Rightarrow> bool" where
  "pb_sat a pb \<longleftrightarrow> pStatus pb \<noteq> Unsat \<and> pb_models a pb"

text \<open>The assignment extends the partial model.\<close>

definition agree :: "asg \<Rightarrow> declevel list \<Rightarrow> bool" where
  "agree a ms \<longleftrightarrow> (\<forall>v < length ms. ms ! v \<noteq> 0 \<longrightarrow> a (int v) = (ms ! v = 1))"

definition units_model :: "declevel list \<Rightarrow> lit list \<Rightarrow> bool" where
  "units_model ms us \<longleftrightarrow> lits_ok (int (length ms)) us
     \<and> (\<forall>u \<in> set us. ms ! nat (Lit_Var u) = (if IsPositive u then 1 else - 1))
     \<and> (\<forall>v < length ms. ms ! v \<noteq> 0 \<longrightarrow> (\<exists>u \<in> set us. Lit_Var u = int v))"

definition pb_inv :: "problem \<Rightarrow> bool" where
  "pb_inv pb \<longleftrightarrow> int (length (pModel pb)) = NbVars pb \<and> units_model (pModel pb) (Units pb)
     \<and> (\<forall>c \<in> set (Clauses pb). lits_ok (NbVars pb) (lits c))"

lemma lit_ok_index:
  assumes "lit_ok (int n) l"
  shows "0 \<le> Lit_Var l" "Lit_Var l < int n" "nat (Lit_Var l) < n" "0 \<le> l"
  using assms lit_ok_var [OF assms] by (auto simp: lit_ok_def)

lemma agree_lit:
  "agree a ms \<Longrightarrow> lit_ok (int (length ms)) l \<Longrightarrow> ms ! nat (Lit_Var l) \<noteq> 0 \<Longrightarrow>
     lit_true a l \<longleftrightarrow> (ms ! nat (Lit_Var l) = 1) = IsPositive l"
  unfolding agree_def lit_true_def
  by (drule spec [of _ "nat (Lit_Var l)"]) (auto dest: lit_ok_index)

lemma units_agree:
  assumes "units_model ms us"
  shows "(\<forall>u \<in> set us. lit_true a u) \<longleftrightarrow> agree a ms"
proof
  assume u: "\<forall>u \<in> set us. lit_true a u"
  show "agree a ms"
    unfolding agree_def
  proof (intro allI impI)
    fix v assume "v < length ms" "ms ! v \<noteq> 0"
    then obtain u where "u \<in> set us" "Lit_Var u = int v"
      using assms by (auto simp: units_model_def)
    then show "a (int v) = (ms ! v = 1)"
      using assms u by (auto simp: units_model_def lit_true_def dest!: bspec [of _ _ u] split: if_splits)
  qed
next
  assume "agree a ms"
  then show "\<forall>u \<in> set us. lit_true a u"
    using assms by (auto simp: units_model_def agree_lit)
qed

lemma pb_models_agree: "pb_inv pb \<Longrightarrow>
    pb_models a pb \<longleftrightarrow> agree a (pModel pb) \<and> (\<forall>c \<in> set (Clauses pb). sat_clause a c)"
  using units_agree [of "pModel pb" "Units pb" a] unfolding pb_models_def pb_inv_def by blast

lemma units_model_add:
  assumes "units_model ms us" and "lit_ok (int (length ms)) l"
    and "ms ! nat (Lit_Var l) \<in> {0, if IsPositive l then 1 else - 1}"
  shows "units_model (ms[nat (Lit_Var l) := if IsPositive l then 1 else - 1]) (us @ [l])"
proof -
  let ?b = "if IsPositive l then 1 else - 1 :: int"
  have "(ms[nat (Lit_Var l) := ?b]) ! nat (Lit_Var u) = (if IsPositive u then 1 else - 1)"
    if u: "u \<in> set us" for u
  proof -
    have "ms ! nat (Lit_Var u) = (if IsPositive u then 1 else - 1)" "lit_ok (int (length ms)) u"
      using assms(1) u by (auto simp: units_model_def)
    then show ?thesis
      using assms(3) lit_ok_index [OF assms(2)] lit_ok_index [of "length ms" u]
      by (cases "nat (Lit_Var u) = nat (Lit_Var l)") (auto split: if_splits)
  qed
  moreover have "\<exists>u \<in> set (us @ [l]). Lit_Var u = int v"
    if "v < length ms" "(ms[nat (Lit_Var l) := ?b]) ! v \<noteq> 0" for v
    using that assms(1) lit_ok_index [OF assms(2)]
    by (cases "v = nat (Lit_Var l)") (auto simp: units_model_def)
  ultimately show ?thesis
    using assms(1,2) lit_ok_index [OF assms(2)] by (auto simp: units_model_def)
qed

text \<open>
  The result of \<open>addUnit\<close>: either the literal contradicts the partial model and the status is
  Unsat, or the literal joins the units and the model.
\<close>

lemma addUnit_spec:
  assumes inv: "pb_inv pb" and l: "lit_ok (NbVars pb) l"
  shows "wp (addUnit pb l) (\<lambda>pb'. Clauses pb' = Clauses pb \<and> NbVars pb' = NbVars pb
     \<and> pb_inv pb'
     \<and> (if pModel pb ! nat (Lit_Var l) = (if IsPositive l then - 1 else 1)
        then pStatus pb' = Unsat \<and> Units pb' = Units pb \<and> pModel pb' = pModel pb
        else pStatus pb' = pStatus pb \<and> Units pb' = Units pb @ [l]
           \<and> pModel pb' = (pModel pb)[nat (Lit_Var l) := if IsPositive l then 1 else - 1]))"
proof -
  have len: "int (length (pModel pb)) = NbVars pb" and um: "units_model (pModel pb) (Units pb)"
    using inv by (simp_all add: pb_inv_def)
  have l': "lit_ok (int (length (pModel pb))) l" using l len by simp
  note ix = lit_ok_index [OF l']
  have dom: "pModel pb ! nat (Lit_Var l) \<in> {0, 1, - 1}"
  proof (cases "pModel pb ! nat (Lit_Var l) = 0")
    case False
    then obtain u where "u \<in> set (Units pb)" "Lit_Var u = Lit_Var l"
      using um ix by (auto simp: units_model_def)
    then show ?thesis using um by (auto simp: units_model_def dest!: bspec [of _ _ u] split: if_splits)
  qed simp
  show ?thesis
    using inv ix dom units_model_add [OF um l'] len
    by (auto simp: addUnit_def pb_inv_def)
qed

lemma agree_add:
  assumes "units_model ms us" and "lit_ok (int (length ms)) l"
    and "ms ! nat (Lit_Var l) \<in> {0, if IsPositive l then 1 else - 1}"
  shows "agree a (ms[nat (Lit_Var l) := if IsPositive l then 1 else - 1]) \<longleftrightarrow> agree a ms \<and> lit_true a l"
  using units_agree [OF assms(1), of a] units_agree [OF units_model_add [OF assms], of a] by auto

section \<open>Propositional clauses\<close>

definition prop_clause :: "clause \<Rightarrow> bool" where
  "prop_clause c \<longleftrightarrow> pbData c = None \<and> Cardinality c = 1"

lemma prop_clause_sat: "prop_clause c \<Longrightarrow> sat_clause a c \<longleftrightarrow> (\<exists>l \<in> set (lits c). lit_true a l)"
proof -
  assume "prop_clause c"
  then have "wsum a (terms c) = int (length (filter (lit_true a) (lits c)))" "Cardinality c = 1"
    by (simp_all add: prop_clause_def terms_def c_weights_def wsum_ones)
  moreover have "(1 :: int) \<le> int (length (filter (lit_true a) ls)) \<longleftrightarrow> (\<exists>l \<in> set ls. lit_true a l)" for ls
    by (induction ls) auto
  ultimately show ?thesis by (simp add: sat_clause_def)
qed

lemma Cardinality_lits [simp]: "Cardinality (c\<lparr>lits := ls\<rparr>) = Cardinality c"
  by (simp add: Cardinality_def Learned_def)

lemma prop_clause_lits [simp]: "prop_clause (c\<lparr>lits := ls\<rparr>) = prop_clause c"
  by (simp add: prop_clause_def)

lemma prop_clause_NewClause [simp]: "prop_clause (NewClause ls)"
  by (simp add: prop_clause_def NewClause_def Cardinality_def Learned_iff)

end
