(* ===== verification/SimplifyProp.thy ===== *)
theory SimplifyProp
  imports Problem
begin

text \<open>
  Model of the propositional simplifier, \<open>Problem.simplify2\<close> of \<open>solver/problem.go\<close>: it
  removes duplicate and false literals, drops satisfied clauses and propagates unit clauses
  until nothing changes. The four nested loops of the code are four functions; each returns its
  loop variables. \<open>ls\<close> is the literal slice of the clause being simplified, of which the first
  \<open>n\<close> (\<open>nbLits\<close>) literals are still in use.
\<close>

section \<open>The loops\<close>

text \<open>The loop over \<open>k\<close>: compare \<open>lit\<close> with the literals from \<open>k\<close> on.\<close>

function dedupLoop :: "lit list \<Rightarrow> lit \<Rightarrow> nat \<Rightarrow> nat \<Rightarrow> (lit list \<times> nat \<times> bool) option" where
  "dedupLoop ls l n k =
     (if k < n then do {
        l2 \<leftarrow> get ls k;
        if l2 = Negation l then Some (ls, n, True)
        else if l2 = l then do {
          x \<leftarrow> get ls (n - 1);
          ls \<leftarrow> put ls k x;
          dedupLoop ls l (n - 1) k }
        else dedupLoop ls l n (Suc k) }
      else Some (ls, n, False))"
  by pat_completeness auto
termination
  by (relation "measure (\<lambda>(ls, l, n, k). n - k)") auto

declare dedupLoop.simps [simp del]

lemma dedupLoop_le: "dedupLoop ls l n k = Some (ls', n', sat) \<Longrightarrow> n' \<le> n"
proof (induction ls l n k arbitrary: ls' n' sat rule: dedupLoop.induct)
  case (1 ls l n k)
  note p = "1.prems" [unfolded dedupLoop.simps [of ls l n k]]
  then show ?case
    using "1.IH" by (fastforce simp: get_def put_def split: if_splits dest: le_trans)
qed

text \<open>The loop over \<open>j\<close>: each literal against the rest of the clause and the partial model.\<close>

function litLoop :: "declevel list \<Rightarrow> lit list \<Rightarrow> nat \<Rightarrow> nat \<Rightarrow> (lit list \<times> nat \<times> bool) option" where
  "litLoop ms ls n j =
     (if j < n then do {
        l \<leftarrow> get ls j;
        (ls, n, sat) \<leftarrow> dedupLoop ls l n (Suc j);
        if sat then Some (ls, n, True)
        else do {
          m \<leftarrow> geti ms (Lit_Var l);
          if m = 0 then litLoop ms ls n (Suc j)
          else if (m = 1) = IsPositive l then Some (ls, n, True)
          else do {
            x \<leftarrow> get ls (n - 1);
            ls \<leftarrow> put ls j x;
            litLoop ms ls (n - 1) j } } }
      else Some (ls, n, False))"
  by pat_completeness auto
termination
  by (relation "measure (\<lambda>(ms, ls, n, j). n - j)") (auto dest!: dedupLoop_le)

declare litLoop.simps [simp del]

section \<open>Correctness of the literal loops\<close>

lemma dedupLoop_spec:
  assumes "n \<le> length ls" and "k \<le> n"
  shows "wp (dedupLoop ls l n k) (\<lambda>(ls', n', sat). length ls' = length ls \<and> k \<le> n' \<and> n' \<le> n
     \<and> (\<forall>i < k. ls' ! i = ls ! i)
     \<and> (if sat then Negation l \<in> seg ls k n
        else seg ls' k n' = seg ls k n - {l} \<and> Negation l \<notin> seg ls k n))"
  using assms
proof (induction ls l n k rule: dedupLoop.induct)
  case (1 ls l n k)
  show ?case
  proof (cases "k < n")
    case False
    then show ?thesis using "1.prems" by (subst dedupLoop.simps) simp
  next
    case k: True
    have kl: "k < length ls" "n - 1 < length ls" using k "1.prems" by simp_all
    consider "ls ! k = Negation l" | "ls ! k \<noteq> Negation l" "ls ! k = l"
      | "ls ! k \<noteq> Negation l" "ls ! k \<noteq> l" by blast
    then show ?thesis
    proof cases
      case neg: 1
      then show ?thesis
        using k kl "1.prems" nth_in_seg [of k k n ls] by (simp add: dedupLoop.simps [of ls l n k])
    next
      case dup: 2
      have "wp (dedupLoop (ls[k := ls ! (n - 1)]) l (n - 1) k) (\<lambda>(ls', n', sat).
         length ls' = length ls \<and> k \<le> n' \<and> n' \<le> n - 1 \<and> (\<forall>i < k. ls' ! i = ls ! i)
         \<and> (if sat then Negation l \<in> seg (ls[k := ls ! (n - 1)]) k (n - 1)
            else seg ls' k n' = seg (ls[k := ls ! (n - 1)]) k (n - 1) - {l}
              \<and> Negation l \<notin> seg (ls[k := ls ! (n - 1)]) k (n - 1)))"
        using "1.IH"(1) [OF k get_Some [OF kl(1)] dup get_Some [OF kl(2)] put_Some [OF kl(1)]]
          k "1.prems" by (fastforce elim!: wp_mono)
      moreover have "seg ls k n = insert l (seg (ls[k := ls ! (n - 1)]) k (n - 1))"
        using seg_move [OF k "1.prems"(1)] dup by simp
      ultimately show ?thesis
        using dup k kl
        by (simp add: dedupLoop.simps [of ls l n k]) (erule wp_mono; auto split: if_splits)
    next
      case other: 3
      have "wp (dedupLoop ls l n (Suc k)) (\<lambda>(ls', n', sat). length ls' = length ls \<and> Suc k \<le> n'
         \<and> n' \<le> n \<and> (\<forall>i < Suc k. ls' ! i = ls ! i)
         \<and> (if sat then Negation l \<in> seg ls (Suc k) n
            else seg ls' (Suc k) n' = seg ls (Suc k) n - {l} \<and> Negation l \<notin> seg ls (Suc k) n))"
        using "1.IH"(2) [OF k _ other] k kl "1.prems" by simp
      then show ?thesis
        using other k kl
        by (simp add: dedupLoop.simps [of ls l n k]) (erule wp_mono; auto simp: seg_Suc split: if_splits)
    qed
  qed
qed

text \<open>What \<open>litLoop\<close> guarantees of its result, from index \<open>j\<close> on.\<close>

definition litLoop_post ::
  "declevel list \<Rightarrow> lit list \<Rightarrow> nat \<Rightarrow> nat \<Rightarrow> lit list \<times> nat \<times> bool \<Rightarrow> bool" where
  "litLoop_post ms ls n j = (\<lambda>(ls', n', sat).
     length ls' = length ls \<and> n' \<le> n \<and> (\<forall>i < j. ls' ! i = ls ! i)
     \<and> (if sat then \<forall>a. agree a ms \<longrightarrow> (\<exists>l \<in> seg ls j n. lit_true a l)
        else j \<le> n'
          \<and> (\<forall>a. agree a ms \<longrightarrow>
               (\<exists>l \<in> seg ls' j n'. lit_true a l) = (\<exists>l \<in> seg ls j n. lit_true a l))
          \<and> seg ls' j n' \<subseteq> seg ls j n \<and> (\<forall>l \<in> seg ls' j n'. ms ! nat (Lit_Var l) = 0)
          \<and> inj_on (\<lambda>i. Lit_Var (ls' ! i)) {j..<n'}))"

lemma litLoop_post_keep:
  assumes j: "j < n" and n1: "Suc j \<le> n1" "n1 \<le> n" and len: "length ls1 = length ls"
    and pre: "\<forall>i < Suc j. ls1 ! i = ls ! i" and ok: "\<forall>l \<in> seg ls j n. lit_ok N l"
    and seg1: "seg ls1 (Suc j) n1 = seg ls (Suc j) n - {ls ! j}" "Negation (ls ! j) \<notin> seg ls (Suc j) n"
    and free: "ms ! nat (Lit_Var (ls ! j)) = 0" and post: "litLoop_post ms ls1 n1 (Suc j) r"
  shows "litLoop_post ms ls n j r"
proof -
  obtain ls' n' sat where r: "r = (ls', n', sat)" by (cases r)
  have s: "seg ls j n = insert (ls ! j) (seg ls (Suc j) n)" by (rule seg_Suc [OF j])
  have nonneg: "0 \<le> l" if "l \<in> seg ls j n" for l using ok that by (auto dest: lit_okD)
  show ?thesis
  proof (cases sat)
    case True
    then show ?thesis
      using post n1 len pre s seg1 by (auto simp: litLoop_post_def r)
  next
    case False
    then have p: "length ls' = length ls1" "n' \<le> n1" "\<forall>i < Suc j. ls' ! i = ls1 ! i" "Suc j \<le> n'"
      "\<And>a. agree a ms \<Longrightarrow> (\<exists>l \<in> seg ls' (Suc j) n'. lit_true a l) = (\<exists>l \<in> seg ls1 (Suc j) n1. lit_true a l)"
      "seg ls' (Suc j) n' \<subseteq> seg ls1 (Suc j) n1" "\<forall>l \<in> seg ls' (Suc j) n'. ms ! nat (Lit_Var l) = 0"
      "inj_on (\<lambda>i. Lit_Var (ls' ! i)) {Suc j..<n'}"
      using post by (auto simp: litLoop_post_def r)
    have lj: "ls' ! j = ls ! j" using p(3) pre by simp
    have s': "seg ls' j n' = insert (ls ! j) (seg ls' (Suc j) n')"
      using seg_Suc [of j n' ls'] p(4) lj by simp
    have diff: "Lit_Var l \<noteq> Lit_Var (ls ! j)" if "l \<in> seg ls' (Suc j) n'" for l
      using that p(6) seg1 s lit_eq_iff [of l "ls ! j"] lit_neg_iff [of l "ls ! j"] nonneg by auto
    have "Lit_Var (ls ! j) \<notin> (\<lambda>i. Lit_Var (ls' ! i)) ` {Suc j..<n'}"
    proof
      assume "Lit_Var (ls ! j) \<in> (\<lambda>i. Lit_Var (ls' ! i)) ` {Suc j..<n'}"
      then obtain i where "i \<in> {Suc j..<n'}" "Lit_Var (ls ! j) = Lit_Var (ls' ! i)" by blast
      then show False using diff [of "ls' ! i"] by (simp add: seg_def)
    qed
    moreover have "{j..<n'} = insert j {Suc j..<n'}" using p(4) by auto
    ultimately have "inj_on (\<lambda>i. Lit_Var (ls' ! i)) {j..<n'}"
      using p(8) lj by simp
    then show ?thesis
      using False p n1 len pre s s' seg1 free by (auto simp: litLoop_post_def r)
  qed
qed

lemma litLoop_post_drop:
  assumes j: "j < n1" and n1: "n1 \<le> n" "n1 \<le> length ls1" and len: "length ls1 = length ls"
    and pre: "\<forall>i < Suc j. ls1 ! i = ls ! i"
    and seg1: "seg ls1 (Suc j) n1 = seg ls (Suc j) n - {ls ! j}"
    and ff: "\<And>a. agree a ms \<Longrightarrow> \<not> lit_true a (ls ! j)"
    and post: "litLoop_post ms (ls1[j := ls1 ! (n1 - 1)]) (n1 - 1) j r"
  shows "litLoop_post ms ls n j r"
proof -
  obtain ls' n' sat where r: "r = (ls', n', sat)" by (cases r)
  define T where "T = seg (ls1[j := ls1 ! (n1 - 1)]) j (n1 - 1)"
  have "seg ls1 j n1 = insert (ls ! j) T"
    unfolding T_def using seg_move [OF j n1(2)] pre by simp
  moreover have "seg ls1 j n1 = insert (ls ! j) (seg ls1 (Suc j) n1)"
    using seg_Suc [OF j, of ls1] pre by simp
  moreover have "seg ls j n = insert (ls ! j) (seg ls (Suc j) n)"
    using j n1 by (intro seg_Suc) simp
  ultimately have s: "insert (ls ! j) T = seg ls j n" using seg1 by auto
  have "(\<exists>l \<in> T. lit_true a l) = (\<exists>l \<in> seg ls j n. lit_true a l)" if "agree a ms" for a
    unfolding s [symmetric] using ff [OF that] by auto
  moreover have "T \<subseteq> seg ls j n" using s by auto
  ultimately show ?thesis
    using post j n1 len pre unfolding litLoop_post_def r T_def [symmetric]
    by (auto split: if_splits)
qed

lemma litLoop_spec:
  assumes "n \<le> length ls" and "j \<le> n" and "\<forall>l \<in> seg ls j n. lit_ok (int (length ms)) l"
  shows "wp (litLoop ms ls n j) (litLoop_post ms ls n j)"
  using assms
proof (induction ms ls n j rule: litLoop.induct)
  case (1 ms ls n j)
  show ?case
  proof (cases "j < n")
    case False
    then show ?thesis using "1.prems" by (subst litLoop.simps) (simp add: litLoop_post_def)
  next
    case j: True
    define l where "l = ls ! j"
    have jl: "j < length ls" using j "1.prems" by simp
    have lok: "lit_ok (int (length ms)) l" using "1.prems"(3) nth_in_seg [of j j n ls] j by (simp add: l_def)
    obtain ls1 n1 sat where d: "dedupLoop ls l n (Suc j) = Some (ls1, n1, sat)"
      and len1: "length ls1 = length ls" and n1: "Suc j \<le> n1" "n1 \<le> n"
      and pre1: "\<forall>i < Suc j. ls1 ! i = ls ! i"
      and seg1: "if sat then Negation l \<in> seg ls (Suc j) n
        else seg ls1 (Suc j) n1 = seg ls (Suc j) n - {l} \<and> Negation l \<notin> seg ls (Suc j) n"
      using dedupLoop_spec [of n ls "Suc j" l] "1.prems" j by (auto simp: wp_iff)
    define m where "m = ms ! nat (Lit_Var l)"
    have m: "geti ms (Lit_Var l) = Some m" using lit_ok_index [OF lok] by (simp add: m_def)
    have s: "seg ls j n = insert l (seg ls (Suc j) n)" using seg_Suc [OF j, of ls] by (simp add: l_def)
    have val: "lit_true a l \<longleftrightarrow> (m = 1) = IsPositive l" if "agree a ms" "m \<noteq> 0" for a
      using agree_lit [OF that(1) lok] that(2) by (simp add: m_def)
    note step = litLoop.simps [of ms ls n j]
    consider "sat" | "\<not> sat" "m = 0" | "\<not> sat" "m \<noteq> 0" "(m = 1) = IsPositive l"
      | "\<not> sat" "m \<noteq> 0" "(m = 1) \<noteq> IsPositive l" by blast
    then show ?thesis
    proof cases
      case taut: 1
      have "\<exists>l \<in> seg ls j n. lit_true a l" for a
        using seg1 taut s lit_true_Negation [OF lit_okD(1) [OF lok], of a]
        by (cases "lit_true a l") auto
      then show ?thesis
        using taut j jl d len1 n1 pre1 by (simp add: step l_def [symmetric] litLoop_post_def)
    next
      case keep: 2
      have ok1: "\<forall>l \<in> seg ls1 (Suc j) n1. lit_ok (int (length ms)) l"
        using keep seg1 s "1.prems"(3) by auto
      have "wp (litLoop ms ls1 n1 (Suc j)) (litLoop_post ms ls1 n1 (Suc j))"
        by (rule "1.IH"(1) [OF j get_Some [OF jl] d [unfolded l_def] refl refl keep(1) m [unfolded l_def] keep(2)])
          (use n1 len1 "1.prems" ok1 in simp_all)
      moreover have "litLoop_post ms ls1 n1 (Suc j) r \<Longrightarrow> litLoop_post ms ls n j r" for r
        using litLoop_post_keep [OF j n1 len1 pre1 "1.prems"(3)] keep seg1 by (auto simp: l_def m_def)
      ultimately show ?thesis
        using j jl d m keep by (simp add: step l_def [symmetric]) (rule wp_mono)
    next
      case true: 3
      then show ?thesis
        using j jl d m len1 n1 pre1 s val by (simp add: step l_def [symmetric] litLoop_post_def)
    next
      case false: 4
      define ls2 where "ls2 = ls1[j := ls1 ! (n1 - 1)]"
      have jn: "n1 - 1 < length ls1" "j < length ls1" "j < n1" "n1 \<le> length ls1"
        using n1 len1 "1.prems"(1) by simp_all
      have "seg ls2 j (n1 - 1) \<subseteq> seg ls1 j n1"
        using seg_move [OF jn(3,4)] by (auto simp: ls2_def)
      also have "\<dots> = insert (ls1 ! j) (seg ls1 (Suc j) n1)" by (rule seg_Suc [OF jn(3)])
      finally have ok2: "\<forall>l \<in> seg ls2 j (n1 - 1). lit_ok (int (length ms)) l"
        using false seg1 s "1.prems"(3) pre1 lok by (auto simp: l_def)
      have "wp (litLoop ms ls2 (n1 - 1) j) (litLoop_post ms ls2 (n1 - 1) j)"
        by (rule "1.IH"(2) [OF j get_Some [OF jl] d [unfolded l_def] refl refl false(1) m [unfolded l_def]
              false(2) false(3) [unfolded l_def] get_Some [OF jn(1)] put_Some [OF jn(2)], folded ls2_def])
          (use n1 len1 "1.prems" ok2 in \<open>simp_all add: ls2_def\<close>)
      moreover have "litLoop_post ms ls2 (n1 - 1) j r \<Longrightarrow> litLoop_post ms ls n j r" for r
        using litLoop_post_drop [OF jn(3) n1(2) jn(4) len1 pre1] false seg1 val
        by (auto simp: l_def ls2_def)
      ultimately show ?thesis
        using j jl d m false jn by (simp add: step l_def [symmetric] ls2_def [unfolded One_nat_def, symmetric])
          (rule wp_mono)
    qed
  qed
qed

text \<open>The loops only move the literals of the clause around.\<close>

lemma put_set: "put xs i x = Some ys \<Longrightarrow> set ys \<subseteq> insert x (set xs)"
  by (auto simp: put_def split: if_splits dest: set_update_subset_insert [THEN subsetD])

lemma get_set: "get xs i = Some x \<Longrightarrow> x \<in> set xs"
  by (auto simp: get_def split: if_splits)

lemma dedupLoop_set: "dedupLoop ls l n k = Some (ls', n', sat) \<Longrightarrow> set ls' \<subseteq> set ls"
proof (induction ls l n k arbitrary: ls' n' sat rule: dedupLoop.induct)
  case (1 ls l n k)
  then show ?case
    unfolding dedupLoop.simps [of ls l n k]
    by (fastforce simp: bind_eq_Some_conv split: if_splits dest: put_set get_set)
qed

lemma litLoop_set: "litLoop ms ls n j = Some (ls', n', sat) \<Longrightarrow> set ls' \<subseteq> set ls"
proof (induction ms ls n j arbitrary: ls' n' sat rule: litLoop.induct)
  case (1 ms ls n j)
  note p = "1.prems" [unfolded litLoop.simps [of ms ls n j]]
  show ?case
  proof (cases "j < n")
    case True
    obtain l ls1 n1 sat1 where s: "get ls j = Some l" "dedupLoop ls l n (Suc j) = Some (ls1, n1, sat1)"
      using p True by (auto simp: bind_eq_Some_conv)
    have "set ls1 \<subseteq> set ls" by (rule dedupLoop_set [OF s(2)])
    then show ?thesis
      using p True s "1.IH" [OF True s refl refl]
      by (fastforce simp: bind_eq_Some_conv split: if_splits dest: put_set get_set)
  qed (use p in simp)
qed

section \<open>The clause loop\<close>

text \<open>
  The loop over \<open>i\<close>. The result is the problem, the number of clauses in use, whether to restart,
  and whether the function returned from inside the loop. A clause is mutated in place, which
  the first \<open>put\<close> models.
\<close>

function clauseLoop ::
  "problem \<Rightarrow> nat \<Rightarrow> nat \<Rightarrow> bool \<Rightarrow> (problem \<times> nat \<times> bool \<times> bool) option" where
  "clauseLoop pb nb i restart =
     (if i < nb then do {
        c \<leftarrow> get (Clauses pb) i;
        (ls, n, sat) \<leftarrow> litLoop (pModel pb) (lits c) (Len c) 0;
        cs \<leftarrow> put (Clauses pb) i (c\<lparr>lits := ls\<rparr>);
        let pb = pb\<lparr>Clauses := cs\<rparr>;
        if sat then do {
          x \<leftarrow> get (Clauses pb) (nb - 1);
          cs \<leftarrow> put (Clauses pb) i x;
          clauseLoop (pb\<lparr>Clauses := cs\<rparr>) (nb - 1) i restart }
        else if n = 0 then Some (pb\<lparr>pStatus := Unsat\<rparr>, nb, restart, True)
        else if n = 1 then do {
          l \<leftarrow> get ls 0;
          pb \<leftarrow> addUnit pb l;
          if pStatus pb = Unsat then Some (pb, nb, restart, True)
          else do {
            x \<leftarrow> get (Clauses pb) (nb - 1);
            cs \<leftarrow> put (Clauses pb) i x;
            clauseLoop (pb\<lparr>Clauses := cs\<rparr>) (nb - 1) i True } }
        else do {
          c2 \<leftarrow> (if length ls \<noteq> n then Shrink (c\<lparr>lits := ls\<rparr>) n else Some (c\<lparr>lits := ls\<rparr>));
          cs \<leftarrow> put (Clauses pb) i c2;
          clauseLoop (pb\<lparr>Clauses := cs\<rparr>) nb (Suc i) restart } }
      else Some (pb, nb, restart, False))"
  by pat_completeness auto
termination
  by (relation "measure (\<lambda>(pb, nb, i, restart). nb - i)") auto

declare clauseLoop.simps [simp del]

lemma clauseLoop_shrinks:
  "clauseLoop pb nb i r = Some (pb', nb', r', ret) \<Longrightarrow> nb' \<le> nb \<and> (r' \<and> \<not> r \<longrightarrow> nb' < nb)"
proof (induction pb nb i r arbitrary: pb' nb' r' ret rule: clauseLoop.induct)
  case (1 pb nb i r)
  note p = "1.prems" [unfolded clauseLoop.simps [of pb nb i r]]
  show ?case
  proof (cases "i < nb")
    case True
    obtain c ls n sat cs where s: "get (Clauses pb) i = Some c"
      "litLoop (pModel pb) (lits c) (Len c) 0 = Some (ls, n, sat)"
      "put (Clauses pb) i (c\<lparr>lits := ls\<rparr>) = Some cs"
      using p True by (auto simp: bind_eq_Some_conv)
    note ih = "1.IH" [OF True s(1,2) refl refl s(3) refl]
    consider "sat" | "\<not> sat" "n = 0" | "\<not> sat" "n \<noteq> 0" "n = 1" | "\<not> sat" "n \<noteq> 0" "n \<noteq> 1" by blast
    then show ?thesis
    proof cases
      case 1
      then show ?thesis using p True s ih(1) by (fastforce simp: bind_eq_Some_conv)
    next
      case 2
      then show ?thesis using p True s by simp
    next
      case 3
      then show ?thesis using p True s ih(2)
        by (fastforce simp: bind_eq_Some_conv split: if_splits)
    next
      case 4
      then show ?thesis using p True s ih(3)
        by (fastforce simp: bind_eq_Some_conv)
    qed
  qed (use p in simp)
qed

text \<open>The loop \<open>for restart\<close>, then \<open>updateStatus\<close>.\<close>

function simplifyLoop :: "problem \<Rightarrow> nat \<Rightarrow> problem option" where
  "simplifyLoop pb nb = do {
     (pb, nb', restart, ret) \<leftarrow> clauseLoop pb nb 0 False;
     if ret then Some pb
     else if restart then simplifyLoop pb nb'
     else updateStatus pb nb' }"
  by pat_completeness auto
termination
  by (relation "measure (\<lambda>(pb, nb). nb)") (auto dest!: clauseLoop_shrinks)

declare simplifyLoop.simps [simp del]

definition simplify2 :: "problem \<Rightarrow> problem option" where
  "simplify2 pb = simplifyLoop pb (length (Clauses pb))"

section \<open>Correctness of the clause loop\<close>

text \<open>The assignments that satisfy the partial model and the first \<open>nb\<close> clauses.\<close>

definition active :: "problem \<Rightarrow> nat \<Rightarrow> asg \<Rightarrow> bool" where
  "active pb nb a \<longleftrightarrow> agree a (pModel pb) \<and> (\<forall>c \<in> seg (Clauses pb) 0 nb. sat_clause a c)"

text \<open>A clause the simplifier is done with.\<close>

definition clean :: "declevel list \<Rightarrow> clause \<Rightarrow> bool" where
  "clean ms c \<longleftrightarrow> prop_clause c \<and> 2 \<le> length (lits c)
     \<and> (\<forall>l \<in> set (lits c). ms ! nat (Lit_Var l) = 0) \<and> distinct (map Lit_Var (lits c))"

definition clauseLoop_pre :: "problem \<Rightarrow> nat \<Rightarrow> nat \<Rightarrow> bool \<Rightarrow> bool" where
  "clauseLoop_pre pb nb i r \<longleftrightarrow> pb_inv pb \<and> nb \<le> length (Clauses pb) \<and> i \<le> nb
     \<and> (\<forall>c \<in> seg (Clauses pb) 0 nb. prop_clause c) \<and> pStatus pb \<noteq> Unsat
     \<and> (\<not> r \<longrightarrow> (\<forall>c \<in> seg (Clauses pb) 0 i. clean (pModel pb) c))"

definition clauseLoop_post :: "problem \<Rightarrow> nat \<Rightarrow> problem \<times> nat \<times> bool \<times> bool \<Rightarrow> bool" where
  "clauseLoop_post pb nb = (\<lambda>(pb', nb', r', ret). pb_inv pb' \<and> NbVars pb' = NbVars pb
     \<and> (if ret then pStatus pb' = Unsat \<and> (\<forall>a. \<not> active pb nb a)
        else pStatus pb' = pStatus pb \<and> nb' \<le> length (Clauses pb')
          \<and> (\<forall>c \<in> seg (Clauses pb') 0 nb'. prop_clause c)
          \<and> (\<forall>a. active pb' nb' a = active pb nb a)
          \<and> (\<not> r' \<longrightarrow> (\<forall>c \<in> seg (Clauses pb') 0 nb'. clean (pModel pb') c))))"

lemma clauseLoop_post_trans:
  assumes "clauseLoop_post pb2 nb2 res" and "NbVars pb2 = NbVars pb" and "pStatus pb2 = pStatus pb"
    and "\<And>a. active pb2 nb2 a = active pb nb a"
  shows "clauseLoop_post pb nb res"
  using assms by (auto simp: clauseLoop_post_def split: if_splits)

text \<open>The three ways the loop goes on, each keeping precondition and meaning.\<close>

lemma clauseLoop_drop:
  assumes pre: "clauseLoop_pre pb nb i r" and i: "i < nb" and pb2: "pb_inv pb2" "NbVars pb2 = NbVars pb"
    "pStatus pb2 = pStatus pb"
    and cs2: "length (Clauses pb2) = length (Clauses pb)"
      "\<And>k. k < nb - 1 \<Longrightarrow> Clauses pb2 ! k = (Clauses pb)[i := Clauses pb ! (nb - 1)] ! k"
    and r2: "\<not> r2 \<Longrightarrow> \<not> r \<and> pModel pb2 = pModel pb"
    and equiv: "\<And>a. agree a (pModel pb2) \<longleftrightarrow> agree a (pModel pb) \<and> sat_clause a (Clauses pb ! i)"
  shows "clauseLoop_pre pb2 (nb - 1) i r2 \<and> (\<forall>a. active pb2 (nb - 1) a = active pb nb a)"
proof
  have nb: "nb \<le> length (Clauses pb)" and i': "i < length (Clauses pb)"
    using pre i by (auto simp: clauseLoop_pre_def)
  have "seg (Clauses pb2) 0 (nb - 1) = seg ((Clauses pb)[i := Clauses pb ! (nb - 1)]) 0 (nb - 1)"
    by (rule seg_cong) (rule cs2)
  then have s: "seg (Clauses pb) 0 nb = insert (Clauses pb ! i) (seg (Clauses pb2) 0 (nb - 1))"
    using seg_move_at [OF _ i nb, of 0] by simp
  have si: "seg (Clauses pb2) 0 i = seg (Clauses pb) 0 i"
    by (rule seg_cong) (use i in \<open>simp add: cs2\<close>)
  show "\<forall>a. active pb2 (nb - 1) a = active pb nb a"
    by (auto simp: active_def s equiv)
  show "clauseLoop_pre pb2 (nb - 1) i r2"
    using pre pb2 r2 i s si by (auto simp: clauseLoop_pre_def cs2)
qed

lemma clauseLoop_keep:
  assumes pre: "clauseLoop_pre pb nb i r" and i: "i < nb" and pb2: "pb_inv pb2" "NbVars pb2 = NbVars pb"
    "pStatus pb2 = pStatus pb" "pModel pb2 = pModel pb"
    and cs2: "Clauses pb2 = (Clauses pb)[i := d]" and d: "clean (pModel pb) d"
    and equiv: "\<And>a. agree a (pModel pb) \<Longrightarrow> sat_clause a d = sat_clause a (Clauses pb ! i)"
  shows "clauseLoop_pre pb2 nb (Suc i) r \<and> (\<forall>a. active pb2 nb a = active pb nb a)"
proof
  have nb: "nb \<le> length (Clauses pb)" and i': "i < length (Clauses pb)"
    using pre i by (auto simp: clauseLoop_pre_def)
  show "\<forall>a. active pb2 nb a = active pb nb a"
    using seg_all_put [OF _ i nb, of 0 "sat_clause a" d for a] equiv pb2
    by (auto simp: active_def cs2)
  have "prop_clause d = prop_clause (Clauses pb ! i)"
    using d pre i nth_in_seg [of 0 i nb "Clauses pb"] by (auto simp: clean_def clauseLoop_pre_def)
  moreover have "seg (Clauses pb2) 0 (Suc i) = insert d (seg (Clauses pb) 0 i)"
    using i' seg_split [of 0 i "Suc i" "Clauses pb2"] seg_Suc [of i "Suc i" "Clauses pb2"]
    by (simp add: cs2)
  ultimately show "clauseLoop_pre pb2 nb (Suc i) r"
    using pre pb2 i d nb seg_all_put [OF _ i nb, of 0 prop_clause d]
    by (auto simp: clauseLoop_pre_def cs2)
qed

lemma pb_inv_clauses:
  "pb_inv pb \<Longrightarrow> (\<forall>c \<in> set cs. lits_ok (NbVars pb) (lits c)) \<Longrightarrow> pb_inv (pb\<lparr>Clauses := cs\<rparr>)"
  by (simp add: pb_inv_def)

lemma pb_inv_put:
  "pb_inv pb \<Longrightarrow> lits_ok (NbVars pb) (lits c) \<Longrightarrow> pb_inv (pb\<lparr>Clauses := (Clauses pb)[i := c]\<rparr>)"
  by (rule pb_inv_clauses) (auto simp: pb_inv_def dest: set_update_subset_insert [THEN subsetD])

lemma pb_inv_Unsat [simp]: "pb_inv (pb\<lparr>pStatus := st\<rparr>) = pb_inv pb"
  by (simp add: pb_inv_def)

lemma pb_inv_nth: "pb_inv pb \<Longrightarrow> i < length (Clauses pb) \<Longrightarrow> lits_ok (NbVars pb) (lits (Clauses pb ! i))"
  by (auto simp: pb_inv_def)

text \<open>One iteration: what the literal loop found out about clause \<open>i\<close>.\<close>

lemma clauseLoop_lits:
  assumes pre: "clauseLoop_pre pb nb i r" and i: "i < nb"
  defines "c \<equiv> Clauses pb ! i"
  shows "wp (litLoop (pModel pb) (lits c) (Len c) 0) (\<lambda>(ls, n, sat).
     length ls = Len c \<and> n \<le> Len c \<and> lits_ok (NbVars pb) ls
     \<and> (if sat then \<forall>a. agree a (pModel pb) \<longrightarrow> sat_clause a c
        else (\<forall>a. agree a (pModel pb) \<longrightarrow> sat_clause a c = (\<exists>l \<in> set (take n ls). lit_true a l))
          \<and> (\<forall>l \<in> set (take n ls). pModel pb ! nat (Lit_Var l) = 0)
          \<and> distinct (map Lit_Var (take n ls))))"
proof -
  have il: "i < length (Clauses pb)" and pc: "prop_clause c" and inv: "pb_inv pb"
    using pre i nth_in_seg [of 0 i nb "Clauses pb"] by (auto simp: clauseLoop_pre_def c_def)
  have len: "int (length (pModel pb)) = NbVars pb" using inv by (simp add: pb_inv_def)
  have ok: "lits_ok (NbVars pb) (lits c)" using pb_inv_nth [OF inv il] by (simp add: c_def)
  have seg0: "seg (lits c) 0 (Len c) = set (lits c)" by (simp add: seg_take Len_def)
  obtain ls n sat where l: "litLoop (pModel pb) (lits c) (Len c) 0 = Some (ls, n, sat)"
    and post: "litLoop_post (pModel pb) (lits c) (Len c) 0 (ls, n, sat)"
    using litLoop_spec [of "Len c" "lits c" 0 "pModel pb"] ok len seg0
    by (auto simp: wp_iff Len_def)
  have "set ls \<subseteq> set (lits c)" by (rule litLoop_set [OF l])
  then have "lits_ok (NbVars pb) ls" using ok by auto
  moreover have n: "length ls = Len c" "n \<le> Len c" using post by (auto simp: litLoop_post_def Len_def)
  moreover have "seg ls 0 n = set (take n ls)" using n by (simp add: seg_take)
  moreover have "inj_on (\<lambda>i. Lit_Var (ls ! i)) {0..<n} \<Longrightarrow> distinct (map Lit_Var (take n ls))"
    using n by (auto simp: distinct_conv_nth inj_on_def)
  ultimately show ?thesis
    using post seg0 unfolding l wp_Some
    by (cases sat) (auto simp: litLoop_post_def prop_clause_sat [OF pc])
qed

lemma clauseLoop_spec:
  "clauseLoop_pre pb nb i r \<Longrightarrow> wp (clauseLoop pb nb i r) (clauseLoop_post pb nb)"
proof (induction pb nb i r rule: clauseLoop.induct)
  case (1 pb nb i r)
  note pre = "1.prems" and step = clauseLoop.simps [of pb nb i r]
  show ?case
  proof (cases "i < nb")
    case False
    then show ?thesis
      using pre by (subst clauseLoop.simps) (auto simp: clauseLoop_pre_def clauseLoop_post_def)
  next
    case i: True
    define c where "c = Clauses pb ! i"
    have inv: "pb_inv pb" and nb: "nb \<le> length (Clauses pb)" and ns: "pStatus pb \<noteq> Unsat"
      and il: "i < length (Clauses pb)" "nb - 1 < length (Clauses pb)" and pc: "prop_clause c"
      using pre i nth_in_seg [of 0 i nb "Clauses pb"] by (auto simp: clauseLoop_pre_def c_def)
    obtain ls n sat where l: "litLoop (pModel pb) (lits c) (Len c) 0 = Some (ls, n, sat)"
      and n: "length ls = Len c" "n \<le> Len c" and ok: "lits_ok (NbVars pb) ls"
      and ll: "if sat then \<forall>a. agree a (pModel pb) \<longrightarrow> sat_clause a c
        else (\<forall>a. agree a (pModel pb) \<longrightarrow> sat_clause a c = (\<exists>l \<in> set (take n ls). lit_true a l))
          \<and> (\<forall>l \<in> set (take n ls). pModel pb ! nat (Lit_Var l) = 0)
          \<and> distinct (map Lit_Var (take n ls))"
      using clauseLoop_lits [OF pre i] by (auto simp: wp_iff c_def)
    define cs where "cs = (Clauses pb)[i := c\<lparr>lits := ls\<rparr>]"
    define pb1 where "pb1 = pb\<lparr>Clauses := cs\<rparr>"
    have cs: "put (Clauses pb) i (c\<lparr>lits := ls\<rparr>) = Some cs" using il by (simp add: cs_def)
    have cpb1: "Clauses pb1 = cs" by (simp add: pb1_def)
    have inv1: "pb_inv pb1" using pb_inv_put [OF inv, of "c\<lparr>lits := ls\<rparr>" i] ok by (simp add: pb1_def cs_def)
    have csl: "i < length cs" "nb - 1 < length cs" "length cs = length (Clauses pb)"
      using il by (simp_all add: cs_def)
    define cs2 where "cs2 = cs[i := cs ! (nb - 1)]"
    have inv2: "pb_inv (pb'\<lparr>Clauses := cs2\<rparr>)" if "pb_inv pb'" "Clauses pb' = cs" for pb'
      unfolding cs2_def using pb_inv_put [OF that(1), of "cs ! (nb - 1)" i] pb_inv_nth [OF that(1), of "nb - 1"] that(2) csl
      by simp
    note ih = "1.IH" [OF i get_Some [OF il(1), folded c_def] l refl refl cs refl, folded pb1_def]
    have dead: "cs2 ! k = (Clauses pb)[i := Clauses pb ! (nb - 1)] ! k" if "k < nb - 1" for k
      using that il by (simp add: cs2_def cs_def nth_list_update)
    have len2: "length cs2 = length (Clauses pb)" by (simp add: cs2_def csl)
    consider "sat" | "\<not> sat" "n = 0" | "\<not> sat" "n \<noteq> 0" "n = 1" | "\<not> sat" "n \<noteq> 0" "n \<noteq> 1" by blast
    then show ?thesis
    proof cases
      case sat: 1
      have "clauseLoop_pre (pb1\<lparr>Clauses := cs2\<rparr>) (nb - 1) i r
          \<and> (\<forall>a. active (pb1\<lparr>Clauses := cs2\<rparr>) (nb - 1) a = active pb nb a)"
        by (rule clauseLoop_drop [OF pre i])
          (use inv2 [OF inv1] dead len2 ll sat in \<open>auto simp: pb1_def c_def\<close>)
      then have "wp (clauseLoop (pb1\<lparr>Clauses := cs2\<rparr>) (nb - 1) i r) (clauseLoop_post pb nb)"
        using ih(1) [OF sat, of "cs ! (nb - 1)" cs2] csl
        by (auto simp: pb1_def cs2_def elim!: wp_mono clauseLoop_post_trans)
      then show ?thesis
        using sat l cs il csl i unfolding step
        by (simp add: c_def [symmetric] pb1_def cs2_def)
    next
      case empty: 2
      have "\<not> active pb nb a" for a
        using ll empty nth_in_seg [of 0 i nb "Clauses pb"] i by (auto simp: active_def c_def)
      then have "clauseLoop_post pb nb (pb1\<lparr>pStatus := Unsat\<rparr>, nb, r, True)"
        using inv1 by (simp add: clauseLoop_post_def) (simp add: pb1_def)
      then show ?thesis
        using empty l cs il csl i unfolding step
        by (simp add: c_def [symmetric] pb1_def)
    next
      case unit: 3
      define u where "u = ls ! 0"
      have tk: "take n ls = [u]" and u0: "0 < length ls"
        using unit n by (cases ls; simp add: u_def)+
      have uok: "lit_ok (NbVars pb1) u" using ok u0 by (simp add: u_def pb1_def)
      have free: "pModel pb1 ! nat (Lit_Var u) = 0" using ll unit tk by (simp add: pb1_def)
      obtain pb2 where a2: "addUnit pb1 u = Some pb2" and f2: "Clauses pb2 = cs" "NbVars pb2 = NbVars pb"
        "pb_inv pb2" "pStatus pb2 = pStatus pb"
        "pModel pb2 = (pModel pb)[nat (Lit_Var u) := if IsPositive u then 1 else - 1]"
        using addUnit_spec [OF inv1 uok] free by (auto simp: wp_iff pb1_def)
      have "agree a (pModel pb2) \<longleftrightarrow> agree a (pModel pb) \<and> sat_clause a c" for a
      proof -
        have "units_model (pModel pb) (Units pb)" "lit_ok (int (length (pModel pb))) u"
          using inv uok by (simp_all add: pb_inv_def pb1_def)
        from agree_add [OF this] free have "agree a (pModel pb2) \<longleftrightarrow> agree a (pModel pb) \<and> lit_true a u"
          by (simp add: f2 pb1_def)
        then show ?thesis using ll unit tk by auto
      qed
      then have "clauseLoop_pre (pb2\<lparr>Clauses := cs2\<rparr>) (nb - 1) i True
          \<and> (\<forall>a. active (pb2\<lparr>Clauses := cs2\<rparr>) (nb - 1) a = active pb nb a)"
        by (intro clauseLoop_drop [OF pre i])
          (use inv2 [OF f2(3,1)] dead len2 f2 in \<open>auto simp: c_def\<close>)
      then have "wp (clauseLoop (pb2\<lparr>Clauses := cs2\<rparr>) (nb - 1) i True) (clauseLoop_post pb nb)"
        using ih(2) [OF unit get_Some [OF u0, folded u_def] a2, of "cs ! (nb - 1)" cs2] csl ns f2
        by (auto simp: cs2_def elim!: wp_mono clauseLoop_post_trans)
      then show ?thesis
        using unit l cs il csl i u0 a2 f2 ns unfolding step
        by (simp add: c_def [symmetric] pb1_def [symmetric] u_def [symmetric] cs2_def)
    next
      case many: 4
      define c2 where "c2 = c\<lparr>lits := take n ls\<rparr>"
      have sh: "(if length ls \<noteq> n then Shrink (c\<lparr>lits := ls\<rparr>) n else Some (c\<lparr>lits := ls\<rparr>)) = Some c2"
        using n pc by (simp add: Shrink_def upto_def c2_def prop_clause_def)
      define cs3 where "cs3 = cs[i := c2]"
      have c3: "cs3 = (Clauses pb)[i := c2]" by (simp add: cs3_def cs_def)
      have ok2: "lits_ok (NbVars pb) (lits c2)" using ok by (auto simp: c2_def dest: in_set_takeD)
      have "clean (pModel pb) c2"
        using ll many n pc by (auto simp: clean_def c2_def)
      moreover have "sat_clause a c2 = sat_clause a c" if "agree a (pModel pb)" for a
        using ll many that pc prop_clause_sat [of c2 a] by (simp add: c2_def)
      ultimately have "clauseLoop_pre (pb1\<lparr>Clauses := cs3\<rparr>) nb (Suc i) r
          \<and> (\<forall>a. active (pb1\<lparr>Clauses := cs3\<rparr>) nb a = active pb nb a)"
        by (intro clauseLoop_keep [OF pre i, where d = c2])
          (use pb_inv_put [OF inv ok2, of i] in \<open>auto simp: pb1_def c3 c_def\<close>)
      then have "wp (clauseLoop (pb1\<lparr>Clauses := cs3\<rparr>) nb (Suc i) r) (clauseLoop_post pb nb)"
        using ih(3) [OF many sh, of cs3] csl
        by (auto simp: pb1_def cs3_def elim!: wp_mono clauseLoop_post_trans)
      then show ?thesis
        using many l cs il csl i sh cpb1 unfolding step
        by (simp add: c_def [symmetric] pb1_def [symmetric] cs3_def)
    qed
  qed
qed

section \<open>Correctness of simplify2\<close>

definition simplify_post :: "problem \<Rightarrow> problem \<Rightarrow> bool" where
  "simplify_post pb pb' \<longleftrightarrow> pb_inv pb' \<and> NbVars pb' = NbVars pb
     \<and> (if pStatus pb' = Unsat then \<forall>a. \<not> pb_models a pb
        else (\<forall>a. pb_models a pb' = pb_models a pb)
          \<and> pStatus pb' = (if Clauses pb' = [] then Sat else Indet))"

definition simplifyLoop_post :: "problem \<Rightarrow> nat \<Rightarrow> problem \<Rightarrow> bool" where
  "simplifyLoop_post pb nb pb' \<longleftrightarrow> pb_inv pb' \<and> NbVars pb' = NbVars pb
     \<and> (if pStatus pb' = Unsat then \<forall>a. \<not> active pb nb a
        else (\<forall>a. pb_models a pb' = active pb nb a)
          \<and> pStatus pb' = (if Clauses pb' = [] then Sat else Indet)
          \<and> (\<forall>c \<in> set (Clauses pb'). clean (pModel pb') c))"

lemma updateStatus_spec:
  assumes inv: "pb_inv pb" and nb: "nb \<le> length (Clauses pb)" and st: "pStatus pb = Indet"
    and cl: "\<forall>c \<in> seg (Clauses pb) 0 nb. clean (pModel pb) c"
  shows "wp (updateStatus pb nb) (simplifyLoop_post pb nb)"
proof -
  define pb' where "pb' = pb\<lparr>Clauses := take nb (Clauses pb)\<rparr>"
  have inv': "pb_inv pb'"
    unfolding pb'_def by (rule pb_inv_clauses [OF inv]) (use inv in \<open>auto simp: pb_inv_def dest: in_set_takeD\<close>)
  have "pb_models a pb' = active pb nb a" for a
    using pb_models_agree [OF inv'] by (simp add: active_def seg_take [OF nb] pb'_def)
  then have s: "pb_models a (pb'\<lparr>pStatus := q\<rparr>) = active pb nb a" for a q
    by (simp add: pb_models_def)
  have "simplifyLoop_post pb nb (if nb = 0 then pb'\<lparr>pStatus := Sat\<rparr> else pb')"
    using inv' s [of _ Sat] s [of _ Indet] cl st nb
    by (auto simp: simplifyLoop_post_def seg_take [OF nb]) (auto simp: pb'_def pb_models_def)
  then show ?thesis
    using nb st by (auto simp: updateStatus_def upto_def Let_def pb'_def)
qed

lemma simplifyLoop_spec:
  "pb_inv pb \<Longrightarrow> nb \<le> length (Clauses pb) \<Longrightarrow> pStatus pb = Indet \<Longrightarrow>
   \<forall>c \<in> seg (Clauses pb) 0 nb. prop_clause c \<Longrightarrow>
   wp (simplifyLoop pb nb) (simplifyLoop_post pb nb)"
proof (induction pb nb rule: simplifyLoop.induct)
  case (1 pb nb)
  have pre: "clauseLoop_pre pb nb 0 False" using "1.prems" by (simp add: clauseLoop_pre_def)
  obtain pb1 nb1 r ret where c: "clauseLoop pb nb 0 False = Some (pb1, nb1, r, ret)"
    and post: "clauseLoop_post pb nb (pb1, nb1, r, ret)"
    using clauseLoop_spec [OF pre] by (auto simp: wp_iff)
  have trans: "simplifyLoop_post pb1 nb1 x \<Longrightarrow> simplifyLoop_post pb nb x" if "\<not> ret" for x
    using post that by (auto simp: simplifyLoop_post_def clauseLoop_post_def split: if_splits)
  note step = simplifyLoop.simps [of pb nb]
  consider "ret" | "\<not> ret" "r" | "\<not> ret" "\<not> r" by blast
  then show ?case
  proof cases
    case 1
    then show ?thesis using c post unfolding step
      by (auto simp: simplifyLoop_post_def clauseLoop_post_def)
  next
    case 2
    then have "wp (simplifyLoop pb1 nb1) (simplifyLoop_post pb1 nb1)"
      using "1.IH" [OF c refl refl refl] post "1.prems" by (simp add: clauseLoop_post_def)
    then show ?thesis using c 2 trans unfolding step by (auto elim: wp_mono)
  next
    case 3
    then have "wp (updateStatus pb1 nb1) (simplifyLoop_post pb1 nb1)"
      using post "1.prems" by (intro updateStatus_spec) (auto simp: clauseLoop_post_def)
    then show ?thesis using c 3 trans unfolding step by (auto elim: wp_mono)
  qed
qed

lemma simplify2_spec:
  assumes "pb_inv pb" and "pStatus pb = Indet" and "\<forall>c \<in> set (Clauses pb). prop_clause c"
  shows "wp (simplify2 pb) (\<lambda>pb'. simplify_post pb pb'
     \<and> (pStatus pb' \<noteq> Unsat \<longrightarrow> (\<forall>c \<in> set (Clauses pb'). clean (pModel pb') c)))"
proof -
  have "wp (simplifyLoop pb (length (Clauses pb))) (simplifyLoop_post pb (length (Clauses pb)))"
    using assms by (intro simplifyLoop_spec) (auto simp: seg_take)
  moreover have "active pb (length (Clauses pb)) a = pb_models a pb" for a
    by (simp add: active_def seg_take pb_models_agree [OF assms(1)])
  ultimately show ?thesis
    unfolding simplify2_def
    by (elim wp_mono) (auto simp: simplify_post_def simplifyLoop_post_def split: if_splits)
qed

text \<open>
  C17. \<open>simplify2\<close> terminates without panic on every propositional problem whose partial model
  matches its units. If the status becomes Unsat, the problem has no model; otherwise the
  simplified problem has exactly the models of the original, its status is Sat exactly when no
  clause is left, and every clause left has at least two literals, over pairwise distinct,
  unbound variables.
\<close>

theorem simplify2_correct:
  assumes "pb_inv pb" and "pStatus pb = Indet" and "\<forall>c \<in> set (Clauses pb). prop_clause c"
  shows "wp (simplify2 pb) (\<lambda>pb'.
     if pStatus pb' = Unsat then \<forall>a. \<not> pb_sat a pb
     else (\<forall>a. pb_sat a pb' = pb_sat a pb) \<and> (pStatus pb' = Sat \<longleftrightarrow> Clauses pb' = [])
        \<and> (\<forall>c \<in> set (Clauses pb'). 2 \<le> Len c \<and> distinct (map Lit_Var (lits c))
             \<and> (\<forall>l \<in> set (lits c). pModel pb' ! nat (Lit_Var l) = 0)))"
  using simplify2_spec [OF assms] assms(2)
  by (elim wp_mono) (auto simp: simplify_post_def clean_def Len_def pb_sat_def split: if_splits)

definition simplify2Example :: problem where
  "simplify2Example = \<lparr>NbVars = 3, Clauses = [NewClause [0, 2, 0], NewClause [1], NewClause [2, 5, 4]],
     pStatus = Indet, Units = [], pModel = [0, 0, 0], minLits = None, minWeights = None\<rparr>"

theorem simplify2_correct_witness:
  "wp (simplify2 simplify2Example) (\<lambda>pb'.
     if pStatus pb' = Unsat then \<forall>a. \<not> pb_sat a simplify2Example
     else (\<forall>a. pb_sat a pb' = pb_sat a simplify2Example) \<and> (pStatus pb' = Sat \<longleftrightarrow> Clauses pb' = [])
        \<and> (\<forall>c \<in> set (Clauses pb'). 2 \<le> Len c \<and> distinct (map Lit_Var (lits c))
             \<and> (\<forall>l \<in> set (lits c). pModel pb' ! nat (Lit_Var l) = 0)))"
proof (rule simplify2_correct)
  show "pb_inv simplify2Example"
    by (simp add: simplify2Example_def pb_inv_def units_model_def NewClause_def lit_ok_def
        Lit_Var_def signed_divide_int_def less_Suc_eq numeral_3_eq_3)
qed (simp_all add: simplify2Example_def)

end
