(* ===== verification/ParseSlice.thy ===== *)
theory ParseSlice
  imports SimplifyProp
begin

text \<open>
  Model of \<open>ParseSlice\<close> and \<open>ParseSliceNb\<close> of \<open>solver/parser.go\<close>: a CNF given as a slice of
  clauses of signed integers becomes a simplified problem. A zero literal panics; an empty
  clause makes the problem Unsat at once. The literals are cut to 32 bits when they are encoded
  (\<open>litOf\<close>), so the theorems are about literals up to \<open>2 ^ 30\<close>.
\<close>

section \<open>The parser\<close>

definition emptyProblem :: "int \<Rightarrow> problem" where
  "emptyProblem n = \<lparr>NbVars = n, Clauses = [], pStatus = Indet, Units = [], pModel = [],
     minLits = None, minWeights = None\<rparr>"

text \<open>The inner loop: encode the literals and raise the number of variables.\<close>

fun encodeLits :: "int list \<Rightarrow> int \<Rightarrow> (lit list \<times> int) option" where
  "encodeLits [] nbVars = Some ([], nbVars)"
| "encodeLits (val # vals) nbVars =
     (if val = 0 then None
      else do {
        let l = litOf val;
        let v = Lit_Var l;
        (ls, nbVars) \<leftarrow> encodeLits vals (if v \<ge> nbVars then v + 1 else nbVars);
        Some (l # ls, nbVars) })"

text \<open>The loop over the lines; the flag says that the function returned early.\<close>

fun parseLines :: "problem \<Rightarrow> int list list \<Rightarrow> (problem \<times> bool) option" where
  "parseLines pb [] = Some (pb, False)"
| "parseLines pb (line # cnf) = (case line of
       [] \<Rightarrow> Some (pb\<lparr>pStatus := Unsat\<rparr>, True)
     | [val] \<Rightarrow>
         if val = 0 then None
         else
           let l = litOf val; v = Lit_Var l in
           parseLines (pb\<lparr>NbVars := (if v \<ge> NbVars pb then v + 1 else NbVars pb),
                          Units := Units pb @ [l]\<rparr>) cnf
     | _ \<Rightarrow> do {
         (ls, nbVars) \<leftarrow> encodeLits line (NbVars pb);
         parseLines (pb\<lparr>NbVars := nbVars, Clauses := Clauses pb @ [NewClause ls]\<rparr>) cnf })"

text \<open>The loop over the units; the flag says that two units contradict each other.\<close>

fun bindUnits :: "declevel list \<Rightarrow> lit list \<Rightarrow> (declevel list \<times> bool) option" where
  "bindUnits ms [] = Some (ms, False)"
| "bindUnits ms (u # us) = do {
     m \<leftarrow> geti ms (Lit_Var u);
     if m = 0 then do {
       ms \<leftarrow> puti ms (Lit_Var u) (if IsPositive u then 1 else - 1);
       bindUnits ms us }
     else if (m > 0) \<noteq> IsPositive u then Some (ms, True)
     else bindUnits ms us }"

definition parseSlice :: "problem \<Rightarrow> int list list \<Rightarrow> problem option" where
  "parseSlice pb cnf = do {
     (pb, ret) \<leftarrow> parseLines pb cnf;
     if ret then Some pb
     else if NbVars pb < 0 then None
     else do {
       (ms, confl) \<leftarrow> bindUnits (replicate (nat (NbVars pb)) 0) (Units pb);
       let pb = pb\<lparr>pModel := ms\<rparr>;
       if confl then Some (pb\<lparr>pStatus := Unsat\<rparr>) else simplify2 pb } }"

definition ParseSlice :: "int list list \<Rightarrow> problem option" where
  "ParseSlice cnf = parseSlice (emptyProblem 0) cnf"

definition ParseSliceNb :: "int list list \<Rightarrow> int \<Rightarrow> problem option" where
  "ParseSliceNb cnf nbVars = parseSlice (emptyProblem nbVars) cnf"

section \<open>Correctness\<close>

definition cnf_sat :: "asg \<Rightarrow> int list list \<Rightarrow> bool" where
  "cnf_sat a cnf \<longleftrightarrow> (\<forall>line \<in> set cnf. \<exists>l \<in> set line. ilit_true a l)"

text \<open>Literals that the 32-bit encoding holds.\<close>

definition small_lits :: "int list \<Rightarrow> bool" where
  "small_lits vals \<longleftrightarrow> (\<forall>v \<in> set vals. v \<noteq> 0 \<and> \<bar>v\<bar> \<le> 2 ^ 30)"

lemma small_lits_Cons [simp]: "small_lits (v # vals) \<longleftrightarrow> v \<noteq> 0 \<and> \<bar>v\<bar> \<le> 2 ^ 30 \<and> small_lits vals"
  by (simp add: small_lits_def)

lemma encodeLits_spec:
  "small_lits vals \<Longrightarrow> 0 \<le> n \<Longrightarrow> wp (encodeLits vals n) (\<lambda>(ls, n'). ls = map IntToLit vals \<and> n \<le> n'
     \<and> lits_ok n' ls)"
proof (induction vals arbitrary: n)
  case (Cons v vals)
  define n1 where "n1 = (if Lit_Var (IntToLit v) \<ge> n then Lit_Var (IntToLit v) + 1 else n)"
  have "wp (encodeLits vals n1) (\<lambda>(ls, n'). ls = map IntToLit vals \<and> n1 \<le> n' \<and> lits_ok n' ls)"
    using Cons by (intro Cons.IH) (auto simp: n1_def)
  then show ?case
    using Cons.prems litOf_exact [of v] unfolding encodeLits.simps Let_def n1_def [symmetric]
    by (auto simp: lit_ok_def IntToLit_nonneg n1_def elim!: wp_mono split: if_splits)
qed simp

lemma lit_ok_mono: "lit_ok n l \<Longrightarrow> n \<le> n' \<Longrightarrow> lit_ok n' l"
  by (simp add: lit_ok_def)

text \<open>The state between lines: everything fits the number of variables.\<close>

definition lines_inv :: "problem \<Rightarrow> bool" where
  "lines_inv pb \<longleftrightarrow> 0 \<le> NbVars pb \<and> pStatus pb = Indet \<and> lits_ok (NbVars pb) (Units pb)
     \<and> (\<forall>c \<in> set (Clauses pb). prop_clause c \<and> lits_ok (NbVars pb) (lits c))"

lemma lines_inv_unit:
  assumes "lines_inv pb" and "val \<noteq> 0"
  shows "lines_inv (pb\<lparr>NbVars := (if Lit_Var (IntToLit val) \<ge> NbVars pb then Lit_Var (IntToLit val) + 1 else NbVars pb),
                 Units := Units pb @ [IntToLit val]\<rparr>)"
proof -
  define n where "n = (if Lit_Var (IntToLit val) \<ge> NbVars pb then Lit_Var (IntToLit val) + 1 else NbVars pb)"
  have "NbVars pb \<le> n" "0 \<le> n" "lit_ok n (IntToLit val)"
    using assms by (auto simp: n_def lines_inv_def lit_ok_def IntToLit_nonneg)
  moreover have "lits_ok n (Units pb)" "\<forall>c \<in> set (Clauses pb). lits_ok n (lits c)"
    using assms(1) \<open>NbVars pb \<le> n\<close> lit_ok_mono unfolding lines_inv_def by blast+
  ultimately show ?thesis
    unfolding n_def [symmetric] using assms by (simp add: lines_inv_def)
qed

lemma lines_inv_clause:
  assumes "lines_inv pb" and "NbVars pb \<le> n" and "lits_ok n ls"
  shows "lines_inv (pb\<lparr>NbVars := n, Clauses := Clauses pb @ [NewClause ls]\<rparr>)"
proof -
  have "lits_ok n (Units pb)" "\<forall>c \<in> set (Clauses pb). lits_ok n (lits c)"
    using assms(1,2) lit_ok_mono unfolding lines_inv_def by blast+
  then show ?thesis
    using assms by (auto simp: lines_inv_def) (simp add: NewClause_def)
qed

lemma parseLines_spec:
  "lines_inv pb \<Longrightarrow> \<forall>line \<in> set cnf. small_lits line \<Longrightarrow>
   wp (parseLines pb cnf) (\<lambda>(pb', ret).
     if ret then pStatus pb' = Unsat \<and> (\<forall>a. \<not> cnf_sat a cnf)
     else lines_inv pb' \<and> (\<forall>a. pb_models a pb' \<longleftrightarrow> pb_models a pb \<and> cnf_sat a cnf))"
proof (induction cnf arbitrary: pb)
  case Nil
  then show ?case by (simp add: cnf_sat_def)
next
  case (Cons line cnf)
  have cs: "cnf_sat a (line # cnf) \<longleftrightarrow> (\<exists>l \<in> set line. ilit_true a l) \<and> cnf_sat a cnf" for a
    by (simp add: cnf_sat_def)
  consider "line = []" | val where "line = [val]" | v w vals where "line = v # w # vals"
    by (metis list.exhaust)
  then show ?case
  proof cases
    case 1
    then show ?thesis by (simp add: cnf_sat_def)
  next
    case (2 val)
    have "val \<noteq> 0" "litOf val = IntToLit val" using Cons.prems 2 by (simp_all add: litOf_exact)
    define pb1 where "pb1 = pb\<lparr>NbVars := (if Lit_Var (IntToLit val) \<ge> NbVars pb
      then Lit_Var (IntToLit val) + 1 else NbVars pb), Units := Units pb @ [IntToLit val]\<rparr>"
    have "pb_models a pb1 \<and> cnf_sat a cnf \<longleftrightarrow> pb_models a pb \<and> cnf_sat a (line # cnf)" for a
      using cs [of a, unfolded 2] by (auto simp: 2 pb1_def pb_models_def)
    moreover have "cnf_sat a (line # cnf) \<Longrightarrow> cnf_sat a cnf" for a by (simp add: cs)
    ultimately have "wp (parseLines pb1 cnf)
      (\<lambda>(pb', ret). if ret then pStatus pb' = Unsat \<and> (\<forall>a. \<not> cnf_sat a (line # cnf))
        else lines_inv pb' \<and> (\<forall>a. pb_models a pb' \<longleftrightarrow> pb_models a pb \<and> cnf_sat a (line # cnf)))"
      using Cons.IH [OF lines_inv_unit [OF Cons.prems(1) \<open>val \<noteq> 0\<close>], folded pb1_def] Cons.prems(2)
      by (auto elim!: wp_mono split: if_splits)
    then show ?thesis
      using \<open>val \<noteq> 0\<close> \<open>litOf val = IntToLit val\<close> by (simp add: 2 Let_def pb1_def)
  next
    case (3 v w vals)
    obtain n' where e: "encodeLits line (NbVars pb) = Some (map IntToLit line, n')" "NbVars pb \<le> n'"
      "lits_ok n' (map IntToLit line)"
      using encodeLits_spec [of line "NbVars pb"] Cons.prems by (auto simp: wp_iff lines_inv_def)
    note ih = Cons.IH [OF lines_inv_clause [OF Cons.prems(1) e(2,3)]]
    have "sat_clause a (NewClause (map IntToLit line)) \<longleftrightarrow> (\<exists>l \<in> set line. ilit_true a l)" for a
      by (simp add: prop_clause_sat) (simp add: NewClause_def)
    then have "pb_models a (pb\<lparr>NbVars := n', Clauses := Clauses pb @ [NewClause (map IntToLit line)]\<rparr>)
        \<and> cnf_sat a cnf \<longleftrightarrow> pb_models a pb \<and> cnf_sat a (line # cnf)" for a
      by (auto simp: cs pb_models_def)
    moreover have "cnf_sat a (line # cnf) \<Longrightarrow> cnf_sat a cnf" for a by (simp add: cs)
    ultimately have "wp (parseLines (pb\<lparr>NbVars := n', Clauses := Clauses pb @ [NewClause (map IntToLit line)]\<rparr>) cnf)
      (\<lambda>(pb', ret). if ret then pStatus pb' = Unsat \<and> (\<forall>a. \<not> cnf_sat a (line # cnf))
        else lines_inv pb' \<and> (\<forall>a. pb_models a pb' \<longleftrightarrow> pb_models a pb \<and> cnf_sat a (line # cnf)))"
      using ih Cons.prems(2) by (auto elim!: wp_mono split: if_splits)
    then show ?thesis
      using e(1) by (simp add: 3)
  qed
qed

text \<open>Binding the units gives a partial model that matches them, or a contradiction.\<close>

lemma bindUnits_spec:
  assumes "units_model ms us0" and "lits_ok (int (length ms)) us"
  shows "wp (bindUnits ms us) (\<lambda>(ms', confl). length ms' = length ms \<and>
     (if confl then \<forall>a. agree a ms \<longrightarrow> (\<exists>u \<in> set us. \<not> lit_true a u)
      else units_model ms' (us0 @ us)))"
  using assms
proof (induction us arbitrary: ms us0)
  case (Cons u us)
  let ?i = "nat (Lit_Var u)" and ?b = "if IsPositive u then 1 else - 1 :: int"
  have u: "lit_ok (int (length ms)) u" using Cons.prems(2) by simp
  note ix = lit_ok_index [OF u]
  show ?case
  proof (cases "ms ! ?i = 0")
    case True
    have um: "units_model (ms[?i := ?b]) (us0 @ [u])"
      by (rule units_model_add [OF Cons.prems(1) u]) (use True in simp)
    have "agree a ms \<and> lit_true a u \<longleftrightarrow> agree a (ms[?i := ?b])" for a
      by (rule sym, rule agree_add [OF Cons.prems(1) u]) (use True in simp)
    then show ?thesis
      using Cons.IH [OF um] Cons.prems(2) ix True
      by (auto simp: puti_def elim!: wp_mono split: if_splits)
  next
    case False
    then obtain u' where u': "u' \<in> set us0" "Lit_Var u' = Lit_Var u"
      using Cons.prems(1) ix by (auto simp: units_model_def)
    then have v: "ms ! ?i = (if IsPositive u' then 1 else - 1)"
      using Cons.prems(1) by (auto simp: units_model_def)
    show ?thesis
    proof (cases "(ms ! ?i > 0) \<noteq> IsPositive u")
      case True
      then have "agree a ms \<Longrightarrow> \<not> lit_true a u" for a
        using agree_lit [of a ms u] u v by (auto split: if_splits)
      then show ?thesis using True False ix by auto
    next
      case same: False
      have "ms[?i := ?b] = ms" using same v by (auto simp: list_update_same_conv ix split: if_splits)
      then have "units_model ms (us0 @ [u])"
        using units_model_add [OF Cons.prems(1) u] same v by (auto split: if_splits)
      from Cons.IH [OF this] show ?thesis
        using Cons.prems(2) ix same False by (auto elim!: wp_mono split: if_splits)
    qed
  qed
qed simp

text \<open>The simplifier keeps the number of variables.\<close>

definition parsed_vars :: "int \<Rightarrow> int list list \<Rightarrow> problem \<Rightarrow> bool" where
  "parsed_vars n cnf pb \<longleftrightarrow> (\<forall>pb1 ret. parseLines (emptyProblem n) cnf = Some (pb1, ret) \<longrightarrow> NbVars pb = NbVars pb1)"

lemma parseSlice_vars:
  assumes "0 \<le> n" and "\<forall>line \<in> set cnf. small_lits line"
  shows "wp (parseSlice (emptyProblem n) cnf) (\<lambda>pb.
     if pStatus pb = Unsat then \<forall>a. \<not> cnf_sat a cnf
     else pb_inv pb \<and> (\<forall>a. pb_models a pb = cnf_sat a cnf) \<and> pStatus pb = (if Clauses pb = [] then Sat else Indet)
        \<and> (\<forall>c \<in> set (Clauses pb). clean (pModel pb) c) \<and> parsed_vars n cnf pb)"
proof -
  have "lines_inv (emptyProblem n)" using assms(1) by (simp add: lines_inv_def emptyProblem_def)
  moreover have e: "pb_models a (emptyProblem n)" for a by (simp add: pb_models_def emptyProblem_def)
  ultimately obtain pb1 ret where p: "parseLines (emptyProblem n) cnf = Some (pb1, ret)"
    and post: "if ret then pStatus pb1 = Unsat \<and> (\<forall>a. \<not> cnf_sat a cnf)
      else lines_inv pb1 \<and> (\<forall>a. pb_models a pb1 \<longleftrightarrow> cnf_sat a cnf)"
    using parseLines_spec [OF _ assms(2), of "emptyProblem n"] by (auto simp: wp_iff)
  show ?thesis
  proof (cases ret)
    case True
    then show ?thesis using p post by (simp add: parseSlice_def)
  next
    case False
    define ms0 where "ms0 = replicate (nat (NbVars pb1)) (0 :: int)"
    have um: "units_model ms0 []" and ok: "lits_ok (int (length ms0)) (Units pb1)"
      and inv: "lines_inv pb1" and sat: "pb_models a pb1 \<longleftrightarrow> cnf_sat a cnf" for a
      using post False by (auto simp: ms0_def units_model_def lines_inv_def)
    obtain ms confl where b: "bindUnits ms0 (Units pb1) = Some (ms, confl)" "length ms = length ms0"
      and bp: "if confl then \<forall>a. agree a ms0 \<longrightarrow> (\<exists>u \<in> set (Units pb1). \<not> lit_true a u)
        else units_model ms (Units pb1)"
      using bindUnits_spec [OF um ok, unfolded append_Nil] by (auto simp: wp_iff)
    define pb2 where "pb2 = pb1\<lparr>pModel := ms\<rparr>"
    have s2: "pb_models a pb2 = pb_models a pb1" for a by (simp add: pb_models_def pb2_def)
    show ?thesis
    proof (cases confl)
      case True
      have "agree a ms0" for a by (simp add: agree_def ms0_def)
      then have "\<not> cnf_sat a cnf" for a
        using True bp sat [of a] by (auto simp: pb_models_def)
      then show ?thesis using True False inv p b by (simp add: parseSlice_def lines_inv_def ms0_def)
    next
      case ok: False
      have "pb_inv pb2" "pStatus pb2 = Indet" "\<forall>c \<in> set (Clauses pb2). prop_clause c"
        using ok bp inv b by (auto simp: pb2_def pb_inv_def lines_inv_def ms0_def)
      note simplified = simplify2_spec [OF this]
      have nb: "parsed_vars n cnf pb" if "NbVars pb = NbVars pb2" for pb
        using that p by (simp add: parsed_vars_def pb2_def)
      from simplified
      have "wp (simplify2 pb2) (\<lambda>pb. if pStatus pb = Unsat then \<forall>a. \<not> cnf_sat a cnf
         else pb_inv pb \<and> (\<forall>a. pb_models a pb = cnf_sat a cnf) \<and> pStatus pb = (if Clauses pb = [] then Sat else Indet)
          \<and> (\<forall>c \<in> set (Clauses pb). clean (pModel pb) c) \<and> parsed_vars n cnf pb)"
        by (rule wp_mono) (use s2 sat nb in \<open>simp add: simplify_post_def split: if_splits\<close>)
      then show ?thesis
        using False ok inv p b by (simp add: parseSlice_def lines_inv_def ms0_def [symmetric] pb2_def [symmetric])
    qed
  qed
qed

lemma parseSlice_spec:
  assumes "0 \<le> n" and "\<forall>line \<in> set cnf. small_lits line"
  shows "wp (parseSlice (emptyProblem n) cnf) (\<lambda>pb.
     if pStatus pb = Unsat then \<forall>a. \<not> cnf_sat a cnf
     else pb_inv pb \<and> (\<forall>a. pb_models a pb = cnf_sat a cnf) \<and> pStatus pb = (if Clauses pb = [] then Sat else Indet)
        \<and> (\<forall>c \<in> set (Clauses pb). clean (pModel pb) c))"
  by (rule wp_mono [OF parseSlice_vars [OF assms]]) (simp split: if_splits)

text \<open>The number of variables is bounded by the literals.\<close>

lemma IntToLit_bound: "\<bar>v\<bar> \<le> N \<Longrightarrow> v \<noteq> 0 \<Longrightarrow> Lit_Var (IntToLit v) + 1 \<le> N"
  by (auto simp: lit_simps IntToLit_def)

lemma encodeLits_bound:
  "n \<le> N \<Longrightarrow> N \<le> 2 ^ 30 \<Longrightarrow> \<forall>v \<in> set vals. \<bar>v\<bar> \<le> N \<Longrightarrow> wlp (encodeLits vals n) (\<lambda>(ls, n'). n' \<le> N)"
proof (induction vals arbitrary: n)
  case (Cons v vals)
  show ?case
  proof (cases "v = 0")
    case False
    let ?n = "if Lit_Var (IntToLit v) \<ge> n then Lit_Var (IntToLit v) + 1 else n"
    have e: "litOf v = IntToLit v" using Cons.prems by (intro litOf_exact) simp
    have "?n \<le> N" using Cons.prems IntToLit_bound [OF _ False] by simp
    then have "wlp (encodeLits vals ?n) (\<lambda>(ls, n'). n' \<le> N)" using Cons.prems by (intro Cons.IH) simp_all
    then have "wlp (encodeLits vals ?n) (\<lambda>x. wlp (case x of (ls, nbVars) \<Rightarrow> Some (IntToLit v # ls, nbVars))
      (\<lambda>(ls, n'). n' \<le> N))" by (rule wlp_mono) auto
    then show ?thesis unfolding encodeLits.simps Let_def wlp_bind e using False by simp
  qed simp
qed simp

lemma parseLines_bound:
  "NbVars pb \<le> N \<Longrightarrow> N \<le> 2 ^ 30 \<Longrightarrow> \<forall>line \<in> set cnf. \<forall>v \<in> set line. \<bar>v\<bar> \<le> N \<Longrightarrow>
   wlp (parseLines pb cnf) (\<lambda>(pb', ret). NbVars pb' \<le> N)"
proof (induction pb cnf rule: parseLines.induct)
  case (2 pb line cnf)
  consider "line = []" | val where "line = [val]" | v w vals where "line = v # w # vals"
    by (metis list.exhaust)
  then show ?case
  proof cases
    case (2 val)
    show ?thesis
    proof (cases "val = 0")
      case False
      have "(if Lit_Var (IntToLit val) \<ge> NbVars pb then Lit_Var (IntToLit val) + 1 else NbVars pb) \<le> N"
        using "2.prems" 2 IntToLit_bound [OF _ False] by simp
      moreover have e: "litOf val = IntToLit val" using "2.prems" 2 by (intro litOf_exact) simp
      ultimately show ?thesis
        using "2.IH"(1) [OF 2 refl False refl refl, unfolded e] "2.prems" 2 False by (simp add: e Let_def)
    qed (use 2 in simp)
  next
    case (3 v w vals)
    have "wlp (encodeLits line (NbVars pb)) (\<lambda>(ls, n'). n' \<le> N)"
      using "2.prems" by (intro encodeLits_bound) auto
    then show ?thesis
      using "2.prems" "2.IH"(2) [OF 3] 3 by (auto simp: wlp_iff bind_eq_Some_conv)
  qed (use "2.prems" in simp)
qed simp

text \<open>
  C10. Parsing a CNF without zero literals, over variables up to \<open>2 ^ 30\<close>, never panics: when the
  status is Unsat the CNF has no model; otherwise the problem built has exactly the models of the CNF, its
  status is Sat exactly when no clause is left, and every clause left has two literals or more,
  over distinct variables that no unit binds.
\<close>

theorem ParseSlice_correct:
  assumes "\<forall>line \<in> set cnf. \<forall>v \<in> set line. v \<noteq> 0 \<and> \<bar>v\<bar> \<le> 2 ^ 30"
  shows "wp (ParseSlice cnf) (\<lambda>pb.
     if pStatus pb = Unsat then \<forall>a. \<not> cnf_sat a cnf
     else (\<forall>a. pb_sat a pb = cnf_sat a cnf) \<and> (pStatus pb = Sat \<longleftrightarrow> Clauses pb = [])
       \<and> (\<forall>c \<in> set (Clauses pb). 2 \<le> Len c \<and> distinct (map Lit_Var (lits c))
            \<and> (\<forall>l \<in> set (lits c). Lit_Var l \<notin> Lit_Var ` set (Units pb))))"
proof -
  have "wp (ParseSlice cnf) (\<lambda>pb. if pStatus pb = Unsat then \<forall>a. \<not> cnf_sat a cnf
     else pb_inv pb \<and> (\<forall>a. pb_models a pb = cnf_sat a cnf) \<and> pStatus pb = (if Clauses pb = [] then Sat else Indet)
        \<and> (\<forall>c \<in> set (Clauses pb). clean (pModel pb) c))"
    unfolding ParseSlice_def by (rule parseSlice_spec) (use assms in \<open>auto simp: small_lits_def\<close>)
  then show ?thesis
  proof (rule wp_mono)
    fix pb
    assume p: "if pStatus pb = Unsat then \<forall>a. \<not> cnf_sat a cnf
     else pb_inv pb \<and> (\<forall>a. pb_models a pb = cnf_sat a cnf) \<and> pStatus pb = (if Clauses pb = [] then Sat else Indet)
        \<and> (\<forall>c \<in> set (Clauses pb). clean (pModel pb) c)"
    have "Lit_Var l \<noteq> Lit_Var u" if "pb_inv pb" "pModel pb ! nat (Lit_Var l) = 0" "u \<in> set (Units pb)" for l u
      using that by (auto simp: pb_inv_def units_model_def dest!: bspec [of _ _ u] split: if_splits)
    then show "if pStatus pb = Unsat then \<forall>a. \<not> cnf_sat a cnf
     else (\<forall>a. pb_sat a pb = cnf_sat a cnf) \<and> (pStatus pb = Sat \<longleftrightarrow> Clauses pb = [])
       \<and> (\<forall>c \<in> set (Clauses pb). 2 \<le> Len c \<and> distinct (map Lit_Var (lits c))
            \<and> (\<forall>l \<in> set (lits c). Lit_Var l \<notin> Lit_Var ` set (Units pb)))"
      using p by (auto simp: clean_def Len_def pb_sat_def split: if_splits)
  qed
qed

theorem ParseSlice_correct_witness:
  "wp (ParseSlice [[1, 2, 2], [- 1], [3, - 2, 1]]) (\<lambda>pb.
     if pStatus pb = Unsat then \<forall>a. \<not> cnf_sat a [[1, 2, 2], [- 1], [3, - 2, 1]]
     else (\<forall>a. pb_sat a pb = cnf_sat a [[1, 2, 2], [- 1], [3, - 2, 1]])
       \<and> (pStatus pb = Sat \<longleftrightarrow> Clauses pb = [])
       \<and> (\<forall>c \<in> set (Clauses pb). 2 \<le> Len c \<and> distinct (map Lit_Var (lits c))
            \<and> (\<forall>l \<in> set (lits c). Lit_Var l \<notin> Lit_Var ` set (Units pb))))"
  by (rule ParseSlice_correct) simp

end
