(* ===== verification/Formula.thy ===== *)
theory Formula
  imports Prelude
begin

text \<open>
  Model of the formulas of \<open>bf/bf.go\<close>: the constructors, evaluation in a model, and the negation
  normal form \<open>nnf\<close>. The interface \<open>Formula\<close> with its implementations \<open>trueConst\<close>, \<open>falseConst\<close>,
  \<open>variable\<close>, \<open>lit\<close>, \<open>not\<close>, \<open>and\<close>, \<open>or\<close> is a datatype. \<open>Eval\<close> is the code's evaluation, which
  panics on an unbound variable; \<open>holds\<close> is the meaning of a formula under a total assignment.
\<close>

section \<open>Formulas\<close>

record variable =
  vname :: string
  vdummy :: bool

definition pbVar :: "string \<Rightarrow> variable" where
  "pbVar s = \<lparr>vname = s, vdummy = False\<rparr>"

definition dummyVar :: "string \<Rightarrow> variable" where
  "dummyVar s = \<lparr>vname = s, vdummy = True\<rparr>"

datatype formula =
    TrueConst
  | FalseConst
  | FVar variable
  | FLit variable bool
  | FNot formula
  | FAnd "formula list"
  | FOr "formula list"

definition Var :: "string \<Rightarrow> formula" where
  "Var s = FVar (pbVar s)"

definition Implies :: "formula \<Rightarrow> formula \<Rightarrow> formula" where
  "Implies f1 f2 = FOr [FNot f1, f2]"

definition bf_Eq :: "formula \<Rightarrow> formula \<Rightarrow> formula" where
  "bf_Eq f1 f2 = FAnd [FOr [FNot f1, f2], FOr [f1, FNot f2]]"

definition Xor :: "formula \<Rightarrow> formula \<Rightarrow> formula" where
  "Xor f1 f2 = FAnd [FOr [FNot f1, FNot f2], FOr [f1, f2]]"

section \<open>Evaluation\<close>

type_synonym fmodel = "string \<Rightarrow> bool option"

definition Eval_variable :: "fmodel \<Rightarrow> variable \<Rightarrow> bool option" where
  "Eval_variable m v = m (vname v)"

fun Eval :: "fmodel \<Rightarrow> formula \<Rightarrow> bool option"
  and evalAnd :: "fmodel \<Rightarrow> nat \<Rightarrow> bool \<Rightarrow> formula list \<Rightarrow> bool option"
  and evalOr :: "fmodel \<Rightarrow> nat \<Rightarrow> bool \<Rightarrow> formula list \<Rightarrow> bool option" where
  "Eval m TrueConst = Some True"
| "Eval m FalseConst = Some False"
| "Eval m (FVar v) = Eval_variable m v"
| "Eval m (FLit v signed) = do { b \<leftarrow> Eval_variable m v; Some (if signed then \<not> b else b) }"
| "Eval m (FNot f) = do { b \<leftarrow> Eval m f; Some (\<not> b) }"
| "Eval m (FAnd fs) = evalAnd m 0 True fs"
| "Eval m (FOr fs) = evalOr m 0 False fs"
| "evalAnd m i res [] = Some res"
| "evalAnd m i res (s # ss) =
     do { b \<leftarrow> Eval m s; evalAnd m (Suc i) (if i = 0 then b else res \<and> b) ss }"
| "evalOr m i res [] = Some res"
| "evalOr m i res (s # ss) =
     do { b \<leftarrow> Eval m s; evalOr m (Suc i) (if i = 0 then b else res \<or> b) ss }"

section \<open>Negation normal form\<close>

text \<open>
  The loop of \<open>and.nnf\<close> over the normal forms of the subformulas: \<open>None\<close> is its early return of
  \<open>False\<close>. \<open>orLoop\<close> is the loop of \<open>or.nnf\<close>, with an early return of \<open>True\<close>.
\<close>

fun andLoop :: "formula list \<Rightarrow> formula list \<Rightarrow> formula list option" where
  "andLoop res [] = Some res"
| "andLoop res (f # fs) = (case f of
       FAnd gs \<Rightarrow> andLoop (res @ gs) fs
     | TrueConst \<Rightarrow> andLoop res fs
     | FalseConst \<Rightarrow> None
     | _ \<Rightarrow> andLoop (res @ [f]) fs)"

definition andSimp :: "formula list \<Rightarrow> formula" where
  "andSimp fs = (case andLoop [] fs of
     None \<Rightarrow> FalseConst
   | Some res \<Rightarrow> (if length res = 1 then res ! 0
                  else if length res = 0 then FalseConst else FAnd res))"

fun orLoop :: "formula list \<Rightarrow> formula list \<Rightarrow> formula list option" where
  "orLoop res [] = Some res"
| "orLoop res (f # fs) = (case f of
       FOr gs \<Rightarrow> orLoop (res @ gs) fs
     | FalseConst \<Rightarrow> orLoop res fs
     | TrueConst \<Rightarrow> None
     | _ \<Rightarrow> orLoop (res @ [f]) fs)"

definition orSimp :: "formula list \<Rightarrow> formula" where
  "orSimp fs = (case orLoop [] fs of
     None \<Rightarrow> TrueConst
   | Some res \<Rightarrow> (if length res = 1 then res ! 0
                  else if length res = 0 then TrueConst else FOr res))"

text \<open>
  The normal form. A negated conjunction is normalised twice, as the code does: first its negated
  members, then the disjunction built from them.
\<close>

function nnf :: "formula \<Rightarrow> formula" where
  "nnf TrueConst = TrueConst"
| "nnf FalseConst = FalseConst"
| "nnf (FVar v) = FLit v False"
| "nnf (FLit v signed) = FLit v signed"
| "nnf (FAnd fs) = andSimp (map nnf fs)"
| "nnf (FOr fs) = orSimp (map nnf fs)"
| "nnf (FNot TrueConst) = FalseConst"
| "nnf (FNot FalseConst) = TrueConst"
| "nnf (FNot (FVar v)) = FLit v True"
| "nnf (FNot (FLit v signed)) = FLit v (\<not> signed)"
| "nnf (FNot (FNot f)) = nnf f"
| "nnf (FNot (FAnd fs)) = nnf (FOr (map (\<lambda>f. nnf (FNot f)) fs))"
| "nnf (FNot (FOr fs)) = nnf (FAnd (map (\<lambda>f. nnf (FNot f)) fs))"
  by pat_completeness auto

text \<open>The measure: \<open>pweight\<close> of a formula, \<open>nweight\<close> of its negation.\<close>

fun pweight :: "formula \<Rightarrow> nat" and nweight :: "formula \<Rightarrow> nat" where
  "pweight TrueConst = 1" | "pweight FalseConst = 1" | "pweight (FVar v) = 1"
| "pweight (FLit v b) = 1" | "pweight (FNot f) = nweight f"
| "pweight (FAnd fs) = Suc (\<Sum>f\<leftarrow>fs. Suc (pweight f))"
| "pweight (FOr fs) = Suc (\<Sum>f\<leftarrow>fs. Suc (pweight f))"
| "nweight TrueConst = 1" | "nweight FalseConst = 1" | "nweight (FVar v) = 1"
| "nweight (FLit v b) = 1" | "nweight (FNot f) = Suc (pweight f)"
| "nweight (FAnd fs) = Suc (Suc (\<Sum>f\<leftarrow>fs. Suc (nweight f)))"
| "nweight (FOr fs) = Suc (Suc (\<Sum>f\<leftarrow>fs. Suc (nweight f)))"

lemma pweight_pos [simp]: "0 < pweight f" "0 < nweight f"
  by (induction f) auto

text \<open>What the loops compute, in closed form.\<close>

definition andPart :: "formula \<Rightarrow> formula list" where
  "andPart f = (case f of FAnd gs \<Rightarrow> gs | TrueConst \<Rightarrow> [] | _ \<Rightarrow> [f])"

definition orPart :: "formula \<Rightarrow> formula list" where
  "orPart f = (case f of FOr gs \<Rightarrow> gs | FalseConst \<Rightarrow> [] | _ \<Rightarrow> [f])"

lemma parts [simp]:
  "andPart TrueConst = []" "andPart FalseConst = [FalseConst]" "andPart (FVar v) = [FVar v]"
  "andPart (FLit v b) = [FLit v b]" "andPart (FNot f) = [FNot f]" "andPart (FAnd fs) = fs"
  "andPart (FOr fs) = [FOr fs]"
  "orPart TrueConst = [TrueConst]" "orPart FalseConst = []" "orPart (FVar v) = [FVar v]"
  "orPart (FLit v b) = [FLit v b]" "orPart (FNot f) = [FNot f]" "orPart (FAnd fs) = [FAnd fs]"
  "orPart (FOr fs) = fs"
  by (simp_all add: andPart_def orPart_def)

lemma andLoop_eq:
  "andLoop res fs = (if FalseConst \<in> set fs then None else Some (res @ concat (map andPart fs)))"
proof (induction fs arbitrary: res)
  case (Cons f fs)
  then show ?case by (cases f) simp_all
qed simp

lemma orLoop_eq:
  "orLoop res fs = (if TrueConst \<in> set fs then None else Some (res @ concat (map orPart fs)))"
proof (induction fs arbitrary: res)
  case (Cons f fs)
  then show ?case by (cases f) simp_all
qed simp

lemma part_weight:
  "(\<Sum>g\<leftarrow>andPart f. Suc (pweight g)) \<le> Suc (pweight f)" "(\<Sum>g\<leftarrow>orPart f. Suc (pweight g)) \<le> Suc (pweight f)"
  by (cases f; simp)+

lemma concat_weight:
  "(\<And>f. (\<Sum>g\<leftarrow>part f. Suc (pweight g)) \<le> Suc (pweight f)) \<Longrightarrow>
   (\<Sum>g\<leftarrow>concat (map part fs). Suc (pweight g)) \<le> (\<Sum>f\<leftarrow>fs. Suc (pweight f))"
proof (induction fs)
  case (Cons f fs)
  have "(\<Sum>g\<leftarrow>part f. Suc (pweight g)) + (\<Sum>g\<leftarrow>concat (map part fs). Suc (pweight g))
      \<le> Suc (pweight f) + (\<Sum>f\<leftarrow>fs. Suc (pweight f))"
    by (rule add_mono [OF Cons.prems Cons.IH [OF Cons.prems]])
  then show ?case by simp
qed simp

lemma andSimp_weight: "pweight (andSimp fs) \<le> Suc (\<Sum>f\<leftarrow>fs. Suc (pweight f))"
proof -
  define r where "r = concat (map andPart fs)"
  have "(\<Sum>g\<leftarrow>r. Suc (pweight g)) \<le> (\<Sum>f\<leftarrow>fs. Suc (pweight f))"
    unfolding r_def by (rule concat_weight [OF part_weight(1)])
  then show ?thesis by (cases r) (auto simp: andSimp_def andLoop_eq r_def [symmetric])
qed

lemma orSimp_weight: "pweight (orSimp fs) \<le> Suc (\<Sum>f\<leftarrow>fs. Suc (pweight f))"
proof -
  define r where "r = concat (map orPart fs)"
  have "(\<Sum>g\<leftarrow>r. Suc (pweight g)) \<le> (\<Sum>f\<leftarrow>fs. Suc (pweight f))"
    unfolding r_def by (rule concat_weight [OF part_weight(2)])
  then show ?thesis by (cases r) (auto simp: orSimp_def orLoop_eq r_def [symmetric])
qed

lemma sum_list_Suc_mono:
  "(\<And>f. f \<in> set fs \<Longrightarrow> g f \<le> h f) \<Longrightarrow> (\<Sum>f\<leftarrow>fs. Suc (g f)) \<le> (\<Sum>f\<leftarrow>fs. Suc (h f))"
  by (rule sum_list_mono) simp

lemma nnf_weight: "nnf_dom f \<Longrightarrow> pweight (nnf f) \<le> pweight f"
proof (induction f rule: nnf.pinduct)
  case (5 fs)
  have "(\<Sum>f\<leftarrow>fs. Suc (pweight (nnf f))) \<le> (\<Sum>f\<leftarrow>fs. Suc (pweight f))"
    using 5 by (intro sum_list_Suc_mono) simp
  then show ?case
    using andSimp_weight [of "map nnf fs"] 5 by (simp add: nnf.psimps comp_def)
next
  case (6 fs)
  have "(\<Sum>f\<leftarrow>fs. Suc (pweight (nnf f))) \<le> (\<Sum>f\<leftarrow>fs. Suc (pweight f))"
    using 6 by (intro sum_list_Suc_mono) simp
  then show ?case
    using orSimp_weight [of "map nnf fs"] 6 by (simp add: nnf.psimps comp_def)
next
  case (12 fs)
  have "(\<Sum>f\<leftarrow>fs. Suc (pweight (nnf (FNot f)))) \<le> (\<Sum>f\<leftarrow>fs. Suc (nweight f))"
    using 12(2) by (intro sum_list_Suc_mono) simp
  then show ?case
    using 12(1,3) by (simp add: nnf.psimps comp_def)
next
  case (13 fs)
  have "(\<Sum>f\<leftarrow>fs. Suc (pweight (nnf (FNot f)))) \<le> (\<Sum>f\<leftarrow>fs. Suc (nweight f))"
    using 13(2) by (intro sum_list_Suc_mono) simp
  then show ?case
    using 13(1,3) by (simp add: nnf.psimps comp_def)
qed (simp_all add: nnf.psimps)

lemma weight_member: "f \<in> set fs \<Longrightarrow> g f < Suc (\<Sum>f\<leftarrow>fs. Suc (g f))"
  by (induction fs) auto

termination nnf
proof (relation "measure pweight")
  fix fs
  assume "\<And>f. f \<in> set fs \<Longrightarrow> nnf_dom (FNot f)"
  then have le: "(\<Sum>f\<leftarrow>fs. Suc (pweight (nnf (FNot f)))) \<le> (\<Sum>f\<leftarrow>fs. Suc (nweight f))"
    using nnf_weight by (intro sum_list_Suc_mono) fastforce
  then show "(FOr (map (\<lambda>f. nnf (FNot f)) fs), FNot (FAnd fs)) \<in> measure pweight"
    "(FAnd (map (\<lambda>f. nnf (FNot f)) fs), FNot (FOr fs)) \<in> measure pweight"
    by (simp_all add: comp_def)
qed (auto simp: weight_member intro: less_SucI)

declare nnf.simps(12,13) [simp del]

section \<open>Meaning\<close>

fun holds :: "(variable \<Rightarrow> bool) \<Rightarrow> formula \<Rightarrow> bool" where
  "holds a TrueConst = True"
| "holds a FalseConst = False"
| "holds a (FVar v) = a v"
| "holds a (FLit v signed) = (a v \<noteq> signed)"
| "holds a (FNot f) = (\<not> holds a f)"
| "holds a (FAnd fs) = (\<forall>f \<in> set fs. holds a f)"
| "holds a (FOr fs) = (\<exists>f \<in> set fs. holds a f)"

fun fvars :: "formula \<Rightarrow> variable set" where
  "fvars TrueConst = {}"
| "fvars FalseConst = {}"
| "fvars (FVar v) = {v}"
| "fvars (FLit v signed) = {v}"
| "fvars (FNot f) = fvars f"
| "fvars (FAnd fs) = (\<Union>f \<in> set fs. fvars f)"
| "fvars (FOr fs) = (\<Union>f \<in> set fs. fvars f)"

text \<open>No constant, and no empty conjunction or disjunction, anywhere in the formula.\<close>

fun const_free :: "formula \<Rightarrow> bool" where
  "const_free TrueConst = False"
| "const_free FalseConst = False"
| "const_free (FVar v) = True"
| "const_free (FLit v signed) = True"
| "const_free (FNot f) = const_free f"
| "const_free (FAnd fs) = (fs \<noteq> [] \<and> (\<forall>f \<in> set fs. const_free f))"
| "const_free (FOr fs) = (fs \<noteq> [] \<and> (\<forall>f \<in> set fs. const_free f))"

text \<open>A literal, or an alternation of conjunctions and disjunctions of at least two members.\<close>

fun nnf_and :: "formula \<Rightarrow> bool" and nnf_or :: "formula \<Rightarrow> bool" where
  "nnf_and (FAnd fs) = (2 \<le> length fs \<and> (\<forall>f \<in> set fs. (\<exists>v s. f = FLit v s) \<or> nnf_or f))"
| "nnf_and _ = False"
| "nnf_or (FOr fs) = (2 \<le> length fs \<and> (\<forall>f \<in> set fs. (\<exists>v s. f = FLit v s) \<or> nnf_and f))"
| "nnf_or _ = False"

definition is_nnf :: "formula \<Rightarrow> bool" where
  "is_nnf f \<longleftrightarrow> f = TrueConst \<or> f = FalseConst \<or> (\<exists>v s. f = FLit v s) \<or> nnf_and f \<or> nnf_or f"

text \<open>The code's evaluation is the meaning, as long as every variable is bound.\<close>

definition bound :: "fmodel \<Rightarrow> variable \<Rightarrow> bool" where
  "bound m v \<longleftrightarrow> m (vname v) \<noteq> None"

definition asg_of :: "fmodel \<Rightarrow> variable \<Rightarrow> bool" where
  "asg_of m v = the (m (vname v))"

lemma evalLoops_holds:
  assumes "\<And>f. f \<in> set fs \<Longrightarrow>
    Eval m f = (if \<forall>v \<in> fvars f. bound m v then Some (holds (asg_of m) f) else None)"
  shows "evalAnd m i res fs = (if \<forall>f \<in> set fs. \<forall>v \<in> fvars f. bound m v
      then Some ((i = 0 \<and> fs \<noteq> [] \<or> res) \<and> holds (asg_of m) (FAnd fs)) else None)"
    and "evalOr m i res fs = (if \<forall>f \<in> set fs. \<forall>v \<in> fvars f. bound m v
      then Some (\<not> (i = 0 \<and> fs \<noteq> []) \<and> res \<or> holds (asg_of m) (FOr fs)) else None)"
  using assms by (induction fs arbitrary: i res) auto

lemma Eval_holds:
  "Eval m f = (if \<forall>v \<in> fvars f. bound m v then Some (holds (asg_of m) f) else None)"
proof (induction f)
  case (FAnd fs)
  then show ?case using evalLoops_holds(1) [of fs m 0 True] by simp
next
  case (FOr fs)
  then show ?case using evalLoops_holds(2) [of fs m 0 False] by simp
next
  case (FNot f)
  then show ?case by simp
qed (simp_all add: Eval_variable_def bound_def asg_of_def, auto)

section \<open>Correctness of the normal form\<close>

text \<open>The members of a simplified conjunction or disjunction.\<close>

lemma parts_nnf:
  "is_nnf f \<Longrightarrow> f \<noteq> FalseConst \<Longrightarrow> g \<in> set (andPart f) \<Longrightarrow> (\<exists>v s. g = FLit v s) \<or> nnf_or g"
  "is_nnf f \<Longrightarrow> f \<noteq> TrueConst \<Longrightarrow> g \<in> set (orPart f) \<Longrightarrow> (\<exists>v s. g = FLit v s) \<or> nnf_and g"
  by (cases f; auto simp: is_nnf_def)+

lemma parts_holds:
  "f \<noteq> FalseConst \<Longrightarrow> (\<forall>g \<in> set (andPart f). holds a g) \<longleftrightarrow> holds a f"
  "f \<noteq> TrueConst \<Longrightarrow> (\<exists>g \<in> set (orPart f). holds a g) \<longleftrightarrow> holds a f"
  "f \<noteq> FalseConst \<Longrightarrow> (\<Union>g \<in> set (andPart f). fvars g) = fvars f"
  "f \<noteq> TrueConst \<Longrightarrow> (\<Union>g \<in> set (orPart f). fvars g) = fvars f"
  by (cases f; simp)+

lemma length_2: "length xs \<noteq> 1 \<Longrightarrow> length xs \<noteq> 0 \<Longrightarrow> 2 \<le> length xs"
  by linarith

lemma andSimp_nnf:
  assumes "\<forall>f \<in> set fs. is_nnf f"
  shows "is_nnf (andSimp fs)"
proof (cases "FalseConst \<in> set fs")
  case False
  define r where "r = concat (map andPart fs)"
  have nn: "\<forall>g \<in> set r. (\<exists>v s. g = FLit v s) \<or> nnf_or g"
  proof
    fix g assume "g \<in> set r"
    then obtain f where "f \<in> set fs" "g \<in> set (andPart f)" unfolding r_def by auto
    then show "(\<exists>v s. g = FLit v s) \<or> nnf_or g"
      using assms False by (intro parts_nnf(1) [of f g]) auto
  qed
  consider "r = []" | g where "r = [g]" | "2 \<le> length r" using length_2 [of r] by (cases r) auto
  then show ?thesis
    using nn False by cases (auto simp: andSimp_def andLoop_eq r_def [symmetric] is_nnf_def)
qed (simp add: andSimp_def andLoop_eq is_nnf_def)

lemma orSimp_nnf:
  assumes "\<forall>f \<in> set fs. is_nnf f"
  shows "is_nnf (orSimp fs)"
proof (cases "TrueConst \<in> set fs")
  case False
  define r where "r = concat (map orPart fs)"
  have nn: "\<forall>g \<in> set r. (\<exists>v s. g = FLit v s) \<or> nnf_and g"
  proof
    fix g assume "g \<in> set r"
    then obtain f where "f \<in> set fs" "g \<in> set (orPart f)" unfolding r_def by auto
    then show "(\<exists>v s. g = FLit v s) \<or> nnf_and g"
      using assms False by (intro parts_nnf(2) [of f g]) auto
  qed
  consider "r = []" | g where "r = [g]" | "2 \<le> length r" using length_2 [of r] by (cases r) auto
  then show ?thesis
    using nn False by cases (auto simp: orSimp_def orLoop_eq r_def [symmetric] is_nnf_def)
qed (simp add: orSimp_def orLoop_eq is_nnf_def)

lemma nnf_is_nnf: "is_nnf (nnf f)"
proof (induction f rule: nnf.induct)
  case (12 fs)
  then show ?case by (simp add: nnf.simps(12))
next
  case (13 fs)
  then show ?case by (simp add: nnf.simps(13))
qed (simp_all add: andSimp_nnf orSimp_nnf, auto simp: is_nnf_def)

text \<open>A formula that is neither constant keeps its meaning and its variables.\<close>

definition solid :: "formula \<Rightarrow> bool" where
  "solid f \<longleftrightarrow> f \<noteq> TrueConst \<and> f \<noteq> FalseConst"

lemma nnf_const_free: "nnf_and f \<Longrightarrow> const_free f" "nnf_or f \<Longrightarrow> const_free f"
  by (induction f) auto

lemma solid_const_free: "is_nnf f \<Longrightarrow> solid f \<Longrightarrow> const_free f"
  by (auto simp: is_nnf_def solid_def nnf_const_free)

lemma parts_nonempty: "is_nnf f \<Longrightarrow> solid f \<Longrightarrow> andPart f \<noteq> [] \<and> orPart f \<noteq> []"
  by (cases f) (auto simp: is_nnf_def solid_def)

lemma andSimp_solid:
  assumes "fs \<noteq> []" and "\<forall>f \<in> set fs. is_nnf f \<and> solid f"
  shows "solid (andSimp fs) \<and> holds a (andSimp fs) = holds a (FAnd fs) \<and> fvars (andSimp fs) = fvars (FAnd fs)"
proof -
  define r where "r = concat (map andPart fs)"
  have nf: "f \<noteq> FalseConst" if "f \<in> set fs" for f using assms(2) that by (auto simp: solid_def)
  have ne: "r \<noteq> []" using assms parts_nonempty by (cases fs) (auto simp: r_def)
  have "(\<exists>v s. g = FLit v s) \<or> nnf_or g" if g: "g \<in> set r" for g
  proof -
    obtain f where "f \<in> set fs" "g \<in> set (andPart f)" using g by (auto simp: r_def)
    then show ?thesis using assms(2) nf by (intro parts_nnf(1) [of f g]) auto
  qed
  from this [of "r ! 0"] have "solid (r ! 0)" using ne nth_mem [of 0 r] by (auto simp: solid_def)
  moreover have "(\<forall>g \<in> set r. holds a g) = holds a (FAnd fs)"
    using parts_holds(1) nf by (auto simp: r_def)
  moreover have "(\<Union>g \<in> set r. fvars g) = fvars (FAnd fs)"
    using parts_holds(3) nf by (simp add: r_def)
  moreover have "andLoop [] fs = Some r" using nf by (auto simp: andLoop_eq r_def)
  ultimately show ?thesis
    using ne by (cases r) (auto simp: andSimp_def solid_def)
qed

lemma orSimp_solid:
  assumes "fs \<noteq> []" and "\<forall>f \<in> set fs. is_nnf f \<and> solid f"
  shows "solid (orSimp fs) \<and> holds a (orSimp fs) = holds a (FOr fs) \<and> fvars (orSimp fs) = fvars (FOr fs)"
proof -
  define r where "r = concat (map orPart fs)"
  have nf: "f \<noteq> TrueConst" if "f \<in> set fs" for f using assms(2) that by (auto simp: solid_def)
  have ne: "r \<noteq> []" using assms parts_nonempty by (cases fs) (auto simp: r_def)
  have "(\<exists>v s. g = FLit v s) \<or> nnf_and g" if g: "g \<in> set r" for g
  proof -
    obtain f where "f \<in> set fs" "g \<in> set (orPart f)" using g by (auto simp: r_def)
    then show ?thesis using assms(2) nf by (intro parts_nnf(2) [of f g]) auto
  qed
  from this [of "r ! 0"] have "solid (r ! 0)" using ne nth_mem [of 0 r] by (auto simp: solid_def)
  moreover have "(\<exists>g \<in> set r. holds a g) = holds a (FOr fs)"
    using parts_holds(2) nf by (auto simp: r_def)
  moreover have "(\<Union>g \<in> set r. fvars g) = fvars (FOr fs)"
    using parts_holds(4) nf by (simp add: r_def)
  moreover have "orLoop [] fs = Some r" using nf by (auto simp: orLoop_eq r_def)
  ultimately show ?thesis
    using ne by (cases r) (auto simp: orSimp_def solid_def)
qed

lemma nnf_solid: "const_free f \<Longrightarrow> solid (nnf f) \<and> holds a (nnf f) = holds a f \<and> fvars (nnf f) = fvars f"
proof (induction f rule: nnf.induct)
  case (5 fs)
  then show ?case using andSimp_solid [of "map nnf fs" a] by (auto simp: nnf_is_nnf)
next
  case (6 fs)
  then show ?case using orSimp_solid [of "map nnf fs" a] by (auto simp: nnf_is_nnf)
next
  case (12 fs)
  have "\<forall>f \<in> set fs. const_free (nnf (FNot f))" using 12 solid_const_free nnf_is_nnf by simp
  then show ?case using 12 by (simp add: nnf.simps(12) del: nnf.simps(6))
next
  case (13 fs)
  have "\<forall>f \<in> set fs. const_free (nnf (FNot f))" using 13 solid_const_free nnf_is_nnf by simp
  then show ?case using 13 by (simp add: nnf.simps(13) del: nnf.simps(5))
qed (auto simp: solid_def)

text \<open>
  C19. The negation normal form of any formula is a constant, a literal, or an alternation of
  conjunctions and disjunctions with at least two members each and literals at the leaves. For a
  formula without constants and without empty conjunctions and disjunctions, the evaluation of
  the normal form is the evaluation of the formula in every model, complete or not.
\<close>

theorem nnf_correct:
  "is_nnf (nnf f) \<and> (const_free f \<longrightarrow> Eval m (nnf f) = Eval m f)"
  using nnf_solid [of f "asg_of m"] by (simp add: nnf_is_nnf Eval_holds)

theorem nnf_correct_witness:
  "is_nnf (nnf (FNot (FAnd [Var ''a'', FNot (FOr [Var ''b'', Var ''c''])])))
   \<and> Eval [''a'' \<mapsto> True, ''b'' \<mapsto> False, ''c'' \<mapsto> True]
        (nnf (FNot (FAnd [Var ''a'', FNot (FOr [Var ''b'', Var ''c''])])))
     = Some True"
  using nnf_correct [of "FNot (FAnd [Var ''a'', FNot (FOr [Var ''b'', Var ''c''])])"
      "[''a'' \<mapsto> True, ''b'' \<mapsto> False, ''c'' \<mapsto> True]"]
  by (simp add: Var_def pbVar_def Eval_variable_def)

lemma andLoop_true: "\<forall>f \<in> set fs. f = TrueConst \<Longrightarrow> andLoop res fs = Some res"
  by (induction fs) auto

lemma orLoop_false: "\<forall>f \<in> set fs. f = FalseConst \<Longrightarrow> orLoop res fs = Some res"
  by (induction fs) auto

text \<open>
  C35. The normal form inverts constants: a conjunction, empty or not, whose members all have the
  true constant as normal form becomes the false constant, and a disjunction whose members all
  become the false constant becomes the true one. Conjunctions of true constants and disjunctions
  of false ones, of any length, are such formulas, and they evaluate to true and to false.
\<close>

theorem nnf_constants_inverted:
  "((\<forall>f \<in> set fs. nnf f = TrueConst) \<longrightarrow> nnf (FAnd fs) = FalseConst)
   \<and> ((\<forall>f \<in> set fs. nnf f = FalseConst) \<longrightarrow> nnf (FOr fs) = TrueConst)
   \<and> Eval m (FAnd (replicate (Suc n) TrueConst)) = Some True
   \<and> Eval m (FOr (replicate (Suc n) FalseConst)) = Some False"
proof -
  have "evalAnd m i True (replicate n TrueConst) = Some True" "evalOr m i False (replicate n FalseConst) = Some False" for i n
    by (induction n arbitrary: i) auto
  moreover have "andSimp gs = FalseConst" if "\<forall>f \<in> set gs. f = TrueConst" for gs
    using andLoop_true [OF that, of "[]"] by (simp add: andSimp_def)
  moreover have "orSimp gs = TrueConst" if "\<forall>f \<in> set gs. f = FalseConst" for gs
    using orLoop_false [OF that, of "[]"] by (simp add: orSimp_def)
  ultimately show ?thesis by simp
qed

theorem nnf_constants_inverted_witness:
  "nnf (FAnd [TrueConst, FNot FalseConst]) = FalseConst \<and> nnf (FOr [FalseConst, FNot TrueConst]) = TrueConst"
  using nnf_constants_inverted [of "[TrueConst, FNot FalseConst]" "\<lambda>_. None" 0]
    nnf_constants_inverted [of "[FalseConst, FNot TrueConst]" "\<lambda>_. None" 0] by simp

end
