(* ===== verification/Cnf.thy ===== *)
theory Cnf
  imports Formula "HOL-Library.AList"
begin

text \<open>
  Model of the clausal form of \<open>bf/bf.go\<close>: \<open>asCnf\<close> and \<open>cnfRec\<close>, with the table \<open>vars\<close> that
  numbers variables and creates dummy variables. A Go map is an association list whose length is
  the size of the map. \<open>None\<close> is a panic.
\<close>

section \<open>Variable tables\<close>

record vars =
  v_all :: "(variable \<times> int) list"
  v_pb :: "(variable \<times> int) list"

definition litValue :: "vars \<Rightarrow> variable \<Rightarrow> bool \<Rightarrow> int \<times> vars" where
  "litValue vs v signed =
     (let (val, vs) = (case map_of (v_all vs) v of
            Some val \<Rightarrow> (val, vs)
          | None \<Rightarrow> let val = int (length (v_all vs)) + 1
                    in (val, vs\<lparr>v_all := AList.update v val (v_all vs),
                               v_pb := AList.update v val (v_pb vs)\<rparr>))
      in (if signed then - val else val, vs))"

definition dummyName :: "nat \<Rightarrow> variable" where
  "dummyName k = dummyVar (''dummy-'' @ itoa k)"

definition dummy :: "vars \<Rightarrow> int \<times> vars" where
  "dummy vs =
     (let k = length (v_all vs) + 1
      in (int k, vs\<lparr>v_all := AList.update (dummyName k) (int k) (v_all vs)\<rparr>))"

section \<open>Clauses\<close>

text \<open>
  \<open>cnfAnd\<close> and \<open>cnfOr\<close> are the loops of the two cases of \<open>cnfRec\<close>, \<open>cnfGuard\<close> the loop over the
  members of a conjunction inside a disjunction, which adds the guard \<open>-d\<close> to the first clause
  of each member.
\<close>

fun cnfRec :: "formula \<Rightarrow> vars \<Rightarrow> (int list list \<times> vars) option"
  and cnfAnd :: "int list list \<Rightarrow> formula list \<Rightarrow> vars \<Rightarrow> (int list list \<times> vars) option"
  and cnfOr :: "int list list \<Rightarrow> int list \<Rightarrow> formula list \<Rightarrow> vars \<Rightarrow> (int list list \<times> vars) option"
  and cnfGuard :: "int \<Rightarrow> int list list \<Rightarrow> formula list \<Rightarrow> vars \<Rightarrow> (int list list \<times> vars) option"
where
  "cnfRec (FLit v signed) vs = (let (n, vs) = litValue vs v signed in Some ([[n]], vs))"
| "cnfRec (FAnd fs) vs = cnfAnd [] fs vs"
| "cnfRec (FOr fs) vs = cnfOr [] [] fs vs"
| "cnfRec TrueConst vs = Some ([], vs)"
| "cnfRec FalseConst vs = Some ([[]], vs)"
| "cnfRec (FVar v) vs = None"
| "cnfRec (FNot f) vs = None"
| "cnfAnd res [] vs = Some (res, vs)"
| "cnfAnd res (f # fs) vs = do { (cs, vs) \<leftarrow> cnfRec f vs; cnfAnd (res @ cs) fs vs }"
| "cnfOr res ls [] vs = Some (res @ [ls], vs)"
| "cnfOr res ls (FLit v signed # fs) vs =
     (let (n, vs) = litValue vs v signed in cnfOr res (ls @ [n]) fs vs)"
| "cnfOr res ls (FAnd subs # fs) vs =
     (let (d, vs) = dummy vs in
      do { (res, vs) \<leftarrow> cnfGuard d res subs vs; cnfOr res (ls @ [d]) fs vs })"
| "cnfOr res ls (TrueConst # fs) vs = None"
| "cnfOr res ls (FalseConst # fs) vs = None"
| "cnfOr res ls (FVar v # fs) vs = None"
| "cnfOr res ls (FNot f # fs) vs = None"
| "cnfOr res ls (FOr gs # fs) vs = None"
| "cnfGuard d res [] vs = Some (res, vs)"
| "cnfGuard d res (f # fs) vs = do {
     (cs, vs) \<leftarrow> cnfRec f vs;
     c0 \<leftarrow> get cs 0;
     cs \<leftarrow> put cs 0 (c0 @ [- d]);
     cnfGuard d (res @ cs) fs vs }"

definition asCnf :: "formula \<Rightarrow> (int list list \<times> vars) option" where
  "asCnf f = cnfRec (nnf f) \<lparr>v_all = [], v_pb = []\<rparr>"

section \<open>Meaning of the clauses\<close>

definition ntrue :: "(int \<Rightarrow> bool) \<Rightarrow> int \<Rightarrow> bool" where
  "ntrue s n = (if n < 0 then \<not> s (- n) else s n)"

definition clauses_hold :: "(int \<Rightarrow> bool) \<Rightarrow> int list list \<Rightarrow> bool" where
  "clauses_hold s cs \<longleftrightarrow> (\<forall>c \<in> set cs. \<exists>n \<in> set c. ntrue s n)"

text \<open>The assignment of the formula's variables that a numbering gives.\<close>

definition decode :: "vars \<Rightarrow> (int \<Rightarrow> bool) \<Rightarrow> variable \<Rightarrow> bool" where
  "decode vs s v = s (the (map_of (v_pb vs) v))"

text \<open>Names that \<open>dummy\<close> hands out.\<close>

definition reserved :: "variable \<Rightarrow> bool" where
  "reserved v \<longleftrightarrow> vdummy v \<and> take 6 (vname v) = ''dummy-''"

text \<open>The indices are 1, 2, 3 and so on, in the order of creation.\<close>

definition numbering :: "nat \<Rightarrow> int list" where
  "numbering n = map int [1..<Suc n]"

lemma numbering_Suc [simp]: "numbering (Suc n) = numbering n @ [int n + 1]"
  by (simp add: numbering_def)

lemma set_numbering: "set (numbering n) = {1..int n}"
  by (induction n) (auto simp: numbering_def)

definition vars_inv :: "vars \<Rightarrow> bool" where
  "vars_inv vs \<longleftrightarrow> map snd (v_all vs) = numbering (length (v_all vs))
     \<and> map_of (v_pb vs) \<subseteq>\<^sub>m map_of (v_all vs)
     \<and> (\<forall>(v, k) \<in> set (v_all vs). if reserved v then v = dummyName (nat k) else v \<in> dom (map_of (v_pb vs)))"

definition extends :: "vars \<Rightarrow> vars \<Rightarrow> bool" where
  "extends vs vs' \<longleftrightarrow> map_of (v_pb vs) \<subseteq>\<^sub>m map_of (v_pb vs') \<and> length (v_all vs) \<le> length (v_all vs')"

lemma vars_invD:
  assumes "vars_inv vs"
  shows "map snd (v_all vs) = numbering (length (v_all vs))"
    and "map_of (v_pb vs) v = Some k \<Longrightarrow> map_of (v_all vs) v = Some k"
    and "(v, k) \<in> set (v_all vs) \<Longrightarrow> reserved v \<Longrightarrow> v = dummyName (nat k)"
    and "(v, k) \<in> set (v_all vs) \<Longrightarrow> \<not> reserved v \<Longrightarrow> v \<in> dom (map_of (v_pb vs))"
proof -
  show "map snd (v_all vs) = numbering (length (v_all vs))" using assms by (simp add: vars_inv_def)
  have "map_of (v_pb vs) \<subseteq>\<^sub>m map_of (v_all vs)" using assms by (simp add: vars_inv_def)
  then show "map_of (v_pb vs) v = Some k \<Longrightarrow> map_of (v_all vs) v = Some k"
    by (force simp: map_le_def)
  show "(v, k) \<in> set (v_all vs) \<Longrightarrow> reserved v \<Longrightarrow> v = dummyName (nat k)"
    "(v, k) \<in> set (v_all vs) \<Longrightarrow> \<not> reserved v \<Longrightarrow> v \<in> dom (map_of (v_pb vs))"
    using assms by (fastforce simp: vars_inv_def)+
qed

lemma extends_refl [simp]: "extends vs vs"
  by (simp add: extends_def)

lemma extends_trans: "extends x y \<Longrightarrow> extends y z \<Longrightarrow> extends x z"
  by (auto simp: extends_def intro: map_le_trans)

lemma extends_dom: "extends x y \<Longrightarrow> v \<in> dom (map_of (v_pb x)) \<Longrightarrow> v \<in> dom (map_of (v_pb y))"
  by (auto simp: extends_def dest: map_le_implies_dom_le)

lemma decode_extends: "extends x y \<Longrightarrow> v \<in> dom (map_of (v_pb x)) \<Longrightarrow> decode y s v = decode x s v"
  by (auto simp: extends_def decode_def map_le_def domI)

lemma holds_cong: "(\<And>v. v \<in> fvars f \<Longrightarrow> a v = b v) \<Longrightarrow> holds a f = holds b f"
  by (induction f) auto

lemma holds_extends:
  "extends x y \<Longrightarrow> fvars f \<subseteq> dom (map_of (v_pb x)) \<Longrightarrow> holds (decode y s) f = holds (decode x s) f"
  by (rule holds_cong, rule decode_extends) auto

lemma clauses_hold_simps [simp]:
  "clauses_hold s []" "clauses_hold s (c # cs) \<longleftrightarrow> (\<exists>n \<in> set c. ntrue s n) \<and> clauses_hold s cs"
  "clauses_hold s (cs @ ds) \<longleftrightarrow> clauses_hold s cs \<and> clauses_hold s ds"
  by (auto simp: clauses_hold_def)

section \<open>The table operations\<close>

lemma update_new: "k \<notin> fst ` set xs \<Longrightarrow> AList.update k v xs = xs @ [(k, v)]"
  by (induction xs) auto

lemma vars_inv_range:
  assumes "vars_inv vs" and "(v, k) \<in> set (v_all vs)"
  shows "1 \<le> k \<and> k \<le> int (length (v_all vs))"
proof -
  have "k \<in> set (map snd (v_all vs))" using assms(2) by force
  then show ?thesis unfolding vars_invD(1) [OF assms(1)] set_numbering by simp
qed

lemma reserved_dummyName [simp]: "reserved (dummyName k)"
  by (simp add: reserved_def dummyName_def dummyVar_def)

lemma dummyName_inject [simp]: "dummyName j = dummyName k \<longleftrightarrow> j = k"
  by (simp add: dummyName_def dummyVar_def)

lemma dummy_fresh:
  assumes "vars_inv vs" shows "dummyName (length (v_all vs) + 1) \<notin> fst ` set (v_all vs)"
proof
  assume "dummyName (length (v_all vs) + 1) \<in> fst ` set (v_all vs)"
  then obtain k where k: "(dummyName (length (v_all vs) + 1), k) \<in> set (v_all vs)" by auto
  then have "length (v_all vs) + 1 = nat k"
    using vars_invD(3) [OF assms k] by simp
  then show False using vars_inv_range [OF assms k] by linarith
qed

lemma map_of_append_old: "map_of xs v = Some k \<Longrightarrow> map_of (xs @ ys) v = Some k"
  by (simp add: map_add_def)

lemma dummy_spec:
  assumes "vars_inv vs"
  shows "fst (dummy vs) = int (length (v_all vs)) + 1" "vars_inv (snd (dummy vs))"
    "extends vs (snd (dummy vs))" "v_pb (snd (dummy vs)) = v_pb vs"
    "length (v_all (snd (dummy vs))) = length (v_all vs) + 1"
proof -
  define vs' where "vs' = snd (dummy vs)"
  have u: "v_all vs' = v_all vs @ [(dummyName (length (v_all vs) + 1), int (length (v_all vs)) + 1)]"
    "v_pb vs' = v_pb vs"
    using update_new [OF dummy_fresh [OF assms]] by (simp_all add: dummy_def Let_def vs'_def)
  show "fst (dummy vs) = int (length (v_all vs)) + 1" by (simp add: dummy_def Let_def)
  show "extends vs (snd (dummy vs))" "v_pb (snd (dummy vs)) = v_pb vs"
    "length (v_all (snd (dummy vs))) = length (v_all vs) + 1"
    using u by (simp_all add: extends_def vs'_def [symmetric])
  have "map_of (v_pb vs') \<subseteq>\<^sub>m map_of (v_all vs')"
    unfolding u by (auto simp: map_le_def map_of_append_old vars_invD(2) [OF assms] simp del: map_of_append)
  moreover have "map snd (v_all vs') = numbering (length (v_all vs'))"
    using vars_invD(1) [OF assms] by (simp add: u)
  moreover have "if reserved v then v = dummyName (nat k) else v \<in> dom (map_of (v_pb vs'))"
    if "(v, k) \<in> set (v_all vs')" for v k
    using that vars_invD(3,4) [OF assms, of v k] by (auto simp: u nat_add_distrib)
  ultimately show "vars_inv (snd (dummy vs))"
    unfolding vs'_def [symmetric] by (fastforce simp: vars_inv_def)
qed

lemma litValue_spec:
  assumes "vars_inv vs" and "\<not> reserved v"
  obtains val vs' where "litValue vs v signed = (if signed then - val else val, vs')"
    "vars_inv vs'" "extends vs vs'" "map_of (v_pb vs') v = Some val" "0 < val"
    "val \<le> int (length (v_all vs'))"
    "map_of (v_pb vs) v = None \<Longrightarrow> val = int (length (v_all vs)) + 1"
    "\<And>u. u \<noteq> v \<Longrightarrow> map_of (v_pb vs') u = map_of (v_pb vs) u"
proof (cases "map_of (v_all vs) v")
  case (Some val)
  then have m: "(v, val) \<in> set (v_all vs)" by (rule map_of_SomeD)
  then have "v \<in> dom (map_of (v_pb vs))" using assms by (auto simp: vars_inv_def)
  then have "map_of (v_pb vs) v = Some val" using assms(1) Some by (auto simp: vars_inv_def map_le_def)
  then show ?thesis
    using that [of val vs] Some vars_inv_range [OF assms(1) m] assms(1) by (simp add: litValue_def)
next
  case None
  define val where "val = int (length (v_all vs)) + 1"
  define vs' where "vs' = vs\<lparr>v_all := v_all vs @ [(v, val)], v_pb := AList.update v val (v_pb vs)\<rparr>"
  have nv: "v \<notin> fst ` set (v_all vs)" using None by (simp add: map_of_eq_None_iff)
  have npb: "map_of (v_pb vs) v = None"
    using None vars_invD(2) [OF assms(1), of v] by (cases "map_of (v_pb vs) v") auto
  have pb': "map_of (v_pb vs') = (map_of (v_pb vs))(v \<mapsto> val)" by (simp add: vs'_def update_conv')
  have "litValue vs v signed = (if signed then - val else val, vs')"
    using None update_new [OF nv] by (simp add: litValue_def Let_def val_def vs'_def)
  moreover have "map_of (v_pb vs') \<subseteq>\<^sub>m map_of (v_all vs')"
    unfolding pb' using vars_invD(2) [OF assms(1)] None
    by (auto simp: map_le_def vs'_def map_add_def split: option.splits)
  then have "vars_inv vs'"
    using vars_invD(1) [OF assms(1)] vars_invD(3) [OF assms(1)] vars_invD(4) [OF assms(1), THEN domD] assms(2)
    by (auto simp: vars_inv_def pb') (auto simp: vs'_def val_def)
  moreover have "extends vs vs'"
    using npb by (auto simp: extends_def pb' map_le_def) (simp add: vs'_def)
  ultimately show ?thesis
    using that [of val vs'] npb by (simp add: pb') (simp add: vs'_def val_def)
qed

section \<open>The clauses imply the formula\<close>

definition nnf_part :: "formula \<Rightarrow> bool" where
  "nnf_part f \<longleftrightarrow> (\<exists>v s. f = FLit v s) \<or> nnf_and f \<or> nnf_or f"

definition unreserved :: "formula \<Rightarrow> bool" where
  "unreserved f \<longleftrightarrow> (\<forall>v \<in> fvars f. \<not> reserved v)"

lemma unreserved_simps [simp]:
  "unreserved (FLit v s) = (\<not> reserved v)"
  "unreserved (FAnd fs) = (\<forall>f \<in> set fs. unreserved f)" "unreserved (FOr fs) = (\<forall>f \<in> set fs. unreserved f)"
  by (auto simp: unreserved_def)

text \<open>What each of the four functions guarantees: no panic, and its clauses imply its formula.\<close>

definition sound_post :: "vars \<Rightarrow> formula set \<Rightarrow> ((variable \<Rightarrow> bool) \<Rightarrow> (int \<Rightarrow> bool) \<Rightarrow> bool)
    \<Rightarrow> int list list \<Rightarrow> vars \<Rightarrow> bool" where
  "sound_post vs fs P cs vs' \<longleftrightarrow> vars_inv vs' \<and> extends vs vs'
     \<and> (\<forall>f \<in> fs. fvars f \<subseteq> dom (map_of (v_pb vs')))
     \<and> (\<forall>s. clauses_hold s cs \<longrightarrow> P (decode vs' s) s)"

lemma nnf_and_not_or: "nnf_and f \<Longrightarrow> \<not> nnf_or f"
  by (cases f) auto

lemma sound_chain:
  assumes "sound_post vs A P cs vs1" and "sound_post vs1 B Q ds vs2"
    and "\<And>s. clauses_hold s ds \<Longrightarrow> Q (decode vs2 s) s \<Longrightarrow>
      (clauses_hold s cs \<Longrightarrow> P (decode vs1 s) s) \<Longrightarrow>
      (\<And>f. f \<in> A \<Longrightarrow> holds (decode vs2 s) f = holds (decode vs1 s) f) \<Longrightarrow> R (decode vs2 s) s"
  shows "sound_post vs (A \<union> B) R ds vs2"
  unfolding sound_post_def
proof (intro conjI ballI allI impI)
  have e: "extends vs1 vs2" using assms(2) by (simp add: sound_post_def)
  have d: "fvars f \<subseteq> dom (map_of (v_pb vs1))" if "f \<in> A" for f using assms(1) that by (simp add: sound_post_def)
  show "vars_inv vs2" using assms(2) by (simp add: sound_post_def)
  show "extends vs vs2" using assms(1) e by (auto simp: sound_post_def intro: extends_trans)
  show "fvars f \<subseteq> dom (map_of (v_pb vs2))" if "f \<in> A \<union> B" for f
    using that d assms(2) extends_dom [OF e] unfolding sound_post_def by blast
  show "R (decode vs2 s) s" if "clauses_hold s ds" for s
    using assms that holds_extends [OF e d] by (simp add: sound_post_def)
qed

lemma sound_post_cnfRec:
  "vars_inv vs \<Longrightarrow> nnf_part f \<Longrightarrow> unreserved f \<Longrightarrow>
     wp (cnfRec f vs) (\<lambda>(cs, vs'). cs \<noteq> [] \<and> sound_post vs {f} (\<lambda>a s. holds a f) cs vs')"
  "vars_inv vs \<Longrightarrow> \<forall>f \<in> set fs. nnf_part f \<and> unreserved f \<Longrightarrow>
     wp (cnfAnd res fs vs) (\<lambda>(cs, vs'). length res + length fs \<le> length cs
       \<and> sound_post vs (set fs) (\<lambda>a s. clauses_hold s res \<and> (\<forall>f \<in> set fs. holds a f)) cs vs')"
  "vars_inv vs \<Longrightarrow> \<forall>f \<in> set fs. (nnf_part f \<and> \<not> nnf_or f) \<and> unreserved f \<Longrightarrow>
     wp (cnfOr res ls fs vs) (\<lambda>(cs, vs'). cs \<noteq> []
       \<and> sound_post vs (set fs) (\<lambda>a s. clauses_hold s res
            \<and> ((\<exists>n \<in> set ls. ntrue s n) \<or> (\<exists>f \<in> set fs. holds a f))) cs vs')"
  "vars_inv vs \<Longrightarrow> \<forall>f \<in> set fs. nnf_part f \<and> unreserved f \<Longrightarrow> 0 < d \<Longrightarrow>
     wp (cnfGuard d res fs vs) (\<lambda>(cs, vs').
       sound_post vs (set fs) (\<lambda>a s. clauses_hold s res \<and> (s d \<longrightarrow> (\<forall>f \<in> set fs. holds a f))) cs vs')"
proof (induction f vs and res fs vs and res ls fs vs and d res fs vs
    rule: cnfRec_cnfAnd_cnfOr_cnfGuard.induct)
  case (1 v signed vs)
  then obtain val vs' where l: "litValue vs v signed = (if signed then - val else val, vs')"
    "vars_inv vs'" "extends vs vs'" "map_of (v_pb vs') v = Some val" "0 < val"
    by (auto elim: litValue_spec [of vs v signed])
  then show ?case
    by (auto simp: sound_post_def decode_def ntrue_def domI split: if_splits)
next
  case (2 fs vs)
  have p: "\<forall>f \<in> set fs. nnf_part f" "2 \<le> length fs"
    using 2(3) by (auto simp: nnf_part_def)
  show ?case
    using 2 p by (auto elim!: wp_mono simp: sound_post_def)
next
  case (3 fs vs)
  have "\<forall>f \<in> set fs. (nnf_part f \<and> \<not> nnf_or f) \<and> unreserved f"
    using 3(3,4) nnf_and_not_or by (auto simp: nnf_part_def)
  from 3(1) [OF 3(2) this] show ?case
    by (auto elim!: wp_mono simp: sound_post_def)
next
  case (9 res f fs vs)
  obtain cs vs1 where c: "cnfRec f vs = Some (cs, vs1)" "cs \<noteq> []"
    and s1: "sound_post vs {f} (\<lambda>a s. holds a f) cs vs1"
    using 9(1) 9(3,4) by (auto simp: wp_iff)
  have "wp (cnfAnd (res @ cs) fs vs1) (\<lambda>(ds, vs2). length (res @ cs) + length fs \<le> length ds
       \<and> sound_post vs1 (set fs) (\<lambda>a s. clauses_hold s (res @ cs) \<and> (\<forall>f \<in> set fs. holds a f)) ds vs2)"
    using s1 9(4) by (intro 9(2) [OF c(1) refl]) (auto simp: sound_post_def)
  then obtain ds vs2 where d: "cnfAnd (res @ cs) fs vs1 = Some (ds, vs2)"
    "length (res @ cs) + length fs \<le> length ds"
    and s2: "sound_post vs1 (set fs) (\<lambda>a s. clauses_hold s (res @ cs) \<and> (\<forall>f \<in> set fs. holds a f)) ds vs2"
    by (auto simp: wp_iff)
  have "sound_post vs ({f} \<union> set fs)
      (\<lambda>a s. clauses_hold s res \<and> (\<forall>f \<in> set (f # fs). holds a f)) ds vs2"
    by (rule sound_chain [OF s1 s2]) auto
  then show ?case using c d by (cases cs) auto
next
  case (11 res ls v signed fs vs)
  then obtain val vs1 where l: "litValue vs v signed = (if signed then - val else val, vs1)"
    "vars_inv vs1" "extends vs vs1" "map_of (v_pb vs1) v = Some val" "0 < val"
    by (auto elim: litValue_spec [of vs v signed])
  define n where "n = (if signed then - val else val)"
  have s1: "sound_post vs {FLit v signed} (\<lambda>a s. True) [] vs1"
    using l by (auto simp: sound_post_def)
  obtain ds vs2 where d: "cnfOr res (ls @ [n]) fs vs1 = Some (ds, vs2)" "ds \<noteq> []"
    and s2: "sound_post vs1 (set fs) (\<lambda>a s. clauses_hold s res
       \<and> ((\<exists>n \<in> set (ls @ [n]). ntrue s n) \<or> (\<exists>f \<in> set fs. holds a f))) ds vs2"
    using 11(1) [OF l(1) [symmetric, folded n_def] refl l(2)] 11(3) by (auto simp: wp_iff)
  have h: "holds (decode vs1 s) (FLit v signed) = ntrue s n" for s
    using l by (auto simp: decode_def n_def ntrue_def)
  have "sound_post vs ({FLit v signed} \<union> set fs) (\<lambda>a s. clauses_hold s res
      \<and> ((\<exists>n \<in> set ls. ntrue s n) \<or> (\<exists>f \<in> set (FLit v signed # fs). holds a f))) ds vs2"
    by (rule sound_chain [OF s1 s2]) (use h in fastforce)
  then show ?case using d l(1) by (simp add: n_def)
next
  case (12 res ls subs fs vs)
  obtain d vs0 where dm: "dummy vs = (d, vs0)" by (cases "dummy vs")
  then have d0: "0 < d" "vars_inv vs0" "extends vs vs0"
    using dummy_spec [OF 12(3)] by simp_all
  have sub: "\<forall>f \<in> set subs. nnf_part f \<and> unreserved f" using 12(4) by (auto simp: nnf_part_def)
  obtain cs vs1 where c: "cnfGuard d res subs vs0 = Some (cs, vs1)"
    and s1: "sound_post vs0 (set subs)
      (\<lambda>a s. clauses_hold s res \<and> (s d \<longrightarrow> (\<forall>f \<in> set subs. holds a f))) cs vs1"
    using 12(1) [OF dm [symmetric] refl d0(2) sub d0(1)] by (auto simp: wp_iff)
  have s1: "sound_post vs {FAnd subs}
      (\<lambda>a s. clauses_hold s res \<and> (s d \<longrightarrow> holds a (FAnd subs))) cs vs1"
    using s1 extends_trans [OF d0(3)] by (auto simp: sound_post_def)
  obtain ds vs2 where d: "cnfOr cs (ls @ [d]) fs vs1 = Some (ds, vs2)" "ds \<noteq> []"
    and s2: "sound_post vs1 (set fs) (\<lambda>a s. clauses_hold s cs
       \<and> ((\<exists>n \<in> set (ls @ [d]). ntrue s n) \<or> (\<exists>f \<in> set fs. holds a f))) ds vs2"
    using 12(2) [OF dm [symmetric] refl c refl] s1 12(4) by (auto simp: wp_iff sound_post_def)
  have "ntrue s d = s d" for s using d0 by (simp add: ntrue_def)
  then have "sound_post vs ({FAnd subs} \<union> set fs) (\<lambda>a s. clauses_hold s res
      \<and> ((\<exists>n \<in> set ls. ntrue s n) \<or> (\<exists>f \<in> set (FAnd subs # fs). holds a f))) ds vs2"
    by (intro sound_chain [OF s1 s2]) auto
  then show ?case using d dm c by simp
next
  case (19 d res f fs vs)
  obtain cs vs1 where c: "cnfRec f vs = Some (cs, vs1)" "cs \<noteq> []"
    and s1: "sound_post vs {f} (\<lambda>a s. holds a f) cs vs1"
    using 19(1) 19(3,4) by (auto simp: wp_iff)
  define cs' where "cs' = cs[0 := cs ! 0 @ [- d]]"
  have p: "get cs 0 = Some (cs ! 0)" "put cs 0 (cs ! 0 @ [- d]) = Some cs'"
    using c(2) by (simp_all add: cs'_def)
  have g: "s d \<Longrightarrow> clauses_hold s cs' \<Longrightarrow> clauses_hold s cs" for s
    using c(2) 19(5) by (cases cs) (auto simp: cs'_def ntrue_def)
  obtain ds vs2 where d: "cnfGuard d (res @ cs') fs vs1 = Some (ds, vs2)"
    and s2: "sound_post vs1 (set fs)
      (\<lambda>a s. clauses_hold s (res @ cs') \<and> (s d \<longrightarrow> (\<forall>f \<in> set fs. holds a f))) ds vs2"
    using 19(2) [OF c(1) refl p] s1 19(4,5) by (auto simp: wp_iff sound_post_def)
  have "sound_post vs ({f} \<union> set fs)
      (\<lambda>a s. clauses_hold s res \<and> (s d \<longrightarrow> (\<forall>f \<in> set (f # fs). holds a f))) ds vs2"
    by (rule sound_chain [OF s1 s2]) (use g in auto)
  then show ?case using c d p by simp
next
  case (17 res ls gs fs vs)
  then show ?case by (auto simp: nnf_part_def simp del: nnf_or.simps(1))
qed (auto simp: nnf_part_def sound_post_def)

lemma part_fvars: "g \<in> set (andPart f) \<union> set (orPart f) \<Longrightarrow> fvars g \<subseteq> fvars f"
  by (cases f) auto

lemma singleton_nth: "length xs = 1 \<Longrightarrow> xs ! 0 \<in> set xs"
  by (intro nth_mem) simp

lemma andSimp_fvars: "fvars (andSimp fs) \<subseteq> fvars (FAnd fs)"
proof -
  define r where "r = concat (map andPart fs)"
  have "fvars g \<subseteq> fvars (FAnd fs)" if "g \<in> set r" for g
    using that part_fvars by (fastforce simp: r_def)
  then show ?thesis
    using singleton_nth [of r] by (auto simp: andSimp_def andLoop_eq r_def [symmetric])
qed

lemma orSimp_fvars: "fvars (orSimp fs) \<subseteq> fvars (FOr fs)"
proof -
  define r where "r = concat (map orPart fs)"
  have "fvars g \<subseteq> fvars (FOr fs)" if "g \<in> set r" for g
    using that part_fvars by (fastforce simp: r_def)
  then show ?thesis
    using singleton_nth [of r] by (auto simp: orSimp_def orLoop_eq r_def [symmetric])
qed

lemma nnf_fvars: "fvars (nnf f) \<subseteq> fvars f"
proof (induction f rule: nnf.induct)
  case (5 fs)
  then show ?case using andSimp_fvars [of "map nnf fs"] by fastforce
next
  case (6 fs)
  then show ?case using orSimp_fvars [of "map nnf fs"] by fastforce
next
  case (12 fs)
  then show ?case by (fastforce simp: nnf.simps(12) simp del: nnf.simps(6))
next
  case (13 fs)
  then show ?case by (fastforce simp: nnf.simps(13) simp del: nnf.simps(5))
qed auto

lemma vars_inv_empty: "vars_inv \<lparr>v_all = [], v_pb = []\<rparr>"
  by (simp add: vars_inv_def numbering_def)

text \<open>
  C15. Converting a formula to clauses never panics, and every assignment that satisfies the
  clauses, read through the variable table, satisfies the normal form of the formula, hence the
  formula itself when it holds no constant and no empty conjunction or disjunction. The formula
  may use any variable but the names the conversion reserves for its dummies.
\<close>

theorem asCnf_sound:
  assumes "unreserved f"
  shows "wp (asCnf f) (\<lambda>(cs, vs). \<forall>s. clauses_hold s cs \<longrightarrow>
     holds (decode vs s) (nnf f) \<and> (const_free f \<longrightarrow> holds (decode vs s) f))"
proof -
  have u: "unreserved (nnf f)" using assms nnf_fvars by (auto simp: unreserved_def)
  consider "nnf f = TrueConst" | "nnf f = FalseConst" | "nnf_part (nnf f)"
    using nnf_is_nnf [of f] by (auto simp: is_nnf_def nnf_part_def)
  then have "wp (asCnf f) (\<lambda>(cs, vs). \<forall>s. clauses_hold s cs \<longrightarrow> holds (decode vs s) (nnf f))"
  proof cases
    case 3
    from sound_post_cnfRec(1) [OF vars_inv_empty this u] show ?thesis
      unfolding asCnf_def by (auto elim!: wp_mono simp: sound_post_def)
  qed (simp_all add: asCnf_def)
  then show ?thesis
    using nnf_solid by (auto elim!: wp_mono)
qed

theorem asCnf_sound_witness:
  "wp (asCnf (FOr [Var ''a'', FAnd [Var ''b'', FNot (Var ''c'')]])) (\<lambda>(cs, vs). \<forall>s. clauses_hold s cs \<longrightarrow>
     holds (decode vs s) (nnf (FOr [Var ''a'', FAnd [Var ''b'', FNot (Var ''c'')]]))
     \<and> (const_free (FOr [Var ''a'', FAnd [Var ''b'', FNot (Var ''c'')]]) \<longrightarrow>
         holds (decode vs s) (FOr [Var ''a'', FAnd [Var ''b'', FNot (Var ''c'')]])))"
  by (rule asCnf_sound) (simp add: Var_def pbVar_def reserved_def unreserved_def)

section \<open>When the formula implies the clauses\<close>

text \<open>
  Only the first clause of a member gets the guard, so the converse holds when every member of a
  conjunction inside a disjunction is a literal or a disjunction of literals.
\<close>

fun flat_lits :: "formula \<Rightarrow> bool" where
  "flat_lits (FLit v s) = True"
| "flat_lits (FOr fs) = (\<forall>f \<in> set fs. \<exists>v s. f = FLit v s)"
| "flat_lits _ = False"

fun shallow_or :: "formula \<Rightarrow> bool" where
  "shallow_or (FAnd subs) = (\<forall>f \<in> set subs. flat_lits f)"
| "shallow_or (FLit v s) = True"
| "shallow_or _ = False"

fun shallow :: "formula \<Rightarrow> bool" where
  "shallow (FLit v s) = True"
| "shallow (FAnd fs) = (\<forall>f \<in> set fs. shallow f)"
| "shallow (FOr fs) = (\<forall>f \<in> set fs. shallow_or f)"
| "shallow TrueConst = True"
| "shallow FalseConst = True"
| "shallow _ = False"

text \<open>
  An assignment of the indices in use agrees with an assignment of the variables; it can be
  extended over the indices still to come.
\<close>

definition agrees :: "vars \<Rightarrow> (variable \<Rightarrow> bool) \<Rightarrow> (int \<Rightarrow> bool) \<Rightarrow> bool" where
  "agrees vs a s \<longleftrightarrow> (\<forall>v k. map_of (v_pb vs) v = Some k \<longrightarrow> s k = a v)"

definition upTo :: "vars \<Rightarrow> (int \<Rightarrow> bool) \<Rightarrow> (int \<Rightarrow> bool) \<Rightarrow> bool" where
  "upTo vs s t \<longleftrightarrow> (\<forall>k. k \<le> int (length (v_all vs)) \<longrightarrow> t k = s k)"

definition small :: "vars \<Rightarrow> int list \<Rightarrow> bool" where
  "small vs c \<longleftrightarrow> (\<forall>n \<in> set c. \<bar>n\<bar> \<le> int (length (v_all vs)))"

lemma small_ntrue: "small vs c \<Longrightarrow> upTo vs s t \<Longrightarrow> (\<exists>n \<in> set c. ntrue t n) = (\<exists>n \<in> set c. ntrue s n)"
  by (auto simp: small_def upTo_def ntrue_def) (metis abs_le_iff)+

lemma small_hold: "\<forall>c \<in> set cs. small vs c \<Longrightarrow> upTo vs s t \<Longrightarrow> clauses_hold t cs = clauses_hold s cs"
  unfolding clauses_hold_def using small_ntrue by blast

lemma small_extends: "small vs c \<Longrightarrow> extends vs vs' \<Longrightarrow> small vs' c"
  by (fastforce simp: small_def extends_def)

lemma upTo_trans: "upTo vs s t \<Longrightarrow> upTo vs' t u \<Longrightarrow> extends vs vs' \<Longrightarrow> upTo vs s u"
  by (auto simp: upTo_def extends_def)

text \<open>What the functions do to the table, and the assignments that extend over it.\<close>

definition grows :: "(variable \<Rightarrow> bool) \<Rightarrow> vars \<Rightarrow> vars \<Rightarrow> ((int \<Rightarrow> bool) \<Rightarrow> bool) \<Rightarrow> bool" where
  "grows a vs vs' P \<longleftrightarrow> vars_inv vs' \<and> extends vs vs'
     \<and> (\<forall>s. agrees vs a s \<longrightarrow> (\<exists>t. upTo vs s t \<and> agrees vs' a t \<and> P t))"

lemma grows_refl: "vars_inv vs \<Longrightarrow> (\<And>s. agrees vs a s \<Longrightarrow> P s) \<Longrightarrow> grows a vs vs P"
  by (auto simp: grows_def upTo_def)

lemma grows_trans:
  assumes "grows a vs vs1 P" and "grows a vs1 vs2 Q"
    and "\<And>t u. P t \<Longrightarrow> upTo vs1 t u \<Longrightarrow> agrees vs2 a u \<Longrightarrow> Q u \<Longrightarrow> R u"
  shows "grows a vs vs2 R"
proof -
  have "\<exists>u. upTo vs s u \<and> agrees vs2 a u \<and> R u" if s: "agrees vs a s" for s
  proof -
    obtain t where t: "upTo vs s t" "agrees vs1 a t" "P t" using assms(1) s by (auto simp: grows_def)
    obtain u where u: "upTo vs1 t u" "agrees vs2 a u" "Q u" using assms(2) t by (auto simp: grows_def)
    have "upTo vs s u" using upTo_trans [OF t(1) u(1)] assms(1) by (simp add: grows_def)
    then show ?thesis using assms(3) t u by blast
  qed
  then show ?thesis using assms extends_trans by (auto simp: grows_def)
qed

lemma grows_mono: "grows a vs vs' P \<Longrightarrow> (\<And>t. agrees vs' a t \<Longrightarrow> P t \<Longrightarrow> Q t) \<Longrightarrow> grows a vs vs' Q"
  by (fastforce simp: grows_def)

lemma grows_inv: "grows a vs vs' P \<Longrightarrow> vars_inv vs'" "grows a vs vs' P \<Longrightarrow> extends vs vs'"
  by (simp_all add: grows_def)

lemma litValue_complete:
  assumes "vars_inv vs" and "\<not> reserved v"
  obtains n vs' where "litValue vs v signed = (n, vs')" "small vs' [n]" "grows a vs vs' (\<lambda>t. True)"
    "\<And>t. agrees vs' a t \<Longrightarrow> ntrue t n = (a v \<noteq> signed)"
proof -
  obtain val vs' where l: "litValue vs v signed = (if signed then - val else val, vs')"
    "vars_inv vs'" "extends vs vs'" "map_of (v_pb vs') v = Some val" "0 < val"
    "val \<le> int (length (v_all vs'))"
    "map_of (v_pb vs) v = None \<Longrightarrow> val = int (length (v_all vs)) + 1"
    "\<And>u. u \<noteq> v \<Longrightarrow> map_of (v_pb vs') u = map_of (v_pb vs) u"
    by (rule litValue_spec [OF assms, of signed]) (rule that)
  have old: "k \<le> int (length (v_all vs))" if "map_of (v_pb vs) u = Some k" for u k
    using vars_inv_range [OF assms(1), of u k] vars_invD(2) [OF assms(1) that] by (auto dest: map_of_SomeD)
  have "\<exists>t. upTo vs s t \<and> agrees vs' a t" if s: "agrees vs a s" for s
  proof (cases "map_of (v_pb vs) v")
    case None
    have "upTo vs s (s(val := a v))" using l(7) [OF None] by (simp add: upTo_def)
    moreover have "agrees vs' a (s(val := a v))"
      unfolding agrees_def
    proof (intro allI impI)
      fix u k assume u: "map_of (v_pb vs') u = Some k"
      show "(s(val := a v)) k = a u"
      proof (cases "u = v")
        case False
        then have "map_of (v_pb vs) u = Some k" using u l(8) by simp
        then show ?thesis using s old l(7) [OF None] by (fastforce simp: agrees_def)
      qed (use u l(4) in simp)
    qed
    ultimately show ?thesis by blast
  next
    case (Some k)
    then have "map_of (v_pb vs') v = map_of (v_pb vs) v"
      using l(3) by (auto simp: extends_def map_le_def dest!: bspec [OF _ domI])
    then have "map_of (v_pb vs') u = map_of (v_pb vs) u" for u using l(8) by (cases "u = v") auto
    then have "agrees vs' a s" using s by (simp add: agrees_def)
    then show ?thesis by (auto simp: upTo_def)
  qed
  moreover have "ntrue t (if signed then - val else val) = (a v \<noteq> signed)" if "agrees vs' a t" for t
    using that l(4,5) by (auto simp: agrees_def ntrue_def)
  ultimately show ?thesis
    using that l by (simp add: small_def grows_def)
qed

text \<open>A disjunction of literals becomes one clause.\<close>

lemma cnfOr_lits:
  "vars_inv vs \<Longrightarrow> \<forall>f \<in> set fs. (\<exists>v s. f = FLit v s) \<and> unreserved f \<Longrightarrow>
   \<exists>ns vs'. cnfOr res ls fs vs = Some (res @ [ls @ ns], vs') \<and> small vs' ns \<and> grows a vs vs' (\<lambda>t. True)
     \<and> (\<forall>t. agrees vs' a t \<longrightarrow> (\<exists>n \<in> set ns. ntrue t n) = (\<exists>f \<in> set fs. holds a f))"
proof (induction fs arbitrary: ls vs)
  case Nil
  then show ?case by (auto simp: small_def intro: grows_refl)
next
  case (Cons f fs)
  then obtain v sg where f: "f = FLit v sg" "\<not> reserved v" by auto
  have p: "\<forall>f \<in> set fs. (\<exists>v s. f = FLit v s) \<and> unreserved f" using Cons.prems(2) by simp
  obtain n vs1 where l: "litValue vs v sg = (n, vs1)" "small vs1 [n]" "grows a vs vs1 (\<lambda>t. True)"
    "\<And>t. agrees vs1 a t \<Longrightarrow> ntrue t n = (a v \<noteq> sg)"
    by (rule litValue_complete [OF Cons.prems(1) f(2), of sg a]) (rule that)
  obtain ns vs2 where r: "cnfOr res (ls @ [n]) fs vs1 = Some (res @ [(ls @ [n]) @ ns], vs2)" "small vs2 ns"
    and g2: "grows a vs1 vs2 (\<lambda>t. True)"
    and h: "\<forall>t. agrees vs2 a t \<longrightarrow> (\<exists>n \<in> set ns. ntrue t n) = (\<exists>f \<in> set fs. holds a f)"
    using Cons.IH [OF grows_inv(1) [OF l(3)] p, of "ls @ [n]"] by blast
  have "agrees vs1 a t" if "agrees vs2 a t" for t
    using that grows_inv(2) [OF g2] by (auto simp: agrees_def extends_def map_le_def dest!: bspec [OF _ domI])
  then have h': "\<forall>t. agrees vs2 a t \<longrightarrow> (\<exists>m \<in> set (n # ns). ntrue t m) = (\<exists>f \<in> set (f # fs). holds a f)"
    using l(4) h f(1) by simp
  have s': "small vs2 (n # ns)"
    using small_extends [OF l(2) grows_inv(2) [OF g2]] r(2) by (simp add: small_def)
  have g: "grows a vs vs2 (\<lambda>t. True)" by (rule grows_trans [OF l(3) g2]) simp
  have "cnfOr res ls (f # fs) vs = Some (res @ [ls @ (n # ns)], vs2)" using r(1) l(1) f(1) by simp
  then show ?case using s' g h' by blast
qed

lemma cnfRec_flat:
  assumes "vars_inv vs" and "flat_lits f" and "unreserved f"
  shows "\<exists>ns vs'. cnfRec f vs = Some ([ns], vs') \<and> small vs' ns \<and> grows a vs vs' (\<lambda>t. True)
     \<and> (\<forall>t. agrees vs' a t \<longrightarrow> (\<exists>n \<in> set ns. ntrue t n) = holds a f)"
proof (cases f)
  case (FLit v sg)
  then have v: "\<not> reserved v" using assms(3) by simp
  show ?thesis
    by (rule litValue_complete [OF assms(1) v, of sg a]) (auto simp: FLit)
next
  case (FOr fs)
  then show ?thesis using cnfOr_lits [OF assms(1), of fs "[]" "[]" a] assms by fastforce
qed (use assms in auto)

lemma cnfGuard_flat:
  "vars_inv vs \<Longrightarrow> \<forall>f \<in> set fs. flat_lits f \<and> unreserved f \<Longrightarrow> 0 < d \<Longrightarrow> d \<le> int (length (v_all vs)) \<Longrightarrow>
   \<exists>cs vs'. (\<forall>res. cnfGuard d res fs vs = Some (res @ cs, vs')) \<and> (\<forall>c \<in> set cs. small vs' c)
     \<and> grows a vs vs' (\<lambda>t. True)
     \<and> (\<forall>t. agrees vs' a t \<longrightarrow> (t d \<longrightarrow> (\<forall>f \<in> set fs. holds a f)) \<longrightarrow> clauses_hold t cs)"
proof (induction fs arbitrary: vs)
  case Nil
  then show ?case by (auto intro: grows_refl)
next
  case (Cons f fs)
  obtain ns vs1 where r: "cnfRec f vs = Some ([ns], vs1)" "small vs1 ns" and g1: "grows a vs vs1 (\<lambda>t. True)"
    and h1: "\<forall>t. agrees vs1 a t \<longrightarrow> (\<exists>n \<in> set ns. ntrue t n) = holds a f"
    using cnfRec_flat [OF Cons.prems(1), of f a] Cons.prems(2) by auto
  have p: "\<forall>f \<in> set fs. flat_lits f \<and> unreserved f" using Cons.prems(2) by simp
  have d1: "d \<le> int (length (v_all vs1))" using grows_inv(2) [OF g1] Cons.prems(4) by (simp add: extends_def)
  obtain cs vs2 where c: "\<And>res. cnfGuard d res fs vs1 = Some (res @ cs, vs2)"
    "\<forall>c \<in> set cs. small vs2 c" and g2: "grows a vs1 vs2 (\<lambda>t. True)"
    and h2: "\<forall>t. agrees vs2 a t \<longrightarrow> (t d \<longrightarrow> (\<forall>f \<in> set fs. holds a f)) \<longrightarrow> clauses_hold t cs"
    using Cons.IH [OF grows_inv(1) [OF g1] p Cons.prems(3) d1] by blast
  have ag: "agrees vs1 a t" if "agrees vs2 a t" for t
    using that grows_inv(2) [OF g2] by (auto simp: agrees_def extends_def map_le_def dest!: bspec [OF _ domI])
  have "small vs1 (ns @ [- d])" using r(2) d1 Cons.prems(3) by (auto simp: small_def)
  then have s': "\<forall>c \<in> set ((ns @ [- d]) # cs). small vs2 c"
    using c(2) small_extends [OF _ grows_inv(2) [OF g2]] by simp
  have "clauses_hold t ((ns @ [- d]) # cs)"
    if t: "agrees vs2 a t" "t d \<longrightarrow> (\<forall>f \<in> set (f # fs). holds a f)" for t
    using h1 h2 ag [OF t(1)] t Cons.prems(3) by (cases "t d") (auto simp: ntrue_def)
  moreover have g: "grows a vs vs2 (\<lambda>t. True)" by (rule grows_trans [OF g1 g2]) simp
  moreover have "cnfGuard d res (f # fs) vs = Some (res @ ((ns @ [- d]) # cs), vs2)" for res
    using c(1) r(1) by (simp add: get_def put_def)
  ultimately show ?case using s' by blast
qed

text \<open>A disjunction of literals and of conjunctions of clauses.\<close>

lemma cnfOr_shallow:
  "vars_inv vs \<Longrightarrow> \<forall>f \<in> set fs. shallow_or f \<and> unreserved f \<Longrightarrow>
   \<exists>cs ns vs'. cnfOr res ls fs vs = Some (res @ cs @ [ls @ ns], vs') \<and> (\<forall>c \<in> set cs. small vs' c)
     \<and> small vs' ns
     \<and> grows a vs vs' (\<lambda>t. clauses_hold t cs \<and> ((\<exists>f \<in> set fs. holds a f) \<longrightarrow> (\<exists>n \<in> set ns. ntrue t n)))"
proof (induction fs arbitrary: res ls vs)
  case Nil
  then show ?case by (intro exI [of _ "[]"] exI [of _ vs]) (auto simp: small_def intro: grows_refl)
next
  case (Cons f fs)
  have p: "\<forall>f \<in> set fs. shallow_or f \<and> unreserved f" using Cons.prems(2) by simp
  consider v sg where "f = FLit v sg" | subs where "f = FAnd subs"
    using Cons.prems(2) by (cases f) auto
  then obtain cs0 n vs1 where st: "\<And>res. cnfOr res ls (f # fs) vs = cnfOr (res @ cs0) (ls @ [n]) fs vs1"
    and sm: "\<forall>c \<in> set cs0. small vs1 c" "small vs1 [n]"
    and g1: "grows a vs vs1 (\<lambda>t. clauses_hold t cs0 \<and> (holds a f \<longrightarrow> ntrue t n))"
  proof cases
    case (1 v sg)
    then have v: "\<not> reserved v" using Cons.prems(2) by simp
    obtain n vs1 where l: "litValue vs v sg = (n, vs1)" "small vs1 [n]" "grows a vs vs1 (\<lambda>t. True)"
      "\<And>t. agrees vs1 a t \<Longrightarrow> ntrue t n = (a v \<noteq> sg)"
      by (rule litValue_complete [OF Cons.prems(1) v, of sg a]) (rule that)
    have "grows a vs vs1 (\<lambda>t. clauses_hold t [] \<and> (holds a f \<longrightarrow> ntrue t n))"
      by (rule grows_mono [OF l(3)]) (simp add: l(4) 1)
    then show ?thesis using l by (intro that [of "[]" n vs1]) (simp_all add: 1)
  next
    case (2 subs)
    obtain d vs0 where dm: "dummy vs = (d, vs0)" by (cases "dummy vs")
    then have d0: "d = int (length (v_all vs)) + 1" "vars_inv vs0" "extends vs vs0" "v_pb vs0 = v_pb vs"
      "length (v_all vs0) = length (v_all vs) + 1"
      using dummy_spec [OF Cons.prems(1)] by simp_all
    have flat: "\<forall>f \<in> set subs. flat_lits f \<and> unreserved f" using 2 Cons.prems(2) by simp
    have dp: "0 < d" "d \<le> int (length (v_all vs0))" using d0 by simp_all
    have "agrees vs0 a (s(d := holds a f))" if "agrees vs a s" for s
    proof -
      have "k \<le> int (length (v_all vs))" if "map_of (v_pb vs) u = Some k" for u k
        using vars_inv_range [OF Cons.prems(1), of u k] vars_invD(2) [OF Cons.prems(1) that]
        by (auto dest: map_of_SomeD)
      then show ?thesis using that d0 by (fastforce simp: agrees_def)
    qed
    moreover have "upTo vs s (s(d := holds a f))" for s using d0 by (simp add: upTo_def)
    ultimately have gd: "grows a vs vs0 (\<lambda>t. t d = holds a f)"
      unfolding grows_def using d0 by (metis fun_upd_same)
    obtain cs0 vs1 where c: "\<And>res. cnfGuard d res subs vs0 = Some (res @ cs0, vs1)"
      "\<forall>c \<in> set cs0. small vs1 c" and g: "grows a vs0 vs1 (\<lambda>t. True)"
      and h: "\<forall>t. agrees vs1 a t \<longrightarrow> (t d \<longrightarrow> (\<forall>f \<in> set subs. holds a f)) \<longrightarrow> clauses_hold t cs0"
      using cnfGuard_flat [OF d0(2) flat dp] by blast
    have "grows a vs vs1 (\<lambda>t. clauses_hold t cs0 \<and> (holds a f \<longrightarrow> ntrue t d))"
      by (rule grows_trans [OF gd g]) (use h dp in \<open>auto simp: upTo_def ntrue_def 2\<close>)
    moreover have "small vs1 [d]" using dp grows_inv(2) [OF g] by (simp add: small_def extends_def)
    ultimately show ?thesis using c dm by (intro that [of cs0 d vs1]) (simp_all add: 2)
  qed
  obtain cs ns vs2 where r: "cnfOr (res @ cs0) (ls @ [n]) fs vs1 = Some ((res @ cs0) @ cs @ [(ls @ [n]) @ ns], vs2)"
    "\<forall>c \<in> set cs. small vs2 c" "small vs2 ns"
    and g2: "grows a vs1 vs2 (\<lambda>t. clauses_hold t cs \<and> ((\<exists>f \<in> set fs. holds a f) \<longrightarrow> (\<exists>n \<in> set ns. ntrue t n)))"
    using Cons.IH [OF grows_inv(1) [OF g1] p, of "res @ cs0" "ls @ [n]"] by blast
  have "cnfOr res ls (f # fs) vs = Some (res @ (cs0 @ cs) @ [ls @ (n # ns)], vs2)"
    using r(1) st by simp
  moreover have "\<forall>c \<in> set (cs0 @ cs). small vs2 c"
    using r(2) sm small_extends [OF _ grows_inv(2) [OF g2]] by auto
  moreover have "small vs2 (n # ns)"
    using small_extends [OF sm(2) grows_inv(2) [OF g2]] r(3) by (simp add: small_def)
  moreover have "grows a vs vs2 (\<lambda>t. clauses_hold t (cs0 @ cs) \<and>
      ((\<exists>f \<in> set (f # fs). holds a f) \<longrightarrow> (\<exists>n \<in> set (n # ns). ntrue t n)))"
    by (rule grows_trans [OF g1 g2]) (use small_hold [OF sm(1)] small_ntrue [OF sm(2)] in auto)
  ultimately show ?case by blast
qed

text \<open>Every shallow formula.\<close>

lemma cnfRec_shallow:
  "vars_inv vs \<Longrightarrow> shallow f \<Longrightarrow> unreserved f \<Longrightarrow>
   \<exists>cs vs'. cnfRec f vs = Some (cs, vs') \<and> (\<forall>c \<in> set cs. small vs' c)
     \<and> grows a vs vs' (\<lambda>t. holds a f \<longrightarrow> clauses_hold t cs)"
proof (induction f arbitrary: vs)
  case (FLit v sg)
  then show ?case
    using cnfRec_flat [of vs "FLit v sg" a] by (fastforce elim: grows_mono)
next
  case (FOr fs)
  then obtain cs ns vs' where "cnfOr [] [] fs vs = Some ([] @ cs @ [[] @ ns], vs')" "\<forall>c \<in> set cs. small vs' c"
     "small vs' ns"
     "grows a vs vs' (\<lambda>t. clauses_hold t cs \<and> ((\<exists>f \<in> set fs. holds a f) \<longrightarrow> (\<exists>n \<in> set ns. ntrue t n)))"
    using cnfOr_shallow [of vs fs "[]" "[]" a] by auto
  then show ?case
    by (intro exI [of _ "cs @ [ns]"] exI [of _ vs']) (auto elim: grows_mono)
next
  case (FAnd fs)
  have "\<exists>cs vs'. cnfAnd res fs vs = Some (res @ cs, vs') \<and> (\<forall>c \<in> set cs. small vs' c)
     \<and> grows a vs vs' (\<lambda>t. (\<forall>f \<in> set fs. holds a f) \<longrightarrow> clauses_hold t cs)" for res
    using FAnd
  proof (induction fs arbitrary: res vs)
    case Nil
    then show ?case by (intro exI [of _ "[]"] exI [of _ vs]) (auto intro: grows_refl)
  next
    case (Cons f fs)
    obtain cs vs1 where c: "cnfRec f vs = Some (cs, vs1)" "\<forall>c \<in> set cs. small vs1 c"
      and g1: "grows a vs vs1 (\<lambda>t. holds a f \<longrightarrow> clauses_hold t cs)"
      using Cons.prems(1) [of f vs] Cons.prems(2-4) by auto
    obtain ds vs2 where d: "cnfAnd (res @ cs) fs vs1 = Some ((res @ cs) @ ds, vs2)" "\<forall>c \<in> set ds. small vs2 c"
      and g2: "grows a vs1 vs2 (\<lambda>t. (\<forall>f \<in> set fs. holds a f) \<longrightarrow> clauses_hold t ds)"
      using Cons.IH [of vs1 "res @ cs"] Cons.prems grows_inv(1) [OF g1] by auto
    have "grows a vs vs2 (\<lambda>t. (\<forall>f \<in> set (f # fs). holds a f) \<longrightarrow> clauses_hold t (cs @ ds))"
      by (rule grows_trans [OF g1 g2]) (use small_hold [OF c(2)] in auto)
    moreover have "\<forall>c \<in> set (cs @ ds). small vs2 c"
      using c(2) d(2) small_extends [OF _ grows_inv(2) [OF g2]] by auto
    ultimately show ?case
      using c(1) d(1) by (intro exI [of _ "cs @ ds"] exI [of _ vs2]) simp
  qed
  from this [of "[]"] show ?case by simp
qed (auto simp: small_def intro: grows_refl)

lemma asCnf_complete:
  assumes "unreserved f" and "shallow (nnf f)"
  shows "wp (asCnf f) (\<lambda>(cs, vs). \<forall>a. holds a (nnf f)
    \<longleftrightarrow> (\<exists>s. clauses_hold s cs \<and> (\<forall>v \<in> fvars (nnf f). decode vs s v = a v)))"
proof -
  have u: "unreserved (nnf f)" using assms nnf_fvars by (auto simp: unreserved_def)
  obtain cs vs where c: "asCnf f = Some (cs, vs)"
    using cnfRec_shallow [OF vars_inv_empty assms(2) u, of "\<lambda>_. True"] by (auto simp: asCnf_def)
  have sound: "fvars (nnf f) \<subseteq> dom (map_of (v_pb vs)) \<and> (\<forall>s. clauses_hold s cs \<longrightarrow> holds (decode vs s) (nnf f))"
  proof -
    consider "nnf f = TrueConst" | "nnf f = FalseConst" | "nnf_part (nnf f)"
      using nnf_is_nnf [of f] by (auto simp: is_nnf_def nnf_part_def)
    then show ?thesis
    proof cases
      case 3
      from sound_post_cnfRec(1) [OF vars_inv_empty this u] show ?thesis
        using c by (auto simp: asCnf_def sound_post_def)
    qed (use c in \<open>auto simp: asCnf_def\<close>)
  qed
  have "\<exists>s. clauses_hold s cs \<and> (\<forall>v \<in> fvars (nnf f). decode vs s v = a v)" if a: "holds a (nnf f)" for a
  proof -
    have "cnfRec (nnf f) \<lparr>v_all = [], v_pb = []\<rparr> = Some (cs, vs)" using c by (simp add: asCnf_def)
    moreover obtain cs' vs' where "cnfRec (nnf f) \<lparr>v_all = [], v_pb = []\<rparr> = Some (cs', vs')"
      "grows a \<lparr>v_all = [], v_pb = []\<rparr> vs' (\<lambda>t. holds a (nnf f) \<longrightarrow> clauses_hold t cs')"
      using cnfRec_shallow [OF vars_inv_empty assms(2) u, of a] by blast
    ultimately have "grows a \<lparr>v_all = [], v_pb = []\<rparr> vs (\<lambda>t. holds a (nnf f) \<longrightarrow> clauses_hold t cs)" by simp
    moreover have "agrees \<lparr>v_all = [], v_pb = []\<rparr> a (\<lambda>k. False)" by (simp add: agrees_def)
    ultimately obtain s where s: "agrees vs a s" "clauses_hold s cs" using a by (auto simp: grows_def)
    have "decode vs s v = a v" if "v \<in> fvars (nnf f)" for v
    proof -
      from subsetD [OF conjunct1 [OF sound] that] obtain k where "map_of (v_pb vs) v = Some k" by auto
      then show ?thesis using s(1) by (simp add: decode_def agrees_def)
    qed
    then show ?thesis using s(2) by blast
  qed
  moreover have "holds a (nnf f)" if "clauses_hold s cs" "\<forall>v \<in> fvars (nnf f). decode vs s v = a v" for a s
    using holds_cong [of "nnf f" "decode vs s" a] sound that by simp
  ultimately show ?thesis using c by auto
qed

text \<open>
  C21. When every conjunction inside a disjunction of the normal form has only literals and
  disjunctions of literals as members, the conversion never panics and loses nothing: the assignments
  of the variables that satisfy the normal form are exactly those that the satisfying assignments of
  the clauses decode to. When the formula holds no constant and no empty conjunction or disjunction,
  the same is true of the formula itself.
\<close>

theorem asCnf_exact:
  assumes "unreserved f" and "shallow (nnf f)"
  shows "wp (asCnf f) (\<lambda>(cs, vs).
      (\<forall>a. holds a (nnf f) \<longleftrightarrow> (\<exists>s. clauses_hold s cs \<and> (\<forall>v \<in> fvars (nnf f). decode vs s v = a v)))
    \<and> (const_free f \<longrightarrow>
        (\<forall>a. holds a f \<longleftrightarrow> (\<exists>s. clauses_hold s cs \<and> (\<forall>v \<in> fvars f. decode vs s v = a v)))))"
  by (rule wp_mono [OF asCnf_complete [OF assms]]) (use nnf_solid in \<open>auto split: prod.splits\<close>)

theorem asCnf_exact_witness:
  "wp (asCnf (FOr [Var ''a'', FAnd [Var ''b'', FOr [Var ''c'', Var ''d'']]])) (\<lambda>(cs, vs).
     \<forall>a. holds a (FOr [Var ''a'', FAnd [Var ''b'', FOr [Var ''c'', Var ''d'']]])
     \<longleftrightarrow> (\<exists>s. clauses_hold s cs
       \<and> (\<forall>v \<in> fvars (FOr [Var ''a'', FAnd [Var ''b'', FOr [Var ''c'', Var ''d'']]]). decode vs s v = a v)))"
proof -
  let ?f = "FOr [Var ''a'', FAnd [Var ''b'', FOr [Var ''c'', Var ''d'']]]"
  have "unreserved ?f" "shallow (nnf ?f)" "const_free ?f"
    by (simp_all add: Var_def pbVar_def reserved_def unreserved_def andSimp_def orSimp_def, auto)
  then show ?thesis by (intro wp_mono [OF asCnf_exact]) (auto simp only: split: prod.splits)
qed

definition deepFormula :: formula where
  "deepFormula = FAnd [FOr [Var ''a'', FAnd [FOr [Var ''c'', FAnd [Var ''d'', Var ''e'']], Var ''b'']],
     FNot (Var ''c''), FNot (Var ''e'')]"

text \<open>
  C32. Without that restriction the conversion loses models: only the first clause of the inner
  conjunction gets its guard, so \<open>(a | (b & (c | (d & e)))) & ^c & ^e\<close>, which \<open>a\<close> satisfies,
  becomes an unsatisfiable set of clauses.
\<close>

theorem asCnf_loses_models:
  "holds (\<lambda>v. vname v = ''a'') deepFormula
   \<and> wp (asCnf deepFormula) (\<lambda>(cs, vs). \<not> (\<exists>s. clauses_hold s cs))"
proof
  show "holds (\<lambda>v. vname v = ''a'') deepFormula"
    by (simp add: deepFormula_def Var_def pbVar_def)
  have "map_option fst (asCnf deepFormula)
      = Some [[5, - 4, - 2], [6, - 4], [3, 4], [7, - 2], [1, 2], [- 3], [- 6]]"
    by code_simp
  then obtain vs where "asCnf deepFormula
      = Some ([[5, - 4, - 2], [6, - 4], [3, 4], [7, - 2], [1, 2], [- 3], [- 6]], vs)"
    by auto
  then show "wp (asCnf deepFormula) (\<lambda>(cs, vs). \<not> (\<exists>s. clauses_hold s cs))"
    by (auto simp: ntrue_def)
qed

end
