(* ===== verification/Queue.thy ===== *)
theory Queue
  imports Prelude
begin

text \<open>
  The variable queue (\<open>solver/queue.go\<close>): a binary heap in a slice, with the position of every
  element in a second slice, ordered by the activities of the variables, highest first. The code
  compares \<open>float64\<close> activities only; any linear order does here. A Go function that changes the
  receiver returns the changed queue.
\<close>

section \<open>Model\<close>

record 'a queue =
  activity :: "'a list"
  content :: "nat list"
  indices :: "int list"

definition lt :: "('a::linorder) queue \<Rightarrow> nat \<Rightarrow> nat \<Rightarrow> bool option" where
  "lt q i j = do { a \<leftarrow> get (activity q) i; b \<leftarrow> get (activity q) j; Some (a > b) }"

definition left :: "nat \<Rightarrow> nat" where
  "left i = i * 2 + 1"

definition right :: "nat \<Rightarrow> nat" where
  "right i = (i + 1) * 2"

text \<open>The code shifts \<open>i - 1\<close> to the right; it never uses the result for the root.\<close>

definition parent :: "nat \<Rightarrow> nat" where
  "parent i = drop_bit 1 (i - 1)"

lemma parent_div: "parent i = (i - 1) div 2"
  by (simp add: parent_def drop_bit_eq_div)

text \<open>The loop of \<open>percolateUp\<close> that moves the hole at \<open>i\<close> towards the root.\<close>

function upLoop :: "('a::linorder) queue \<Rightarrow> nat \<Rightarrow> nat \<Rightarrow> ('a queue \<times> nat) option" where
  "upLoop q x i =
     (if i = 0 then Some (q, i)
      else do {
        y \<leftarrow> get (content q) (parent i);
        b \<leftarrow> lt q x y;
        if b then do {
          c \<leftarrow> put (content q) i y;
          ind \<leftarrow> put (indices q) y (int i);
          upLoop (q\<lparr>content := c, indices := ind\<rparr>) x (parent i) }
        else Some (q, i) })"
  by pat_completeness auto
termination
  by (relation "measure (\<lambda>(q, x, i). i)") (auto simp: parent_div)

declare upLoop.simps [simp del]

definition percolateUp :: "('a::linorder) queue \<Rightarrow> nat \<Rightarrow> 'a queue option" where
  "percolateUp q i = do {
     x \<leftarrow> get (content q) i;
     (q, i) \<leftarrow> upLoop q x i;
     c \<leftarrow> put (content q) i x;
     ind \<leftarrow> put (indices q) x (int i);
     Some (q\<lparr>content := c, indices := ind\<rparr>) }"

text \<open>The child that the loop of \<open>percolateDown\<close> compares with.\<close>

definition child :: "('a::linorder) queue \<Rightarrow> nat \<Rightarrow> nat option" where
  "child q i =
     (if right i < length (content q) then do {
        r \<leftarrow> get (content q) (right i);
        l \<leftarrow> get (content q) (left i);
        b \<leftarrow> lt q r l;
        Some (if b then right i else left i) }
      else Some (left i))"

lemma child_cases: "child q i = Some c \<Longrightarrow> c = left i \<or> c = right i \<and> right i < length (content q)"
  by (auto simp: child_def bind_eq_Some_conv split: if_splits)

function downLoop :: "('a::linorder) queue \<Rightarrow> nat \<Rightarrow> nat \<Rightarrow> ('a queue \<times> nat) option" where
  "downLoop q x i =
     (if left i < length (content q) then do {
        ch \<leftarrow> child q i;
        y \<leftarrow> get (content q) ch;
        b \<leftarrow> lt q y x;
        if \<not> b then Some (q, i)
        else do {
          c \<leftarrow> put (content q) i y;
          ind \<leftarrow> put (indices q) y (int i);
          downLoop (q\<lparr>content := c, indices := ind\<rparr>) x ch } }
      else Some (q, i))"
  by pat_completeness auto
termination
  by (relation "measure (\<lambda>(q, x, i). length (content q) - i)")
    (auto simp: put_def left_def right_def split: if_splits dest!: child_cases)

declare downLoop.simps [simp del]

definition percolateDown :: "('a::linorder) queue \<Rightarrow> nat \<Rightarrow> 'a queue option" where
  "percolateDown q i = do {
     x \<leftarrow> get (content q) i;
     (q, i) \<leftarrow> downLoop q x i;
     c \<leftarrow> put (content q) i x;
     ind \<leftarrow> put (indices q) x (int i);
     Some (q\<lparr>content := c, indices := ind\<rparr>) }"

definition q_empty :: "'a queue \<Rightarrow> bool" where
  "q_empty q \<longleftrightarrow> length (content q) = 0"

definition q_contains :: "'a queue \<Rightarrow> nat \<Rightarrow> bool" where
  "q_contains q n \<longleftrightarrow> n < length (indices q) \<and> indices q ! n \<ge> 0"

text \<open>\<open>q.indices[n]\<close> is \<open>-1\<close> for an absent element, which makes \<open>percolateUp\<close> panic.\<close>

definition decrease :: "('a::linorder) queue \<Rightarrow> nat \<Rightarrow> 'a queue option" where
  "decrease q n = do {
     i \<leftarrow> get (indices q) n;
     if i < 0 then None else percolateUp q (nat i) }"

text \<open>The loop of \<open>insert\<close> that extends the positions up to \<open>n\<close>.\<close>

definition padIndices :: "int list \<Rightarrow> nat \<Rightarrow> int list" where
  "padIndices ind n = ind @ replicate (n + 1 - length ind) (- 1)"

definition q_insert :: "('a::linorder) queue \<Rightarrow> nat \<Rightarrow> 'a queue option" where
  "q_insert q n =
     (let ind = padIndices (indices q) n in do {
        ind \<leftarrow> put ind n (int (length (content q)));
        percolateUp (q\<lparr>content := content q @ [n], indices := ind\<rparr>) (length (content q)) })"

definition removeMin :: "('a::linorder) queue \<Rightarrow> (nat \<times> 'a queue) option" where
  "removeMin q = do {
     x \<leftarrow> get (content q) 0;
     y \<leftarrow> get (content q) (length (content q) - 1);
     c \<leftarrow> put (content q) 0 y;
     ind \<leftarrow> put (indices q) y 0;
     ind \<leftarrow> put ind x (- 1);
     let q = q\<lparr>content := take (length c - 1) c, indices := ind\<rparr>;
     q \<leftarrow> (if length (content q) > 1 then percolateDown q 0 else Some q);
     Some (x, q) }"

text \<open>The three loops of \<open>build\<close>.\<close>

fun clearIndices :: "int list \<Rightarrow> nat list \<Rightarrow> int list option" where
  "clearIndices ind [] = Some ind"
| "clearIndices ind (v # vs) = do { ind \<leftarrow> put ind v (- 1); clearIndices ind vs }"

fun setIndices :: "int list \<Rightarrow> nat \<Rightarrow> nat list \<Rightarrow> int list option" where
  "setIndices ind i [] = Some ind"
| "setIndices ind i (v # vs) = do { ind \<leftarrow> put ind v (int i); setIndices ind (Suc i) vs }"

fun buildLoop :: "('a::linorder) queue \<Rightarrow> nat \<Rightarrow> 'a queue option" where
  "buildLoop q 0 = Some q"
| "buildLoop q (Suc i) = do { q \<leftarrow> percolateDown q i; buildLoop q i }"

definition q_build :: "('a::linorder) queue \<Rightarrow> nat list \<Rightarrow> 'a queue option" where
  "q_build q ns = do {
     ind \<leftarrow> clearIndices (indices q) (content q);
     ind \<leftarrow> setIndices ind 0 ns;
     buildLoop (q\<lparr>content := ns, indices := ind\<rparr>) (length ns div 2) }"

fun insertAll :: "('a::linorder) queue \<Rightarrow> nat list \<Rightarrow> 'a queue option" where
  "insertAll q [] = Some q"
| "insertAll q (n # ns) = do { q \<leftarrow> q_insert q n; insertAll q ns }"

definition newQueue :: "('a::linorder) list \<Rightarrow> 'a queue option" where
  "newQueue acts = insertAll \<lparr>activity = acts, content = [], indices = []\<rparr> [0..<length acts]"

section \<open>Exchanging two elements\<close>

definition exch :: "'a list \<Rightarrow> nat \<Rightarrow> nat \<Rightarrow> 'a list" where
  "exch h i j = h[i := h ! j, j := h ! i]"

lemma length_exch [simp]: "length (exch h i j) = length h"
  by (simp add: exch_def)

lemma nth_exch:
  "i < length h \<Longrightarrow> j < length h \<Longrightarrow> k < length h
   \<Longrightarrow> exch h i j ! k = (if k = j then h ! i else if k = i then h ! j else h ! k)"
  by (auto simp: exch_def nth_list_update)

lemma mset_exch [simp]: "i < length h \<Longrightarrow> j < length h \<Longrightarrow> mset (exch h i j) = mset h"
  by (simp add: exch_def mset_swap)

text \<open>
  The loops keep a hole: the logical content is the slice with the moving element put into the
  hole, and one step of a loop exchanges two elements of it.
\<close>

lemma hole_exch:
  "i < length c \<Longrightarrow> p < length c \<Longrightarrow> p \<noteq> i \<Longrightarrow> c[i := c ! p, p := x] = exch (c[i := x]) i p"
  by (rule nth_equalityI) (auto simp: exch_def nth_list_update)

section \<open>Positions\<close>

text \<open>
  \<open>located\<close>: all elements have an activity and a position slot, and a recorded position is right.
  This is all that holds when an element is in the slice more than once. \<open>exact\<close>: every element
  has its position recorded, so there are no duplicates.
\<close>

definition located :: "nat \<Rightarrow> nat list \<Rightarrow> int list \<Rightarrow> bool" where
  "located n h ind \<longleftrightarrow> (\<forall>v \<in> set h. v < n \<and> v < length ind)
     \<and> (\<forall>v < length ind. ind ! v \<ge> 0 \<longrightarrow> nat (ind ! v) < length h \<and> h ! nat (ind ! v) = v)"

definition exact :: "nat list \<Rightarrow> int list \<Rightarrow> bool" where
  "exact h ind \<longleftrightarrow> distinct h \<and> (\<forall>v \<in> set h. ind ! v \<ge> 0)"

lemma located_member: "located n h ind \<Longrightarrow> v < length ind \<Longrightarrow> ind ! v \<ge> 0 \<Longrightarrow> v \<in> set h"
  unfolding located_def by (metis nth_mem)

lemma located_exch:
  assumes "located n (c[i := x]) (ind[x := int i])" "i < length c" "p < length c" "p \<noteq> i"
    and "c ! p \<noteq> x"
  shows "located n (c[i := c ! p, p := x]) (ind[c ! p := int i, x := int p])"
proof -
  have "x \<in> set (c[i := x])" "c ! p \<in> set (c[i := x])"
    using assms(2-4) by (auto simp: set_conv_nth nth_list_update intro: exI [of _ i] exI [of _ p])
  then have b: "x < length ind" "c ! p < length ind" using assms(1) by (auto simp: located_def)
  have s: "set (c[i := c ! p, p := x]) = set (c[i := x])"
    using assms(2-4) by (metis hole_exch length_list_update mset_exch set_mset_mset)
  have "nat (ind[c ! p := int i, x := int p] ! v) < length (c[i := c ! p, p := x])
        \<and> c[i := c ! p, p := x] ! nat (ind[c ! p := int i, x := int p] ! v) = v"
    if v: "v < length ind" and pos: "ind[c ! p := int i, x := int p] ! v \<ge> 0" for v
  proof (cases "v = x \<or> v = c ! p")
    case True
    then show ?thesis using assms(2-5) b by (auto simp: nth_list_update)
  next
    case False
    then have "ind ! v \<ge> 0" using pos by (simp add: nth_list_update)
    then have "nat (ind ! v) < length c" "c[i := x] ! nat (ind ! v) = v"
      using assms(1) v False by (auto simp: located_def nth_list_update)
    then show ?thesis using False assms(2-4) by (auto simp: nth_list_update split: if_splits)
  qed
  then show ?thesis using assms(1) s by (auto simp: located_def)
qed

lemma exact_exch:
  assumes "exact (c[i := x]) (ind[x := int i])" "i < length c" "p < length c" "p \<noteq> i"
    and "located n (c[i := x]) (ind[x := int i])"
  shows "exact (c[i := c ! p, p := x]) (ind[c ! p := int i, x := int p])"
proof -
  have "mset (c[i := c ! p, p := x]) = mset (c[i := x])"
    using assms(2-4) by (simp add: hole_exch)
  then have s: "set (c[i := c ! p, p := x]) = set (c[i := x])"
    and d: "distinct (c[i := c ! p, p := x]) = distinct (c[i := x])"
    by (metis set_mset_mset, metis mset_eq_imp_distinct_iff)
  have "ind[c ! p := int i, x := int p] ! v \<ge> 0" if "v \<in> set (c[i := x])" for v
  proof -
    have "v < length ind" "ind[x := int i] ! v \<ge> 0"
      using that assms(1,5) by (auto simp: exact_def located_def)
    then show ?thesis by (cases "x = v"; cases "c ! p = v") simp_all
  qed
  then show ?thesis using assms(1) s d by (simp add: exact_def)
qed

section \<open>Heap order\<close>

text \<open>
  \<open>heap_from k m h\<close>: no element below an index from \<open>m\<close> on has a higher priority than its parent.
  \<open>heap_hole k m i h\<close> is the invariant of \<open>percolateDown\<close>, \<open>heap_up k i h\<close> that of
  \<open>percolateUp\<close>, where \<open>i\<close> is the index of the moving element.
\<close>

definition heap_from :: "(nat \<Rightarrow> 'a::linorder) \<Rightarrow> nat \<Rightarrow> nat list \<Rightarrow> bool" where
  "heap_from k m h \<longleftrightarrow> (\<forall>j. 0 < j \<and> j < length h \<and> m \<le> parent j \<longrightarrow> k (h ! j) \<le> k (h ! parent j))"

definition heap_hole :: "(nat \<Rightarrow> 'a::linorder) \<Rightarrow> nat \<Rightarrow> nat \<Rightarrow> nat list \<Rightarrow> bool" where
  "heap_hole k m i h \<longleftrightarrow> (\<forall>j. 0 < j \<and> j < length h \<and> m \<le> parent j \<and> parent j \<noteq> i
       \<longrightarrow> k (h ! j) \<le> k (h ! parent j))
     \<and> (\<forall>j. 0 < j \<and> j < length h \<and> parent j = i \<and> 0 < i \<and> m \<le> parent i \<longrightarrow> k (h ! j) \<le> k (h ! parent i))"

definition heap_up :: "(nat \<Rightarrow> 'a::linorder) \<Rightarrow> nat \<Rightarrow> nat list \<Rightarrow> bool" where
  "heap_up k i h \<longleftrightarrow> (\<forall>j. 0 < j \<and> j < length h \<and> j \<noteq> i \<longrightarrow> k (h ! j) \<le> k (h ! parent j))
     \<and> (\<forall>j. 0 < j \<and> j < length h \<and> parent j = i \<and> 0 < i \<longrightarrow> k (h ! j) \<le> k (h ! parent i))"

lemma parent_less: "0 < i \<Longrightarrow> parent i < i"
  by (auto simp: parent_div)

lemma parent_child: "0 < j \<Longrightarrow> parent j = i \<longleftrightarrow> j = left i \<or> j = right i"
  by (auto simp: parent_div left_def right_def)

lemma parent_left [simp]: "parent (left i) = i" and parent_right [simp]: "parent (right i) = i"
  by (auto simp: parent_div left_def right_def)

lemma heap_up_done:
  assumes "heap_up k i h" and "0 < i \<longrightarrow> k (h ! i) \<le> k (h ! parent i)"
  shows "heap_from k 0 h"
  using assms unfolding heap_up_def heap_from_def by blast

lemma heap_up_exch:
  assumes h: "heap_up k i h" and i: "0 < i" "i < length h" and less: "k (h ! parent i) \<le> k (h ! i)"
  shows "heap_up k (parent i) (exch h i (parent i))"
proof -
  let ?p = "parent i" and ?h = "exch h i (parent i)"
  have p: "?p < i" "?p < length h" using parent_less [OF i(1)] i(2) by auto
  have order: "k (h ! j) \<le> k (h ! parent j)" if "0 < j" "j < length h" "j \<noteq> i" for j
    using h that by (simp add: heap_up_def)
  have "k (?h ! j) \<le> k (?h ! parent j)" if j: "0 < j" "j < length h" "j \<noteq> ?p" for j
  proof -
    have pj: "parent j < length h" using parent_less [OF j(1)] j(2) by simp
    consider "j = i" | "j \<noteq> i" "parent j = i" | "j \<noteq> i" "parent j = ?p" | "j \<noteq> i" "parent j \<noteq> i" "parent j \<noteq> ?p"
      by blast
    then show ?thesis
    proof cases
      case 1
      then show ?thesis using p i less by (simp add: nth_exch)
    next
      case 2
      then have "k (h ! j) \<le> k (h ! ?p)" using h i(1) j by (simp add: heap_up_def)
      then show ?thesis using 2 j p i pj by (simp add: nth_exch)
    next
      case 3
      then have "k (h ! j) \<le> k (h ! i)" using order [OF j(1,2)] less by fastforce
      then show ?thesis using 3 j p i pj by (simp add: nth_exch)
    next
      case 4
      then show ?thesis using order [OF j(1,2)] j p i pj by (simp add: nth_exch)
    qed
  qed
  moreover have "k (?h ! j) \<le> k (?h ! parent ?p)" if j: "0 < j" "j < length h" "parent j = ?p" "0 < ?p" for j
  proof -
    have pp: "parent ?p < length h" "parent ?p \<noteq> i" "parent ?p \<noteq> ?p"
      using parent_less [OF j(4)] p by auto
    have up: "k (h ! ?p) \<le> k (h ! parent ?p)" using order [OF j(4) p(2)] p(1) by simp
    have "j \<noteq> ?p" using parent_less [OF j(1)] j(3) by auto
    show ?thesis
    proof (cases "j = i")
      case True
      then show ?thesis using pp up p i by (simp add: nth_exch)
    next
      case False
      have "k (h ! j) \<le> k (h ! parent ?p)" using order [OF j(1,2) False] j(3) up by simp
      then show ?thesis using False \<open>j \<noteq> ?p\<close> pp p i j by (simp add: nth_exch)
    qed
  qed
  ultimately show ?thesis by (simp add: heap_up_def)
qed

lemma heap_hole_done:
  assumes "heap_hole k m i h" and "\<forall>j. 0 < j \<and> j < length h \<and> parent j = i \<longrightarrow> k (h ! j) \<le> k (h ! i)"
  shows "heap_from k m h"
  using assms unfolding heap_hole_def heap_from_def by metis

lemma heap_hole_exch:
  assumes h: "heap_hole k m i h" and c: "c < length h" "0 < c" "parent c = i" and m: "m \<le> i"
    and best: "\<forall>j. 0 < j \<and> j < length h \<and> parent j = i \<longrightarrow> k (h ! j) \<le> k (h ! c)"
    and less: "k (h ! i) \<le> k (h ! c)"
  shows "heap_hole k m c (exch h i c)"
proof -
  let ?h = "exch h i c"
  have i: "i < c" "i < length h" using parent_less [OF c(2)] c by auto
  have order: "k (h ! j) \<le> k (h ! parent j)" if "0 < j" "j < length h" "m \<le> parent j" "parent j \<noteq> i" for j
    using h that by (simp add: heap_hole_def)
  have "k (?h ! j) \<le> k (?h ! parent j)"
    if j: "0 < j" "j < length h" "m \<le> parent j" "parent j \<noteq> c" for j
  proof -
    have pj: "parent j < length h" "parent j \<noteq> j" using parent_less [OF j(1)] j(2) by auto
    consider "j = i" | "j = c" | "j \<noteq> i" "j \<noteq> c" "parent j = i" | "j \<noteq> i" "j \<noteq> c" "parent j \<noteq> i"
      by blast
    then show ?thesis
    proof cases
      case 1
      then have "k (h ! c) \<le> k (h ! parent i)" using h c j by (simp add: heap_hole_def)
      then show ?thesis using 1 i c pj j by (simp add: nth_exch)
    next
      case 2
      then show ?thesis using less i c pj j by (simp add: nth_exch)
    next
      case 3
      then show ?thesis using best i c pj j by (simp add: nth_exch)
    next
      case 4
      then show ?thesis using order [OF j(1-3)] i c pj j by (simp add: nth_exch)
    qed
  qed
  moreover have "k (?h ! j) \<le> k (?h ! parent c)" if j: "0 < j" "j < length h" "parent j = c" for j
  proof -
    have "j \<noteq> c" "j \<noteq> i" using parent_less [OF j(1)] j(3) i(1) by auto
    moreover have "k (h ! j) \<le> k (h ! c)" using order [OF j(1,2)] j(3) i(1) m by simp
    ultimately show ?thesis using c i j by (simp add: nth_exch)
  qed
  ultimately show ?thesis by (simp add: heap_hole_def)
qed

lemma heap_root:
  assumes "heap_from k 0 h" and "j < length h"
  shows "k (h ! j) \<le> k (h ! 0)"
  using assms(2)
proof (induction j rule: less_induct)
  case (less j)
  show ?case
  proof (cases "j = 0")
    case False
    then have "k (h ! j) \<le> k (h ! parent j)" using assms(1) less.prems by (simp add: heap_from_def)
    also have "\<dots> \<le> k (h ! 0)" using less parent_less [of j] False by simp
    finally show ?thesis .
  qed simp
qed

section \<open>The two percolations\<close>

text \<open>
  \<open>loopPost q x i m q' i'\<close>: what both loops keep of the logical contents, where \<open>m\<close> is the
  heap property they establish.
\<close>

definition key :: "'a queue \<Rightarrow> nat \<Rightarrow> 'a" where
  "key q v = activity q ! v"

definition rearranged :: "'a queue \<Rightarrow> nat list \<Rightarrow> int list \<Rightarrow> nat list \<Rightarrow> int list \<Rightarrow> bool" where
  "rearranged q h ind h' ind' \<longleftrightarrow> mset h' = mset h \<and> length ind' = length ind
     \<and> located (length (activity q)) h' ind' \<and> (exact h ind \<longrightarrow> exact h' ind')"

lemma rearranged_trans:
  "rearranged q h ind h' ind' \<Longrightarrow> rearranged q h' ind' h'' ind'' \<Longrightarrow> rearranged q h ind h'' ind''"
  by (simp add: rearranged_def)

lemma rearranged_set:
  assumes "located (length (activity q)) h ind" and "i < length h"
  shows "rearranged q h ind h (ind[h ! i := int i])"
proof -
  have "h ! i < length ind" using assms by (simp add: located_def)
  then show ?thesis using assms
    by (auto simp: rearranged_def located_def exact_def nth_list_update)
qed

lemma rearranged_step:
  assumes "located (length (activity q)) (c[i := x]) (ind[x := int i])"
    and "i < length c" "p < length c" "p \<noteq> i" "c ! p \<noteq> x"
  shows "rearranged q (c[i := x]) (ind[x := int i])
           ((c[i := c ! p])[p := x]) ((ind[c ! p := int i])[x := int p])"
  using located_exch [OF assms] exact_exch [OF _ assms(2-4,1)] assms(2-4)
  by (simp add: rearranged_def hole_exch)

lemma hole_bounds:
  assumes "located (length (activity q)) ((content q)[i := x]) ((indices q)[x := int i])"
    and "i < length (content q)"
  shows "x < length (activity q)" "x < length (indices q)"
    and "p < length (content q) \<Longrightarrow> p \<noteq> i
         \<Longrightarrow> content q ! p < length (activity q) \<and> content q ! p < length (indices q)"
proof -
  have "x \<in> set ((content q)[i := x])" using assms(2) by (simp add: set_update_memI)
  then show "x < length (activity q)" "x < length (indices q)" using assms(1) by (simp_all add: located_def)
  assume p: "p < length (content q)" "p \<noteq> i"
  then have "(content q)[i := x] ! p \<in> set ((content q)[i := x])" by (intro nth_mem) simp
  then show "content q ! p < length (activity q) \<and> content q ! p < length (indices q)"
    using assms(1) p by (simp add: located_def)
qed

lemma upLoop_spec:
  assumes "i < length (content q)"
    and "located (length (activity q)) ((content q)[i := x]) ((indices q)[x := int i])"
  shows "wp (upLoop q x i) (\<lambda>(q', i'). i' < length (content q') \<and> activity q' = activity q
     \<and> length (content q') = length (content q)
     \<and> rearranged q ((content q)[i := x]) ((indices q)[x := int i]) ((content q')[i' := x]) ((indices q')[x := int i'])
     \<and> (heap_up (key q) i ((content q)[i := x]) \<longrightarrow> heap_from (key q) 0 ((content q')[i' := x])))"
  using assms
proof (induction q x i rule: upLoop.induct)
  case (1 q x i)
  note b = hole_bounds [OF "1.prems"(2,1)]
  show ?case
  proof (cases "i = 0")
    case True
    then have "upLoop q x i = Some (q, i)" using upLoop.simps [of q x i] by simp
    then show ?thesis using "1.prems" True by (simp add: rearranged_def heap_up_done)
  next
    case False
    then have p: "parent i < length (content q)" "parent i \<noteq> i"
      using parent_less [of i] "1.prems"(1) by auto
    note bp = b(3) [OF p]
    let ?y = "content q ! parent i"
    let ?q = "q\<lparr>content := (content q)[i := ?y], indices := (indices q)[?y := int i]\<rparr>"
    have lt: "lt q x ?y = Some (key q x > key q ?y)"
      using b bp by (simp add: lt_def key_def)
    show ?thesis
    proof (cases "key q x > key q ?y")
      case le: False
      have stop: "upLoop q x i = Some (q, i)" using False p lt le upLoop.simps [of q x i] by simp
      have "key q ((content q)[i := x] ! i) \<le> key q ((content q)[i := x] ! parent i)"
        using le p "1.prems"(1) by simp
      then show ?thesis using "1.prems" stop by (simp add: rearranged_def heap_up_done)
    next
      case True
      then have xy: "?y \<noteq> x" by auto
      note r = rearranged_step [OF "1.prems"(2,1) p xy]
      have IH: "wp (upLoop ?q x (parent i)) (\<lambda>(q', i'). i' < length (content q') \<and> activity q' = activity q
         \<and> length (content q') = length (content q)
         \<and> rearranged q ((content ?q)[parent i := x]) ((indices ?q)[x := int (parent i)])
              ((content q')[i' := x]) ((indices q')[x := int i'])
         \<and> (heap_up (key q) (parent i) ((content ?q)[parent i := x]) \<longrightarrow> heap_from (key q) 0 ((content q')[i' := x])))"
        using "1.IH" [OF False _ _ True, of ?y "(content q)[i := ?y]" "(indices q)[?y := int i]"]
          lt True p "1.prems"(1) bp r
        by (simp add: rearranged_def key_def [abs_def])
      have up: "heap_up (key q) (parent i) ((content ?q)[parent i := x])"
        if h: "heap_up (key q) i ((content q)[i := x])"
        using heap_up_exch [OF h] False "1.prems"(1) p True by (simp add: hole_exch)
      have "upLoop q x i = upLoop ?q x (parent i)"
        using False p lt True "1.prems"(1) bp by (simp add: upLoop.simps [of q x i])
      then show ?thesis using IH r up by (auto elim!: wp_mono intro: rearranged_trans)
    qed
  qed
qed

lemma percolateUp_spec:
  assumes "i < length (content q)" and "located (length (activity q)) (content q) (indices q)"
  shows "wp (percolateUp q i) (\<lambda>q'. activity q' = activity q
     \<and> rearranged q (content q) (indices q) (content q') (indices q')
     \<and> (heap_up (key q) i (content q) \<longrightarrow> heap_from (key q) 0 (content q')))"
proof -
  let ?x = "content q ! i"
  have r: "rearranged q (content q) (indices q) ((content q)[i := ?x]) ((indices q)[?x := int i])"
    using rearranged_set [OF assms(2,1)] by simp
  then have "located (length (activity q)) ((content q)[i := ?x]) ((indices q)[?x := int i])"
    by (simp add: rearranged_def)
  note up = upLoop_spec [OF assms(1) this]
  have "?x < length (indices q)" using assms by (simp add: located_def)
  then show ?thesis using assms(1) r
    by (auto simp: percolateUp_def rearranged_def intro!: wp_mono [OF up])
qed

lemma child_spec:
  assumes "left i < length (content q)"
    and "\<And>j. j < length (content q) \<Longrightarrow> j \<noteq> i \<Longrightarrow> content q ! j < length (activity q)"
  obtains c where "child q i = Some c" "i < c" "c < length (content q)" "0 < c" "parent c = i"
    and "\<forall>j. 0 < j \<and> j < length (content q) \<and> parent j = i
           \<longrightarrow> key q (content q ! j) \<le> key q (content q ! c)"
proof -
  have less: "i < left i" "i < right i" by (auto simp: left_def right_def)
  have kids: "j = left i \<or> j = right i" if "0 < j" "parent j = i" for j
    using parent_child [OF that(1)] that(2) by blast
  show thesis
  proof (cases "right i < length (content q)")
    case True
    let ?b = "key q (content q ! right i) > key q (content q ! left i)"
    have "lt q (content q ! right i) (content q ! left i) = Some ?b"
      using assms True less by (simp add: lt_def key_def)
    then have c: "child q i = Some (if ?b then right i else left i)"
      using True assms(1) by (simp add: child_def)
    show thesis
    proof (rule that [OF c])
      show "\<forall>j. 0 < j \<and> j < length (content q) \<and> parent j = i
         \<longrightarrow> key q (content q ! j) \<le> key q (content q ! (if ?b then right i else left i))"
        by (auto dest!: kids)
    qed (use True assms(1) less in auto)
  next
    case False
    then show thesis using assms(1) less
      by (intro that [of "left i"]) (auto simp: child_def dest!: kids)
  qed
qed

lemma downLoop_spec:
  assumes "i < length (content q)" and "m \<le> i"
    and "located (length (activity q)) ((content q)[i := x]) ((indices q)[x := int i])"
  shows "wp (downLoop q x i) (\<lambda>(q', i'). i' < length (content q') \<and> activity q' = activity q
     \<and> length (content q') = length (content q)
     \<and> rearranged q ((content q)[i := x]) ((indices q)[x := int i]) ((content q')[i' := x]) ((indices q')[x := int i'])
     \<and> (heap_hole (key q) m i ((content q)[i := x]) \<longrightarrow> heap_from (key q) m ((content q')[i' := x])))"
  using assms
proof (induction q x i rule: downLoop.induct)
  case (1 q x i)
  let ?h = "(content q)[i := x]"
  note b = hole_bounds [OF "1.prems"(3,1)]
  show ?case
  proof (cases "left i < length (content q)")
    case False
    then have stop: "downLoop q x i = Some (q, i)" using downLoop.simps [of q x i] by simp
    have "\<not> (0 < j \<and> j < length (content q) \<and> parent j = i)" for j
      using False parent_child [of j i] by (auto simp: left_def right_def)
    then have "heap_hole (key q) m i ?h \<Longrightarrow> heap_from (key q) m ?h"
      by (rule_tac heap_hole_done) auto
    then show ?thesis using "1.prems" stop by (simp add: rearranged_def)
  next
    case True
    have "\<And>j. j < length (content q) \<Longrightarrow> j \<noteq> i \<Longrightarrow> content q ! j < length (activity q)"
      using b(3) by blast
    then obtain c where c: "child q i = Some c" "i < c" "c < length (content q)" "0 < c" "parent c = i"
      and best: "\<forall>j. 0 < j \<and> j < length (content q) \<and> parent j = i
           \<longrightarrow> key q (content q ! j) \<le> key q (content q ! c)"
      using child_spec [OF True] by blast
    have ci: "c \<noteq> i" using c(2) by simp
    note bp = b(3) [OF c(3) ci]
    have best_h: "\<forall>j. 0 < j \<and> j < length ?h \<and> parent j = i \<longrightarrow> key q (?h ! j) \<le> key q (?h ! c)"
    proof (intro allI impI)
      fix j assume j: "0 < j \<and> j < length ?h \<and> parent j = i"
      then have "j \<noteq> i" using parent_less [of j] by auto
      then show "key q (?h ! j) \<le> key q (?h ! c)" using best j ci by simp
    qed
    let ?y = "content q ! c"
    let ?q = "q\<lparr>content := (content q)[i := ?y], indices := (indices q)[?y := int i]\<rparr>"
    have lt: "lt q ?y x = Some (key q ?y > key q x)"
      using b bp by (simp add: lt_def key_def)
    show ?thesis
    proof (cases "key q ?y > key q x")
      case False
      then have stop: "downLoop q x i = Some (q, i)"
        using downLoop.simps [of q x i] True c lt by simp
      have "heap_from (key q) m ?h" if h: "heap_hole (key q) m i ?h"
      proof (rule heap_hole_done [OF h])
        have ci_le: "key q (?h ! c) \<le> key q (?h ! i)" using False c "1.prems"(1) ci by simp
        show "\<forall>j. 0 < j \<and> j < length ?h \<and> parent j = i \<longrightarrow> key q (?h ! j) \<le> key q (?h ! i)"
          by (intro allI impI) (rule order_trans [OF best_h [rule_format] ci_le])
      qed
      then show ?thesis using "1.prems" stop by (simp add: rearranged_def)
    next
      case less: True
      then have xy: "?y \<noteq> x" by auto
      note r = rearranged_step [OF "1.prems"(3,1) c(3) ci xy]
      have IH: "wp (downLoop ?q x c) (\<lambda>(q', i'). i' < length (content q') \<and> activity q' = activity q
         \<and> length (content q') = length (content q)
         \<and> rearranged q ((content ?q)[c := x]) ((indices ?q)[x := int c])
              ((content q')[i' := x]) ((indices q')[x := int i'])
         \<and> (heap_hole (key q) m c ((content ?q)[c := x]) \<longrightarrow> heap_from (key q) m ((content q')[i' := x])))"
        using "1.IH" [OF True c(1), of ?y True "(content q)[i := ?y]" "(indices q)[?y := int i]"]
          lt less c "1.prems"(1,2) bp r
        by (simp add: rearranged_def key_def [abs_def])
      have hole: "heap_hole (key q) m c ((content ?q)[c := x])" if h: "heap_hole (key q) m i ?h"
        using heap_hole_exch [OF h _ c(4,5) "1.prems"(2) best_h] c(3) ci "1.prems"(1) less
        by (simp add: hole_exch)
      have "downLoop q x i = downLoop ?q x c"
        using downLoop.simps [of q x i] True c lt less "1.prems"(1) bp by simp
      then show ?thesis using IH r hole by (auto elim!: wp_mono intro: rearranged_trans)
    qed
  qed
qed

lemma percolateDown_spec:
  assumes "i < length (content q)" and "located (length (activity q)) (content q) (indices q)"
  shows "wp (percolateDown q i) (\<lambda>q'. activity q' = activity q
     \<and> rearranged q (content q) (indices q) (content q') (indices q')
     \<and> (heap_from (key q) (Suc i) (content q) \<longrightarrow> heap_from (key q) i (content q')))"
proof -
  let ?x = "content q ! i"
  have r: "rearranged q (content q) (indices q) ((content q)[i := ?x]) ((indices q)[?x := int i])"
    using rearranged_set [OF assms(2,1)] by simp
  then have "located (length (activity q)) ((content q)[i := ?x]) ((indices q)[?x := int i])"
    by (simp add: rearranged_def)
  note down = downLoop_spec [OF assms(1) order_refl this]
  have hole: "heap_hole (key q) i i (content q)" if "heap_from (key q) (Suc i) (content q)"
    using that parent_less [of i] by (auto simp: heap_from_def heap_hole_def)
  have "?x < length (indices q)" using assms by (simp add: located_def)
  then show ?thesis using assms(1) r hole
    by (auto simp: percolateDown_def rearranged_def intro!: wp_mono [OF down])
qed

section \<open>The operations\<close>

text \<open>
  \<open>pool_ok\<close> holds whatever is inserted, duplicates included. \<open>queue_ok\<close> is the full invariant of
  the heap: no duplicates, every position recorded, priorities in heap order.
\<close>

definition pool_ok :: "('a::linorder) queue \<Rightarrow> bool" where
  "pool_ok q \<longleftrightarrow> located (length (activity q)) (content q) (indices q)"

definition queue_ok :: "('a::linorder) queue \<Rightarrow> bool" where
  "queue_ok q \<longleftrightarrow> pool_ok q \<and> exact (content q) (indices q) \<and> heap_from (key q) 0 (content q)"

lemma queue_pool: "queue_ok q \<Longrightarrow> pool_ok q"
  by (simp add: queue_ok_def)

lemma key_cong: "activity q' = activity q \<Longrightarrow> key q' = key q"
  by (simp add: key_def [abs_def])

lemma pad_located: "located n h ind \<Longrightarrow> located n h (padIndices ind v)"
  by (auto simp: located_def padIndices_def nth_append)

lemma heap_up_snoc:
  assumes "heap_from k 0 h"
  shows "heap_up k (length h) (h @ [v])"
proof -
  have "k ((h @ [v]) ! j) \<le> k ((h @ [v]) ! parent j)" if "0 < j" "j < length h" for j
    using assms that parent_less [of j] by (simp add: heap_from_def nth_append)
  moreover have "parent j \<noteq> length h" if "0 < j" "j < Suc (length h)" for j
    using parent_less [of j] that by simp
  ultimately show ?thesis by (auto simp: heap_up_def less_Suc_eq)
qed

lemma contains_member: "pool_ok q \<Longrightarrow> q_contains q n \<Longrightarrow> n \<in> set (content q)"
  by (auto simp: pool_ok_def q_contains_def intro: located_member)

lemma queue_contains:
  assumes "queue_ok q"
  shows "q_contains q n \<longleftrightarrow> n \<in> set (content q)"
proof
  show "q_contains q n \<Longrightarrow> n \<in> set (content q)"
    using contains_member queue_pool assms by blast
  show "n \<in> set (content q) \<Longrightarrow> q_contains q n"
    using assms by (simp add: queue_ok_def pool_ok_def exact_def located_def q_contains_def)
qed

lemma q_insert_spec:
  assumes "pool_ok q" and "n < length (activity q)"
  shows "wp (q_insert q n) (\<lambda>q'. activity q' = activity q \<and> pool_ok q'
     \<and> mset (content q') = add_mset n (mset (content q))
     \<and> (queue_ok q \<and> n \<notin> set (content q) \<longrightarrow> queue_ok q'))"
proof -
  let ?ind = "(padIndices (indices q) n)[n := int (length (content q))]"
  let ?q = "q\<lparr>content := content q @ [n], indices := ?ind\<rparr>"
  have len: "n < length (padIndices (indices q) n)" by (simp add: padIndices_def)
  have loc: "located (length (activity q)) (content q @ [n]) ?ind"
    using pad_located [of "length (activity q)" "content q" "indices q" n] assms len
    by (auto simp: pool_ok_def located_def nth_append nth_list_update)
  then have "located (length (activity ?q)) (content ?q) (indices ?q)" by simp
  note up = percolateUp_spec [of "length (content q)" ?q, OF _ this]
  have ex: "exact (content q @ [n]) ?ind" if "exact (content q) (indices q)" "n \<notin> set (content q)"
    using that assms(1) len
    by (auto simp: exact_def pool_ok_def located_def padIndices_def nth_append nth_list_update)
  have "q_insert q n = percolateUp ?q (length (content q))" using len by (simp add: q_insert_def)
  then show ?thesis using up ex heap_up_snoc [of "key q" "content q" n]
    by (auto simp: rearranged_def pool_ok_def queue_ok_def key_def [abs_def] elim!: wp_mono)
qed

lemma heap_from_butlast_update:
  assumes "heap_from k 0 h"
  shows "heap_from k (Suc 0) (butlast (h[0 := y]))"
proof -
  have "k (butlast (h[0 := y]) ! j) \<le> k (butlast (h[0 := y]) ! parent j)"
    if "0 < j" "j < length h - 1" "Suc 0 \<le> parent j" for j
    using assms that parent_less [of j] by (simp add: heap_from_def nth_butlast)
  then show ?thesis by (simp add: heap_from_def)
qed

lemma exact_swap_remove:
  assumes "exact h ind" and "h \<noteq> []" and "h ! 0 < length ind" and "last h < length ind"
  shows "exact (swap_remove h 0) (ind[last h := 0, h ! 0 := - 1])"
proof -
  have m: "mset h = add_mset (h ! 0) (mset (swap_remove h 0))"
    using assms(2) by (intro mset_swap_remove) simp
  then have "distinct (swap_remove h 0)" and notin: "h ! 0 \<notin> set (swap_remove h 0)"
    and sub: "set (swap_remove h 0) \<subseteq> set h"
    using assms(1) unfolding exact_def
    by (metis distinct.simps(2) mset.simps(2) mset_eq_imp_distinct_iff,
        metis assms(1) exact_def distinct.simps(2) mset.simps(2) mset_eq_imp_distinct_iff,
        metis set_mset_add_mset_insert set_mset_mset subset_insertI)
  moreover have "ind[last h := 0, h ! 0 := - 1] ! v \<ge> 0" if "v \<in> set (swap_remove h 0)" for v
  proof -
    have "v \<noteq> h ! 0" "ind ! v \<ge> 0" using that notin sub assms(1) by (auto simp: exact_def)
    then show ?thesis using assms(4) by (cases "v = last h") simp_all
  qed
  ultimately show ?thesis by (simp add: exact_def)
qed

lemma located_swap_remove:
  assumes "located n h ind" and "h \<noteq> []"
  shows "located n (swap_remove h 0) (ind[last h := 0, h ! 0 := - 1])"
proof -
  let ?ind = "ind[last h := 0, h ! 0 := - 1]"
  have sub: "set (swap_remove h 0) \<subseteq> set h"
    using set_swap_remove [of 0 h] assms(2) by auto
  have b: "last h < length ind" "h ! 0 < length ind" using assms by (auto simp: located_def)
  have "nat (?ind ! v) < length h - 1 \<and> swap_remove h 0 ! nat (?ind ! v) = v"
    if v: "v < length ind" and pos: "?ind ! v \<ge> 0" for v
  proof (cases "v = last h")
    case True
    then have ne: "last h \<noteq> h ! 0" using pos v by auto
    then have "length h > 1" using assms(2) by (cases h rule: rev_cases; cases "butlast h") auto
    then show ?thesis using True v ne b
      by (simp add: swap_remove_def nth_butlast assms(2))
  next
    case False
    have v0: "v \<noteq> h ! 0" using pos v by auto
    then have w: "nat (ind ! v) < length h" "h ! nat (ind ! v) = v"
      using assms(1) v pos False by (auto simp: located_def nth_list_update)
    have "nat (ind ! v) \<noteq> 0" "nat (ind ! v) \<noteq> length h - 1"
      using w v0 False assms(2) by (metis, metis last_conv_nth)
    then show ?thesis using w v0 False assms(2) v
      by (auto simp: swap_remove_def nth_butlast nth_list_update)
  qed
  then show ?thesis using assms(1) sub by (auto simp: located_def)
qed

lemma removeMin_spec:
  assumes "pool_ok q" and "content q \<noteq> []"
  shows "wp (removeMin q) (\<lambda>(x, q'). activity q' = activity q \<and> pool_ok q'
     \<and> mset (content q) = add_mset x (mset (content q'))
     \<and> (queue_ok q \<longrightarrow> queue_ok q' \<and> (\<forall>v \<in> set (content q). key q v \<le> key q x)))"
proof -
  let ?h = "content q" and ?ind = "indices q"
  let ?x = "?h ! 0" and ?y = "last ?h"
  let ?q = "q\<lparr>content := swap_remove ?h 0, indices := ?ind[?y := 0, ?x := - 1]\<rparr>"
  have loc: "located (length (activity q)) (content ?q) (indices ?q)"
    using located_swap_remove assms by (simp add: pool_ok_def)
  have b: "?x < length ?ind" "?y < length ?ind"
    using assms by (auto simp: pool_ok_def located_def)
  have m: "mset ?h = add_mset ?x (mset (content ?q))"
    using assms(2) mset_swap_remove [of 0 ?h] by simp
  have best: "key q v \<le> key q ?x" if ok: "queue_ok q" and v: "v \<in> set ?h" for v
    using v ok unfolding in_set_conv_nth by (auto simp: queue_ok_def intro: heap_root)
  have hs: "heap_from (key q) (Suc 0) (content ?q)" if "queue_ok q"
    using heap_from_butlast_update [of "key q" ?h ?y] that by (simp add: queue_ok_def swap_remove_def)
  have ex: "exact (content ?q) (indices ?q)" if "queue_ok q"
    using that exact_swap_remove [OF _ assms(2) b] by (simp add: queue_ok_def)
  have y: "?h ! (length ?h - 1) = ?y" using assms(2) by (simp add: last_conv_nth)
  have c: "take (length ?h - 1) (?h[0 := ?y]) = swap_remove ?h 0"
    by (simp add: swap_remove_def butlast_conv_take)
  have eq: "removeMin q = do { q' \<leftarrow> (if length ?h - 1 > 1 then percolateDown ?q 0 else Some ?q); Some (?x, q') }"
    using assms(2) b y c by (simp add: removeMin_def)
  have "wp (if length ?h - 1 > 1 then percolateDown ?q 0 else Some ?q)
     (\<lambda>q'. activity q' = activity q \<and> pool_ok q' \<and> mset (content q') = mset (content ?q)
        \<and> (queue_ok q \<longrightarrow> queue_ok q'))"
  proof (cases "length ?h - 1 > 1")
    case True
    then have "wp (percolateDown ?q 0) (\<lambda>q'. activity q' = activity ?q
       \<and> rearranged ?q (content ?q) (indices ?q) (content q') (indices q')
       \<and> (heap_from (key ?q) (Suc 0) (content ?q) \<longrightarrow> heap_from (key ?q) 0 (content q')))"
      using loc by (intro percolateDown_spec) simp_all
    then have "wp (percolateDown ?q 0) (\<lambda>q'. activity q' = activity q \<and> pool_ok q'
        \<and> mset (content q') = mset (content ?q) \<and> (queue_ok q \<longrightarrow> queue_ok q'))"
      by (rule wp_mono)
        (use hs ex in \<open>auto simp: rearranged_def pool_ok_def queue_ok_def key_def [abs_def]\<close>)
    then show ?thesis using True by simp
  next
    case False
    then have "heap_from (key q) 0 (content ?q)"
      using parent_less by (auto simp: heap_from_def)
    then show ?thesis using False loc ex
      by (simp add: pool_ok_def queue_ok_def key_def [abs_def])
  qed
  then show ?thesis unfolding eq
    using m best by (auto elim!: wp_mono)
qed

text \<open>
  \<open>decrease\<close> restores the heap after the activity of \<open>n\<close> was raised from \<open>a\<close>.
\<close>

lemma heap_up_raise:
  assumes h: "heap_from k 0 h" and i: "i < length h" and "distinct h"
    and k': "\<And>v. v \<noteq> h ! i \<Longrightarrow> k' v = k v" and up: "k (h ! i) \<le> k' (h ! i)"
  shows "heap_up k' i h"
proof -
  have other: "k' (h ! j) = k (h ! j)" if "j < length h" "j \<noteq> i" for j
    using k' that assms(2,3) by (simp add: nth_eq_iff_index_eq)
  have "k' (h ! j) \<le> k' (h ! parent j)" if j: "0 < j" "j < length h" "j \<noteq> i" for j
  proof -
    have "k' (h ! j) \<le> k (h ! parent j)" using h j other by (simp add: heap_from_def)
    also have "\<dots> \<le> k' (h ! parent j)"
      using other [of "parent j"] up parent_less [OF j(1)] j(2) by (cases "parent j = i") auto
    finally show ?thesis .
  qed
  moreover have "k' (h ! j) \<le> k' (h ! parent i)" if j: "0 < j" "j < length h" "parent j = i" "0 < i" for j
  proof -
    have ij: "i < j" "parent i < i" using parent_less [OF j(1)] parent_less [OF j(4)] j(3) by auto
    have "k (h ! j) \<le> k (h ! i)" "k (h ! i) \<le> k (h ! parent i)"
      using h i j by (auto simp: heap_from_def)
    then show ?thesis using other [of j] other [of "parent i"] ij i j by simp
  qed
  ultimately show ?thesis by (simp add: heap_up_def)
qed

lemma decrease_spec:
  assumes "pool_ok q" and "q_contains q n"
  shows "wp (decrease q n) (\<lambda>q'. activity q' = activity q \<and> pool_ok q' \<and> mset (content q') = mset (content q)
     \<and> (queue_ok (q\<lparr>activity := (activity q)[n := a]\<rparr>) \<and> a \<le> activity q ! n \<longrightarrow> queue_ok q'))"
proof -
  let ?i = "nat (indices q ! n)"
  have i: "indices q ! n \<ge> 0" "n < length (indices q)" "?i < length (content q)" "content q ! ?i = n"
    using assms by (auto simp: pool_ok_def located_def q_contains_def)
  then have n: "n < length (activity q)"
    using assms(1) nth_mem unfolding pool_ok_def located_def by metis
  have up: "exact (content q) (indices q) \<and> heap_up (key q) ?i (content q)"
    if ok: "queue_ok (q\<lparr>activity := (activity q)[n := a]\<rparr>)" and le: "a \<le> activity q ! n"
  proof -
    let ?q = "q\<lparr>activity := (activity q)[n := a]\<rparr>"
    have ex: "exact (content q) (indices q)" and hp: "heap_from (key ?q) 0 (content q)"
      using ok by (auto simp: queue_ok_def)
    have "heap_up (key q) ?i (content q)"
      using hp i(3) ex
      by (rule_tac k = "key ?q" in heap_up_raise) (use i(4) le n in \<open>auto simp: exact_def key_def\<close>)
    with ex show ?thesis by blast
  qed
  have "decrease q n = percolateUp q ?i" using i by (simp add: decrease_def)
  then show ?thesis
    using percolateUp_spec [OF i(3)] assms(1) up
    by (auto simp: pool_ok_def queue_ok_def rearranged_def key_def [abs_def] elim!: wp_mono)
qed

lemma clearIndices_spec:
  assumes "\<forall>v \<in> set vs. v < length ind"
  shows "wp (clearIndices ind vs) (\<lambda>ind'. length ind' = length ind
     \<and> (\<forall>v < length ind. ind' ! v = (if v \<in> set vs then - 1 else ind ! v)))"
  using assms by (induction ind vs rule: clearIndices.induct) (auto simp: nth_list_update elim!: wp_mono)

lemma setIndices_spec:
  assumes "\<forall>v \<in> set vs. v < length ind"
  shows "wp (setIndices ind i vs) (\<lambda>ind'. length ind' = length ind
     \<and> (\<forall>u. u \<notin> set vs \<longrightarrow> ind' ! u = ind ! u)
     \<and> (\<forall>u \<in> set vs. \<exists>j < length vs. vs ! j = u \<and> ind' ! u = int (i + j)))"
  using assms
proof (induction ind i vs rule: setIndices.induct)
  case (2 ind i v vs)
  have v: "v < length ind" using "2.prems" by simp
  with "2.IH" [of "ind[v := int i]"] "2.prems" obtain ind' where
    r: "setIndices (ind[v := int i]) (Suc i) vs = Some ind'" "length ind' = length ind"
    and out: "\<And>u. u \<notin> set vs \<Longrightarrow> ind' ! u = ind[v := int i] ! u"
    and ins: "\<And>u. u \<in> set vs \<Longrightarrow> \<exists>j < length vs. vs ! j = u \<and> ind' ! u = int (Suc i + j)"
    by (auto simp: wp_iff)
  have "\<exists>j < length (v # vs). (v # vs) ! j = u \<and> ind' ! u = int (i + j)" if "u \<in> set (v # vs)" for u
  proof (cases "u \<in> set vs")
    case True
    then obtain j where "j < length vs" "vs ! j = u" "ind' ! u = int (Suc i + j)" using ins by blast
    then show ?thesis by (intro exI [of _ "Suc j"]) simp
  next
    case False
    then show ?thesis using that out v by (intro exI [of _ 0]) simp
  qed
  moreover have "ind' ! u = ind ! u" if "u \<notin> set (v # vs)" for u
    using that out by simp
  ultimately show ?case using r v by simp
qed simp

lemma buildLoop_spec:
  assumes "pool_ok q" and "i \<le> length (content q)"
  shows "wp (buildLoop q i) (\<lambda>q'. activity q' = activity q
     \<and> rearranged q (content q) (indices q) (content q') (indices q')
     \<and> (heap_from (key q) i (content q) \<longrightarrow> heap_from (key q) 0 (content q')))"
  using assms
proof (induction q i rule: buildLoop.induct)
  case (2 q i)
  have "wp (percolateDown q i) (\<lambda>q'. activity q' = activity q
     \<and> rearranged q (content q) (indices q) (content q') (indices q')
     \<and> (heap_from (key q) (Suc i) (content q) \<longrightarrow> heap_from (key q) i (content q')))"
    using "2.prems" by (intro percolateDown_spec) (auto simp: pool_ok_def)
  then obtain q1 where q1: "percolateDown q i = Some q1" "activity q1 = activity q"
    "rearranged q (content q) (indices q) (content q1) (indices q1)"
    "heap_from (key q) (Suc i) (content q) \<longrightarrow> heap_from (key q) i (content q1)"
    by (auto simp: wp_iff)
  have "pool_ok q1" "i \<le> length (content q1)"
    using q1(2,3) "2.prems"(2) by (auto simp: pool_ok_def rearranged_def dest: mset_eq_length)
  with "2.IH" [OF q1(1)]
  have "wp (buildLoop q1 i) (\<lambda>q'. activity q' = activity q1
     \<and> rearranged q1 (content q1) (indices q1) (content q') (indices q')
     \<and> (heap_from (key q1) i (content q1) \<longrightarrow> heap_from (key q1) 0 (content q')))" by simp
  then show ?case using q1
    by (auto simp: rearranged_def key_def [abs_def] elim!: wp_mono)
qed (simp add: rearranged_def pool_ok_def)

lemma q_build_spec:
  assumes "pool_ok q" and "\<forall>v \<in> set ns. v < length (indices q) \<and> v < length (activity q)"
  shows "wp (q_build q ns) (\<lambda>q'. activity q' = activity q \<and> pool_ok q' \<and> mset (content q') = mset ns
     \<and> (distinct ns \<longrightarrow> queue_ok q'))"
proof -
  have "\<forall>v \<in> set (content q). v < length (indices q)" using assms(1) by (simp add: pool_ok_def located_def)
  from clearIndices_spec [OF this] obtain ind1 where 1: "clearIndices (indices q) (content q) = Some ind1"
    "length ind1 = length (indices q)" and c: "\<forall>v < length (indices q). ind1 ! v = (if v \<in> set (content q) then - 1 else indices q ! v)"
    by (auto simp: wp_iff)
  have clear: "\<forall>v < length ind1. ind1 ! v < 0"
  proof (intro allI impI)
    fix v assume v: "v < length ind1"
    show "ind1 ! v < 0"
    proof (cases "v \<in> set (content q)")
      case False
      then have "\<not> 0 \<le> indices q ! v"
        using v 1(2) assms(1) located_member unfolding pool_ok_def by metis
      then show ?thesis using False v c 1(2) by simp
    qed (use v c 1(2) in simp)
  qed
  have "\<forall>v \<in> set ns. v < length ind1" using assms(2) 1(2) by simp
  from setIndices_spec [OF this, of 0] obtain ind2 where 2: "setIndices ind1 0 ns = Some ind2"
    "length ind2 = length ind1" and out: "\<And>u. u \<notin> set ns \<Longrightarrow> ind2 ! u = ind1 ! u"
    and ins: "\<And>u. u \<in> set ns \<Longrightarrow> \<exists>j < length ns. ns ! j = u \<and> ind2 ! u = int (0 + j)"
    by (auto simp: wp_iff)
  let ?q = "q\<lparr>content := ns, indices := ind2\<rparr>"
  have pos: "nat (ind2 ! v) < length ns \<and> ns ! nat (ind2 ! v) = v"
    if v: "v < length ind2" and "ind2 ! v \<ge> 0" for v
    using out [of v] ins [of v] clear v that(2) 2(2) by (cases "v \<in> set ns") auto
  have "located (length (activity q)) ns ind2"
    using assms(2) 1(2) 2(2) pos by (auto simp: located_def)
  then have ok: "pool_ok ?q" by (simp add: pool_ok_def)
  have ex: "exact ns ind2" if "distinct ns"
    using that ins by (fastforce simp: exact_def)
  have half: "heap_from k (length ns div 2) ns" for k :: "nat \<Rightarrow> 'a"
    by (auto simp: heap_from_def parent_div)
  have "q_build q ns = buildLoop ?q (length ns div 2)" using 1(1) 2(1) by (simp add: q_build_def)
  then show ?thesis using buildLoop_spec [OF ok, of "length ns div 2"] half ex
    by (auto simp: rearranged_def pool_ok_def queue_ok_def key_def [abs_def] elim!: wp_mono)
qed

lemma insertAll_spec:
  assumes "queue_ok q" and "\<forall>n \<in> set ns. n < length (activity q)"
    and "distinct ns" and "set ns \<inter> set (content q) = {}"
  shows "wp (insertAll q ns) (\<lambda>q'. activity q' = activity q \<and> queue_ok q'
     \<and> mset (content q') = mset ns + mset (content q))"
  using assms
proof (induction q ns rule: insertAll.induct)
  case (2 q n ns)
  have "wp (q_insert q n) (\<lambda>q'. activity q' = activity q \<and> pool_ok q'
     \<and> mset (content q') = add_mset n (mset (content q))
     \<and> (queue_ok q \<and> n \<notin> set (content q) \<longrightarrow> queue_ok q'))"
    using "2.prems" by (intro q_insert_spec) (auto intro: queue_pool)
  then obtain q1 where q1: "q_insert q n = Some q1" "activity q1 = activity q" "queue_ok q1"
    "mset (content q1) = add_mset n (mset (content q))"
    using "2.prems" by (auto simp: wp_iff)
  have "set (content q1) = insert n (set (content q))"
    using q1(4) by (metis set_mset_add_mset_insert set_mset_mset)
  then show ?case using "2.IH" [OF q1(1)] "2.prems" q1 by (auto elim!: wp_mono)
qed simp

section \<open>Choosing a variable\<close>

text \<open>
  The loop of \<open>chooseLit\<close> (\<open>solver/solver.go\<close>): remove elements until one is unbound in the
  model.
\<close>

lemma downLoop_step:
  assumes "downLoop q x i = Some r" and "r \<noteq> (q, i)"
  obtains ch y b c ind where "left i < length (content q)" "child q i = Some ch"
    "get (content q) ch = Some y" "lt q y x = Some b" "b" "put (content q) i y = Some c"
    "put (indices q) y (int i) = Some ind" "downLoop (q\<lparr>content := c, indices := ind\<rparr>) x ch = Some r"
  using assms by (subst (asm) downLoop.simps) (auto simp: bind_eq_Some_conv split: if_splits)

lemma downLoop_length: "downLoop q x i = Some r \<Longrightarrow> length (content (fst r)) = length (content q)"
proof (induction q x i rule: downLoop.induct)
  case (1 q x i)
  show ?case
  proof (cases "r = (q, i)")
    case False
    from downLoop_step [OF "1.prems" False] obtain ch y b c ind where
      s: "left i < length (content q)" "child q i = Some ch"
      "get (content q) ch = Some y" "lt q y x = Some b" "b" "put (content q) i y = Some c"
      "put (indices q) y (int i) = Some ind" "downLoop (q\<lparr>content := c, indices := ind\<rparr>) x ch = Some r" .
    have "length (content (fst r)) = length c"
      using "1.IH" [OF s(1-4) _ s(6-8)] s(5) by simp
    also have "\<dots> = length (content q)" using s(6) by (auto simp: put_def split: if_splits)
    finally show ?thesis .
  qed simp
qed

lemma percolateDown_length: "percolateDown q i = Some q' \<Longrightarrow> length (content q') = length (content q)"
  by (auto simp: percolateDown_def put_def bind_eq_Some_conv split: if_splits dest!: downLoop_length)

lemma removeMin_length: "removeMin q = Some (x, q') \<Longrightarrow> length (content q') < length (content q)"
  by (auto simp: removeMin_def Let_def bind_eq_Some_conv get_def put_def split: if_splits
      dest!: percolateDown_length)

function chooseLoop :: "int list \<Rightarrow> ('a::linorder) queue \<Rightarrow> (nat option \<times> 'a queue) option" where
  "chooseLoop m q =
     (if q_empty q then Some (None, q)
      else do {
        (v, q') \<leftarrow> removeMin q;
        b \<leftarrow> get m v;
        if b = 0 then Some (Some v, q') else chooseLoop m q' })"
  by pat_completeness auto
termination
  by (relation "measure (\<lambda>(m, q). length (content q))") (auto dest: removeMin_length)

declare chooseLoop.simps [simp del]

text \<open>
  What a pool of variables promises to the decision procedure: nothing but the popped element is
  lost. A priority pool also pops an element of highest priority.
\<close>

locale var_pool =
  fixes ok :: "'q \<Rightarrow> bool" and elems :: "'q \<Rightarrow> nat multiset" and is_empty :: "'q \<Rightarrow> bool"
    and pop :: "'q \<Rightarrow> (nat \<times> 'q) option" and pick :: "int list \<Rightarrow> 'q \<Rightarrow> (nat option \<times> 'q) option"
  assumes empty_law: "ok q \<Longrightarrow> is_empty q \<longleftrightarrow> elems q = {#}"
    and pop_law: "ok q \<Longrightarrow> \<not> is_empty q
      \<Longrightarrow> wp (pop q) (\<lambda>(x, q'). ok q' \<and> elems q = add_mset x (elems q'))"
    and pick_law: "pick m q = (if is_empty q then Some (None, q)
      else do { (v, q') \<leftarrow> pop q; b \<leftarrow> get m v; if b = 0 then Some (Some v, q') else pick m q' })"
begin

lemma pick_complete:
  assumes "ok q" and "\<forall>v \<in># elems q. v < length m"
  shows "wp (pick m q) (\<lambda>(r, q'). ok q' \<and> (case r of
       None \<Rightarrow> elems q' = {#} \<and> (\<forall>v \<in># elems q. m ! v \<noteq> 0)
     | Some x \<Rightarrow> x \<in># elems q \<and> m ! x = 0 \<and> (\<forall>v \<in># elems q. m ! v = 0 \<longrightarrow> v = x \<or> v \<in># elems q')))"
  using assms
proof (induction "size (elems q)" arbitrary: q rule: less_induct)
  case less
  show ?case
  proof (cases "is_empty q")
    case True
    then show ?thesis using less.prems(1) empty_law pick_law [of m q] by simp
  next
    case False
    obtain x q1 where pop: "pop q = Some (x, q1)" "ok q1" "elems q = add_mset x (elems q1)"
      using pop_law [OF less.prems(1) False] by (auto simp: wp_iff)
    have x: "x < length m" using less.prems(2) pop(3) by simp
    show ?thesis
    proof (cases "m ! x = 0")
      case True
      then show ?thesis using pick_law [of m q] False pop x by simp
    next
      case bound: False
      have "pick m q = pick m q1" using pick_law [of m q] False pop x bound by simp
      moreover have "wp (pick m q1) (\<lambda>(r, q'). ok q' \<and> (case r of
           None \<Rightarrow> elems q' = {#} \<and> (\<forall>v \<in># elems q1. m ! v \<noteq> 0)
         | Some x \<Rightarrow> x \<in># elems q1 \<and> m ! x = 0
             \<and> (\<forall>v \<in># elems q1. m ! v = 0 \<longrightarrow> v = x \<or> v \<in># elems q')))"
        using less.prems(2) pop by (intro less.hyps) auto
      ultimately show ?thesis using bound pop(3) by (auto elim!: wp_mono split: option.splits)
    qed
  qed
qed

end

locale prio_pool = var_pool ok elems is_empty pop pick
  for ok :: "'q \<Rightarrow> bool" and elems is_empty pop pick +
  fixes prio :: "'q \<Rightarrow> nat \<Rightarrow> ('p::linorder)"
  assumes pop_max: "ok q \<Longrightarrow> \<not> is_empty q
      \<Longrightarrow> wp (pop q) (\<lambda>(x, q'). prio q' = prio q \<and> (\<forall>v \<in># elems q. prio q v \<le> prio q x))"
begin

lemma pick_best:
  assumes "ok q" and "\<forall>v \<in># elems q. v < length m"
  shows "wp (pick m q) (\<lambda>(r, q'). \<forall>x. r = Some x \<longrightarrow> (\<forall>v \<in># elems q. m ! v = 0 \<longrightarrow> prio q v \<le> prio q x))"
  using assms
proof (induction "size (elems q)" arbitrary: q rule: less_induct)
  case less
  show ?case
  proof (cases "is_empty q")
    case True
    then show ?thesis using pick_law [of m q] by simp
  next
    case False
    obtain x q1 where pop: "pop q = Some (x, q1)" "ok q1" "elems q = add_mset x (elems q1)"
      using pop_law [OF less.prems(1) False] by (auto simp: wp_iff)
    have best: "prio q1 = prio q" "\<forall>v \<in># elems q. prio q v \<le> prio q x"
      using pop_max [OF less.prems(1) False] pop(1) by simp_all
    have x: "x < length m" using less.prems(2) pop(3) by simp
    show ?thesis
    proof (cases "m ! x = 0")
      case True
      then show ?thesis using pick_law [of m q] False pop x best by simp
    next
      case bound: False
      have "pick m q = pick m q1" using pick_law [of m q] False pop x bound by simp
      moreover have "wp (pick m q1) (\<lambda>(r, q'). \<forall>x. r = Some x
          \<longrightarrow> (\<forall>v \<in># elems q1. m ! v = 0 \<longrightarrow> prio q1 v \<le> prio q1 x))"
        using less.prems(2) pop by (intro less.hyps) auto
      ultimately show ?thesis using bound pop(3) best(1) by (auto elim!: wp_mono)
    qed
  qed
qed

end

definition elements :: "'a queue \<Rightarrow> nat multiset" where
  "elements q = mset (content q)"

lemma q_empty_elements: "q_empty q \<longleftrightarrow> elements q = {#}"
  by (simp add: q_empty_def elements_def)

interpretation pool: var_pool "pool_ok :: ('a::linorder) queue \<Rightarrow> bool" elements q_empty removeMin chooseLoop
proof (unfold_locales, goal_cases)
  case (2 q)
  then have "content q \<noteq> []" by (simp add: q_empty_def)
  from removeMin_spec [OF 2(1) this] show ?case by (auto simp: elements_def elim!: wp_mono)
qed (auto simp: q_empty_elements chooseLoop.simps)

interpretation heap: prio_pool "queue_ok :: ('a::linorder) queue \<Rightarrow> bool" elements q_empty removeMin chooseLoop key
proof (unfold_locales, goal_cases)
  case (2 q)
  then have "content q \<noteq> []" by (simp add: q_empty_def)
  from removeMin_spec [OF queue_pool [OF 2(1)] this] show ?case
    using 2(1) by (auto simp: elements_def elim!: wp_mono)
next
  case (4 q)
  then have "content q \<noteq> []" by (simp add: q_empty_def)
  from removeMin_spec [OF queue_pool [OF 4(1)] this] show ?case
    using 4(1) by (auto simp: elements_def key_def [abs_def] elim!: wp_mono)
qed (auto simp: q_empty_elements chooseLoop.simps)

section \<open>Correctness\<close>

lemma newQueue_spec:
  "wp (newQueue acts) (\<lambda>q. activity q = acts \<and> queue_ok q \<and> elements q = mset [0..<length acts])"
proof -
  let ?q = "\<lparr>activity = acts, content = [], indices = []\<rparr>"
  have "queue_ok ?q" by (simp add: queue_ok_def pool_ok_def located_def exact_def heap_from_def)
  from insertAll_spec [OF this, of "[0..<length acts]"] show ?thesis
    by (auto simp: newQueue_def elements_def elim!: wp_mono)
qed

text \<open>
  C37. The heap implements a set of variables ordered by activity, and never indexes out of range:
  a new queue holds every variable once; inserting adds an absent variable; removing takes out
  a variable whose activity is the highest; membership is what \<open>contains\<close> answers; raising an
  activity and calling \<open>decrease\<close> keeps the heap; rebuilding from distinct variables holds these.
\<close>

theorem queue_refines_set:
  fixes q :: "('a::linorder) queue"
  assumes "queue_ok q"
  shows "wp (newQueue (activity q)) (\<lambda>q'. queue_ok q' \<and> elements q' = mset [0..<length (activity q)])
   \<and> (n < length (activity q) \<and> \<not> q_contains q n \<longrightarrow>
        wp (q_insert q n) (\<lambda>q'. queue_ok q' \<and> elements q' = add_mset n (elements q)))
   \<and> (\<not> q_empty q \<longrightarrow> wp (removeMin q) (\<lambda>(x, q'). queue_ok q' \<and> elements q = add_mset x (elements q')
        \<and> (\<forall>v \<in># elements q. key q v \<le> key q x)))
   \<and> (q_contains q n \<longleftrightarrow> n \<in># elements q)
   \<and> (q_contains q n \<and> key q n \<le> a \<longrightarrow>
        wp (decrease (q\<lparr>activity := (activity q)[n := a]\<rparr>) n) (\<lambda>q'. queue_ok q' \<and> elements q' = elements q))
   \<and> (distinct ns \<and> (\<forall>v \<in> set ns. v < length (indices q) \<and> v < length (activity q)) \<longrightarrow>
        wp (q_build q ns) (\<lambda>q'. queue_ok q' \<and> elements q' = mset ns))"
proof (intro conjI impI)
  have pool: "pool_ok q" using assms by (rule queue_pool)
  show "wp (newQueue (activity q)) (\<lambda>q'. queue_ok q' \<and> elements q' = mset [0..<length (activity q)])"
    by (rule wp_mono [OF newQueue_spec]) simp
  show mem: "q_contains q n \<longleftrightarrow> n \<in># elements q"
    using queue_contains [OF assms] by (simp add: elements_def)
  show "wp (q_insert q n) (\<lambda>q'. queue_ok q' \<and> elements q' = add_mset n (elements q))"
    if "n < length (activity q) \<and> \<not> q_contains q n"
    using wp_mono [OF q_insert_spec [OF pool, of n]] that assms mem by (simp add: elements_def)
  show "wp (removeMin q) (\<lambda>(x, q'). queue_ok q' \<and> elements q = add_mset x (elements q')
        \<and> (\<forall>v \<in># elements q. key q v \<le> key q x))" if "\<not> q_empty q"
    by (rule wp_mono [OF wp_conj [OF heap.pop_law [OF assms that] heap.pop_max [OF assms that]]]) auto
  show "wp (decrease (q\<lparr>activity := (activity q)[n := a]\<rparr>) n) (\<lambda>q'. queue_ok q' \<and> elements q' = elements q)"
    if n: "q_contains q n \<and> key q n \<le> a"
  proof -
    let ?q = "q\<lparr>activity := (activity q)[n := a]\<rparr>"
    have same: "?q\<lparr>activity := (activity ?q)[n := activity q ! n]\<rparr> = q" by simp
    have "pool_ok ?q" "q_contains ?q n" using pool n by (simp_all add: pool_ok_def q_contains_def)
    moreover have "n < length (activity q)"
      using mem n pool by (auto simp: elements_def pool_ok_def located_def)
    ultimately show ?thesis
      using wp_mono [OF decrease_spec [of ?q n "activity q ! n"]] n assms same
      by (simp add: elements_def key_def)
  qed
  show "wp (q_build q ns) (\<lambda>q'. queue_ok q' \<and> elements q' = mset ns)"
    if "distinct ns \<and> (\<forall>v \<in> set ns. v < length (indices q) \<and> v < length (activity q))"
    using wp_mono [OF q_build_spec [OF pool, of ns]] that by (simp add: elements_def)
qed

definition queueExample :: "nat queue" where
  "queueExample = \<lparr>activity = [1, 5, 3], content = [1, 0], indices = [1, 0]\<rparr>"

lemma queueExample_ok: "queue_ok queueExample"
proof -
  have "pool_ok queueExample" by code_simp
  moreover have "exact (content queueExample) (indices queueExample)" by code_simp
  moreover have "heap_from (key queueExample) 0 (content queueExample)"
    by (auto simp: heap_from_def queueExample_def key_def parent_div less_Suc_eq)
  ultimately show ?thesis by (simp add: queue_ok_def)
qed

theorem queue_refines_set_witness:
  "wp (removeMin queueExample) (\<lambda>(x, q'). \<forall>v \<in># elements queueExample. key queueExample v \<le> key queueExample x)"
  using queue_refines_set [OF queueExample_ok, of 0 0 "[]"]
  by (auto simp: queueExample_def q_empty_def elim!: wp_mono)

text \<open>
  C38. The loop of \<open>chooseLit\<close> ends, without panic, and picks an unbound variable of the queue; when
  it finds none, all variables of the queue are bound. The unbound variables it does not pick stay
  in the queue. This needs no heap order: \<open>pool_ok\<close> also holds when a variable was inserted twice,
  which \<open>cleanupBindings\<close> does. Only when the queue is a heap without duplicates (\<open>queue_ok\<close>) is the
  activity of the variable it picks the highest among the unbound ones.
\<close>

theorem chooseLoop_correct:
  fixes q :: "('a::linorder) queue"
  assumes "pool_ok q" and "\<forall>v \<in># elements q. v < length m"
  shows "wp (chooseLoop m q) (\<lambda>(r, q'). pool_ok q' \<and> (case r of
       None \<Rightarrow> \<forall>v \<in># elements q. m ! v \<noteq> 0
     | Some x \<Rightarrow> x \<in># elements q \<and> m ! x = 0
         \<and> (\<forall>v \<in># elements q. m ! v = 0 \<longrightarrow> v = x \<or> v \<in># elements q')
         \<and> (queue_ok q \<longrightarrow> (\<forall>v \<in># elements q. m ! v = 0 \<longrightarrow> key q v \<le> key q x))))"
proof -
  have "wp (chooseLoop m q) (\<lambda>(r, q'). queue_ok q
       \<longrightarrow> (\<forall>x. r = Some x \<longrightarrow> (\<forall>v \<in># elements q. m ! v = 0 \<longrightarrow> key q v \<le> key q x)))"
    using heap.pick_best [OF _ assms(2)] pool.pick_complete [OF assms]
    by (cases "queue_ok q") (auto elim!: wp_mono)
  from wp_conj [OF pool.pick_complete [OF assms] this] show ?thesis
    by (rule wp_mono) (auto split: option.splits)
qed

theorem chooseLoop_correct_witness:
  "wp (chooseLoop [0, 1, 0] queueExample) (\<lambda>(r, q'). pool_ok q')"
  using chooseLoop_correct [OF queue_pool [OF queueExample_ok], of "[0, 1, 0]"]
  by (auto simp: queueExample_def elements_def elim!: wp_mono)

end
