(* ===== verification/Restart.thy ===== *)
theory Restart
  imports GoFloat "HOL-Library.Word"
begin

text \<open>
  When the search restarts: the Luby sequence (\<open>solver/luby.go\<close>) and the averages of recent clause
  distances and trail sizes (\<open>solver/lbd.go\<close>). The \<open>uint\<close> of \<open>luby\<close> is a 64-bit word; its second
  loop and its recursion need not end, so both functions may have no result. The averages are
  \<open>float64\<close> numbers, rounded after each operation. The two ring buffers, arrays of fixed size in the
  code, are functions from positions.
\<close>

unbundle bit_operations_syntax

section \<open>The Luby sequence\<close>

type_synonym u64 = "64 word"

text \<open>\<open>(1 << k) - 1\<close> and the first loop of \<open>luby\<close>.\<close>

definition ones :: "nat \<Rightarrow> u64" where
  "ones k = push_bit k 1 - 1"

fun lubyExact :: "u64 \<Rightarrow> nat list \<Rightarrow> u64 option" where
  "lubyExact i [] = None"
| "lubyExact i (k # ks) = (if i = ones k then Some (push_bit (k - 1) 1) else lubyExact i ks)"

text \<open>The second loop: the least \<open>k\<close> from the given one on with \<open>1 << (k-1) <= i < (1 << k) - 1\<close>.\<close>

partial_function (option) lubyFind :: "u64 \<Rightarrow> nat \<Rightarrow> nat option" where
  "lubyFind i k = (if push_bit (k - 1) 1 \<le> i \<and> i < ones k then Some k else lubyFind i (k + 1))"

partial_function (option) luby :: "u64 \<Rightarrow> u64 option" where
  "luby i = (case lubyExact i [1..<32] of
       Some r \<Rightarrow> Some r
     | None \<Rightarrow> do { k \<leftarrow> lubyFind i 1; luby (i - push_bit (k - 1) 1 + 1) })"

declare lubyFind.simps [code] luby.simps [code]

text \<open>The sequence 1 1 2 1 1 2 4 \<dots> as the literature builds it: two copies and the next power.\<close>

fun lubyBlock :: "nat \<Rightarrow> nat list" where
  "lubyBlock 0 = []"
| "lubyBlock (Suc k) = lubyBlock k @ lubyBlock k @ [2 ^ k]"

lemma length_lubyBlock [simp]: "length (lubyBlock k) = 2 ^ k - 1"
  by (induction k) auto

lemma lubyBlock_last: "lubyBlock (Suc k) ! (2 ^ Suc k - 2) = 2 ^ k"
proof -
  have "2 ^ Suc k - 2 = length (lubyBlock k @ lubyBlock k)"
    by simp
  then show ?thesis by (simp only: lubyBlock.simps append_assoc [symmetric] nth_append_length)
qed

lemma lubyBlock_second:
  assumes "2 ^ k \<le> Suc n" and "n < 2 ^ Suc k - 2"
  shows "lubyBlock (Suc k) ! n = lubyBlock k ! (n + 1 - 2 ^ k)"
  using assms by (auto simp: nth_append)

lemma lubyBlock_prefix:
  assumes "k \<le> m" and "n < 2 ^ k - 1"
  shows "lubyBlock m ! n = lubyBlock k ! n"
  using assms(1)
proof (induction m)
  case (Suc m)
  show ?case
  proof (cases "k = Suc m")
    case False
    then have "(2 :: nat) ^ k \<le> 2 ^ m" using Suc.prems by (intro power_increasing) auto
    then have "n < 2 ^ m - 1" using assms(2) by linarith
    then show ?thesis using Suc False by (simp add: nth_append)
  qed simp
qed simp

lemma unat_power2 [simp]:
  assumes "k < 64"
  shows "unat (2 ^ k :: u64) = 2 ^ k"
proof -
  have "(2 :: nat) ^ k < 2 ^ 64" using assms by (intro power_strict_increasing) auto
  moreover have "unat (2 ^ k :: u64) = unat (of_nat (2 ^ k) :: u64)" by simp
  ultimately show ?thesis by (simp only: unat_of_nat len_bit0 len_num1) simp
qed

lemma unat_ones: "k < 64 \<Longrightarrow> unat (ones k) = 2 ^ k - 1"
proof -
  assume k: "k < 64"
  have "(1 :: u64) \<le> 2 ^ k" using k by (simp add: word_le_nat_alt)
  then show ?thesis using k by (simp add: ones_def unat_sub)
qed

lemma lubyExact_None: "(\<forall>k \<in> set ks. i \<noteq> ones k) \<longleftrightarrow> lubyExact i ks = None"
  by (induction ks) auto

lemma lubyExact_Some:
  assumes "k \<in> set ks" and "\<forall>k \<in> set ks. k < 64" and "i = ones k"
  shows "lubyExact i ks = Some (push_bit (k - 1) 1)"
  using assms
proof (induction ks)
  case (Cons j ks)
  show ?case
  proof (cases "i = ones j")
    case True
    then have "unat (ones j) = unat (ones k)" using Cons.prems(3) by simp
    moreover have "j < 64" "k < 64" using Cons.prems(1,2) by auto
    ultimately have "(2 :: nat) ^ j - 1 = 2 ^ k - 1" by (simp add: unat_ones)
    then have "(2 :: nat) ^ j = 2 ^ k" by (metis One_nat_def Suc_pred pos2 zero_less_power)
    then show ?thesis using True by simp
  next
    case False
    then show ?thesis using Cons by auto
  qed
qed simp

lemma lubyFind_found:
  assumes "1 \<le> j" "j \<le> k" and "k < 64" and "2 ^ (k - 1) \<le> unat i" and "unat i < 2 ^ k - 1"
  shows "lubyFind i j = Some k"
  using assms(1,2)
proof (induction "k - j" arbitrary: j)
  case 0
  then have "j = k" by simp
  then show ?case using assms(3-5) by (subst lubyFind.simps) (simp add: word_le_nat_alt word_less_nat_alt unat_ones)
next
  case (Suc d)
  then have jk: "j < k" by simp
  have "(2 :: nat) ^ j \<le> 2 ^ (k - 1)" using jk by (intro power_increasing) auto
  then have "\<not> unat i < 2 ^ j - 1" using assms(4) by linarith
  then have "\<not> i < ones j" using assms(3) jk by (simp add: word_less_nat_alt unat_ones)
  then have "lubyFind i j = lubyFind i (j + 1)" by (subst lubyFind.simps) simp
  moreover have "lubyFind i (j + 1) = Some k" using Suc by (intro Suc.hyps) auto
  ultimately show ?case by simp
qed

lemma luby_main:
  assumes "0 < unat i" and "unat i \<le> 2 ^ k - 1" and "k < 32"
  shows "\<exists>r. luby i = Some r \<and> unat r = lubyBlock k ! (unat i - 1)"
  using assms
proof (induction "unat i" arbitrary: i k rule: less_induct)
  case less
  show ?case
  proof (cases "lubyExact i [1..<32]")
    case (Some r)
    then have "\<not> (\<forall>j \<in> set [1..<32]. i \<noteq> ones j)" using lubyExact_None [of "[1..<32]" i] by simp
    then obtain j where j: "1 \<le> j" "j < 32" "i = ones j" by auto
    then have r: "r = push_bit (j - 1) 1" using lubyExact_Some [of j "[1..<32]" i] Some by simp
    have u: "unat i = 2 ^ j - 1" using j by (simp add: unat_ones)
    have "(2 :: nat) ^ j \<le> 2 ^ k" using u less.prems(2)
      by (metis One_nat_def Suc_le_mono Suc_pred pos2 zero_less_power)
    then have jk: "j \<le> k" by (simp add: power_increasing_iff)
    have "(2 :: nat) \<le> 2 ^ j" using j(1) power_increasing [of 1 j "2 :: nat"] by simp
    then have "lubyBlock k ! (unat i - 1) = lubyBlock j ! (2 ^ j - 2)"
      using lubyBlock_prefix [OF jk, of "2 ^ j - 2"] u by (simp add: numeral_2_eq_2)
    also have "\<dots> = 2 ^ (j - 1)" using lubyBlock_last [of "j - 1"] j(1) by simp
    finally show ?thesis using Some r j by (subst luby.simps) simp
  next
    case None
    obtain j where j: "2 ^ j \<le> unat i" "unat i < 2 ^ Suc j"
      using ex_power_ivl1 [of 2 "unat i"] less.prems(1) by auto
    have jk: "Suc j \<le> k"
    proof (rule ccontr)
      assume "\<not> Suc j \<le> k"
      then have "(2 :: nat) ^ k \<le> 2 ^ j" by (intro power_increasing) auto
      then have "unat i \<le> unat i - 1" using j(1) less.prems(2) by linarith
      then show False using less.prems(1) by simp
    qed
    have ne: "unat i \<noteq> 2 ^ Suc j - 1"
    proof
      assume "unat i = 2 ^ Suc j - 1"
      then have "unat i = unat (ones (Suc j))" using jk less.prems(3) by (simp add: unat_ones)
      then have "i = ones (Suc j)" by (simp only: word_unat_eq_iff)
      moreover have "Suc j \<in> set [1..<32]" using jk less.prems(3) by simp
      ultimately show False using lubyExact_None [of "[1..<32]" i] None by blast
    qed
    have j64: "Suc j < 64" using jk less.prems(3) by simp
    have find: "lubyFind i 1 = Some (Suc j)"
      using lubyFind_found [of 1 "Suc j" i] j ne j64 by simp
    let ?i = "i - push_bit j 1 + 1"
    have le: "push_bit j 1 \<le> i" using j(1) j64 by (simp add: word_le_nat_alt)
    have pos: "0 < j" using j ne by (cases j) auto
    then have two: "(2 :: nat) \<le> 2 ^ j" using power_increasing [of 1 j "2 :: nat"] by simp
    have "(2 :: nat) ^ j < 2 ^ 63" using j64 by (intro power_strict_increasing) auto
    then have small: "unat i - 2 ^ j + 1 < 2 ^ 64" using j by simp
    have u: "unat ?i = unat i - 2 ^ j + 1"
      using le j64 small by (simp add: unat_word_ariths unat_sub)
    have "\<exists>r. luby ?i = Some r \<and> unat r = lubyBlock j ! (unat ?i - 1)"
      using u j ne two jk less.prems by (intro less.hyps) auto
    then obtain r where r: "luby ?i = Some r" "unat r = lubyBlock j ! (unat i - 2 ^ j)"
      using u by auto
    have "unat i - 1 < 2 ^ Suc j - 2" using j ne two by simp
    then have "lubyBlock k ! (unat i - 1) = lubyBlock j ! (unat i - 2 ^ j)"
      using lubyBlock_prefix [OF jk, of "unat i - 1"] lubyBlock_second [of j "unat i - 1"] j two by simp
    moreover have "luby i = luby ?i" using None find by (subst luby.simps) simp
    ultimately show ?thesis using r by simp
  qed
qed

text \<open>
  C39. For arguments from 1 to \<open>2^31 - 1\<close>, \<open>luby\<close> ends and computes the Luby sequence.
\<close>

theorem luby_correct:
  assumes "0 < unat i" and "unat i < 2 ^ 31"
  shows "map_option unat (luby i) = Some (lubyBlock 31 ! (unat i - 1))"
  using luby_main [of i 31] assms by auto

theorem luby_correct_witness: "map_option unat (luby 6) = Some (lubyBlock 31 ! 5)"
  using luby_correct [of 6] by simp

section \<open>Recent clause distances\<close>

text \<open>The conversion \<open>float64(n)\<close>.\<close>

definition floatOf :: "int \<Rightarrow> rat" where
  "floatOf n = float64 (rat_of_int n)"

definition nbMaxRecent :: int where "nbMaxRecent = 50"
definition triggerRestartK :: rat where "triggerRestartK = float64 (4 / 5)"
definition nbMaxTrail :: int where "nbMaxTrail = 5000"
definition postponeRestartT :: rat where "postponeRestartT = float64 (7 / 5)"

record queueData =
  totalNb :: int
  totalSum :: int
  nbRecent :: int
  ptr :: int
  recentAvg :: rat

record lbdStats =
  lbdData :: queueData
  trailData :: queueData
  recentVals :: "int \<Rightarrow> int"
  recentTrails :: "int \<Rightarrow> int"

definition emptyQueueData :: queueData where
  "emptyQueueData = \<lparr>totalNb = 0, totalSum = 0, nbRecent = 0, ptr = 0, recentAvg = 0\<rparr>"

definition emptyLbdStats :: lbdStats where
  "emptyLbdStats = \<lparr>lbdData = emptyQueueData, trailData = emptyQueueData,
     recentVals = (\<lambda>_. 0), recentTrails = (\<lambda>_. 0)\<rparr>"

definition mustRestart :: "lbdStats \<Rightarrow> bool" where
  "mustRestart l \<longleftrightarrow> \<not> nbRecent (lbdData l) < nbMaxRecent
     \<and> float64 (recentAvg (lbdData l) * triggerRestartK)
         > float64 (floatOf (totalSum (lbdData l)) / floatOf (totalNb (lbdData l)))"

definition lbd_clear :: "lbdStats \<Rightarrow> lbdStats" where
  "lbd_clear l = l\<lparr>lbdData := (lbdData l)\<lparr>ptr := 0, nbRecent := 0, recentAvg := 0\<rparr>\<rparr>"

text \<open>
  One value enters a ring buffer of the given capacity: the code common to \<open>addConflict\<close> and \<open>addLbd\<close>.
\<close>

definition addValue :: "int \<Rightarrow> queueData \<Rightarrow> (int \<Rightarrow> int) \<Rightarrow> int \<Rightarrow> queueData \<times> (int \<Rightarrow> int)" where
  "addValue cap d vals x =
     (let d = d\<lparr>totalNb := int64 (totalNb d + 1), totalSum := int64 (totalSum d + x)\<rparr> in
      if nbRecent d < cap then
        let old = floatOf (nbRecent d); new = float64 (old + 1) in
        (d\<lparr>recentAvg := float64 (float64 (float64 (recentAvg d * old) / new) + float64 (floatOf x / new)),
           nbRecent := nbRecent d + 1\<rparr>,
         vals(nbRecent d := x))
      else
        let old = vals (ptr d); p = (if ptr d + 1 = cap then 0 else ptr d + 1) in
        (d\<lparr>ptr := p,
           recentAvg := float64 (float64 (recentAvg d - float64 (floatOf old / floatOf cap))
             + float64 (floatOf x / floatOf cap))\<rparr>,
         vals(ptr d := x)))"

definition addConflict :: "lbdStats \<Rightarrow> int \<Rightarrow> lbdStats" where
  "addConflict l trailSz =
     (let (d, vals) = addValue nbMaxTrail (trailData l) (recentTrails l) trailSz;
          l = l\<lparr>trailData := d, recentTrails := vals\<rparr>
      in if nbRecent d = nbMaxTrail \<and> nbRecent (lbdData l) = nbMaxRecent
            \<and> trailSz > floatInt (float64 (postponeRestartT * recentAvg d))
         then lbd_clear l else l)"

definition addLbd :: "lbdStats \<Rightarrow> int \<Rightarrow> lbdStats" where
  "addLbd l n =
     (let (d, vals) = addValue nbMaxRecent (lbdData l) (recentVals l) n
      in l\<lparr>lbdData := d, recentVals := vals\<rparr>)"

text \<open>
  The values a ring buffer holds, oldest first, and a sliding window of the last \<open>cap\<close> values, which
  is what the buffer implements. \<open>ptr\<close> is the position of the oldest value once the buffer is full.
\<close>

definition ring_ok :: "int \<Rightarrow> queueData \<Rightarrow> bool" where
  "ring_ok cap d \<longleftrightarrow> 0 \<le> nbRecent d \<and> nbRecent d \<le> cap \<and> 0 \<le> ptr d \<and> ptr d < cap
     \<and> (nbRecent d < cap \<longrightarrow> ptr d = 0)"

definition ringList :: "int \<Rightarrow> queueData \<Rightarrow> (int \<Rightarrow> int) \<Rightarrow> int list" where
  "ringList cap d vals =
     (if nbRecent d < cap then map vals [0..nbRecent d - 1] else map vals ([ptr d..cap - 1] @ [0..ptr d - 1]))"

definition window :: "int \<Rightarrow> int list \<Rightarrow> int \<Rightarrow> int list" where
  "window cap xs x = (if int (length xs) < cap then xs @ [x] else tl xs @ [x])"

lemma length_ringList: "ring_ok cap d \<Longrightarrow> int (length (ringList cap d vals)) = nbRecent d"
  by (auto simp: ring_ok_def ringList_def)

lemma addValue_step:
  "addValue cap d vals x = (d', vals') \<Longrightarrow>
     nbRecent d' = (if nbRecent d < cap then nbRecent d + 1 else nbRecent d)
     \<and> ptr d' = (if nbRecent d < cap then ptr d else if ptr d + 1 = cap then 0 else ptr d + 1)
     \<and> vals' = (if nbRecent d < cap then vals(nbRecent d := x) else vals(ptr d := x))"
  by (cases "nbRecent d < cap") (auto simp: addValue_def Let_def)

lemma addValue_ring:
  assumes ok: "ring_ok cap d" and add: "addValue cap d vals x = (d', vals')"
  shows "ring_ok cap d' \<and> ringList cap d' vals' = window cap (ringList cap d vals) x"
proof -
  have d': "nbRecent d' = (if nbRecent d < cap then nbRecent d + 1 else nbRecent d)"
      "ptr d' = (if nbRecent d < cap then ptr d else if ptr d + 1 = cap then 0 else ptr d + 1)"
      "vals' = (if nbRecent d < cap then vals(nbRecent d := x) else vals(ptr d := x))"
    using addValue_step [OF add] by simp_all
  have ok': "ring_ok cap d'" using ok unfolding ring_ok_def d'(1,2) by simp
  let ?p = "ptr d" and ?n = "nbRecent d"
  have len: "int (length (ringList cap d vals)) = ?n" by (rule length_ringList [OF ok])
  have list: "ringList cap d' vals' = window cap (ringList cap d vals) x"
  proof (cases "?n < cap")
    case True
    have n: "0 \<le> ?n" "?p = 0" using ok True by (auto simp: ring_ok_def)
    have m: "map vals' [0..?n] = map vals [0..?n - 1] @ [x]" using upto_rec2 [of 0 ?n] n True d'(3) by simp
    have "ringList cap d' vals' = map vals' [0..?n]"
    proof (cases "?n + 1 < cap")
      case True
      then show ?thesis using \<open>?n < cap\<close> d'(1) by (simp add: ringList_def)
    next
      case False
      then have "cap = ?n + 1" using True by simp
      then show ?thesis using d'(1,2) n by (simp add: ringList_def)
    qed
    then show ?thesis using True m len by (simp add: window_def) (simp add: ringList_def)
  next
    case False
    have n: "?n = cap" and p: "0 \<le> ?p" "?p < cap" using ok False by (auto simp: ring_ok_def)
    have old: "[?p..cap - 1] = ?p # [?p + 1..cap - 1]" by (rule upto_rec1) (use p in simp)
    have new: "map vals' [0..?p] = map vals [0..?p - 1] @ [x]" using upto_rec2 [of 0 ?p] p False d'(3) by simp
    have same: "map vals' [?p + 1..cap - 1] = map vals [?p + 1..cap - 1]" using False d'(3) by simp
    have "ringList cap d' vals' = map vals' ([?p + 1..cap - 1] @ [0..?p])"
    proof (cases "?p + 1 = cap")
      case True
      then have "cap = ?p + 1" by simp
      then show ?thesis using False d'(1,2) n by (simp add: ringList_def)
    next
      case False
      then show ?thesis using \<open>\<not> ?n < cap\<close> d'(1,2) n by (simp add: ringList_def)
    qed
    then show ?thesis using False n len new same by (simp add: window_def) (simp add: ringList_def old)
  qed
  from ok' list show ?thesis ..
qed

definition stats_ok :: "lbdStats \<Rightarrow> bool" where
  "stats_ok l \<longleftrightarrow> ring_ok nbMaxRecent (lbdData l) \<and> ring_ok nbMaxTrail (trailData l)"

definition lbdWindow :: "lbdStats \<Rightarrow> int list" where
  "lbdWindow l = ringList nbMaxRecent (lbdData l) (recentVals l)"

definition trailWindow :: "lbdStats \<Rightarrow> int list" where
  "trailWindow l = ringList nbMaxTrail (trailData l) (recentTrails l)"

text \<open>
  C40. The two ring buffers of the statistics implement sliding windows: they start empty, \<open>addLbd\<close>
  and \<open>addConflict\<close> append a value to the window of the last 50 distances or of the last 5000 trail
  sizes and drop the oldest one when it is full, and \<open>clear\<close> empties the first one. \<open>addConflict\<close>
  clears the distances only when both windows are full, and \<open>mustRestart\<close> is false before the
  window of distances is full. Positions stay in range all along. Nothing is said of the averages,
  which are rounded.
\<close>

theorem lbd_windows:
  assumes "stats_ok l"
  shows "stats_ok emptyLbdStats \<and> lbdWindow emptyLbdStats = [] \<and> trailWindow emptyLbdStats = []
    \<and> stats_ok (addLbd l n) \<and> lbdWindow (addLbd l n) = window 50 (lbdWindow l) n \<and> trailWindow (addLbd l n) = trailWindow l
    \<and> stats_ok (addConflict l sz) \<and> trailWindow (addConflict l sz) = window 5000 (trailWindow l) sz
    \<and> (lbdWindow (addConflict l sz) = lbdWindow l
       \<or> lbdWindow (addConflict l sz) = [] \<and> length (lbdWindow l) = 50 \<and> length (trailWindow (addConflict l sz)) = 5000)
    \<and> stats_ok (lbd_clear l) \<and> lbdWindow (lbd_clear l) = [] \<and> trailWindow (lbd_clear l) = trailWindow l
    \<and> (mustRestart l \<longrightarrow> length (lbdWindow l) = 50)"
proof -
  have empty: "stats_ok emptyLbdStats \<and> lbdWindow emptyLbdStats = [] \<and> trailWindow emptyLbdStats = []"
    by (simp add: stats_ok_def emptyLbdStats_def emptyQueueData_def ring_ok_def lbdWindow_def trailWindow_def
        ringList_def nbMaxRecent_def nbMaxTrail_def)
  have clear: "stats_ok (lbd_clear l) \<and> lbdWindow (lbd_clear l) = [] \<and> trailWindow (lbd_clear l) = trailWindow l"
    if "stats_ok l" for l
    using that by (simp add: stats_ok_def lbd_clear_def ring_ok_def lbdWindow_def trailWindow_def ringList_def
        nbMaxRecent_def)
  have lbd: "stats_ok (addLbd l n) \<and> lbdWindow (addLbd l n) = window 50 (lbdWindow l) n
      \<and> trailWindow (addLbd l n) = trailWindow l"
    using addValue_ring [of nbMaxRecent "lbdData l" "recentVals l" n] assms
    by (cases "addValue nbMaxRecent (lbdData l) (recentVals l) n") (simp add: stats_ok_def addLbd_def lbdWindow_def trailWindow_def nbMaxRecent_def)
  obtain d vals where dv: "addValue nbMaxTrail (trailData l) (recentTrails l) sz = (d, vals)"
    by (cases "addValue nbMaxTrail (trailData l) (recentTrails l) sz")
  let ?l = "l\<lparr>trailData := d, recentTrails := vals\<rparr>"
  have l: "stats_ok ?l" "lbdWindow ?l = lbdWindow l" "trailWindow ?l = window 5000 (trailWindow l) sz"
    using addValue_ring [of nbMaxTrail "trailData l", OF _ dv] assms
    by (simp_all add: stats_ok_def lbdWindow_def trailWindow_def nbMaxTrail_def)
  have full: "int (length (lbdWindow l)) = nbRecent (lbdData l)" "int (length (trailWindow ?l)) = nbRecent d"
    using length_ringList [of nbMaxRecent "lbdData l"] length_ringList [of nbMaxTrail d] assms l(1)
    by (simp_all add: stats_ok_def lbdWindow_def trailWindow_def)
  have "addConflict l sz = ?l
      \<or> addConflict l sz = lbd_clear ?l \<and> nbRecent d = 5000 \<and> nbRecent (lbdData l) = 50"
    using dv by (auto simp: addConflict_def Let_def nbMaxTrail_def nbMaxRecent_def)
  then have conflict: "stats_ok (addConflict l sz) \<and> trailWindow (addConflict l sz) = window 5000 (trailWindow l) sz
    \<and> (lbdWindow (addConflict l sz) = lbdWindow l
       \<or> lbdWindow (addConflict l sz) = [] \<and> length (lbdWindow l) = 50 \<and> length (trailWindow (addConflict l sz)) = 5000)"
    using l clear [OF l(1)] full by (elim disjE conjE) simp_all
  have "mustRestart l \<longrightarrow> length (lbdWindow l) = 50"
    using full(1) assms by (auto simp: mustRestart_def stats_ok_def ring_ok_def nbMaxRecent_def)
  with empty lbd conflict clear [OF assms] show ?thesis by blast
qed

theorem lbd_windows_witness:
  "lbdWindow (addLbd (addLbd emptyLbdStats 7) 3) = [7, 3] \<and> stats_ok (addLbd (addLbd emptyLbdStats 7) 3)"
proof -
  have "stats_ok emptyLbdStats"
    by (simp add: stats_ok_def emptyLbdStats_def emptyQueueData_def ring_ok_def nbMaxRecent_def nbMaxTrail_def)
  note first = lbd_windows [OF this, of 7 0]
  then have "stats_ok (addLbd emptyLbdStats 7)" by blast
  from lbd_windows [OF this, of 3 0] first show ?thesis by (simp add: window_def)
qed

end
