(* ===== verification/GoStrings.thy ===== *)
theory GoStrings
  imports Prelude
begin

text \<open>
  The functions of Go's standard library that the parsers call: \<open>strings.Fields\<close> on ASCII text,
  \<open>strconv.Atoi\<close> with its 64-bit range, \<open>strings.HasPrefix\<close>, the printing of an integer, the line
  scanner of \<open>bufio\<close> and the largest slice that \<open>make\<close> accepts. \<open>None\<close> is the error of \<open>Atoi\<close>.
\<close>

section \<open>Definitions\<close>

definition asciiSpace :: "char \<Rightarrow> bool" where
  "asciiSpace c \<longleftrightarrow> c = CHR '' '' \<or> c = CHR 0x09 \<or> c = CHR 0x0A \<or> c = CHR 0x0B \<or> c = CHR 0x0C \<or> c = CHR 0x0D"

text \<open>\<open>fieldsFrom w s\<close> splits \<open>s\<close>, where \<open>w\<close> is the part of the current word already read.\<close>

fun fieldsFrom :: "string \<Rightarrow> string \<Rightarrow> string list" where
  "fieldsFrom w [] = (if w = [] then [] else [w])"
| "fieldsFrom w (c # s) =
     (if asciiSpace c then (if w = [] then [] else [w]) @ fieldsFrom [] s else fieldsFrom (w @ [c]) s)"

definition Fields :: "string \<Rightarrow> string list" where
  "Fields s = fieldsFrom [] s"

definition isDigit :: "char \<Rightarrow> bool" where
  "isDigit c \<longleftrightarrow> 48 \<le> (of_char c :: nat) \<and> (of_char c :: nat) \<le> 57"

definition inInt64 :: "int \<Rightarrow> bool" where
  "inInt64 n \<longleftrightarrow> - (2 ^ 63) \<le> n \<and> n < 2 ^ 63"

definition Atoi :: "string \<Rightarrow> int option" where
  "Atoi s =
     (let neg = (s \<noteq> [] \<and> hd s = CHR ''-'');
          ds = (if s \<noteq> [] \<and> (hd s = CHR ''-'' \<or> hd s = CHR ''+'') then tl s else s);
          n = (if neg then - int (undigits ds) else int (undigits ds))
      in if ds = [] \<or> \<not> list_all isDigit ds \<or> \<not> inInt64 n then None else Some n)"

definition HasPrefix :: "string \<Rightarrow> string \<Rightarrow> bool" where
  "HasPrefix s p \<longleftrightarrow> take (length p) s = p"

text \<open>\<open>%d\<close> for an integer.\<close>

definition showInt :: "int \<Rightarrow> string" where
  "showInt n = (if n < 0 then CHR ''-'' # itoa (nat (- n)) else itoa (nat n))"

text \<open>
  \<open>make([]T, n)\<close> panics when the length is negative or the \<open>n\<close> elements of \<open>sz\<close> bytes exceed the
  address space of the runtime, 48 bits on 64-bit machines.
\<close>

definition makeFits :: "int \<Rightarrow> int \<Rightarrow> bool" where
  "makeFits sz n \<longleftrightarrow> 0 \<le> n \<and> sz * n \<le> 2 ^ 48"

text \<open>
  The lines that a \<open>bufio.Scanner\<close> yields, and whether it stops with an error: the newline and one
  carriage return before it are cut, what follows the last newline is a line unless it is empty, and
  a line that fills the buffer of 64 kilobytes before its end is found is an error. \<open>w\<close> is the part
  of the line already read.
\<close>

definition dropCR :: "string \<Rightarrow> string" where
  "dropCR s = (if s \<noteq> [] \<and> last s = CHR 0x0D then butlast s else s)"

fun scanFrom :: "string \<Rightarrow> string \<Rightarrow> string list \<times> bool" where
  "scanFrom w [] =
     (if w = [] then ([], False) else if int (length w) \<ge> 65536 then ([], True) else ([dropCR w], False))"
| "scanFrom w (c # s) =
     (if c = CHR 0x0A then
        if int (length w) \<ge> 65536 then ([], True)
        else (let (ls, err) = scanFrom [] s in (dropCR w # ls, err))
      else scanFrom (w @ [c]) s)"

definition scanLines :: "string \<Rightarrow> string list \<times> bool" where
  "scanLines s = scanFrom [] s"

text \<open>\<open>strings.Join(lines, "\\n")\<close>\<close>

fun joinLines :: "string list \<Rightarrow> string" where
  "joinLines [] = []"
| "joinLines [s] = s"
| "joinLines (s # t # ss) = s @ CHR 0x0A # joinLines (t # ss)"

section \<open>Printing and reading numbers\<close>

lemma digit_isDigit: "n < 10 \<Longrightarrow> isDigit (digit n)"
  by (simp add: isDigit_def of_char_digit)

lemma itoa_digits: "list_all isDigit (itoa n)"
  by (induction n rule: itoa.induct) (simp add: itoa.simps digit_isDigit)

lemma isDigit_cases:
  "isDigit c \<Longrightarrow> c \<noteq> CHR ''-'' \<and> c \<noteq> CHR ''+'' \<and> c \<noteq> CHR ''x'' \<and> c \<noteq> CHR ''~'' \<and> \<not> asciiSpace c"
  by (auto simp: isDigit_def asciiSpace_def)

lemma itoa_hd: "isDigit (hd (itoa n))"
  using itoa_digits [of n] by (cases "itoa n") (simp_all add: itoa_nonempty [of n, simplified])

lemma Atoi_showInt [simp]: "inInt64 n \<Longrightarrow> Atoi (showInt n) = Some n"
  using itoa_digits [of "nat n"] itoa_digits [of "nat (- n)"] isDigit_cases [OF itoa_hd [of "nat n"]]
  by (auto simp: Atoi_def showInt_def Let_def)

lemma showInt_nonempty [simp]: "showInt n \<noteq> []"
  by (simp add: showInt_def)

definition wordLike :: "string \<Rightarrow> bool" where
  "wordLike s \<longleftrightarrow> s \<noteq> [] \<and> (\<forall>c \<in> set s. \<not> asciiSpace c)"

lemma showInt_word: "wordLike (showInt n)"
proof -
  have "\<not> asciiSpace c" if "c \<in> set (itoa m)" for c m
    using itoa_digits [of m] that isDigit_cases by (auto simp: list_all_iff)
  then show ?thesis by (auto simp: wordLike_def showInt_def) (simp_all add: asciiSpace_def)
qed

section \<open>Splitting a line\<close>

fun joinSpace :: "string list \<Rightarrow> string" where
  "joinSpace [] = ''''"
| "joinSpace [s] = s"
| "joinSpace (s # t # ss) = s @ '' '' @ joinSpace (t # ss)"

lemma fieldsFrom_word: "\<forall>c \<in> set s. \<not> asciiSpace c \<Longrightarrow> fieldsFrom w (s @ r) = fieldsFrom (w @ s) r"
  by (induction s arbitrary: w) auto

lemma Fields_joinSpace: "\<forall>s \<in> set ss. wordLike s \<Longrightarrow> Fields (joinSpace ss) = ss"
proof (induction ss rule: joinSpace.induct)
  case (2 s)
  then show ?case using fieldsFrom_word [of s "[]" "[]"] by (simp add: Fields_def wordLike_def)
next
  case (3 s t ss)
  have "asciiSpace CHR '' ''" by (simp add: asciiSpace_def)
  then show ?case
    using 3 fieldsFrom_word [of s "[]" "'' '' @ joinSpace (t # ss)"] by (simp add: Fields_def wordLike_def)
qed (simp add: Fields_def)

lemma wordLike_joinSpace:
  "\<forall>s \<in> set ss. wordLike s \<Longrightarrow> \<forall>c \<in> set (joinSpace ss). \<not> asciiSpace c \<or> c = CHR '' ''"
  by (induction ss rule: joinSpace.induct) (auto simp: wordLike_def)

section \<open>Splitting a text into lines\<close>

text \<open>A line that the scanner gives back as it is.\<close>

definition lineLike :: "string \<Rightarrow> bool" where
  "lineLike s \<longleftrightarrow> CHR 0x0A \<notin> set s \<and> CHR 0x0D \<notin> set s \<and> length s < 65536"

lemma scanFrom_line: "CHR 0x0A \<notin> set s \<Longrightarrow> scanFrom w (s @ r) = scanFrom (w @ s) r"
  by (induction s arbitrary: w) auto

lemma dropCR_line: "lineLike s \<Longrightarrow> dropCR s = s"
  unfolding dropCR_def lineLike_def by (metis last_in_set)

lemma scanLines_joinLines:
  "\<forall>s \<in> set ss. lineLike s \<Longrightarrow> ss \<noteq> [] \<Longrightarrow> last ss \<noteq> [] \<Longrightarrow> scanLines (joinLines ss) = (ss, False)"
proof (induction ss rule: joinLines.induct)
  case (2 s)
  then show ?case
    using scanFrom_line [of s "[]" "[]"] dropCR_line [of s] by (simp add: scanLines_def lineLike_def)
next
  case (3 s t ss)
  then show ?case
    using scanFrom_line [of s "[]" "CHR 0x0A # joinLines (t # ss)"] dropCR_line [of s]
    by (simp add: scanLines_def lineLike_def)
qed simp

lemma joinSpace_line:
  assumes "\<forall>s \<in> set ss. wordLike s" and "length (joinSpace ss) < 65536"
  shows "lineLike (joinSpace ss)"
proof -
  have "asciiSpace CHR 0x0A" "asciiSpace CHR 0x0D" by (simp_all add: asciiSpace_def)
  then show ?thesis
    using wordLike_joinSpace [OF assms(1)] assms(2) unfolding lineLike_def by fastforce
qed

lemma joinSpace_nonempty: "\<forall>s \<in> set ss. wordLike s \<Longrightarrow> ss \<noteq> [] \<Longrightarrow> joinSpace ss \<noteq> []"
  by (induction ss rule: joinSpace.induct) (auto simp: wordLike_def)

lemma length_itoa: "n < 10 ^ k \<Longrightarrow> 0 < k \<Longrightarrow> length (itoa n) \<le> k"
proof (induction k arbitrary: n)
  case (Suc k)
  show ?case
  proof (cases "n < 10")
    case False
    then have "0 < k" using Suc.prems by (cases k) auto
    moreover have "n div 10 < 10 ^ k" using Suc.prems by (simp add: less_mult_imp_div_less)
    ultimately show ?thesis using Suc.IH [of "n div 10"] False by (simp add: itoa.simps [of n])
  qed (simp add: itoa.simps)
qed simp

lemma length_showInt: "inInt64 n \<Longrightarrow> length (showInt n) \<le> 20"
proof -
  assume n: "inInt64 n"
  have "length (itoa m) \<le> 19" if "m \<le> 2 ^ 63" for m
    using that by (intro length_itoa) auto
  moreover have "nat n \<le> 2 ^ 63" "nat (- n) \<le> 2 ^ 63" using n by (auto simp: inInt64_def)
  ultimately have "length (itoa (nat n)) \<le> 19" "length (itoa (nat (- n))) \<le> 19" by blast+
  then show ?thesis by (simp add: showInt_def)
qed

end
