(* ===== verification/Solver.thy ===== *)
theory Solver
  imports Problem Queue Restart GoStrings
begin

text \<open>
  The state of the decision procedure and its small operations (\<open>solver/solver.go\<close>).

  A clause is shared by pointer between the watcher lists, the reasons and the list of learned
  clauses, and the search permutes and locks it in place: the state has a \<open>store\<close> of clauses and
  a pointer is an index of it. The slice of activities is shared with the variable queue, which
  holds the only copy here. Activities, increments and decays are floating-point numbers
  (\<open>GoFloat\<close>), rounded after each operation. The lines the code
  writes to standard output or to a channel when it is \<open>Certified\<close> are appended to
  \<open>certLines\<close>. Counters that are only displayed are left out.

  Each function of the code that changes the solver returns the changed state.
\<close>

section \<open>The state\<close>

type_synonym cid = nat

record watcher =
  other :: lit
  w_clause :: cid

record solver =
  store :: "clause list"
  nbVars :: int
  sStatus :: status
  Certified :: bool
  certLines :: "string list"
  nbMax :: int
  idxReduce :: int
  wlistBin :: "watcher list list"
  wlist :: "watcher list list"
  wlistPb :: "cid list list"
  wlistCardAMO :: "cid list list"
  origClauses :: "cid list"
  learned :: "cid list"
  trail :: "lit list"
  model :: "declevel list"
  lastModel :: "declevel list option"
  polarity :: "bool list"
  assumptions :: "bool list"
  reason :: "cid option list"
  varQueue :: "rat queue"
  varInc :: rat
  clauseInc :: rat
  varDecay :: rat
  lbdSt :: lbdStats
  NbConflicts :: int
  NbRestarts :: int
  sMinLits :: "lit list option"
  sMinWeights :: "int list option"
  hypothesis :: "lit list"
  bufLit :: lit

definition getC :: "solver \<Rightarrow> cid \<Rightarrow> clause option" where
  "getC s c = get (store s) c"

definition updC :: "solver \<Rightarrow> cid \<Rightarrow> clause \<Rightarrow> solver option" where
  "updC s c cl = do { st \<leftarrow> put (store s) c cl; Some (s\<lparr>store := st\<rparr>) }"

section \<open>Bindings\<close>

definition lvlToSignedLvl :: "lit \<Rightarrow> declevel \<Rightarrow> declevel" where
  "lvlToSignedLvl l lvl = (if IsPositive l then lvl else - lvl)"

definition litStatus :: "solver \<Rightarrow> lit \<Rightarrow> status option" where
  "litStatus s l = do {
     assign \<leftarrow> geti (model s) (Lit_Var l);
     Some (if assign = 0 then Indet else if (assign > 0) = IsPositive l then Sat else Unsat) }"

definition sOptim :: "solver \<Rightarrow> bool" where
  "sOptim s \<longleftrightarrow> sMinLits s \<noteq> None"

fun negPolarity :: "bool list \<Rightarrow> lit list \<Rightarrow> bool list option" where
  "negPolarity ps [] = Some ps"
| "negPolarity ps (l # ls) = do { ps \<leftarrow> puti ps (Lit_Var l) (\<not> IsPositive l); negPolarity ps ls }"

definition resetOptimPolarity :: "solver \<Rightarrow> solver option" where
  "resetOptimPolarity s = (case sMinLits s of
     None \<Rightarrow> Some s
   | Some ls \<Rightarrow> do { ps \<leftarrow> negPolarity (polarity s) ls; Some (s\<lparr>polarity := ps\<rparr>) })"

text \<open>The loop of \<open>initOptimActivity\<close>, at index \<open>i\<close>.\<close>

fun optimActivity :: "rat list \<Rightarrow> int list option \<Rightarrow> nat \<Rightarrow> lit list \<Rightarrow> rat list option" where
  "optimActivity as ws i [] = Some as"
| "optimActivity as ws i (l # ls) = do {
     w \<leftarrow> (case ws of None \<Rightarrow> Some 1 | Some ws \<Rightarrow> get ws i);
     a \<leftarrow> geti as (Lit_Var l);
     as \<leftarrow> puti as (Lit_Var l) (float64 (a + float64 (rat_of_int w)));
     optimActivity as ws (Suc i) ls }"

section \<open>Activities\<close>

definition varDecayActivity :: "solver \<Rightarrow> solver" where
  "varDecayActivity s = s\<lparr>varInc := float64 (varInc s * float64 (1 / varDecay s))\<rparr>"

text \<open>The constants \<open>1e100\<close> and \<open>1e30\<close>, as the \<open>float64\<close> and the \<open>float32\<close> next to them.\<close>

definition maxVarActivity :: rat where
  "maxVarActivity = 10000000000000000159028911097599180468360808563945281389781327557747838772170381060813469985856815104"

definition maxClauseActivity :: rat where
  "maxClauseActivity = 1000000015047466219876688855040"

lemma max_activities: "maxVarActivity = float64 (10 ^ 100)" "maxClauseActivity = float32 (10 ^ 30)"
  by code_simp+

definition rescaleVar :: "rat \<Rightarrow> rat" where
  "rescaleVar x = float64 (x * float64 (1 / 10 ^ 100))"

definition rescaleClause :: "rat \<Rightarrow> rat" where
  "rescaleClause x = float32 (x * float32 (1 / 10 ^ 30))"

definition varBumpActivity :: "solver \<Rightarrow> var \<Rightarrow> solver option" where
  "varBumpActivity s v = do {
     a \<leftarrow> geti (activity (varQueue s)) v;
     let a = float64 (a + varInc s);
     acts \<leftarrow> puti (activity (varQueue s)) v a;
     let (acts, inc) = (if a > maxVarActivity then (map rescaleVar acts, rescaleVar (varInc s))
                        else (acts, varInc s));
     let q = (varQueue s)\<lparr>activity := acts\<rparr>;
     q \<leftarrow> (if q_contains q (nat v) then decrease q (nat v) else Some q);
     Some (s\<lparr>varQueue := q, varInc := inc\<rparr>) }"

definition clauseDecay :: rat where
  "clauseDecay = 999 / 1000"

definition clauseDecayActivity :: "solver \<Rightarrow> solver" where
  "clauseDecayActivity s = s\<lparr>clauseInc := float32 (clauseInc s * float32 (1 / clauseDecay))\<rparr>"

text \<open>The loop that rescales the activities of the learned clauses.\<close>

fun rescaleClauses :: "clause list \<Rightarrow> cid list \<Rightarrow> clause list option" where
  "rescaleClauses st [] = Some st"
| "rescaleClauses st (c # cs) = do {
     cl \<leftarrow> get st c;
     st \<leftarrow> put st c (cl\<lparr>c_activity := rescaleClause (c_activity cl)\<rparr>);
     rescaleClauses st cs }"

definition clauseBumpActivity :: "solver \<Rightarrow> cid \<Rightarrow> solver option" where
  "clauseBumpActivity s c = do {
     cl \<leftarrow> getC s c;
     if Learned cl then do {
       let act = float32 (c_activity cl + clauseInc s);
       s \<leftarrow> updC s c (cl\<lparr>c_activity := act\<rparr>);
       if act > maxClauseActivity then do {
         st \<leftarrow> rescaleClauses (store s) (learned s);
         Some (s\<lparr>store := st, clauseInc := rescaleClause (clauseInc s)\<rparr>) }
       else Some s }
     else Some s }"

section \<open>Choosing and unbinding\<close>

definition chooseLit :: "solver \<Rightarrow> (lit \<times> solver) option" where
  "chooseLit s = do {
     (r, q) \<leftarrow> chooseLoop (model s) (varQueue s);
     let s = s\<lparr>varQueue := q\<rparr>;
     case r of
       None \<Rightarrow> Some (- 1, s)
     | Some v \<Rightarrow> do { p \<leftarrow> get (polarity s) v; Some (SignedLit (int v) (\<not> p), s) } }"

text \<open>The first loop of \<open>cleanupBindings\<close>: how much of the trail stays.\<close>

fun keptLength :: "declevel list \<Rightarrow> lit list \<Rightarrow> declevel \<Rightarrow> nat option" where
  "keptLength m [] lvl = Some 0"
| "keptLength m (l # ls) lvl = do {
     a \<leftarrow> geti m (Lit_Var l);
     if \<bar>a\<bar> \<le> lvl then do { n \<leftarrow> keptLength m ls lvl; Some (n + 1) } else Some 0 }"

text \<open>The second loop: unbind the rest, remembering the variables it inserts into the queue.\<close>

definition unbindReason :: "solver \<Rightarrow> var \<Rightarrow> solver option" where
  "unbindReason s v = do {
     r \<leftarrow> geti (reason s) v;
     case r of
       None \<Rightarrow> Some s
     | Some c \<Rightarrow> do {
         cl \<leftarrow> getC s c;
         s \<leftarrow> updC s c (unlock cl);
         rs \<leftarrow> puti (reason s) v None;
         Some (s\<lparr>reason := rs\<rparr>) } }"

fun unbindLits :: "solver \<Rightarrow> lit list \<Rightarrow> nat list \<Rightarrow> (solver \<times> nat list) option" where
  "unbindLits s [] toInsert = Some (s, toInsert)"
| "unbindLits s (l # ls) toInsert = do {
     let v = Lit_Var l;
     m \<leftarrow> puti (model s) v 0;
     s \<leftarrow> unbindReason (s\<lparr>model := m\<rparr>) v;
     ps \<leftarrow> puti (polarity s) v (IsPositive l);
     let s = s\<lparr>polarity := ps\<rparr>;
     if q_contains (varQueue s) (nat v) then unbindLits s ls toInsert
     else do {
       q \<leftarrow> q_insert (varQueue s) (nat v);
       unbindLits (s\<lparr>varQueue := q\<rparr>) ls (toInsert @ [nat v]) } }"

text \<open>The third loop inserts the same variables once more, the last one first.\<close>

definition cleanupBindings :: "solver \<Rightarrow> declevel \<Rightarrow> solver option" where
  "cleanupBindings s lvl = do {
     i \<leftarrow> keptLength (model s) (trail s) lvl;
     (s, toInsert) \<leftarrow> unbindLits s (drop i (trail s)) [];
     let s = s\<lparr>trail := take i (trail s)\<rparr>;
     q \<leftarrow> insertAll (varQueue s) (rev toInsert);
     resetOptimPolarity (s\<lparr>varQueue := q\<rparr>) }"

text \<open>
  \<open>make([]int, s.nbVars)\<close> makes a slice of \<open>nbVars\<close> zeros, after which the unbound variables are
  appended.
\<close>

definition rebuildOrderHeap :: "solver \<Rightarrow> solver option" where
  "rebuildOrderHeap s =
     (if nbVars s < 0 then None
      else do {
        unbound \<leftarrow> (if nat (nbVars s) \<le> length (model s)
                   then Some (filter (\<lambda>v. model s ! v = 0) [0..<nat (nbVars s)]) else None);
        q \<leftarrow> q_build (varQueue s) (replicate (nat (nbVars s)) 0 @ unbound);
        Some (s\<lparr>varQueue := q\<rparr>) })"

definition backtrackData :: "clause \<Rightarrow> declevel list \<Rightarrow> (declevel \<times> lit) option" where
  "backtrackData c m = do {
     l1 \<leftarrow> Get c 1;
     a \<leftarrow> geti m (Lit_Var l1);
     l0 \<leftarrow> Get c 0;
     Some (\<bar>a\<bar>, l0) }"

section \<open>Certificates\<close>

text \<open>\<open>Clause.CNF\<close>: every literal followed by a space, then the final 0.\<close>

definition c_CNF :: "clause \<Rightarrow> string" where
  "c_CNF c = concat (map (\<lambda>l. showInt (Lit_Int l) @ '' '') (lits c)) @ ''0''"

definition certify :: "solver \<Rightarrow> string \<Rightarrow> solver" where
  "certify s line = (if Certified s then s\<lparr>certLines := certLines s @ [line]\<rparr> else s)"

definition addLearnedUnit :: "solver \<Rightarrow> lit \<Rightarrow> solver option" where
  "addLearnedUnit s unit = do {
     m \<leftarrow> puti (model s) (Lit_Var unit) (lvlToSignedLvl unit 1);
     Some (certify (s\<lparr>model := m\<rparr>) (showInt (Lit_Int unit) @ '' 0'')) }"

definition setUnsat :: "solver \<Rightarrow> solver" where
  "setUnsat s = (certify s ''0'')\<lparr>sStatus := Unsat\<rparr>"

end
