(* ===== verification/Watch.thy ===== *)
theory Watch
  imports Solver
begin

text \<open>
  Watcher lists and propagation (\<open>solver/watcher.go\<close>). For each literal, the lists hold the
  clauses to look at when it becomes true: the binary clauses where its negation appears, the
  longer clauses where its negation is in one of the first two places, and the cardinality and
  pseudo-boolean constraints.

  The code iterates over watcher lists that it changes on the way. A list of binary clauses is
  not changed by the loop over it. \<open>simplifyPropClauses\<close> compacts its list in place: \<open>kept\<close> holds
  what it has kept so far. The loop over \<open>wlistPb\<close> reads the slice it started with, where
  \<open>removeFrom\<close> only overwrites places already visited.
\<close>

section \<open>Watching\<close>

definition watchPb :: "solver \<Rightarrow> lit \<Rightarrow> cid \<Rightarrow> solver option" where
  "watchPb s l c = do { ws \<leftarrow> appendAt (wlistPb s) (Negation l) c; Some (s\<lparr>wlistPb := ws\<rparr>) }"

text \<open>The loop of \<open>watchPB\<close>, at index \<open>i\<close> with the weights \<open>acc\<close> watched so far.\<close>

function watchPBLoop :: "solver \<Rightarrow> cid \<Rightarrow> int \<Rightarrow> nat \<Rightarrow> int \<Rightarrow> solver option" where
  "watchPBLoop s c goal i acc = do {
     cl \<leftarrow> getC s c;
     if acc < goal \<and> i < Len cl then do {
       l \<leftarrow> Get cl i;
       s \<leftarrow> watchPb s l c;
       p \<leftarrow> pbData cl;
       wd \<leftarrow> put (watched p) i True;
       w \<leftarrow> get (weights p) i;
       s \<leftarrow> updC s c (cl\<lparr>pbData := Some (p\<lparr>watched := wd\<rparr>)\<rparr>);
       watchPBLoop s c goal (Suc i) (int64 (acc + w)) }
     else Some s }"
  by pat_completeness auto
termination
  by (relation "measure (\<lambda>(s, c, goal, i, acc). (case getC s c of None \<Rightarrow> 0 | Some cl \<Rightarrow> Len cl) - i)")
    (auto simp: getC_def updC_def watchPb_def Len_def get_def put_def bind_eq_Some_conv split: if_splits)

declare watchPBLoop.simps [simp del]

definition watchPB :: "solver \<Rightarrow> cid \<Rightarrow> solver option" where
  "watchPB s c = do {
     cl \<leftarrow> getC s c;
     w0 \<leftarrow> Weight cl 0;
     watchPBLoop s c (int64 (w0 + Cardinality cl)) 0 0 }"

text \<open>Watch the literals at the first \<open>n\<close> indices.\<close>

fun watchFirst :: "solver \<Rightarrow> cid \<Rightarrow> clause \<Rightarrow> nat \<Rightarrow> solver option" where
  "watchFirst s c cl 0 = Some s"
| "watchFirst s c cl (Suc n) = do {
     s \<leftarrow> watchFirst s c cl n;
     l \<leftarrow> Get cl n;
     watchPb s l c }"

fun watchFirstAMO :: "solver \<Rightarrow> cid \<Rightarrow> clause \<Rightarrow> nat \<Rightarrow> solver option" where
  "watchFirstAMO s c cl 0 = Some s"
| "watchFirstAMO s c cl (Suc n) = do {
     s \<leftarrow> watchFirstAMO s c cl n;
     l \<leftarrow> Get cl n;
     ws \<leftarrow> appendAt (wlistCardAMO s) (Negation l) c;
     Some (s\<lparr>wlistCardAMO := ws\<rparr>) }"

definition watchCardAMO :: "solver \<Rightarrow> cid \<Rightarrow> int \<Rightarrow> solver option" where
  "watchCardAMO s c cd = do { cl \<leftarrow> getC s c; watchFirstAMO s c cl (nat (cd + 1)) }"

definition watchClause :: "solver \<Rightarrow> cid \<Rightarrow> solver option" where
  "watchClause s c = do {
     cl \<leftarrow> getC s c;
     if PseudoBoolean cl then watchPB s c
     else if Cardinality cl > 1 then
       if Cardinality cl = int (Len cl) + 1 then watchCardAMO s c (Cardinality cl)
       else watchFirst s c cl (nat (Cardinality cl + 1))
     else do {
       l0 \<leftarrow> First cl;
       l1 \<leftarrow> Second cl;
       if Len cl = 2 then do {
         ws \<leftarrow> appendAt (wlistBin s) (Negation l0) \<lparr>other = l1, w_clause = c\<rparr>;
         ws \<leftarrow> appendAt ws (Negation l1) \<lparr>other = l0, w_clause = c\<rparr>;
         Some (s\<lparr>wlistBin := ws\<rparr>) }
       else do {
         ws \<leftarrow> appendAt (wlist s) (Negation l0) \<lparr>other = l1, w_clause = c\<rparr>;
         ws \<leftarrow> appendAt ws (Negation l1) \<lparr>other = l0, w_clause = c\<rparr>;
         Some (s\<lparr>wlist := ws\<rparr>) } } }"

fun watchAll :: "solver \<Rightarrow> cid list \<Rightarrow> solver option" where
  "watchAll s [] = Some s"
| "watchAll s (c # cs) = do { s \<leftarrow> watchClause s c; watchAll s cs }"

text \<open>\<open>initWatcherList\<close>: the clauses of the problem become the store.\<close>

definition initNbMaxClauses :: int where "initNbMaxClauses = 2000"
definition incrNbMaxClauses :: int where "incrNbMaxClauses = 300"
definition incrPostponeNbMax :: int where "incrPostponeNbMax = 1000"

definition initWatcherList :: "solver \<Rightarrow> clause list \<Rightarrow> solver option" where
  "initWatcherList s cls =
     (if nbVars s < 0 then None
      else
        let n = nat (nbVars s) * 2; ids = [0..<length cls] in
        watchAll (s\<lparr>store := cls, nbMax := initNbMaxClauses, idxReduce := 1,
          wlistBin := replicate n [], wlist := replicate n [], wlistPb := replicate n [],
          wlistCardAMO := replicate n [], origClauses := ids, learned := []\<rparr>) ids)"

definition addVarWatcherList :: "solver \<Rightarrow> var \<Rightarrow> solver" where
  "addVarWatcherList s v =
     (let n = 2 * nat (Var_Int v - nbVars s) in
      s\<lparr>wlistBin := wlistBin s @ replicate n [], wlist := wlist s @ replicate n [],
        wlistPb := wlistPb s @ replicate n [], wlistCardAMO := wlistCardAMO s @ replicate n []\<rparr>)"

text \<open>A new clause object, as it enters the solver.\<close>

definition alloc :: "solver \<Rightarrow> clause \<Rightarrow> cid \<times> solver" where
  "alloc s cl = (length (store s), s\<lparr>store := store s @ [cl]\<rparr>)"

definition appendClause :: "solver \<Rightarrow> cid \<Rightarrow> solver option" where
  "appendClause s c = watchClause (s\<lparr>origClauses := origClauses s @ [c]\<rparr>) c"

definition bumpNbMax :: "solver \<Rightarrow> solver" where
  "bumpNbMax s = s\<lparr>nbMax := nbMax s + incrNbMaxClauses\<rparr>"

definition postponeNbMax :: "solver \<Rightarrow> solver" where
  "postponeNbMax s = s\<lparr>nbMax := nbMax s + incrPostponeNbMax\<rparr>"

definition addLearned :: "solver \<Rightarrow> cid \<Rightarrow> solver option" where
  "addLearned s c = do {
     s \<leftarrow> watchClause (s\<lparr>learned := learned s @ [c]\<rparr>) c;
     s \<leftarrow> clauseBumpActivity s c;
     cl \<leftarrow> getC s c;
     Some (certify s (c_CNF cl)) }"

section \<open>Forgetting learned clauses\<close>

fun indexWatcher :: "watcher list \<Rightarrow> cid \<Rightarrow> nat option" where
  "indexWatcher [] c = None"
| "indexWatcher (w # ws) c = (if w_clause w = c then Some 0 else map_option Suc (indexWatcher ws c))"

fun indexId :: "cid list \<Rightarrow> cid \<Rightarrow> nat option" where
  "indexId [] c = None"
| "indexId (d # ds) c = (if d = c then Some 0 else map_option Suc (indexId ds c))"

definition unwatchLit :: "solver \<Rightarrow> cid \<Rightarrow> lit \<Rightarrow> solver option" where
  "unwatchLit s c l = do {
     ws \<leftarrow> geti (wlist s) (Negation l);
     j \<leftarrow> indexWatcher ws c;
     wl \<leftarrow> puti (wlist s) (Negation l) (swap_remove ws j);
     Some (s\<lparr>wlist := wl\<rparr>) }"

definition unwatchClause :: "solver \<Rightarrow> cid \<Rightarrow> solver option" where
  "unwatchClause s c = do {
     cl \<leftarrow> getC s c;
     l0 \<leftarrow> Get cl 0;
     s \<leftarrow> unwatchLit s c l0;
     l1 \<leftarrow> Get cl 1;
     unwatchLit s c l1 }"

definition removeFrom :: "cid list \<Rightarrow> cid \<Rightarrow> cid list option" where
  "removeFrom lst c = do { i \<leftarrow> indexId lst c; Some (swap_remove lst i) }"

definition unwatchPbLit :: "solver \<Rightarrow> cid \<Rightarrow> lit \<Rightarrow> solver option" where
  "unwatchPbLit s c l = do {
     ws \<leftarrow> geti (wlistPb s) (Negation l);
     ws \<leftarrow> removeFrom ws c;
     wl \<leftarrow> puti (wlistPb s) (Negation l) ws;
     Some (s\<lparr>wlistPb := wl\<rparr>) }"

fun unwatchPBLoop :: "solver \<Rightarrow> cid \<Rightarrow> lit list \<Rightarrow> bool list \<Rightarrow> solver option" where
  "unwatchPBLoop s c [] wd = Some s"
| "unwatchPBLoop s c (l # ls) [] = None"
| "unwatchPBLoop s c (l # ls) (b # wd) =
     (if b then do { s \<leftarrow> unwatchPbLit s c l; unwatchPBLoop s c ls wd } else unwatchPBLoop s c ls wd)"

definition unwatchPB :: "solver \<Rightarrow> cid \<Rightarrow> solver option" where
  "unwatchPB s c = do { cl \<leftarrow> getC s c; p \<leftarrow> pbData cl; unwatchPBLoop s c (lits cl) (watched p) }"

text \<open>
  \<open>sort.Sort\<close> on the learned clauses, the largest distance first, then the smallest activity. The
  order of ties is not specified; here they keep their order.
\<close>

definition sortLearned :: "solver \<Rightarrow> solver option" where
  "sortLearned s = do {
     if \<forall>c \<in> set (learned s). c < length (store s) then
       let ids = sort_key (\<lambda>c. c_activity (store s ! c)) (learned s) in
       Some (s\<lparr>learned := sort_key (\<lambda>c. - lbd (store s ! c)) ids\<rparr>)
     else None }"

definition sortLearnedPB :: "solver \<Rightarrow> solver option" where
  "sortLearnedPB s =
     (if \<forall>c \<in> set (learned s). c < length (store s)
      then Some (s\<lparr>learned := sort_key (\<lambda>c. c_activity (store s ! c)) (learned s)\<rparr>) else None)"

text \<open>The loop over the first half: \<open>n\<close> indices are left, \<open>removed\<close> clauses are gone.\<close>

fun reduceLoop :: "(clause \<Rightarrow> bool) \<Rightarrow> (solver \<Rightarrow> cid \<Rightarrow> solver option) \<Rightarrow> solver \<Rightarrow> nat \<Rightarrow> nat \<Rightarrow> nat
    \<Rightarrow> (solver \<times> nat) option" where
  "reduceLoop keep unwatch s i 0 removed = Some (s, removed)"
| "reduceLoop keep unwatch s i (Suc n) removed = do {
     c \<leftarrow> get (learned s) i;
     cl \<leftarrow> getC s c;
     if keep cl then reduceLoop keep unwatch s (Suc i) n removed
     else do {
       d \<leftarrow> geti (learned s) (int (length (learned s)) - int (removed + 1));
       ls \<leftarrow> put (learned s) i d;
       s \<leftarrow> unwatch (s\<lparr>learned := ls\<rparr>) c;
       reduceLoop keep unwatch s (Suc i) n (removed + 1) } }"

definition reduceLearned :: "solver \<Rightarrow> solver option" where
  "reduceLearned s = do {
     s \<leftarrow> sortLearned s;
     let half = length (learned s) div 2;
     c \<leftarrow> get (learned s) half;
     cl \<leftarrow> getC s c;
     let s = (if lbd cl \<le> 3 then postponeNbMax s else s);
     (s, removed) \<leftarrow> reduceLoop (\<lambda>cl. lbd cl \<le> 2 \<or> isLocked cl) unwatchClause s 0 half 0;
     Some (s\<lparr>learned := take (length (learned s) - removed) (learned s)\<rparr>) }"

definition reduceLearnedPB :: "solver \<Rightarrow> solver option" where
  "reduceLearnedPB s = do {
     s \<leftarrow> sortLearnedPB s;
     (s, removed) \<leftarrow> reduceLoop isLocked unwatchPB s 0 (length (learned s) div 2) 0;
     Some (s\<lparr>learned := take (length (learned s) - removed) (learned s)\<rparr>) }"

section \<open>Propagation\<close>

definition propagateUnit :: "solver \<Rightarrow> cid \<Rightarrow> declevel \<Rightarrow> lit \<Rightarrow> solver option" where
  "propagateUnit s c lvl unit = do {
     rs \<leftarrow> puti (reason s) (Lit_Var unit) (Some c);
     cl \<leftarrow> getC s c;
     s \<leftarrow> updC (s\<lparr>reason := rs\<rparr>) c (lock cl);
     m \<leftarrow> puti (model s) (Lit_Var unit) (lvlToSignedLvl unit lvl);
     Some (s\<lparr>model := m, trail := trail s @ [unit]\<rparr>) }"

text \<open>
  The loop of \<open>propagate\<close> over the binary clauses. The second component is the conflict. The
  clause is not locked.
\<close>

fun propagateBin :: "solver \<Rightarrow> declevel \<Rightarrow> watcher list \<Rightarrow> (solver \<times> cid option) option" where
  "propagateBin s lvl [] = Some (s, None)"
| "propagateBin s lvl (w # ws) = do {
     let v2 = Lit_Var (other w);
     assign \<leftarrow> geti (model s) v2;
     if assign = 0 then do {
       rs \<leftarrow> puti (reason s) v2 (Some (w_clause w));
       m \<leftarrow> puti (model s) v2 (lvlToSignedLvl (other w) lvl);
       propagateBin (s\<lparr>reason := rs, model := m, trail := trail s @ [other w]\<rparr>) lvl ws }
     else if (assign > 0) \<noteq> IsPositive (other w) then Some (s, Some (w_clause w))
     else propagateBin s lvl ws }"

text \<open>The search for another literal to watch, from index \<open>k\<close> on.\<close>

fun findUnfalse :: "solver \<Rightarrow> lit list \<Rightarrow> nat \<Rightarrow> nat option option" where
  "findUnfalse s [] k = Some None"
| "findUnfalse s (l # ls) k = do {
     st \<leftarrow> litStatus s l;
     if st \<noteq> Unsat then Some (Some k) else findUnfalse s ls (Suc k) }"

fun propClauseLoop :: "solver \<Rightarrow> lit \<Rightarrow> declevel \<Rightarrow> watcher list \<Rightarrow> watcher list
    \<Rightarrow> (solver \<times> watcher list \<times> cid option) option" where
  "propClauseLoop s l lvl kept [] = Some (s, kept, None)"
| "propClauseLoop s l lvl kept (w # ws) = do {
     st \<leftarrow> litStatus s (other w);
     if st = Sat then propClauseLoop s l lvl (kept @ [w]) ws
     else do {
       let c = w_clause w;
       cl \<leftarrow> getC s c;
       first \<leftarrow> First cl;
       s \<leftarrow> (if first = Negation l then do { cl' \<leftarrow> swap cl 0 1; updC s c cl' } else Some s);
       cl \<leftarrow> getC s c;
       first \<leftarrow> First cl;
       let w2 = \<lparr>other = first, w_clause = c\<rparr>;
       firstStatus \<leftarrow> litStatus s first;
       if firstStatus = Sat then propClauseLoop s l lvl (kept @ [w2]) ws
       else do {
         found \<leftarrow> findUnfalse s (drop 2 (lits cl)) 2;
         case found of
           Some k \<Rightarrow> do {
             litK \<leftarrow> Get cl k;
             cl' \<leftarrow> swap cl 1 k;
             s \<leftarrow> updC s c cl';
             wl \<leftarrow> appendAt (wlist s) (Negation litK) w2;
             propClauseLoop (s\<lparr>wlist := wl\<rparr>) l lvl kept ws }
         | None \<Rightarrow>
             if firstStatus = Unsat then Some (s, kept @ [w2] @ ws, Some c)
             else do {
               s \<leftarrow> propagateUnit s c lvl first;
               propClauseLoop s l lvl (kept @ [w2]) ws } } } }"

definition simplifyPropClauses :: "solver \<Rightarrow> lit \<Rightarrow> declevel \<Rightarrow> (solver \<times> cid option) option" where
  "simplifyPropClauses s l lvl = do {
     ws \<leftarrow> geti (wlist s) l;
     (s, kept, confl) \<leftarrow> propClauseLoop s l lvl [] ws;
     wl \<leftarrow> puti (wlist s) l kept;
     Some (s\<lparr>wlist := wl\<rparr>, confl) }"

section \<open>Propagation of cardinality constraints\<close>

text \<open>
  The counting loop of \<open>simplifyCardConstr\<close>: either an early return, or the numbers of true and
  of unbound literals when the loop is left.
\<close>

datatype card_count = Return bool | Counts int int

fun cardCount :: "solver \<Rightarrow> lit list \<Rightarrow> int \<Rightarrow> int \<Rightarrow> int \<Rightarrow> int \<Rightarrow> int \<Rightarrow> card_count option" where
  "cardCount s [] len cd nbTrue nbFalse nbUnb = Some (Counts nbTrue nbUnb)"
| "cardCount s (l # ls) len cd nbTrue nbFalse nbUnb = do {
     st \<leftarrow> litStatus s l;
     if st = Sat \<and> nbTrue + 1 = cd then Some (Return True)
     else if st = Unsat \<and> len - (nbFalse + 1) < cd then Some (Return False)
     else
       let nbTrue = (if st = Sat then nbTrue + 1 else nbTrue);
           nbFalse = (if st = Unsat then nbFalse + 1 else nbFalse);
           nbUnb = (if st = Indet then nbUnb + 1 else nbUnb)
       in if nbUnb + nbTrue > cd then Some (Counts nbTrue nbUnb)
          else cardCount s ls len cd nbTrue nbFalse nbUnb }"

text \<open>The loop that binds the \<open>n\<close> unbound literals; the index stays on a literal it just bound.\<close>

function cardUnits :: "solver \<Rightarrow> cid \<Rightarrow> declevel \<Rightarrow> lit list \<Rightarrow> nat \<Rightarrow> solver option" where
  "cardUnits s c lvl ls n =
     (if n = 0 then Some s
      else case ls of [] \<Rightarrow> None
      | l # ls' \<Rightarrow> do {
          a \<leftarrow> geti (model s) (Lit_Var l);
          if a = 0 then do { s \<leftarrow> propagateUnit s c lvl l; cardUnits s c lvl ls (n - 1) }
          else cardUnits s c lvl ls' n })"
  by pat_completeness auto
termination
  by (relation "measure (\<lambda>(s, c, lvl, ls, n). n + length ls)") auto

declare cardUnits.simps [simp del]

text \<open>The two inner loops of \<open>swapFalse\<close>: the next false index below \<open>stop\<close>, the next non-false one.\<close>

function nextFalse :: "solver \<Rightarrow> lit list \<Rightarrow> nat \<Rightarrow> nat \<Rightarrow> nat option option" where
  "nextFalse s ls i stop = do {
     l \<leftarrow> get ls i;
     st \<leftarrow> litStatus s l;
     if st = Unsat then Some (Some i)
     else if i + 1 = stop then Some None
     else nextFalse s ls (i + 1) stop }"
  by pat_completeness auto
termination
  by (relation "measure (\<lambda>(s, ls, i, stop). length ls - i)") (auto simp: get_def split: if_splits)

declare nextFalse.simps [simp del]

function nextUnfalse :: "solver \<Rightarrow> lit list \<Rightarrow> nat \<Rightarrow> nat option" where
  "nextUnfalse s ls j = do {
     l \<leftarrow> get ls j;
     st \<leftarrow> litStatus s l;
     if st \<noteq> Unsat then Some j else nextUnfalse s ls (j + 1) }"
  by pat_completeness auto
termination
  by (relation "measure (\<lambda>(s, ls, j). length ls - j)") (auto simp: get_def split: if_splits)

declare nextUnfalse.simps [simp del]

lemma nextFalse_step:
  assumes "nextFalse s ls i stop = Some r"
  shows "i < length ls \<and> (\<exists>st. litStatus s (ls ! i) = Some st
    \<and> (if st = Unsat then r = Some i else if i + 1 = stop then r = None
       else nextFalse s ls (i + 1) stop = Some r))"
  using assms by (subst (asm) nextFalse.simps) (auto simp: bind_eq_Some_conv get_def split: if_splits)

lemma nextFalse_bounds: "nextFalse s ls i stop = Some (Some k) \<Longrightarrow> i \<le> k \<and> k < length ls"
proof (induction s ls i stop rule: nextFalse.induct)
  case (1 s ls i stop)
  from nextFalse_step [OF "1.prems"] obtain st where st: "i < length ls" "litStatus s (ls ! i) = Some st"
    "if st = Unsat then Some k = Some i else if i + 1 = stop then Some k = None
       else nextFalse s ls (i + 1) stop = Some (Some k)" by blast
  show ?case using "1.IH" [OF get_Some [OF st(1)] st(2)] st by (auto split: if_splits)
qed

text \<open>Both list headers are read before the swap; the removal and the addition follow it.\<close>

definition swapWatch :: "solver \<Rightarrow> cid \<Rightarrow> nat \<Rightarrow> nat \<Rightarrow> solver option" where
  "swapWatch s c i j = do {
     cl \<leftarrow> getC s c;
     li \<leftarrow> Get cl i;
     lj \<leftarrow> Get cl j;
     cl' \<leftarrow> swap cl i j;
     s \<leftarrow> updC s c cl';
     ni \<leftarrow> geti (wlistPb s) (Negation li);
     ni \<leftarrow> removeFrom ni c;
     wl \<leftarrow> puti (wlistPb s) (Negation li) ni;
     wl \<leftarrow> appendAt wl (Negation lj) c;
     Some (s\<lparr>wlistPb := wl\<rparr>) }"

function swapFalseLoop :: "solver \<Rightarrow> cid \<Rightarrow> nat \<Rightarrow> nat \<Rightarrow> nat \<Rightarrow> solver option" where
  "swapFalseLoop s c stop i j =
     (if i < stop then do {
        cl \<leftarrow> getC s c;
        r \<leftarrow> nextFalse s (lits cl) i stop;
        case r of None \<Rightarrow> Some s
        | Some i' \<Rightarrow> do {
            j' \<leftarrow> nextUnfalse s (lits cl) j;
            s \<leftarrow> swapWatch s c i' j';
            swapFalseLoop s c stop (i' + 1) (j' + 1) } }
      else Some s)"
  by pat_completeness auto
termination
  by (relation "measure (\<lambda>(s, c, stop, i, j). stop - i)") (auto dest: nextFalse_bounds)

declare swapFalseLoop.simps [simp del]

definition swapFalse :: "solver \<Rightarrow> cid \<Rightarrow> solver option" where
  "swapFalse s c = do {
     cl \<leftarrow> getC s c;
     let stop = nat (Cardinality cl + 1);
     swapFalseLoop s c stop 0 stop }"

definition simplifyCardConstr :: "solver \<Rightarrow> cid \<Rightarrow> declevel \<Rightarrow> (solver \<times> bool) option" where
  "simplifyCardConstr s c lvl = do {
     cl \<leftarrow> getC s c;
     let cd = Cardinality cl;
     r \<leftarrow> cardCount s (lits cl) (int (Len cl)) cd 0 0 0;
     case r of
       Return b \<Rightarrow> Some (s, b)
     | Counts nbTrue nbUnb \<Rightarrow>
         if nbUnb + nbTrue = cd then do { s \<leftarrow> cardUnits s c lvl (lits cl) (nat nbUnb); Some (s, True) }
         else do { s \<leftarrow> swapFalse s c; Some (s, True) } }"

text \<open>The two loops of \<open>simplifyCardAMOConstr\<close>.\<close>

fun amoConflict :: "solver \<Rightarrow> clause \<Rightarrow> nat list \<Rightarrow> bool \<Rightarrow> bool option" where
  "amoConflict s cl [] foundFalse = Some False"
| "amoConflict s cl (i # is) foundFalse = do {
     l \<leftarrow> Get cl i;
     st \<leftarrow> litStatus s l;
     if st = Unsat then (if foundFalse then Some True else amoConflict s cl is True)
     else amoConflict s cl is foundFalse }"

fun amoUnits :: "solver \<Rightarrow> cid \<Rightarrow> declevel \<Rightarrow> clause \<Rightarrow> nat list \<Rightarrow> solver option" where
  "amoUnits s c lvl cl [] = Some s"
| "amoUnits s c lvl cl (i # is) = do {
     l \<leftarrow> Get cl i;
     a \<leftarrow> geti (model s) (Lit_Var l);
     s \<leftarrow> (if a = 0 then propagateUnit s c lvl l else Some s);
     amoUnits s c lvl cl is }"

definition simplifyCardAMOConstr :: "solver \<Rightarrow> cid \<Rightarrow> declevel \<Rightarrow> (solver \<times> bool) option" where
  "simplifyCardAMOConstr s c lvl = do {
     cl \<leftarrow> getC s c;
     let is = [0..<nat (Cardinality cl + 1)];
     bad \<leftarrow> amoConflict s cl is False;
     if bad then Some (s, False)
     else do { s \<leftarrow> amoUnits s c lvl cl is; Some (s, True) } }"

section \<open>Propagation of pseudo-boolean constraints\<close>

text \<open>Sums of weights wrap around. The loop of \<open>slackSum\<close> over the weights and the literals at the same indices.\<close>

fun slackLoop :: "solver \<Rightarrow> int \<Rightarrow> int list \<Rightarrow> lit list \<Rightarrow> int \<Rightarrow> int \<Rightarrow> (int \<times> bool) option" where
  "slackLoop s cd [] ls slack acc = Some (slack, False)"
| "slackLoop s cd (w # ws) [] slack acc = None"
| "slackLoop s cd (w # ws) (l # ls) slack acc = do {
     st \<leftarrow> litStatus s l;
     if st = Indet then slackLoop s cd ws ls (int64 (slack + w)) acc
     else if st = Sat then
       if int64 (acc + w) \<ge> cd then Some (int64 (slack + w), True)
       else slackLoop s cd ws ls (int64 (slack + w)) (int64 (acc + w))
     else slackLoop s cd ws ls slack acc }"

definition slackSum :: "solver \<Rightarrow> clause \<Rightarrow> (int \<times> bool) option" where
  "slackSum s cl = do {
     p \<leftarrow> pbData cl;
     slackLoop s (Cardinality cl) (weights p) (lits cl) (- Cardinality cl) 0 }"

fun propagateAll :: "solver \<Rightarrow> cid \<Rightarrow> declevel \<Rightarrow> lit list \<Rightarrow> solver option" where
  "propagateAll s c lvl [] = Some s"
| "propagateAll s c lvl (l # ls) = do {
     st \<leftarrow> litStatus s l;
     s \<leftarrow> (if st = Indet then propagateUnit s c lvl l else Some s);
     propagateAll s c lvl ls }"

text \<open>The inner loop of \<open>simplifyPseudoBool\<close>: bind the unbound literals heavier than the slack.\<close>

fun pbUnits :: "solver \<Rightarrow> cid \<Rightarrow> declevel \<Rightarrow> int \<Rightarrow> clause \<Rightarrow> nat list \<Rightarrow> bool \<Rightarrow> (solver \<times> bool) option" where
  "pbUnits s c lvl slack cl [] found = Some (s, found)"
| "pbUnits s c lvl slack cl (i # is) found = do {
     l \<leftarrow> Get cl i;
     st \<leftarrow> litStatus s l;
     if st = Indet then do {
       w \<leftarrow> Weight cl i;
       if w > slack then do {
         s \<leftarrow> propagateUnit s c lvl l;
         pbUnits s c lvl slack cl is True }
       else pbUnits s c lvl slack cl is found }
     else pbUnits s c lvl slack cl is found }"

text \<open>The first loop of \<open>updateWatchPB\<close>; \<open>i\<close> is the index it stops at.\<close>

function updateWatchLoop :: "solver \<Rightarrow> cid \<Rightarrow> nat \<Rightarrow> int \<Rightarrow> (solver \<times> nat) option" where
  "updateWatchLoop s c i weightWatched = do {
     cl \<leftarrow> getC s c;
     if weightWatched \<le> Cardinality cl \<and> i < Len cl then do {
       l \<leftarrow> Get cl i;
       p \<leftarrow> pbData cl;
       b \<leftarrow> get (watched p) i;
       st \<leftarrow> litStatus s l;
       if st = Unsat then
         if b then do {
           s \<leftarrow> unwatchPbLit s c l;
           s \<leftarrow> updC s c (cl\<lparr>pbData := Some (p\<lparr>watched := (watched p)[i := False]\<rparr>)\<rparr>);
           updateWatchLoop s c (Suc i) weightWatched }
         else updateWatchLoop s c (Suc i) weightWatched
       else do {
         w \<leftarrow> Weight cl i;
         if \<not> b then do {
           s \<leftarrow> watchPb s l c;
           s \<leftarrow> updC s c (cl\<lparr>pbData := Some (p\<lparr>watched := (watched p)[i := True]\<rparr>)\<rparr>);
           updateWatchLoop s c (Suc i) (int64 (weightWatched + w)) }
         else updateWatchLoop s c (Suc i) (int64 (weightWatched + w)) } }
     else Some (s, i) }"
  by pat_completeness auto
termination
  by (relation "measure (\<lambda>(s, c, i, w). (case getC s c of None \<Rightarrow> 0 | Some cl \<Rightarrow> Len cl) - i)")
    (auto simp: getC_def updC_def watchPb_def unwatchPbLit_def Len_def get_def put_def bind_eq_Some_conv
      split: if_splits)

declare updateWatchLoop.simps [simp del]

text \<open>Its second loop, from index \<open>i\<close> on.\<close>

function clearWatchLoop :: "solver \<Rightarrow> cid \<Rightarrow> nat \<Rightarrow> solver option" where
  "clearWatchLoop s c i = do {
     cl \<leftarrow> getC s c;
     if i < Len cl then do {
       p \<leftarrow> pbData cl;
       b \<leftarrow> get (watched p) i;
       if b then do {
         l \<leftarrow> Get cl i;
         s \<leftarrow> unwatchPbLit s c l;
         s \<leftarrow> updC s c (cl\<lparr>pbData := Some (p\<lparr>watched := (watched p)[i := False]\<rparr>)\<rparr>);
         clearWatchLoop s c (Suc i) }
       else clearWatchLoop s c (Suc i) }
     else Some s }"
  by pat_completeness auto
termination
  by (relation "measure (\<lambda>(s, c, i). (case getC s c of None \<Rightarrow> 0 | Some cl \<Rightarrow> Len cl) - i)")
    (auto simp: getC_def updC_def unwatchPbLit_def Len_def get_def put_def bind_eq_Some_conv split: if_splits)

declare clearWatchLoop.simps [simp del]

definition updateWatchPB :: "solver \<Rightarrow> cid \<Rightarrow> solver option" where
  "updateWatchPB s c = do { (s, i) \<leftarrow> updateWatchLoop s c 0 0; clearWatchLoop s c i }"

partial_function (option) simplifyPseudoBool :: "solver \<Rightarrow> cid \<Rightarrow> declevel \<Rightarrow> (solver \<times> bool) option" where
  "simplifyPseudoBool s c lvl = do {
     cl \<leftarrow> getC s c;
     (slack, sat) \<leftarrow> slackSum s cl;
     if sat then Some (s, True)
     else if slack < 0 then Some (s, False)
     else if slack = 0 then do { s \<leftarrow> propagateAll s c lvl (lits cl); Some (s, True) }
     else do {
       (s, foundUnit) \<leftarrow> pbUnits s c lvl slack cl [0..<Len cl] False;
       if foundUnit then simplifyPseudoBool s c lvl
       else do { s \<leftarrow> updateWatchPB s c; Some (s, True) } } }"

declare simplifyPseudoBool.simps [code]

section \<open>The propagation loop\<close>

fun propagatePbs :: "solver \<Rightarrow> declevel \<Rightarrow> cid list \<Rightarrow> (solver \<times> cid option) option" where
  "propagatePbs s lvl [] = Some (s, None)"
| "propagatePbs s lvl (c # cs) = do {
     cl \<leftarrow> getC s c;
     (s, ok) \<leftarrow> (if PseudoBoolean cl then simplifyPseudoBool s c lvl else simplifyCardConstr s c lvl);
     if \<not> ok then Some (s, Some c) else propagatePbs s lvl cs }"

fun propagateAMOs :: "solver \<Rightarrow> declevel \<Rightarrow> cid list \<Rightarrow> (solver \<times> cid option) option" where
  "propagateAMOs s lvl [] = Some (s, None)"
| "propagateAMOs s lvl (c # cs) = do {
     (s, ok) \<leftarrow> simplifyCardAMOConstr s c lvl;
     if \<not> ok then Some (s, Some c) else propagateAMOs s lvl cs }"

text \<open>One round of \<open>propagate\<close>, for the literal at index \<open>i0\<close> of the trail.\<close>

definition propagateLit :: "solver \<Rightarrow> lit \<Rightarrow> declevel \<Rightarrow> (solver \<times> cid option) option" where
  "propagateLit s l lvl = do {
     ws \<leftarrow> geti (wlistBin s) l;
     (s, confl) \<leftarrow> propagateBin s lvl ws;
     if confl \<noteq> None then Some (s, confl) else do {
     (s, confl) \<leftarrow> simplifyPropClauses s l lvl;
     if confl \<noteq> None then Some (s, confl) else do {
     cs \<leftarrow> geti (wlistPb s) l;
     (s, confl) \<leftarrow> propagatePbs s lvl cs;
     if confl \<noteq> None then Some (s, confl) else do {
     cs \<leftarrow> geti (wlistCardAMO s) l;
     propagateAMOs s lvl cs } } } }"

partial_function (option) propagate :: "solver \<Rightarrow> nat \<Rightarrow> declevel \<Rightarrow> (solver \<times> cid option) option" where
  "propagate s i0 lvl =
     (if i0 < length (trail s) then do {
        (s, confl) \<leftarrow> propagateLit s (trail s ! i0) lvl;
        if confl \<noteq> None then Some (s, confl) else propagate s (i0 + 1) lvl }
      else Some (s, None))"

declare propagate.simps [code]

definition unifyLiteral :: "solver \<Rightarrow> lit \<Rightarrow> declevel \<Rightarrow> (solver \<times> cid option) option" where
  "unifyLiteral s l lvl = do {
     m \<leftarrow> puti (model s) (Lit_Var l) (lvlToSignedLvl l lvl);
     let s = s\<lparr>model := m, trail := trail s @ [l]\<rparr>;
     propagate s (length (trail s) - 1) lvl }"

text \<open>The two loops of \<open>unifyLiterals\<close>.\<close>

fun bindAll :: "solver \<Rightarrow> declevel \<Rightarrow> lit list \<Rightarrow> solver option" where
  "bindAll s lvl [] = Some s"
| "bindAll s lvl (l # ls) = do {
     m \<leftarrow> puti (model s) (Lit_Var l) (lvlToSignedLvl l lvl);
     bindAll (s\<lparr>model := m, trail := trail s @ [l]\<rparr>) lvl ls }"

fun propagateFrom :: "solver \<Rightarrow> declevel \<Rightarrow> nat \<Rightarrow> nat list \<Rightarrow> (solver \<times> cid option) option" where
  "propagateFrom s lvl n [] = Some (s, None)"
| "propagateFrom s lvl n (i # is) = do {
     let i0 = int (length (trail s)) - int n - int i;
     if i0 < 0 then None
     else do {
       (s, confl) \<leftarrow> propagate s (nat i0) lvl;
       if confl \<noteq> None then Some (s, confl) else propagateFrom s lvl n is } }"

definition unifyLiterals :: "solver \<Rightarrow> lit list \<Rightarrow> declevel \<Rightarrow> (solver \<times> cid option) option" where
  "unifyLiterals s ls lvl = do {
     s \<leftarrow> bindAll s lvl ls;
     propagateFrom s lvl (length ls) [0..<length ls] }"

end
