(* ===== verification/Learn.thy ===== *)
theory Learn
  imports Watch
begin

text \<open>
  Conflict analysis (\<open>solver/learn.go\<close>, \<open>solver/sort.go\<close>): from a falsified clause, resolve with
  the reasons of the latest literals of the current level until one is left, then drop the
  literals that the others imply.

  The literals of the new clause are collected in a buffer that all calls share, whose first
  place is reserved: \<open>bufLit\<close> is what an earlier call left there.
\<close>

section \<open>Helpers\<close>

fun lbdLoop :: "declevel list \<Rightarrow> lit list \<Rightarrow> clause \<Rightarrow> declevel \<Rightarrow> clause option" where
  "lbdLoop m [] c curLvl = Some c"
| "lbdLoop m (l # ls) c curLvl = do {
     a \<leftarrow> geti m (Lit_Var l);
     if \<bar>a\<bar> \<noteq> curLvl then lbdLoop m ls (incLbd c) \<bar>a\<bar> else lbdLoop m ls c curLvl }"

definition computeLbd :: "clause \<Rightarrow> declevel list \<Rightarrow> clause option" where
  "computeLbd c m = do {
     let c = setLbd c 1;
     l0 \<leftarrow> Get c 0;
     a \<leftarrow> geti m (Lit_Var l0);
     lbdLoop m (lits c) c \<bar>a\<bar> }"

text \<open>\<open>sort.Sort\<close> by decreasing level; the order of ties is not specified, here they keep theirs.\<close>

definition sortLiterals :: "lit list \<Rightarrow> declevel list \<Rightarrow> lit list option" where
  "sortLiterals ls m =
     (if length ls < 2 \<or> (\<forall>l \<in> set ls. 0 \<le> Lit_Var l \<and> Lit_Var l < int (length m))
      then Some (sort_key (\<lambda>l. - \<bar>m ! nat (Lit_Var l)\<bar>) ls) else None)"

section \<open>Resolution\<close>

text \<open>
  The state of the analysis: the variables met, those of the current level still or already
  resolved, the literals of lower levels, the number of literals of the current level.
\<close>

record analysis =
  met :: "bool list"
  metLvl :: "bool list"
  aLits :: "lit list"
  nbLvl :: int

text \<open>A literal enters: the lines that \<open>addClauseLits\<close> and the resolution loop have in common.\<close>

definition meetLit :: "solver \<Rightarrow> analysis \<Rightarrow> declevel \<Rightarrow> lit \<Rightarrow> (solver \<times> analysis) option" where
  "meetLit s an lvl l = do {
     let v = Lit_Var l;
     mt \<leftarrow> puti (met an) v True;
     s \<leftarrow> varBumpActivity s v;
     a \<leftarrow> geti (model s) v;
     if \<bar>a\<bar> = lvl then do {
       ml \<leftarrow> puti (metLvl an) v True;
       Some (s, an\<lparr>met := mt, metLvl := ml, nbLvl := nbLvl an + 1\<rparr>) }
     else Some (s, an\<lparr>met := mt, aLits := aLits an @ [l]\<rparr>) }"

fun addClauseLits :: "solver \<Rightarrow> analysis \<Rightarrow> declevel \<Rightarrow> lit list \<Rightarrow> (solver \<times> analysis) option" where
  "addClauseLits s an lvl [] = Some (s, an)"
| "addClauseLits s an lvl (l # ls) = do {
     st \<leftarrow> litStatus s l;
     if st \<noteq> Unsat then addClauseLits s an lvl ls
     else do { (s, an) \<leftarrow> meetLit s an lvl l; addClauseLits s an lvl ls } }"

text \<open>The same for the literals of a reason, where only new variables count.\<close>

fun addReasonLits :: "solver \<Rightarrow> analysis \<Rightarrow> declevel \<Rightarrow> lit list \<Rightarrow> (solver \<times> analysis) option" where
  "addReasonLits s an lvl [] = Some (s, an)"
| "addReasonLits s an lvl (l # ls) = do {
     b \<leftarrow> geti (met an) (Lit_Var l);
     if b then addReasonLits s an lvl ls
     else do {
       st \<leftarrow> litStatus s l;
       if st \<noteq> Unsat then addReasonLits s an lvl ls
       else do { (s, an) \<leftarrow> meetLit s an lvl l; addReasonLits s an lvl ls } } }"

text \<open>
  The inner loop that moves down the trail to the next variable to resolve. \<open>n\<close> is the position
  after the one the code looks at, so 0 stands for the index \<open>-1\<close>, where the code panics.
\<close>

fun scanTrail :: "solver \<Rightarrow> analysis \<Rightarrow> declevel \<Rightarrow> nat \<Rightarrow> (analysis \<times> nat) option" where
  "scanTrail s an lvl 0 = None"
| "scanTrail s an lvl (Suc p) = do {
     l \<leftarrow> get (trail s) p;
     let v = Lit_Var l;
     b \<leftarrow> geti (metLvl an) v;
     if b then Some (an, Suc p)
     else do {
       a \<leftarrow> geti (model s) v;
       mt \<leftarrow> (if \<bar>a\<bar> = lvl then puti (met an) v True else Some (met an));
       scanTrail s (an\<lparr>met := mt\<rparr>) lvl p } }"

lemma scanTrail_wlp: "wlp (scanTrail s an lvl n) (\<lambda>(an', n'). 0 < n' \<and> n' \<le> n)"
proof (induction n arbitrary: an)
  case (Suc p)
  have "wlp (scanTrail s an lvl p) (\<lambda>(an', n'). 0 < n' \<and> n' \<le> Suc p)" for an
    by (rule wlp_mono [OF Suc.IH]) auto
  then show ?case by (simp add: Let_def)
qed simp

lemma scanTrail_bounds: "scanTrail s an lvl n = Some (an', n') \<Longrightarrow> 0 < n' \<and> n' \<le> n"
  using scanTrail_wlp [of s an lvl n] by (simp add: wlp_def)

text \<open>The outer loop; \<open>None\<close> in the result is its early return on an assumed literal.\<close>

function resolveLoop :: "solver \<Rightarrow> analysis \<Rightarrow> declevel \<Rightarrow> nat \<Rightarrow> (solver \<times> analysis option) option" where
  "resolveLoop s an lvl n =
     (if nbLvl an > 1 then do {
        (an, n) \<leftarrow> scanTrail s an lvl n;
        l \<leftarrow> get (trail s) (n - 1);
        let v = Lit_Var l;
        b \<leftarrow> geti (assumptions s) v;
        if b then Some (s, None)
        else do {
          let an = an\<lparr>nbLvl := nbLvl an - 1\<rparr>;
          r \<leftarrow> geti (reason s) v;
          (s, an) \<leftarrow> (case r of
              None \<Rightarrow> Some (s, an)
            | Some c \<Rightarrow> do {
                s \<leftarrow> clauseBumpActivity s c;
                cl \<leftarrow> getC s c;
                addReasonLits s an lvl (lits cl) });
          resolveLoop s an lvl (n - 1) } }
      else Some (s, Some an))"
  by pat_completeness auto
termination
  by (relation "measure (\<lambda>(s, an, lvl, n). n)") (auto dest!: scanTrail_bounds)

declare resolveLoop.simps [simp del]

text \<open>The loop that looks for the first literal of the trail that was met at the current level.\<close>

fun assertingLit :: "lit list \<Rightarrow> bool list \<Rightarrow> lit option option" where
  "assertingLit [] ml = Some None"
| "assertingLit (l # ls) ml = do {
     b \<leftarrow> geti ml (Lit_Var l);
     if b then Some (Some (Negation l)) else assertingLit ls ml }"

section \<open>Minimisation\<close>

text \<open>Whether the inner loop finds a variable that was not met.\<close>

fun someUnmet :: "bool list \<Rightarrow> lit list \<Rightarrow> bool option" where
  "someUnmet mt [] = Some False"
| "someUnmet mt (l # ls) = do { b \<leftarrow> geti mt (Lit_Var l); if \<not> b then Some True else someUnmet mt ls }"

text \<open>
  The code compacts the slice in place and returns the new length; the model returns the
  literals it keeps after the first.
\<close>

fun minimizeLits :: "solver \<Rightarrow> bool list \<Rightarrow> lit list \<Rightarrow> lit list option" where
  "minimizeLits s mt [] = Some []"
| "minimizeLits s mt (l # ls) = do {
     r \<leftarrow> geti (reason s) (Lit_Var l);
     keep \<leftarrow> (case r of
         None \<Rightarrow> Some True
       | Some c \<Rightarrow> do { cl \<leftarrow> getC s c; someUnmet mt (lits cl) });
     rest \<leftarrow> minimizeLits s mt ls;
     Some (if keep then l # rest else rest) }"

section \<open>The learned clause\<close>

datatype learnt = LearntEmpty | LearntUnit lit | LearntClause cid

definition learnClause :: "solver \<Rightarrow> cid \<Rightarrow> declevel \<Rightarrow> (solver \<times> learnt) option" where
  "learnClause s confl lvl =
     (if nbVars s < 0 then None
      else do {
        s \<leftarrow> clauseBumpActivity s confl;
        let n = nat (nbVars s);
        let an = \<lparr>met = replicate n False, metLvl = replicate n False, aLits = [], nbLvl = 0\<rparr>;
        cl \<leftarrow> getC s confl;
        (s, an) \<leftarrow> addClauseLits s an lvl (lits cl);
        (s, r) \<leftarrow> resolveLoop s an lvl (length (trail s));
        case r of None \<Rightarrow> Some (s, LearntEmpty)
        | Some an \<Rightarrow> do {
            first \<leftarrow> assertingLit (trail s) (metLvl an);
            let l0 = (case first of None \<Rightarrow> bufLit s | Some l \<Rightarrow> l);
            let s = clauseDecayActivity (varDecayActivity s);
            ls \<leftarrow> sortLiterals (l0 # aLits an) (model s);
            let s = s\<lparr>bufLit := hd ls\<rparr>;
            rest \<leftarrow> minimizeLits s (met an) (tl ls);
            if rest = [] then Some (s, LearntUnit (hd ls))
            else do {
              c \<leftarrow> computeLbd (NewLearnedClause (hd ls # rest)) (model s);
              let (id, s) = alloc s c;
              Some (s, LearntClause id) } } })"

end
