(* ===== verification/Search.thy ===== *)
theory Search
  imports Learn
begin

text \<open>
  The search (\<open>solver/solver.go\<close>): decisions, propagation, learning, backjumps and restarts, and
  the entry points built on it. The loops of the search need not end, so they are partial
  functions: they have no result when the code panics or does not return. This is the search with
  \<open>CuttingPlanes\<close> off; the theory \<open>CuttingPlanes\<close> has the loop \<open>propagateAndSearchPB\<close>.
\<close>

section \<open>Building a solver\<close>

fun bindUnitLits :: "declevel list \<Rightarrow> lit list \<Rightarrow> declevel list option" where
  "bindUnitLits m [] = Some m"
| "bindUnitLits m (l # ls) = do {
     m \<leftarrow> puti m (Lit_Var l) (if IsPositive l then 1 else - 1);
     bindUnitLits m ls }"

definition emptySolver :: solver where
  "emptySolver = \<lparr>store = [], nbVars = 0, sStatus = Indet, Certified = False, certLines = [],
     nbMax = 0, idxReduce = 0, wlistBin = [], wlist = [], wlistPb = [], wlistCardAMO = [],
     origClauses = [], learned = [], trail = [], model = [], lastModel = None, polarity = [],
     assumptions = [], reason = [], varQueue = \<lparr>activity = [], content = [], indices = []\<rparr>,
     varInc = 0, clauseInc = 0, varDecay = 0, lbdSt = emptyLbdStats, NbConflicts = 0,
     NbRestarts = 0, sMinLits = None, sMinWeights = None, hypothesis = [], bufLit = 0\<rparr>"

definition defaultVarDecay :: rat where
  "defaultVarDecay = float64 (4 / 5)"

definition New :: "problem \<Rightarrow> solver option" where
  "New pb =
     (if pStatus pb = Unsat then Some (emptySolver\<lparr>sStatus := Unsat\<rparr>)
      else if NbVars pb < 0 then None
      else do {
        let n = nat (NbVars pb);
        let s = emptySolver\<lparr>nbVars := NbVars pb, sStatus := pStatus pb, model := pModel pb,
          polarity := replicate n False, assumptions := replicate n False,
          reason := replicate n None, varInc := 1, clauseInc := 1, varDecay := defaultVarDecay,
          sMinLits := minLits pb, sMinWeights := minWeights pb\<rparr>;
        s \<leftarrow> resetOptimPolarity s;
        acts \<leftarrow> (case minLits pb of None \<Rightarrow> Some (replicate n 0)
                 | Some ls \<Rightarrow> optimActivity (replicate n 0) (minWeights pb) 0 ls);
        s \<leftarrow> initWatcherList s (Clauses pb);
        q \<leftarrow> newQueue acts;
        m \<leftarrow> bindUnitLits (model s) (Units pb);
        Some (s\<lparr>varQueue := q, model := m, trail := Units pb\<rparr>) })"

text \<open>\<open>newVar\<close> extends every slice but the assumptions.\<close>

definition newVar :: "solver \<Rightarrow> var \<Rightarrow> solver option" where
  "newVar s v =
     (if Var_Int v > nbVars s then do {
        let n = nat (Var_Int v - nbVars s);
        q \<leftarrow> newQueue (activity (varQueue s) @ replicate n 0);
        let s = addVarWatcherList (s\<lparr>model := model s @ replicate n 0,
          polarity := polarity s @ replicate n False, reason := reason s @ replicate n None,
          varQueue := q\<rparr>) v;
        Some (s\<lparr>nbVars := Var_Int v\<rparr>) }
      else Some s)"

section \<open>The search loop\<close>

text \<open>What follows a propagation without conflict: restart, forget clauses, or decide.\<close>

definition forgetClauses :: "solver \<Rightarrow> solver option" where
  "forgetClauses s =
     (if NbConflicts s \<ge> idxReduce s * nbMax s then
        if nbMax s = 0 then None
        else do {
          s \<leftarrow> reduceLearned (s\<lparr>idxReduce := NbConflicts s sdiv nbMax s + 1\<rparr>);
          Some (bumpNbMax s) }
      else Some s)"

datatype outcome = Done status | Next lit declevel

definition afterPropagation :: "solver \<Rightarrow> declevel \<Rightarrow> (solver \<times> outcome) option" where
  "afterPropagation s lvl =
     (if mustRestart (lbdSt s) then do {
        s \<leftarrow> cleanupBindings (s\<lparr>lbdSt := lbd_clear (lbdSt s)\<rparr>) 1;
        Some (s, Done Indet) }
      else do {
        s \<leftarrow> forgetClauses s;
        (l, s) \<leftarrow> chooseLit s;
        Some (s, Next l (lvl + 1)) })"

text \<open>A learned unit becomes a binding of the top level.\<close>

definition learnUnit :: "solver \<Rightarrow> lit \<Rightarrow> (solver \<times> outcome) option" where
  "learnUnit s unit = do {
     a \<leftarrow> (if unit = - 1 then Some 1 else geti (model s) (Lit_Var unit));
     st \<leftarrow> (if unit = - 1 then Some Unsat else litStatus s unit);
     if unit = - 1 \<or> \<bar>a\<bar> = 1 \<and> st = Unsat then Some (setUnsat s, Done Unsat)
     else do {
       s \<leftarrow> cleanupBindings (s\<lparr>lbdSt := addLbd (lbdSt s) 1\<rparr>) 1;
       s \<leftarrow> addLearnedUnit s unit;
       m \<leftarrow> puti (model s) (Lit_Var unit) (lvlToSignedLvl unit 1);
       (s, confl) \<leftarrow> unifyLiteral (s\<lparr>model := m\<rparr>) unit 1;
       if confl \<noteq> None then Some (setUnsat s, Done Unsat)
       else do {
         s \<leftarrow> rebuildOrderHeap s;
         (l, s) \<leftarrow> chooseLit s;
         Some (s, Next l 2) } } }"

text \<open>A learned clause is added, and its first literal follows after the backjump.\<close>

definition learnLong :: "solver \<Rightarrow> cid \<Rightarrow> (solver \<times> outcome) option" where
  "learnLong s c = do {
     cl \<leftarrow> getC s c;
     s \<leftarrow> addLearned (s\<lparr>lbdSt := addLbd (lbdSt s) (lbd cl)\<rparr>) c;
     cl \<leftarrow> getC s c;
     (lvl, l) \<leftarrow> backtrackData cl (model s);
     s \<leftarrow> cleanupBindings s lvl;
     rs \<leftarrow> puti (reason s) (Lit_Var l) (Some c);
     cl \<leftarrow> getC s c;
     s \<leftarrow> updC (s\<lparr>reason := rs\<rparr>) c (lock cl);
     Some (s, Next l lvl) }"

text \<open>Every 5000 conflicts the decay of the activities gets slower.\<close>

definition nextDecay :: "solver \<Rightarrow> int \<Rightarrow> rat" where
  "nextDecay s nb = (if nb mod 5000 = 0 \<and> varDecay s < float64 (19 / 20)
     then float64 (varDecay s + float64 (1 / 100)) else varDecay s)"

definition afterConflict :: "solver \<Rightarrow> cid \<Rightarrow> declevel \<Rightarrow> (solver \<times> outcome) option" where
  "afterConflict s confl lvl = do {
     let nb = NbConflicts s + 1;
     let s = s\<lparr>NbConflicts := nb, varDecay := nextDecay s nb,
               lbdSt := addConflict (lbdSt s) (int (length (trail s)))\<rparr>;
     (s, r) \<leftarrow> learnClause s confl lvl;
     case r of
       LearntEmpty \<Rightarrow> learnUnit s (- 1)
     | LearntUnit unit \<Rightarrow> learnUnit s unit
     | LearntClause c \<Rightarrow> learnLong s c }"

partial_function (option) propagateAndSearch :: "solver \<Rightarrow> lit \<Rightarrow> declevel \<Rightarrow> (solver \<times> status) option" where
  "propagateAndSearch s l lvl =
     (if l = - 1 then Some (s, Sat)
      else do {
        (s, confl) \<leftarrow> unifyLiteral s l lvl;
        (s, r) \<leftarrow> (case confl of None \<Rightarrow> afterPropagation s lvl | Some c \<Rightarrow> afterConflict s c lvl);
        case r of Done st \<Rightarrow> Some (s, st) | Next l lvl \<Rightarrow> propagateAndSearch s l lvl })"

declare propagateAndSearch.simps [code]

definition search :: "solver \<Rightarrow> solver option" where
  "search s = do {
     (l, s) \<leftarrow> chooseLit s;
     (s, st) \<leftarrow> propagateAndSearch s l 2;
     Some (s\<lparr>sStatus := st\<rparr>) }"

text \<open>The loop of \<open>Solve\<close>.\<close>

partial_function (option) solveLoop :: "solver \<Rightarrow> solver option" where
  "solveLoop s =
     (if sStatus s = Indet then do {
        s \<leftarrow> search s;
        s \<leftarrow> (if sStatus s = Indet then rebuildOrderHeap (s\<lparr>NbRestarts := NbRestarts s + 1\<rparr>) else Some s);
        solveLoop s }
      else Some s)"

declare solveLoop.simps [code]

definition Solve :: "solver \<Rightarrow> (solver \<times> status) option" where
  "Solve s =
     (if sStatus s = Unsat then Some (s, Unsat)
      else do {
        s \<leftarrow> solveLoop (s\<lparr>sStatus := Indet\<rparr>);
        let s = (if sStatus s = Sat then s\<lparr>lastModel := Some (model s)\<rparr> else s);
        Some (s, sStatus s) })"

text \<open>\<open>Model\<close>: the loop over the bindings at index \<open>i\<close>.\<close>

primrec modelBits :: "bool list \<Rightarrow> nat \<Rightarrow> declevel list \<Rightarrow> bool list option" where
  "modelBits res i [] = Some res"
| "modelBits res i (lvl # ls) = do { res \<leftarrow> put res i (0 < lvl); modelBits res (Suc i) ls }"

definition Model :: "solver \<Rightarrow> bool list option" where
  "Model s = (case lastModel s of
     None \<Rightarrow> None
   | Some ls \<Rightarrow> if nbVars s < 0 then None else modelBits (replicate (nat (nbVars s)) False) 0 ls)"

end
