(* ===== verification/SolverInv.thy ===== *)
theory SolverInv
  imports Search
begin

text \<open>
  The invariant of the search that makes its answers right, and the operations that only touch
  heuristics, locks and the order of literals.

  The invariant fixes one assignment \<open>a\<close> that satisfies the problem. All clauses of the store are
  satisfied by \<open>a\<close>. The trail and the model agree. Every literal of the trail is true under \<open>a\<close>
  when it was bound at the top level; at higher levels it is a decision, the first of its level,
  or its reason implies it: if \<open>a\<close> makes it false, \<open>a\<close> makes some literal of the reason true that
  is false in the trail before it. So a conflict at the top level is impossible, and the clause
  that the analysis of a conflict builds is satisfied by \<open>a\<close> again.
\<close>

section \<open>Literals under the bindings\<close>

abbreviation lev :: "declevel list \<Rightarrow> lit \<Rightarrow> declevel" where
  "lev m l \<equiv> \<bar>m ! nat (Lit_Var l)\<bar>"

definition isTrue :: "declevel list \<Rightarrow> lit \<Rightarrow> bool" where
  "isTrue m l \<longleftrightarrow> m ! nat (Lit_Var l) \<noteq> 0 \<and> (m ! nat (Lit_Var l) > 0) = IsPositive l"

definition isFalse :: "declevel list \<Rightarrow> lit \<Rightarrow> bool" where
  "isFalse m l \<longleftrightarrow> m ! nat (Lit_Var l) \<noteq> 0 \<and> (m ! nat (Lit_Var l) > 0) \<noteq> IsPositive l"

lemma wlp_litStatus [simp]:
  "wlp (litStatus s l) Q \<longleftrightarrow> (0 \<le> Lit_Var l \<longrightarrow> Lit_Var l < int (length (model s)) \<longrightarrow>
     Q (if model s ! nat (Lit_Var l) = 0 then Indet else if isTrue (model s) l then Sat else Unsat))"
  by (auto simp: litStatus_def isTrue_def)

lemma isFalse_Negation: "0 \<le> l \<Longrightarrow> isFalse m (Negation l) = isTrue m l"
  by (auto simp: isFalse_def isTrue_def)

lemma isTrue_Negation: "0 \<le> l \<Longrightarrow> isTrue m (Negation l) = isFalse m l"
  by (auto simp: isFalse_def isTrue_def)

lemma isFalse_iff: "isFalse m l \<longleftrightarrow> m ! nat (Lit_Var l) \<noteq> 0 \<and> \<not> isTrue m l"
  by (auto simp: isFalse_def isTrue_def)

lemma isTrue_signed: "lvl > 0 \<Longrightarrow> m ! nat (Lit_Var l) = lvlToSignedLvl l lvl \<Longrightarrow> isTrue m l"
  by (auto simp: isTrue_def lvlToSignedLvl_def)

section \<open>Valuations\<close>

text \<open>
  The invariant is relative to a valuation of the literals: the literals that an assignment makes
  true, or, for what holds of every run, all literals.
\<close>

type_synonym valuation = "lit \<Rightarrow> bool"

definition coherent :: "valuation \<Rightarrow> bool" where
  "coherent a \<longleftrightarrow> (\<forall>l \<ge> 0. a (Negation l) \<longleftrightarrow> \<not> a l)"

definition proper :: "valuation \<Rightarrow> bool" where
  "proper a \<longleftrightarrow> coherent a \<or> (\<forall>l. a l)"

definition tsum :: "valuation \<Rightarrow> wterm list \<Rightarrow> int" where
  "tsum a ps = (\<Sum>p\<leftarrow>ps. if a (fst p) then snd p else 0)"

definition wsat :: "valuation \<Rightarrow> clause \<Rightarrow> bool" where
  "wsat a c \<longleftrightarrow> Cardinality c \<le> tsum a (terms c)"

lemma coherent_lit_true: "coherent (lit_true a)"
  by (simp add: coherent_def)

lemma wsat_lit_true: "wsat (lit_true a) c = sat_clause a c"
  by (simp add: wsat_def sat_clause_def tsum_def wsum_def)

lemma coherentD: "coherent a \<Longrightarrow> 0 \<le> l \<Longrightarrow> a (Negation l) \<Longrightarrow> \<not> a l"
  by (simp add: coherent_def)

lemma properD: "proper a \<Longrightarrow> 0 \<le> l \<Longrightarrow> a (Negation l) \<Longrightarrow> a l \<Longrightarrow> a k"
  by (auto simp: proper_def coherent_def)

lemma tsum_Nil [simp]: "tsum a [] = 0"
  by (simp add: tsum_def)

lemma tsum_Cons [simp]: "tsum a (p # ps) = (if a (fst p) then snd p else 0) + tsum a ps"
  by (simp add: tsum_def)

lemma tsum_append [simp]: "tsum a (ps @ qs) = tsum a ps + tsum a qs"
  by (simp add: tsum_def)

lemma tsum_mset: "tsum a ps = (\<Sum>p\<in>#mset ps. if a (fst p) then snd p else 0)"
  by (induction ps) simp_all

lemma tsum_cong_mset: "mset ps = mset qs \<Longrightarrow> tsum a ps = tsum a qs"
  by (simp add: tsum_mset)

lemma prop_clause_wsat:
  assumes "prop_clause c"
  shows "wsat a c \<longleftrightarrow> (\<exists>l \<in> set (lits c). a l)"
proof -
  have "tsum a (zip ls (replicate (length ls) 1)) = int (length (filter a ls))" for ls
    by (induction ls) auto
  then have "tsum a (terms c) = int (length (filter a (lits c)))"
    using assms by (simp add: prop_clause_def terms_def c_weights_def)
  then have "wsat a c \<longleftrightarrow> 0 < length (filter a (lits c))"
    using assms by (simp add: wsat_def prop_clause_def Suc_le_eq)
  then show ?thesis by (auto simp: filter_empty_conv)
qed

section \<open>Clauses\<close>

text \<open>\<open>csame\<close>: the same constraint, up to the order of the literals and the bookkeeping.\<close>

definition csame :: "clause \<Rightarrow> clause \<Rightarrow> bool" where
  "csame c c' \<longleftrightarrow> mset (lits c') = mset (lits c) \<and> Cardinality c' = Cardinality c
     \<and> (pbData c' = None \<longleftrightarrow> pbData c = None)
     \<and> (length (c_weights c) = length (lits c) \<longrightarrow>
          length (c_weights c') = length (lits c') \<and> mset (terms c') = mset (terms c))"

definition clause_ok :: "valuation \<Rightarrow> int \<Rightarrow> clause \<Rightarrow> bool" where
  "clause_ok a n c \<longleftrightarrow> lits_ok n (lits c) \<and> distinct (map Lit_Var (lits c)) \<and> wsat a c
     \<and> length (c_weights c) = length (lits c) \<and> (\<forall>w \<in> set (c_weights c). 0 < w)
     \<and> (pbData c = None \<longrightarrow> Cardinality c \<le> int (Len c))
     \<and> (pbData c \<noteq> None \<longrightarrow> sum_fits (c_weights c))"

lemma csame_refl [simp]: "csame c c"
  by (simp add: csame_def)

lemma csame_trans: "csame c d \<Longrightarrow> csame d e \<Longrightarrow> csame c e"
  by (auto simp: csame_def)

lemma csame_lits: "csame c c' \<Longrightarrow> set (lits c') = set (lits c)" "csame c c' \<Longrightarrow> Len c' = Len c"
  by (auto simp: csame_def Len_def dest: set_via_mset mset_eq_length)

lemma csame_card: "csame c c' \<Longrightarrow> Cardinality c' = Cardinality c"
  by (simp add: csame_def)

lemma csame_prop: "csame c c' \<Longrightarrow> prop_clause c' = prop_clause c"
  by (simp add: csame_def prop_clause_def)

lemma terms_weights: "length (c_weights c) = length (lits c) \<Longrightarrow> map snd (terms c) = c_weights c"
  by (simp add: terms_def)

lemma clause_ok_csame:
  assumes "clause_ok a n c" and "csame c c'"
  shows "clause_ok a n c'"
proof -
  have len: "length (c_weights c) = length (lits c)" using assms(1) by (simp add: clause_ok_def)
  with assms(2) have len': "length (c_weights c') = length (lits c')" and t: "mset (terms c') = mset (terms c)"
    by (auto simp: csame_def)
  have "mset (map snd (terms c')) = mset (map snd (terms c))" using t by simp
  then have "mset (c_weights c') = mset (c_weights c)" using terms_weights len len' by metis
  then have "set (c_weights c') = set (c_weights c)" "sum_fits (c_weights c') = sum_fits (c_weights c)"
    by (rule set_via_mset, rule sum_fits_cong) 
  moreover have "mset (map Lit_Var (lits c')) = mset (map Lit_Var (lits c))"
    using assms(2) by (simp add: csame_def)
  then have "distinct (map Lit_Var (lits c')) = distinct (map Lit_Var (lits c))"
    by (metis mset_eq_imp_distinct_iff)
  moreover have "wsat a c' = wsat a c"
    using csame_card [OF assms(2)] tsum_cong_mset [OF t] by (simp add: wsat_def)
  moreover have "pbData c' = None \<longleftrightarrow> pbData c = None" using assms(2) by (simp add: csame_def)
  ultimately show ?thesis
    using assms(1) len' csame_lits [OF assms(2)] csame_card [OF assms(2)] by (simp add: clause_ok_def)
qed

lemma Cardinality_bits:
  assumes "lbdValue c' AND NOT bothMasks = lbdValue c AND NOT bothMasks" and "Learned c' = Learned c"
  shows "Cardinality c' = Cardinality c"
  using assms by (simp add: Cardinality_def)

lemma csame_flags:
  assumes "lits c' = lits c" and "pbData c' = pbData c" and "Cardinality c' = Cardinality c"
  shows "csame c c'"
  using assms by (simp add: csame_def terms_def c_weights_def cong: option.case_cong)

lemma csame_lock [simp]: "csame c (lock c)"
proof (rule csame_flags)
  show "Cardinality (lock c) = Cardinality c"
    by (rule Cardinality_bits, rule low_bits_eq) (simp_all add: bit_lock Learned_iff)
qed (simp_all add: lock_def)

lemma csame_unlock [simp]: "csame c (unlock c)"
proof (rule csame_flags)
  show "Cardinality (unlock c) = Cardinality c"
    by (rule Cardinality_bits, rule low_bits_eq) (simp_all add: bit_unlock Learned_iff)
qed (simp_all add: unlock_def)

lemma csame_activity [simp]: "csame c (c\<lparr>c_activity := x\<rparr>)"
  by (rule csame_flags) (simp_all add: Cardinality_def Learned_def)

lemma csame_watched [simp]: "pbData c = Some p \<Longrightarrow> csame c (c\<lparr>pbData := Some (p\<lparr>watched := wd\<rparr>)\<rparr>)"
  by (simp add: csame_def terms_def c_weights_def Cardinality_def Learned_def)

lemma swapElems_exch:
  "swapElems xs i j = (if i < length xs \<and> j < length xs then Some (exch xs i j) else None)"
  by (auto simp: swapElems_def get_def put_def exch_def)

lemma exch_zip:
  "length ys = length xs \<Longrightarrow> i < length xs \<Longrightarrow> j < length xs \<Longrightarrow>
   zip (exch xs i j) (exch ys i j) = exch (zip xs ys) i j"
  by (rule nth_equalityI) (auto simp: exch_def nth_list_update)

lemma swap_spec:
  assumes "swap c i j = Some c'"
  shows "csame c c' \<and> i < Len c \<and> j < Len c \<and> lits c' = exch (lits c) i j"
proof (cases "pbData c")
  case None
  then show ?thesis using assms
    by (auto simp: swap_def swapElems_exch csame_def terms_def c_weights_def Cardinality_def Learned_def
        Len_def zip_replicate2 split: if_splits)
next
  case (Some p)
  then show ?thesis using assms
    by (auto simp: swap_def swapElems_exch csame_def terms_def c_weights_def Cardinality_def Learned_def
        Len_def exch_zip split: if_splits)
qed

section \<open>The invariant\<close>

text \<open>\<open>entries xs Q\<close>: every element of \<open>xs\<close> satisfies \<open>Q\<close> with the elements before it.\<close>

definition entries :: "'a list \<Rightarrow> ('a list \<Rightarrow> 'a \<Rightarrow> bool) \<Rightarrow> bool" where
  "entries xs Q \<longleftrightarrow> (\<forall>pre l post. xs = pre @ l # post \<longrightarrow> Q pre l)"

lemma entries_Nil [simp]: "entries [] Q"
  by (simp add: entries_def)

lemma entriesD: "entries xs Q \<Longrightarrow> xs = pre @ l # post \<Longrightarrow> Q pre l"
  by (simp add: entries_def)

lemma entries_snoc [simp]: "entries (xs @ [x]) Q \<longleftrightarrow> entries xs Q \<and> Q xs x"
proof
  assume e: "entries (xs @ [x]) Q"
  show "entries xs Q \<and> Q xs x"
    using entriesD [OF e] unfolding entries_def by auto
next
  assume e: "entries xs Q \<and> Q xs x"
  show "entries (xs @ [x]) Q"
    unfolding entries_def
  proof (intro allI impI)
    fix pre l post assume eq: "xs @ [x] = pre @ l # post"
    show "Q pre l" using e eq by (cases post rule: rev_cases) (auto dest: entriesD)
  qed
qed

lemma entries_prefix: "entries (xs @ ys) Q \<Longrightarrow> entries xs Q"
  unfolding entries_def by (metis append.assoc append_Cons)

lemma entries_mono:
  assumes "entries xs Q" and "\<And>pre l. l \<in> set xs \<Longrightarrow> set pre \<subseteq> set xs \<Longrightarrow> Q pre l \<Longrightarrow> R pre l"
  shows "entries xs R"
  unfolding entries_def
proof (intro allI impI)
  fix pre l post assume eq: "xs = pre @ l # post"
  show "R pre l" using assms(2) [OF _ _ entriesD [OF assms(1) eq]] eq by auto
qed

text \<open>A clause implies a literal, once the literals before it are bound.\<close>

definition implied :: "valuation \<Rightarrow> clause \<Rightarrow> lit list \<Rightarrow> lit \<Rightarrow> bool" where
  "implied a c pre l \<longleftrightarrow> a l \<or> (\<exists>k \<in> set (lits c). Negation k \<in> set pre \<and> a k)"

definition entry_ok :: "valuation \<Rightarrow> solver \<Rightarrow> lit list \<Rightarrow> lit \<Rightarrow> bool" where
  "entry_ok a s pre l \<longleftrightarrow> (\<forall>k \<in> set pre. lev (model s) k \<le> lev (model s) l)
     \<and> (if lev (model s) l = 1 then a l
        else Lit_Var l \<notin> Lit_Var ` set pre
          \<and> (case reason s ! nat (Lit_Var l) of
               None \<Rightarrow> \<forall>k \<in> set pre. lev (model s) k < lev (model s) l
             | Some c \<Rightarrow> c < length (store s) \<and> implied a (store s ! c) pre l))"

definition sizes_ok :: "solver \<Rightarrow> bool" where
  "sizes_ok s \<longleftrightarrow> 0 \<le> nbVars s \<and> length (model s) = nat (nbVars s) \<and> length (reason s) = nat (nbVars s)"

definition clauses_ok :: "valuation \<Rightarrow> solver \<Rightarrow> bool" where
  "clauses_ok a s \<longleftrightarrow> (\<forall>c \<in> set (store s). clause_ok a (nbVars s) c)"

definition bindings_ok :: "solver \<Rightarrow> bool" where
  "bindings_ok s \<longleftrightarrow> (\<forall>l \<in> set (trail s). lit_ok (nbVars s) l \<and> isTrue (model s) l)
     \<and> (\<forall>v < length (model s). model s ! v \<noteq> 0 \<longrightarrow> int v \<in> Lit_Var ` set (trail s))"

definition assumptions_ok :: "solver \<Rightarrow> bool" where
  "assumptions_ok s \<longleftrightarrow> (\<forall>v < length (assumptions s). assumptions s ! v
     \<longrightarrow> v < length (model s) \<and> \<bar>model s ! v\<bar> = 1)"

definition core :: "valuation \<Rightarrow> solver \<Rightarrow> bool" where
  "core a s \<longleftrightarrow> proper a \<and> sizes_ok s \<and> clauses_ok a s \<and> bindings_ok s \<and> entries (trail s) (entry_ok a s)
     \<and> assumptions_ok s"

text \<open>Only bound variables have a reason; \<open>X\<close> are exceptions.\<close>

definition reasons_ok :: "int set \<Rightarrow> solver \<Rightarrow> bool" where
  "reasons_ok X s \<longleftrightarrow> (\<forall>v < length (reason s). model s ! v = 0 \<and> int v \<notin> X \<longrightarrow> reason s ! v = None)"

text \<open>What the watcher lists hold.\<close>

definition bin_ok :: "solver \<Rightarrow> int \<Rightarrow> watcher \<Rightarrow> bool" where
  "bin_ok s l w \<longleftrightarrow> w_clause w < length (store s) \<and> prop_clause (store s ! w_clause w)
     \<and> set (lits (store s ! w_clause w)) = {other w, Negation l}"

definition long_ok :: "solver \<Rightarrow> int \<Rightarrow> cid \<Rightarrow> bool" where
  "long_ok s l c \<longleftrightarrow> c < length (store s) \<and> prop_clause (store s ! c) \<and> 2 \<le> Len (store s ! c)
     \<and> Negation l \<in> {lits (store s ! c) ! 0, lits (store s ! c) ! 1}"

definition long_list :: "solver \<Rightarrow> int \<Rightarrow> watcher list \<Rightarrow> bool" where
  "long_list s l ws \<longleftrightarrow> distinct (map w_clause ws) \<and> (\<forall>w \<in> set ws. long_ok s l (w_clause w))"

definition pbw_ok :: "solver \<Rightarrow> int \<Rightarrow> cid \<Rightarrow> bool" where
  "pbw_ok s l c \<longleftrightarrow> c < length (store s) \<and> \<not> prop_clause (store s ! c)
     \<and> Negation l \<in> set (lits (store s ! c))"

text \<open>\<open>X\<close> are the literals whose list is being rebuilt.\<close>

definition watch_except :: "int set \<Rightarrow> solver \<Rightarrow> bool" where
  "watch_except X s \<longleftrightarrow>
     (\<forall>l < length (wlistBin s). \<forall>w \<in> set (wlistBin s ! l). bin_ok s (int l) w)
     \<and> (\<forall>l < length (wlist s). int l \<notin> X \<longrightarrow> long_list s (int l) (wlist s ! l))
     \<and> (\<forall>l < length (wlistPb s). \<forall>c \<in> set (wlistPb s ! l). pbw_ok s (int l) c)
     \<and> (\<forall>l < length (wlistCardAMO s). wlistCardAMO s ! l = [])"

abbreviation watch_ok :: "solver \<Rightarrow> bool" where
  "watch_ok \<equiv> watch_except {}"

section \<open>Changes the invariant does not see\<close>

text \<open>\<open>store_same\<close>: clauses change up to \<open>csame\<close>; \<open>heuristic\<close>: literals do not even move.\<close>

abbreviation store_same :: "clause list \<Rightarrow> clause list \<Rightarrow> bool" where
  "store_same \<equiv> list_all2 csame"

lemma store_same_refl [simp]: "store_same st st"
  by (simp add: list_all2_refl)

lemma store_same_trans: "store_same s t \<Longrightarrow> store_same t u \<Longrightarrow> store_same s u"
  by (rule list_all2_trans [of csame csame csame]) (auto intro: csame_trans)

lemma store_same_nth: "store_same st st' \<Longrightarrow> c < length st \<Longrightarrow> csame (st ! c) (st' ! c)"
  by (simp add: list_all2_nthD)

lemma store_same_length: "store_same st st' \<Longrightarrow> length st' = length st"
  by (simp add: list_all2_lengthD)

lemma store_same_put: "c < length st \<Longrightarrow> csame (st ! c) cl \<Longrightarrow> store_same st (st[c := cl])"
  by (auto simp: list_all2_conv_all_nth nth_list_update)

definition heuristic :: "solver \<Rightarrow> solver \<Rightarrow> bool" where
  "heuristic s s' \<longleftrightarrow> nbVars s' = nbVars s \<and> trail s' = trail s \<and> model s' = model s
     \<and> reason s' = reason s \<and> assumptions s' = assumptions s \<and> wlistBin s' = wlistBin s
     \<and> wlist s' = wlist s \<and> wlistPb s' = wlistPb s \<and> wlistCardAMO s' = wlistCardAMO s
     \<and> store_same (store s) (store s') \<and> map lits (store s') = map lits (store s)"

lemma heuristic_refl [simp]: "heuristic s s"
  by (simp add: heuristic_def)

lemma heuristic_trans: "heuristic s t \<Longrightarrow> heuristic t u \<Longrightarrow> heuristic s u"
  by (auto simp: heuristic_def intro: store_same_trans)

lemma implied_csame: "csame c c' \<Longrightarrow> implied a c' pre l = implied a c pre l"
  by (simp add: implied_def csame_lits)

lemma clauses_ok_same:
  assumes "clauses_ok a s" and "store_same (store s) (store s')" and "nbVars s' = nbVars s"
  shows "clauses_ok a s'"
  unfolding clauses_ok_def
proof
  fix c assume "c \<in> set (store s')"
  then obtain i where i: "i < length (store s)" "c = store s' ! i"
    using store_same_length [OF assms(2)] by (auto simp: in_set_conv_nth)
  then have "clause_ok a (nbVars s) (store s ! i)" using assms(1) by (simp add: clauses_ok_def)
  then show "clause_ok a (nbVars s') c"
    using clause_ok_csame store_same_nth [OF assms(2) i(1)] i(2) assms(3) by simp
qed

lemma entry_ok_same:
  assumes "store_same (store s) (store s')" and "model s' = model s" and "reason s' = reason s"
  shows "entry_ok a s' pre l = entry_ok a s pre l"
proof -
  have "c < length (store s') \<and> implied a (store s' ! c) pre l
      \<longleftrightarrow> c < length (store s) \<and> implied a (store s ! c) pre l" for c
    using store_same_length [OF assms(1)] implied_csame [OF store_same_nth [OF assms(1)]] by auto
  then show ?thesis unfolding entry_ok_def using assms(2,3) by (simp split: option.splits)
qed

lemma core_same:
  assumes "core a s" and "store_same (store s) (store s')" and "nbVars s' = nbVars s"
    and "trail s' = trail s" and "model s' = model s" and "reason s' = reason s"
    and "assumptions s' = assumptions s"
  shows "core a s'"
proof -
  have "entries (trail s') (entry_ok a s')"
    using assms(1) entry_ok_same [OF assms(2,5,6)] unfolding core_def assms(4)
    by (auto intro: entries_mono)
  then show ?thesis
    using assms(1,3-7) clauses_ok_same [OF _ assms(2,3)]
    by (auto simp: core_def sizes_ok_def bindings_ok_def assumptions_ok_def)
qed

lemma core_heuristic: "core a s \<Longrightarrow> heuristic s s' \<Longrightarrow> core a s'"
  by (erule core_same) (auto simp: heuristic_def)

lemma reasons_heuristic: "heuristic s s' \<Longrightarrow> reasons_ok X s' = reasons_ok X s"
  by (simp add: heuristic_def reasons_ok_def)

definition same_lists :: "solver \<Rightarrow> solver \<Rightarrow> bool" where
  "same_lists s s' \<longleftrightarrow> wlistBin s' = wlistBin s \<and> wlist s' = wlist s \<and> wlistPb s' = wlistPb s
     \<and> wlistCardAMO s' = wlistCardAMO s"

lemma same_lists_refl [simp]: "same_lists s s"
  by (simp add: same_lists_def)

lemma same_lists_trans: "same_lists s t \<Longrightarrow> same_lists t u \<Longrightarrow> same_lists s u"
  by (simp add: same_lists_def)

lemma lits_kept:
  assumes "store_same (store s) (store s')" and "map lits (store s') = map lits (store s)"
  shows "bin_ok s' l w = bin_ok s l w" "long_ok s' l c = long_ok s l c" "pbw_ok s' l c = pbw_ok s l c"
proof -
  have "lits (store s' ! c) = lits (store s ! c) \<and> prop_clause (store s' ! c) = prop_clause (store s ! c)"
    if "c < length (store s)" for c
    using assms that csame_prop store_same_nth by (metis length_map nth_map)
  then show "bin_ok s' l w = bin_ok s l w" "long_ok s' l c = long_ok s l c" "pbw_ok s' l c = pbw_ok s l c"
    using store_same_length [OF assms(1)] by (auto simp: bin_ok_def long_ok_def pbw_ok_def Len_def)
qed

lemma watch_same:
  assumes "watch_except X s" and "same_lists s s'" and "store_same (store s) (store s')"
    and "map lits (store s') = map lits (store s)"
  shows "watch_except X s'"
  using assms(1,2) lits_kept [OF assms(3,4)] unfolding watch_except_def same_lists_def long_list_def
  by simp

lemma watch_heuristic: "watch_except X s \<Longrightarrow> heuristic s s' \<Longrightarrow> watch_except X s'"
  by (erule watch_same) (auto simp: heuristic_def same_lists_def)

section \<open>Heuristic operations\<close>

lemma varBumpActivity_frame: "wlp (varBumpActivity s v) (heuristic s)"
  by (auto simp: varBumpActivity_def heuristic_def Let_def intro!: wlp_I split: prod.splits)

lemma varDecayActivity_frame: "heuristic s (varDecayActivity s)"
  by (simp add: varDecayActivity_def heuristic_def)

lemma clauseDecayActivity_frame: "heuristic s (clauseDecayActivity s)"
  by (simp add: clauseDecayActivity_def heuristic_def)

lemma updC_frame:
  assumes "getC s c = Some cl" and "csame cl cl'" and "lits cl' = lits cl"
  shows "wlp (updC s c cl') (heuristic s)"
  using assms by (auto simp: updC_def getC_def get_def heuristic_def map_update list_update_same_conv
      intro!: store_same_put split: if_splits)

lemma wlp_getC [simp]: "wlp (getC s c) Q \<longleftrightarrow> (c < length (store s) \<longrightarrow> Q (store s ! c))"
  by (simp add: getC_def)

lemma wlp_updC [simp]: "wlp (updC s c cl) Q \<longleftrightarrow> (c < length (store s) \<longrightarrow> Q (s\<lparr>store := (store s)[c := cl]\<rparr>))"
  by (simp add: updC_def)

lemma rescaleClauses_frame: "wlp (rescaleClauses st cs) (\<lambda>st'. store_same st st' \<and> map lits st' = map lits st)"
proof (induction st cs rule: rescaleClauses.induct)
  case (2 st c cs)
  show ?case
  proof (cases "c < length st")
    case True
    let ?st = "st[c := (st ! c)\<lparr>c_activity := rescaleClause (c_activity (st ! c))\<rparr>]"
    have "wlp (rescaleClauses ?st cs) (\<lambda>st'. store_same ?st st' \<and> map lits st' = map lits ?st)"
      using "2.IH" [of "st ! c" ?st] True by simp
    moreover have "store_same st ?st" "map lits ?st = map lits st"
      using True by (auto intro: store_same_put simp: map_update list_update_same_conv)
    ultimately show ?thesis using True by (auto elim!: wlp_mono intro: store_same_trans)
  qed (simp add: get_def)
qed simp

lemma clauseBumpActivity_frame: "wlp (clauseBumpActivity s c) (heuristic s)"
proof -
  have "heuristic s (s\<lparr>store := (store s)[c := (store s ! c)\<lparr>c_activity := x\<rparr>]\<rparr>)" if "c < length (store s)" for x
    using that by (auto simp: heuristic_def map_update list_update_same_conv intro: store_same_put)
  moreover have "wlp (rescaleClauses st cs) (\<lambda>st. heuristic s (s\<lparr>store := st, clauseInc := i\<rparr>))"
    if "heuristic s (s\<lparr>store := st\<rparr>)" for st cs i
    by (rule wlp_mono [OF rescaleClauses_frame])
      (use that in \<open>auto simp: heuristic_def intro: store_same_trans\<close>)
  ultimately show ?thesis
    by (auto simp: clauseBumpActivity_def Let_def)
qed

lemma certify_frame: "heuristic s (certify s line)"
  by (simp add: certify_def heuristic_def)

lemma resetOptimPolarity_frame: "wlp (resetOptimPolarity s) (heuristic s)"
  by (auto simp: resetOptimPolarity_def wlp_iff bind_eq_Some_conv heuristic_def split: option.splits)

lemma rebuildOrderHeap_frame: "wlp (rebuildOrderHeap s) (heuristic s)"
  by (auto simp: rebuildOrderHeap_def wlp_iff bind_eq_Some_conv heuristic_def split: if_splits)

text \<open>The literal that is chosen is unbound.\<close>

lemma chooseLoop_unbound: "wlp (chooseLoop m q) (\<lambda>(r, q'). \<forall>v. r = Some v \<longrightarrow> v < length m \<and> m ! v = 0)"
proof (induction m q rule: chooseLoop.induct)
  case (1 m q)
  show ?case
  proof (cases "q_empty q")
    case True
    then show ?thesis by (simp add: chooseLoop.simps [of m q])
  next
    case False
    have eq: "chooseLoop m q = do {
        (v, q') \<leftarrow> removeMin q;
        b \<leftarrow> get m v;
        if b = 0 then Some (Some v, q') else chooseLoop m q' }"
      using False chooseLoop.simps [of m q] by simp
    have step: "wlp (do { b \<leftarrow> get m v; if b = 0 then Some (Some v, q') else chooseLoop m q' })
        (\<lambda>(r, q'). \<forall>v. r = Some v \<longrightarrow> v < length m \<and> m ! v = 0)" if "removeMin q = Some (v, q')" for v q'
      using "1.IH" [OF False that refl] by auto
    show ?thesis unfolding eq wlp_bind [of "removeMin q"]
      by (rule wlp_eqI) (use step in \<open>auto split: prod.splits\<close>)
  qed
qed

definition unboundLit :: "solver \<Rightarrow> lit \<Rightarrow> bool" where
  "unboundLit s l \<longleftrightarrow> lit_ok (nbVars s) l \<and> model s ! nat (Lit_Var l) = 0"

lemma SignedLit_var: "0 \<le> v \<Longrightarrow> Lit_Var (SignedLit v b) = v" "0 \<le> v \<Longrightarrow> 0 \<le> SignedLit v b"
  by (auto simp: SignedLit_def lit_simps)

lemma chooseLit_spec:
  assumes "sizes_ok s"
  shows "wlp (chooseLit s) (\<lambda>(l, s'). heuristic s s' \<and> (l = - 1 \<or> unboundLit s l))"
proof -
  have "unboundLit s (SignedLit (int v) b)" if "v < length (model s)" "model s ! v = 0" for v b
    using that assms by (simp add: unboundLit_def lit_ok_def SignedLit_var sizes_ok_def)
  then show ?thesis
    unfolding chooseLit_def
    by (auto simp: heuristic_def Let_def intro!: wlp_mono [OF chooseLoop_unbound] split: option.splits)
qed

section \<open>Facts about the bindings\<close>

lemma core_trail:
  assumes "core a s" and "l \<in> set (trail s)"
  shows "lit_ok (nbVars s) l" "isTrue (model s) l" "0 \<le> l" "nat (Lit_Var l) < length (model s)"
    and "lev (model s) l = 1 \<Longrightarrow> a l" and "lev (model s) l \<ge> 1"
proof -
  show ok: "lit_ok (nbVars s) l" "isTrue (model s) l"
    using assms by (auto simp: core_def bindings_ok_def)
  then show "0 \<le> l" by (simp add: lit_ok_def)
  show "nat (Lit_Var l) < length (model s)"
    using ok(1) lit_ok_var [OF ok(1)] assms(1) by (auto simp: core_def sizes_ok_def lit_ok_def)
  obtain pre post where eq: "trail s = pre @ l # post" using assms(2) by (auto simp: in_set_conv_decomp)
  have "entry_ok a s pre l" using assms(1) entriesD [OF _ eq] unfolding core_def by blast
  then show "lev (model s) l = 1 \<Longrightarrow> a l" by (simp add: entry_ok_def)
  show "lev (model s) l \<ge> 1" using ok(2) by (auto simp: isTrue_def)
qed

lemma core_clause: "core a s \<Longrightarrow> c < length (store s) \<Longrightarrow> clause_ok a (nbVars s) (store s ! c)"
  by (simp add: core_def clauses_ok_def)

lemma core_index: "core a s \<Longrightarrow> lit_ok (nbVars s) l \<Longrightarrow> nat (Lit_Var l) < length (model s)
    \<and> 0 \<le> Lit_Var l \<and> 0 \<le> l"
  using lit_ok_var [of "nbVars s" l] by (auto simp: core_def sizes_ok_def lit_ok_def)

lemma false_in_trail:
  assumes "core a s" and "lit_ok (nbVars s) l"
  shows "isFalse (model s) l \<longleftrightarrow> Negation l \<in> set (trail s)"
proof
  note i = core_index [OF assms]
  assume f: "isFalse (model s) l"
  then have "model s ! nat (Lit_Var l) \<noteq> 0" by (simp add: isFalse_def)
  then obtain k where k: "k \<in> set (trail s)" "Lit_Var k = Lit_Var l"
    using assms(1) i by (force simp: core_def bindings_ok_def)
  have "IsPositive k \<noteq> IsPositive l"
    using core_trail(2) [OF assms(1) k(1)] f k(2) by (auto simp: isTrue_def isFalse_def)
  then have "k = Negation l"
    using lit_neg_iff [of k l] i core_trail(3) [OF assms(1) k(1)] k(2) by simp
  then show "Negation l \<in> set (trail s)" using k(1) by simp
next
  note i = core_index [OF assms]
  assume "Negation l \<in> set (trail s)"
  then show "isFalse (model s) l"
    using core_trail(2) [OF assms(1)] isTrue_Negation i by blast
qed

lemma trail_bound: "core a s \<Longrightarrow> l \<in> set (trail s) \<Longrightarrow> model s ! nat (Lit_Var l) \<noteq> 0"
  using core_trail(2) by (auto simp: isTrue_def)

lemma lev_Negation [simp]: "0 \<le> l \<Longrightarrow> lev m (Negation l) = lev m l"
  by simp

text \<open>At the top level, what a clause implies is true.\<close>

lemma implied_top:
  assumes "core a s" and "\<forall>k \<in> set (trail s). lev (model s) k \<le> 1" and "lits_ok (nbVars s) (lits c)"
    and "implied a c (trail s) l"
  shows "a l"
proof (rule ccontr)
  assume "\<not> a l"
  then obtain k where k: "k \<in> set (lits c)" "Negation k \<in> set (trail s)" "a k"
    using assms(4) by (auto simp: implied_def)
  have "lev (model s) (Negation k) = 1"
    using core_trail(6) [OF assms(1) k(2)] assms(2) k(2) by force
  then have "a (Negation k)" using core_trail(5) [OF assms(1) k(2)] by simp
  moreover have "0 \<le> k" using assms(3) k(1) by (simp add: lit_ok_def)
  moreover have "proper a" using assms(1) by (simp add: core_def)
  ultimately show False using k(3) properD \<open>\<not> a l\<close> by blast
qed

section \<open>Binding a literal\<close>

definition bindable :: "valuation \<Rightarrow> solver \<Rightarrow> declevel \<Rightarrow> cid option \<Rightarrow> lit \<Rightarrow> bool" where
  "bindable a s lvl r l \<longleftrightarrow> unboundLit s l \<and> 1 \<le> lvl \<and> (\<forall>k \<in> set (trail s). lev (model s) k \<le> lvl)
     \<and> (case r of None \<Rightarrow> if lvl = 1 then a l else \<forall>k \<in> set (trail s). lev (model s) k < lvl
        | Some c \<Rightarrow> c < length (store s) \<and> implied a (store s ! c) (trail s) l)"

lemma lev_signed: "0 \<le> lvl \<Longrightarrow> \<bar>lvlToSignedLvl l lvl\<bar> = lvl"
  by (simp add: lvlToSignedLvl_def)

lemma core_bind:
  assumes core: "core a s" and b: "bindable a s lvl r l"
    and s': "nbVars s' = nbVars s" "assumptions s' = assumptions s" "store_same (store s) (store s')"
      "model s' = (model s)[nat (Lit_Var l) := lvlToSignedLvl l lvl]" "trail s' = trail s @ [l]"
      "reason s' = (reason s)[nat (Lit_Var l) := r]"
  shows "core a s'"
proof -
  let ?v = "nat (Lit_Var l)"
  have u: "lit_ok (nbVars s) l" "model s ! ?v = 0" "1 \<le> lvl" using b by (auto simp: bindable_def unboundLit_def)
  note i = core_index [OF core u(1)]
  have lr: "?v < length (reason s)" using i core by (simp add: core_def sizes_ok_def)
  have new: "nat (Lit_Var k) \<noteq> ?v" if "k \<in> set (trail s)" for k
    using trail_bound [OF core that] u(2) by auto
  have keep: "model s' ! nat (Lit_Var k) = model s ! nat (Lit_Var k)"
    "reason s' ! nat (Lit_Var k) = reason s ! nat (Lit_Var k)" if "k \<in> set (trail s)" for k
    using new [OF that] s' by simp_all
  have newlev: "lev (model s') l = lvl" using s'(4) i u(3) by (simp add: lev_signed)
  have cl: "clauses_ok a s'" using core s'(1,3) clauses_ok_same by (auto simp: core_def)
  have old: "entries (trail s) (entry_ok a s')"
  proof (rule entries_mono)
    show "entries (trail s) (entry_ok a s)" using core by (simp add: core_def)
    fix pre k assume k: "k \<in> set (trail s)" "set pre \<subseteq> set (trail s)" "entry_ok a s pre k"
    have "\<forall>j \<in> set pre. lev (model s') j = lev (model s) j" using keep(1) k(2) by auto
    moreover have "c < length (store s') \<and> implied a (store s' ! c) pre k
        \<longleftrightarrow> c < length (store s) \<and> implied a (store s ! c) pre k" for c
      using store_same_length [OF s'(3)] implied_csame [OF store_same_nth [OF s'(3)]] by auto
    ultimately show "entry_ok a s' pre k"
      using k(3) keep [OF k(1)] unfolding entry_ok_def by (simp split: option.splits)
  qed
  have le: "\<forall>k \<in> set (trail s). lev (model s') k \<le> lvl" using b keep(1) by (auto simp: bindable_def)
  have top: "a l" if "lvl = 1"
  proof (cases r)
    case (Some c)
    then have c: "c < length (store s)" "implied a (store s ! c) (trail s) l" using b by (auto simp: bindable_def)
    then have "lits_ok (nbVars s) (lits (store s ! c))"
      using core_clause [OF core c(1)] by (simp add: clause_ok_def)
    then show ?thesis using implied_top [OF core _ _ c(2)] b that by (simp add: bindable_def)
  qed (use b that in \<open>simp add: bindable_def\<close>)
  have "entry_ok a s' (trail s) l"
  proof -
    have "Lit_Var l \<notin> Lit_Var ` set (trail s)" using new by (metis imageE)
    moreover have "reason s' ! ?v = r" using s'(6) lr by simp
    moreover have "c < length (store s') \<and> implied a (store s' ! c) (trail s) l" if "r = Some c" for c
      using b that store_same_length [OF s'(3)] implied_csame [OF store_same_nth [OF s'(3)]]
      by (simp add: bindable_def)
    moreover have "\<forall>k \<in> set (trail s). lev (model s') k < lvl" if "r = None" "lvl \<noteq> 1"
      using b that keep(1) by (auto simp: bindable_def)
    ultimately show ?thesis using newlev le top unfolding entry_ok_def by (auto split: option.splits)
  qed
  with old have "entries (trail s') (entry_ok a s')" by (simp add: s'(5))
  moreover have "bindings_ok s'"
  proof -
    have "lit_ok (nbVars s') k \<and> isTrue (model s') k" if "k \<in> set (trail s')" for k
    proof (cases "k \<in> set (trail s)")
      case True
      then show ?thesis using core_trail(1,2) [OF core True] keep(1) [OF True] s'(1) by (simp add: isTrue_def)
    next
      case False
      then have "k = l" using that s'(5) by simp
      then show ?thesis using u s'(1,4) i by (auto intro!: isTrue_signed)
    qed
    moreover have "int v \<in> Lit_Var ` set (trail s')" if "v < length (model s')" "model s' ! v \<noteq> 0" for v
      using that core s' i by (cases "v = ?v") (auto simp: core_def bindings_ok_def)
    ultimately show ?thesis by (simp add: bindings_ok_def)
  qed
  moreover have "sizes_ok s'" using core s' by (simp add: core_def sizes_ok_def)
  moreover have "assumptions_ok s'"
    using core s' u(2) unfolding core_def assumptions_ok_def
    by (metis abs_zero length_list_update nth_list_update_neq zero_neq_one)
  moreover have "proper a" using core by (simp add: core_def)
  ultimately show ?thesis using cl by (simp add: core_def)
qed

end
