(* ===== verification/Propagation.thy ===== *)
theory Propagation
  imports SolverInv
begin

text \<open>
  Propagation keeps the invariant of the search: every literal it binds is implied by the clause
  it records as the reason, and a conflict it reports is a clause that is falsified although the
  fixed assignment satisfies it.
\<close>

section \<open>States during propagation\<close>

definition pinv :: "valuation \<Rightarrow> declevel \<Rightarrow> int set \<Rightarrow> solver \<Rightarrow> bool" where
  "pinv a lvl X s \<longleftrightarrow> core a s \<and> reasons_ok {} s \<and> watch_except X s \<and> 1 \<le> lvl
     \<and> (\<forall>k \<in> set (trail s). lev (model s) k \<le> lvl)"

definition progress :: "declevel \<Rightarrow> solver \<Rightarrow> solver \<Rightarrow> bool" where
  "progress lvl s s' \<longleftrightarrow> nbVars s' = nbVars s \<and> assumptions s' = assumptions s
     \<and> length (model s') = length (model s) \<and> store_same (store s) (store s')
     \<and> (\<forall>v < length (model s). model s ! v \<noteq> 0 \<longrightarrow> model s' ! v = model s ! v)
     \<and> (\<exists>new. trail s' = trail s @ new \<and> (\<forall>l \<in> set new. lev (model s') l = lvl \<and> nat (Lit_Var l) < length (model s)))"

definition confl_ok :: "valuation \<Rightarrow> declevel \<Rightarrow> solver \<Rightarrow> cid \<Rightarrow> bool" where
  "confl_ok a lvl s c \<longleftrightarrow> c < length (store s)
     \<and> (\<exists>k \<in> set (lits (store s ! c)). isFalse (model s) k \<and> a k)
     \<and> (\<exists>k \<in> set (lits (store s ! c)). isFalse (model s) k \<and> lev (model s) k = lvl)"

lemma progress_refl [simp]: "progress lvl s s"
  by (simp add: progress_def)

lemma progress_trans:
  assumes "progress lvl s t" and "progress lvl t u" and "1 \<le> lvl"
  shows "progress lvl s u"
proof -
  obtain new where new: "trail t = trail s @ new"
    "\<forall>l \<in> set new. lev (model t) l = lvl \<and> nat (Lit_Var l) < length (model s)"
    using assms(1) by (auto simp: progress_def)
  obtain new' where new': "trail u = trail t @ new'"
    "\<forall>l \<in> set new'. lev (model u) l = lvl \<and> nat (Lit_Var l) < length (model t)"
    using assms(2) by (auto simp: progress_def)
  have "lev (model u) l = lvl" if "l \<in> set new" for l
  proof -
    have "model t ! nat (Lit_Var l) \<noteq> 0" "nat (Lit_Var l) < length (model t)"
      using new(2) that assms(1,3) by (auto simp: progress_def)
    then have "model u ! nat (Lit_Var l) = model t ! nat (Lit_Var l)"
      using assms(2) by (simp add: progress_def)
    then show ?thesis using new(2) that by simp
  qed
  then have "trail u = trail s @ (new @ new')
      \<and> (\<forall>l \<in> set (new @ new'). lev (model u) l = lvl \<and> nat (Lit_Var l) < length (model s))"
    using new new' assms(1) by (auto simp: progress_def)
  then have tr: "\<exists>new. trail u = trail s @ new
      \<and> (\<forall>l \<in> set new. lev (model u) l = lvl \<and> nat (Lit_Var l) < length (model s))" by blast
  have "model u ! v = model s ! v" if "v < length (model s)" "model s ! v \<noteq> 0" for v
    using that assms(1,2) by (simp add: progress_def)
  with tr show ?thesis
    using assms(1,2) by (auto simp: progress_def intro: store_same_trans)
qed

lemma progress_trail: "progress lvl s s' \<Longrightarrow> l \<in> set (trail s) \<Longrightarrow> l \<in> set (trail s')"
  by (auto simp: progress_def)

lemma pinv_core: "pinv a lvl X s \<Longrightarrow> core a s"
  by (simp add: pinv_def)

lemma pinv_same:
  assumes "pinv a lvl X s" and "store_same (store s) (store s')" and "nbVars s' = nbVars s"
    and "trail s' = trail s" and "model s' = model s" and "reason s' = reason s"
    and "assumptions s' = assumptions s" and "watch_except Y s'"
  shows "pinv a lvl Y s'"
  using assms core_same [of a s s'] by (auto simp: pinv_def reasons_ok_def)

lemma progress_same:
  assumes "store_same (store s) (store s')" and "nbVars s' = nbVars s"
    and "trail s' = trail s" and "model s' = model s" and "assumptions s' = assumptions s"
  shows "progress lvl s s'"
  using assms by (simp add: progress_def)

lemma clause_false_lit:
  assumes "pinv a lvl X s" and "c < length (store s)" and "k \<in> set (lits (store s ! c))"
  shows "isFalse (model s) k \<longleftrightarrow> Negation k \<in> set (trail s)" "lit_ok (nbVars s) k" "0 \<le> k"
proof -
  show ok: "lit_ok (nbVars s) k"
    using core_clause [OF pinv_core [OF assms(1)] assms(2)] assms(3) by (simp add: clause_ok_def)
  then show "0 \<le> k" by (simp add: lit_ok_def)
  show "isFalse (model s) k \<longleftrightarrow> Negation k \<in> set (trail s)"
    by (rule false_in_trail [OF pinv_core [OF assms(1)] ok])
qed

text \<open>A clause all of whose true literals but one are false implies that one.\<close>

lemma impliedI:
  assumes "pinv a lvl X s" and "c < length (store s)"
    and "a l \<or> (\<exists>k \<in> set (lits (store s ! c)). isFalse (model s) k \<and> a k)"
  shows "implied a (store s ! c) (trail s) l"
  using assms clause_false_lit(1) [OF assms(1,2)] by (auto simp: implied_def)

section \<open>One literal\<close>

text \<open>What binding a literal for the reason \<open>c\<close> does to the state, locks apart.\<close>

definition boundFor :: "solver \<Rightarrow> cid \<Rightarrow> declevel \<Rightarrow> lit \<Rightarrow> solver \<Rightarrow> bool" where
  "boundFor s c lvl l s' \<longleftrightarrow> nbVars s' = nbVars s \<and> assumptions s' = assumptions s
     \<and> store_same (store s) (store s') \<and> map lits (store s') = map lits (store s) \<and> same_lists s s'
     \<and> model s' = (model s)[nat (Lit_Var l) := lvlToSignedLvl l lvl] \<and> trail s' = trail s @ [l]
     \<and> reason s' = (reason s)[nat (Lit_Var l) := Some c] \<and> learned s' = learned s \<and> varQueue s' = varQueue s"

lemma pinv_bind:
  assumes p: "pinv a lvl X s" and c: "c < length (store s)" and u: "model s ! nat (Lit_Var l) = 0"
    and l: "l \<in> set (lits (store s ! c))"
    and imp: "a l \<or> (\<exists>k \<in> set (lits (store s ! c)). isFalse (model s) k \<and> a k)"
    and b: "boundFor s c lvl l s'"
  shows "pinv a lvl X s' \<and> progress lvl s s'"
proof -
  note core = pinv_core [OF p]
  have ok: "lit_ok (nbVars s) l" using clause_false_lit(2) [OF p c l] .
  note i = core_index [OF core ok]
  have lvl: "1 \<le> lvl" "\<forall>k \<in> set (trail s). lev (model s) k \<le> lvl" using p by (auto simp: pinv_def)
  have "bindable a s lvl (Some c) l"
    using impliedI [OF p c imp] c u ok lvl by (simp add: bindable_def unboundLit_def)
  then have core': "core a s'"
    using b by (intro core_bind [OF core]) (auto simp: boundFor_def)
  have keep: "model s' ! v = model s ! v" if "model s ! v \<noteq> 0" for v
    using that u b by (cases "v = nat (Lit_Var l)") (auto simp: boundFor_def)
  have l_lev: "lev (model s') l = lvl" using b i lvl(1) by (simp add: boundFor_def lev_signed)
  have "reasons_ok {} s'"
    unfolding reasons_ok_def
  proof (intro allI impI)
    fix v assume v: "v < length (reason s')" "model s' ! v = 0 \<and> int v \<notin> {}"
    have "v \<noteq> nat (Lit_Var l)" using l_lev v(2) lvl(1) by auto
    then show "reason s' ! v = None"
      using p v b by (auto simp: pinv_def reasons_ok_def boundFor_def)
  qed
  moreover have "watch_except X s'"
    using p b by (intro watch_same [of X s s']) (auto simp: pinv_def boundFor_def)
  moreover have "lev (model s') k \<le> lvl" if "k \<in> set (trail s')" for k
    using that b lvl(2) l_lev keep trail_bound [OF core] by (auto simp: boundFor_def)
  moreover have "progress lvl s s'"
    unfolding progress_def
  proof (intro conjI)
    show "\<exists>new. trail s' = trail s @ new \<and> (\<forall>l \<in> set new. lev (model s') l = lvl \<and> nat (Lit_Var l) < length (model s))"
      using b l_lev i by (intro exI [of _ "[l]"]) (simp add: boundFor_def)
  qed (use b keep in \<open>auto simp: boundFor_def\<close>)
  ultimately show ?thesis using core' lvl(1) by (simp add: pinv_def)
qed

lemma propagateUnit_bound: "wlp (propagateUnit s c lvl l) (boundFor s c lvl l)"
  by (auto simp: propagateUnit_def boundFor_def same_lists_def map_update list_update_same_conv lock_def
      intro!: store_same_put csame_lock [unfolded lock_def])

lemma propagateUnit_spec:
  assumes "pinv a lvl X s" and "c < length (store s)" and "model s ! nat (Lit_Var l) = 0"
    and "l \<in> set (lits (store s ! c))"
    and "a l \<or> (\<exists>k \<in> set (lits (store s ! c)). isFalse (model s) k \<and> a k)"
  shows "wlp (propagateUnit s c lvl l) (\<lambda>s'. boundFor s c lvl l s' \<and> pinv a lvl X s' \<and> progress lvl s s')"
  by (rule wlp_mono [OF propagateUnit_bound]) (use pinv_bind [OF assms] in blast)

section \<open>Binary clauses\<close>

lemma bin_okD:
  assumes "bin_ok s l w" and "pinv a lvl X s"
  shows "w_clause w < length (store s)" "other w \<in> set (lits (store s ! w_clause w))"
    "Negation l \<in> set (lits (store s ! w_clause w))" "a (other w) \<or> a (Negation l)"
proof -
  show "w_clause w < length (store s)" "other w \<in> set (lits (store s ! w_clause w))"
    "Negation l \<in> set (lits (store s ! w_clause w))" using assms(1) by (auto simp: bin_ok_def)
  then have "wsat a (store s ! w_clause w)"
    using core_clause [OF pinv_core [OF assms(2)]] by (simp add: clause_ok_def)
  then show "a (other w) \<or> a (Negation l)"
    using assms(1) prop_clause_wsat by (auto simp: bin_ok_def)
qed

lemma propagateBin_spec:
  assumes "pinv a lvl {} s" and "\<forall>w \<in> set ws. bin_ok s l w" and "l \<in> set (trail s)" and "lev (model s) l = lvl"
  shows "wlp (propagateBin s lvl ws) (\<lambda>(s', r). pinv a lvl {} s' \<and> progress lvl s s' \<and> same_lists s s'
     \<and> (\<forall>c. r = Some c \<longrightarrow> confl_ok a lvl s' c))"
  using assms
proof (induction ws arbitrary: s)
  case (Cons w ws)
  note core = pinv_core [OF Cons.prems(1)]
  have w: "bin_ok s l w" using Cons.prems(2) by simp
  note wd = bin_okD [OF w Cons.prems(1)]
  have l: "0 \<le> l" "isFalse (model s) (Negation l)"
    using core_trail [OF core Cons.prems(3)] isFalse_Negation by auto
  let ?v = "nat (Lit_Var (other w))"
  let ?m = "model s ! ?v"
  let ?s = "s\<lparr>reason := (reason s)[?v := Some (w_clause w)], model := (model s)[?v := lvlToSignedLvl (other w) lvl],
     trail := trail s @ [other w]\<rparr>"
  note ok = clause_false_lit(2) [OF Cons.prems(1) wd(1,2)]
  have mono: "wlp (propagateBin t lvl ws) (\<lambda>(s', r). pinv a lvl {} s' \<and> progress lvl s s' \<and> same_lists s s'
     \<and> (\<forall>c. r = Some c \<longrightarrow> confl_ok a lvl s' c))"
    if "pinv a lvl {} t" "progress lvl s t" "same_lists s t" "\<forall>w \<in> set ws. bin_ok t l w" "l \<in> set (trail t)"
      "lev (model t) l = lvl" for t
    by (rule wlp_mono [OF Cons.IH [OF that(1,4,5,6)]])
      (use that Cons.prems(1) in \<open>auto simp: pinv_def intro: progress_trans same_lists_trans\<close>)
  show ?case
  proof (cases "?m = 0")
    case True
    have b: "boundFor s (w_clause w) lvl (other w) ?s"
      by (simp add: boundFor_def same_lists_def)
    have "a (other w) \<or> (\<exists>k \<in> set (lits (store s ! w_clause w)). isFalse (model s) k \<and> a k)"
      using wd(3,4) l(2) by blast
    from pinv_bind [OF Cons.prems(1) wd(1) True wd(2) this b]
    have p: "pinv a lvl {} ?s" "progress lvl s ?s" by auto
    have "lev (model ?s) l = lvl"
      using p(2) Cons.prems(3,4) trail_bound [OF core Cons.prems(3)] core_trail(4) [OF core Cons.prems(3)]
      by (simp add: progress_def)
    moreover have "bin_ok ?s l u = bin_ok s l u" for u by (simp add: bin_ok_def)
    ultimately have "wlp (propagateBin ?s lvl ws) (\<lambda>(s', r). pinv a lvl {} s' \<and> progress lvl s s' \<and> same_lists s s'
       \<and> (\<forall>c. r = Some c \<longrightarrow> confl_ok a lvl s' c))"
      using Cons.prems(2,3) p by (intro mono) (auto simp: same_lists_def)
    then show ?thesis using True by (simp add: Let_def)
  next
    case bound: False
    show ?thesis
    proof (cases "(?m > 0) = IsPositive (other w)")
      case True
      then show ?thesis using bound mono [of s] Cons.prems by (simp add: Let_def)
    next
      case False
      then have "isFalse (model s) (other w)" using bound by (simp add: isFalse_def)
      then have "confl_ok a lvl s (w_clause w)"
        using wd l Cons.prems(4) by (auto simp: confl_ok_def)
      then show ?thesis using bound False Cons.prems(1) by (simp add: Let_def)
    qed
  qed
qed simp

section \<open>Longer clauses\<close>

lemma wlp_appendAt [simp]: "wlp (appendAt xs i x) Q \<longleftrightarrow>
    (0 \<le> i \<longrightarrow> i < int (length xs) \<longrightarrow> Q (xs[nat i := xs ! nat i @ [x]]))"
  by (auto simp: appendAt_def)

lemma wlp_Get [simp]: "wlp (Get c i) Q \<longleftrightarrow> (i < Len c \<longrightarrow> Q (lits c ! i))"
  by (simp add: Get_def Len_def)

lemma wlp_First [simp]: "wlp (First c) Q \<longleftrightarrow> (0 < Len c \<longrightarrow> Q (lits c ! 0))"
  by (simp add: First_def Len_def)

lemma wlp_Second [simp]: "wlp (Second c) Q \<longleftrightarrow> (1 < Len c \<longrightarrow> Q (lits c ! 1))"
  by (simp add: Second_def Len_def)

lemma findUnfalse_spec:
  "wlp (findUnfalse s ls k) (\<lambda>r. case r of
      None \<Rightarrow> \<forall>l \<in> set ls. isFalse (model s) l
    | Some j \<Rightarrow> k \<le> j \<and> j < k + length ls \<and> \<not> isFalse (model s) (ls ! (j - k)))"
proof (induction ls arbitrary: k)
  case (Cons l ls)
  show ?case
    by (auto simp: isFalse_iff nth_Cons' split: option.splits intro!: wlp_mono [OF Cons.IH])
qed simp

section \<open>The loop over the watchers of a literal\<close>

text \<open>
  What an invariant must be closed under to go through the loop: the watcher is kept because its
  blocker or the first literal is true, the false literal is put second, the watch moves, the
  first literal is implied, or there is a conflict. \<open>I s kept ws\<close> is the invariant with \<open>kept\<close>
  done and \<open>ws\<close> to do, \<open>C\<close> what holds of a conflict.
\<close>

locale clause_loop =
  fixes I :: "solver \<Rightarrow> watcher list \<Rightarrow> watcher list \<Rightarrow> bool"
    and C :: "solver \<Rightarrow> watcher list \<Rightarrow> cid \<Rightarrow> bool"
    and l :: lit and lvl :: declevel
  assumes clause: "I s kept (w # ws) \<Longrightarrow> w_clause w < length (store s) \<and> 2 \<le> Len (store s ! w_clause w)
      \<and> Negation l \<in> {lits (store s ! w_clause w) ! 0, lits (store s ! w_clause w) ! 1}"
    and keep: "I s kept (w # ws) \<Longrightarrow> isTrue (model s) (other w) \<Longrightarrow> I s (kept @ [w]) ws"
    and normalize: "I s kept (w # ws) \<Longrightarrow> lits (store s ! w_clause w) ! 0 = Negation l \<Longrightarrow>
      swap (store s ! w_clause w) 0 1 = Some cl \<Longrightarrow> I (s\<lparr>store := (store s)[w_clause w := cl]\<rparr>) kept (w # ws)"
    and first: "I s kept (w # ws) \<Longrightarrow> isTrue (model s) (lits (store s ! w_clause w) ! 0) \<Longrightarrow>
      I s (kept @ [\<lparr>other = lits (store s ! w_clause w) ! 0, w_clause = w_clause w\<rparr>]) ws"
    and move: "I s kept (w # ws) \<Longrightarrow> lits (store s ! w_clause w) ! 1 = Negation l \<Longrightarrow>
      2 \<le> k \<Longrightarrow> k < Len (store s ! w_clause w) \<Longrightarrow> \<not> isFalse (model s) (lits (store s ! w_clause w) ! k) \<Longrightarrow>
      swap (store s ! w_clause w) 1 k = Some cl \<Longrightarrow> m = Negation (lits (store s ! w_clause w) ! k) \<Longrightarrow>
      0 \<le> m \<Longrightarrow> m < int (length (wlist s)) \<Longrightarrow>
      I (s\<lparr>store := (store s)[w_clause w := cl],
           wlist := (wlist s)[nat m := wlist s ! nat m
             @ [\<lparr>other = lits (store s ! w_clause w) ! 0, w_clause = w_clause w\<rparr>]]\<rparr>) kept ws"
    and unit: "I s kept (w # ws) \<Longrightarrow> lits (store s ! w_clause w) ! 1 = Negation l \<Longrightarrow>
      \<forall>k \<in> set (drop 2 (lits (store s ! w_clause w))). isFalse (model s) k \<Longrightarrow>
      model s ! nat (Lit_Var (lits (store s ! w_clause w) ! 0)) = 0 \<Longrightarrow>
      boundFor s (w_clause w) lvl (lits (store s ! w_clause w) ! 0) s' \<Longrightarrow>
      I s' (kept @ [\<lparr>other = lits (store s ! w_clause w) ! 0, w_clause = w_clause w\<rparr>]) ws"
    and conflict: "I s kept (w # ws) \<Longrightarrow> lits (store s ! w_clause w) ! 1 = Negation l \<Longrightarrow>
      \<forall>k \<in> set (drop 2 (lits (store s ! w_clause w))). isFalse (model s) k \<Longrightarrow>
      isFalse (model s) (lits (store s ! w_clause w) ! 0) \<Longrightarrow>
      C s (kept @ [\<lparr>other = lits (store s ! w_clause w) ! 0, w_clause = w_clause w\<rparr>] @ ws) (w_clause w)"
begin

definition loopPost :: "solver \<times> watcher list \<times> cid option \<Rightarrow> bool" where
  "loopPost = (\<lambda>(s, kept, r). case r of None \<Rightarrow> I s kept [] | Some c \<Rightarrow> C s kept c)"

text \<open>The part of the loop after the false literal is in the second place.\<close>

lemma second:
  assumes i: "I t kept (w # ws)" and second: "lits (store t ! w_clause w) ! 1 = Negation l"
    and ih: "\<And>u kept'. I u kept' ws \<Longrightarrow> wlp (propClauseLoop u l lvl kept' ws) loopPost"
  shows "wlp (do {
       cl \<leftarrow> getC t (w_clause w);
       first \<leftarrow> First cl;
       let w2 = \<lparr>other = first, w_clause = w_clause w\<rparr>;
       firstStatus \<leftarrow> litStatus t first;
       if firstStatus = Sat then propClauseLoop t l lvl (kept @ [w2]) ws
       else do {
         found \<leftarrow> findUnfalse t (drop 2 (lits cl)) 2;
         case found of
           Some k \<Rightarrow> do {
             litK \<leftarrow> Get cl k;
             cl' \<leftarrow> swap cl 1 k;
             t \<leftarrow> updC t (w_clause w) cl';
             wl \<leftarrow> appendAt (wlist t) (Negation litK) w2;
             propClauseLoop (t\<lparr>wlist := wl\<rparr>) l lvl kept ws }
         | None \<Rightarrow>
             if firstStatus = Unsat then Some (t, kept @ [w2] @ ws, Some (w_clause w))
             else do {
               t \<leftarrow> propagateUnit t (w_clause w) lvl first;
               propClauseLoop t l lvl (kept @ [w2]) ws } } }) loopPost"
proof -
  let ?c = "w_clause w"
  let ?cl = "store t ! ?c"
  let ?first = "lits ?cl ! 0"
  let ?w2 = "\<lparr>other = ?first, w_clause = ?c\<rparr>"
  have c: "?c < length (store t)" "2 \<le> Len ?cl" using clause [OF i] by auto
  have moved: "wlp (appendAt (wlist t) (Negation (lits ?cl ! k)) ?w2) (\<lambda>wl.
      wlp (propClauseLoop (t\<lparr>store := (store t)[?c := cl'], wlist := wl\<rparr>) l lvl kept ws) loopPost)"
    if "2 \<le> k" "k < Len ?cl" "\<not> isFalse (model t) (lits ?cl ! k)" "swap ?cl 1 k = Some cl'" for k cl'
    using ih [OF move [OF i second that refl]] by simp
  have bound: "wlp (propagateUnit t ?c lvl ?first) (\<lambda>t'. wlp (propClauseLoop t' l lvl (kept @ [?w2]) ws) loopPost)"
    if "\<forall>k \<in> set (drop 2 (lits ?cl)). isFalse (model t) k" "model t ! nat (Lit_Var ?first) = 0"
    by (rule wlp_mono [OF propagateUnit_bound]) (rule ih [OF unit [OF i second that]])
  have look: "wlp (do {
         found \<leftarrow> findUnfalse t (drop 2 (lits ?cl)) 2;
         case found of
           Some k \<Rightarrow> do {
             litK \<leftarrow> Get ?cl k;
             cl' \<leftarrow> swap ?cl 1 k;
             t \<leftarrow> updC t ?c cl';
             wl \<leftarrow> appendAt (wlist t) (Negation litK) ?w2;
             propClauseLoop (t\<lparr>wlist := wl\<rparr>) l lvl kept ws }
         | None \<Rightarrow>
             if st = Unsat then Some (t, kept @ [?w2] @ ws, Some ?c)
             else do {
               t \<leftarrow> propagateUnit t ?c lvl ?first;
               propClauseLoop t l lvl (kept @ [?w2]) ws } }) loopPost"
    if st: "st = Unsat \<Longrightarrow> isFalse (model t) ?first" "st \<noteq> Unsat \<Longrightarrow> model t ! nat (Lit_Var ?first) = 0" for st
    unfolding wlp_bind [of "findUnfalse t (drop 2 (lits ?cl)) 2"]
  proof (rule wlp_mono [OF findUnfalse_spec])
    fix r assume r: "case r of None \<Rightarrow> \<forall>l \<in> set (drop 2 (lits ?cl)). isFalse (model t) l
      | Some j \<Rightarrow> 2 \<le> j \<and> j < 2 + length (drop 2 (lits ?cl)) \<and> \<not> isFalse (model t) (drop 2 (lits ?cl) ! (j - 2))"
    show "wlp (case r of
           Some k \<Rightarrow> do {
             litK \<leftarrow> Get ?cl k;
             cl' \<leftarrow> swap ?cl 1 k;
             t \<leftarrow> updC t ?c cl';
             wl \<leftarrow> appendAt (wlist t) (Negation litK) ?w2;
             propClauseLoop (t\<lparr>wlist := wl\<rparr>) l lvl kept ws }
         | None \<Rightarrow>
             if st = Unsat then Some (t, kept @ [?w2] @ ws, Some ?c)
             else do {
               t \<leftarrow> propagateUnit t ?c lvl ?first;
               propClauseLoop t l lvl (kept @ [?w2]) ws }) loopPost"
    proof (cases r)
      case None
      then show ?thesis
        using r st bound conflict [OF i second] by (cases "st = Unsat") (simp_all add: loopPost_def)
    next
      case (Some k)
      then have "2 \<le> k" "2 + (k - 2) = k" using r by auto
      then have k: "2 \<le> k" "k < Len ?cl" "\<not> isFalse (model t) (lits ?cl ! k)"
        using Some r c(2) nth_drop [of 2 "lits ?cl" "k - 2"] by (auto simp: Len_def)
      have "wlp (swap ?cl 1 k) (\<lambda>cl'. wlp (appendAt (wlist t) (Negation (lits ?cl ! k)) ?w2) (\<lambda>wl.
        wlp (propClauseLoop (t\<lparr>store := (store t)[?c := cl'], wlist := wl\<rparr>) l lvl kept ws) loopPost))"
        by (rule wlp_eqI) (use moved k in simp)
      then show ?thesis using Some k c(1) by simp
    qed
  qed
  have getc: "getC t ?c = Some ?cl" using c(1) by (simp add: getC_def)
  have fst: "First ?cl = Some ?first"
    using c(2) by (cases "lits ?cl") (auto simp: First_def Len_def get_def)
  show ?thesis
  proof (cases "litStatus t ?first")
    case (Some st)
    have "wlp (litStatus t ?first) (\<lambda>st. (st = Unsat \<longrightarrow> isFalse (model t) ?first) \<and> (st = Sat \<longrightarrow> isTrue (model t) ?first)
        \<and> (st \<noteq> Unsat \<longrightarrow> st \<noteq> Sat \<longrightarrow> model t ! nat (Lit_Var ?first) = 0))"
      by (simp add: isFalse_iff)
    with Some have st: "st = Unsat \<Longrightarrow> isFalse (model t) ?first" "st = Sat \<Longrightarrow> isTrue (model t) ?first"
      "st \<noteq> Unsat \<Longrightarrow> st \<noteq> Sat \<Longrightarrow> model t ! nat (Lit_Var ?first) = 0" by simp_all
    show ?thesis
    proof (cases "st = Sat")
      case True
      then show ?thesis using ih [OF first [OF i st(2)]]
        by (simp only: getc fst Some Option.bind.simps Let_def if_True refl)
    next
      case False
      from look [OF st(1) st(3) [OF _ False]] False show ?thesis
        by (simp only: getc fst Some Option.bind.simps Let_def if_False)
    qed
  next
    case None
    show ?thesis by (simp only: getc fst None Option.bind.simps Let_def wlp_None)
  qed
qed

lemma loop: "I s kept ws \<Longrightarrow> wlp (propClauseLoop s l lvl kept ws) loopPost"
proof (induction ws arbitrary: s kept)
  case Nil
  then show ?case by (simp add: loopPost_def)
next
  case (Cons w ws)
  let ?c = "w_clause w"
  let ?cl = "store s ! ?c"
  note c = clause [OF Cons.prems]
  have getc: "getC s ?c = Some ?cl" using c by (simp add: getC_def)
  have fst: "First ?cl = Some (lits ?cl ! 0)"
    using c by (cases "lits ?cl") (auto simp: First_def Len_def get_def)
  note unfold = propClauseLoop.simps Option.bind.simps Let_def getc fst wlp_None
  show ?case
  proof (cases "litStatus s (other w)")
    case None
    then show ?thesis by (simp only: unfold)
  next
    case (Some st)
    have "wlp (litStatus s (other w)) (\<lambda>st. st = Sat \<longrightarrow> isTrue (model s) (other w))" by simp
    with Some have st: "st = Sat \<Longrightarrow> isTrue (model s) (other w)" by simp
    show ?thesis
    proof (cases "st = Sat")
      case True
      from Cons.IH [OF keep [OF Cons.prems st [OF True]]] True show ?thesis by (simp only: unfold Some if_True refl)
    next
      case nsat: False
      show ?thesis
      proof (cases "lits ?cl ! 0 = Negation l")
        case True
        show ?thesis
        proof (cases "swap ?cl 0 1")
          case None
          show ?thesis by (simp only: unfold Some nsat if_False if_True True refl None)
        next
          case sw: (Some cl')
          let ?t = "s\<lparr>store := (store s)[?c := cl']\<rparr>"
          have "lits cl' ! 1 = Negation l"
            using swap_spec [OF sw] True c nth_exch [of 0 "lits ?cl" 1 1] by (auto simp: Len_def)
          then have "lits (store ?t ! ?c) ! 1 = Negation l" using c by simp
          note second [OF normalize [OF Cons.prems True sw] this Cons.IH, unfolded Let_def]
          moreover have "updC s ?c cl' = Some ?t" using c by (simp add: updC_def put_def)
          ultimately show ?thesis
            by (simp only: unfold Some nsat if_False if_True True refl sw)
        qed
      next
        case False
        then have "lits ?cl ! 1 = Negation l" using c by auto
        from second [OF Cons.prems this Cons.IH, unfolded Let_def getc Option.bind.simps fst]
        show ?thesis by (simp only: unfold Some nsat if_False False)
      qed
    qed
  qed
qed

end

text \<open>Changing one clause up to the order of its literals.\<close>

lemma change_one:
  assumes "c < length (store s)" and "csame (store s ! c) cl"
  shows "store_same (store s) ((store s)[c := cl])"
    and "bin_ok (s\<lparr>store := (store s)[c := cl]\<rparr>) l w = bin_ok s l w"
    and "pbw_ok (s\<lparr>store := (store s)[c := cl]\<rparr>) l d = pbw_ok s l d"
    and "d \<noteq> c \<Longrightarrow> long_ok (s\<lparr>store := (store s)[c := cl]\<rparr>) l d = long_ok s l d"
  using assms csame_prop [OF assms(2)] csame_lits [OF assms(2)]
  by (auto simp: bin_ok_def pbw_ok_def long_ok_def nth_list_update intro: store_same_put)

lemma prop_sat: "pinv a lvl X s \<Longrightarrow> c < length (store s) \<Longrightarrow> prop_clause (store s ! c)
    \<Longrightarrow> \<exists>k \<in> set (lits (store s ! c)). a k"
  using core_clause [OF pinv_core, of a lvl X s c] prop_clause_wsat [of "store s ! c" a] by (simp add: clause_ok_def)

definition loop_post :: "valuation \<Rightarrow> declevel \<Rightarrow> lit \<Rightarrow> solver \<Rightarrow> solver \<times> watcher list \<times> cid option \<Rightarrow> bool" where
  "loop_post a lvl l s = (\<lambda>(s', kept, r). pinv a lvl {l} s' \<and> progress lvl s s' \<and> long_list s' l kept
     \<and> length (wlist s') = length (wlist s) \<and> (\<forall>c. r = Some c \<longrightarrow> confl_ok a lvl s' c))"

text \<open>The swap that puts the false literal second.\<close>

lemma normalize_watch:
  assumes "pinv a lvl {l} s" and "long_list s l (kept @ w # ws)" and "swap (store s ! w_clause w) 0 1 = Some cl"
  shows "pinv a lvl {l} (s\<lparr>store := (store s)[w_clause w := cl]\<rparr>)"
    and "long_list (s\<lparr>store := (store s)[w_clause w := cl]\<rparr>) l (kept @ w # ws)"
    and "progress lvl s (s\<lparr>store := (store s)[w_clause w := cl]\<rparr>)"
proof -
  let ?c = "w_clause w"
  let ?s = "s\<lparr>store := (store s)[?c := cl]\<rparr>"
  have c: "?c < length (store s)" "2 \<le> Len (store s ! ?c)"
    using assms(2) by (auto simp: long_list_def long_ok_def)
  from swap_spec [OF assms(3)] have sw: "csame (store s ! ?c) cl" "lits cl = exch (lits (store s ! ?c)) 0 1" by auto
  note one = change_one [OF c(1) sw(1)]
  have "lits (store s ! ?c) \<noteq> []" using c(2) by (auto simp: Len_def)
  then have "{lits cl ! 0, lits cl ! 1} = {lits (store s ! ?c) ! 0, lits (store s ! ?c) ! 1}"
    using c(2) sw(2) nth_exch [of 0 "lits (store s ! ?c)" 1 0] nth_exch [of 0 "lits (store s ! ?c)" 1 1]
    by (auto simp: Len_def)
  then have "long_ok ?s m d = long_ok s m d" for m d
    using one(4) csame_prop [OF sw(1)] csame_lits [OF sw(1)] c by (cases "d = ?c") (auto simp: long_ok_def)
  then have ll: "long_list ?s m us = long_list s m us" for m us by (simp add: long_list_def)
  show "long_list ?s l (kept @ w # ws)" using assms(2) ll by simp
  have "watch_except {l} ?s"
    using assms(1) one(2,3) ll unfolding pinv_def watch_except_def by simp
  then show "pinv a lvl {l} ?s"
    by (intro pinv_same [OF assms(1)]) (simp_all add: one(1))
  show "progress lvl s ?s" by (rule progress_same) (simp_all add: one(1))
qed

text \<open>The move of the watch to another literal.\<close>

lemma move_watch:
  fixes f :: lit
  assumes p: "pinv a lvl {l} s" and ll: "long_list s l (kept @ w # ws)" and l: "0 \<le> l"
    and second: "lits (store s ! w_clause w) ! 1 = Negation l"
    and k: "2 \<le> k" "k < Len (store s ! w_clause w)"
    and sw: "swap (store s ! w_clause w) 1 k = Some cl"
    and m: "m = Negation (lits (store s ! w_clause w) ! k)" "m < int (length (wlist s))"
  defines "s' \<equiv> s\<lparr>store := (store s)[w_clause w := cl],
                  wlist := (wlist s)[nat m := wlist s ! nat m @ [\<lparr>other = f, w_clause = w_clause w\<rparr>]]\<rparr>"
  shows "pinv a lvl {l} s'" "long_list s' l (kept @ ws)" "progress lvl s s'"
proof -
  let ?c = "w_clause w"
  let ?ls = "lits (store s ! ?c)"
  let ?t = "s\<lparr>store := (store s)[?c := cl]\<rparr>"
  have c: "?c < length (store s)" "prop_clause (store s ! ?c)"
    using ll by (auto simp: long_list_def long_ok_def)
  from swap_spec [OF sw] have s1: "csame (store s ! ?c) cl" "lits cl = exch ?ls 1 k" by auto
  note one = change_one [OF c(1) s1(1)]
  have dist: "distinct ?ls"
    using core_clause [OF pinv_core [OF p] c(1)] by (auto simp: clause_ok_def distinct_map)
  have m0: "0 \<le> m" "Negation m = ?ls ! k"
    using clause_false_lit(3) [OF p c(1), of "?ls ! k"] k m(1) by (simp_all add: Len_def)
  have ml: "m \<noteq> l"
    using dist k second m0(2) nth_eq_iff_index_eq [of ?ls 1 k] by (auto simp: Len_def)
  have ne: "?ls \<noteq> []" using k by (auto simp: Len_def)
  then have new0: "lits cl ! 0 = ?ls ! 0" "lits cl ! 1 = ?ls ! k"
    using s1(2) k nth_exch [of 1 ?ls k 0] nth_exch [of 1 ?ls k 1] by (auto simp: Len_def)
  have keep: "long_ok ?t i d" if "long_ok s i d" "i \<noteq> l" for i d
  proof (cases "d = ?c")
    case True
    then have "Negation i \<in> {?ls ! 0, Negation l}" using that(1) second by (simp add: long_ok_def)
    then have "Negation i = ?ls ! 0" using that(2) by (metis Negation_Negation insertE singletonD)
    then show ?thesis using True that(1) new0 c s1 csame_prop [OF s1(1)] csame_lits [OF s1(1)]
      by (simp add: long_ok_def)
  qed (use one(4) that in simp)
  have notin: "\<not> long_ok s m ?c"
  proof
    assume "long_ok s m ?c"
    then have "?ls ! k \<in> {?ls ! 0, ?ls ! 1}" using m0(2) by (simp add: long_ok_def)
    then show False using ne dist k nth_eq_iff_index_eq [of ?ls k 0] nth_eq_iff_index_eq [of ?ls k 1]
      by (auto simp: Len_def)
  qed
  have new: "long_ok ?t m ?c"
    using c new0 m0(2) k csame_prop [OF s1(1)] csame_lits(2) [OF s1(1)] by (simp add: long_ok_def)
  have st: "bin_ok s' = bin_ok ?t" "pbw_ok s' = pbw_ok ?t" "long_ok s' = long_ok ?t"
    by (simp_all add: s'_def bin_ok_def [abs_def] pbw_ok_def [abs_def] long_ok_def [abs_def])
  have wl: "wlist s' = (wlist s)[nat m := wlist s ! nat m @ [\<lparr>other = f, w_clause = ?c\<rparr>]]"
    by (simp add: s'_def)
  have lists: "long_list s' (int i) (wlist s' ! i)" if i: "i < length (wlist s')" "int i \<notin> {l}" for i
  proof -
    have old: "long_list s (int i) (wlist s ! i)"
      using p i by (simp add: pinv_def watch_except_def s'_def)
    show ?thesis
    proof (cases "i = nat m")
      case True
      have "?c \<notin> w_clause ` set (wlist s ! nat m)"
        using old notin True m0(1) by (auto simp: long_list_def)
      then show ?thesis using old True m0(1) i keep new ml
        by (auto simp: long_list_def st wl)
    next
      case False
      then show ?thesis using old keep i by (auto simp: long_list_def st wl)
    qed
  qed
  have "watch_except {l} s'"
    unfolding watch_except_def st
    using p one(2,3) lists by (auto simp: pinv_def watch_except_def s'_def)
  then show "pinv a lvl {l} s'"
    by (intro pinv_same [OF p]) (simp_all add: s'_def one(1))
  have "?c \<notin> w_clause ` set (kept @ ws)" using ll by (auto simp: long_list_def)
  then have "long_ok s' l (w_clause u)" if "u \<in> set (kept @ ws)" for u
  proof -
    have "w_clause u \<noteq> ?c" using \<open>?c \<notin> w_clause ` set (kept @ ws)\<close> that by (metis image_eqI)
    then show ?thesis using that ll one(4) by (auto simp: long_list_def st)
  qed
  then show "long_list s' l (kept @ ws)" using ll by (auto simp: long_list_def)
  show "progress lvl s s'" by (rule progress_same) (simp_all add: s'_def one(1))
qed

text \<open>The invariant of the search goes through the loop.\<close>

definition sound_loop :: "valuation \<Rightarrow> declevel \<Rightarrow> lit \<Rightarrow> solver \<Rightarrow> solver \<Rightarrow> watcher list \<Rightarrow> watcher list \<Rightarrow> bool" where
  "sound_loop a lvl l s0 s kept ws \<longleftrightarrow> pinv a lvl {l} s \<and> long_list s l (kept @ ws) \<and> progress lvl s0 s
     \<and> length (wlist s) = length (wlist s0) \<and> l \<in> set (trail s) \<and> lev (model s) l = lvl"

lemma sound_step:
  assumes i: "sound_loop a lvl l s0 s kept ws" and p: "pinv a lvl {l} t" and ll: "long_list t l (kept' @ ws')"
    and pr: "progress lvl s t" and len: "length (wlist t) = length (wlist s)"
  shows "sound_loop a lvl l s0 t kept' ws'"
proof -
  have s: "pinv a lvl {l} s" "l \<in> set (trail s)" "lev (model s) l = lvl" using i by (simp_all add: sound_loop_def)
  note core = pinv_core [OF s(1)]
  have "l \<in> set (trail t)" using progress_trail [OF pr] s(2) by blast
  moreover have "lev (model t) l = lvl"
    using pr s(3) trail_bound [OF core s(2)] core_trail(4) [OF core s(2)] by (simp add: progress_def)
  moreover have "progress lvl s0 t"
    by (rule progress_trans [OF _ pr]) (use i in \<open>auto simp: sound_loop_def pinv_def\<close>)
  ultimately show ?thesis using i p ll len by (simp add: sound_loop_def)
qed

lemma replace_watcher:
  "long_list t l (kept @ w # ws) \<Longrightarrow> long_list t l ((kept @ [\<lparr>other = f, w_clause = w_clause w\<rparr>]) @ ws)"
  by (auto simp: long_list_def)

lemma sound_clause:
  assumes "sound_loop a lvl l s0 s kept (w # ws)"
  shows "w_clause w < length (store s)" "prop_clause (store s ! w_clause w)" "2 \<le> Len (store s ! w_clause w)"
    "Negation l \<in> {lits (store s ! w_clause w) ! 0, lits (store s ! w_clause w) ! 1}"
    "lits (store s ! w_clause w) ! 0 \<in> set (lits (store s ! w_clause w))"
    "lits (store s ! w_clause w) ! 1 \<in> set (lits (store s ! w_clause w))"
proof -
  have "long_ok s l (w_clause w)" using assms by (simp add: sound_loop_def long_list_def)
  then show "w_clause w < length (store s)" "prop_clause (store s ! w_clause w)"
    "Negation l \<in> {lits (store s ! w_clause w) ! 0, lits (store s ! w_clause w) ! 1}"
    and len: "2 \<le> Len (store s ! w_clause w)" by (simp_all add: long_ok_def)
  then have "0 < length (lits (store s ! w_clause w))" "1 < length (lits (store s ! w_clause w))"
    unfolding Len_def by linarith+
  then show "lits (store s ! w_clause w) ! 0 \<in> set (lits (store s ! w_clause w))"
    "lits (store s ! w_clause w) ! 1 \<in> set (lits (store s ! w_clause w))" by (simp_all only: nth_mem)
qed

lemma sound_literal:
  assumes "sound_loop a lvl l s0 s kept ws"
  shows "0 \<le> l" "isFalse (model s) (Negation l)" "1 \<le> lvl"
proof -
  have s: "pinv a lvl {l} s" "l \<in> set (trail s)" using assms by (simp_all add: sound_loop_def)
  note core = pinv_core [OF s(1)]
  show "0 \<le> l" using core_trail(3) [OF core s(2)] .
  then show "isFalse (model s) (Negation l)" using core_trail(2) [OF core s(2)] isFalse_Negation by simp
  show "1 \<le> lvl" using s(1) by (simp add: pinv_def)
qed

text \<open>When the other literals are false, the first one is true, or a false one is.\<close>

lemma sound_none:
  assumes i: "sound_loop a lvl l s0 s kept (w # ws)" and second: "lits (store s ! w_clause w) ! 1 = Negation l"
    and all: "\<forall>k \<in> set (drop 2 (lits (store s ! w_clause w))). isFalse (model s) k"
  shows "a (lits (store s ! w_clause w) ! 0) \<or> (\<exists>k \<in> set (lits (store s ! w_clause w)). isFalse (model s) k \<and> a k)"
proof -
  let ?ls = "lits (store s ! w_clause w)"
  note c = sound_clause [OF i]
  have eq: "?ls = ?ls ! 0 # Negation l # drop 2 ?ls"
    using c(3) second by (cases "?ls"; cases "tl ?ls") (auto simp: Len_def)
  have "pinv a lvl {l} s" using i by (simp add: sound_loop_def)
  from prop_sat [OF this c(1,2)] obtain k where k: "k \<in> set ?ls" "a k" by blast
  then have "k = ?ls ! 0 \<or> k = Negation l \<or> k \<in> set (drop 2 ?ls)" by (metis eq set_ConsD)
  then show ?thesis using k all sound_literal(2) [OF i] by blast
qed

interpretation sound: clause_loop "sound_loop a lvl l s0"
    "\<lambda>s kept c. sound_loop a lvl l s0 s kept [] \<and> confl_ok a lvl s c" l lvl for a lvl l s0
proof (standard, goal_cases)
  case (1 s kept w ws)
  from sound_clause [OF 1] show ?case by blast
next
  case (2 s kept w ws)
  then show ?case by (simp add: sound_loop_def)
next
  case (3 s kept w ws cl)
  then have p: "pinv a lvl {l} s" "long_list s l (kept @ w # ws)" by (simp_all add: sound_loop_def)
  show ?case using normalize_watch [OF p 3(3)] by (intro sound_step [OF 3(1)]) simp_all
next
  case (4 s kept w ws)
  then show ?case using replace_watcher by (simp add: sound_loop_def)
next
  case (5 s kept w ws k cl m)
  then have p: "pinv a lvl {l} s" "long_list s l (kept @ w # ws)" by (simp_all add: sound_loop_def)
  note mv = move_watch [OF p sound_literal(1) [OF 5(1)] 5(2,3,4,6,7,9)]
  show ?case using mv by (intro sound_step [OF 5(1)]) simp_all
next
  case (6 s kept w ws s')
  let ?c = "w_clause w"
  have p: "pinv a lvl {l} s" "long_list s l (kept @ w # ws)" using 6(1) by (simp_all add: sound_loop_def)
  note b = pinv_bind [OF p(1) sound_clause(1) [OF 6(1)] 6(4) sound_clause(5) [OF 6(1)] sound_none [OF 6(1-3)] 6(5)]
  have "long_list s' l us = long_list s l us" for us
    using lits_kept(2) [of s s'] 6(5) by (simp add: long_list_def boundFor_def)
  then show ?case
    using b replace_watcher [OF p(2)] 6(5) by (intro sound_step [OF 6(1)]) (simp_all add: boundFor_def same_lists_def)
next
  case (7 s kept w ws)
  have "long_list s l (kept @ w # ws)" using 7(1) by (simp add: sound_loop_def)
  then have "sound_loop a lvl l s0 s (kept @ [\<lparr>other = lits (store s ! w_clause w) ! 0, w_clause = w_clause w\<rparr>] @ ws) []"
    using 7(1) replace_watcher by (simp add: sound_loop_def)
  moreover have "lev (model s) (Negation l) = lvl"
    using 7(1) sound_literal(1) [OF 7(1)] by (simp add: sound_loop_def)
  then have "confl_ok a lvl s (w_clause w)"
    using sound_none [OF 7(1-3)] 7(2,4) sound_clause [OF 7(1)] sound_literal(2) [OF 7(1)]
    unfolding confl_ok_def by metis
  ultimately show ?case by blast
qed

lemma propClauseLoop_spec:
  assumes "pinv a lvl {l} s" and "long_list s l (kept @ ws)" and "l \<in> set (trail s)" and "lev (model s) l = lvl"
  shows "wlp (propClauseLoop s l lvl kept ws) (loop_post a lvl l s)"
proof -
  have "sound_loop a lvl l s s kept ws" using assms by (simp add: sound_loop_def)
  from sound.loop [OF this] show ?thesis
  proof (rule wlp_mono)
    fix x assume "sound.loopPost a lvl l s x"
    then show "loop_post a lvl l s x"
      unfolding sound.loopPost_def by (cases x) (auto simp: loop_post_def sound_loop_def split: option.splits)
  qed
qed

end
