(* ===== verification/PropPB.thy ===== *)
theory PropPB
  imports Propagation
begin

text \<open>
  Propagation of all kinds of constraints keeps the invariant, and so does the propagation of a
  literal up to its fixpoint.
\<close>

section \<open>Watched clauses\<close>

lemma simplifyPropClauses_spec:
  assumes p: "pinv a lvl {} s" and l: "l \<in> set (trail s)" "lev (model s) l = lvl"
  shows "wlp (simplifyPropClauses s l lvl) (\<lambda>(s', r). pinv a lvl {} s' \<and> progress lvl s s'
     \<and> (\<forall>c. r = Some c \<longrightarrow> confl_ok a lvl s' c))"
proof -
  have pl: "pinv a lvl {l} s" using p by (auto simp: pinv_def watch_except_def)
  have loop: "wlp (propClauseLoop s l lvl [] (wlist s ! nat l)) (loop_post a lvl l s)"
    if "0 \<le> l" "l < int (length (wlist s))"
  proof (rule propClauseLoop_spec [OF pl _ l])
    show "long_list s l ([] @ wlist s ! nat l)"
      using p that by (auto simp: pinv_def watch_except_def dest: spec [of _ "nat l"])
  qed
  have put: "pinv a lvl {} (t\<lparr>wlist := (wlist t)[nat l := kept]\<rparr>)
      \<and> progress lvl s (t\<lparr>wlist := (wlist t)[nat l := kept]\<rparr>)
      \<and> (\<forall>c. r = Some c \<longrightarrow> confl_ok a lvl (t\<lparr>wlist := (wlist t)[nat l := kept]\<rparr>) c)"
    if post: "loop_post a lvl l s (t, kept, r)" and i: "0 \<le> l" "l < int (length (wlist t))" for t kept r
  proof -
    let ?t = "t\<lparr>wlist := (wlist t)[nat l := kept]\<rparr>"
    have st: "bin_ok ?t = bin_ok t" "pbw_ok ?t = pbw_ok t" "long_list ?t = long_list t"
      by (simp_all add: bin_ok_def [abs_def] pbw_ok_def [abs_def] long_ok_def long_list_def [abs_def])
    have "watch_except {l} t" "long_list t l kept" using post by (auto simp: loop_post_def pinv_def)
    then have "watch_except {} ?t"
      unfolding watch_except_def st using i by (auto simp: nth_list_update)
    then have "pinv a lvl {} ?t"
      using post pinv_same [of a lvl "{l}" t ?t "{}"] by (auto simp: loop_post_def)
    moreover have "progress lvl s ?t"
      by (rule progress_trans [of lvl s t]) (use post p in \<open>simp_all add: loop_post_def pinv_def progress_same\<close>)
    ultimately show ?thesis using post by (simp add: loop_post_def confl_ok_def)
  qed
  show ?thesis
    unfolding simplifyPropClauses_def wlp_bind wlp_geti
  proof (intro impI)
    assume "0 \<le> l" "l < int (length (wlist s))"
    from loop [OF this] show "wlp (propClauseLoop s l lvl [] (wlist s ! nat l)) (\<lambda>x. wlp (case x of (s, kept, confl) \<Rightarrow>
        do { wl \<leftarrow> puti (wlist s) l kept; Some (s\<lparr>wlist := wl\<rparr>, confl) }) (\<lambda>(s', r). pinv a lvl {} s'
        \<and> progress lvl s s' \<and> (\<forall>c. r = Some c \<longrightarrow> confl_ok a lvl s' c)))"
      by (rule wlp_mono) (use put in auto)
  qed
qed

section \<open>The weight left to a constraint\<close>

text \<open>The sum of the weights of the literals that are not false.\<close>

definition room :: "declevel list \<Rightarrow> wterm list \<Rightarrow> int" where
  "room m ps = (\<Sum>p\<leftarrow>ps. if isFalse m (fst p) then 0 else snd p)"

lemma room_simps [simp]: "room m [] = 0"
  "room m (p # ps) = (if isFalse m (fst p) then 0 else snd p) + room m ps"
  by (simp_all add: room_def)

lemma tsum_le_room:
  "(\<forall>p \<in> set ps. 0 \<le> snd p \<and> (isFalse m (fst p) \<longrightarrow> \<not> a (fst p))) \<Longrightarrow> tsum a ps \<le> room m ps"
  by (induction ps) auto

lemma tsum_lt_room:
  assumes "\<forall>p \<in> set ps. 0 \<le> snd p \<and> (isFalse m (fst p) \<longrightarrow> \<not> a (fst p))"
    and "p \<in> set ps" and "\<not> isFalse m (fst p)" and "\<not> a (fst p)"
  shows "tsum a ps + snd p \<le> room m ps"
  using assms
proof (induction ps)
  case (Cons q ps)
  then have "tsum a ps \<le> room m ps" using tsum_le_room by simp
  then show ?case using Cons by (cases "p \<in> set ps") auto
qed simp

text \<open>Some literal is false although \<open>a\<close> makes it true, or \<open>a\<close> makes all of \<open>ls\<close> true that are not false.\<close>

definition clashing :: "valuation \<Rightarrow> solver \<Rightarrow> clause \<Rightarrow> bool" where
  "clashing a s cl \<longleftrightarrow> (\<exists>k \<in> set (lits cl). isFalse (model s) k \<and> a k)"

definition forced :: "valuation \<Rightarrow> solver \<Rightarrow> clause \<Rightarrow> lit list \<Rightarrow> bool" where
  "forced a s cl ls \<longleftrightarrow> clashing a s cl \<or> (\<forall>l \<in> set ls. \<not> isFalse (model s) l \<longrightarrow> a l)"

lemma noclash_terms:
  assumes "clause_ok a n cl" and "\<not> clashing a s cl" and "p \<in> set (terms cl)"
  shows "0 \<le> snd p \<and> (isFalse (model s) (fst p) \<longrightarrow> \<not> a (fst p))"
proof -
  have "(fst p, snd p) \<in> set (zip (lits cl) (c_weights cl))" using assms(3) by (simp add: terms_def)
  then have "fst p \<in> set (lits cl)" "snd p \<in> set (c_weights cl)"
    by (rule set_zip_leftD, rule set_zip_rightD)
  then show ?thesis using assms(1,2) by (force simp: clause_ok_def clashing_def)
qed

lemma room_conflict:
  assumes "clause_ok a n cl" and "room (model s) (terms cl) < Cardinality cl"
  shows "clashing a s cl"
proof (rule ccontr)
  assume nc: "\<not> clashing a s cl"
  have "tsum a (terms cl) \<le> room (model s) (terms cl)"
    using noclash_terms [OF assms(1) nc] by (intro tsum_le_room) blast
  then show False using assms by (simp add: clause_ok_def wsat_def)
qed

lemma room_forced:
  assumes "clause_ok a n cl"
    and "\<And>l. l \<in> set ls \<Longrightarrow> \<exists>w. (l, w) \<in> set (terms cl) \<and> room (model s) (terms cl) - Cardinality cl < w"
  shows "forced a s cl ls"
proof (rule ccontr)
  assume "\<not> forced a s cl ls"
  then obtain l where nc: "\<not> clashing a s cl" and l: "l \<in> set ls" "\<not> isFalse (model s) l" "\<not> a l"
    by (auto simp: forced_def)
  obtain w where w: "(l, w) \<in> set (terms cl)" "room (model s) (terms cl) - Cardinality cl < w"
    using assms(2) l(1) by blast
  have "tsum a (terms cl) + w \<le> room (model s) (terms cl)"
    using noclash_terms [OF assms(1) nc] tsum_lt_room [OF _ w(1)] l by simp
  then show False using assms(1) w(2) by (simp add: clause_ok_def wsat_def)
qed

text \<open>What a handler of a constraint is called with, and what it promises.\<close>

definition pbpre :: "valuation \<Rightarrow> declevel \<Rightarrow> solver \<Rightarrow> cid \<Rightarrow> bool" where
  "pbpre a lvl s c \<longleftrightarrow> pinv a lvl {} s \<and> c < length (store s) \<and> \<not> prop_clause (store s ! c)"

definition kept :: "valuation \<Rightarrow> declevel \<Rightarrow> solver \<Rightarrow> solver \<Rightarrow> bool" where
  "kept a lvl s s' \<longleftrightarrow> pinv a lvl {} s' \<and> progress lvl s s'"

lemma kept_refl [simp]: "pbpre a lvl s c \<Longrightarrow> kept a lvl s s"
  by (simp add: kept_def pbpre_def)

lemma kept_pbpre: "pbpre a lvl s c \<Longrightarrow> kept a lvl s s' \<Longrightarrow> pbpre a lvl s' c"
  using store_same_nth [of "store s" "store s'" c] store_same_length [of "store s" "store s'"] csame_prop
  by (auto simp: pbpre_def kept_def progress_def)

lemma kept_trans: "kept a lvl s t \<Longrightarrow> kept a lvl t u \<Longrightarrow> kept a lvl s u"
  by (auto simp: kept_def pinv_def intro: progress_trans)

lemma wlp_kept_trans:
  "wlp m (kept a lvl t) \<Longrightarrow> kept a lvl s t \<Longrightarrow> wlp m (kept a lvl s)"
  by (auto elim!: wlp_mono intro: kept_trans)

lemma kept_lits: "kept a lvl s s' \<Longrightarrow> c < length (store s) \<Longrightarrow> set (lits (store s' ! c)) = set (lits (store s ! c))"
  using store_same_nth csame_lits by (auto simp: kept_def progress_def)

lemma false_stays:
  assumes "kept a lvl s s'" and "nat (Lit_Var k) < length (model s)" and "isFalse (model s) k"
  shows "isFalse (model s') k"
  using assms by (auto simp: kept_def progress_def isFalse_def)

lemma pbpre_lit:
  assumes "pbpre a lvl s c" and "k \<in> set (lits (store s ! c))"
  shows "nat (Lit_Var k) < length (model s)" "0 \<le> k" "0 \<le> Lit_Var k"
  using clause_false_lit(2) [of a lvl "{}" s c k] assms core_index [of a s k] by (auto simp: pbpre_def pinv_def)

lemma forced_kept:
  assumes "pbpre a lvl s c" and "kept a lvl s s'" and "forced a s (store s ! c) ls"
    and ls: "set ls \<subseteq> set (lits (store s ! c))"
  shows "forced a s' (store s' ! c) ls"
proof -
  have eq: "set (lits (store s' ! c)) = set (lits (store s ! c))"
    using kept_lits assms(1,2) by (simp add: pbpre_def)
  show ?thesis
  proof (cases "clashing a s (store s ! c)")
    case True
    then show ?thesis
      using false_stays [OF assms(2)] pbpre_lit(1) [OF assms(1)] eq by (force simp: forced_def clashing_def)
  next
    case False
    then have all: "\<forall>l \<in> set ls. \<not> isFalse (model s) l \<longrightarrow> a l" using assms(3) by (simp add: forced_def)
    then show ?thesis
      using false_stays [OF assms(2)] pbpre_lit(1) [OF assms(1)] ls by (auto simp: forced_def)
  qed
qed


text \<open>Binding one forced literal.\<close>

lemma forced_unit:
  assumes pre: "pbpre a lvl s c" and f: "forced a s (store s ! c) ls" and ls: "set ls \<subseteq> set (lits (store s ! c))"
    and l: "l \<in> set ls" and u: "model s ! nat (Lit_Var l) = 0"
  shows "wlp (propagateUnit s c lvl l) (kept a lvl s)"
proof -
  have "\<not> isFalse (model s) l" using u by (simp add: isFalse_def)
  then have "a l \<or> (\<exists>k \<in> set (lits (store s ! c)). isFalse (model s) k \<and> a k)"
    using f l by (auto simp: forced_def clashing_def)
  then have "wlp (propagateUnit s c lvl l) (\<lambda>s'. boundFor s c lvl l s' \<and> pinv a lvl {} s' \<and> progress lvl s s')"
    using pre ls l u by (intro propagateUnit_spec) (auto simp: pbpre_def)
  then show ?thesis by (rule wlp_mono) (simp add: kept_def)
qed

text \<open>The conflict of a constraint that contains a literal falsified at the current level.\<close>

lemma clash_confl:
  assumes "pbpre a lvl s c" and "clashing a s (store s ! c)" and "l \<in> set (trail s)" and "lev (model s) l = lvl"
    and "Negation l \<in> set (lits (store s ! c))"
  shows "confl_ok a lvl s c"
proof -
  have "isTrue (model s) l" "0 \<le> l"
    using core_trail [of a s l] assms(1,3) by (auto simp: pbpre_def pinv_def)
  then have "isFalse (model s) (Negation l)" "lev (model s) (Negation l) = lvl"
    using assms(4) isFalse_Negation by auto
  then show ?thesis using assms by (auto simp: confl_ok_def clashing_def pbpre_def)
qed

lemma confl_trail:
  assumes "kept a lvl s s'" and "core a s" and "l \<in> set (trail s)" and "lev (model s) l = lvl"
  shows "l \<in> set (trail s')" "lev (model s') l = lvl"
proof -
  show "l \<in> set (trail s')" using assms(1,3) progress_trail by (auto simp: kept_def)
  show "lev (model s') l = lvl"
    using assms trail_bound [OF assms(2,3)] core_trail(4) [OF assms(2,3)] by (auto simp: kept_def progress_def)
qed

section \<open>Cardinality constraints\<close>

abbreviation nonfalse :: "solver \<Rightarrow> lit list \<Rightarrow> lit list" where
  "nonfalse s ls \<equiv> filter (\<lambda>l. \<not> isFalse (model s) l) ls"

lemma room_ones: "room (model s) (zip ls (replicate (length ls) 1)) = int (length (nonfalse s ls))"
  by (induction ls) auto

lemma cardCount_spec:
  "wlp (cardCount s ls len cd nbTrue nbFalse nbUnb) (\<lambda>r. case r of
      Return b \<Rightarrow> \<not> b \<longrightarrow> len - (nbFalse + (int (length ls) - int (length (nonfalse s ls)))) < cd
    | Counts t u \<Rightarrow> cd < t + u \<or> t + u = nbTrue + nbUnb + int (length (nonfalse s ls)))"
proof (induction ls arbitrary: nbTrue nbFalse nbUnb)
  case (Cons l ls)
  define n where "n = int (length (nonfalse s ls))"
  have len: "n \<le> int (length ls)" by (simp add: n_def)
  have n: "int (length (nonfalse s (l # ls))) = (if isFalse (model s) l then n else n + 1)" by (simp add: n_def)
  note IH = Cons.IH [folded n_def]
  have "isFalse (model s) l \<or> isTrue (model s) l \<and> \<not> isFalse (model s) l \<and> model s ! nat (Lit_Var l) \<noteq> 0
      \<or> model s ! nat (Lit_Var l) = 0 \<and> \<not> isFalse (model s) l"
    by (auto simp: isFalse_def isTrue_def)
  moreover have "isFalse (model s) l \<Longrightarrow> model s ! nat (Lit_Var l) \<noteq> 0 \<and> \<not> isTrue (model s) l"
    by (simp add: isFalse_iff)
  ultimately show ?case
    using len unfolding n
    by (elim disjE) (auto simp: Let_def intro!: wlp_mono [OF IH] split: card_count.splits)
qed simp

lemma cardUnits_spec:
  assumes "pbpre a lvl s c" and "forced a s (store s ! c) ls" and "set ls \<subseteq> set (lits (store s ! c))"
  shows "wlp (cardUnits s c lvl ls n) (kept a lvl s)"
  using assms
proof (induction s c lvl ls n rule: cardUnits.induct)
  case (1 s c lvl ls n)
  show ?case
  proof (cases "n = 0 \<or> ls = []")
    case True
    then show ?thesis using "1.prems" by (auto simp: cardUnits.simps [of s c lvl ls n] split: list.splits)
  next
    case False
    then obtain l ls' where n: "n \<noteq> 0" and ls: "ls = l # ls'" by (cases ls) auto
    show ?thesis
    proof (cases "model s ! nat (Lit_Var l) = 0")
      case True
      have "wlp (propagateUnit s c lvl l) (\<lambda>t. wlp (cardUnits t c lvl ls (n - 1)) (kept a lvl s))"
      proof (rule wlp_eqI)
        fix t assume t: "propagateUnit s c lvl l = Some t"
        have k: "kept a lvl s t"
          using forced_unit [OF "1.prems"] True ls t by (auto dest: wlp_SomeD)
        have "set ls \<subseteq> set (lits (store t ! c))"
          using kept_lits [OF k] "1.prems" by (simp add: pbpre_def)
        moreover have "geti (model s) (Lit_Var l) = Some 0"
          using pbpre_lit [OF "1.prems"(1), of l] "1.prems"(3) ls True by (simp add: geti_def nat_less_iff)
        ultimately show "wlp (cardUnits t c lvl ls (n - 1)) (kept a lvl s)"
          using "1.IH"(1) [OF n ls _ _ t] kept_pbpre [OF "1.prems"(1) k] forced_kept [OF "1.prems"(1) k "1.prems"(2,3)] k
          by (auto intro: wlp_kept_trans)
      qed
      then show ?thesis using n True ls by (simp add: cardUnits.simps [of s c lvl "l # ls'" n])
    next
      case False
      have "forced a s (store s ! c) ls'" using "1.prems"(2) ls by (auto simp: forced_def)
      then have "wlp (cardUnits s c lvl ls' n) (kept a lvl s)"
        if "geti (model s) (Lit_Var l) = Some (model s ! nat (Lit_Var l))"
        using "1.IH"(2) [OF n ls that] False "1.prems" ls by auto
      then show ?thesis using n False
        by (auto simp: cardUnits.simps [of s c lvl "l # ls'" n] ls geti_def)
    qed
  qed
qed


text \<open>Moving watches: only the lists of these constraints and the order in the constraint change.\<close>

lemma pb_change:
  assumes pre: "pbpre a lvl s c" and cl: "csame (store s ! c) cl"
    and W: "\<forall>i < length W. \<forall>d \<in> set (W ! i). pbw_ok s (int i) d"
  shows "kept a lvl s (s\<lparr>store := (store s)[c := cl], wlistPb := W\<rparr>)"
proof -
  let ?s = "s\<lparr>store := (store s)[c := cl]\<rparr>"
  let ?t = "s\<lparr>store := (store s)[c := cl], wlistPb := W\<rparr>"
  have c: "c < length (store s)" "\<not> prop_clause (store s ! c)" using pre by (auto simp: pbpre_def)
  note one = change_one [OF c(1) cl]
  have st: "bin_ok ?t = bin_ok s" "pbw_ok ?t = pbw_ok s" "long_list ?t = long_list s"
  proof -
    show "bin_ok ?t = bin_ok s" "pbw_ok ?t = pbw_ok s"
      using one(2,3) by (auto simp: fun_eq_iff bin_ok_def pbw_ok_def)
    have "long_ok ?s l d = long_ok s l d" for l d
      using one(4) c csame_prop [OF cl] by (cases "d = c") (auto simp: long_ok_def)
    then show "long_list ?t = long_list s"
      by (auto simp: fun_eq_iff long_list_def long_ok_def)
  qed
  have "watch_except {} s" using pre by (simp add: pbpre_def pinv_def)
  then have "watch_except {} ?t"
    using W unfolding watch_except_def st by simp
  then have "pinv a lvl {} ?t"
    using pre one(1) pinv_same [of a lvl "{}" s ?t "{}"] by (simp add: pbpre_def)
  moreover have "progress lvl s ?t" by (rule progress_same) (simp_all add: one(1))
  ultimately show ?thesis by (simp add: kept_def)
qed

lemma pb_lists: "pbpre a lvl s c \<Longrightarrow> i < length (wlistPb s) \<Longrightarrow> d \<in> set (wlistPb s ! i) \<Longrightarrow> pbw_ok s (int i) d"
  by (auto simp: pbpre_def pinv_def watch_except_def)

lemma set_removeFrom: "wlp (removeFrom ds c) (\<lambda>es. set es \<subseteq> set ds)"
proof -
  have "i < length ds" if "indexId ds c = Some i" for i
    using that by (induction ds arbitrary: i) (auto split: if_splits)
  then show ?thesis
    by (auto simp: removeFrom_def wlp_iff bind_eq_Some_conv dest: set_swap_remove)
qed

lemma lists_update:
  assumes "\<forall>i < length W. \<forall>d \<in> set (W ! i). P i d" and "n < length W \<Longrightarrow> \<forall>d \<in> set ws. P n d"
  shows "\<forall>i < length (W[n := ws]). \<forall>d \<in> set (W[n := ws] ! i). P i d"
proof (intro allI impI)
  fix i assume "i < length (W[n := ws])"
  then show "\<forall>d \<in> set (W[n := ws] ! i). P i d" using assms by (cases "i = n") simp_all
qed

lemma watchPb_spec:
  assumes "pbpre a lvl s c" and "l \<in> set (lits (store s ! c))"
  shows "wlp (watchPb s l c) (\<lambda>s'. kept a lvl s s' \<and> store s' = store s)"
proof -
  let ?m = "nat (Negation l)"
  have l: "0 \<le> l" using pbpre_lit(2) [OF assms] .
  have new: "\<forall>d \<in> set (wlistPb s ! ?m @ [c]). pbw_ok s (int ?m) d" if "?m < length (wlistPb s)"
    using that l assms pb_lists [OF assms(1) that] by (auto simp: pbw_ok_def pbpre_def)
  have old: "\<forall>i < length (wlistPb s). \<forall>d \<in> set (wlistPb s ! i). pbw_ok s (int i) d"
    using pb_lists [OF assms(1)] by blast
  show ?thesis
    using pb_change [OF assms(1) csame_refl lists_update [OF old new]] by (simp add: watchPb_def)
qed

lemma unwatchPbLit_spec:
  assumes "pbpre a lvl s c"
  shows "wlp (unwatchPbLit s c l) (\<lambda>s'. kept a lvl s s' \<and> store s' = store s)"
proof -
  have "kept a lvl s (s\<lparr>wlistPb := (wlistPb s)[i := ws]\<rparr>)"
    if "set ws \<subseteq> set (wlistPb s ! i)" for i ws
    using pb_change [OF assms csame_refl lists_update [of "wlistPb s" _ i ws]] that pb_lists [OF assms]
    by (simp add: subset_iff)
  then show ?thesis
    unfolding unwatchPbLit_def by (auto intro!: wlp_mono [OF set_removeFrom])
qed

lemma updC_spec:
  assumes "pbpre a lvl s c" and "csame (store s ! c) cl"
  shows "wlp (updC s c cl) (kept a lvl s)"
  using pb_change [OF assms, of "wlistPb s"] pb_lists [OF assms(1)] by simp

lemma swapWatch_spec:
  assumes pre: "pbpre a lvl s c"
  shows "wlp (swapWatch s c i j) (kept a lvl s)"
proof -
  let ?cl = "store s ! c"
  have "kept a lvl s (s\<lparr>store := (store s)[c := cl'], wlistPb := W[m := W ! m @ [c]]\<rparr>)"
    if sw: "swap ?cl i j = Some cl'" and m: "m = nat (Negation (lits ?cl ! j))"
      and W: "W = (wlistPb s)[n := ws]" "set ws \<subseteq> set (wlistPb s ! n)"
    for cl' W m n ws
  proof (rule pb_change [OF pre])
    show "csame ?cl cl'" using swap_spec [OF sw] by simp
    have mem: "lits ?cl ! j \<in> set (lits ?cl)" using swap_spec [OF sw] by (simp add: Len_def)
    then have new: "pbw_ok s (int m) c"
      using pbpre_lit [OF pre mem] m pre by (simp add: pbw_ok_def pbpre_def)
    have old: "\<forall>k < length W. \<forall>d \<in> set (W ! k). pbw_ok s (int k) d"
      unfolding W(1) using pb_lists [OF pre] W(2) by (intro lists_update) auto
    show "\<forall>k < length (W[m := W ! m @ [c]]). \<forall>d \<in> set (W[m := W ! m @ [c]] ! k). pbw_ok s (int k) d"
      using old new by (intro lists_update [OF old]) auto
  qed
  then show ?thesis
    unfolding swapWatch_def
    by (auto intro!: wlp_eqI [of "swap ?cl i j"] wlp_mono [OF set_removeFrom])
qed


lemma swapFalseLoop_spec: "pbpre a lvl s c \<Longrightarrow> wlp (swapFalseLoop s c stop i j) (kept a lvl s)"
proof (induction s c stop i j rule: swapFalseLoop.induct)
  case (1 s c stop i j)
  have step: "wlp (swapWatch s c i' j') (\<lambda>t. wlp (swapFalseLoop t c stop (i' + 1) (j' + 1)) (kept a lvl s))"
    if "i < stop" "getC s c = Some cl" "nextFalse s (lits cl) i stop = Some (Some i')" "nextUnfalse s (lits cl) j = Some j'"
    for cl i' j'
  proof (rule wlp_eqI)
    fix t assume t: "swapWatch s c i' j' = Some t"
    have k: "kept a lvl s t" using swapWatch_spec [OF "1.prems"] t by (rule wlp_SomeD)
    show "wlp (swapFalseLoop t c stop (i' + 1) (j' + 1)) (kept a lvl s)"
      using "1.IH" [OF that(1-3) refl that(4) t kept_pbpre [OF "1.prems" k]] k by (rule wlp_kept_trans)
  qed
  show ?case
  proof (cases "i < stop")
    case True
    have "wlp (nextFalse s (lits cl) i stop) (\<lambda>r. wlp (case r of None \<Rightarrow> Some s | Some i' \<Rightarrow> do {
        j' \<leftarrow> nextUnfalse s (lits cl) j; s \<leftarrow> swapWatch s c i' j'; swapFalseLoop s c stop (i' + 1) (j' + 1) })
        (kept a lvl s))" if cl: "getC s c = Some cl" for cl
    proof (rule wlp_eqI)
      fix r assume r: "nextFalse s (lits cl) i stop = Some r"
      show "wlp (case r of None \<Rightarrow> Some s | Some i' \<Rightarrow> do {
        j' \<leftarrow> nextUnfalse s (lits cl) j; s \<leftarrow> swapWatch s c i' j'; swapFalseLoop s c stop (i' + 1) (j' + 1) })
        (kept a lvl s)"
      proof (cases r)
        case None
        then show ?thesis using "1.prems" by simp
      next
        case (Some i')
        then show ?thesis using step [OF True cl] r by (auto intro: wlp_eqI)
      qed
    qed
    then show ?thesis
      using True by (subst swapFalseLoop.simps) (simp add: getC_def get_def del: One_nat_def)
  next
    case False
    then show ?thesis using "1.prems" by (subst swapFalseLoop.simps) simp
  qed
qed

lemma swapFalse_spec: "pbpre a lvl s c \<Longrightarrow> wlp (swapFalse s c) (kept a lvl s)"
  using swapFalseLoop_spec by (simp add: swapFalse_def Let_def)

lemma simplifyCardConstr_spec:
  assumes pre: "pbpre a lvl s c" and card: "\<not> PseudoBoolean (store s ! c)"
    and l: "l \<in> set (trail s)" "lev (model s) l = lvl" "Negation l \<in> set (lits (store s ! c))"
  shows "wlp (simplifyCardConstr s c lvl) (\<lambda>(s', ok). kept a lvl s s' \<and> (\<not> ok \<longrightarrow> confl_ok a lvl s' c))"
proof -
  let ?cl = "store s ! c"
  let ?nf = "int (length (nonfalse s (lits ?cl)))"
  have ok: "clause_ok a (nbVars s) ?cl" using pre core_clause by (auto simp: pbpre_def pinv_def)
  have "pbData ?cl = None" using card by (simp add: PseudoBoolean_def)
  then have tm: "terms ?cl = zip (lits ?cl) (replicate (length (lits ?cl)) 1)"
    by (simp add: terms_def c_weights_def)
  then have rm: "room (model s) (terms ?cl) = ?nf" using room_ones [of s "lits ?cl"] by simp
  have confl: "confl_ok a lvl s c" if "?nf < Cardinality ?cl"
    using clash_confl [OF pre room_conflict [OF ok] l] that rm by simp
  have units: "wlp (cardUnits s c lvl (lits ?cl) n) (kept a lvl s)" if "?nf = Cardinality ?cl" for n
  proof (rule cardUnits_spec [OF pre room_forced [OF ok]])
    fix k assume "k \<in> set (lits ?cl)"
    then have "(k, 1) \<in> set (terms ?cl)" by (auto simp: tm set_zip in_set_conv_nth)
    then show "\<exists>w. (k, w) \<in> set (terms ?cl) \<and> room (model s) (terms ?cl) - Cardinality ?cl < w"
      using that rm by (intro exI [of _ 1]) simp
  qed simp
  have "wlp (cardCount s (lits ?cl) (int (Len ?cl)) (Cardinality ?cl) 0 0 0) (\<lambda>r. case r of
      Return b \<Rightarrow> \<not> b \<longrightarrow> confl_ok a lvl s c
    | Counts t u \<Rightarrow> t + u = Cardinality ?cl \<longrightarrow> ?nf = Cardinality ?cl)"
    by (rule wlp_mono [OF cardCount_spec]) (use confl in \<open>auto simp: Len_def split: card_count.splits\<close>)
  then show ?thesis
    unfolding simplifyCardConstr_def wlp_bind wlp_getC Let_def
  proof (intro impI, elim wlp_mono)
    fix r assume "case r of Return b \<Rightarrow> \<not> b \<longrightarrow> confl_ok a lvl s c
      | Counts t u \<Rightarrow> t + u = Cardinality ?cl \<longrightarrow> ?nf = Cardinality ?cl"
    then show "wlp (case r of Return b \<Rightarrow> Some (s, b)
       | Counts nbTrue nbUnb \<Rightarrow>
           if nbUnb + nbTrue = Cardinality ?cl then do { s \<leftarrow> cardUnits s c lvl (lits ?cl) (nat nbUnb); Some (s, True) }
           else do { s \<leftarrow> swapFalse s c; Some (s, True) })
       (\<lambda>(s', ok). kept a lvl s s' \<and> (\<not> ok \<longrightarrow> confl_ok a lvl s' c))"
      using pre units swapFalse_spec [OF pre] by (cases r) (auto simp: add.commute elim!: wlp_mono)
  qed
qed

section \<open>Pseudo-boolean constraints\<close>

text \<open>The sum does not wrap around, as long as the weights fit.\<close>

lemma slackLoop_spec:
  "\<bar>slack\<bar> + sum_list (map abs ws) < 2 ^ 63 \<Longrightarrow>
   wlp (slackLoop s cd ws ls slack acc) (\<lambda>(sl, sat). \<not> sat \<longrightarrow> sl = slack + room (model s) (zip ls ws))"
proof (induction ls ws arbitrary: slack acc rule: list_induct2')
  case (4 l ls w ws)
  have nonneg: "0 \<le> sum_list (map abs ws)" by (rule sum_list_nonneg) auto
  have small: "\<bar>slack\<bar> + \<bar>w\<bar> + sum_list (map abs ws) < 2 ^ 63" using 4(2) by simp
  have tri: "\<bar>slack + w\<bar> \<le> \<bar>slack\<bar> + \<bar>w\<bar>" by (rule abs_triangle_ineq)
  have add: "int64 (slack + w) = slack + w" using small tri nonneg by (intro int64_abs) linarith
  have le: "\<bar>slack + w\<bar> + sum_list (map abs ws) < 2 ^ 63" "\<bar>slack\<bar> + sum_list (map abs ws) < 2 ^ 63"
    using small tri by linarith+
  have "isFalse (model s) l \<or> isTrue (model s) l \<and> \<not> isFalse (model s) l \<and> model s ! nat (Lit_Var l) \<noteq> 0
      \<or> model s ! nat (Lit_Var l) = 0 \<and> \<not> isFalse (model s) l"
    by (auto simp: isFalse_def isTrue_def)
  moreover have "isFalse (model s) l \<Longrightarrow> model s ! nat (Lit_Var l) \<noteq> 0 \<and> \<not> isTrue (model s) l"
    by (simp add: isFalse_iff)
  ultimately show ?case
    by (elim disjE) (auto simp: add intro!: wlp_mono [OF "4.IH"] le)
qed auto

lemma Cardinality_bound: "\<bar>- Cardinality c\<bar> \<le> 2 ^ 32"
proof -
  have "uint (lbdValue c AND NOT bothMasks) < 2 ^ 32"
    using unsigned_less [of "lbdValue c AND NOT bothMasks"] by simp
  then show ?thesis by (simp add: Cardinality_def)
qed

lemma slackSum_spec:
  assumes "PseudoBoolean cl" and "sum_fits (c_weights cl)"
  shows "wlp (slackSum s cl) (\<lambda>(sl, sat). \<not> sat \<longrightarrow> sl = room (model s) (terms cl) - Cardinality cl)"
proof -
  obtain p where p: "pbData cl = Some p" using assms by (auto simp: PseudoBoolean_def)
  then have "terms cl = zip (lits cl) (weights p)" by (simp add: terms_def c_weights_def)
  moreover have "\<bar>- Cardinality cl\<bar> + sum_list (map abs (weights p)) < 2 ^ 63"
    using assms(2) p Cardinality_bound [of cl] by (simp add: sum_fits_def c_weights_def)
  ultimately show ?thesis
    using p by (auto simp: slackSum_def intro!: wlp_mono [OF slackLoop_spec])
qed

text \<open>A run of units of one constraint, whatever picks them.\<close>

lemma forced_step:
  assumes pre: "pbpre a lvl s c" and f: "forced a s (store s ! c) L" and L: "set L \<subseteq> set (lits (store s ! c))"
    and l: "l \<in> set L" "model s ! nat (Lit_Var l) = 0"
    and rest: "\<And>t. pbpre a lvl t c \<Longrightarrow> forced a t (store t ! c) L \<Longrightarrow> set L \<subseteq> set (lits (store t ! c))
      \<Longrightarrow> kept a lvl s t \<Longrightarrow> wlp (f t) Q"
  shows "wlp (propagateUnit s c lvl l) (\<lambda>t. wlp (f t) Q)"
proof (rule wlp_mono [OF forced_unit [OF pre f L l]])
  fix t assume k: "kept a lvl s t"
  have "set L \<subseteq> set (lits (store t ! c))" using kept_lits [OF k] L pre by (simp add: pbpre_def)
  then show "wlp (f t) Q"
    using rest [OF kept_pbpre [OF pre k] forced_kept [OF pre k f L]] k by blast
qed

lemma propagateAll_spec:
  assumes "pbpre a lvl s c" and "forced a s (store s ! c) L" and "set L \<subseteq> set (lits (store s ! c))"
    and "set ls \<subseteq> set L"
  shows "wlp (propagateAll s c lvl ls) (kept a lvl s)"
  using assms
proof (induction ls arbitrary: s)
  case (Cons l ls)
  have go: "wlp (propagateAll t c lvl ls) (kept a lvl s)"
    if "pbpre a lvl t c" "forced a t (store t ! c) L" "set L \<subseteq> set (lits (store t ! c))" "kept a lvl s t" for t
    using Cons.IH [OF that(1-3)] Cons.prems(4) that(4) by (auto intro: wlp_kept_trans)
  have "wlp (propagateUnit s c lvl l) (\<lambda>t. wlp (propagateAll t c lvl ls) (kept a lvl s))"
    if "model s ! nat (Lit_Var l) = 0"
    using Cons.prems that go by (intro forced_step [OF Cons.prems(1-3)]) auto
  then show ?case
    using go [OF Cons.prems(1-3)] Cons.prems(1) by simp
qed simp

lemma pbUnits_spec:
  assumes "pbpre a lvl s c" and "forced a s (store s ! c) L" and "set L \<subseteq> set (lits (store s ! c))"
    and "PseudoBoolean cl" and "\<And>i. i < Len cl \<Longrightarrow> c_weights cl ! i > slack \<Longrightarrow> lits cl ! i \<in> set L"
  shows "wlp (pbUnits s c lvl slack cl is found) (\<lambda>(s', b). kept a lvl s s')"
  using assms(1-3)
proof (induction "is" arbitrary: s found)
  case (Cons i "is")
  have go: "wlp (pbUnits t c lvl slack cl is b) (\<lambda>(s', b). kept a lvl s s')"
    if "pbpre a lvl t c" "forced a t (store t ! c) L" "set L \<subseteq> set (lits (store t ! c))" "kept a lvl s t" for t b
    by (rule wlp_mono [OF Cons.IH [OF that(1-3)]]) (use that(4) in \<open>auto intro: kept_trans\<close>)
  have w: "wlp (Weight cl i) (\<lambda>w. w = c_weights cl ! i)"
    using assms(4) by (auto simp: Weight_def PseudoBoolean_def c_weights_def split: option.splits)
  have "wlp (propagateUnit s c lvl (lits cl ! i)) (\<lambda>t. wlp (pbUnits t c lvl slack cl is True) (\<lambda>(s', b). kept a lvl s s'))"
    if "model s ! nat (Lit_Var (lits cl ! i)) = 0" "i < Len cl" "c_weights cl ! i > slack"
    using Cons.prems that go assms(5) by (intro forced_step [OF Cons.prems(1-3)]) auto
  then show ?case
    using go [OF Cons.prems(1-3)] Cons.prems(1) by (auto intro!: wlp_mono [OF w])
qed simp


text \<open>The loops that update what is watched.\<close>

lemma put_watched:
  assumes pre: "pbpre a lvl s c" and k: "kept a lvl s t \<and> store t = store s" and p: "pbData (store s ! c) = Some p"
  shows "kept a lvl s (t\<lparr>store := (store t)[c := (store s ! c)\<lparr>pbData := Some (p\<lparr>watched := wd\<rparr>)\<rparr>]\<rparr>)"
proof -
  have "wlp (updC t c ((store s ! c)\<lparr>pbData := Some (p\<lparr>watched := wd\<rparr>)\<rparr>)) (kept a lvl t)"
    using kept_pbpre [OF pre] k p by (intro updC_spec) auto
  moreover have "c < length (store t)" using pre k by (simp add: pbpre_def)
  ultimately show ?thesis using k kept_trans by simp blast
qed

lemma kept_Len: "kept a lvl s t \<Longrightarrow> c < length (store s) \<Longrightarrow> Len (store t ! c) = Len (store s ! c)"
  using store_same_nth csame_lits by (simp add: kept_def progress_def)

lemma updateWatchLoop_spec: "pbpre a lvl s c \<Longrightarrow> wlp (updateWatchLoop s c i w) (\<lambda>(s', j). kept a lvl s s')"
proof (induction "Len (store s ! c) - i" arbitrary: s i w rule: less_induct)
  case less
  let ?cl = "store s ! c"
  note pre = less.prems
  have c: "c < length (store s)" using pre by (simp add: pbpre_def)
  have go: "wlp (updateWatchLoop t c (Suc i) w) (\<lambda>(s', j). kept a lvl s s')"
    if k: "kept a lvl s t" and i: "i < Len ?cl" for t w
    by (rule wlp_mono [OF less.hyps [OF _ kept_pbpre [OF pre k]]])
      (use kept_Len [OF k c] i k in \<open>auto intro: kept_trans\<close>)
  show ?case
  proof (cases "i < Len ?cl")
    case True
    have l: "lits ?cl ! i \<in> set (lits ?cl)" using True by (simp add: Len_def)
    have one: "wlp (watchPb s (lits ?cl ! i) c) (\<lambda>t. c < length (store t) \<longrightarrow> wlp (updateWatchLoop
        (t\<lparr>store := (store t)[c := ?cl\<lparr>pbData := Some (p\<lparr>watched := wd\<rparr>)\<rparr>]\<rparr>) c (Suc i) w')
        (\<lambda>(s', j). kept a lvl s s'))" if "pbData ?cl = Some p" for p wd w'
      by (rule wlp_mono [OF watchPb_spec [OF pre l]]) (use go put_watched [OF pre _ that] True in auto)
    have two: "wlp (unwatchPbLit s c (lits ?cl ! i)) (\<lambda>t. c < length (store t) \<longrightarrow> wlp (updateWatchLoop
        (t\<lparr>store := (store t)[c := ?cl\<lparr>pbData := Some (p\<lparr>watched := wd\<rparr>)\<rparr>]\<rparr>) c (Suc i) w')
        (\<lambda>(s', j). kept a lvl s s'))" if "pbData ?cl = Some p" for p wd w'
      by (rule wlp_mono [OF unwatchPbLit_spec [OF pre]]) (use go put_watched [OF pre _ that] True in auto)
    show ?thesis
      using True one two go [OF kept_refl [OF pre]] pre
      by (subst updateWatchLoop.simps) (auto intro!: wlp_eqI [of "pbData ?cl"] wlp_eqI [of "Weight ?cl i"])
  next
    case False
    then show ?thesis using pre by (subst updateWatchLoop.simps) simp
  qed
qed

lemma clearWatchLoop_spec: "pbpre a lvl s c \<Longrightarrow> wlp (clearWatchLoop s c i) (kept a lvl s)"
proof (induction "Len (store s ! c) - i" arbitrary: s i rule: less_induct)
  case less
  let ?cl = "store s ! c"
  note pre = less.prems
  have c: "c < length (store s)" using pre by (simp add: pbpre_def)
  have go: "wlp (clearWatchLoop t c (Suc i)) (kept a lvl s)"
    if k: "kept a lvl s t" and i: "i < Len ?cl" for t
    by (rule wlp_mono [OF less.hyps [OF _ kept_pbpre [OF pre k]]])
      (use kept_Len [OF k c] i k in \<open>auto intro: kept_trans\<close>)
  show ?case
  proof (cases "i < Len ?cl")
    case True
    have two: "wlp (unwatchPbLit s c (lits ?cl ! i)) (\<lambda>t. c < length (store t) \<longrightarrow> wlp (clearWatchLoop
        (t\<lparr>store := (store t)[c := ?cl\<lparr>pbData := Some (p\<lparr>watched := wd\<rparr>)\<rparr>]\<rparr>) c (Suc i)) (kept a lvl s))"
      if "pbData ?cl = Some p" for p wd
      by (rule wlp_mono [OF unwatchPbLit_spec [OF pre]]) (use go put_watched [OF pre _ that] True in auto)
    show ?thesis
      using True two go [OF kept_refl [OF pre]] pre
      by (subst clearWatchLoop.simps) (auto intro!: wlp_eqI [of "pbData ?cl"])
  next
    case False
    then show ?thesis using pre by (subst clearWatchLoop.simps) simp
  qed
qed

lemma updateWatchPB_spec:
  assumes pre: "pbpre a lvl s c"
  shows "wlp (updateWatchPB s c) (kept a lvl s)"
proof -
  have "wlp (clearWatchLoop t c i) (kept a lvl s)" if "kept a lvl s t" for t i
    using clearWatchLoop_spec [OF kept_pbpre [OF pre that]] that by (rule wlp_kept_trans)
  then show ?thesis
    unfolding updateWatchPB_def wlp_bind by (auto intro!: wlp_mono [OF updateWatchLoop_spec [OF pre]])
qed


text \<open>One round, with the next round \<open>F\<close>.\<close>

lemma slackZero_units:
  assumes pre: "pbpre a lvl s c" and ok: "clause_ok a (nbVars s) (store s ! c)"
    and slack: "room (model s) (terms (store s ! c)) = Cardinality (store s ! c)"
  shows "wlp (propagateAll s c lvl (lits (store s ! c))) (kept a lvl s)"
proof (rule propagateAll_spec [OF pre room_forced [OF ok]])
  let ?cl = "store s ! c"
  fix k assume "k \<in> set (lits ?cl)"
  then obtain i where i: "i < length (lits ?cl)" "k = lits ?cl ! i" by (auto simp: in_set_conv_nth)
  moreover have len: "length (c_weights ?cl) = length (lits ?cl)" using ok by (simp add: clause_ok_def)
  ultimately have "(k, c_weights ?cl ! i) \<in> set (terms ?cl)" by (auto simp: terms_def set_zip)
  moreover have "0 < c_weights ?cl ! i" using ok i len by (simp add: clause_ok_def)
  ultimately show "\<exists>w. (k, w) \<in> set (terms ?cl) \<and> room (model s) (terms ?cl) - Cardinality ?cl < w"
    using slack by auto
qed simp_all

lemma heavy_units:
  assumes pre: "pbpre a lvl s c" and pb: "PseudoBoolean (store s ! c)" and ok: "clause_ok a (nbVars s) (store s ! c)"
    and slack: "slack = room (model s) (terms (store s ! c)) - Cardinality (store s ! c)"
  shows "wlp (pbUnits s c lvl slack (store s ! c) is b) (\<lambda>(s', b). kept a lvl s s')"
proof (rule pbUnits_spec [OF pre room_forced [OF ok] _ pb])
  let ?cl = "store s ! c"
  let ?L = "map (\<lambda>i. lits ?cl ! i) (filter (\<lambda>i. slack < c_weights ?cl ! i) [0..<Len ?cl])"
  have len: "length (c_weights ?cl) = Len ?cl" using ok by (simp add: clause_ok_def Len_def)
  show "set ?L \<subseteq> set (lits ?cl)" by (auto simp: Len_def)
  show "\<And>i. i < Len ?cl \<Longrightarrow> slack < c_weights ?cl ! i \<Longrightarrow> lits ?cl ! i \<in> set ?L" by auto
  show "\<exists>w. (k, w) \<in> set (terms ?cl) \<and> room (model s) (terms ?cl) - Cardinality ?cl < w" if "k \<in> set ?L" for k
    using that slack len by (force simp: terms_def set_zip Len_def)
qed

lemma pbRound_spec:
  assumes pre: "pbpre a lvl s c" and pb: "PseudoBoolean (store s ! c)"
    and l: "l \<in> set (trail s)" "lev (model s) l = lvl" "Negation l \<in> set (lits (store s ! c))"
    and rec: "\<And>t. kept a lvl s t \<Longrightarrow> wlp (F t) Q"
    and Q: "Q = (\<lambda>(s', ok). kept a lvl s s' \<and> (\<not> ok \<longrightarrow> confl_ok a lvl s' c))"
  shows "wlp (do {
     (slack, sat) \<leftarrow> slackSum s (store s ! c);
     if sat then Some (s, True)
     else if slack < 0 then Some (s, False)
     else if slack = 0 then do { s \<leftarrow> propagateAll s c lvl (lits (store s ! c)); Some (s, True) }
     else do {
       (s, foundUnit) \<leftarrow> pbUnits s c lvl slack (store s ! c) [0..<Len (store s ! c)] False;
       if foundUnit then F s
       else do { s \<leftarrow> updateWatchPB s c; Some (s, True) } } }) Q"
proof -
  let ?cl = "store s ! c"
  have ok: "clause_ok a (nbVars s) ?cl" using pre core_clause by (auto simp: pbpre_def pinv_def)
  have fits: "sum_fits (c_weights ?cl)" using ok pb by (auto simp: clause_ok_def PseudoBoolean_def)
  have upd: "wlp (updateWatchPB t c) (kept a lvl s)" if "kept a lvl s t" for t
    using updateWatchPB_spec [OF kept_pbpre [OF pre that]] that by (rule wlp_kept_trans)
  have "wlp (pbUnits s c lvl slack ?cl [0..<Len ?cl] False) (\<lambda>x.
      (snd x \<longrightarrow> wlp (F (fst x)) Q) \<and> (\<not> snd x \<longrightarrow> wlp (updateWatchPB (fst x) c) (kept a lvl s)))"
    if "slack = room (model s) (terms ?cl) - Cardinality ?cl" for slack
    by (rule wlp_mono [OF heavy_units [OF pre pb ok that]])
      (auto simp: rec upd)
  moreover have "slack < 0 \<Longrightarrow> confl_ok a lvl s c"
    if "slack = room (model s) (terms ?cl) - Cardinality ?cl" for slack
    using clash_confl [OF pre room_conflict [OF ok] l] that by simp
  moreover have "wlp (propagateAll s c lvl (lits ?cl)) (\<lambda>t. Q (t, True))"
    if "0 = room (model s) (terms ?cl) - Cardinality ?cl"
    by (rule wlp_mono [OF slackZero_units [OF pre ok]]) (use that Q in auto)
  moreover have "Q (s, True)" using pre Q by simp
  ultimately show ?thesis
    unfolding wlp_bind [of "slackSum s ?cl"]
    by (intro wlp_mono [OF slackSum_spec [OF pb fits]]) (auto simp: Q split_beta)
qed

lemma simplifyPseudoBool_spec:
  assumes "pbpre a lvl s c" and "PseudoBoolean (store s ! c)"
    and "l \<in> set (trail s)" "lev (model s) l = lvl" "Negation l \<in> set (lits (store s ! c))"
  shows "wlp (simplifyPseudoBool s c lvl) (\<lambda>(s', ok). kept a lvl s s' \<and> (\<not> ok \<longrightarrow> confl_ok a lvl s' c))"
proof (rule wlp_eqI)
  fix r assume "simplifyPseudoBool s c lvl = Some r"
  then show "case r of (s', ok) \<Rightarrow> kept a lvl s s' \<and> (\<not> ok \<longrightarrow> confl_ok a lvl s' c)"
    using assms
  proof (induction rule: simplifyPseudoBool.raw_induct [rotated, consumes 1, case_names 1])
    case (1 F s c lvl r)
    let ?Q = "\<lambda>(s', ok). kept a lvl s s' \<and> (\<not> ok \<longrightarrow> confl_ok a lvl s' c)"
    note pre = "1.prems"(1)
    have c: "getC s c = Some (store s ! c)" using pre by (simp add: pbpre_def getC_def get_def)
    have rec: "wlp (F t c lvl) ?Q" if k: "kept a lvl s t" for t
    proof (rule wlp_eqI)
      fix y assume "F t c lvl = Some y"
      moreover have "PseudoBoolean (store t ! c)"
        using store_same_nth [of "store s" "store t" c] k "1.prems"(1,2)
        by (auto simp: kept_def progress_def pbpre_def PseudoBoolean_def csame_def)
      moreover have "Negation l \<in> set (lits (store t ! c))"
        using kept_lits [OF k] "1.prems"(5) pre by (simp add: pbpre_def)
      ultimately show "?Q y"
        using "1.IH" kept_pbpre [OF pre k] confl_trail [OF k _ "1.prems"(3,4)] pre kept_trans [OF k]
        by (fastforce simp: pbpre_def pinv_def)
    qed
    from "1.hyps" have "do {
       (slack, sat) \<leftarrow> slackSum s (store s ! c);
       if sat then Some (s, True)
       else if slack < 0 then Some (s, False)
       else if slack = 0 then do { s \<leftarrow> propagateAll s c lvl (lits (store s ! c)); Some (s, True) }
       else do {
         (s, foundUnit) \<leftarrow> pbUnits s c lvl slack (store s ! c) [0..<Len (store s ! c)] False;
         if foundUnit then F s c lvl
         else do { s \<leftarrow> updateWatchPB s c; Some (s, True) } } } = Some r" by (simp add: c)
    with pbRound_spec [where F = "\<lambda>t. F t c lvl", OF "1.prems" rec refl] show ?case by (rule wlp_SomeD)
  qed
qed

section \<open>A round of propagation and its fixpoint\<close>

lemma propagatePbs_spec:
  assumes "pinv a lvl {} s" and "\<forall>c \<in> set cs. pbw_ok s l c" and "l \<in> set (trail s)" and "lev (model s) l = lvl"
  shows "wlp (propagatePbs s lvl cs) (\<lambda>(s', r). kept a lvl s s' \<and> (\<forall>c. r = Some c \<longrightarrow> confl_ok a lvl s' c))"
  using assms
proof (induction cs arbitrary: s)
  case Nil
  then show ?case by (simp add: kept_def)
next
  case (Cons c cs)
  let ?Q = "\<lambda>(s', ok). kept a lvl s s' \<and> (\<not> ok \<longrightarrow> confl_ok a lvl s' c)"
  have pre: "pbpre a lvl s c" and neg: "Negation l \<in> set (lits (store s ! c))"
    using Cons.prems(1,2) by (auto simp: pbpre_def pbw_ok_def)
  have one: "wlp (if PseudoBoolean (store s ! c) then simplifyPseudoBool s c lvl else simplifyCardConstr s c lvl) ?Q"
    using simplifyPseudoBool_spec [OF pre _ Cons.prems(3,4) neg] simplifyCardConstr_spec [OF pre _ Cons.prems(3,4) neg]
    by simp
  have rest: "wlp (propagatePbs t lvl cs) (\<lambda>(s', r). kept a lvl s s' \<and> (\<forall>c. r = Some c \<longrightarrow> confl_ok a lvl s' c))"
    if k: "kept a lvl s t" for t
  proof -
    have "pbw_ok t l d" if "d \<in> set cs" for d
    proof -
      have "pbw_ok s l d" using Cons.prems(2) that by simp
      then have "pbpre a lvl s d" "Negation l \<in> set (lits (store s ! d))"
        using Cons.prems(1) by (auto simp: pbpre_def pbw_ok_def)
      then show ?thesis
        using kept_pbpre [OF _ k, of d] kept_lits [OF k, of d] by (simp add: pbpre_def pbw_ok_def)
    qed
    then have "wlp (propagatePbs t lvl cs) (\<lambda>(s', r). kept a lvl t s' \<and> (\<forall>c. r = Some c \<longrightarrow> confl_ok a lvl s' c))"
      using k confl_trail [OF k pinv_core [OF Cons.prems(1)] Cons.prems(3,4)]
      by (intro Cons.IH) (auto simp: kept_def)
    then show ?thesis by (rule wlp_mono) (use k kept_trans in blast)
  qed
  have "getC s c = Some (store s ! c)" using pre by (simp add: getC_def get_def pbpre_def)
  moreover have "wlp (if PseudoBoolean (store s ! c) then simplifyPseudoBool s c lvl else simplifyCardConstr s c lvl)
      (\<lambda>x. wlp (case x of (s, ok) \<Rightarrow> if \<not> ok then Some (s, Some c) else propagatePbs s lvl cs)
        (\<lambda>(s', r). kept a lvl s s' \<and> (\<forall>c. r = Some c \<longrightarrow> confl_ok a lvl s' c)))"
    by (rule wlp_mono [OF one]) (use rest in auto)
  ultimately show ?case
    by (simp only: propagatePbs.simps Option.bind.simps
        wlp_bind [of "if PseudoBoolean (store s ! c) then simplifyPseudoBool s c lvl else simplifyCardConstr s c lvl"])
qed

definition roundPost :: "valuation \<Rightarrow> declevel \<Rightarrow> solver \<Rightarrow> solver \<times> cid option \<Rightarrow> bool" where
  "roundPost a lvl s = (\<lambda>(s', r). kept a lvl s s' \<and> (\<forall>c. r = Some c \<longrightarrow> confl_ok a lvl s' c))"

lemma roundPost_trans: "kept a lvl s t \<Longrightarrow> roundPost a lvl t r \<Longrightarrow> roundPost a lvl s r"
  using kept_trans by (auto simp: roundPost_def)

text \<open>Steps that may stop with a conflict, one after the other.\<close>

lemma wlp_steps:
  assumes "wlp m (roundPost a lvl s)" and "\<And>t. kept a lvl s t \<Longrightarrow> wlp (f t) (roundPost a lvl t)"
  shows "wlp (do { (s, confl) \<leftarrow> m; if confl \<noteq> None then Some (s, confl) else f s }) (roundPost a lvl s)"
proof -
  have "wlp (f t) (roundPost a lvl s)" if "kept a lvl s t" for t
    by (rule wlp_mono [OF assms(2) [OF that]]) (rule roundPost_trans [OF that])
  then show ?thesis
    unfolding wlp_bind by (intro wlp_mono [OF assms(1)]) (auto simp: roundPost_def)
qed

lemma propagateLit_spec:
  assumes "pinv a lvl {} s" and l: "l \<in> set (trail s)" "lev (model s) l = lvl"
  shows "wlp (propagateLit s l lvl) (roundPost a lvl s)"
proof -
  have at: "pinv a lvl {} t" "l \<in> set (trail t)" "lev (model t) l = lvl" "0 \<le> l" if k: "kept a lvl s t" for t
    using k confl_trail [OF k pinv_core [OF assms(1)] l] core_trail(3) [OF pinv_core [OF assms(1)] l(1)]
    by (auto simp: kept_def)
  have bin: "wlp (propagateBin s lvl (wlistBin s ! nat l)) (roundPost a lvl s)"
    if "0 \<le> l" "l < int (length (wlistBin s))"
  proof -
    have "nat l < length (wlistBin s)" using that by (simp add: nat_less_iff)
    then have "\<forall>w \<in> set (wlistBin s ! nat l). bin_ok s (int (nat l)) w"
      using assms(1) unfolding pinv_def watch_except_def by blast
    then show ?thesis
      using propagateBin_spec [OF assms(1) _ l, of "wlistBin s ! nat l"] that
      by (auto simp: roundPost_def kept_def elim!: wlp_mono)
  qed
  have long: "wlp (simplifyPropClauses t l lvl) (roundPost a lvl t)" if "kept a lvl s t" for t
    by (rule wlp_mono [OF simplifyPropClauses_spec [OF at(1-3) [OF that]]]) (auto simp: roundPost_def kept_def)
  have pbs: "wlp (propagatePbs t lvl (wlistPb t ! nat l)) (roundPost a lvl t)"
    if k: "kept a lvl s t" and i: "0 \<le> l" "l < int (length (wlistPb t))" for t
  proof -
    have "nat l < length (wlistPb t)" using i by (simp add: nat_less_iff)
    then have "\<forall>c \<in> set (wlistPb t ! nat l). pbw_ok t (int (nat l)) c"
      using at(1) [OF k] unfolding pinv_def watch_except_def by blast
    then show ?thesis
      using propagatePbs_spec [OF at(1) [OF k] _ at(2,3) [OF k], of "wlistPb t ! nat l"] i by (simp add: roundPost_def)
  qed
  have amo: "wlp (do { cs \<leftarrow> geti (wlistCardAMO t) l; propagateAMOs t lvl cs }) (roundPost a lvl t)"
    if k: "kept a lvl s t" for t
    using at(1) [OF k] by (auto simp: pinv_def watch_except_def roundPost_def kept_def nat_less_iff)
  have "wlp (do { cs \<leftarrow> geti (wlistPb t) l; (s, confl) \<leftarrow> propagatePbs t lvl cs;
      if confl \<noteq> None then Some (s, confl) else do { cs \<leftarrow> geti (wlistCardAMO s) l; propagateAMOs s lvl cs } })
      (roundPost a lvl t)" if k: "kept a lvl s t" for t
  proof (cases "geti (wlistPb t) l")
    case (Some cs)
    then have cs: "cs = wlistPb t ! nat l" "0 \<le> l" "l < int (length (wlistPb t))" by (auto simp: geti_def split: if_splits)
    show ?thesis
      unfolding Some Option.bind.simps cs(1)
      by (rule wlp_steps [OF pbs [OF k cs(2,3)]]) (use amo kept_trans [OF k] in blast)
  qed simp
  then have "wlp (do { (s, confl) \<leftarrow> simplifyPropClauses t l lvl;
      if confl \<noteq> None then Some (s, confl) else do { cs \<leftarrow> geti (wlistPb s) l; (s, confl) \<leftarrow> propagatePbs s lvl cs;
      if confl \<noteq> None then Some (s, confl) else do { cs \<leftarrow> geti (wlistCardAMO s) l; propagateAMOs s lvl cs } } })
      (roundPost a lvl t)" if k: "kept a lvl s t" for t
    by (rule wlp_steps [OF long [OF k]]) (use that kept_trans [OF k] in blast)
  then have "wlp (do { (s, confl) \<leftarrow> propagateBin s lvl (wlistBin s ! nat l);
      if confl \<noteq> None then Some (s, confl) else do { (s, confl) \<leftarrow> simplifyPropClauses s l lvl;
      if confl \<noteq> None then Some (s, confl) else do { cs \<leftarrow> geti (wlistPb s) l; (s, confl) \<leftarrow> propagatePbs s lvl cs;
      if confl \<noteq> None then Some (s, confl) else do { cs \<leftarrow> geti (wlistCardAMO s) l; propagateAMOs s lvl cs } } } })
      (roundPost a lvl s)" if "0 \<le> l" "l < int (length (wlistBin s))"
    by (intro wlp_steps [OF bin [OF that]])
  then show ?thesis
    by (cases "geti (wlistBin s) l") (auto simp: propagateLit_def geti_def split: if_splits)
qed


text \<open>
  The propagation loop. Every literal of the trail from the start on is bound at the current
  level, so a conflict always contains a literal of this level.
\<close>

lemma propagate_spec:
  assumes "pinv a lvl {} s" and "\<forall>l \<in> set (drop i (trail s)). lev (model s) l = lvl"
  shows "wlp (propagate s i lvl) (roundPost a lvl s)"
proof (rule wlp_eqI)
  fix r assume "propagate s i lvl = Some r"
  then show "roundPost a lvl s r"
    using assms
  proof (induction rule: propagate.raw_induct [rotated, consumes 1, case_names 1])
    case (1 F s i lvl r)
    show ?case
    proof (cases "i < length (trail s)")
      case True
      let ?l = "trail s ! i"
      have l: "?l \<in> set (trail s)" "lev (model s) ?l = lvl"
        using True "1.prems"(2) by (auto simp: drop_nth)
      have rec: "wlp (F t (i + 1) lvl) (roundPost a lvl t)" if k: "kept a lvl s t" for t
      proof (rule wlp_eqI)
        fix y assume y: "F t (i + 1) lvl = Some y"
        obtain new where new: "trail t = trail s @ new" "\<forall>l \<in> set new. lev (model t) l = lvl"
          using k by (auto simp: kept_def progress_def)
        have "lev (model t) m = lvl" if m: "m \<in> set (drop (i + 1) (trail t))" for m
        proof (cases "m \<in> set (drop (i + 1) (trail s))")
          case True
          then have "m \<in> set (trail s)" "lev (model s) m = lvl"
            using "1.prems"(2) in_set_dropD by (fastforce, metis True drop_Suc drop_drop in_set_dropD Suc_eq_plus1 plus_1_eq_Suc)
          then show ?thesis using confl_trail(2) [OF k pinv_core [OF "1.prems"(1)]] by blast
        next
          case False
          then show ?thesis using m new by (auto dest: in_set_dropD)
        qed
        then show "roundPost a lvl t y"
          using "1.IH" [OF y] k by (simp add: kept_def)
      qed
      have eq: "do { (s, confl) \<leftarrow> propagateLit s ?l lvl; if confl \<noteq> None then Some (s, confl) else F s (i + 1) lvl } = Some r"
        using "1.hyps" True by (simp only: if_True)
      from wlp_SomeD [OF wlp_steps [OF propagateLit_spec [OF "1.prems"(1) l] rec] eq]
      show ?thesis .
    next
      case False
      then show ?thesis using "1.hyps" "1.prems"(1) by (auto simp: roundPost_def kept_def)
    qed
  qed
qed

text \<open>A decision or an asserted literal, up to the fixpoint.\<close>

definition unifyPre :: "valuation \<Rightarrow> declevel \<Rightarrow> solver \<Rightarrow> lit \<Rightarrow> bool" where
  "unifyPre a lvl s l \<longleftrightarrow> core a s \<and> watch_ok s \<and> reasons_ok {Lit_Var l} s
     \<and> bindable a s lvl (reason s ! nat (Lit_Var l)) l"

lemma unify_bound:
  assumes "unifyPre a lvl s l"
  defines "t \<equiv> s\<lparr>model := (model s)[nat (Lit_Var l) := lvlToSignedLvl l lvl], trail := trail s @ [l]\<rparr>"
  shows "pinv a lvl {} t" "progress lvl s t" "lev (model t) l = lvl"
proof -
  let ?v = "nat (Lit_Var l)"
  have core: "core a s" and b: "bindable a s lvl (reason s ! ?v) l" and w: "watch_ok s"
    and rs: "reasons_ok {Lit_Var l} s" using assms(1) by (auto simp: unifyPre_def)
  have ok: "lit_ok (nbVars s) l" and lvl: "1 \<le> lvl" "\<forall>k \<in> set (trail s). lev (model s) k \<le> lvl"
    and u: "model s ! ?v = 0" using b by (auto simp: bindable_def unboundLit_def)
  note i = core_index [OF core ok]
  have core': "core a t"
    by (rule core_bind [OF core b]) (use i core in \<open>simp_all add: t_def core_def sizes_ok_def\<close>)
  show l_lev: "lev (model t) l = lvl" using i lvl(1) by (simp add: t_def lev_signed)
  have "lev (model t) k \<le> lvl" if "k \<in> set (trail t)" for k
    using that l_lev lvl(2) by (cases "nat (Lit_Var k) = ?v") (auto simp: t_def nth_list_update)
  moreover have "reasons_ok {} t"
    unfolding reasons_ok_def
  proof (intro allI impI)
    fix v assume v: "v < length (reason t)" "model t ! v = 0 \<and> int v \<notin> {}"
    then have "v \<noteq> ?v" using l_lev lvl(1) by auto
    then show "reason t ! v = None" using rs v i by (auto simp: t_def reasons_ok_def)
  qed
  moreover have "watch_ok t"
    using w by (rule watch_same) (simp_all add: t_def same_lists_def)
  ultimately show "pinv a lvl {} t" using core' lvl(1) by (simp add: pinv_def)
  have "model t ! v = model s ! v" if "model s ! v \<noteq> 0" for v
    using that u by (cases "v = ?v") (simp_all add: t_def)
  then show "progress lvl s t" using l_lev i by (simp add: progress_def t_def)
qed

lemma unifyLiteral_spec:
  assumes "unifyPre a lvl s l"
  shows "wlp (unifyLiteral s l lvl) (\<lambda>(s', r). pinv a lvl {} s' \<and> (\<forall>c. r = Some c \<longrightarrow> confl_ok a lvl s' c)
     \<and> nbVars s' = nbVars s \<and> assumptions s' = assumptions s)"
proof -
  let ?s = "s\<lparr>model := (model s)[nat (Lit_Var l) := lvlToSignedLvl l lvl], trail := trail s @ [l]\<rparr>"
  note b = unify_bound [OF assms]
  have "wlp (propagate ?s (length (trail ?s) - 1) lvl) (roundPost a lvl ?s)"
    using b(3) by (intro propagate_spec [OF b(1)]) simp
  then show ?thesis
    by (auto simp: unifyLiteral_def Let_def roundPost_def kept_def progress_def elim!: wlp_mono)
qed

end
