(* ===== verification/LearnProof.thy ===== *)
theory LearnProof
  imports PropPB
begin

text \<open>
  Conflict analysis is sound: the clause it learns is satisfied by every assignment that
  satisfies the problem, is falsified by the bindings, and has one literal of the current level,
  the first.

  \<open>analysis_ok s lvl n an\<close> describes the analysis \<open>an\<close> of the state \<open>s\<close> when the literals of the
  trail from position \<open>n\<close> on are done: the literals collected so far are false at lower levels,
  the counter is the number of literals below \<open>n\<close> that are still to resolve.
\<close>

section \<open>The state of the analysis\<close>

abbreviation marked :: "bool list \<Rightarrow> lit \<Rightarrow> bool" where
  "marked bs l \<equiv> bs ! nat (Lit_Var l)"

definition analysis_ok :: "solver \<Rightarrow> declevel \<Rightarrow> nat \<Rightarrow> analysis \<Rightarrow> bool" where
  "analysis_ok s lvl n an \<longleftrightarrow>
     length (met an) = nat (nbVars s) \<and> length (metLvl an) = nat (nbVars s) \<and> n \<le> length (trail s)
     \<and> (\<forall>v < nat (nbVars s). metLvl an ! v \<longrightarrow> met an ! v \<and> \<bar>model s ! v\<bar> = lvl)
     \<and> nbLvl an = int (length (filter (marked (metLvl an)) (take n (trail s))))
     \<and> (\<forall>t \<in> set (drop n (trail s)). lev (model s) t = lvl \<longrightarrow> marked (met an) t)
     \<and> (\<forall>t \<in> set (trail s). lev (model s) t < lvl \<longrightarrow> marked (met an) t \<longrightarrow> Negation t \<in> set (aLits an))
     \<and> (\<forall>t \<in> set (take n (trail s)). lev (model s) t = lvl \<longrightarrow> marked (met an) t \<longrightarrow> marked (metLvl an) t)
     \<and> (\<forall>l \<in> set (aLits an). lit_ok (nbVars s) l \<and> isFalse (model s) l \<and> lev (model s) l < lvl \<and> marked (met an) l)
     \<and> distinct (map Lit_Var (aLits an))"

text \<open>Some literal of the current resolvent is true under \<open>a\<close>.\<close>

definition resolvent :: "valuation \<Rightarrow> solver \<Rightarrow> nat \<Rightarrow> analysis \<Rightarrow> bool" where
  "resolvent a s n an \<longleftrightarrow> (\<exists>k. a k \<and> (k \<in> set (aLits an)
     \<or> (\<exists>t \<in> set (take n (trail s)). marked (metLvl an) t \<and> k = Negation t)))"

definition gains :: "analysis \<Rightarrow> analysis \<Rightarrow> bool" where
  "gains an an' \<longleftrightarrow> length (met an') = length (met an) \<and> length (metLvl an') = length (metLvl an)
     \<and> set (aLits an) \<subseteq> set (aLits an') \<and> nbLvl an \<le> nbLvl an'
     \<and> (\<forall>v < length (met an). met an ! v \<longrightarrow> met an' ! v)
     \<and> (\<forall>v < length (metLvl an). metLvl an ! v \<longrightarrow> metLvl an' ! v)"

lemma gains_refl [simp]: "gains an an"
  by (simp add: gains_def)

lemma gains_trans: "gains x y \<Longrightarrow> gains y z \<Longrightarrow> gains x z"
  by (auto simp: gains_def)

section \<open>Literals enter\<close>

lemma core_nbVars: "core a s \<Longrightarrow> length (model s) = nat (nbVars s) \<and> 0 \<le> nbVars s"
  by (simp add: core_def sizes_ok_def)

lemma once_in_trail:
  assumes "core a s" and "trail s = xs @ ys" and "t \<in> set xs" and "1 < lev (model s) t"
  shows "\<exists>pre post. xs = pre @ t # post \<and> (\<forall>u \<in> set pre \<union> set post. Lit_Var u \<noteq> Lit_Var t)"
proof -
  obtain pre post where xs: "xs = pre @ t # post" using assms(3) by (auto simp: in_set_conv_decomp)
  have ok: "entry_ok a s p l" if "trail s = p @ l # q" for p l q
    using assms(1) that unfolding core_def by (auto intro: entriesD)
  have "Lit_Var t \<notin> Lit_Var ` set pre"
    using ok [of pre t "post @ ys"] assms(2,4) xs by (auto simp: entry_ok_def)
  moreover have "Lit_Var u \<noteq> Lit_Var t" if u: "u \<in> set post" for u
  proof
    assume eq: "Lit_Var u = Lit_Var t"
    obtain p q where "post = p @ u # q" using u by (auto simp: in_set_conv_decomp)
    then have "entry_ok a s (pre @ t # p) u" using ok [of "pre @ t # p" u "q @ ys"] assms(2) xs by simp
    then show False using eq assms(4) by (auto simp: entry_ok_def split: if_splits)
  qed
  ultimately have "\<forall>u \<in> set pre \<union> set post. Lit_Var u \<noteq> Lit_Var t" by (metis UnE image_eqI)
  then show ?thesis using xs by blast
qed

lemma entry_at:
  assumes "core a s" and "p < length (trail s)"
  shows "entry_ok a s (take p (trail s)) (trail s ! p)"
proof -
  have "trail s = take p (trail s) @ trail s ! p # drop (Suc p) (trail s)"
    using assms(2) by (simp add: id_take_nth_drop [symmetric])
  then show ?thesis using assms(1) unfolding core_def by (blast dest: entriesD)
qed

lemma not_before:
  assumes "core a s" and "p < length (trail s)" and "lev (model s) (trail s ! p) \<noteq> 1"
  shows "Lit_Var (trail s ! p) \<notin> Lit_Var ` set (take p (trail s))"
  using entry_at [OF assms(1,2)] assms(3) by (simp add: entry_ok_def)

lemma filter_one_more:
  assumes "xs = pre @ t # post" and "\<forall>u \<in> set pre \<union> set post. f u \<noteq> f t" and "\<not> P t"
  shows "length (filter (\<lambda>u. P u \<or> f u = f t) xs) = Suc (length (filter P xs))"
proof -
  have "filter (\<lambda>u. P u \<or> f u = f t) pre = filter P pre" "filter (\<lambda>u. P u \<or> f u = f t) post = filter P post"
    using assms(2) by (auto intro: filter_cong)
  then show ?thesis using assms by simp
qed

text \<open>The two ways a new false literal is recorded.\<close>

lemma record_low:
  assumes an: "analysis_ok s lvl n an" and c: "core a s" and l: "lit_ok (nbVars s) l" "isFalse (model s) l"
    "\<not> marked (met an) l" "lev (model s) l < lvl"
  defines "an' \<equiv> an\<lparr>met := (met an)[nat (Lit_Var l) := True], aLits := aLits an @ [l]\<rparr>"
  shows "analysis_ok s lvl n an'" "gains an an'" "marked (met an') l"
proof -
  have i: "nat (Lit_Var l) < length (met an)" "0 \<le> Lit_Var l" "0 \<le> l"
    using core_index [OF c l(1)] core_nbVars [OF c] an by (auto simp: analysis_ok_def)
  show mt: "marked (met an') l" using i by (simp add: an'_def)
  show "gains an an'" using i by (auto simp: gains_def an'_def nth_list_update)
  have fresh: "Lit_Var l \<notin> Lit_Var ` set (aLits an)"
    using an l(3) by (force simp: analysis_ok_def)
  have neg: "Negation t = l" if t: "t \<in> set (trail s)" "nat (Lit_Var t) = nat (Lit_Var l)" for t
  proof -
    have "Lit_Var t = Lit_Var l" "0 \<le> t"
      using t core_trail [OF c t(1)] lit_ok_var [of "nbVars s" t] i by auto
    moreover have "IsPositive t \<noteq> IsPositive l"
      using core_trail(2) [OF c t(1)] l(2) t(2) by (auto simp: isTrue_def isFalse_def)
    ultimately have "t = Negation l" using lit_neg_iff [of t l] i by simp
    then show ?thesis using i by simp
  qed
  have low: "marked (met an') t \<longleftrightarrow> marked (met an) t \<or> nat (Lit_Var t) = nat (Lit_Var l)" for t
    using i by (auto simp: an'_def nth_list_update)
  show "analysis_ok s lvl n an'"
    unfolding analysis_ok_def
  proof (intro conjI)
    show "\<forall>v < nat (nbVars s). metLvl an' ! v \<longrightarrow> met an' ! v \<and> \<bar>model s ! v\<bar> = lvl"
      using an i by (auto simp: analysis_ok_def an'_def nth_list_update)
    show "\<forall>t \<in> set (trail s). lev (model s) t < lvl \<longrightarrow> marked (met an') t \<longrightarrow> Negation t \<in> set (aLits an')"
      using an neg low by (auto simp: analysis_ok_def an'_def)
    show "\<forall>t \<in> set (take n (trail s)). lev (model s) t = lvl \<longrightarrow> marked (met an') t \<longrightarrow> marked (metLvl an') t"
      using an l(4) low by (auto simp: analysis_ok_def an'_def)
    show "\<forall>k \<in> set (aLits an'). lit_ok (nbVars s) k \<and> isFalse (model s) k \<and> lev (model s) k < lvl \<and> marked (met an') k"
      using an l low by (auto simp: analysis_ok_def an'_def)
  qed (use an fresh low in \<open>auto simp: analysis_ok_def an'_def\<close>)
qed

lemma record_level:
  assumes an: "analysis_ok s lvl n an" and c: "core a s" and l: "lit_ok (nbVars s) l" "isFalse (model s) l"
    "\<not> marked (met an) l" "lev (model s) l = lvl" and lvl: "1 < lvl"
  defines "an' \<equiv> an\<lparr>met := (met an)[nat (Lit_Var l) := True], metLvl := (metLvl an)[nat (Lit_Var l) := True],
                     nbLvl := nbLvl an + 1\<rparr>"
  shows "analysis_ok s lvl n an'" "gains an an'" "marked (met an') l"
proof -
  have i: "nat (Lit_Var l) < length (met an)" "nat (Lit_Var l) < length (metLvl an)" "0 \<le> Lit_Var l" "0 \<le> l"
    "nat (Lit_Var l) < nat (nbVars s)"
    using core_index [OF c l(1)] core_nbVars [OF c] an by (auto simp: analysis_ok_def)
  show mt: "marked (met an') l" using i by (simp add: an'_def)
  show "gains an an'" using i by (auto simp: gains_def an'_def nth_list_update)
  let ?t = "Negation l"
  have tv: "Lit_Var ?t = Lit_Var l" using i by simp
  have "?t \<in> set (trail s)" using false_in_trail [OF c l(1)] l(2) by simp
  moreover have "?t \<notin> set (drop n (trail s))" using an l(3,4) tv by (auto simp: analysis_ok_def)
  ultimately have mem: "?t \<in> set (take n (trail s))" by (metis append_take_drop_id Un_iff set_append)
  obtain pre post where once: "take n (trail s) = pre @ ?t # post" "\<forall>u \<in> set pre \<union> set post. Lit_Var u \<noteq> Lit_Var ?t"
    using once_in_trail [OF c append_take_drop_id [symmetric] mem] l(4) lvl tv by auto
  have unmarked: "\<not> marked (metLvl an) ?t" using an l(3) i(5) tv by (auto simp: analysis_ok_def)
  have pos: "nat (Lit_Var l) = nat (Lit_Var t) \<longleftrightarrow> Lit_Var t = Lit_Var ?t" if "t \<in> set (take n (trail s))" for t
    using core_trail [OF c in_set_takeD [OF that]] lit_ok_var [of "nbVars s" t] i tv by auto
  have "filter (marked (metLvl an')) (take n (trail s))
      = filter (\<lambda>u. marked (metLvl an) u \<or> Lit_Var u = Lit_Var ?t) (take n (trail s))"
    by (rule filter_cong [OF refl]) (use pos i in \<open>simp add: an'_def nth_list_update\<close>)
  then have count: "length (filter (marked (metLvl an')) (take n (trail s)))
      = Suc (length (filter (marked (metLvl an)) (take n (trail s))))"
    using filter_one_more [OF once, of "marked (metLvl an)"] unmarked by simp
  have low: "marked (met an') t \<longleftrightarrow> marked (met an) t \<or> nat (Lit_Var t) = nat (Lit_Var l)"
    "marked (metLvl an') t \<longleftrightarrow> marked (metLvl an) t \<or> nat (Lit_Var t) = nat (Lit_Var l)" for t
    using i by (auto simp: an'_def nth_list_update)
  show "analysis_ok s lvl n an'"
    unfolding analysis_ok_def
  proof (intro conjI)
    show "\<forall>v < nat (nbVars s). metLvl an' ! v \<longrightarrow> met an' ! v \<and> \<bar>model s ! v\<bar> = lvl"
      using an l(4) i by (auto simp: analysis_ok_def an'_def nth_list_update)
    show "nbLvl an' = int (length (filter (marked (metLvl an')) (take n (trail s))))"
      using an count by (simp add: analysis_ok_def an'_def)
    show "\<forall>t \<in> set (trail s). lev (model s) t < lvl \<longrightarrow> marked (met an') t \<longrightarrow> Negation t \<in> set (aLits an')"
      using an l(4) low by (auto simp: analysis_ok_def an'_def)
    show "\<forall>t \<in> set (take n (trail s)). lev (model s) t = lvl \<longrightarrow> marked (met an') t \<longrightarrow> marked (metLvl an') t"
      using an low by (auto simp: analysis_ok_def)
    show "\<forall>k \<in> set (aLits an'). lit_ok (nbVars s) k \<and> isFalse (model s) k \<and> lev (model s) k < lvl \<and> marked (met an') k"
      using an low by (auto simp: analysis_ok_def an'_def)
  qed (use an low in \<open>auto simp: analysis_ok_def an'_def\<close>)
qed


text \<open>\<open>meetLit\<close> records an unmet false literal.\<close>

definition met_post :: "solver \<Rightarrow> declevel \<Rightarrow> nat \<Rightarrow> analysis \<Rightarrow> solver \<times> analysis \<Rightarrow> bool" where
  "met_post s lvl n an = (\<lambda>(t, an'). heuristic s t \<and> analysis_ok s lvl n an' \<and> gains an an')"

lemma meetLit_spec:
  assumes "analysis_ok s lvl n an" and "core a s" and "1 < lvl" and "lit_ok (nbVars s) l" and "isFalse (model s) l"
    and "\<not> marked (met an) l" and h: "heuristic s t" and top: "lev (model s) l \<le> lvl"
  shows "wlp (meetLit t an lvl l) (\<lambda>(t', an'). met_post s lvl n an (t', an') \<and> marked (met an') l)"
proof -
  have "model u = model s" if "heuristic t u" for u using h that by (simp add: heuristic_def)
  then show ?thesis
    unfolding meetLit_def Let_def wlp_bind
    using record_low [OF assms(1,2,4,5,6)] record_level [OF assms(1,2,4,5,6) _ assms(3)] top
    by (auto simp: met_post_def intro: heuristic_trans [OF h] intro!: wlp_mono [OF varBumpActivity_frame])
qed

lemma met_post_trans: "gains an an' \<Longrightarrow> met_post s lvl n an' r \<Longrightarrow> met_post s lvl n an r"
  by (auto simp: met_post_def intro: gains_trans)

lemma gains_marked: "gains an an' \<Longrightarrow> nat (Lit_Var k) < length (met an) \<Longrightarrow> marked (met an) k \<Longrightarrow> marked (met an') k"
  by (simp add: gains_def)

lemma addReasonLits_spec:
  assumes "analysis_ok s lvl n an" and "core a s" and "1 < lvl" and "lits_ok (nbVars s) ls" and "heuristic s t"
    and "\<forall>k \<in> set (trail s). lev (model s) k \<le> lvl"
  shows "wlp (addReasonLits t an lvl ls) (\<lambda>(t', an'). met_post s lvl n an (t', an')
     \<and> (\<forall>l \<in> set ls. isFalse (model s) l \<longrightarrow> marked (met an') l))"
  using assms(1,4,5)
proof (induction ls arbitrary: an t)
  case Nil
  then show ?case by (simp add: met_post_def)
next
  case (Cons l ls)
  let ?Q = "\<lambda>an0. \<lambda>(t', an'). met_post s lvl n an0 (t', an') \<and> (\<forall>l \<in> set ls. isFalse (model s) l \<longrightarrow> marked (met an') l)"
  have ok: "lit_ok (nbVars s) l" and mt: "model t = model s"
    using Cons.prems(2,3) by (simp_all add: heuristic_def)
  note i = core_index [OF assms(2) ok]
  have len: "length (met an) = length (model s)"
    using Cons.prems(1) core_nbVars [OF assms(2)] by (simp add: analysis_ok_def)
  have same: "wlp (addReasonLits t an lvl ls) (?Q an)" using Cons.IH [OF Cons.prems(1) _ Cons.prems(3)] Cons.prems(2) by simp
  have skip: "wlp (addReasonLits t an lvl ls) (\<lambda>(t', an'). met_post s lvl n an (t', an')
     \<and> (\<forall>l \<in> set (l # ls). isFalse (model s) l \<longrightarrow> marked (met an') l))"
    if "isFalse (model s) l \<longrightarrow> marked (met an) l"
    by (rule wlp_mono [OF same]) (use that i len gains_marked in \<open>auto simp: met_post_def\<close>)
  have new: "wlp (do { (t, an) \<leftarrow> meetLit t an lvl l; addReasonLits t an lvl ls }) (\<lambda>(t', an'). met_post s lvl n an (t', an')
     \<and> (\<forall>l \<in> set (l # ls). isFalse (model s) l \<longrightarrow> marked (met an') l))"
    if f: "isFalse (model s) l" "\<not> marked (met an) l"
  proof -
    have "lev (model s) l \<le> lvl"
      using false_in_trail [OF assms(2) ok] f(1) assms(6) i by force
    note meet = meetLit_spec [OF Cons.prems(1) assms(2,3) ok f Cons.prems(3) this]
    have "wlp (addReasonLits t' an' lvl ls) (\<lambda>(t', an'). met_post s lvl n an (t', an')
       \<and> (\<forall>l \<in> set (l # ls). isFalse (model s) l \<longrightarrow> marked (met an') l))"
      if m: "met_post s lvl n an (t', an')" "marked (met an') l" for t' an'
    proof -
      have g: "gains an an'" "analysis_ok s lvl n an'" "heuristic s t'" using m(1) by (auto simp: met_post_def)
      have len': "length (met an') = length (model s)" using g(1) len by (simp add: gains_def)
      have "wlp (addReasonLits t' an' lvl ls) (?Q an')" using Cons.IH [OF g(2) _ g(3)] Cons.prems(2) by simp
      then show ?thesis
        by (rule wlp_mono) (use m(2) met_post_trans [OF g(1)] gains_marked [of an'] len' i in \<open>auto simp: met_post_def\<close>)
    qed
    then show ?thesis unfolding wlp_bind by (intro wlp_mono [OF meet]) auto
  qed
  show ?case
    using skip new mt by (auto simp del: wlp_bind simp: wlp_bind [of "geti _ _"] wlp_bind [of "litStatus _ _"] isFalse_iff)
qed

text \<open>The first clause: all its variables are new.\<close>

lemma addClauseLits_eq:
  assumes "\<forall>l \<in> set ls. \<not> marked (met an) l \<and> 0 \<le> Lit_Var l \<and> nat (Lit_Var l) < length (met an)"
    and "distinct (map Lit_Var ls)"
  shows "addClauseLits t an lvl ls = addReasonLits t an lvl ls"
  using assms
proof (induction ls arbitrary: t an)
  case (Cons l ls)
  have one: "geti (met an) (Lit_Var l) = Some False" using Cons.prems(1) by (auto simp: geti_def nat_less_iff)
  have "wlp (meetLit t an lvl l) (\<lambda>(t', an'). addClauseLits t' an' lvl ls = addReasonLits t' an' lvl ls)"
  proof -
    have "\<forall>k \<in> set ls. nat (Lit_Var k) \<noteq> nat (Lit_Var l)"
    proof
      fix k assume k: "k \<in> set ls"
      then have "Lit_Var k \<noteq> Lit_Var l" using Cons.prems(2) by (metis distinct.simps(2) image_eqI list.simps(9) list.set_map)
      then show "nat (Lit_Var k) \<noteq> nat (Lit_Var l)" using Cons.prems(1) k by (simp add: eq_nat_nat_iff)
    qed
    then have "addClauseLits t' an' lvl ls = addReasonLits t' an' lvl ls"
      if "met an' = (met an)[nat (Lit_Var l) := True]" for t' an'
      using Cons.prems that by (intro Cons.IH) auto
    then show ?thesis by (auto simp: meetLit_def Let_def intro!: wlp_I)
  qed
  then have "(meetLit t an lvl l \<bind> (\<lambda>(t, an). addClauseLits t an lvl ls))
      = (meetLit t an lvl l \<bind> (\<lambda>(t, an). addReasonLits t an lvl ls))"
    by (cases "meetLit t an lvl l") (auto simp: wlp_def)
  moreover have "addClauseLits t an lvl ls = addReasonLits t an lvl ls" using Cons by auto
  ultimately show ?case using one by (cases "litStatus t l") simp_all
qed simp


section \<open>Resolution\<close>

text \<open>Moving down the trail: what was passed at this level counts as met.\<close>

lemma pass_one:
  assumes an: "analysis_ok s lvl (Suc p) an" and c: "core a s" and um: "\<not> marked (metLvl an) (trail s ! p)"
    and lvl: "1 < lvl"
  defines "t \<equiv> trail s ! p"
  defines "an' \<equiv> an\<lparr>met := (if lev (model s) t = lvl then (met an)[nat (Lit_Var t) := True] else met an)\<rparr>"
  shows "analysis_ok s lvl p an'" "gains an an'"
proof -
  have p: "p < length (trail s)" using an by (simp add: analysis_ok_def)
  then have tm: "t \<in> set (trail s)" by (simp add: t_def)
  note i = core_trail [OF c tm]
  have tk: "take (Suc p) (trail s) = take p (trail s) @ [t]" using p by (simp add: t_def take_Suc_nth)
  have dr: "drop p (trail s) = t # drop (Suc p) (trail s)" using p by (simp add: t_def drop_nth)
  have len: "length (met an) = nat (nbVars s)" "nat (Lit_Var t) < nat (nbVars s)"
    using an i(4) core_nbVars [OF c] by (simp_all add: analysis_ok_def)
  show "gains an an'" using len by (auto simp: gains_def an'_def nth_list_update)
  have low: "marked (met an') u \<longleftrightarrow> marked (met an) u \<or> lev (model s) t = lvl \<and> nat (Lit_Var u) = nat (Lit_Var t)" for u
    using len by (auto simp: an'_def nth_list_update)
  have first: "Lit_Var t \<notin> Lit_Var ` set (take p (trail s))" if "lev (model s) t = lvl"
    using not_before [OF c p] that lvl by (auto simp: t_def)
  have var: "Lit_Var u = Lit_Var t" if "u \<in> set (take p (trail s))" "nat (Lit_Var u) = nat (Lit_Var t)" for u
    using core_trail(1) [OF c in_set_takeD [OF that(1)]] lit_ok_var [of "nbVars s"] i(1) that(2)
    by (metis eq_nat_nat_iff)
  show "analysis_ok s lvl p an'"
    unfolding analysis_ok_def
  proof (intro conjI)
    show "\<forall>v < nat (nbVars s). metLvl an' ! v \<longrightarrow> met an' ! v \<and> \<bar>model s ! v\<bar> = lvl"
      using an len by (auto simp: analysis_ok_def an'_def nth_list_update)
    show "nbLvl an' = int (length (filter (marked (metLvl an')) (take p (trail s))))"
      using an um by (simp add: analysis_ok_def an'_def tk t_def)
    show "\<forall>u \<in> set (drop p (trail s)). lev (model s) u = lvl \<longrightarrow> marked (met an') u"
      using an low dr by (auto simp: analysis_ok_def)
    show "\<forall>u \<in> set (trail s). lev (model s) u < lvl \<longrightarrow> marked (met an') u \<longrightarrow> Negation u \<in> set (aLits an')"
      using an low by (auto simp: analysis_ok_def an'_def)
    show "\<forall>u \<in> set (take p (trail s)). lev (model s) u = lvl \<longrightarrow> marked (met an') u \<longrightarrow> marked (metLvl an') u"
    proof (intro ballI impI)
      fix u assume u: "u \<in> set (take p (trail s))" "lev (model s) u = lvl" "marked (met an') u"
      have "marked (met an) u" using u low first var by (metis image_eqI)
      then show "marked (metLvl an') u" using an u tk by (auto simp: analysis_ok_def an'_def)
    qed
    show "\<forall>k \<in> set (aLits an'). lit_ok (nbVars s) k \<and> isFalse (model s) k \<and> lev (model s) k < lvl \<and> marked (met an') k"
      using an low by (auto simp: analysis_ok_def an'_def)
  qed (use an len p in \<open>auto simp: analysis_ok_def an'_def\<close>)
qed


text \<open>What passing and resolving leave alone.\<close>

definition passed :: "analysis \<Rightarrow> analysis \<Rightarrow> bool" where
  "passed an an' \<longleftrightarrow> gains an an' \<and> metLvl an' = metLvl an \<and> aLits an' = aLits an \<and> nbLvl an' = nbLvl an"

lemma scanTrail_spec:
  assumes "analysis_ok s lvl n an" and "core a s" and "1 < lvl" and "heuristic s t"
  shows "wlp (scanTrail t an lvl n) (\<lambda>(an', n'). analysis_ok s lvl n' an' \<and> passed an an'
     \<and> 0 < n' \<and> n' \<le> n \<and> marked (metLvl an) (trail s ! (n' - 1))
     \<and> (\<forall>u \<in> set (take n (trail s)). marked (metLvl an) u \<longrightarrow> u \<in> set (take n' (trail s))))"
  using assms(1)
proof (induction n arbitrary: an)
  case (Suc p)
  let ?Q = "\<lambda>n an. \<lambda>(an', n'). analysis_ok s lvl n' an' \<and> passed an an'
     \<and> 0 < n' \<and> n' \<le> n \<and> marked (metLvl an) (trail s ! (n' - 1))
     \<and> (\<forall>u \<in> set (take n (trail s)). marked (metLvl an) u \<longrightarrow> u \<in> set (take n' (trail s)))"
  let ?t = "trail s ! p"
  have same: "model t = model s" "trail t = trail s" using assms(4) by (simp_all add: heuristic_def)
  have step: "wlp (scanTrail t (an\<lparr>met := mt\<rparr>) lvl p) (?Q (Suc p) an)"
    if um: "\<not> marked (metLvl an) ?t"
      and mt: "mt = (if lev (model s) ?t = lvl then (met an)[nat (Lit_Var ?t) := True] else met an)" for mt
  proof -
    let ?an = "an\<lparr>met := mt\<rparr>"
    have ok: "analysis_ok s lvl p ?an" "gains an ?an"
      using pass_one [OF Suc.prems assms(2) um assms(3)] mt by simp_all
    have "take (Suc p) (trail s) = take p (trail s) @ [?t]"
      using Suc.prems by (simp add: analysis_ok_def take_Suc_nth)
    then show ?thesis
      by (intro wlp_mono [OF Suc.IH [OF ok(1)]]) (use um ok(2) in \<open>auto simp: passed_def intro: gains_trans\<close>)
  qed
  have "?Q (Suc p) an (an, Suc p)" if "marked (metLvl an) ?t"
    using Suc.prems that by (simp add: passed_def)
  then show ?case
    using step same by (auto simp: Let_def passed_def)
qed simp

text \<open>One step of resolution, once its reason has been added.\<close>

lemma resolved_ok:
  assumes an: "analysis_ok s lvl (Suc p) an" and c: "core a s" and lvl: "1 < lvl"
    and m: "marked (metLvl an) (trail s ! p)"
  shows "analysis_ok s lvl p (an\<lparr>nbLvl := nbLvl an - 1\<rparr>)"
proof -
  let ?t = "trail s ! p"
  have p: "p < length (trail s)" using an by (simp add: analysis_ok_def)
  then have tm: "?t \<in> set (trail s)" by simp
  have "nat (Lit_Var ?t) < nat (nbVars s)" using core_trail(4) [OF c tm] core_nbVars [OF c] by simp
  then have mt: "marked (met an) ?t" using an m by (simp add: analysis_ok_def)
  have tk: "take (Suc p) (trail s) = take p (trail s) @ [?t]" using p by (simp add: take_Suc_nth)
  have dr: "drop p (trail s) = ?t # drop (Suc p) (trail s)" using p by (simp add: drop_nth)
  show ?thesis
    using an m mt p unfolding analysis_ok_def tk dr by auto
qed

lemma resolvent_step:
  assumes core: "core a s" and lvl: "1 < lvl"
    and an: "analysis_ok s lvl (Suc p) an" and m: "marked (metLvl an) (trail s ! p)"
    and r: "resolvent a s (Suc p) an" and grow: "gains (an\<lparr>nbLvl := nbLvl an - 1\<rparr>) an'" and ok: "analysis_ok s lvl p an'"
    and imp: "implied a (store s ! c) (take p (trail s)) (trail s ! p)"
    and all: "\<forall>l \<in> set (lits (store s ! c)). isFalse (model s) l \<longrightarrow> marked (met an') l"
    and c: "c < length (store s)" and top: "\<forall>k \<in> set (trail s). lev (model s) k \<le> lvl" and nb: "1 < nbLvl an"
  shows "resolvent a s p an'"
proof (cases "coherent a")
  case False
  then have all_true: "a k" for k using core by (simp add: core_def proper_def)
  have "1 \<le> nbLvl an'" using nb grow by (simp add: gains_def)
  then have "filter (marked (metLvl an')) (take p (trail s)) \<noteq> []" using ok unfolding analysis_ok_def by auto
  then show ?thesis using all_true by (auto simp: resolvent_def filter_empty_conv)
next
  case coh: True
  let ?t = "trail s ! p"
  have p: "p < length (trail s)" using an by (simp add: analysis_ok_def)
  have tk: "take (Suc p) (trail s) = take p (trail s) @ [?t]" using p by (simp add: take_Suc_nth)
  have t: "?t \<in> set (trail s)" using p by simp
  obtain k where k: "a k" "k \<in> set (aLits an)
      \<or> (\<exists>u \<in> set (take p (trail s)). marked (metLvl an) u \<and> k = Negation u) \<or> k = Negation ?t"
    using r tk by (auto simp: resolvent_def)
  have idx: "nat (Lit_Var u) < length (metLvl an)" if "u \<in> set (trail s)" for u
    using core_trail(4) [OF core that] core_nbVars [OF core] an by (simp add: analysis_ok_def)
  have keep: "marked (metLvl an') u" if "u \<in> set (take p (trail s))" "marked (metLvl an) u" for u
    using grow that idx [OF in_set_takeD [OF that(1)]] by (simp add: gains_def)
  show ?thesis
  proof (cases "k = Negation ?t")
    case False
    then show ?thesis using k grow keep by (auto simp: resolvent_def gains_def)
  next
    case True
    have "0 \<le> ?t" using core_trail(3) [OF core t] .
    then have "\<not> a ?t" using coherentD [OF coh] k(1) True by simp
    then obtain j where j: "j \<in> set (lits (store s ! c))" "Negation j \<in> set (take p (trail s))" "a j"
      using imp by (auto simp: implied_def)
    have okj: "lit_ok (nbVars s) j" using core_clause [OF core c] j(1) by (simp add: clause_ok_def)
    have neg: "Negation (Negation j) = j" "Lit_Var (Negation j) = Lit_Var j"
      using okj by (simp_all add: lit_ok_def)
    have mem: "Negation j \<in> set (trail s)" using j(2) by (rule in_set_takeD)
    then have "isFalse (model s) j" using false_in_trail [OF core okj] by simp
    then have met: "marked (met an') (Negation j)" using all j(1) neg by simp
    show ?thesis
    proof (cases "lev (model s) (Negation j) = lvl")
      case True
      then have "marked (metLvl an') (Negation j)" using ok met j(2) by (auto simp: analysis_ok_def)
      then show ?thesis using j(2,3) neg(1) unfolding resolvent_def by metis
    next
      case False
      then have "j \<in> set (aLits an')" using ok met mem top neg(1) unfolding analysis_ok_def by force
      then show ?thesis using j(3) by (auto simp: resolvent_def)
    qed
  qed
qed


text \<open>The literal that is resolved has a reason, and it is not an assumption.\<close>

lemma resolvable:
  assumes core: "core a s" and lvl: "1 < lvl" and an: "analysis_ok s lvl (Suc p) an"
    and m: "marked (metLvl an) (trail s ! p)" and nb: "1 < nbLvl an"
  shows "\<exists>c. reason s ! nat (Lit_Var (trail s ! p)) = Some c \<and> c < length (store s)
      \<and> implied a (store s ! c) (take p (trail s)) (trail s ! p)"
    and "nat (Lit_Var (trail s ! p)) < length (assumptions s) \<Longrightarrow> \<not> assumptions s ! nat (Lit_Var (trail s ! p))"
proof -
  let ?t = "trail s ! p"
  have p: "p < length (trail s)" using an by (simp add: analysis_ok_def)
  then have t: "?t \<in> set (trail s)" by simp
  have idx: "nat (Lit_Var u) < nat (nbVars s)" if "u \<in> set (trail s)" for u
    using core_trail(4) [OF core that] core_nbVars [OF core] by simp
  have lev: "lev (model s) u = lvl" if "u \<in> set (trail s)" "marked (metLvl an) u" for u
    using an that idx by (simp add: analysis_ok_def)
  have tk: "take (Suc p) (trail s) = take p (trail s) @ [?t]" using p by (simp add: take_Suc_nth)
  have "filter (marked (metLvl an)) (take p (trail s)) \<noteq> []"
    using an nb m unfolding analysis_ok_def tk by auto
  then obtain u where u: "u \<in> set (take p (trail s))" "marked (metLvl an) u" by (auto simp: filter_empty_conv)
  have "lev (model s) u = lvl" "lev (model s) ?t = lvl" using lev u m t in_set_takeD by metis+
  then show "\<exists>c. reason s ! nat (Lit_Var ?t) = Some c \<and> c < length (store s)
      \<and> implied a (store s ! c) (take p (trail s)) ?t"
    using entry_at [OF core p] lvl u(1) by (auto simp: entry_ok_def split: option.splits)
  show "\<not> assumptions s ! nat (Lit_Var ?t)" if "nat (Lit_Var ?t) < length (assumptions s)"
    using core lvl \<open>lev (model s) ?t = lvl\<close> that by (auto simp: core_def assumptions_ok_def)
qed

lemma resolveLoop_spec:
  assumes core: "core a s" and lvl: "1 < lvl" and top: "\<forall>k \<in> set (trail s). lev (model s) k \<le> lvl"
    and "analysis_ok s lvl n an" and "resolvent a s n an" and "1 \<le> nbLvl an" and "heuristic s t"
  shows "wlp (resolveLoop t an lvl n) (\<lambda>(t', r). heuristic s t' \<and>
     (\<exists>an' n'. r = Some an' \<and> analysis_ok s lvl n' an' \<and> resolvent a s n' an' \<and> nbLvl an' = 1))"
  using assms(4-)
proof (induction n arbitrary: an t rule: less_induct)
  case (less n)
  let ?Q = "\<lambda>(t', r). heuristic s t' \<and>
     (\<exists>an' n'. r = Some an' \<and> analysis_ok s lvl n' an' \<and> resolvent a s n' an' \<and> nbLvl an' = 1)"
  note eq = resolveLoop.simps [of t an lvl n]
  have same: "trail t = trail s" "assumptions t = assumptions s" "reason t = reason s"
    using less.prems(4) by (simp_all add: heuristic_def)
  show ?case
  proof (cases "nbLvl an > 1")
    case False
    then show ?thesis using less.prems by (subst eq) auto
  next
    case nb: True
    have step: "wlp (case r of None \<Rightarrow> Some (t, an2)
            | Some c \<Rightarrow> do { t \<leftarrow> clauseBumpActivity t c; cl \<leftarrow> getC t c; addReasonLits t an2 lvl (lits cl) })
          (\<lambda>(t, an). wlp (resolveLoop t an lvl p) ?Q)"
      if an1: "analysis_ok s lvl (Suc p) an1" "passed an an1" and p: "p < n"
        and m: "marked (metLvl an1) (trail s ! p)" and res: "resolvent a s (Suc p) an1"
        and an2: "an2 = an1\<lparr>nbLvl := nbLvl an1 - 1\<rparr>" and r: "r = reason s ! nat (Lit_Var (trail s ! p))"
      for an1 an2 p r
    proof -
      have nb1: "1 < nbLvl an1" using an1(2) nb by (simp add: passed_def)
      obtain c where c: "r = Some c" "c < length (store s)" "implied a (store s ! c) (take p (trail s)) (trail s ! p)"
        using resolvable(1) [OF core lvl an1(1) m nb1] r by blast
      have ok2: "analysis_ok s lvl p an2" using resolved_ok [OF an1(1) core lvl m] an2 by simp
      have lits_ok: "lits_ok (nbVars s) (lits (store s ! c))"
        using core_clause [OF core c(2)] by (simp add: clause_ok_def)
      have fin: "wlp (resolveLoop t' an' lvl p) ?Q"
        if post: "met_post s lvl p an2 (t', an')" "\<forall>l \<in> set (lits (store s ! c)). isFalse (model s) l \<longrightarrow> marked (met an') l"
        for t' an'
      proof -
        have ok': "heuristic s t'" "analysis_ok s lvl p an'" "gains an2 an'" using post(1) by (auto simp: met_post_def)
        have "resolvent a s p an'"
          using resolvent_step [OF core lvl an1(1) m res _ ok'(2) c(3) post(2) c(2) top nb1] ok'(3) an2 by simp
        then show ?thesis
          using less.IH [OF p ok'(2) _ _ ok'(1)] nb1 ok'(3) an2 by (simp add: gains_def)
      qed
      show ?thesis
        unfolding c(1) option.simps wlp_bind
      proof (rule wlp_mono [OF clauseBumpActivity_frame])
        fix t' assume "heuristic t t'"
        then have h: "heuristic s t'" using less.prems(4) heuristic_trans by blast
        then have "lits (store t' ! c) = lits (store s ! c)" "c < length (store t')"
          using c(2) store_same_length by (auto simp: heuristic_def) (metis length_map nth_map)
        then show "wlp (getC t' c) (\<lambda>cl. wlp (addReasonLits t' an2 lvl (lits cl))
            (\<lambda>(t, an). wlp (resolveLoop t an lvl p) ?Q))"
          using fin by (auto intro!: wlp_mono [OF addReasonLits_spec [OF ok2 core lvl lits_ok h top]])
      qed
    qed
    have "wlp (scanTrail t an lvl n) (\<lambda>(an1, n1). wlp (do {
        l \<leftarrow> get (trail s) (n1 - 1);
        let v = Lit_Var l;
        b \<leftarrow> geti (assumptions s) v;
        if b then Some (t, None)
        else do {
          let an = an1\<lparr>nbLvl := nbLvl an1 - 1\<rparr>;
          r \<leftarrow> geti (reason s) v;
          (s, an) \<leftarrow> (case r of
              None \<Rightarrow> Some (t, an)
            | Some c \<Rightarrow> do { s \<leftarrow> clauseBumpActivity t c; cl \<leftarrow> getC s c; addReasonLits s an lvl (lits cl) });
          resolveLoop s an lvl (n1 - 1) } }) ?Q)"
    proof (rule wlp_mono [OF scanTrail_spec [OF less.prems(1) core lvl less.prems(4)]], clarify)
      fix an1 n1
      assume an1: "analysis_ok s lvl n1 an1" "passed an an1" and n1: "0 < n1" "n1 \<le> n"
        and m: "marked (metLvl an) (trail s ! (n1 - 1))"
        and all: "\<forall>u \<in> set (take n (trail s)). marked (metLvl an) u \<longrightarrow> u \<in> set (take n1 (trail s))"
      obtain p where p: "n1 = Suc p" using n1(1) by (cases n1) auto
      have m': "marked (metLvl an1) (trail s ! p)" and res: "resolvent a s (Suc p) an1"
        and nb1: "1 < nbLvl an1"
        using m an1(2) less.prems(2) all p nb by (auto simp: passed_def resolvent_def)
      have as: "\<not> assumptions s ! nat (Lit_Var (trail s ! p))"
        if "Lit_Var (trail s ! p) < int (length (assumptions s))" "0 \<le> Lit_Var (trail s ! p)"
        using resolvable(2) [OF core lvl an1(1) [unfolded p] m' nb1] that by (simp add: nat_less_iff)
      note st = step [OF an1(1) [unfolded p] an1(2) _ m' res refl refl]
      have pn: "p < n" using n1(2) p by simp
      show "wlp (do {
        l \<leftarrow> get (trail s) (n1 - 1);
        let v = Lit_Var l;
        b \<leftarrow> geti (assumptions s) v;
        if b then Some (t, None)
        else do {
          let an = an1\<lparr>nbLvl := nbLvl an1 - 1\<rparr>;
          r \<leftarrow> geti (reason s) v;
          (s, an) \<leftarrow> (case r of
              None \<Rightarrow> Some (t, an)
            | Some c \<Rightarrow> do { s \<leftarrow> clauseBumpActivity t c; cl \<leftarrow> getC s c; addReasonLits s an lvl (lits cl) });
          resolveLoop s an lvl (n1 - 1) } }) ?Q"
        using as st [OF pn] by (simp add: Let_def p case_prod_beta')
    qed
    then show ?thesis
      by (subst eq) (simp only: nb if_True same wlp_bind [of "scanTrail t an lvl n"] case_prod_beta')
  qed
qed


section \<open>The first unique implication point\<close>

lemma assertingLit_spec:
  assumes "length (filter (marked ml) xs) = 1"
  shows "wlp (assertingLit (xs @ ys) ml) (\<lambda>r. \<exists>t. r = Some (Negation t) \<and> filter (marked ml) xs = [t])"
  using assms
proof (induction xs)
  case (Cons x xs)
  then show ?case by (cases "marked ml x") (auto simp: length_Suc_conv)
qed simp

text \<open>The analysis when the loop ends: one literal of the level is left.\<close>

lemma uip:
  assumes core: "core a s" and lvl: "1 < lvl" and an: "analysis_ok s lvl n an" and r: "resolvent a s n an"
    and nb: "nbLvl an = 1"
  shows "wlp (assertingLit (trail s) (metLvl an)) (\<lambda>r. \<exists>l. r = Some l \<and> lit_ok (nbVars s) l \<and> isFalse (model s) l
     \<and> lev (model s) l = lvl \<and> (\<exists>k \<in> set (l # aLits an). a k))"
proof -
  have one: "length (filter (marked (metLvl an)) (take n (trail s))) = 1"
    using an nb by (simp add: analysis_ok_def)
  have "lit_ok (nbVars s) (Negation t) \<and> isFalse (model s) (Negation t) \<and> lev (model s) (Negation t) = lvl
     \<and> (\<exists>k \<in> set (Negation t # aLits an). a k)"
    if t: "filter (marked (metLvl an)) (take n (trail s)) = [t]" for t
  proof -
    have "t \<in> set (filter (marked (metLvl an)) (take n (trail s)))" unfolding t by simp
    then have mem: "t \<in> set (take n (trail s))" "marked (metLvl an) t" by simp_all
    have only: "u = t" if "u \<in> set (take n (trail s))" "marked (metLvl an) u" for u
    proof -
      have "u \<in> set (filter (marked (metLvl an)) (take n (trail s)))" using that by simp
      then show ?thesis by (simp add: t)
    qed
    note tt = core_trail [OF core in_set_takeD [OF mem(1)]]
    have "lev (model s) t = lvl" using an mem(2) tt(4) core_nbVars [OF core] by (simp add: analysis_ok_def)
    then show ?thesis
      using r only tt lit_ok_Negation isFalse_Negation by (auto simp: resolvent_def)
  qed
  then show ?thesis
    using assertingLit_spec [OF one, of "drop n (trail s)"] by (auto elim!: wlp_mono)
qed


section \<open>Minimisation\<close>

definition removable :: "solver \<Rightarrow> bool list \<Rightarrow> lit \<Rightarrow> bool" where
  "removable s mt l \<longleftrightarrow> (case reason s ! nat (Lit_Var l) of None \<Rightarrow> False
     | Some c \<Rightarrow> \<forall>k \<in> set (lits (store s ! c)). marked mt k)"

lemma someUnmet_spec: "wlp (someUnmet mt ls) (\<lambda>b. b = (\<exists>k \<in> set ls. \<not> marked mt k))"
proof (induction ls)
  case (Cons l ls)
  show ?case by (auto intro!: wlp_mono [OF Cons.IH])
qed simp

lemma minimizeLits_spec:
  assumes "heuristic s t"
  shows "wlp (minimizeLits t mt ls) (\<lambda>r. r = filter (\<lambda>l. \<not> removable s mt l) ls)"
proof (induction ls)
  case (Cons l ls)
  have same: "reason t = reason s" "length (store t) = length (store s)"
    "c < length (store s) \<Longrightarrow> lits (store t ! c) = lits (store s ! c)" for c
    using assms by (auto simp: heuristic_def dest: store_same_length) (metis length_map nth_map)
  show ?case
  proof (cases "reason s ! nat (Lit_Var l)")
    case None
    then show ?thesis using same by (auto simp: removable_def intro!: wlp_mono [OF Cons.IH])
  next
    case (Some c)
    have "wlp (someUnmet mt (lits (store s ! c))) (\<lambda>keep. keep = (\<not> removable s mt l))"
      by (rule wlp_mono [OF someUnmet_spec]) (auto simp: removable_def Some)
    then show ?thesis
      using same Some by (auto simp: removable_def intro!: wlp_mono [OF Cons.IH] elim!: wlp_mono)
  qed
qed simp

text \<open>The literals that are dropped are implied by the others.\<close>

lemma minimize_keeps:
  assumes coh: "coherent a" and core: "core a s" and lvl: "1 < lvl" and an: "analysis_ok s lvl n an"
    and "k \<in> set (aLits an)" "a k"
  shows "\<exists>k \<in> set (filter (\<lambda>l. \<not> removable s (met an) l) (aLits an)). a k"
proof -
  have step: "\<exists>k \<in> set (filter (\<lambda>l. \<not> removable s (met an) l) (aLits an)). a k"
    if "p < length (trail s)" "Negation (trail s ! p) \<in> set (aLits an)" "a (Negation (trail s ! p))" for p
    using that
  proof (induction p rule: less_induct)
    case (less p)
    let ?t = "trail s ! p"
    note t = core_trail [OF core nth_mem [OF less.prems(1)]]
    have tf: "\<not> a ?t" using less.prems(3) coherentD [OF coh t(3)] by simp
    have lev: "lev (model s) ?t < lvl" using an less.prems(2) t(3) unfolding analysis_ok_def by force
    show ?case
    proof (cases "removable s (met an) (Negation ?t)")
      case False
      then show ?thesis using less.prems by auto
    next
      case True
      then obtain c where c: "reason s ! nat (Lit_Var ?t) = Some c" "\<forall>k \<in> set (lits (store s ! c)). marked (met an) k"
        using t(3) by (auto simp: removable_def split: option.splits)
      have entry: "entry_ok a s (take p (trail s)) ?t" using entry_at [OF core less.prems(1)] .
      then have imp: "c < length (store s)" "implied a (store s ! c) (take p (trail s)) ?t"
        using c(1) t(5) tf by (auto simp: entry_ok_def split: if_splits)
      then obtain j where j: "j \<in> set (lits (store s ! c))" "Negation j \<in> set (take p (trail s))" "a j"
        using tf by (auto simp: implied_def)
      have neg: "Negation (Negation j) = j" "Lit_Var (Negation j) = Lit_Var j"
        using core_clause [OF core imp(1)] j(1) by (auto simp: clause_ok_def lit_ok_def)
      have "lev (model s) (Negation j) \<le> lev (model s) ?t" using entry j(2) by (simp add: entry_ok_def)
      then have "j \<in> set (aLits an)"
        using an lev c(2) j(1) in_set_takeD [OF j(2)] neg unfolding analysis_ok_def by (metis order_le_less_trans)
      moreover obtain q where "q < p" "trail s ! q = Negation j" "q < length (trail s)"
        using j(2) by (auto simp: in_set_conv_nth)
      ultimately show ?thesis using less.IH [of q] j(3) neg(1) by simp
    qed
  qed
  have ok: "lit_ok (nbVars s) k" "isFalse (model s) k" using an assms(5) by (auto simp: analysis_ok_def)
  then have "Negation k \<in> set (trail s)" using false_in_trail [OF core] by simp
  moreover have "Negation (Negation k) = k" using ok by (simp add: lit_ok_def)
  ultimately show ?thesis using step assms(5,6) by (metis in_set_conv_nth)
qed

section \<open>The learned clause\<close>

lemma sortLiterals_spec:
  assumes "\<forall>k \<in> set ls. lev m k < lev m l"
  shows "wlp (sortLiterals (l # ls) m) (\<lambda>r. r = l # sort_key (\<lambda>k. - lev m k) ls)"
proof -
  have "sort_key (\<lambda>k. - lev m k) (l # ls) = l # sort_key (\<lambda>k. - lev m k) ls"
    using assms by (simp add: insort_is_Cons less_imp_le)
  then show ?thesis by (auto simp: sortLiterals_def)
qed

lemma lbdLoop_spec:
  "wlp (lbdLoop m ls c cur) (\<lambda>c'. lits c' = lits c \<and> pbData c' = pbData c
     \<and> (\<exists>k \<le> length ls. lbdValue c' = lbdValue c + of_nat k))"
proof (induction ls arbitrary: c cur)
  case (Cons l ls)
  have "wlp (lbdLoop m ls (incLbd c) x) (\<lambda>c'. lits c' = lits c \<and> pbData c' = pbData c
     \<and> (\<exists>k \<le> length (l # ls). lbdValue c' = lbdValue c + of_nat k))" for x
  proof (rule wlp_mono [OF Cons.IH], elim conjE exE)
    fix c' k assume "k \<le> length ls" "lbdValue c' = lbdValue (incLbd c) + of_nat k"
      "lits c' = lits (incLbd c)" "pbData c' = pbData (incLbd c)"
    then show "lits c' = lits c \<and> pbData c' = pbData c
        \<and> (\<exists>k \<le> length (l # ls). lbdValue c' = lbdValue c + of_nat k)"
      by (auto simp: incLbd_def intro!: exI [of _ "Suc k"])
  qed
  moreover have "wlp (lbdLoop m ls c x) (\<lambda>c'. lits c' = lits c \<and> pbData c' = pbData c
     \<and> (\<exists>k \<le> length (l # ls). lbdValue c' = lbdValue c + of_nat k))" for x
    by (rule wlp_mono [OF Cons.IH]) (use le_SucI in fastforce)
  ultimately show ?case by simp
qed (auto intro!: exI [of _ 0])

lemma learned_flag:
  assumes "k < 2 ^ 31 - 1"
  shows "bit ((learnedMask AND bothMasks OR word_of_int 1) + of_nat k :: 32 word) 31"
proof -
  have "(learnedMask AND bothMasks OR word_of_int 1 :: 32 word) = 2 ^ 31 + 1"
    by (simp add: learnedMask_def bothMasks_def lockedMask_def)
  moreover have "unat (2 ^ 31 + 1 + of_nat k :: 32 word) = 2 ^ 31 + 1 + k"
    using assms by (simp add: unat_word_ariths unat_of_nat)
  moreover have "(2 ^ 31 + 1 + k) div 2 ^ 31 = 1" using assms by simp
  ultimately have "bit (unat ((learnedMask AND bothMasks OR word_of_int 1) + of_nat k :: 32 word)) 31"
    by (simp only: bit_iff_odd) simp
  then show ?thesis by (simp add: bit_unsigned_iff)
qed

lemma computeLbd_spec:
  assumes "length ls < 2 ^ 30"
  shows "wlp (computeLbd (NewLearnedClause ls) m) (\<lambda>c. lits c = ls \<and> prop_clause c)"
proof -
  let ?c = "setLbd (NewLearnedClause ls) 1"
  have "prop_clause c" if "pbData c = pbData ?c" "\<exists>k \<le> length ls. lbdValue c = lbdValue ?c + of_nat k" for c
  proof -
    have "Learned c"
      using that(2) learned_flag assms by (auto simp: Learned_iff setLbd_def NewLearnedClause_def)
    then show ?thesis using that(1) by (simp add: prop_clause_def Cardinality_def setLbd_def NewLearnedClause_def)
  qed
  moreover have "lits ?c = ls" by (simp add: setLbd_def NewLearnedClause_def)
  ultimately show ?thesis
    by (auto simp: computeLbd_def Let_def intro!: wlp_mono [OF lbdLoop_spec])
qed


definition learnt_ok :: "valuation \<Rightarrow> declevel \<Rightarrow> solver \<Rightarrow> clause \<Rightarrow> bool" where
  "learnt_ok a lvl s c \<longleftrightarrow> prop_clause c \<and> clause_ok a (nbVars s) c \<and> 2 \<le> Len c
     \<and> (\<forall>k \<in> set (lits c). isFalse (model s) k) \<and> lev (model s) (lits c ! 0) = lvl
     \<and> (\<forall>k \<in> set (tl (lits c)). lev (model s) k < lvl \<and> lev (model s) k \<le> lev (model s) (lits c ! 1))"

lemma distinct_vars_length:
  assumes "lits_ok n ls" and "distinct (map Lit_Var ls)"
  shows "length ls \<le> nat n"
proof -
  have "length ls = card (set (map Lit_Var ls))" using assms(2) by (metis distinct_card length_map)
  also have "\<dots> \<le> card {0..<n}"
    using assms(1) lit_ok_var [of n] by (intro card_mono) (auto simp: lit_ok_def)
  finally show ?thesis by simp
qed

text \<open>The literals of the learned clause, when the analysis \<open>an\<close> is done.\<close>

lemma learnt_lits:
  assumes an: "analysis_ok s lvl n an" and core: "core a s"
    and l: "lit_ok (nbVars s) l" "isFalse (model s) l" "lev (model s) l = lvl"
    and rest: "rest = filter P (sort_key (\<lambda>k. - lev (model s) k) (aLits an))"
  shows "lits_ok (nbVars s) (l # rest)" "distinct (map Lit_Var (l # rest))" "\<forall>k \<in> set (l # rest). isFalse (model s) k"
    "\<forall>k \<in> set rest. lev (model s) k < lvl \<and> lev (model s) k \<le> lev (model s) (hd rest)"
proof -
  let ?srt = "sort_key (\<lambda>k. - lev (model s) k) (aLits an)"
  have sub: "set rest \<subseteq> set (aLits an)" using rest by auto
  show "lits_ok (nbVars s) (l # rest)" "\<forall>k \<in> set (l # rest). isFalse (model s) k"
    using an l sub by (auto simp: analysis_ok_def)
  have low: "\<forall>k \<in> set rest. lev (model s) k < lvl" using an sub by (auto simp: analysis_ok_def)
  have "mset (map Lit_Var ?srt) = mset (map Lit_Var (aLits an))" by simp
  then have "distinct (map Lit_Var ?srt) = distinct (map Lit_Var (aLits an))" by (rule mset_eq_imp_distinct_iff)
  moreover have "distinct (map Lit_Var (aLits an))" using an by (simp add: analysis_ok_def)
  ultimately have "distinct (map Lit_Var rest)" using rest by (simp add: distinct_map_filter)
  moreover have "Lit_Var l \<notin> Lit_Var ` set rest"
  proof
    assume "Lit_Var l \<in> Lit_Var ` set rest"
    then obtain k where "k \<in> set rest" "Lit_Var k = Lit_Var l" by auto
    then show False using low l(3) by force
  qed
  ultimately show "distinct (map Lit_Var (l # rest))" by simp
  have "sorted (map (\<lambda>k. - lev (model s) k) rest)" using rest by (simp add: sorted_filter)
  then have "lev (model s) k \<le> lev (model s) (hd rest)" if "k \<in> set rest" for k
    using that by (cases rest) auto
  then show "\<forall>k \<in> set rest. lev (model s) k < lvl \<and> lev (model s) k \<le> lev (model s) (hd rest)"
    using low by blast
qed

lemma learnt_clause:
  assumes an: "analysis_ok s lvl n an" and core: "core a s" and n: "nbVars s < 2 ^ 30"
    and l: "lit_ok (nbVars s) l" "isFalse (model s) l" "lev (model s) l = lvl"
    and rest: "rest = filter P (sort_key (\<lambda>k. - lev (model s) k) (aLits an))" "rest \<noteq> []"
    and sat: "\<exists>k \<in> set (l # rest). a k"
  shows "wlp (computeLbd (NewLearnedClause (l # rest)) m) (learnt_ok a lvl s)"
proof -
  note ls = learnt_lits [OF an core l rest(1)]
  have "length (l # rest) < 2 ^ 30" using distinct_vars_length [OF ls(1,2)] nat_mono_iff [of "2 ^ 30" "nbVars s"] n by simp
  then have "wlp (computeLbd (NewLearnedClause (l # rest)) m) (\<lambda>c. lits c = l # rest \<and> prop_clause c)"
    by (rule computeLbd_spec)
  moreover have "learnt_ok a lvl s c" if c: "lits c = l # rest" "prop_clause c" for c
  proof -
    have "pbData c = None" "Cardinality c = 1" using c(2) by (simp_all add: prop_clause_def)
    moreover have "wsat a c" using sat prop_clause_wsat [OF c(2)] c(1) by simp
    ultimately have "clause_ok a (nbVars s) c"
      using ls(1,2) c(1) by (simp add: clause_ok_def c_weights_def Len_def)
    then show ?thesis
      using ls(3,4) l(3) c rest(2) by (auto simp: learnt_ok_def Len_def neq_Nil_conv)
  qed
  ultimately show ?thesis by (auto elim: wlp_mono)
qed

text \<open>The analysis starts from the falsified clause.\<close>

lemma start_ok:
  assumes "core a s"
  shows "analysis_ok s lvl (length (trail s))
    \<lparr>met = replicate (nat (nbVars s)) False, metLvl = replicate (nat (nbVars s)) False, aLits = [], nbLvl = 0\<rparr>"
proof -
  have "nat (Lit_Var t) < nat (nbVars s)" if "t \<in> set (trail s)" for t
    using core_trail(4) [OF assms that] core_nbVars [OF assms] by simp
  then show ?thesis by (auto simp: analysis_ok_def filter_empty_conv)
qed

lemma conflict_resolvent:
  assumes core: "core a s" and top: "\<forall>k \<in> set (trail s). lev (model s) k \<le> lvl" and confl: "confl_ok a lvl s c"
    and an: "analysis_ok s lvl (length (trail s)) an"
    and all: "\<forall>l \<in> set (lits (store s ! c)). isFalse (model s) l \<longrightarrow> marked (met an) l"
  shows "resolvent a s (length (trail s)) an" "1 \<le> nbLvl an"
proof -
  have c: "c < length (store s)" using confl by (simp add: confl_ok_def)
  have in_t: "Negation k \<in> set (trail s) \<and> Negation (Negation k) = k \<and> Lit_Var (Negation k) = Lit_Var k"
    if "k \<in> set (lits (store s ! c))" "isFalse (model s) k" for k
  proof -
    have "lit_ok (nbVars s) k" using core_clause [OF core c] that(1) by (simp add: clause_ok_def)
    then show ?thesis using false_in_trail [OF core] that(2) by (simp add: lit_ok_def)
  qed
  have E: "\<forall>t \<in> set (trail s). lev (model s) t = lvl \<longrightarrow> marked (met an) t \<longrightarrow> marked (metLvl an) t"
    using an by (simp add: analysis_ok_def)
  have lvl: "marked (metLvl an) (Negation k)"
    if "k \<in> set (lits (store s ! c))" "isFalse (model s) k" "lev (model s) k = lvl" for k
    using bspec [OF E, of "Negation k"] all that in_t [OF that(1,2)] by simp
  obtain k where k: "k \<in> set (lits (store s ! c))" "isFalse (model s) k" "a k"
    using confl by (auto simp: confl_ok_def)
  show "resolvent a s (length (trail s)) an"
  proof (cases "lev (model s) k = lvl")
    case True
    then show ?thesis using lvl [OF k(1,2)] in_t [OF k(1,2)] k(3) unfolding resolvent_def by (metis order_refl take_all)
  next
    case False
    then have "lev (model s) (Negation k) < lvl" using top in_t [OF k(1,2)] by force
    then have "k \<in> set (aLits an)"
      using an all k(1,2) in_t [OF k(1,2)] unfolding analysis_ok_def by metis
    then show ?thesis using k(3) by (auto simp: resolvent_def)
  qed
  obtain j where j: "j \<in> set (lits (store s ! c))" "isFalse (model s) j" "lev (model s) j = lvl"
    using confl by (auto simp: confl_ok_def)
  have "Negation j \<in> set (filter (marked (metLvl an)) (trail s))" using lvl [OF j] in_t [OF j(1,2)] by simp
  then have "0 < length (filter (marked (metLvl an)) (trail s))" by (rule length_pos_if_in_set)
  then show "1 \<le> nbLvl an" using an by (simp add: analysis_ok_def Suc_le_eq)
qed


definition learn_post :: "valuation \<Rightarrow> declevel \<Rightarrow> solver \<Rightarrow> solver \<times> learnt \<Rightarrow> bool" where
  "learn_post a lvl s = (\<lambda>(s', r). case r of
     LearntEmpty \<Rightarrow> False
   | LearntUnit l \<Rightarrow> heuristic s s' \<and> lit_ok (nbVars s) l \<and> a l
       \<and> isFalse (model s) l \<and> lev (model s) l = lvl
   | LearntClause c \<Rightarrow> c = length (store s)
       \<and> (\<exists>t cl. heuristic s t \<and> s' = t\<lparr>store := store t @ [cl]\<rparr> \<and> learnt_ok a lvl s cl))"

lemma bufLit_frame: "heuristic s t \<Longrightarrow> heuristic s (t\<lparr>bufLit := l\<rparr>)"
  by (simp add: heuristic_def)

text \<open>What follows the analysis.\<close>

lemma finish_learning:
  assumes an: "analysis_ok s lvl n an" and core: "core a s" and lvl: "1 < lvl" and n: "nbVars s < 2 ^ 30"
    and l: "lit_ok (nbVars s) l" "isFalse (model s) l" "lev (model s) l = lvl"
    and sat: "\<exists>k \<in> set (l # aLits an). a k" and h: "heuristic s t"
  shows "wlp (do {
      ls \<leftarrow> sortLiterals (l # aLits an) (model t);
      let t = t\<lparr>bufLit := hd ls\<rparr>;
      rest \<leftarrow> minimizeLits t (met an) (tl ls);
      if rest = [] then Some (t, LearntUnit (hd ls))
      else do {
        c \<leftarrow> computeLbd (NewLearnedClause (hd ls # rest)) (model t);
        let (id, t) = alloc t c;
        Some (t, LearntClause id) } }) (learn_post a lvl s)"
proof -
  have mt: "model t = model s" and st: "length (store t) = length (store s)"
    using h store_same_length by (auto simp: heuristic_def)
  let ?srt = "sort_key (\<lambda>k. - lev (model s) k) (aLits an)"
  let ?rest = "filter (\<lambda>k. \<not> removable s (met an) k) ?srt"
  let ?t = "t\<lparr>bufLit := l\<rparr>"
  have low: "\<forall>k \<in> set (aLits an). lev (model s) k < lev (model s) l" using an l(3) by (simp add: analysis_ok_def)
  have sat': "\<exists>k \<in> set (l # ?rest). a k"
  proof (cases "a l")
    case False
    then obtain k where "k \<in> set (aLits an)" "a k" using sat by auto
    moreover have "coherent a" using False core by (auto simp: core_def proper_def)
    ultimately show ?thesis using minimize_keeps [OF _ core lvl an] by auto
  qed simp
  have fin: "wlp (if rest = [] then Some (?t, LearntUnit l)
      else do {
        c \<leftarrow> computeLbd (NewLearnedClause (l # rest)) (model t);
        let (id, t) = alloc ?t c;
        Some (t, LearntClause id) }) (learn_post a lvl s)" if rest: "rest = ?rest" for rest
  proof (cases "rest = []")
    case True
    then have "a l" using sat' rest by simp
    then show ?thesis using True l bufLit_frame [OF h] by (simp add: learn_post_def)
  next
    case False
    have "wlp (computeLbd (NewLearnedClause (l # rest)) (model t)) (learnt_ok a lvl s)"
      by (rule learnt_clause [OF an core n l rest False]) (use sat' rest in simp)
    moreover have "learn_post a lvl s (?t\<lparr>store := store ?t @ [c]\<rparr>, LearntClause (length (store ?t)))"
      if "learnt_ok a lvl s c" for c
      using that bufLit_frame [OF h, of l] st by (auto simp: learn_post_def intro!: exI [of _ ?t])
    ultimately show ?thesis
      using False by (auto simp: alloc_def elim!: wlp_mono)
  qed
  have "wlp (minimizeLits ?t (met an) ?srt) (\<lambda>rest. wlp (if rest = [] then Some (?t, LearntUnit l)
      else do {
        c \<leftarrow> computeLbd (NewLearnedClause (l # rest)) (model t);
        let (id, t) = alloc ?t c;
        Some (t, LearntClause id) }) (learn_post a lvl s))"
    by (rule wlp_mono [OF minimizeLits_spec [OF bufLit_frame [OF h]]]) (rule fin)
  moreover have "wlp (sortLiterals (l # aLits an) (model t)) (\<lambda>r. r = l # ?srt)"
    unfolding mt by (rule sortLiterals_spec [OF low])
  ultimately show ?thesis
    unfolding wlp_bind [of "sortLiterals (l # aLits an) (model t)"] by (auto elim!: wlp_mono simp: Let_def)
qed

lemma heuristic_nbVars: "heuristic s t \<Longrightarrow> nbVars t = nbVars s"
  by (simp add: heuristic_def)

lemma learnClause_spec:
  assumes p: "pinv a lvl {} s" and lvl: "1 < lvl" and confl: "confl_ok a lvl s c" and n: "nbVars s < 2 ^ 30"
  shows "wlp (learnClause s c lvl) (learn_post a lvl s)"
proof -
  note core = pinv_core [OF p]
  have top: "\<forall>k \<in> set (trail s). lev (model s) k \<le> lvl" using p by (simp add: pinv_def)
  have c: "c < length (store s)" using confl by (simp add: confl_ok_def)
  have ok: "clause_ok a (nbVars s) (store s ! c)" using core_clause [OF core c] .
  let ?an = "\<lparr>met = replicate (nat (nbVars s)) False, metLvl = replicate (nat (nbVars s)) False, aLits = [], nbLvl = 0\<rparr>"
  have finish: "wlp (do {
      first \<leftarrow> assertingLit (trail t) (metLvl an);
      let l0 = (case first of None \<Rightarrow> bufLit t | Some l \<Rightarrow> l);
      let t = clauseDecayActivity (varDecayActivity t);
      ls \<leftarrow> sortLiterals (l0 # aLits an) (model t);
      let t = t\<lparr>bufLit := hd ls\<rparr>;
      rest \<leftarrow> minimizeLits t (met an) (tl ls);
      if rest = [] then Some (t, LearntUnit (hd ls))
      else do {
        c \<leftarrow> computeLbd (NewLearnedClause (hd ls # rest)) (model t);
        let (id, t) = alloc t c;
        Some (t, LearntClause id) } }) (learn_post a lvl s)"
    if h: "heuristic s t" and an: "analysis_ok s lvl m an" "resolvent a s m an" "nbLvl an = 1" for t an m
  proof -
    have h': "heuristic s (clauseDecayActivity (varDecayActivity t))"
      using h heuristic_trans varDecayActivity_frame clauseDecayActivity_frame by blast
    have "trail t = trail s" using h by (simp add: heuristic_def)
    then show ?thesis
      unfolding wlp_bind [of "assertingLit (trail t) (metLvl an)"]
      by (intro wlp_mono [OF uip [OF core lvl an, folded \<open>trail t = trail s\<close>]], elim exE conjE)
        (simp only: Let_def option.case, rule finish_learning [OF an(1) core lvl n _ _ _ _ h', unfolded Let_def], assumption+)
  qed
  have analyse: "wlp (do {
      cl \<leftarrow> getC t c;
      (s, an) \<leftarrow> addClauseLits t ?an lvl (lits cl);
      resolveLoop s an lvl (length (trail s)) }) (\<lambda>(t, r). heuristic s t \<and>
        (\<exists>an' n'. r = Some an' \<and> analysis_ok s lvl n' an' \<and> resolvent a s n' an' \<and> nbLvl an' = 1))"
    if h: "heuristic s t" for t
  proof -
    have "lits (store t ! c) = lits (store s ! c)" "c < length (store t)"
      using c h store_same_length by (auto simp: heuristic_def) (metis length_map nth_map)
    moreover have "addClauseLits t ?an lvl (lits (store s ! c)) = addReasonLits t ?an lvl (lits (store s ! c))"
      using ok core_index [OF core] core_nbVars [OF core]
      by (intro addClauseLits_eq) (auto simp: clause_ok_def)
    moreover have "lits_ok (nbVars s) (lits (store s ! c))" using ok by (simp add: clause_ok_def)
    moreover have "wlp (resolveLoop t' an lvl (length (trail t'))) (\<lambda>(t, r). heuristic s t \<and>
        (\<exists>an' n'. r = Some an' \<and> analysis_ok s lvl n' an' \<and> resolvent a s n' an' \<and> nbLvl an' = 1))"
      if "met_post s lvl (length (trail s)) ?an (t', an)"
        "\<forall>l \<in> set (lits (store s ! c)). isFalse (model s) l \<longrightarrow> marked (met an) l" for t' an
    proof -
      have post: "heuristic s t'" "analysis_ok s lvl (length (trail s)) an"
        using that(1) by (auto simp: met_post_def)
      have "trail t' = trail s" using post(1) by (simp add: heuristic_def)
      then show ?thesis
        using resolveLoop_spec [OF core lvl top post(2) conflict_resolvent [OF core top confl post(2) that(2)] post(1)]
        by simp
    qed
    ultimately show ?thesis
      by (auto intro!: wlp_mono [OF addReasonLits_spec [OF start_ok [OF core] core lvl _ h top]])
  qed
  have all: "wlp (do {
      cl \<leftarrow> getC t c;
      (s, an) \<leftarrow> addClauseLits t ?an lvl (lits cl);
      (s, r) \<leftarrow> resolveLoop s an lvl (length (trail s));
      case r of None \<Rightarrow> Some (s, LearntEmpty)
      | Some an \<Rightarrow> do {
          first \<leftarrow> assertingLit (trail s) (metLvl an);
          let l0 = (case first of None \<Rightarrow> bufLit s | Some l \<Rightarrow> l);
          let s = clauseDecayActivity (varDecayActivity s);
          ls \<leftarrow> sortLiterals (l0 # aLits an) (model s);
          let s = s\<lparr>bufLit := hd ls\<rparr>;
          rest \<leftarrow> minimizeLits s (met an) (tl ls);
          if rest = [] then Some (s, LearntUnit (hd ls))
          else do {
            c \<leftarrow> computeLbd (NewLearnedClause (hd ls # rest)) (model s);
            let (id, s) = alloc s c;
            Some (s, LearntClause id) } } }) (learn_post a lvl s)"
    if h: "heuristic s t" for t
  proof -
    let ?k = "\<lambda>(s, r). case r of None \<Rightarrow> Some (s, LearntEmpty)
      | Some an \<Rightarrow> do {
          first \<leftarrow> assertingLit (trail s) (metLvl an);
          let l0 = (case first of None \<Rightarrow> bufLit s | Some l \<Rightarrow> l);
          let s = clauseDecayActivity (varDecayActivity s);
          ls \<leftarrow> sortLiterals (l0 # aLits an) (model s);
          let s = s\<lparr>bufLit := hd ls\<rparr>;
          rest \<leftarrow> minimizeLits s (met an) (tl ls);
          if rest = [] then Some (s, LearntUnit (hd ls))
          else do {
            c \<leftarrow> computeLbd (NewLearnedClause (hd ls # rest)) (model s);
            let (id, s) = alloc s c;
            Some (s, LearntClause id) } }"
    have "wlp (do { cl \<leftarrow> getC t c; (s, an) \<leftarrow> addClauseLits t ?an lvl (lits cl);
        resolveLoop s an lvl (length (trail s)) } \<bind> ?k) (learn_post a lvl s)"
      unfolding wlp_bind [where f = ?k]
      by (rule wlp_mono [OF analyse [OF h]]) (use finish in \<open>auto simp del: wlp_bind\<close>)
    then show ?thesis by (simp add: bind_assoc case_prod_beta' del: wlp_bind)
  qed
  have "\<not> nbVars s < 0" using core_nbVars [OF core] by simp
  then show ?thesis
    by (simp only: learnClause_def if_False wlp_bind [of "clauseBumpActivity s c"] Let_def)
      (rule wlp_mono [OF clauseBumpActivity_frame], frule heuristic_nbVars, drule all [unfolded Let_def], simp only:)
qed

end
