(* ===== verification/LearnTop.thy ===== *)
theory LearnTop
  imports LearnProof
begin

text \<open>
  A conflict at the top level: the analysis meets no literal of a lower level, so it ends with a
  unit that is false at the top level, or on an assumption.
\<close>

section \<open>Analysis at the top level\<close>

definition top_an :: "solver \<Rightarrow> analysis \<Rightarrow> bool" where
  "top_an s an \<longleftrightarrow> aLits an = [] \<and> (\<forall>v < length (metLvl an). metLvl an ! v \<longrightarrow> v < length (model s) \<and> model s ! v \<noteq> 0)"

definition touched :: "analysis \<Rightarrow> bool" where
  "touched an \<longleftrightarrow> (\<exists>v < length (metLvl an). metLvl an ! v)"

definition top_post :: "solver \<Rightarrow> analysis \<Rightarrow> solver \<times> analysis \<Rightarrow> bool" where
  "top_post s an = (\<lambda>(t, an'). heuristic s t \<and> top_an s an' \<and> (touched an \<longrightarrow> touched an'))"

lemma top_post_refl: "heuristic s t \<Longrightarrow> top_an s an \<Longrightarrow> top_post s an (t, an)"
  by (simp add: top_post_def)

lemma top_post_trans: "top_post s an (t, an') \<Longrightarrow> top_post s an' r \<Longrightarrow> top_post s an r"
  by (auto simp: top_post_def)

lemma meetLit_top:
  assumes top: "\<forall>v < length (model s). \<bar>model s ! v\<bar> \<le> 1" and an: "top_an s an" and h: "heuristic s t"
    and l: "isFalse (model s) l" "nat (Lit_Var l) < length (model s)"
  shows "wlp (meetLit t an 1 l) (\<lambda>r. top_post s an r \<and> touched (snd r))"
proof -
  let ?v = "nat (Lit_Var l)"
  have lev: "lev (model s) l = 1" using top l by (force simp: isFalse_def)
  have new: "top_an s (an\<lparr>met := mt, metLvl := (metLvl an)[?v := True], nbLvl := n\<rparr>)" for mt n
  proof -
    have "v < length (model s) \<and> model s ! v \<noteq> 0"
      if "v < length (metLvl an)" "(metLvl an)[?v := True] ! v" for v
      using that an l by (cases "v = ?v") (auto simp: top_an_def isFalse_def)
    then show ?thesis using an by (simp add: top_an_def)
  qed
  have "touched (an\<lparr>met := mt, metLvl := (metLvl an)[?v := True], nbLvl := n\<rparr>)" if "?v < length (metLvl an)" for mt n
    using that by (auto simp: touched_def intro!: exI [of _ ?v])
  then show ?thesis
    unfolding meetLit_def Let_def wlp_bind
    using new lev h
    by (auto simp: top_post_def heuristic_def intro!: wlp_mono [OF varBumpActivity_frame] intro: store_same_trans)
qed

lemma addClauseLits_top:
  assumes top: "\<forall>v < length (model s). \<bar>model s ! v\<bar> \<le> 1"
  shows "top_an s an \<Longrightarrow> heuristic s t \<Longrightarrow>
    wlp (addClauseLits t an 1 ls) (\<lambda>r. top_post s an r \<and> ((\<exists>l \<in> set ls. isFalse (model s) l) \<longrightarrow> touched (snd r)))"
proof (induction ls arbitrary: t an)
  case Nil
  then show ?case by (simp add: top_post_refl)
next
  case (Cons l ls)
  have m: "model t = model s" using Cons.prems(2) by (simp add: heuristic_def)
  show ?case
  proof (cases "isFalse (model s) l")
    case False
    then show ?thesis
      using Cons.IH [OF Cons.prems] m by (auto simp: isFalse_iff elim!: wlp_mono)
  next
    case True
    have rest: "wlp (addClauseLits u an' 1 ls) (\<lambda>r. top_post s an r \<and> touched (snd r))"
      if u: "top_post s an (u, an')" "touched an'" for u an'
    proof (rule wlp_mono [OF Cons.IH])
      show "top_an s an'" "heuristic s u" using u(1) by (auto simp: top_post_def)
      fix r assume "top_post s an' r \<and> ((\<exists>l \<in> set ls. isFalse (model s) l) \<longrightarrow> touched (snd r))"
      then show "top_post s an r \<and> touched (snd r)"
        using u top_post_trans [OF u(1)] by (auto simp: top_post_def)
    qed
    have "wlp (meetLit t an 1 l) (\<lambda>x. wlp (case x of (u, an') \<Rightarrow> addClauseLits u an' 1 ls) (\<lambda>r. top_post s an r \<and> touched (snd r)))"
      if "nat (Lit_Var l) < length (model s)"
      by (rule wlp_mono [OF meetLit_top [OF top Cons.prems True that]]) (use rest in auto)
    then show ?thesis
      using True m by (auto simp: isFalse_iff nat_less_iff simp del: wlp_bind)
        (auto simp: wlp_bind)
  qed
qed

lemma addReasonLits_top:
  assumes top: "\<forall>v < length (model s). \<bar>model s ! v\<bar> \<le> 1"
  shows "top_an s an \<Longrightarrow> heuristic s t \<Longrightarrow> wlp (addReasonLits t an 1 ls) (top_post s an)"
proof (induction ls arbitrary: t an)
  case Nil
  then show ?case by (simp add: top_post_refl)
next
  case (Cons l ls)
  have m: "model t = model s" using Cons.prems(2) by (simp add: heuristic_def)
  note skip = Cons.IH [OF Cons.prems]
  have "wlp (meetLit t an 1 l) (\<lambda>x. wlp (case x of (u, an') \<Rightarrow> addReasonLits u an' 1 ls) (top_post s an))"
    if "isFalse (model s) l" "nat (Lit_Var l) < length (model s)"
  proof (rule wlp_mono [OF meetLit_top [OF top Cons.prems that]])
    fix x assume x: "top_post s an x \<and> touched (snd x)"
    obtain u an' where eq: "x = (u, an')" by (cases x)
    have "wlp (addReasonLits u an' 1 ls) (top_post s an')"
      using x by (intro Cons.IH) (auto simp: eq top_post_def)
    then show "wlp (case x of (u, an') \<Rightarrow> addReasonLits u an' 1 ls) (top_post s an)"
      using x top_post_trans by (auto simp: eq elim!: wlp_mono)
  qed
  then show ?case
    using skip m by (auto simp: isFalse_iff nat_less_iff simp del: wlp_bind) (auto simp: wlp_bind)
qed

lemma scanTrail_top: "wlp (scanTrail t an lvl n) (\<lambda>(an', n'). aLits an' = aLits an \<and> metLvl an' = metLvl an)"
proof (induction n arbitrary: an)
  case (Suc p)
  have "wlp (scanTrail t (an\<lparr>met := x\<rparr>) lvl p) (\<lambda>(an', n'). aLits an' = aLits an \<and> metLvl an' = metLvl an)" for x
    by (rule wlp_mono [OF Suc.IH]) simp
  then show ?case using Suc.IH [of an] by (simp add: Let_def)
qed simp

lemma resolveLoop_top:
  assumes top: "\<forall>v < length (model s). \<bar>model s ! v\<bar> \<le> 1"
  shows "top_an s an \<Longrightarrow> touched an \<Longrightarrow> heuristic s t \<Longrightarrow>
    wlp (resolveLoop t an 1 n) (\<lambda>(t', r). heuristic s t' \<and> (\<forall>an'. r = Some an' \<longrightarrow> top_an s an' \<and> touched an'))"
proof (induction n arbitrary: an t rule: less_induct)
  case (less n)
  let ?Q = "\<lambda>(t', r). heuristic s t' \<and> (\<forall>an'. r = Some an' \<longrightarrow> top_an s an' \<and> touched an')"
  note eq = resolveLoop.simps [of t an 1 n]
  show ?case
  proof (cases "nbLvl an > 1")
    case False
    then show ?thesis using less.prems by (subst eq) auto
  next
    case nb: True
    have rest: "wlp (case r of None \<Rightarrow> Some (t, an2)
            | Some c \<Rightarrow> do { t \<leftarrow> clauseBumpActivity t c; cl \<leftarrow> getC t c; addReasonLits t an2 1 (lits cl) })
          (\<lambda>(t, an). wlp (resolveLoop t an 1 p) ?Q)"
      if an2: "top_an s an2" "touched an2" and p: "p < n" for an2 p r
    proof (cases r)
      case None
      then show ?thesis using less.IH [OF p an2 less.prems(3)] by simp
    next
      case (Some c)
      have "wlp (addReasonLits u an2 1 ls) (\<lambda>(t, an). wlp (resolveLoop t an 1 p) ?Q)" if "heuristic s u" for u ls
        by (rule wlp_mono [OF addReasonLits_top [OF top an2(1) that]])
          (use less.IH [OF p] an2(2) in \<open>auto simp: top_post_def\<close>)
      then show ?thesis
        using Some less.prems(3) by (auto intro!: wlp_mono [OF clauseBumpActivity_frame] intro: heuristic_trans)
    qed
    have "wlp (scanTrail t an 1 n) (\<lambda>(an1, n1). wlp (do {
        l \<leftarrow> get (trail t) (n1 - 1);
        let v = Lit_Var l;
        b \<leftarrow> geti (assumptions t) v;
        if b then Some (t, None)
        else do {
          let an = an1\<lparr>nbLvl := nbLvl an1 - 1\<rparr>;
          r \<leftarrow> geti (reason t) v;
          (s, an) \<leftarrow> (case r of
              None \<Rightarrow> Some (t, an)
            | Some c \<Rightarrow> do { s \<leftarrow> clauseBumpActivity t c; cl \<leftarrow> getC s c; addReasonLits s an 1 (lits cl) });
          resolveLoop s an 1 (n1 - 1) } }) ?Q)"
    proof (rule wlp_mono [OF wlp_conj [OF scanTrail_wlp scanTrail_top]], clarify)
      fix an1 :: analysis and n1 assume n1: "0 < n1" "n1 \<le> n" and an1: "aLits an1 = aLits an" "metLvl an1 = metLvl an"
      have ok: "top_an s (an1\<lparr>nbLvl := k\<rparr>)" "touched (an1\<lparr>nbLvl := k\<rparr>)" for k
        using less.prems(1,2) an1 by (auto simp: top_an_def touched_def)
      have "n1 - 1 < n" using n1 by simp
      then show "wlp (do {
        l \<leftarrow> get (trail t) (n1 - 1);
        let v = Lit_Var l;
        b \<leftarrow> geti (assumptions t) v;
        if b then Some (t, None)
        else do {
          let an = an1\<lparr>nbLvl := nbLvl an1 - 1\<rparr>;
          r \<leftarrow> geti (reason t) v;
          (s, an) \<leftarrow> (case r of
              None \<Rightarrow> Some (t, an)
            | Some c \<Rightarrow> do { s \<leftarrow> clauseBumpActivity t c; cl \<leftarrow> getC s c; addReasonLits s an 1 (lits cl) });
          resolveLoop s an 1 (n1 - 1) } }) ?Q"
        using rest [OF ok] less.prems(3) by (simp add: Let_def case_prod_beta')
    qed
    then show ?thesis
      by (subst eq) (simp only: nb if_True wlp_bind [of "scanTrail t an 1 n"] case_prod_beta')
  qed
qed

lemma assertingLit_top:
  assumes "\<exists>t \<in> set ls. marked ml t"
  shows "wlp (assertingLit ls ml) (\<lambda>r. \<exists>t \<in> set ls. r = Some (Negation t) \<and> marked ml t)"
  using assms
proof (induction ls)
  case (Cons l ls)
  then show ?case by (cases "marked ml l") (auto elim!: wlp_mono)
qed simp

lemma sortLiterals_one: "sortLiterals [l] m = Some [l]"
  by (simp add: sortLiterals_def)

text \<open>What a conflict at the top level teaches.\<close>

definition top_learnt :: "solver \<Rightarrow> solver \<times> learnt \<Rightarrow> bool" where
  "top_learnt s = (\<lambda>(t, r). heuristic s t \<and> (case r of
     LearntEmpty \<Rightarrow> True
   | LearntUnit l \<Rightarrow> lit_ok (nbVars s) l \<and> isFalse (model s) l \<and> lev (model s) l = 1
   | LearntClause c \<Rightarrow> False))"

lemma learnClause_top:
  assumes p: "pinv a 1 {} s" and confl: "confl_ok a 1 s c"
  shows "wlp (learnClause s c 1) (top_learnt s)"
proof -
  note core = pinv_core [OF p]
  have top: "\<forall>v < length (model s). \<bar>model s ! v\<bar> \<le> 1"
  proof (intro allI impI)
    fix v assume v: "v < length (model s)"
    show "\<bar>model s ! v\<bar> \<le> 1"
    proof (cases "model s ! v = 0")
      case False
      then obtain k where "k \<in> set (trail s)" "int v = Lit_Var k"
        using core v by (auto simp: core_def bindings_ok_def)
      then show ?thesis using p by (metis nat_int pinv_def)
    qed simp
  qed
  let ?an = "\<lparr>met = replicate (nat (nbVars s)) False, metLvl = replicate (nat (nbVars s)) False, aLits = [], nbLvl = 0\<rparr>"
  have finish: "wlp (do {
      first \<leftarrow> assertingLit (trail t) (metLvl an);
      let l0 = (case first of None \<Rightarrow> bufLit t | Some l \<Rightarrow> l);
      let t = clauseDecayActivity (varDecayActivity t);
      ls \<leftarrow> sortLiterals (l0 # aLits an) (model t);
      let t = t\<lparr>bufLit := hd ls\<rparr>;
      rest \<leftarrow> minimizeLits t (met an) (tl ls);
      if rest = [] then Some (t, LearntUnit (hd ls))
      else do {
        c \<leftarrow> computeLbd (NewLearnedClause (hd ls # rest)) (model t);
        let (id, t) = alloc t c;
        Some (t, LearntClause id) } }) (top_learnt s)"
    if h: "heuristic s t" and an: "top_an s an" "touched an" for t an
  proof -
    obtain v where v: "v < length (metLvl an)" "metLvl an ! v" using an(2) by (auto simp: touched_def)
    then have "v < length (model s)" "model s ! v \<noteq> 0" using an(1) by (auto simp: top_an_def)
    then obtain k where "k \<in> set (trail s)" "int v = Lit_Var k"
      using core by (auto simp: core_def bindings_ok_def)
    then have ex: "\<exists>k \<in> set (trail t). marked (metLvl an) k" using v(2) h by (metis heuristic_def nat_int)
    have h': "heuristic s (clauseDecayActivity (varDecayActivity t)\<lparr>bufLit := l\<rparr>)" for l
      using h by (simp add: heuristic_def clauseDecayActivity_def varDecayActivity_def)
    have fin: "top_learnt s (clauseDecayActivity (varDecayActivity t)\<lparr>bufLit := Negation k\<rparr>, LearntUnit (Negation k))"
      if "k \<in> set (trail t)" for k
    proof -
      have "k \<in> set (trail s)" using that h by (simp add: heuristic_def)
      then have "lit_ok (nbVars s) k" "isTrue (model s) k" "lev (model s) k = 1" "0 \<le> k"
        using core_trail [OF core] p by (force simp: pinv_def)+
      then show ?thesis using h' by (simp add: top_learnt_def isFalse_Negation)
    qed
    have none: "aLits an = []" using an(1) by (simp add: top_an_def)
    show ?thesis
      unfolding wlp_bind [of "assertingLit (trail t) (metLvl an)"]
      by (rule wlp_mono [OF assertingLit_top [OF ex]]) (use fin in \<open>auto simp: none sortLiterals_one Let_def\<close>)
  qed
  have an0: "top_an s ?an" using core_nbVars [OF core] by (simp add: top_an_def)
  have c: "c < length (store s)" "\<exists>l \<in> set (lits (store s ! c)). isFalse (model s) l"
    using confl by (auto simp: confl_ok_def)
  let ?k = "\<lambda>(s, r). case r of None \<Rightarrow> Some (s, LearntEmpty)
      | Some an \<Rightarrow> do {
          first \<leftarrow> assertingLit (trail s) (metLvl an);
          let l0 = (case first of None \<Rightarrow> bufLit s | Some l \<Rightarrow> l);
          let s = clauseDecayActivity (varDecayActivity s);
          ls \<leftarrow> sortLiterals (l0 # aLits an) (model s);
          let s = s\<lparr>bufLit := hd ls\<rparr>;
          rest \<leftarrow> minimizeLits s (met an) (tl ls);
          if rest = [] then Some (s, LearntUnit (hd ls))
          else do {
            c \<leftarrow> computeLbd (NewLearnedClause (hd ls # rest)) (model s);
            let (id, s) = alloc s c;
            Some (s, LearntClause id) } }"
  have all: "wlp (do { cl \<leftarrow> getC t c; (s, an) \<leftarrow> addClauseLits t ?an 1 (lits cl);
        resolveLoop s an 1 (length (trail s)) \<bind> ?k }) (top_learnt s)"
    if h: "heuristic s t" for t
  proof -
    have lits: "lits (store t ! c) = lits (store s ! c)"
      using c(1) h by (auto simp: heuristic_def) (metis length_map nth_map)
    have k: "wlp (resolveLoop u an 1 (length (trail u))) (\<lambda>x. wlp (?k x) (top_learnt s))"
      if "top_post s ?an (u, an)" "touched an" for u an
    proof (rule wlp_mono [OF resolveLoop_top [OF top _ that(2)]])
      show "top_an s an" "heuristic s u" using that(1) by (auto simp: top_post_def)
      fix x :: "solver \<times> analysis option"
      assume x: "case x of (t', r) \<Rightarrow> heuristic s t' \<and> (\<forall>an'. r = Some an' \<longrightarrow> top_an s an' \<and> touched an')"
      obtain v r where eq: "x = (v, r)" by (cases x)
      show "wlp (?k x) (top_learnt s)"
      proof (cases r)
        case None
        then show ?thesis using x eq by (simp add: top_learnt_def)
      next
        case (Some an')
        then show ?thesis using x eq finish [of v an'] by (simp only: prod.case option.case)
      qed
    qed
    have "wlp (addClauseLits t ?an 1 (lits (store t ! c))) (\<lambda>x. wlp (case x of (s, an) \<Rightarrow> do {
        resolveLoop s an 1 (length (trail s)) \<bind> ?k }) (top_learnt s))"
      unfolding lits
    proof (rule wlp_mono [OF addClauseLits_top [OF top an0 h]])
      fix x assume x: "top_post s ?an x \<and> ((\<exists>l \<in> set (lits (store s ! c)). isFalse (model s) l) \<longrightarrow> touched (snd x))"
      obtain u an where eq: "x = (u, an)" by (cases x)
      have "wlp (resolveLoop u an 1 (length (trail u)) \<bind> ?k) (top_learnt s)"
        unfolding wlp_bind [where f = ?k] by (rule k) (use x c(2) eq in auto)
      then show "wlp (case x of (s, an) \<Rightarrow> do {
        resolveLoop s an 1 (length (trail s)) \<bind> ?k }) (top_learnt s)"
        by (simp only: eq prod.case)
    qed
    then show ?thesis
      unfolding wlp_bind [of "getC t c"] wlp_bind [of "addClauseLits t _ _ _"] wlp_getC by (rule impI)
  qed
  have "\<not> nbVars s < 0" using core_nbVars [OF core] by simp
  then show ?thesis
    by (simp only: learnClause_def if_False wlp_bind [of "clauseBumpActivity s c"] Let_def)
      (rule wlp_mono [OF clauseBumpActivity_frame], frule heuristic_nbVars, drule all [unfolded Let_def], simp only:)
qed

end
