(* ===== verification/Backjump.thy ===== *)
theory Backjump
  imports LearnTop
begin

text \<open>
  Undoing bindings keeps the invariant, and so do watching a new clause and forgetting old ones.
\<close>

section \<open>States between propagations\<close>

definition stable :: "valuation \<Rightarrow> solver \<Rightarrow> bool" where
  "stable a s \<longleftrightarrow> core a s \<and> watch_ok s \<and> reasons_ok {} s"

lemma stable_heuristic: "stable a s \<Longrightarrow> heuristic s t \<Longrightarrow> stable a t"
  unfolding stable_def using core_heuristic watch_heuristic reasons_heuristic by blast

lemma pinv_stable: "pinv a lvl {} s \<longleftrightarrow> stable a s \<and> 1 \<le> lvl \<and> (\<forall>k \<in> set (trail s). lev (model s) k \<le> lvl)"
  by (auto simp: pinv_def stable_def)

section \<open>Unbinding\<close>

lemma keptLength_spec:
  "wlp (keptLength m ls lvl) (\<lambda>i. i \<le> length ls \<and> (\<forall>k \<in> set (take i ls). lev m k \<le> lvl)
     \<and> (i < length ls \<longrightarrow> lvl < lev m (ls ! i)))"
proof (induction ls)
  case (Cons l ls)
  show ?case by (auto intro!: wlp_mono [OF Cons.IH])
qed simp

text \<open>The variables of \<open>ls\<close> lose their bindings and reasons; the rest stays.\<close>

definition unbound_in :: "lit list \<Rightarrow> solver \<Rightarrow> solver \<Rightarrow> bool" where
  "unbound_in ls s s' \<longleftrightarrow> nbVars s' = nbVars s \<and> trail s' = trail s \<and> assumptions s' = assumptions s \<and> same_lists s s'
     \<and> store_same (store s) (store s') \<and> map lits (store s') = map lits (store s)
     \<and> length (model s') = length (model s) \<and> length (reason s') = length (reason s)
     \<and> (\<forall>v < length (model s). model s' ! v = (if v \<in> (nat \<circ> Lit_Var) ` set ls then 0 else model s ! v))
     \<and> (\<forall>v < length (reason s). reason s' ! v = (if v \<in> (nat \<circ> Lit_Var) ` set ls then None else reason s ! v))"

lemma unbindReason_spec:
  "wlp (unbindReason s v) (\<lambda>s'. nbVars s' = nbVars s \<and> trail s' = trail s \<and> assumptions s' = assumptions s \<and> same_lists s s'
     \<and> store_same (store s) (store s') \<and> map lits (store s') = map lits (store s) \<and> model s' = model s
     \<and> length (reason s') = length (reason s) \<and> reason s' = (reason s)[nat v := None])"
  by (auto simp: unbindReason_def same_lists_def map_update list_update_same_conv unlock_def
      intro!: store_same_put csame_unlock [unfolded unlock_def] split: option.splits)
    (metis list_update_id)

lemma unbindLits_spec: "wlp (unbindLits s ls ins) (\<lambda>(s', ins'). unbound_in ls s s')"
proof (induction ls arbitrary: s ins)
  case Nil
  then show ?case by (simp add: unbound_in_def)
next
  case (Cons l ls)
  let ?v = "nat (Lit_Var l)"
  have go: "wlp (unbindLits t ls ins) (\<lambda>(s', ins'). unbound_in (l # ls) s s')"
    if "nbVars t = nbVars s" "trail t = trail s" "assumptions t = assumptions s" "same_lists s t"
      "store_same (store s) (store t)" "map lits (store t) = map lits (store s)"
      "model t = (model s)[?v := 0]" "reason t = (reason s)[?v := None]" for t ins
    by (rule wlp_mono [OF Cons.IH])
      (use that in \<open>auto simp: unbound_in_def nth_list_update intro: same_lists_trans store_same_trans\<close>)
  show ?case
    by (auto simp: Let_def intro!: wlp_mono [OF unbindReason_spec] wlp_eqI [of "q_insert _ _"] go)
      (auto simp: same_lists_def)
qed


definition backtracked :: "declevel \<Rightarrow> solver \<Rightarrow> solver \<Rightarrow> bool" where
  "backtracked lvl s s' \<longleftrightarrow> nbVars s' = nbVars s \<and> same_lists s s'
     \<and> store_same (store s) (store s') \<and> map lits (store s') = map lits (store s)
     \<and> (\<forall>k. k \<in> set (trail s') \<longleftrightarrow> k \<in> set (trail s) \<and> lev (model s) k \<le> lvl)
     \<and> (\<forall>k \<in> set (trail s). model s' ! nat (Lit_Var k) = (if lev (model s) k \<le> lvl then model s ! nat (Lit_Var k) else 0))"

lemma levels_sorted:
  assumes "core a s" and "trail s = xs @ ys" and "k \<in> set xs" and "j \<in> set ys"
  shows "lev (model s) k \<le> lev (model s) j"
proof -
  obtain p q where "ys = p @ j # q" using assms(4) by (auto simp: in_set_conv_decomp)
  then have "trail s = (xs @ p) @ j # q" using assms(2) by simp
  then have "entry_ok a s (xs @ p) j" using assms(1) unfolding core_def by (blast dest: entriesD)
  then show ?thesis using assms(3) by (simp add: entry_ok_def)
qed

text \<open>Cutting the trail at a level.\<close>

lemma cut_core:
  assumes core: "core a s" and lvl: "1 \<le> lvl" and T: "trail s = xs @ ys"
    and xs: "\<forall>k \<in> set xs. lev (model s) k \<le> lvl" and ys: "\<forall>k \<in> set ys. lvl < lev (model s) k"
    and u: "unbound_in ys s t" and s': "s' = t\<lparr>trail := xs\<rparr>"
  shows "core a s'" "reasons_ok {} s \<Longrightarrow> reasons_ok {} s'" "backtracked lvl s s'"
proof -
  have idx: "nat (Lit_Var k) < length (model s)" "length (reason s) = length (model s)" if "k \<in> set (trail s)" for k
    using core_trail(4) [OF core that] core by (simp_all add: core_def sizes_ok_def)
  have st: "nbVars s' = nbVars s" "assumptions s' = assumptions s" "store_same (store s) (store s')"
    "map lits (store s') = map lits (store s)" "length (model s') = length (model s)"
    "length (reason s') = length (reason s)" "same_lists s s'" "trail s' = xs"
    using u s' by (auto simp: unbound_in_def same_lists_def)
  have m: "model s' ! v = (if v \<in> (nat \<circ> Lit_Var) ` set ys then 0 else model s ! v)" if "v < length (model s)" for v
    using u s' that by (simp add: unbound_in_def)
  have r: "reason s' ! v = (if v \<in> (nat \<circ> Lit_Var) ` set ys then None else reason s ! v)" if "v < length (reason s)" for v
    using u s' that by (simp add: unbound_in_def)
  have keep: "nat (Lit_Var k) \<notin> (nat \<circ> Lit_Var) ` set ys" if "k \<in> set xs" for k
    using xs ys that by fastforce
  have mk: "model s' ! nat (Lit_Var k) = model s ! nat (Lit_Var k)" "reason s' ! nat (Lit_Var k) = reason s ! nat (Lit_Var k)"
    if "k \<in> set xs" for k
    using m r keep [OF that] idx [of k] that T by simp_all
  have "entries xs (entry_ok a s')"
  proof (rule entries_mono)
    show "entries xs (entry_ok a s)" using core T entries_prefix by (metis core_def)
    fix pre l assume l: "l \<in> set xs" "set pre \<subseteq> set xs" "entry_ok a s pre l"
    have "c < length (store s') \<and> implied a (store s' ! c) pre l \<longleftrightarrow> c < length (store s) \<and> implied a (store s ! c) pre l" for c
      using store_same_length [OF st(3)] implied_csame [OF store_same_nth [OF st(3)]] by auto
    moreover have "\<forall>k \<in> set pre. lev (model s') k = lev (model s) k" using mk l(2) by auto
    ultimately show "entry_ok a s' pre l"
      using l(3) mk [OF l(1)] unfolding entry_ok_def by (simp split: option.splits)
  qed
  moreover have "clauses_ok a s'" using core clauses_ok_same [OF _ st(3,1)] by (simp add: core_def)
  moreover have "bindings_ok s'"
  proof -
    have "lit_ok (nbVars s') l \<and> isTrue (model s') l" if "l \<in> set xs" for l
      using core_trail(1,2) [OF core, of l] that T mk [OF that] st(1) by (simp add: isTrue_def)
    moreover have "int v \<in> Lit_Var ` set xs" if v: "v < length (model s')" "model s' ! v \<noteq> 0" for v
    proof -
      have "v \<notin> (nat \<circ> Lit_Var) ` set ys" "model s ! v \<noteq> 0" using m [of v] v st(5) by (auto split: if_splits)
      moreover from this have "int v \<in> Lit_Var ` set (trail s)" using core v(1) st(5) by (auto simp: core_def bindings_ok_def)
      ultimately show ?thesis using T by (force simp: image_iff)
    qed
    ultimately show ?thesis using st(8) by (simp add: bindings_ok_def)
  qed
  moreover have "sizes_ok s'" using core st by (simp add: core_def sizes_ok_def)
  moreover have "assumptions_ok s'"
    unfolding assumptions_ok_def
  proof (intro allI impI)
    fix v assume v: "v < length (assumptions s')" "assumptions s' ! v"
    then have a: "v < length (model s)" "\<bar>model s ! v\<bar> = 1" using core st(2) by (auto simp: core_def assumptions_ok_def)
    have "v \<notin> (nat \<circ> Lit_Var) ` set ys" using a(2) ys lvl by auto
    then show "v < length (model s') \<and> \<bar>model s' ! v\<bar> = 1" using a m st(5) by simp
  qed
  moreover have "proper a" using core by (simp add: core_def)
  ultimately show "core a s'" using st(8) by (simp add: core_def)
  show "reasons_ok {} s'" if "reasons_ok {} s"
    unfolding reasons_ok_def
  proof (intro allI impI)
    fix v assume v: "v < length (reason s')" "model s' ! v = 0 \<and> int v \<notin> {}"
    then show "reason s' ! v = None"
      using that r [of v] m [of v] st(6) core by (auto simp: reasons_ok_def core_def sizes_ok_def split: if_splits)
  qed
  have "k \<in> set xs \<longleftrightarrow> k \<in> set (trail s) \<and> lev (model s) k \<le> lvl" for k using T xs ys by fastforce
  moreover have "model s' ! nat (Lit_Var k) = (if lev (model s) k \<le> lvl then model s ! nat (Lit_Var k) else 0)"
    if k: "k \<in> set (trail s)" for k
  proof (cases "lev (model s) k \<le> lvl")
    case True
    then have "k \<in> set xs" using k T ys by fastforce
    then show ?thesis using True mk by simp
  next
    case False
    then have "k \<in> set ys" using k T xs by fastforce
    then show ?thesis using False m idx(1) [OF k] by force
  qed
  ultimately show "backtracked lvl s s'" using st by (simp add: backtracked_def)
qed

lemma cleanupBindings_spec:
  assumes st: "stable a s" and lvl: "1 \<le> lvl"
  shows "wlp (cleanupBindings s lvl) (\<lambda>s'. stable a s' \<and> backtracked lvl s s')"
proof -
  have core: "core a s" using st by (simp add: stable_def)
  have fin: "stable a t' \<and> backtracked lvl s t'"
    if i: "i \<le> length (trail s)" "\<forall>k \<in> set (take i (trail s)). lev (model s) k \<le> lvl"
      "i < length (trail s) \<longrightarrow> lvl < lev (model s) (trail s ! i)"
      and u: "unbound_in (drop i (trail s)) s t" and t': "heuristic (t\<lparr>trail := take i (trail s)\<rparr>) t'" for i t t'
  proof -
    let ?t = "t\<lparr>trail := take i (trail s)\<rparr>"
    have "\<forall>k \<in> set (drop i (trail s)). lvl < lev (model s) k"
    proof
      fix k assume k: "k \<in> set (drop i (trail s))"
      then have lt: "i < length (trail s)" by (cases "i < length (trail s)") auto
      show "lvl < lev (model s) k"
      proof (cases "k = trail s ! i")
        case False
        then have "k \<in> set (drop (Suc i) (trail s))" using k lt by (simp add: drop_nth)
        then have "lev (model s) (trail s ! i) \<le> lev (model s) k"
          by (intro levels_sorted [OF core append_take_drop_id [of "Suc i", symmetric]]) (simp add: lt take_Suc_nth)
        then show ?thesis using i(3) lt by simp
      qed (use i(3) lt in simp)
    qed
    note cut = cut_core [OF core lvl append_take_drop_id [symmetric] i(2) this u refl]
    have "watch_ok ?t"
      using st u by (intro watch_same [of "{}" s ?t]) (auto simp: stable_def unbound_in_def same_lists_def)
    then have "stable a ?t" using cut st by (simp add: stable_def)
    then have "stable a t'" using stable_heuristic t' by blast
    moreover have "backtracked lvl s t'"
      using cut(3) t' by (auto simp: backtracked_def heuristic_def same_lists_def intro: store_same_trans)
    ultimately show ?thesis by blast
  qed
  have h: "wlp (resetOptimPolarity (t\<lparr>trail := xs, varQueue := q\<rparr>)) (heuristic (t\<lparr>trail := xs\<rparr>))" for t xs q
    by (rule wlp_mono [OF resetOptimPolarity_frame]) (simp add: heuristic_def)
  have rest: "wlp (insertAll q ids) (\<lambda>q. wlp (resetOptimPolarity (t\<lparr>trail := take i (trail s), varQueue := q\<rparr>))
      (\<lambda>s'. stable a s' \<and> backtracked lvl s s'))"
    if "i \<le> length (trail s)" "\<forall>k \<in> set (take i (trail s)). lev (model s) k \<le> lvl"
      "i < length (trail s) \<longrightarrow> lvl < lev (model s) (trail s ! i)" "unbound_in (drop i (trail s)) s t" for i t q ids
    by (rule wlp_I, rule wlp_mono [OF h], rule fin [OF that])
  have "wlp (unbindLits s (drop i (trail s)) []) (\<lambda>(t, ids). wlp (insertAll (varQueue t) (rev ids)) (\<lambda>q.
      wlp (resetOptimPolarity (t\<lparr>trail := take i (trail t), varQueue := q\<rparr>)) (\<lambda>s'. stable a s' \<and> backtracked lvl s s')))"
    if i: "i \<le> length (trail s)" "\<forall>k \<in> set (take i (trail s)). lev (model s) k \<le> lvl"
      "i < length (trail s) \<longrightarrow> lvl < lev (model s) (trail s ! i)" for i
    by (rule wlp_mono [OF unbindLits_spec]) (use rest [OF i] in \<open>auto simp: unbound_in_def\<close>)
  then have "wlp (unbindLits s (drop i (trail s)) []) (\<lambda>x. wlp (case x of (t, ids) \<Rightarrow> do {
      q \<leftarrow> insertAll (varQueue t) (rev ids);
      resetOptimPolarity (t\<lparr>trail := take i (trail t), varQueue := q\<rparr>) }) (\<lambda>s'. stable a s' \<and> backtracked lvl s s'))"
    if "i \<le> length (trail s)" "\<forall>k \<in> set (take i (trail s)). lev (model s) k \<le> lvl"
      "i < length (trail s) \<longrightarrow> lvl < lev (model s) (trail s ! i)" for i
    using that by (fastforce elim!: wlp_mono)
  then show ?thesis
    unfolding cleanupBindings_def wlp_bind [of "keptLength _ _ _"] Let_def
    by (intro wlp_mono [OF keptLength_spec]) (simp add: wlp_bind [of "unbindLits _ _ _"] split_beta)
qed


section \<open>A new clause\<close>

lemma fresh_id:
  assumes "watch_ok s" and "l < length (wlist s)" and "w \<in> set (wlist s ! l)"
  shows "w_clause w < length (store s)"
  using assms by (auto simp: watch_except_def long_list_def long_ok_def)

text \<open>Adding a clause to the store, before it is watched.\<close>

lemma alloc_stable:
  assumes st: "stable a s" and c: "clause_ok a (nbVars s) cl" and s': "s' = s\<lparr>store := store s @ [cl]\<rparr>"
  shows "stable a s'"
proof -
  have nth: "store s' ! d = store s ! d" "d < length (store s')" if "d < length (store s)" for d
    using that s' by (simp_all add: nth_append)
  have e: "entry_ok a s pre l \<Longrightarrow> entry_ok a s' pre l" for pre l
    using nth s' unfolding entry_ok_def by (auto split: option.splits if_splits)
  have "entries (trail s) (entry_ok a s')"
    using st e unfolding stable_def core_def by (auto intro: entries_mono)
  moreover have "clauses_ok a s'" using st c s' by (simp add: stable_def core_def clauses_ok_def)
  ultimately have "core a s'"
    using st s' by (auto simp: stable_def core_def sizes_ok_def bindings_ok_def assumptions_ok_def)
  moreover have "bin_ok s l w \<Longrightarrow> bin_ok s' l w" "long_ok s l d \<Longrightarrow> long_ok s' l d" "pbw_ok s l d \<Longrightarrow> pbw_ok s' l d" for l w d
    using nth by (auto simp: bin_ok_def long_ok_def pbw_ok_def)
  then have "watch_ok s'"
    using st s' unfolding stable_def watch_except_def by (auto simp: long_list_def)
  ultimately show ?thesis using st s' by (simp add: stable_def reasons_ok_def)
qed

lemma watch_two:
  fixes P :: "nat \<Rightarrow> 'a list \<Rightarrow> bool"
  assumes "\<forall>l < length W. P l (W ! l)" and "i \<noteq> j"
    and "i < length W \<Longrightarrow> P i (W ! i @ [x])" and "j < length W \<Longrightarrow> P j (W ! j @ [y])"
  shows "\<forall>l < length W. P l (W[i := W ! i @ [x], j := W ! j @ [y]] ! l)"
proof (intro allI impI)
  fix l assume l: "l < length W"
  show "P l (W[i := W ! i @ [x], j := W ! j @ [y]] ! l)"
    using assms l by (cases "l = j"; cases "l = i") simp_all
qed

text \<open>Watching the last clause of the store, a propositional one.\<close>

lemma watchClause_spec:
  assumes st: "stable a s" and c: "c < length (store s)" "prop_clause (store s ! c)" "clause_ok a (nbVars s) (store s ! c)"
    "2 \<le> Len (store s ! c)"
    and fresh: "\<forall>l < length (wlist s). c \<notin> w_clause ` set (wlist s ! l)"
  shows "wlp (watchClause s c) (\<lambda>s'. stable a s' \<and> (\<exists>wb wl. s' = s\<lparr>wlistBin := wb, wlist := wl\<rparr>))"
proof -
  let ?cl = "store s ! c"
  let ?l0 = "lits ?cl ! 0" and ?l1 = "lits ?cl ! 1"
  have len: "2 \<le> length (lits ?cl)" using c(4) by (simp add: Len_def)
  obtain ls where ls: "lits ?cl = ?l0 # ?l1 # ls"
    using len by (cases "lits ?cl"; cases "tl (lits ?cl)") auto
  have ok: "0 \<le> ?l0" "0 \<le> ?l1" "?l0 \<noteq> ?l1"
  proof -
    have "lits_ok (nbVars s) (?l0 # ?l1 # ls)" "distinct (map Lit_Var (?l0 # ?l1 # ls))"
      using c(3) unfolding clause_ok_def ls [symmetric] by blast+
    then show "0 \<le> ?l0" "0 \<le> ?l1" "?l0 \<noteq> ?l1" by (auto simp: lit_ok_def)
  qed
  have "Negation ?l0 \<noteq> Negation ?l1" using ok(3) by (metis Negation_Negation)
  then have ne: "nat (Negation ?l0) \<noteq> nat (Negation ?l1)" using ok by (simp add: eq_nat_nat_iff)
  have core: "core a s" "reasons_ok {} s" "watch_ok s" using st by (simp_all add: stable_def)
  have same: "stable a (s\<lparr>wlistBin := wb, wlist := wl\<rparr>)"
    if "\<forall>l < length wb. \<forall>w \<in> set (wb ! l). bin_ok s (int l) w" "\<forall>l < length wl. long_list s (int l) (wl ! l)" for wb wl
  proof -
    let ?t = "s\<lparr>wlistBin := wb, wlist := wl\<rparr>"
    have st: "bin_ok ?t = bin_ok s" "pbw_ok ?t = pbw_ok s" "long_list ?t = long_list s"
      by (simp_all add: bin_ok_def [abs_def] pbw_ok_def [abs_def] long_ok_def long_list_def [abs_def])
    have "watch_ok ?t" using core(3) that unfolding watch_except_def st by simp
    moreover have "core a ?t" by (rule core_same [OF core(1)]) simp_all
    ultimately show ?thesis using core(2) by (simp add: stable_def reasons_ok_def)
  qed
  have old: "\<forall>l < length (wlistBin s). \<forall>w \<in> set (wlistBin s ! l). bin_ok s (int l) w"
    "\<forall>l < length (wlist s). long_list s (int l) (wlist s ! l)"
    using core(3) by (simp_all add: watch_except_def)
  have bin: "stable a (s\<lparr>wlistBin := (wlistBin s)[nat (Negation ?l0) := wlistBin s ! nat (Negation ?l0) @ [\<lparr>other = ?l1, w_clause = c\<rparr>],
      nat (Negation ?l1) := wlistBin s ! nat (Negation ?l1) @ [\<lparr>other = ?l0, w_clause = c\<rparr>]]\<rparr>)"
    (is "stable a (s\<lparr>wlistBin := ?wb\<rparr>)") if "Len ?cl = 2"
  proof -
    have "ls = []" using that ls by (metis Len_def One_nat_def Suc_1 Suc_inject length_0_conv length_Cons)
    then have pair: "set (lits ?cl) = {?l0, ?l1}" using ls by (metis list.set(1,2))
    have "\<forall>l < length ?wb. \<forall>w \<in> set (?wb ! l). bin_ok s (int l) w"
      unfolding length_list_update
      by (rule watch_two [where P = "\<lambda>l ws. \<forall>w \<in> set ws. bin_ok s (int l) w", OF old(1) ne]) (use old(1) c(1,2) pair ok in \<open>auto simp: bin_ok_def\<close>)
    then show ?thesis using same [OF _ old(2)] by simp
  qed
  have long: "stable a (s\<lparr>wlist := (wlist s)[nat (Negation ?l0) := wlist s ! nat (Negation ?l0) @ [\<lparr>other = ?l1, w_clause = c\<rparr>],
      nat (Negation ?l1) := wlist s ! nat (Negation ?l1) @ [\<lparr>other = ?l0, w_clause = c\<rparr>]]\<rparr>)"
    (is "stable a (s\<lparr>wlist := ?wl\<rparr>)")
  proof -
    have "long_ok s (Negation ?l0) c" "long_ok s (Negation ?l1) c" using c(1,2,4) by (simp_all add: long_ok_def)
    then have "\<forall>l < length ?wl. long_list s (int l) (?wl ! l)"
      unfolding length_list_update
      by (intro watch_two [where P = "\<lambda>l ws. long_list s (int l) ws", OF old(2) ne]) (use old(2) fresh ok in \<open>auto simp: long_list_def\<close>)
    then show ?thesis using same [OF old(1)] by simp
  qed
  have "\<not> PseudoBoolean ?cl" "Cardinality ?cl = 1" using c(2) by (auto simp: prop_clause_def PseudoBoolean_def)
  moreover have "\<exists>wb wl. s\<lparr>wlistBin := x\<rparr> = s\<lparr>wlistBin := wb, wlist := wl\<rparr>" for x
    by (intro exI [of _ x] exI [of _ "wlist s"]) simp
  moreover have "\<exists>wb wl. s\<lparr>wlist := x\<rparr> = s\<lparr>wlistBin := wb, wlist := wl\<rparr>" for x
    by (intro exI [of _ x] exI [of _ "wlistBin s"]) simp
  ultimately show ?thesis
    using bin long ne ok by (simp add: watchClause_def)
qed


section \<open>Forgetting clauses\<close>

definition forgot :: "valuation \<Rightarrow> solver \<Rightarrow> solver \<Rightarrow> bool" where
  "forgot a s s' \<longleftrightarrow> stable a s' \<and> trail s' = trail s \<and> model s' = model s \<and> nbVars s' = nbVars s"

lemma forgot_trans: "forgot a s t \<Longrightarrow> forgot a t u \<Longrightarrow> forgot a s u"
  by (simp add: forgot_def)

text \<open>What the invariant does not mention may change.\<close>

definition same_core :: "solver \<Rightarrow> solver \<Rightarrow> bool" where
  "same_core s s' \<longleftrightarrow> nbVars s' = nbVars s \<and> trail s' = trail s \<and> model s' = model s \<and> reason s' = reason s
     \<and> assumptions s' = assumptions s \<and> store s' = store s \<and> same_lists s s'"

lemma stable_same: "stable a s \<Longrightarrow> same_core s s' \<Longrightarrow> forgot a s s'"
  using stable_heuristic [of a s s'] by (simp add: same_core_def forgot_def heuristic_def same_lists_def)

lemma unwatchLit_spec:
  assumes "stable a s"
  shows "wlp (unwatchLit s c l) (forgot a s)"
proof -
  have "forgot a s (s\<lparr>wlist := (wlist s)[nat (Negation l) := swap_remove (wlist s ! nat (Negation l)) j]\<rparr>)"
    if j: "indexWatcher (wlist s ! nat (Negation l)) c = Some j" for j
  proof -
    let ?i = "nat (Negation l)"
    let ?t = "s\<lparr>wlist := (wlist s)[?i := swap_remove (wlist s ! ?i) j]\<rparr>"
    have "j < length ws" if "indexWatcher ws c = Some j" for ws
      using that by (induction ws arbitrary: j) (auto split: if_splits)
    then have lt: "j < length (wlist s ! ?i)" using j by blast
    have st: "bin_ok ?t = bin_ok s" "pbw_ok ?t = pbw_ok s" "long_list ?t = long_list s"
      by (simp_all add: bin_ok_def [abs_def] pbw_ok_def [abs_def] long_ok_def long_list_def [abs_def])
    have w: "watch_ok s" using assms by (simp add: stable_def)
    have "long_list s (int k) ((wlist s)[?i := swap_remove (wlist s ! ?i) j] ! k)" if k: "k < length (wlist s)" for k
    proof (cases "k = ?i")
      case True
      have "long_list s (int k) (wlist s ! k)" using w k by (simp add: watch_except_def)
      then have old: "long_list s (int k) (wlist s ! ?i)" unfolding True .
      have "mset (map w_clause (wlist s ! ?i)) = add_mset (w_clause (wlist s ! ?i ! j)) (mset (map w_clause (swap_remove (wlist s ! ?i) j)))"
        using mset_swap_remove [OF lt] by simp
      then have "mset (map w_clause (wlist s ! ?i)) = mset (w_clause (wlist s ! ?i ! j) # map w_clause (swap_remove (wlist s ! ?i) j))"
        by simp
      then have "distinct (map w_clause (wlist s ! ?i)) = distinct (w_clause (wlist s ! ?i ! j) # map w_clause (swap_remove (wlist s ! ?i) j))"
        by (rule mset_eq_imp_distinct_iff)
      then have "distinct (map w_clause (swap_remove (wlist s ! ?i) j))" using old by (simp add: long_list_def)
      moreover have "\<forall>w \<in> set (swap_remove (wlist s ! ?i) j). long_ok s (int k) (w_clause w)"
        using old set_swap_remove [OF lt] unfolding long_list_def by blast
      ultimately have "long_list s (int k) (swap_remove (wlist s ! ?i) j)" by (simp add: long_list_def)
      then show ?thesis using True k by (metis nth_list_update_eq)
    qed (use w k in \<open>simp add: watch_except_def\<close>)
    then have "watch_ok ?t" using w unfolding watch_except_def st by simp
    moreover have "core a ?t" by (rule core_same [of a s]) (use assms in \<open>simp_all add: stable_def\<close>)
    ultimately show ?thesis using assms by (simp add: forgot_def stable_def reasons_ok_def)
  qed
  then have "wlp (indexWatcher (wlist s ! nat (Negation l)) c) (\<lambda>j. forgot a s
      (s\<lparr>wlist := (wlist s)[nat (Negation l) := swap_remove (wlist s ! nat (Negation l)) j]\<rparr>))"
    by (rule wlp_eqI)
  then show ?thesis by (auto simp: unwatchLit_def)
qed

lemma forgot_then:
  assumes "wlp m (forgot a s)" and "\<And>t. stable a t \<Longrightarrow> wlp (f t) (forgot a t)"
  shows "wlp m (\<lambda>t. wlp (f t) (forgot a s))"
proof (rule wlp_mono [OF assms(1)])
  fix t assume t: "forgot a s t"
  then have "stable a t" by (simp add: forgot_def)
  from assms(2) [OF this] show "wlp (f t) (forgot a s)" by (rule wlp_mono) (rule forgot_trans [OF t])
qed

lemma unwatchClause_spec:
  assumes "stable a s"
  shows "wlp (unwatchClause s c) (forgot a s)"
proof -
  have "wlp (unwatchLit s c l) (\<lambda>t. wlp (do { l1 \<leftarrow> Get cl 1; unwatchLit t c l1 }) (forgot a s))" for l cl
    by (rule forgot_then [OF unwatchLit_spec [OF assms]]) (simp add: unwatchLit_spec)
  then show ?thesis by (simp add: unwatchClause_def)
qed

lemma reduceLoop_spec:
  assumes un: "\<And>s c. stable a s \<Longrightarrow> wlp (unwatch s c) (forgot a s)" and "stable a s"
  shows "wlp (map_option fst (reduceLoop keep unwatch s i n r)) (forgot a s)"
  using assms(2)
proof (induction n arbitrary: s i r)
  case 0
  then show ?case by (simp add: forgot_def)
next
  case (Suc n)
  have one: "wlp (map_option fst (reduceLoop keep unwatch s (Suc i) n r)) (forgot a s)" using Suc by blast
  have two: "wlp (unwatch (s\<lparr>learned := ls\<rparr>) c) (\<lambda>t. wlp (map_option fst (reduceLoop keep unwatch t (Suc i) n (Suc r))) (forgot a s))"
    for ls c
  proof -
    have f: "forgot a s (s\<lparr>learned := ls\<rparr>)" using Suc.prems by (rule stable_same) (simp add: same_core_def same_lists_def)
    then have "wlp (unwatch (s\<lparr>learned := ls\<rparr>) c) (\<lambda>t. wlp (map_option fst (reduceLoop keep unwatch t (Suc i) n (Suc r)))
        (forgot a (s\<lparr>learned := ls\<rparr>)))"
      by (intro forgot_then un Suc.IH) (simp add: forgot_def)
    then show ?thesis by (auto elim!: wlp_mono intro: forgot_trans [OF f])
  qed
  show ?case
    using one two by (auto simp: map_option_bind)
qed


lemma reduceLearned_spec:
  assumes "stable a s"
  shows "wlp (reduceLearned s) (forgot a s)"
proof -
  have go: "wlp (reduceLoop keep unwatchClause t 0 n 0) (\<lambda>x. wlp (case x of (u, r) \<Rightarrow>
      Some (u\<lparr>learned := take (length (learned u) - r) (learned u)\<rparr>)) (forgot a s))"
    if t: "forgot a s t" for t keep n
  proof -
    have "stable a t" using t by (simp add: forgot_def)
    then have "wlp (map_option fst (reduceLoop keep unwatchClause t 0 n 0)) (forgot a t)"
      using unwatchClause_spec by (intro reduceLoop_spec)
    moreover have "forgot a s (u\<lparr>learned := l\<rparr>)" if "forgot a t u" for u l
    proof -
      have u: "forgot a s u" using t that by (rule forgot_trans)
      then have "forgot a u (u\<lparr>learned := l\<rparr>)"
        by (intro stable_same) (simp_all add: forgot_def same_core_def same_lists_def)
      then show ?thesis by (rule forgot_trans [OF u])
    qed
    ultimately show ?thesis by (auto simp: wlp_iff)
  qed
  have learned: "forgot a s (s\<lparr>learned := l\<rparr>)" "forgot a s (postponeNbMax (s\<lparr>learned := l\<rparr>))" for l
    by (rule stable_same [OF assms]; simp add: same_core_def same_lists_def postponeNbMax_def)+
  show ?thesis
    using go [OF learned(1)] go [OF learned(2)]
    by (auto simp: reduceLearned_def sortLearned_def Let_def)
qed

section \<open>After a propagation\<close>

lemma restart_top:
  assumes "stable a s" and "backtracked 1 t s"
  shows "pinv a 1 {} s"
  using assms by (auto simp: pinv_stable backtracked_def)

lemma backtracked_nbVars: "backtracked lvl s t \<Longrightarrow> nbVars t = nbVars s"
  by (simp add: backtracked_def)

text \<open>A fresh decision, or the end of the search.\<close>

definition nextOk :: "valuation \<Rightarrow> declevel \<Rightarrow> solver \<Rightarrow> lit \<Rightarrow> bool" where
  "nextOk a lvl s l \<longleftrightarrow> core a s \<and> (l = - 1 \<or> unifyPre a lvl s l)"

lemma nextOk_unify: "unifyPre a lvl s l \<Longrightarrow> nextOk a lvl s l"
  by (simp add: nextOk_def unifyPre_def)

lemma chooseLit_next:
  assumes p: "pinv a lvl {} s"
  shows "wlp (chooseLit s) (\<lambda>(l, s'). nextOk a (lvl + 1) s' l \<and> nbVars s' = nbVars s)"
proof -
  have sz: "sizes_ok s" using p by (simp add: pinv_def core_def)
  have "unifyPre a (lvl + 1) t l" if h: "heuristic s t" and u: "unboundLit s l" for t l
  proof -
    have t: "stable a t" "model t = model s" "trail t = trail s" "nbVars t = nbVars s"
      using p h stable_heuristic by (auto simp: pinv_stable heuristic_def)
    have i: "nat (Lit_Var l) < length (model s)" "length (reason t) = length (model s)"
      using core_index [of a s l] u p h by (auto simp: unboundLit_def pinv_def core_def sizes_ok_def heuristic_def)
    then have "reason t ! nat (Lit_Var l) = None"
      using t u by (auto simp: stable_def reasons_ok_def unboundLit_def)
    moreover have "bindable a t (lvl + 1) None l"
      using u t p by (auto simp: bindable_def unboundLit_def pinv_def)
    ultimately show ?thesis
      using t(1) by (simp add: unifyPre_def stable_def reasons_ok_def)
  qed
  then show ?thesis
    using core_heuristic [OF pinv_core [OF p]]
    by (intro wlp_mono [OF chooseLit_spec [OF sz]]) (auto simp: nextOk_def heuristic_def)
qed

text \<open>The search ends a turn without an answer, or with Unsat when no assignment is at stake.\<close>

definition outcome_ok :: "valuation \<Rightarrow> solver \<Rightarrow> solver \<times> outcome \<Rightarrow> bool" where
  "outcome_ok a s = (\<lambda>(s', r). nbVars s' = nbVars s \<and> (case r of
     Done st \<Rightarrow> st = Indet \<and> pinv a 1 {} s' \<or> st = Unsat \<and> \<not> coherent a
   | Next l lvl \<Rightarrow> nextOk a lvl s' l))"

lemma forgetClauses_spec:
  assumes "stable a s"
  shows "wlp (forgetClauses s) (forgot a s)"
proof -
  have f: "forgot a s (s\<lparr>idxReduce := i\<rparr>)" for i
    by (rule stable_same [OF assms]) (simp add: same_core_def same_lists_def)
  have "wlp (reduceLearned (s\<lparr>idxReduce := i\<rparr>)) (\<lambda>t. forgot a s (bumpNbMax t))" for i
  proof (rule wlp_mono [OF reduceLearned_spec])
    show "stable a (s\<lparr>idxReduce := i\<rparr>)" using f by (simp add: forgot_def)
    fix t assume "forgot a (s\<lparr>idxReduce := i\<rparr>) t"
    then have t: "forgot a s t" by (rule forgot_trans [OF f])
    have "forgot a t (bumpNbMax t)"
      using t by (intro stable_same) (simp_all add: forgot_def same_core_def same_lists_def bumpNbMax_def)
    then show "forgot a s (bumpNbMax t)" by (rule forgot_trans [OF t])
  qed
  then show ?thesis
    using f [of "idxReduce s"] by (auto simp: forgetClauses_def)
qed

lemma forgot_pinv: "pinv a lvl {} s \<Longrightarrow> forgot a s t \<Longrightarrow> pinv a lvl {} t"
  by (simp add: pinv_stable forgot_def)

lemma afterPropagation_spec:
  assumes p: "pinv a lvl {} s"
  shows "wlp (afterPropagation s lvl) (outcome_ok a s)"
proof -
  have st: "stable a s" using p by (simp add: pinv_stable)
  have st': "stable a (s\<lparr>lbdSt := x\<rparr>)" for x
    using stable_same [OF st, of "s\<lparr>lbdSt := x\<rparr>"] by (simp add: same_core_def same_lists_def forgot_def)
  have "wlp (cleanupBindings (s\<lparr>lbdSt := x\<rparr>) 1) (\<lambda>t. outcome_ok a s (t, Done Indet))" for x
    by (rule wlp_mono [OF cleanupBindings_spec [OF st']])
      (use restart_top in \<open>auto simp: outcome_ok_def backtracked_nbVars\<close>)
  moreover have "wlp (forgetClauses s) (\<lambda>t. wlp (chooseLit t) (\<lambda>(l, u). outcome_ok a s (u, Next l (lvl + 1))))"
  proof (rule wlp_mono [OF forgetClauses_spec [OF st]])
    fix t assume t: "forgot a s t"
    show "wlp (chooseLit t) (\<lambda>(l, u). outcome_ok a s (u, Next l (lvl + 1)))"
      by (rule wlp_mono [OF chooseLit_next [OF forgot_pinv [OF p t]]]) (use t in \<open>auto simp: outcome_ok_def forgot_def\<close>)
  qed
  ultimately show ?thesis
    by (auto simp: afterPropagation_def elim!: wlp_mono)
qed

end
