(* ===== verification/SearchLoop.thy ===== *)
theory SearchLoop
  imports Search
begin

text \<open>
  The loops of the search, whatever they are proved to keep: \<open>N\<close> holds before a literal is bound
  at a level, \<open>R\<close> before the search starts or restarts, and \<open>A\<close> of the answer.
\<close>

locale search_loop =
  fixes N :: "declevel \<Rightarrow> solver \<Rightarrow> lit \<Rightarrow> bool" and R :: "solver \<Rightarrow> bool" and A :: "solver \<Rightarrow> status \<Rightarrow> bool"
  assumes turn: "N lvl s l \<Longrightarrow> l \<noteq> - 1 \<Longrightarrow> wlp (unifyLiteral s l lvl) (\<lambda>(t, confl).
      wlp (case confl of None \<Rightarrow> afterPropagation t lvl | Some c \<Rightarrow> afterConflict t c lvl) (\<lambda>(u, r). case r of
        Done st \<Rightarrow> if st = Indet then R u else A u st
      | Next l lvl \<Rightarrow> N lvl u l))"
    and found: "N lvl s (- 1) \<Longrightarrow> A s Sat"
    and decide: "R s \<Longrightarrow> wlp (chooseLit s) (\<lambda>(l, t). N 2 t l)"
    and rebuild: "R s \<Longrightarrow> wlp (rebuildOrderHeap (s\<lparr>NbRestarts := n\<rparr>)) R"
    and status: "R s \<Longrightarrow> R (s\<lparr>sStatus := st\<rparr>)" "A s st \<Longrightarrow> A (s\<lparr>sStatus := st'\<rparr>) st"
begin

definition ended :: "solver \<Rightarrow> status \<Rightarrow> bool" where
  "ended s st \<longleftrightarrow> (if st = Indet then R s else A s st)"

lemma propagateAndSearch: "N lvl s l \<Longrightarrow> wlp (propagateAndSearch s l lvl) (\<lambda>(t, st). ended t st)"
proof (rule wlp_eqI)
  fix x assume "propagateAndSearch s l lvl = Some x" "N lvl s l"
  then show "case x of (t, st) \<Rightarrow> ended t st"
  proof (induction rule: propagateAndSearch.raw_induct [rotated, consumes 1, case_names 1])
    case (1 F s l lvl x)
    show ?case
    proof (cases "l = - 1")
      case True
      then show ?thesis using "1.hyps" "1.prems" found by (auto simp: ended_def)
    next
      case False
      then have run: "do {
          (s, confl) \<leftarrow> unifyLiteral s l lvl;
          (s, r) \<leftarrow> (case confl of None \<Rightarrow> afterPropagation s lvl | Some c \<Rightarrow> afterConflict s c lvl);
          case r of Done st \<Rightarrow> Some (s, st) | Next l lvl \<Rightarrow> F s l lvl } = Some x" using "1.hyps" by simp
      then obtain t confl where t: "unifyLiteral s l lvl = Some (t, confl)" by (auto simp: bind_eq_Some_conv)
      let ?m = "case confl of None \<Rightarrow> afterPropagation t lvl | Some c \<Rightarrow> afterConflict t c lvl"
      have "(do { (s, r) \<leftarrow> ?m; case r of Done st \<Rightarrow> Some (s, st) | Next l lvl \<Rightarrow> F s l lvl }) = Some x"
        using run unfolding t by simp
      then obtain u r where u: "?m = Some (u, r)" "(case r of Done st \<Rightarrow> Some (u, st) | Next l lvl \<Rightarrow> F u l lvl) = Some x"
        unfolding bind_eq_Some_conv by auto
      have "case r of Done st \<Rightarrow> if st = Indet then R u else A u st | Next l lvl \<Rightarrow> N lvl u l"
        using wlp_SomeD [OF turn [OF "1.prems" False] t] wlp_SomeD [of ?m _ "(u, r)"] u(1) by fastforce
      then show ?thesis using u(2) "1.IH" by (cases r) (auto simp: ended_def)
    qed
  qed
qed

lemma search: "R s \<Longrightarrow> wlp (search s) (\<lambda>t. ended t (sStatus t))"
proof -
  assume "R s"
  have "wlp (propagateAndSearch t l 2) (\<lambda>x. wlp (case x of (u, st) \<Rightarrow> Some (u\<lparr>sStatus := st\<rparr>)) (\<lambda>t. ended t (sStatus t)))"
    if "N 2 t l" for t l
    by (rule wlp_mono [OF propagateAndSearch [OF that]]) (use status in \<open>auto simp: ended_def split: if_splits\<close>)
  then show ?thesis
    unfolding search_def by (intro wlp_first [OF decide [OF \<open>R s\<close>]]) (auto elim!: wlp_mono)
qed

lemma solveLoop: "ended s (sStatus s) \<Longrightarrow> wlp (solveLoop s) (\<lambda>t. A t (sStatus t))"
proof (rule wlp_eqI)
  fix x assume "solveLoop s = Some x" "ended s (sStatus s)"
  then show "A x (sStatus x)"
  proof (induction rule: solveLoop.raw_induct [rotated, consumes 1, case_names 1])
    case (1 F s x)
    show ?case
    proof (cases "sStatus s = Indet")
      case False
      then show ?thesis using "1.hyps" "1.prems" by (simp add: ended_def)
    next
      case True
      let ?next = "\<lambda>v. if sStatus v = Indet then rebuildOrderHeap (v\<lparr>NbRestarts := NbRestarts v + 1\<rparr>) else Some v"
      obtain v where v: "search s = Some v" "(?next v \<bind> F) = Some x"
        using True "1.hyps" by (cases "search s") simp_all
      obtain u where u: "?next v = Some u" "F u = Some x" using v(2) by (cases "?next v") simp_all
      have e: "ended v (sStatus v)" using wlp_SomeD [OF search v(1)] True "1.prems" by (simp add: ended_def)
      have "ended u (sStatus u)"
      proof (cases "sStatus v = Indet")
        case True
        then have "rebuildOrderHeap (v\<lparr>NbRestarts := NbRestarts v + 1\<rparr>) = Some u" using u(1) by simp
        then have "sStatus u = Indet" "R u"
          using True e wlp_SomeD [OF rebuild] by (auto simp: rebuildOrderHeap_def bind_eq_Some_conv ended_def split: if_splits)
        then show ?thesis by (simp add: ended_def)
      qed (use u(1) e in simp)
      then show ?thesis by (rule "1.IH" [OF u(2)])
    qed
  qed
qed

lemma Solve:
  assumes "R s" and "sStatus s \<noteq> Unsat"
  shows "wlp (Solve s) (\<lambda>(t, st). \<exists>u. A u st \<and> (st = Sat \<longrightarrow> t = u\<lparr>lastModel := Some (model u)\<rparr>))"
proof -
  have "ended (s\<lparr>sStatus := Indet\<rparr>) (sStatus (s\<lparr>sStatus := Indet\<rparr>))" using status(1) [OF assms(1)] by (simp add: ended_def)
  from solveLoop [OF this] show ?thesis
    using assms(2) by (auto simp: Solve_def Let_def elim!: wlp_mono)
qed

end

end
