(* ===== verification/SearchProof.thy ===== *)
theory SearchProof
  imports Backjump SearchLoop
begin

text \<open>
  The search never answers \<open>Unsat\<close> on a problem that has a model: this is the soundness of the
  answer. The proof fixes one model and follows the invariant through every step of the search.
\<close>

section \<open>After a conflict\<close>

lemma nbVars_setUnsat [simp]: "nbVars (setUnsat s) = nbVars s"
  by (simp add: setUnsat_def certify_def)

text \<open>No conflict is possible at the top level.\<close>

lemma no_top_conflict:
  assumes p: "pinv a 1 X s" and coh: "coherent a"
  shows "\<not> confl_ok a 1 s c"
proof
  assume "confl_ok a 1 s c"
  then obtain k where c: "c < length (store s)" and k: "k \<in> set (lits (store s ! c))" "isFalse (model s) k" "a k"
    by (auto simp: confl_ok_def)
  have "Negation k \<in> set (trail s)" "0 \<le> k" using clause_false_lit [OF p c k(1)] k(2) by simp_all
  moreover from this have "lev (model s) (Negation k) = 1"
    using core_trail(6) [OF pinv_core [OF p]] p by (force simp: pinv_def)
  ultimately have "a (Negation k)" using core_trail(5) [OF pinv_core [OF p]] by blast
  then show False using coherentD [OF coh] k(3) \<open>0 \<le> k\<close> by blast
qed

text \<open>The binding that \<open>unifyLiteral\<close> overwrites does not matter.\<close>

lemma unifyLiteral_overwrite:
  "unifyLiteral (s\<lparr>model := (model s)[nat (Lit_Var l) := x]\<rparr>) l lvl = unifyLiteral s l lvl"
  by (simp add: unifyLiteral_def puti_def Let_def)

text \<open>A literal that \<open>a\<close> makes true, bound at the top level.\<close>

lemma unifyPre_top:
  assumes p: "pinv a 1 {} s" and l: "lit_ok (nbVars s) l" "a l" "model s ! nat (Lit_Var l) = 0"
  shows "unifyPre a 1 s l"
proof -
  have i: "nat (Lit_Var l) < length (reason s)"
    using core_index [OF pinv_core [OF p] l(1)] p by (simp add: pinv_def core_def sizes_ok_def)
  then have "reason s ! nat (Lit_Var l) = None" using p l(3) by (auto simp: pinv_def reasons_ok_def)
  then show ?thesis
    using p l by (auto simp: unifyPre_def pinv_def reasons_ok_def bindable_def unboundLit_def)
qed

lemma unify_top:
  assumes p: "pinv a 1 {} s" and l: "lit_ok (nbVars s) l" "a l" "model s ! nat (Lit_Var l) = 0"
  shows "wlp (unifyLiteral s l 1) (\<lambda>(s', r). pinv a 1 {} s' \<and> (r = None \<or> \<not> coherent a) \<and> nbVars s' = nbVars s)"
  by (rule wlp_mono [OF unifyLiteral_spec [OF unifyPre_top [OF assms]]]) (use no_top_conflict in \<open>fastforce\<close>)

text \<open>A learned unit, as far as the backjump and the propagation go.\<close>

lemma learnUnit_wlp:
  assumes p: "pinv a lvl {} s" and lvl: "1 < lvl" and l: "lit_ok (nbVars s) l" "isFalse (model s) l" "lev (model s) l = lvl"
    and cleanup: "\<And>x. wlp (cleanupBindings (s\<lparr>lbdSt := x\<rparr>) 1) (\<lambda>t. stable a t \<and> backtracked 1 (s\<lparr>lbdSt := x\<rparr>) t \<and> P t)"
    and rest: "\<And>t line. stable a t \<Longrightarrow> pinv a 1 {} t \<Longrightarrow> nbVars t = nbVars s \<Longrightarrow> model t ! nat (Lit_Var l) = 0 \<Longrightarrow> P t \<Longrightarrow>
      wlp (unifyLiteral (certify t line) l 1) (\<lambda>(u, confl). if confl \<noteq> None then Q (setUnsat u, Done Unsat)
        else wlp (rebuildOrderHeap u) (\<lambda>v. wlp (chooseLit v) (\<lambda>(k, w). Q (w, Next k 2))))"
  shows "wlp (learnUnit s l) Q"
proof -
  let ?v = "nat (Lit_Var l)"
  have core: "core a s" using p by (rule pinv_core)
  note i = core_index [OF core l(1)]
  have ne: "l \<noteq> - 1" using i by simp
  have main: "wlp (do {
      s \<leftarrow> addLearnedUnit t l;
      m \<leftarrow> puti (model s) (Lit_Var l) (lvlToSignedLvl l 1);
      (s, confl) \<leftarrow> unifyLiteral (s\<lparr>model := m\<rparr>) l 1;
      if confl \<noteq> None then Some (setUnsat s, Done Unsat)
      else do { s \<leftarrow> rebuildOrderHeap s; (l, s) \<leftarrow> chooseLit s; Some (s, Next l 2) } }) Q"
    if t: "stable a t" "backtracked 1 (s\<lparr>lbdSt := x\<rparr>) t" "P t" for t x
  proof -
    have nb: "nbVars t = nbVars s" using backtracked_nbVars [OF t(2)] by simp
    have "Negation l \<in> set (trail s)" using false_in_trail [OF core l(1)] l(2) by simp
    then have u: "model t ! ?v = 0" using t(2) l(3) lvl i by (auto simp: backtracked_def)
    have pt: "pinv a 1 {} t" using restart_top [OF t(1,2)] .
    have iv: "?v < length (model t)"
      using pt nb i core_nbVars [OF core] by (simp add: pinv_def core_def sizes_ok_def)
    let ?c = "certify t (showInt (Lit_Int l) @ '' 0'')"
    have mc: "model ?c = model t" by (simp add: certify_def)
    let ?m = "(model t)[?v := lvlToSignedLvl l 1]"
    have add: "addLearnedUnit t l = Some (?c\<lparr>model := ?m\<rparr>)"
      using iv i by (auto simp: addLearnedUnit_def puti_def certify_def nat_less_iff)
    have put: "puti (model (?c\<lparr>model := ?m\<rparr>)) (Lit_Var l) (lvlToSignedLvl l 1) = Some ?m"
      using iv i by (auto simp: puti_def nat_less_iff)
    have un: "unifyLiteral (?c\<lparr>model := ?m, model := ?m\<rparr>) l 1 = unifyLiteral ?c l 1"
      using unifyLiteral_overwrite [of ?c l _ 1] mc by simp
    have "wlp (unifyLiteral ?c l 1) (\<lambda>x. wlp (case x of (s', confl) \<Rightarrow> if confl \<noteq> None then Some (setUnsat s', Done Unsat)
      else do { s \<leftarrow> rebuildOrderHeap s'; (l, s) \<leftarrow> chooseLit s; Some (s, Next l 2) }) Q)"
      by (rule wlp_mono [OF rest [OF t(1) pt nb u t(3)]]) (auto elim!: wlp_mono split: if_splits)
    then show ?thesis
      by (simp only: add put un Option.bind.simps wlp_bind [of "unifyLiteral _ _ _"])
  qed
  have clean: "wlp (cleanupBindings (s\<lparr>lbdSt := x\<rparr>) 1) (\<lambda>t. wlp (do {
      s \<leftarrow> addLearnedUnit t l;
      m \<leftarrow> puti (model s) (Lit_Var l) (lvlToSignedLvl l 1);
      (s, confl) \<leftarrow> unifyLiteral (s\<lparr>model := m\<rparr>) l 1;
      if confl \<noteq> None then Some (setUnsat s, Done Unsat)
      else do { s \<leftarrow> rebuildOrderHeap s; (l, s) \<leftarrow> chooseLit s; Some (s, Next l 2) } }) Q)" for x
    by (rule wlp_mono [OF cleanup]) (use main in auto)
  show ?thesis
  proof (cases "litStatus s l")
    case None
    then show ?thesis using ne by (cases "geti (model s) (Lit_Var l)") (simp_all add: learnUnit_def)
  next
    case (Some st)
    have g: "geti (model s) (Lit_Var l) = Some (model s ! ?v)" using i by (auto simp: geti_def nat_less_iff)
    have no: "(False \<or> \<bar>model s ! ?v\<bar> = 1 \<and> st = Unsat) = False" using l(3) lvl by simp
    from clean [of "addLbd (lbdSt s) 1"] show ?thesis
      by (simp only: learnUnit_def g Some no ne if_False Option.bind.simps wlp_bind [of "cleanupBindings _ _"])
  qed
qed

lemma learnUnit_spec:
  assumes p: "pinv a lvl {} s" and lvl: "1 < lvl" and l: "lit_ok (nbVars s) l" "a l"
    "isFalse (model s) l" "lev (model s) l = lvl"
  shows "wlp (learnUnit s l) (outcome_ok a s)"
proof (rule learnUnit_wlp [OF p lvl l(1,3,4), where P = "\<lambda>_. True"])
  fix x
  have "stable a (s\<lparr>lbdSt := x\<rparr>)"
    using p stable_same [of a s "s\<lparr>lbdSt := x\<rparr>"] by (simp add: pinv_stable same_core_def same_lists_def forgot_def)
  from cleanupBindings_spec [OF this] show "wlp (cleanupBindings (s\<lparr>lbdSt := x\<rparr>) 1)
      (\<lambda>t. stable a t \<and> backtracked 1 (s\<lparr>lbdSt := x\<rparr>) t \<and> True)" by simp
next
  fix t line
  assume t: "stable a t" "pinv a 1 {} t" "nbVars t = nbVars s" "model t ! nat (Lit_Var l) = 0"
  have pc: "pinv a 1 {} (certify t line)" "nbVars (certify t line) = nbVars s" "model (certify t line) = model t"
    using t(1-3) certify_frame [of t line] stable_heuristic [OF t(1)] by (auto simp: pinv_stable heuristic_def)
  have end_: "wlp (rebuildOrderHeap u) (\<lambda>v. wlp (chooseLit v) (\<lambda>(k, w). outcome_ok a s (w, Next k 2)))"
    if u: "pinv a 1 {} u" "nbVars u = nbVars s" for u
  proof (rule wlp_mono [OF rebuildOrderHeap_frame])
    fix v assume "heuristic u v"
    then have "pinv a 1 {} v" "nbVars v = nbVars s"
      using u stable_heuristic by (auto simp: pinv_stable heuristic_def)
    then show "wlp (chooseLit v) (\<lambda>(k, w). outcome_ok a s (w, Next k 2))"
      using chooseLit_next [of a 1 v] by (auto simp: outcome_ok_def elim!: wlp_mono)
  qed
  have "wlp (unifyLiteral (certify t line) l 1) (\<lambda>(s', r). pinv a 1 {} s' \<and> (r = None \<or> \<not> coherent a) \<and> nbVars s' = nbVars (certify t line))"
    using unify_top [OF pc(1)] l(1,2) t(4) pc(2,3) by simp
  then show "wlp (unifyLiteral (certify t line) l 1) (\<lambda>(u, confl). if confl \<noteq> None then outcome_ok a s (setUnsat u, Done Unsat)
        else wlp (rebuildOrderHeap u) (\<lambda>v. wlp (chooseLit v) (\<lambda>(k, w). outcome_ok a s (w, Next k 2))))"
    by (rule wlp_mono) (use end_ pc(2) in \<open>auto simp: outcome_ok_def\<close>)
qed


text \<open>The learned clause after the backjump: its first literal is implied.\<close>

lemma asserting:
  assumes p: "pinv a lvl {} s" and lo: "learnt_ok a lvl s cl" and t: "stable a t" and c: "c < length (store t)"
    and lits: "csame cl (store t ! c)" and b: "backtracked (lev (model s) (lits cl ! 1)) s' t"
    and s': "trail s' = trail s" "model s' = model s" "nbVars s' = nbVars s"
  shows "unifyPre a (lev (model s) (lits cl ! 1))
     (t\<lparr>reason := (reason t)[nat (Lit_Var (lits cl ! 0)) := Some c], store := (store t)[c := lock (store t ! c)]\<rparr>) (lits cl ! 0)"
proof -
  let ?l = "lits cl ! 0"
  let ?j = "lev (model s) (lits cl ! 1)"
  let ?v = "nat (Lit_Var ?l)"
  let ?u = "t\<lparr>reason := (reason t)[?v := Some c], store := (store t)[c := lock (store t ! c)]\<rparr>"
  have core: "core a s" using p by (rule pinv_core)
  have ct: "core a t" using t by (simp add: stable_def)
  have nb: "nbVars t = nbVars s" using b s'(3) by (simp add: backtracked_def)
  have len: "2 \<le> length (lits cl)" using lo by (simp add: learnt_ok_def Len_def)
  then obtain ls where ls: "lits cl = ?l # lits cl ! 1 # ls"
    by (cases "lits cl"; cases "tl (lits cl)") auto
  have ok: "lit_ok (nbVars s) k" "isFalse (model s) k" if "k \<in> set (lits cl)" for k
    using lo that by (auto simp: learnt_ok_def clause_ok_def)
  have l: "?l \<in> set (lits cl)" and l1: "lits cl ! 1 \<in> set (tl (lits cl))" "lits cl ! 1 \<in> set (lits cl)"
    by (metis ls list.set_intros(1), metis ls list.sel(3) list.set_intros(1), metis ls list.set_intros(1,2))
  note i = core_index [OF core ok(1) [OF l]]
  have in_trail: "Negation k \<in> set (trail s)" if "k \<in> set (lits cl)" for k
    using false_in_trail [OF core ok(1) [OF that]] ok(2) [OF that] by simp
  have lev: "lev (model s) ?l = lvl" "?j < lvl" "\<forall>k \<in> set (tl (lits cl)). lev (model s) k \<le> ?j"
    using lo l1(1) by (auto simp: learnt_ok_def)
  have j1: "1 \<le> ?j" using ok(2) [OF l1(2)] by (auto simp: isFalse_def)
  have neg: "Lit_Var (Negation k) = Lit_Var k" if "k \<in> set (lits cl)" for k
    using ok(1) [OF that] by (simp add: lit_ok_def)
  have unb: "model t ! ?v = 0"
    using b s' in_trail [OF l] lev(1,2) neg [OF l] by (auto simp: backtracked_def)
  have le: "\<forall>k \<in> set (trail t). lev (model t) k \<le> ?j"
    using b s' by (auto simp: backtracked_def)
  have set_eq: "set (lits (store t ! c)) = set (lits cl)" using csame_lits(1) [OF lits] .
  have "implied a (store t ! c) (trail t) ?l"
  proof -
    have "wsat a cl" "prop_clause cl" using lo by (simp_all add: learnt_ok_def clause_ok_def)
    then obtain k where k: "k \<in> set (lits cl)" "a k" using prop_clause_wsat by blast
    show ?thesis
    proof (cases "k = ?l")
      case False
      then have "k \<in> set (tl (lits cl))" using k(1) ls by (metis list.sel(3) set_ConsD)
      then have "lev (model s) (Negation k) \<le> ?j" using lev(3) neg [OF k(1)] by simp
      then have "Negation k \<in> set (trail t)" using b s' in_trail [OF k(1)] by (simp add: backtracked_def)
      then show ?thesis using k set_eq by (auto simp: implied_def)
    qed (use k in \<open>simp add: implied_def\<close>)
  qed
  then have bt: "bindable a t ?j (Some c) ?l"
    using unb le j1 c ok(1) [OF l] nb by (simp add: bindable_def unboundLit_def)
  have same: "store_same (store t) (store ?u)" "map lits (store ?u) = map lits (store t)"
    using c by (auto simp: map_update list_update_same_conv lock_def intro!: store_same_put csame_lock [unfolded lock_def])
  have vr: "?v < length (reason t)" using i nb ct core by (simp add: core_def sizes_ok_def)
  have wu: "watch_ok ?u"
    using t same by (intro watch_same [of "{}" t ?u]) (auto simp: stable_def same_lists_def)
  have ru: "reasons_ok {Lit_Var ?l} ?u"
    using t i by (auto simp: stable_def reasons_ok_def nth_list_update)
  have unused: "nat (Lit_Var k) \<noteq> ?v" if "k \<in> set (trail t)" for k
    using trail_bound [OF ct that] unb by auto
  have "core a ?u"
  proof -
    have "entries (trail t) (entry_ok a ?u)"
    proof (rule entries_mono)
      show "entries (trail t) (entry_ok a t)" using ct by (simp add: core_def)
      fix pre k assume k: "k \<in> set (trail t)" "set pre \<subseteq> set (trail t)" "entry_ok a t pre k"
      have "d < length (store ?u) \<and> implied a (store ?u ! d) pre k \<longleftrightarrow> d < length (store t) \<and> implied a (store t ! d) pre k" for d
        using store_same_length [OF same(1)] implied_csame [OF store_same_nth [OF same(1)]] by auto
      then show "entry_ok a ?u pre k"
        using k(3) unused [OF k(1)] unfolding entry_ok_def by (simp split: option.splits)
    qed
    moreover have "clauses_ok a ?u" using ct clauses_ok_same [of a t ?u] same(1) by (simp add: core_def)
    ultimately show ?thesis
      using ct by (auto simp: core_def sizes_ok_def bindings_ok_def assumptions_ok_def)
  qed
  moreover have "bindable a ?u ?j (Some c) ?l"
    using bt c implied_csame [of "store t ! c" "lock (store t ! c)"] by (simp add: bindable_def unboundLit_def)
  ultimately show ?thesis
    using wu ru vr by (simp add: unifyPre_def)
qed


text \<open>The clause that was added, watched and bumped.\<close>

definition added :: "valuation \<Rightarrow> solver \<Rightarrow> cid \<Rightarrow> clause \<Rightarrow> solver \<Rightarrow> bool" where
  "added a s c cl u \<longleftrightarrow> stable a u \<and> trail u = trail s \<and> model u = model s \<and> nbVars u = nbVars s
     \<and> csame cl (store u ! c) \<and> lits (store u ! c) = lits cl \<and> c < length (store u)"

lemma addLearned_spec:
  assumes t: "stable a t" and cl: "clause_ok a (nbVars t) cl" "prop_clause cl" "2 \<le> Len cl"
    and s1: "s1 = t\<lparr>store := store t @ [cl], lbdSt := x\<rparr>" and c: "c = length (store t)"
  shows "wlp (addLearned s1 c) (added a t c cl)"
proof -
  have st0: "stable a (t\<lparr>store := store t @ [cl]\<rparr>)" by (rule alloc_stable [OF t cl(1) refl])
  let ?s = "s1\<lparr>learned := learned s1 @ [c]\<rparr>"
  have s: "stable a ?s" "store ?s = store t @ [cl]" "wlist ?s = wlist t" "trail ?s = trail t" "model ?s = model t" "nbVars ?s = nbVars t"
    using stable_same [OF st0, of ?s] s1 by (simp_all add: same_core_def same_lists_def forgot_def)
  have at: "store ?s ! c = cl" "c < length (store ?s)" using s(2) c by (simp_all add: nth_append)
  have fresh: "\<forall>l < length (wlist ?s). c \<notin> w_clause ` set (wlist ?s ! l)"
    using fresh_id [of t] t s(3) c by (fastforce simp: stable_def)
  have "wlp (watchClause ?s c) (\<lambda>u. stable a u \<and> (\<exists>wb wl. u = ?s\<lparr>wlistBin := wb, wlist := wl\<rparr>))"
    by (rule watchClause_spec [OF s(1)]) (use at cl s(6) fresh in simp_all)
  then have watch: "wlp (watchClause ?s c) (\<lambda>u. stable a u \<and> store u = store t @ [cl] \<and> trail u = trail t \<and> model u = model t \<and> nbVars u = nbVars t)"
    by (rule wlp_mono) (use s1 in auto)
  have bump: "added a t c cl (certify v line)" if u: "stable a u" "store u = store t @ [cl]" "trail u = trail t" "model u = model t" "nbVars u = nbVars t"
    and v: "heuristic u v" for u v line
  proof -
    have h: "heuristic u (certify v line)" using heuristic_trans [OF v certify_frame] .
    have "c < length (store u)" "store u ! c = cl" using u(2) c by (simp_all add: nth_append)
    then have "csame cl (store (certify v line) ! c)" "lits (store (certify v line) ! c) = lits cl" "c < length (store (certify v line))"
      using h store_same_nth store_same_length unfolding heuristic_def by (metis, metis nth_map, metis)
    then show ?thesis using stable_heuristic [OF u(1) h] h u by (simp add: added_def heuristic_def)
  qed
  show ?thesis
    unfolding addLearned_def
    apply (rule wlp_first [OF watch])
    apply (rule wlp_first [OF clauseBumpActivity_frame])
    apply (rule wlp_then)
    using bump by auto
qed

text \<open>A learned clause, as far as the backjump goes.\<close>

lemma learnLong_wlp:
  assumes add: "\<And>x. wlp (addLearned (s\<lparr>lbdSt := x\<rparr>) c) (\<lambda>u. lits (store u ! c) = ls \<and> model u = m \<and> P u)" and ls: "2 \<le> length ls"
    and cleanup: "\<And>u. P u \<Longrightarrow> wlp (cleanupBindings u (lev m (ls ! 1))) (\<lambda>t.
      Q (t\<lparr>reason := (reason t)[nat (Lit_Var (ls ! 0)) := Some c], store := (store t)[c := lock (store t ! c)]\<rparr>, Next (ls ! 0) (lev m (ls ! 1))))"
  shows "wlp (learnLong s c) Q"
proof -
  have rest: "wlp (do {
      (lvl, l) \<leftarrow> backtrackData (store u ! c) (model u);
      s \<leftarrow> cleanupBindings u lvl;
      rs \<leftarrow> puti (reason s) (Lit_Var l) (Some c);
      cl \<leftarrow> getC s c;
      s \<leftarrow> updC (s\<lparr>reason := rs\<rparr>) c (lock cl);
      Some (s, Next l lvl) }) Q" if "lits (store u ! c) = ls \<and> model u = m \<and> P u" for u
  proof -
    have "wlp (cleanupBindings u (lev m (ls ! 1))) (\<lambda>t. wlp (do {
        rs \<leftarrow> puti (reason t) (Lit_Var (ls ! 0)) (Some c);
        cl \<leftarrow> getC t c;
        s \<leftarrow> updC (t\<lparr>reason := rs\<rparr>) c (lock cl);
        Some (s, Next (ls ! 0) (lev m (ls ! 1))) }) Q)"
      by (rule wlp_mono [OF cleanup]) (use that in auto)
    then show ?thesis using that by (simp add: backtrackData_def)
  qed
  show ?thesis
    unfolding learnLong_def
    apply (rule wlp_then)
    apply (rule wlp_first [OF add])
    using rest by (simp del: wlp_bind add: wlp_bind [of "getC _ _"])
qed

lemma learnLong_spec:
  assumes p: "pinv a lvl {} s" and lo: "learnt_ok a lvl s cl" and h: "heuristic s t"
    and s1: "s1 = t\<lparr>store := store t @ [cl]\<rparr>" and c: "c = length (store s)"
  shows "wlp (learnLong s1 c) (outcome_ok a s)"
proof -
  have lent: "c = length (store t)" using h store_same_length c by (auto simp: heuristic_def)
  have pt: "stable a t" "trail t = trail s" "model t = model s" "nbVars t = nbVars s"
    using p h stable_heuristic by (auto simp: pinv_stable heuristic_def)
  have clo: "clause_ok a (nbVars t) cl" "prop_clause cl" "2 \<le> Len cl" using lo pt(4) by (simp_all add: learnt_ok_def)
  then have "lits cl ! 1 \<in> set (lits cl)" by (simp add: Len_def)
  then have j: "1 \<le> lev (model s) (lits cl ! 1)" using lo by (auto simp: learnt_ok_def isFalse_def)
  show ?thesis
  proof (rule learnLong_wlp [where P = "added a t c cl" and m = "model s" and ls = "lits cl"])
    fix x
    have "wlp (addLearned (s1\<lparr>lbdSt := x\<rparr>) c) (added a t c cl)"
      by (rule addLearned_spec [OF pt(1) clo _ lent]) (simp add: s1)
    then show "wlp (addLearned (s1\<lparr>lbdSt := x\<rparr>) c) (\<lambda>u. lits (store u ! c) = lits cl \<and> model u = model s \<and> added a t c cl u)"
      by (rule wlp_mono) (simp add: added_def pt(3))
  next
    fix u assume u: "added a t c cl u"
    then have "stable a u" by (simp add: added_def)
    from cleanupBindings_spec [OF this j] show "wlp (cleanupBindings u (lev (model s) (lits cl ! 1))) (\<lambda>t. outcome_ok a s
        (t\<lparr>reason := (reason t)[nat (Lit_Var (lits cl ! 0)) := Some c], store := (store t)[c := lock (store t ! c)]\<rparr>,
         Next (lits cl ! 0) (lev (model s) (lits cl ! 1))))"
    proof (rule wlp_mono, elim conjE)
      fix v assume v: "stable a v" "backtracked (lev (model s) (lits cl ! 1)) u v"
      have cv: "c < length (store v)" "csame cl (store v ! c)"
        using v(2) u store_same_length store_same_nth csame_trans by (fastforce simp: backtracked_def added_def)+
      have "nbVars v = nbVars s" using backtracked_nbVars [OF v(2)] u pt(4) by (simp add: added_def)
      then show "outcome_ok a s (v\<lparr>reason := (reason v)[nat (Lit_Var (lits cl ! 0)) := Some c],
          store := (store v)[c := lock (store v ! c)]\<rparr>, Next (lits cl ! 0) (lev (model s) (lits cl ! 1)))"
        using nextOk_unify [OF asserting [OF p lo v(1) cv v(2)]] u pt by (simp add: outcome_ok_def added_def)
    qed
  qed (use clo(3) in \<open>simp add: Len_def\<close>)
qed


text \<open>A conflict at the top level ends the search with Unsat.\<close>

lemma afterConflict_wlp:
  assumes "\<And>i d x. wlp (learnClause (s\<lparr>NbConflicts := i, varDecay := d, lbdSt := x\<rparr>) c lvl) (\<lambda>(t, r). wlp (case r of
       LearntEmpty \<Rightarrow> learnUnit t (- 1)
     | LearntUnit unit \<Rightarrow> learnUnit t unit
     | LearntClause c \<Rightarrow> learnLong t c) Q)"
  shows "wlp (afterConflict s c lvl) Q"
  using assms unfolding afterConflict_def Let_def wlp_bind [of "learnClause _ _ _"] by (simp only: case_prod_beta')

definition refuted :: "solver \<Rightarrow> solver \<times> outcome \<Rightarrow> bool" where
  "refuted s = (\<lambda>(t, r). nbVars t = nbVars s \<and> r = Done Unsat)"

lemma learnUnit_top:
  assumes "lit_ok n l" and "isFalse (model s) l" and "lev (model s) l = 1" and "length (model s) = nat n"
    and "nbVars s = n"
  shows "wlp (learnUnit s l) (refuted s)"
proof -
  have "0 \<le> Lit_Var l" "0 \<le> l" using lit_ok_var [OF assms(1)] assms(1) by (simp_all add: lit_ok_def)
  then have "l \<noteq> - 1" "geti (model s) (Lit_Var l) = Some (model s ! nat (Lit_Var l))"
    using assms(1,4) by (auto simp: lit_ok_def geti_def)
  moreover have "litStatus s l = Some Unsat"
    using assms(2) calculation by (auto simp: litStatus_def isFalse_def)
  moreover have "nbVars (setUnsat s) = nbVars s" by (simp add: setUnsat_def certify_def)
  ultimately show ?thesis using assms(3) by (simp add: learnUnit_def refuted_def)
qed

lemma learnEmpty: "wlp (learnUnit s (- 1)) (refuted s)"
  by (simp add: learnUnit_def refuted_def setUnsat_def certify_def)

lemma afterConflict_top:
  assumes p: "pinv a 1 {} s" and confl: "confl_ok a 1 s c"
  shows "wlp (afterConflict s c 1) (refuted s)"
proof -
  let ?s = "\<lambda>i d x. s\<lparr>NbConflicts := i, varDecay := d, lbdSt := x\<rparr>"
  have same: "pinv a 1 {} (?s i d x)" "confl_ok a 1 (?s i d x) c" for i d x
    using forgot_pinv [OF p stable_same [of a s "?s i d x"]] p confl
    by (simp_all add: pinv_stable same_core_def same_lists_def confl_ok_def)
  have "wlp (learnClause (?s i d x) c 1) (\<lambda>(t, r). wlp (case r of
       LearntEmpty \<Rightarrow> learnUnit t (- 1)
     | LearntUnit unit \<Rightarrow> learnUnit t unit
     | LearntClause c \<Rightarrow> learnLong t c) (refuted s))" for i d x
  proof (rule wlp_mono [OF learnClause_top [OF same]], clarify)
    fix t r assume post: "top_learnt (?s i d x) (t, r)"
    then have h: "nbVars t = nbVars s" "model t = model s" by (auto simp: top_learnt_def heuristic_def)
    have n: "length (model s) = nat (nbVars s)" using p by (simp add: pinv_def core_def sizes_ok_def)
    have eq: "refuted s = refuted t" using h by (simp add: refuted_def)
    show "wlp (case r of
       LearntEmpty \<Rightarrow> learnUnit t (- 1)
     | LearntUnit unit \<Rightarrow> learnUnit t unit
     | LearntClause c \<Rightarrow> learnLong t c) (refuted s)"
    proof (cases r)
      case (LearntUnit l)
      then have "wlp (learnUnit t l) (refuted t)"
        using post h n by (intro learnUnit_top ) (auto simp: top_learnt_def)
      then show ?thesis by (simp add: LearntUnit eq)
    next
      case LearntEmpty
      then show ?thesis using learnEmpty [of t] by (simp add: eq)
    qed (use post in \<open>simp add: top_learnt_def\<close>)
  qed
  then show ?thesis by (rule afterConflict_wlp)
qed

lemma afterConflict_spec:
  assumes p: "pinv a lvl {} s" and confl: "confl_ok a lvl s c" and n: "nbVars s < 2 ^ 30"
  shows "wlp (afterConflict s c lvl) (outcome_ok a s)"
proof (cases "1 < lvl")
  case False
  then have "lvl = 1" using p by (simp add: pinv_def)
  moreover from this have "\<not> coherent a" using no_top_conflict [of a "{}" s] p confl by blast
  ultimately show ?thesis
    using afterConflict_top [of a s c] p confl by (auto simp: refuted_def outcome_ok_def elim!: wlp_mono)
next
  case lvl: True
  let ?s = "\<lambda>i d x. s\<lparr>NbConflicts := i, varDecay := d, lbdSt := x\<rparr>"
  have same: "pinv a lvl {} (?s i d x)" "confl_ok a lvl (?s i d x) c" "nbVars (?s i d x) = nbVars s"
    "outcome_ok a (?s i d x) = outcome_ok a s" for i d x
    using forgot_pinv [OF p stable_same [of a s "?s i d x"]] p confl
    by (simp_all add: pinv_stable same_core_def same_lists_def confl_ok_def outcome_ok_def)
  have n': "nbVars (?s i d x) < 2 ^ 30" for i d x using n by simp
  have "wlp (learnClause (?s i d x) c lvl) (\<lambda>(t, r). wlp (case r of
       LearntEmpty \<Rightarrow> learnUnit t (- 1)
     | LearntUnit unit \<Rightarrow> learnUnit t unit
     | LearntClause c \<Rightarrow> learnLong t c) (outcome_ok a s))" for i d x
  proof (rule wlp_mono [OF learnClause_spec [OF same(1) lvl same(2) n']], clarify)
    fix t r assume post: "learn_post a lvl (?s i d x) (t, r)"
    show "wlp (case r of
       LearntEmpty \<Rightarrow> learnUnit t (- 1)
     | LearntUnit unit \<Rightarrow> learnUnit t unit
     | LearntClause c \<Rightarrow> learnLong t c) (outcome_ok a s)"
    proof (cases r)
      case (LearntUnit l)
      then have u: "heuristic (?s i d x) t" "lit_ok (nbVars s) l" "a l" "isFalse (model s) l" "lev (model s) l = lvl"
        using post by (simp_all add: learn_post_def)
      then have t: "pinv a lvl {} t" "nbVars t = nbVars s" "model t = model s"
        using same(1) stable_heuristic [OF _ u(1)] by (auto simp: pinv_stable heuristic_def)
      have "wlp (learnUnit t l) (outcome_ok a t)"
        by (rule learnUnit_spec [OF t(1) lvl]) (use u t in simp_all)
      then show ?thesis using LearntUnit t(2) by (simp add: outcome_ok_def)
    next
      case (LearntClause d')
      then obtain u cl where "d' = length (store (?s i d x))" "heuristic (?s i d x) u" "t = u\<lparr>store := store u @ [cl]\<rparr>"
        "learnt_ok a lvl (?s i d x) cl"
        using post by (auto simp: learn_post_def)
      then have "wlp (learnLong t d') (outcome_ok a (?s i d x))"
        by (intro learnLong_spec [OF same(1)])
      then show ?thesis using LearntClause same(4) by simp
    qed (use post in \<open>simp add: learn_post_def\<close>)
  qed
  then show ?thesis by (rule afterConflict_wlp)
qed

section \<open>The whole search\<close>

definition ready :: "valuation \<Rightarrow> solver \<Rightarrow> bool" where
  "ready a s \<longleftrightarrow> pinv a 1 {} s \<and> nbVars s < 2 ^ 30"

lemma ready_heuristic: "ready a s \<Longrightarrow> heuristic s t \<Longrightarrow> ready a t"
  using stable_heuristic [of a s t] by (auto simp: ready_def pinv_stable heuristic_def)

lemma ready_same: "ready a s \<Longrightarrow> same_core s t \<Longrightarrow> ready a t"
  using forgot_pinv [of a 1 s, OF _ stable_same] by (auto simp: ready_def pinv_stable same_core_def)

text \<open>Unsat is an answer when no assignment is at stake.\<close>

definition answer_ok :: "valuation \<Rightarrow> status \<Rightarrow> bool" where
  "answer_ok a st \<longleftrightarrow> st = Sat \<or> st = Unsat \<and> \<not> coherent a"

lemma turn_ok:
  assumes "nextOk a lvl s l" and "l \<noteq> - 1" and n: "nbVars s < 2 ^ 30"
  shows "wlp (unifyLiteral s l lvl) (\<lambda>(t, confl).
      wlp (case confl of None \<Rightarrow> afterPropagation t lvl | Some c \<Rightarrow> afterConflict t c lvl) (outcome_ok a s))"
proof -
  have pre: "unifyPre a lvl s l" using assms(1,2) by (simp add: nextOk_def)
  have eq: "outcome_ok a t = outcome_ok a s" if "nbVars t = nbVars s" for t
    using that by (simp add: outcome_ok_def)
  show ?thesis
  proof (rule wlp_mono [OF unifyLiteral_spec [OF pre]], clarify)
    fix t confl
    assume t: "pinv a lvl {} t" "\<forall>c. confl = Some c \<longrightarrow> confl_ok a lvl t c" "nbVars t = nbVars s"
    then show "wlp (case confl of None \<Rightarrow> afterPropagation t lvl | Some c \<Rightarrow> afterConflict t c lvl) (outcome_ok a s)"
      using n afterPropagation_spec [OF t(1)] afterConflict_spec [OF t(1)] eq [OF t(3)] by (auto split: option.splits)
  qed
qed

interpretation sound_search: search_loop "\<lambda>lvl s l. nextOk a lvl s l \<and> nbVars s < 2 ^ 30" "ready a" "\<lambda>_. answer_ok a" for a
proof (unfold_locales, goal_cases)
  case (1 lvl s l)
  then have "wlp (unifyLiteral s l lvl) (\<lambda>(t, confl).
      wlp (case confl of None \<Rightarrow> afterPropagation t lvl | Some c \<Rightarrow> afterConflict t c lvl) (outcome_ok a s))"
    by (intro turn_ok) simp_all
  then show ?case
    using 1 by (auto simp: outcome_ok_def ready_def answer_ok_def split: outcome.splits elim!: wlp_mono)
next
  case (3 s)
  then have "pinv a 1 {} s" "nbVars s < 2 ^ 30" by (simp_all add: ready_def)
  then show ?case by (intro wlp_mono [OF chooseLit_next]) auto
next
  case (4 s n)
  have "ready a (s\<lparr>NbRestarts := n\<rparr>)" using 4 by (rule ready_same) (simp add: same_core_def same_lists_def)
  then show ?case by (intro wlp_mono [OF rebuildOrderHeap_frame]) (rule ready_heuristic)
next
  case (5 s st)
  then show ?case by (rule ready_same) (simp add: same_core_def same_lists_def)
qed (simp_all add: answer_ok_def)

end
