(* ===== verification/Soundness.thy ===== *)
theory Soundness
  imports SearchProof ParseSlice
begin

text \<open>
  From a problem to the answer of the search: \<open>New\<close> establishes the invariant for every
  assignment that satisfies the problem, so \<open>Solve\<close> cannot answer Unsat when there is one.
\<close>

section \<open>Problems the solver can start from\<close>

definition fit_clause :: "clause \<Rightarrow> bool" where
  "fit_clause c \<longleftrightarrow> distinct (map Lit_Var (lits c)) \<and> length (c_weights c) = length (lits c)
     \<and> (\<forall>w \<in> set (c_weights c). 0 < w) \<and> (pbData c = None \<longrightarrow> Cardinality c \<le> int (Len c))
     \<and> (prop_clause c \<longrightarrow> 2 \<le> Len c) \<and> (pbData c \<noteq> None \<longrightarrow> sum_fits (c_weights c))"

definition fit_problem :: "problem \<Rightarrow> bool" where
  "fit_problem pb \<longleftrightarrow> pb_inv pb \<and> (\<forall>c \<in> set (Clauses pb). fit_clause c) \<and> NbVars pb < 2 ^ 30"

text \<open>The valuation satisfies the problem.\<close>

definition pb_val :: "valuation \<Rightarrow> problem \<Rightarrow> bool" where
  "pb_val a pb \<longleftrightarrow> proper a \<and> (\<forall>u \<in> set (Units pb). a u) \<and> (\<forall>c \<in> set (Clauses pb). wsat a c)"

lemma pb_val_lit_true: "pb_val (lit_true a) pb = pb_models a pb"
  by (simp add: pb_val_def pb_models_def wsat_lit_true proper_def coherent_lit_true)

lemma fit_clause_ok:
  "fit_clause c \<Longrightarrow> wsat a c \<Longrightarrow> lits_ok n (lits c) \<Longrightarrow> clause_ok a n c"
  by (simp add: fit_clause_def clause_ok_def)

section \<open>The units\<close>

lemma bindUnitLits_same: "units_model m us \<Longrightarrow> bindUnitLits m us = Some m"
proof (induction us)
  case (Cons u us)
  have um: "units_model m (u # us)" using Cons.prems .
  then have u: "lit_ok (int (length m)) u" "m ! nat (Lit_Var u) = (if IsPositive u then 1 else - 1)"
    by (simp_all add: units_model_def)
  have same: "bindUnitLits m ls = Some m" if "set ls \<subseteq> set (u # us)" for ls
    using that
  proof (induction ls)
    case (Cons l ls)
    have l: "lit_ok (int (length m)) l" "m ! nat (Lit_Var l) = (if IsPositive l then 1 else - 1)"
      using um Cons.prems by (auto simp: units_model_def)
    have "puti m (Lit_Var l) (if IsPositive l then 1 else - 1) = Some m"
      using lit_ok_index [OF l(1)] l(2) by (simp add: puti_def list_update_same_conv)
    then show ?case using Cons by simp
  qed simp
  then show ?case by blast
qed simp

section \<open>Watching the clauses of the problem\<close>

text \<open>Watching does not look at the bindings or the status.\<close>

definition withTrail :: "declevel list \<Rightarrow> lit list \<Rightarrow> status \<Rightarrow> solver \<Rightarrow> solver" where
  "withTrail m t st s = s\<lparr>model := m, trail := t, sStatus := st\<rparr>"

lemma withTrail_lists [simp]:
  "wlistBin (withTrail m t st s) = wlistBin s" "wlist (withTrail m t st s) = wlist s"
  "wlistPb (withTrail m t st s) = wlistPb s" "wlistCardAMO (withTrail m t st s) = wlistCardAMO s"
  "(withTrail m t st s)\<lparr>wlistBin := x\<rparr> = withTrail m t st (s\<lparr>wlistBin := x\<rparr>)"
  "(withTrail m t st s)\<lparr>wlist := y\<rparr> = withTrail m t st (s\<lparr>wlist := y\<rparr>)"
  "(withTrail m t st s)\<lparr>wlistPb := z\<rparr> = withTrail m t st (s\<lparr>wlistPb := z\<rparr>)"
  "(withTrail m t st s)\<lparr>wlistCardAMO := z\<rparr> = withTrail m t st (s\<lparr>wlistCardAMO := z\<rparr>)"
  by (simp_all add: withTrail_def)

lemma watchPb_trail: "watchPb (withTrail m t st s) l c = map_option (withTrail m t st) (watchPb s l c)"
  by (cases "appendAt (wlistPb s) (Negation l) c") (simp_all add: watchPb_def withTrail_def)

lemma watchPBLoop_trail:
  "watchPBLoop (withTrail m t st s) c goal i acc = map_option (withTrail m t st) (watchPBLoop s c goal i acc)"
proof (induction s c goal i acc rule: watchPBLoop.induct)
  case (1 s c goal i acc)
  have upd: "updC (withTrail m t st u) c cl = map_option (withTrail m t st) (updC u c cl)" for u cl
    by (simp add: updC_def withTrail_def put_def)
  have getC: "getC (withTrail m t st s) c = getC s c" by (simp add: getC_def withTrail_def)
  show ?case
  proof (cases "getC s c")
    case (Some cl)
    show ?thesis
    proof (cases "acc < goal \<and> i < Len cl")
      case True
      note ih = "1.IH" [OF Some True]
      show ?thesis
        using True Some getC
        apply (subst (1 2) watchPBLoop.simps)
        apply (cases "Get cl i"; simp)
        apply (simp add: watchPb_trail)
        apply (case_tac "watchPb s a c"; simp)
        apply (cases "pbData cl"; simp)
        apply (case_tac "put (watched ab) i True"; simp)
        apply (case_tac "get (weights ab) i"; simp)
        apply (simp add: upd)
        apply (case_tac "updC aa c (cl\<lparr>pbData := Some (ab\<lparr>watched := ac\<rparr>)\<rparr>)"; simp)
        using ih by simp
    qed (use Some getC in \<open>subst (1 2) watchPBLoop.simps, auto\<close>)
  qed (use getC in \<open>subst (1 2) watchPBLoop.simps, simp\<close>)
qed

lemma watchFirst_trail: "watchFirst (withTrail m t st s) c cl n = map_option (withTrail m t st) (watchFirst s c cl n)"
  by (induction n) (auto simp: watchPb_trail bind_map_option split: Option.bind_splits)

lemma watchFirstAMO_trail:
  "watchFirstAMO (withTrail m t st s) c cl n = map_option (withTrail m t st) (watchFirstAMO s c cl n)"
  by (induction n) (auto split: Option.bind_splits)

lemma watchClause_trail: "watchClause (withTrail m t st s) c = map_option (withTrail m t st) (watchClause s c)"
proof (cases "getC s c")
  case (Some cl)
  have g: "getC (withTrail m t st s) c = Some cl" using Some by (simp add: getC_def withTrail_def)
  have "watchPB (withTrail m t st s) c = map_option (withTrail m t st) (watchPB s c)"
    unfolding watchPB_def g Some by (cases "Weight cl 0") (simp_all add: watchPBLoop_trail)
  moreover have "watchCardAMO (withTrail m t st s) c n = map_option (withTrail m t st) (watchCardAMO s c n)" for n
    unfolding watchCardAMO_def g Some by (simp add: watchFirstAMO_trail)
  ultimately show ?thesis
    unfolding watchClause_def g Some
    by (auto simp: watchFirst_trail split: Option.bind_splits)
qed (simp add: watchClause_def getC_def withTrail_def)

lemma watchAll_trail: "watchAll (withTrail m t st s) cs = map_option (withTrail m t st) (watchAll s cs)"
  by (induction cs arbitrary: s) (auto simp: watchClause_trail split: Option.bind_splits)

lemma watchAll_frame: "wlp (watchAll s cs) (\<lambda>t. model t = model s \<and> sStatus t = sStatus s)"
proof -
  have "withTrail (model s) (trail s) (sStatus s) s = s" by (simp add: withTrail_def)
  then have "watchAll s cs = map_option (withTrail (model s) (trail s) (sStatus s)) (watchAll s cs)"
    by (metis watchAll_trail)
  moreover have "model (withTrail m t st u) = m \<and> sStatus (withTrail m t st u) = st" for m t st u
    by (simp add: withTrail_def)
  ultimately show ?thesis unfolding wlp_iff by (metis option.map_sel option.sel option.simps(3))
qed

text \<open>Watching a constraint that is not a clause leaves the lists of the clauses alone.\<close>

definition watchedPb :: "valuation \<Rightarrow> solver \<Rightarrow> solver \<Rightarrow> bool" where
  "watchedPb a s s' \<longleftrightarrow> kept a 1 s s' \<and> wlist s' = wlist s \<and> nbVars s' = nbVars s"

lemma watchedPb_trans: "watchedPb a s t \<Longrightarrow> watchedPb a t u \<Longrightarrow> watchedPb a s u"
  by (auto simp: watchedPb_def intro: kept_trans)

lemma watchPb_kept:
  assumes "pbpre a 1 s c" and "l \<in> set (lits (store s ! c))"
  shows "wlp (watchPb s l c) (\<lambda>s'. watchedPb a s s' \<and> store s' = store s)"
proof -
  have "wlp (watchPb s l c) (\<lambda>s'. wlist s' = wlist s \<and> nbVars s' = nbVars s)" by (auto simp: watchPb_def)
  with watchPb_spec [OF assms] have "wlp (watchPb s l c)
    (\<lambda>s'. (kept a 1 s s' \<and> store s' = store s) \<and> (wlist s' = wlist s \<and> nbVars s' = nbVars s))"
    by (rule wlp_conj)
  then show ?thesis by (rule wlp_mono) (simp add: watchedPb_def)
qed

lemma watchPBLoop_kept: "pbpre a 1 s c \<Longrightarrow> wlp (watchPBLoop s c goal i acc) (watchedPb a s)"
proof (induction "Len (store s ! c) - i" arbitrary: s i acc rule: less_induct)
  case less
  let ?cl = "store s ! c"
  note pre = less.prems
  have c: "c < length (store s)" using pre by (simp add: pbpre_def)
  have same: "watchedPb a s s" using pre by (simp add: watchedPb_def)
  show ?case
  proof (cases "i < Len ?cl")
    case True
    have l: "lits ?cl ! i \<in> set (lits ?cl)" using True by (simp add: Len_def)
    have one: "wlp (watchPb s (lits ?cl ! i) c) (\<lambda>t. c < length (store t) \<longrightarrow> wlp (watchPBLoop
        (t\<lparr>store := (store t)[c := ?cl\<lparr>pbData := Some (p\<lparr>watched := wd\<rparr>)\<rparr>]\<rparr>) c goal (Suc i) w')
        (watchedPb a s))" if p: "pbData ?cl = Some p" for p wd w'
    proof (rule wlp_mono [OF watchPb_kept [OF pre l]], intro impI)
      fix t assume t: "watchedPb a s t \<and> store t = store s"
      let ?u = "t\<lparr>store := (store t)[c := ?cl\<lparr>pbData := Some (p\<lparr>watched := wd\<rparr>)\<rparr>]\<rparr>"
      have k: "kept a 1 s ?u" by (rule put_watched [OF pre _ p]) (use t in \<open>simp add: watchedPb_def\<close>)
      then have w: "watchedPb a s ?u" using t by (simp add: watchedPb_def)
      have "wlp (watchPBLoop ?u c goal (Suc i) w') (watchedPb a ?u)"
        by (rule less.hyps [OF _ kept_pbpre [OF pre k]]) (use kept_Len [OF k c] True in simp)
      then show "wlp (watchPBLoop ?u c goal (Suc i) w') (watchedPb a s)"
        using watchedPb_trans [OF w] by (auto elim: wlp_mono)
    qed
    then show ?thesis
      using True same pre
      by (subst watchPBLoop.simps) (cases "pbData ?cl"; auto elim!: wlp_mono [OF one])
  next
    case False
    then show ?thesis using same by (subst watchPBLoop.simps) simp
  qed
qed

lemma watchFirst_kept:
  assumes pre: "pbpre a 1 s c"
  shows "wlp (watchFirst s c (store s ! c) n) (\<lambda>s'. watchedPb a s s' \<and> store s' = store s)"
proof (induction n)
  case 0
  show ?case using pre by (simp add: watchedPb_def)
next
  case (Suc n)
  have "wlp (watchPb t (lits (store s ! c) ! n) c) (\<lambda>s'. watchedPb a s s' \<and> store s' = store s)"
    if t: "watchedPb a s t \<and> store t = store s" and n: "n < Len (store s ! c)" for t
  proof (rule wlp_mono [OF watchPb_kept])
    show "pbpre a 1 t c" using kept_pbpre [OF pre] t by (simp add: watchedPb_def)
    show "lits (store s ! c) ! n \<in> set (lits (store t ! c))" using t n by (simp add: Len_def)
  qed (use t watchedPb_trans in auto)
  then show ?case by (auto intro!: wlp_mono [OF Suc.IH])
qed

text \<open>One clause of the problem.\<close>

definition list_ids :: "watcher list list \<Rightarrow> cid set" where
  "list_ids W = (\<Union>ws \<in> set W. w_clause ` set ws)"

abbreviation ids :: "solver \<Rightarrow> cid set" where
  "ids s \<equiv> list_ids (wlist s)"

lemma list_ids_append: "list_ids (W[i := W ! i @ [x]]) \<subseteq> insert (w_clause x) (list_ids W)"
proof (cases "i < length W")
  case True
  then show ?thesis
    using set_update_subset_insert [of W i "W ! i @ [x]"] nth_mem [OF True] by (fastforce simp: list_ids_def)
next
  case False
  then show ?thesis by (auto simp: list_ids_def list_update_beyond)
qed

lemma notin_ids: "c \<notin> ids s \<longleftrightarrow> (\<forall>l < length (wlist s). c \<notin> w_clause ` set (wlist s ! l))"
  by (fastforce simp: list_ids_def in_set_conv_nth)

definition watching :: "valuation \<Rightarrow> solver \<Rightarrow> cid \<Rightarrow> solver \<Rightarrow> bool" where
  "watching a s c s' \<longleftrightarrow> pinv a 1 {} s' \<and> store_same (store s) (store s') \<and> ids s' \<subseteq> insert c (ids s)
     \<and> nbVars s' = nbVars s"

lemma watchClause_ids:
  assumes "\<not> PseudoBoolean (store s ! c)" and "\<not> Cardinality (store s ! c) > 1"
  shows "wlp (watchClause s c) (\<lambda>s'. ids s' \<subseteq> insert c (ids s))"
proof -
  have "list_ids (W[i := W ! i @ [x], j := W[i := W ! i @ [x]] ! j @ [y]]) \<subseteq> insert c (list_ids W)"
    if "w_clause x = c" "w_clause y = c" for W i j x y
    using list_ids_append [of W i x] list_ids_append [of "W[i := W ! i @ [x]]" j y] that by auto
  then show ?thesis
    using assms unfolding watchClause_def by auto
qed

lemma watchClause_watching:
  assumes p: "pinv a 1 {} s" and c: "c < length (store s)" "prop_clause (store s ! c) \<longrightarrow> 2 \<le> Len (store s ! c)"
    and fresh: "c \<notin> ids s"
  shows "wlp (watchClause s c) (watching a s c)"
proof -
  let ?cl = "store s ! c"
  have ok: "clause_ok a (nbVars s) ?cl" using core_clause [OF pinv_core [OF p] c(1)] .
  have pb: "watchedPb a s t \<Longrightarrow> watching a s c t" for t
    by (auto simp: watchedPb_def watching_def kept_def progress_def)
  show ?thesis
  proof (cases "prop_clause ?cl")
    case True
    have st: "stable a s" using p by (simp add: pinv_stable)
    have "\<not> PseudoBoolean ?cl" "\<not> Cardinality ?cl > 1" using True by (auto simp: prop_clause_def PseudoBoolean_def)
    then have i: "wlp (watchClause s c) (\<lambda>s'. ids s' \<subseteq> insert c (ids s))" by (rule watchClause_ids)
    have "wlp (watchClause s c) (\<lambda>s'. stable a s' \<and> (\<exists>wb wl. s' = s\<lparr>wlistBin := wb, wlist := wl\<rparr>))"
      using watchClause_spec [OF st c(1) True ok] c(2) True fresh by (simp add: notin_ids)
    from wlp_conj [OF this i] show ?thesis
      by (rule wlp_mono) (use p in \<open>auto simp: watching_def pinv_stable\<close>)
  next
    case False
    then have pre: "pbpre a 1 s c" using p c(1) by (simp add: pbpre_def)
    show ?thesis
    proof (cases "PseudoBoolean ?cl")
      case True
      have "wlp (watchPBLoop s c goal i acc) (watching a s c)" for goal i acc
        by (rule wlp_mono [OF watchPBLoop_kept [OF pre] pb])
      then show ?thesis using c(1) True
        by (auto simp: watchClause_def watchPB_def intro: wlp_I)
    next
      case np: False
      have "1 \<le> Cardinality ?cl" by (simp add: Cardinality_def)
      then have "Cardinality ?cl > 1" using np False by (simp add: prop_clause_def PseudoBoolean_def)
      moreover have "Cardinality ?cl \<noteq> int (Len ?cl) + 1" using ok np by (simp add: clause_ok_def PseudoBoolean_def)
      ultimately show ?thesis
        using c(1) np by (auto simp: watchClause_def intro!: wlp_mono [OF watchFirst_kept [OF pre]] pb)
    qed
  qed
qed

lemma watchAll_spec:
  assumes "pinv a 1 {} s" and "distinct cs" and "\<forall>c \<in> set cs. c < length (store s) \<and> c \<notin> ids s"
    and "\<forall>c \<in> set (store s). prop_clause c \<longrightarrow> 2 \<le> Len c"
  shows "wlp (watchAll s cs) (\<lambda>s'. pinv a 1 {} s' \<and> nbVars s' = nbVars s)"
  using assms
proof (induction cs arbitrary: s)
  case (Cons c cs)
  have c: "c < length (store s)" "c \<notin> ids s" using Cons.prems(3) by auto
  have "prop_clause (store s ! c) \<longrightarrow> 2 \<le> Len (store s ! c)" using Cons.prems(4) c(1) by simp
  note w = watchClause_watching [OF Cons.prems(1) c(1) this c(2)]
  have "wlp (watchAll t cs) (\<lambda>s'. pinv a 1 {} s' \<and> nbVars s' = nbVars s)" if t: "watching a s c t" for t
  proof -
    have len: "length (store t) = length (store s)" and cs: "i < length (store s) \<Longrightarrow> csame (store s ! i) (store t ! i)" for i
      using t store_same_length store_same_nth by (auto simp: watching_def)
    have "prop_clause d \<longrightarrow> 2 \<le> Len d" if d: "d \<in> set (store t)" for d
    proof -
      obtain i where "i < length (store s)" "d = store t ! i" using d len by (auto simp: in_set_conv_nth)
      then show ?thesis using cs csame_prop csame_lits(2) Cons.prems(4) by (metis nth_mem)
    qed
    then have "wlp (watchAll t cs) (\<lambda>s'. pinv a 1 {} s' \<and> nbVars s' = nbVars t)"
      using t Cons.prems len by (intro Cons.IH) (auto simp: watching_def)
    then show ?thesis using t by (simp add: watching_def)
  qed
  then show ?case by (auto intro!: wlp_mono [OF w])
qed simp

section \<open>Starting the search\<close>

lemma start_pinv:
  assumes pb: "pb_inv pb" "pb_val a pb" "\<forall>c \<in> set (Clauses pb). clause_ok a (NbVars pb) c"
    and s: "nbVars s = NbVars pb" "model s = pModel pb" "trail s = Units pb" "store s = Clauses pb"
      "reason s = replicate (nat (NbVars pb)) None" "assumptions s = replicate (nat (NbVars pb)) False"
      "wlistBin s = replicate n []" "wlist s = replicate n []" "wlistPb s = replicate n []"
      "wlistCardAMO s = replicate n []"
  shows "pinv a 1 {} s"
proof -
  have um: "units_model (pModel pb) (Units pb)" and len: "int (length (pModel pb)) = NbVars pb"
    using pb(1) by (auto simp: pb_inv_def)
  have u: "lit_ok (NbVars pb) l" "pModel pb ! nat (Lit_Var l) = (if IsPositive l then 1 else - 1)"
    "a l" if "l \<in> set (Units pb)" for l
    using um len pb(2) that by (auto simp: units_model_def pb_val_def)
  have lev: "lev (pModel pb) l = 1" if "l \<in> set (Units pb)" for l
    using u(2) [OF that] by simp
  have "isTrue (pModel pb) l" if "l \<in> set (Units pb)" for l using u(2) [OF that] by (simp add: isTrue_def)
  moreover have "int v \<in> Lit_Var ` set (Units pb)" if "v < length (pModel pb)" "pModel pb ! v \<noteq> 0" for v
    using um that unfolding units_model_def by (metis imageI)
  ultimately have "bindings_ok s" using u(1) by (simp add: bindings_ok_def s)
  moreover have "entries (trail s) (entry_ok a s)"
    unfolding entries_def entry_ok_def s using lev u(3) by auto
  moreover have "sizes_ok s" "clauses_ok a s" "assumptions_ok s" "reasons_ok {} s"
    using len pb(3) by (auto simp: sizes_ok_def clauses_ok_def assumptions_ok_def reasons_ok_def s)
  moreover have "watch_ok s" by (simp add: watch_except_def long_list_def s)
  moreover have "proper a" using pb(2) by (simp add: pb_val_def)
  ultimately show ?thesis using lev by (simp add: pinv_def core_def s)
qed

lemma fit_clauses_ok:
  assumes "fit_problem pb" and "pb_val a pb" and "c \<in> set (Clauses pb)"
  shows "clause_ok a (NbVars pb) c"
  using assms by (intro fit_clause_ok) (auto simp: fit_problem_def pb_inv_def pb_val_def)

text \<open>\<open>initWatcherList\<close> establishes the invariant, once the units are on the trail.\<close>

lemma initWatcherList_spec:
  assumes fit: "fit_problem pb" and sat: "pb_val a pb"
    and s: "nbVars s = NbVars pb" "model s = pModel pb"
      "reason s = replicate (nat (NbVars pb)) None" "assumptions s = replicate (nat (NbVars pb)) False"
  shows "wlp (initWatcherList s (Clauses pb)) (\<lambda>t. pinv a 1 {} (t\<lparr>trail := Units pb\<rparr>) \<and> nbVars t = NbVars pb
    \<and> model t = pModel pb \<and> sStatus t = sStatus s)"
proof -
  let ?n = "nat (nbVars s) * 2" and ?ids = "[0..<length (Clauses pb)]"
  let ?s = "s\<lparr>store := Clauses pb, nbMax := initNbMaxClauses, idxReduce := 1,
          wlistBin := replicate ?n [], wlist := replicate ?n [], wlistPb := replicate ?n [],
          wlistCardAMO := replicate ?n [], origClauses := ?ids, learned := []\<rparr>"
  let ?put = "withTrail (pModel pb) (Units pb) (sStatus s)"
  have p: "pinv a 1 {} (?put ?s)"
    by (rule start_pinv [of pb a "?put ?s" ?n])
      (use fit sat s fit_clauses_ok in \<open>auto simp: fit_problem_def withTrail_def\<close>)
  have "wlp (watchAll (?put ?s) ?ids) (\<lambda>t. pinv a 1 {} t \<and> nbVars t = nbVars (?put ?s))"
    by (rule watchAll_spec [OF p])
      (use fit in \<open>auto simp: fit_problem_def fit_clause_def withTrail_def list_ids_def\<close>)
  then have w: "wlp (watchAll ?s ?ids) (\<lambda>t. pinv a 1 {} (?put t) \<and> nbVars t = NbVars pb)"
    unfolding watchAll_trail by (auto simp: wlp_iff withTrail_def s)
  have put: "?put t = t\<lparr>trail := Units pb\<rparr>" if "model t = pModel pb" "sStatus t = sStatus s" for t
    using that [symmetric] by (simp add: withTrail_def)
  have "wlp (watchAll ?s ?ids) (\<lambda>t. pinv a 1 {} (t\<lparr>trail := Units pb\<rparr>) \<and> nbVars t = NbVars pb
      \<and> model t = pModel pb \<and> sStatus t = sStatus s)"
    by (rule wlp_mono [OF wlp_conj [OF w watchAll_frame]]) (use s put in auto)
  then show ?thesis by (simp add: initWatcherList_def Let_def)
qed

text \<open>The solver that \<open>New\<close> gives to \<open>initWatcherList\<close>.\<close>

definition started :: "problem \<Rightarrow> solver \<Rightarrow> bool" where
  "started pb s \<longleftrightarrow> nbVars s = NbVars pb \<and> model s = pModel pb \<and> sStatus s = pStatus pb
     \<and> reason s = replicate (nat (NbVars pb)) None \<and> assumptions s = replicate (nat (NbVars pb)) False"

lemma optimActivity_length: "wlp (optimActivity as ws i ls) (\<lambda>as'. length as' = length as)"
  by (induction as ws i ls rule: optimActivity.induct) (auto simp: wlp_iff puti_def bind_eq_Some_conv split: if_splits)

lemma New_wlp:
  assumes st: "pStatus pb \<noteq> Unsat"
    and init: "\<And>s acts. started pb s \<Longrightarrow> length acts = nat (NbVars pb) \<Longrightarrow> wlp (initWatcherList s (Clauses pb)) (\<lambda>t.
      wlp (newQueue acts) (\<lambda>q. wlp (bindUnitLits (model t) (Units pb)) (\<lambda>m.
        Q (t\<lparr>varQueue := q, model := m, trail := Units pb\<rparr>))))"
  shows "wlp (New pb) Q"
proof (cases "NbVars pb < 0")
  case False
  let ?n = "nat (NbVars pb)"
  let ?s = "emptySolver\<lparr>nbVars := NbVars pb, sStatus := pStatus pb, model := pModel pb,
      polarity := replicate ?n False, assumptions := replicate ?n False,
      reason := replicate ?n None, varInc := 1, clauseInc := 1, varDecay := defaultVarDecay,
      sMinLits := minLits pb, sMinWeights := minWeights pb\<rparr>"
  have pol: "wlp (resetOptimPolarity ?s) (started pb)"
    by (auto simp: resetOptimPolarity_def started_def wlp_iff bind_eq_Some_conv split: option.splits)
  have acts: "wlp (case minLits pb of None \<Rightarrow> Some (replicate ?n 0)
      | Some ls \<Rightarrow> optimActivity (replicate ?n 0) (minWeights pb) 0 ls) (\<lambda>acts. length acts = ?n)"
    using optimActivity_length [of "replicate ?n 0" "minWeights pb" 0] by (auto split: option.split)
  show ?thesis
    using st False
    apply (simp only: New_def Let_def if_False)
    apply (rule wlp_first [OF pol])
    apply (rule wlp_first [OF acts])
    apply (rule wlp_first [OF init], assumption+)
    apply (simp only: wlp_bind wlp_Some)
    done
qed (use st in \<open>simp add: New_def\<close>)

lemma New_spec:
  assumes fit: "fit_problem pb" and sat: "pb_val a pb" and st: "pStatus pb \<noteq> Unsat"
  shows "wlp (New pb) (\<lambda>s. ready a s \<and> sStatus s \<noteq> Unsat)"
proof (rule New_wlp [OF st])
  fix s and acts :: "rat list" assume s: "started pb s"
  have um: "bindUnitLits (pModel pb) (Units pb) = Some (pModel pb)"
    using fit by (intro bindUnitLits_same) (simp add: fit_problem_def pb_inv_def)
  have fin: "ready a (t\<lparr>varQueue := q, model := pModel pb, trail := Units pb\<rparr>)"
    if t: "pinv a 1 {} (t\<lparr>trail := Units pb\<rparr>)" "nbVars t = NbVars pb" "model t = pModel pb" for t q
  proof -
    have eq: "t\<lparr>varQueue := q, model := pModel pb, trail := Units pb\<rparr> = t\<lparr>varQueue := q, trail := Units pb\<rparr>"
      using t(3) [symmetric] by simp
    show ?thesis
      unfolding eq
      using forgot_pinv [OF t(1) stable_same [of a _ "t\<lparr>varQueue := q, trail := Units pb\<rparr>"]] t fit
      by (simp add: ready_def pinv_stable same_core_def same_lists_def fit_problem_def)
  qed
  show "wlp (initWatcherList s (Clauses pb)) (\<lambda>t. wlp (newQueue acts) (\<lambda>q. wlp (bindUnitLits (model t) (Units pb)) (\<lambda>m.
      ready a (t\<lparr>varQueue := q, model := m, trail := Units pb\<rparr>)
      \<and> sStatus (t\<lparr>varQueue := q, model := m, trail := Units pb\<rparr>) \<noteq> Unsat)))"
    by (rule wlp_mono [OF initWatcherList_spec [OF fit sat]])
      (use um fin s st in \<open>auto simp: started_def intro: wlp_I\<close>)
qed

lemma Solve_ready:
  assumes "ready a s" and "sStatus s \<noteq> Unsat"
  shows "wlp (Solve s) (\<lambda>(s', st). answer_ok a st)"
  by (rule wlp_mono [OF sound_search.Solve [OF assms]]) auto

end
