(* ===== verification/Answers.thy ===== *)
theory Answers
  imports Soundness
begin

text \<open>
  What the decision procedure promises (\<open>solver/solver.go\<close>): the search as a step relation whose
  reachable states keep what the problem entails, and the answers of \<open>New\<close> and \<open>Solve\<close>.
\<close>

section \<open>The search as a step relation\<close>

text \<open>
  One turn of the loop of \<open>propagateAndSearch\<close>, from a literal to bind and its level to the next
  ones, without or with a conflict.
\<close>

inductive search_step :: "solver \<times> lit \<times> declevel \<Rightarrow> solver \<times> lit \<times> declevel \<Rightarrow> bool" where
  quiet: "l \<noteq> - 1 \<Longrightarrow> unifyLiteral s l lvl = Some (t, None) \<Longrightarrow>
     afterPropagation t lvl = Some (u, Next l' lvl') \<Longrightarrow> search_step (s, l, lvl) (u, l', lvl')"
| conflict: "l \<noteq> - 1 \<Longrightarrow> unifyLiteral s l lvl = Some (t, Some c) \<Longrightarrow>
     afterConflict t c lvl = Some (u, Next l' lvl') \<Longrightarrow> search_step (s, l, lvl) (u, l', lvl')"

inductive reachable :: "problem \<Rightarrow> solver \<times> lit \<times> declevel \<Rightarrow> bool" for pb where
  start: "New pb = Some s \<Longrightarrow> chooseLit (s\<lparr>sStatus := Indet\<rparr>) = Some (l, t) \<Longrightarrow> reachable pb (t, l, 2)"
| step: "reachable pb x \<Longrightarrow> search_step x y \<Longrightarrow> reachable pb y"
| restart: "reachable pb (s, l, lvl) \<Longrightarrow> l \<noteq> - 1 \<Longrightarrow> unifyLiteral s l lvl = Some (t, None) \<Longrightarrow>
     afterPropagation t lvl = Some (u, Done Indet) \<Longrightarrow>
     rebuildOrderHeap (u\<lparr>sStatus := Indet, NbRestarts := NbRestarts u + 1\<rparr>) = Some v \<Longrightarrow>
     chooseLit v = Some (l', w) \<Longrightarrow> reachable pb (w, l', 2)"

inductive_cases search_stepE: "search_step (s, l, lvl) (u, l', lvl')"

declare search_step.intros [intro] reachable.intros [intro]

text \<open>The invariant of a configuration, for a valuation that satisfies the problem.\<close>

definition config_ok :: "valuation \<Rightarrow> solver \<times> lit \<times> declevel \<Rightarrow> bool" where
  "config_ok a = (\<lambda>(s, l, lvl). nextOk a lvl s l \<and> nbVars s < 2 ^ 30)"

lemma config_ok_next:
  assumes "wlp m (outcome_ok a s)" and "m = Some (u, Next l lvl)" and "nbVars s < 2 ^ 30"
  shows "config_ok a (u, l, lvl)"
  using wlp_SomeD [OF assms(1,2)] assms(3) by (simp add: config_ok_def outcome_ok_def)

lemma config_ok_bound:
  assumes "config_ok a (s, l, lvl)" and "l \<noteq> - 1" and "unifyLiteral s l lvl = Some (t, r)"
  shows "pinv a lvl {} t" "nbVars t < 2 ^ 30" "r = Some c \<Longrightarrow> confl_ok a lvl t c"
proof -
  have "unifyPre a lvl s l" "nbVars s < 2 ^ 30" using assms(1,2) by (simp_all add: config_ok_def nextOk_def)
  from wlp_SomeD [OF unifyLiteral_spec [OF this(1)] assms(3)] this(2)
  show "pinv a lvl {} t" "nbVars t < 2 ^ 30" "r = Some c \<Longrightarrow> confl_ok a lvl t c" by simp_all
qed

lemma search_step_ok: "search_step x y \<Longrightarrow> config_ok a x \<Longrightarrow> config_ok a y"
proof (induction rule: search_step.induct)
  case (quiet l s lvl t u l' lvl')
  note t = config_ok_bound [OF quiet.prems quiet.hyps(1,2)]
  show ?case by (rule config_ok_next [OF afterPropagation_spec [OF t(1)] quiet.hyps(3) t(2)])
next
  case (conflict l s lvl t c u l' lvl')
  note t = config_ok_bound [OF conflict.prems conflict.hyps(1,2)]
  show ?case by (rule config_ok_next [OF afterConflict_spec [OF t(1) t(3) [OF refl] t(2)] conflict.hyps(3) t(2)])
qed

lemma decide_ok:
  assumes "ready a s" and "chooseLit s = Some (l, t)"
  shows "config_ok a (t, l, 2)"
proof -
  have "pinv a 1 {} s" "nbVars s < 2 ^ 30" using assms(1) by (simp_all add: ready_def)
  from wlp_SomeD [OF chooseLit_next [OF this(1)] assms(2)] this(2) show ?thesis by (simp add: config_ok_def)
qed

lemma reachable_ok:
  assumes fit: "fit_problem pb" and st: "pStatus pb \<noteq> Unsat" and sat: "pb_val a pb"
  shows "reachable pb x \<Longrightarrow> config_ok a x"
proof (induction rule: reachable.induct)
  case (start s l t)
  have "ready a s" using wlp_SomeD [OF New_spec [OF fit sat st] start.hyps(1)] by simp
  then have "ready a (s\<lparr>sStatus := Indet\<rparr>)" by (rule ready_same) (simp add: same_core_def same_lists_def)
  then show ?case by (rule decide_ok) (rule start.hyps(2))
next
  case (step x y)
  then show ?case using search_step_ok by blast
next
  case (restart s l lvl t u v l' w)
  note t = config_ok_bound [OF restart.IH restart.hyps(2,3)]
  have "ready a u"
    using wlp_SomeD [OF afterPropagation_spec [OF t(1)] restart.hyps(4)] t(2) by (simp add: outcome_ok_def ready_def)
  then have "ready a (u\<lparr>sStatus := Indet, NbRestarts := NbRestarts u + 1\<rparr>)"
    by (rule ready_same) (simp add: same_core_def same_lists_def)
  then have "ready a v" using wlp_SomeD [OF rebuildOrderHeap_frame restart.hyps(5)] by (rule ready_heuristic)
  then show ?case by (rule decide_ok) (rule restart.hyps(6))
qed

section \<open>Answers\<close>

definition decided :: "solver \<times> outcome \<Rightarrow> bool" where
  "decided = (\<lambda>(s, r). \<forall>st. r = Done st \<longrightarrow> st = Indet \<or> st = Unsat)"

lemma decided_simps [simp]: "decided (s, Next l lvl)" "decided (s, Done st) \<longleftrightarrow> st = Indet \<or> st = Unsat"
  by (simp_all add: decided_def)

lemma learnUnit_decided: "wlp (learnUnit s l) decided"
  unfolding learnUnit_def Let_def by (intro wlp_last) simp_all

lemma learnLong_decided: "wlp (learnLong s c) decided"
  unfolding learnLong_def by (intro wlp_last) simp_all

lemma afterConflict_decided: "wlp (afterConflict s c lvl) decided"
  unfolding afterConflict_def Let_def
  by (intro wlp_last) (simp split: learnt.split add: learnUnit_decided learnLong_decided)

lemma afterPropagation_decided: "wlp (afterPropagation s lvl) decided"
  unfolding afterPropagation_def Let_def by (intro wlp_last) simp_all

interpretation decided_search: search_loop "\<lambda>_ _ _. True" "\<lambda>_. True" "\<lambda>_ st. st = Sat \<or> st = Unsat"
proof (unfold_locales, goal_cases)
  case (1 lvl s l)
  have "wlp (case confl of None \<Rightarrow> afterPropagation t lvl | Some c \<Rightarrow> afterConflict t c lvl) decided" for t confl
    by (simp add: afterConflict_decided afterPropagation_decided split: option.split)
  then have "wlp (case confl of None \<Rightarrow> afterPropagation t lvl | Some c \<Rightarrow> afterConflict t c lvl) (\<lambda>(u, r). case r of
        Done st \<Rightarrow> if st = Indet then True else st = Sat \<or> st = Unsat
      | Next l lvl \<Rightarrow> True)" for t confl
    by (rule wlp_mono) (auto simp: decided_def split: outcome.split)
  then show ?case by (auto intro: wlp_I)
qed (auto intro: wlp_I)

lemma Solve_decided: "wlp (Solve s) (\<lambda>(t, st). st = Sat \<or> st = Unsat)"
proof (cases "sStatus s = Unsat")
  case False
  then show ?thesis by (intro wlp_mono [OF decided_search.Solve]) auto
qed (simp add: Solve_def)

lemma New_Solve:
  assumes "fit_problem pb" and "pStatus pb \<noteq> Unsat" and "pb_models a pb"
  shows "wlp (New pb \<bind> Solve) (\<lambda>(s, st). st = Sat)"
proof -
  have "pb_val (lit_true a) pb" using assms(3) by (simp add: pb_val_lit_true)
  from New_spec [OF assms(1) this assms(2)] show ?thesis
    unfolding wlp_bind by (rule wlp_mono) (use Solve_ready [of "lit_true a"] coherent_lit_true in \<open>auto simp: answer_ok_def\<close>)
qed

lemma parsed_fit:
  assumes cnf: "\<forall>line \<in> set cnf. \<forall>v \<in> set line. v \<noteq> 0 \<and> \<bar>v\<bar> < 2 ^ 30" and n: "n < 2 ^ 30"
    and inv: "pb_inv pb" "\<forall>c \<in> set (Clauses pb). clean (pModel pb) c" and vars: "parsed_vars n cnf pb"
    and run: "ParseSliceNb cnf n = Some pb"
  shows "fit_problem pb"
proof -
  obtain pb1 ret where p: "parseLines (emptyProblem n) cnf = Some (pb1, ret)"
    using run by (auto simp: ParseSliceNb_def parseSlice_def bind_eq_Some_conv)
  have "\<forall>line \<in> set cnf. \<forall>v \<in> set line. \<bar>v\<bar> \<le> 2 ^ 30 - 1" using cnf by fastforce
  from parseLines_bound [OF _ _ this, of "emptyProblem n"] p n have "NbVars pb1 \<le> 2 ^ 30 - 1"
    by (simp add: emptyProblem_def)
  then have "NbVars pb < 2 ^ 30" using vars p by (simp add: parsed_vars_def)
  moreover have "fit_clause c" if "c \<in> set (Clauses pb)" for c
    using inv(2) that by (auto simp: clean_def fit_clause_def prop_clause_def c_weights_def Len_def)
  ultimately show ?thesis using inv(1) by (simp add: fit_problem_def)
qed

section \<open>Two small problems\<close>

text \<open>A satisfiable problem where the first decision leads to a conflict.\<close>

definition conflictExample :: problem where
  "conflictExample = \<lparr>NbVars = 2, Clauses = [NewClause [0, 2], NewClause [0, 3], NewClause [1, 2]],
     pStatus = Indet, Units = [], pModel = [0, 0], minLits = None, minWeights = None\<rparr>"

text \<open>\<open>2 x + y + z \<ge> 3\<close> with \<open>x\<close> incompatible with \<open>y\<close> and with \<open>z\<close>.\<close>

definition pbExample :: problem where
  "pbExample = \<lparr>NbVars = 3, Clauses = [
       \<lparr>lits = [0, 2, 4], lbdValue = 2, c_activity = 0,
         pbData = Some \<lparr>weights = [2, 1, 1], watched = [False, False, False]\<rparr>\<rparr>,
       NewClause [1, 3], NewClause [1, 5]],
     pStatus = Indet, Units = [], pModel = [0, 0, 0], minLits = None, minWeights = None\<rparr>"

definition allTrue :: asg where
  "allTrue v \<longleftrightarrow> True"

lemma conflictExample_ok: "fit_problem conflictExample" "pStatus conflictExample \<noteq> Unsat" "pb_models allTrue conflictExample"
  by (simp_all add: fit_problem_def conflictExample_def pb_inv_def units_model_def fit_clause_def
      c_weights_def NewClause_def Len_def pb_models_def prop_clause_def sat_clause_def terms_def wsum_def
      lit_ok_def lit_true_def allTrue_def Cardinality_def Learned_def learnedMask_def lit_simps less_Suc_eq)

lemma pbExample_ok: "fit_problem pbExample" "pStatus pbExample \<noteq> Unsat"
  by (simp_all add: fit_problem_def pbExample_def pb_inv_def units_model_def fit_clause_def sum_fits_def
      c_weights_def NewClause_def Len_def prop_clause_def lit_ok_def Cardinality_def Learned_def
      learnedMask_def lit_simps less_Suc_eq)

text \<open>The run of the first example up to its conflict, and over it.\<close>

lemma conflictExample_run:
  obtains s l t u c v l' lvl' where "New conflictExample = Some s" "chooseLit (s\<lparr>sStatus := Indet\<rparr>) = Some (l, t)"
    "l \<noteq> - 1" "unifyLiteral t l 2 = Some (u, Some c)" "afterConflict u c 2 = Some (v, Next l' lvl')"
    "NbConflicts v = 1" "trail v \<noteq> []"
proof -
  let ?run = "do { s \<leftarrow> New conflictExample; (l, t) \<leftarrow> chooseLit (s\<lparr>sStatus := Indet\<rparr>);
      (u, r) \<leftarrow> unifyLiteral t l 2; c \<leftarrow> r; (v, out) \<leftarrow> afterConflict u c 2; Some (l, out, NbConflicts v, trail v) }"
  have "wp ?run (\<lambda>(l, out, nb, tr). l \<noteq> - 1 \<and> nb = 1 \<and> tr \<noteq> [] \<and> (case out of Done st \<Rightarrow> False | Next l' lvl' \<Rightarrow> True))"
    by code_simp
  then obtain l out nb tr where out: "?run = Some (l, out, nb, tr)" "l \<noteq> - 1" "nb = 1" "tr \<noteq> []" "case out of Done st \<Rightarrow> False | Next l' lvl' \<Rightarrow> True"
    by (auto simp: wp_iff)
  then obtain l' lvl' where "?run = Some (l, Next l' lvl', nb, tr)" by (cases out) auto
  with out(2-4) show ?thesis by (auto simp: bind_eq_Some_conv intro: that)
qed

lemma conflictExample_val: "pb_val (lit_true allTrue) conflictExample"
  using conflictExample_ok(3) by (simp add: pb_val_lit_true)

lemma conflictExample_conflict:
  obtains u c v r where "pinv (lit_true allTrue) 2 {} u" "confl_ok (lit_true allTrue) 2 u c" "nbVars u < 2 ^ 30"
    "learnClause u c 2 = Some (v, r)"
proof -
  obtain s l t u c v l' lvl' where run: "New conflictExample = Some s" "chooseLit (s\<lparr>sStatus := Indet\<rparr>) = Some (l, t)"
    "l \<noteq> - 1" "unifyLiteral t l 2 = Some (u, Some c)" "afterConflict u c 2 = Some (v, Next l' lvl')"
    by (rule conflictExample_run)
  note t = reachable_ok [OF conflictExample_ok(1,2) conflictExample_val reachable.start [OF run(1,2)]]
  note u = config_ok_bound [OF t run(3,4)]
  let ?run = "do { s \<leftarrow> New conflictExample; (l, t) \<leftarrow> chooseLit (s\<lparr>sStatus := Indet\<rparr>);
      (u, r) \<leftarrow> unifyLiteral t l 2; c \<leftarrow> r; learnClause u c 2 }"
  have "?run \<noteq> None" by code_simp
  then obtain w r where "learnClause u c 2 = Some (w, r)" using run by auto
  with u(1) u(3) [OF refl] u(2) show ?thesis by (rule that)
qed

section \<open>Properties\<close>

text \<open>
  C6. The search only learns what the problem entails, when each constraint is over distinct variables
  and has positive weights that sum up to less than \<open>2 ^ 62\<close>: in every state that the loops of
  \<open>Solve\<close> reach through decisions, propagation, conflicts, backjumps, restarts and forgotten
  clauses, every clause of the solver, learned ones included, and every binding of the top level
  is true in every model of the problem.
\<close>

theorem search_entails:
  assumes "fit_problem pb" and "pStatus pb \<noteq> Unsat" and "reachable pb (s, l, lvl)" and "pb_sat a pb"
  shows "(\<forall>c \<in> set (store s). sat_clause a c)
     \<and> (\<forall>k \<in> set (trail s). lev (model s) k = 1 \<longrightarrow> lit_true a k)"
proof -
  have "pb_val (lit_true a) pb" using assms(4) by (simp add: pb_val_lit_true pb_sat_def)
  from reachable_ok [OF assms(1,2) this assms(3)] have core: "core (lit_true a) s"
    by (simp add: config_ok_def nextOk_def)
  then have "\<forall>c \<in> set (store s). sat_clause a c"
    by (simp add: core_def clauses_ok_def clause_ok_def wsat_lit_true)
  with core_trail(5) [OF core] show ?thesis by blast
qed

theorem search_entails_witness:
  "\<exists>s l lvl. reachable conflictExample (s, l, lvl) \<and> NbConflicts s = 1 \<and> trail s \<noteq> []
     \<and> (\<forall>c \<in> set (store s). sat_clause allTrue c)
     \<and> (\<forall>k \<in> set (trail s). lev (model s) k = 1 \<longrightarrow> lit_true allTrue k)"
proof -
  obtain s l t u c v l' lvl' where run: "New conflictExample = Some s" "chooseLit (s\<lparr>sStatus := Indet\<rparr>) = Some (l, t)"
    "l \<noteq> - 1" "unifyLiteral t l 2 = Some (u, Some c)" "afterConflict u c 2 = Some (v, Next l' lvl')"
    "NbConflicts v = 1" "trail v \<noteq> []" by (rule conflictExample_run)
  have "reachable conflictExample (v, l', lvl')"
    by (rule reachable.step [OF reachable.start [OF run(1,2)] search_step.conflict [OF run(3-5)]])
  with search_entails [OF conflictExample_ok(1,2) this, of allTrue] conflictExample_ok(2,3) run(6,7) show ?thesis
    unfolding pb_sat_def by blast
qed

text \<open>
  C5. The answers for a problem of clauses, cardinality and pseudo-boolean constraints, each over
  distinct variables, with positive weights that sum up to less than \<open>2 ^ 62\<close>: when \<open>Solve\<close> returns
  on a new solver it answers Sat or Unsat, and Unsat only when no assignment satisfies the problem.
\<close>

theorem Solve_unsat_correct:
  assumes "fit_problem pb" and "pStatus pb \<noteq> Unsat"
  shows "wlp (New pb \<bind> Solve) (\<lambda>(s, st). st = Sat \<or> st = Unsat \<and> (\<forall>a. \<not> pb_sat a pb))"
proof (cases "\<exists>a. pb_sat a pb")
  case True
  then obtain a where "pb_models a pb" by (auto simp: pb_sat_def)
  show ?thesis by (rule wlp_mono [OF New_Solve [OF assms \<open>pb_models a pb\<close>]]) auto
next
  case False
  have "wlp (New pb \<bind> Solve) (\<lambda>(s, st). st = Sat \<or> st = Unsat)"
    unfolding wlp_bind by (rule wlp_I) (rule Solve_decided)
  then show ?thesis by (rule wlp_mono) (use False in auto)
qed

theorem Solve_unsat_correct_witness:
  "map_option snd (New pbExample \<bind> Solve) = Some Unsat \<and> (\<forall>a. \<not> pb_sat a pbExample)"
proof -
  have run: "map_option snd (New pbExample \<bind> Solve) = Some Unsat" by code_simp
  then show ?thesis using Solve_unsat_correct [OF pbExample_ok] by (auto simp: wlp_iff)
qed

text \<open>
  C7. Conflict analysis: the clause or the unit learned from a conflict is true in every model of
  the problem; all its literals are false at that moment, the first one alone at the level of
  the conflict, and the second one has the highest level of the others.
\<close>

theorem learnClause_correct:
  assumes "pinv (lit_true a) lvl {} s" and "1 < lvl" and "confl_ok (lit_true a) lvl s c" and "nbVars s < 2 ^ 30"
  shows "wlp (learnClause s c lvl) (\<lambda>(s', r). trail s' = trail s \<and> model s' = model s \<and> (case r of
       LearntEmpty \<Rightarrow> False
     | LearntUnit l \<Rightarrow> lit_true a l \<and> isFalse (model s) l \<and> lev (model s) l = lvl
     | LearntClause d \<Rightarrow> d = length (store s) \<and> (let ls = lits (store s' ! d) in
         2 \<le> length ls \<and> sat_clause a (store s' ! d) \<and> (\<forall>k \<in> set ls. isFalse (model s) k)
         \<and> lev (model s) (ls ! 0) = lvl
         \<and> (\<forall>k \<in> set (tl ls). lev (model s) k < lvl \<and> lev (model s) k \<le> lev (model s) (ls ! 1)))))"
proof (rule wlp_mono [OF learnClause_spec [OF assms]], clarify)
  fix s' r assume post: "learn_post (lit_true a) lvl s (s', r)"
  show "trail s' = trail s \<and> model s' = model s \<and> (case r of
       LearntEmpty \<Rightarrow> False
     | LearntUnit l \<Rightarrow> lit_true a l \<and> isFalse (model s) l \<and> lev (model s) l = lvl
     | LearntClause d \<Rightarrow> d = length (store s) \<and> (let ls = lits (store s' ! d) in
         2 \<le> length ls \<and> sat_clause a (store s' ! d) \<and> (\<forall>k \<in> set ls. isFalse (model s) k)
         \<and> lev (model s) (ls ! 0) = lvl
         \<and> (\<forall>k \<in> set (tl ls). lev (model s) k < lvl \<and> lev (model s) k \<le> lev (model s) (ls ! 1))))"
  proof (cases r)
    case (LearntClause d)
    then obtain t cl where "heuristic s t" "s' = t\<lparr>store := store t @ [cl]\<rparr>" "d = length (store s)" "learnt_ok (lit_true a) lvl s cl"
      using post by (auto simp: learn_post_def)
    then show ?thesis
      using LearntClause store_same_length [of "store s" "store t"]
      by (auto simp: heuristic_def learnt_ok_def clause_ok_def wsat_lit_true Len_def Let_def nth_append)
  qed (use post in \<open>auto simp: learn_post_def heuristic_def\<close>)
qed

theorem learnClause_correct_witness:
  "\<exists>s c s' r. confl_ok (lit_true allTrue) 2 s c \<and> learnClause s c 2 = Some (s', r) \<and> trail s' = trail s \<and> (case r of
       LearntEmpty \<Rightarrow> False
     | LearntUnit l \<Rightarrow> lit_true allTrue l \<and> isFalse (model s) l
     | LearntClause d \<Rightarrow> sat_clause allTrue (store s' ! d))"
proof -
  obtain s c s' r where s: "pinv (lit_true allTrue) 2 {} s" "confl_ok (lit_true allTrue) 2 s c" "nbVars s < 2 ^ 30"
    and run: "learnClause s c 2 = Some (s', r)" by (rule conflictExample_conflict)
  from wlp_SomeD [OF learnClause_correct [OF s(1) _ s(2,3)] run] s(2) run
  show ?thesis by (intro exI [of _ s] exI [of _ c] exI [of _ s'] exI [of _ r]) (auto simp: Let_def split: learnt.splits)
qed

text \<open>
  C8. Propagation: binding a literal chosen by the search and propagating it keeps the invariant
  of the search (which bounds the sum of the weights of each constraint by \<open>2 ^ 62\<close>), up to the fixpoint
  or the conflict, which is reported only for a constraint with
  a false literal of the current level and a false literal that is true in the valuation \<open>a\<close>.
\<close>

theorem unifyLiteral_correct:
  assumes "nextOk a lvl s l" and "l \<noteq> - 1"
  shows "wlp (unifyLiteral s l lvl) (\<lambda>(s', r). pinv a lvl {} s' \<and> nbVars s' = nbVars s
     \<and> (case r of None \<Rightarrow> True | Some c \<Rightarrow> confl_ok a lvl s' c))"
  by (rule wlp_mono [OF unifyLiteral_spec]) (use assms in \<open>auto simp: nextOk_def split: option.split\<close>)

theorem unifyLiteral_correct_witness:
  "\<exists>s l s' c. l \<noteq> - 1 \<and> unifyLiteral s l 2 = Some (s', Some c) \<and> pinv (lit_true allTrue) 2 {} s' \<and> confl_ok (lit_true allTrue) 2 s' c"
proof -
  obtain s l t u c where run: "New conflictExample = Some s" "chooseLit (s\<lparr>sStatus := Indet\<rparr>) = Some (l, t)"
    "l \<noteq> - 1" "unifyLiteral t l 2 = Some (u, Some c)" by (rule conflictExample_run)
  have "nextOk (lit_true allTrue) 2 t l"
    using reachable_ok [OF conflictExample_ok(1,2) conflictExample_val reachable.start [OF run(1,2)]] by (simp add: config_ok_def)
  from wlp_SomeD [OF unifyLiteral_correct [OF this run(3)] run(4)] run show ?thesis by auto
qed



end
