(* ===== verification/Watched.thy ===== *)
theory Watched
  imports PropPB
begin

text \<open>
  Watching is complete: a clause of the problem is in the lists of its first two literals, and
  when one of them is false and its negation has been propagated, a literal of the clause is true
  at the same level or below. So when all variables are bound and propagated, the clauses of the
  problem are true. The lists of the cardinality and pseudo-boolean constraints are empty here:
  the problem consists of clauses. The structural invariant is taken for the valuation where all
  literals are true, so what follows holds of every run.
\<close>

section \<open>Clauses of the problem and their watches\<close>

abbreviation every :: valuation where
  "every \<equiv> (\<lambda>_. True)"

text \<open>The first clauses of the store are those of the problem; the other ones were learned.\<close>

definition orig :: "clause list \<Rightarrow> solver \<Rightarrow> bool" where
  "orig cs s \<longleftrightarrow> length cs \<le> length (store s)
     \<and> (\<forall>c < length cs. prop_clause (store s ! c) \<and> 2 \<le> Len (store s ! c) \<and> csame (cs ! c) (store s ! c))
     \<and> (\<forall>d \<in> set (learned s). length cs \<le> d)
     \<and> (\<forall>l < length (wlistPb s). wlistPb s ! l = [])"

definition ends :: "solver \<Rightarrow> cid \<Rightarrow> lit set" where
  "ends s c = {lits (store s ! c) ! 0, lits (store s ! c) ! 1}"

definition guard :: "solver \<Rightarrow> cid \<Rightarrow> lit \<Rightarrow> bool" where
  "guard s c w \<longleftrightarrow> (\<exists>k \<in> set (lits (store s ! c)). isTrue (model s) k \<and> lev (model s) k \<le> lev (model s) w)"

text \<open>The propagated literals are \<open>P\<close>.\<close>

definition guarded :: "clause list \<Rightarrow> lit set \<Rightarrow> solver \<Rightarrow> bool" where
  "guarded cs P s \<longleftrightarrow> (\<forall>c < length cs. \<forall>w \<in> ends s c. Negation w \<in> P \<longrightarrow> guard s c w)"

definition home :: "watcher list list \<Rightarrow> solver \<Rightarrow> cid \<Rightarrow> watcher list list" where
  "home W s c = (if Len (store s ! c) = 2 then wlistBin s else W)"

definition full :: "clause list \<Rightarrow> watcher list list \<Rightarrow> solver \<Rightarrow> bool" where
  "full cs W s \<longleftrightarrow> (\<forall>c < length cs. \<forall>p \<in> ends s c.
       c \<in> w_clause ` set (home W s c ! nat (Negation p)))
     \<and> (\<forall>l < length W. \<forall>w \<in> set (W ! l). other w \<in> set (lits (store s ! w_clause w)))"

text \<open>What propagation of clauses leaves alone.\<close>

definition propFrame :: "solver \<Rightarrow> solver \<Rightarrow> bool" where
  "propFrame s s' \<longleftrightarrow> learned s' = learned s \<and> varQueue s' = varQueue s \<and> wlistBin s' = wlistBin s
     \<and> wlistPb s' = wlistPb s \<and> wlistCardAMO s' = wlistCardAMO s \<and> length (wlist s') = length (wlist s)"

lemma propFrame_refl [simp]: "propFrame s s"
  by (simp add: propFrame_def)

lemma propFrame_trans: "propFrame s t \<Longrightarrow> propFrame t u \<Longrightarrow> propFrame s u"
  by (simp add: propFrame_def)

lemma origD:
  assumes "orig cs s" and "c < length cs"
  shows "c < length (store s)" "prop_clause (store s ! c)" "2 \<le> Len (store s ! c)" "csame (cs ! c) (store s ! c)"
    "ends s c \<subseteq> set (lits (store s ! c))"
proof -
  show "c < length (store s)" "prop_clause (store s ! c)" "csame (cs ! c) (store s ! c)"
    and len: "2 \<le> Len (store s ! c)" using assms by (auto simp: orig_def)
  have "0 < length (lits (store s ! c))" "1 < length (lits (store s ! c))" using len by (auto simp: Len_def simp del: length_greater_0_conv)
  then show "ends s c \<subseteq> set (lits (store s ! c))" unfolding ends_def by (metis empty_subsetI insert_subset nth_mem)
qed

lemma orig_same:
  assumes "orig cs s" and "store_same (store s) (store s')" and "learned s' = learned s" and "wlistPb s' = wlistPb s"
  shows "orig cs s'"
proof -
  have "prop_clause (store s' ! c) \<and> 2 \<le> Len (store s' ! c) \<and> csame (cs ! c) (store s' ! c)" if "c < length cs" for c
  proof -
    note c = origD [OF assms(1) that]
    have "csame (store s ! c) (store s' ! c)" using store_same_nth [OF assms(2) c(1)] .
    then show ?thesis using c csame_prop csame_lits(2) csame_trans by metis
  qed
  then show ?thesis
    using assms store_same_length [OF assms(2)] by (simp add: orig_def)
qed

text \<open>The state apart from the bindings.\<close>

lemma full_cong:
  assumes "store s' = store s" and "wlistBin s' = wlistBin s"
  shows "full cs W s' = full cs W s"
proof -
  have "home W s' = home W s" "ends s' = ends s" using assms by (simp_all add: fun_eq_iff home_def ends_def)
  then show ?thesis using assms by (simp add: full_def)
qed

lemma orig_cong:
  "store s' = store s \<Longrightarrow> learned s' = learned s \<Longrightarrow> wlistPb s' = wlistPb s \<Longrightarrow> orig cs s' = orig cs s"
  by (simp add: orig_def)

section \<open>Guards survive further bindings\<close>

lemma lev_le:
  assumes "pinv a lvl X s" and "lit_ok (nbVars s) k" and "isTrue (model s) k"
  shows "lev (model s) k \<le> lvl"
proof -
  note i = core_index [OF pinv_core [OF assms(1)] assms(2)]
  have "model s ! nat (Lit_Var k) \<noteq> 0" using assms(3) by (simp add: isTrue_def)
  then obtain j where "j \<in> set (trail s)" "Lit_Var j = Lit_Var k"
    using assms(1) i by (force simp: pinv_def core_def bindings_ok_def)
  then show ?thesis using assms(1) by (metis pinv_def)
qed

lemma core_lit: "core a s \<Longrightarrow> c < length (store s) \<Longrightarrow> k \<in> set (lits (store s ! c)) \<Longrightarrow> lit_ok (nbVars s) k"
  using core_clause by (fastforce simp: clause_ok_def)

lemma guard_progress:
  assumes core: "core a s" and c: "c < length (store s)" and pr: "progress lvl' s s'"
    and w: "Negation w \<in> set (trail s)" "0 \<le> w" and g: "guard s c w"
  shows "guard s' c w"
proof -
  obtain k where k: "k \<in> set (lits (store s ! c))" "isTrue (model s) k" "lev (model s) k \<le> lev (model s) w"
    using g by (auto simp: guard_def)
  have keep: "model s' ! v = model s ! v" if "v < length (model s)" "model s ! v \<noteq> 0" for v
    using pr that by (simp add: progress_def)
  have "nat (Lit_Var k) < length (model s)"
    using core_index [OF core core_lit [OF core c k(1)]] by simp
  then have mk: "model s' ! nat (Lit_Var k) = model s ! nat (Lit_Var k)"
    using keep k(2) by (simp add: isTrue_def)
  have "nat (Lit_Var w) < length (model s)" "model s ! nat (Lit_Var w) \<noteq> 0"
    using core_trail(4) [OF core w(1)] trail_bound [OF core w(1)] w(2) by simp_all
  then have mw: "model s' ! nat (Lit_Var w) = model s ! nat (Lit_Var w)" by (rule keep)
  have "store_same (store s) (store s')" using pr by (simp add: progress_def)
  then have "set (lits (store s' ! c)) = set (lits (store s ! c))"
    using csame_lits(1) store_same_nth [OF _ c] by blast
  moreover have "isTrue (model s') k" using k(2) mk by (simp add: isTrue_def)
  ultimately show ?thesis unfolding guard_def using k(1,3) mk mw by (intro bexI [of _ k]) simp_all
qed

lemma end_ok:
  assumes "core a s" and "orig cs s" and "c < length cs" and "w \<in> ends s c"
  shows "lit_ok (nbVars s) w" "0 \<le> w" "w \<in> set (lits (store s ! c))"
proof -
  show "w \<in> set (lits (store s ! c))" using origD(5) [OF assms(2,3)] assms(4) by blast
  then show "lit_ok (nbVars s) w" by (rule core_lit [OF assms(1) origD(1) [OF assms(2,3)]])
  then show "0 \<le> w" by (simp add: lit_ok_def)
qed

lemma guarded_progress:
  assumes "core a s" and "orig cs s" and "progress lvl' s s'" and "P \<subseteq> set (trail s)" and "guarded cs P s"
    and "\<And>c. c < length cs \<Longrightarrow> ends s' c = ends s c"
  shows "guarded cs P s'"
  unfolding guarded_def
proof (intro allI impI ballI)
  fix c w assume c: "c < length cs" "w \<in> ends s' c" "Negation w \<in> P"
  then have w: "w \<in> ends s c" using assms(6) by simp
  then have "guard s c w" using c assms(5) by (simp add: guarded_def)
  then show "guard s' c w"
    using guard_progress [OF assms(1) origD(1) [OF assms(2) c(1)] assms(3)] c(3) assms(4) end_ok(2) [OF assms(1,2) c(1) w] by blast
qed

lemma guard_store:
  "csame (store s ! d) cl \<Longrightarrow> d < length (store s) \<Longrightarrow> guard (s\<lparr>store := (store s)[d := cl]\<rparr>) c w = guard s c w"
  using csame_lits(1) [of "store s ! d" cl] by (cases "c = d") (simp_all add: guard_def)

lemma orig_store:
  "orig cs s \<Longrightarrow> csame (store s ! d) cl \<Longrightarrow> d < length (store s) \<Longrightarrow> orig cs (s\<lparr>store := (store s)[d := cl]\<rparr>)"
  using orig_same [of cs s "s\<lparr>store := (store s)[d := cl]\<rparr>"] store_same_put by simp

section \<open>The loop over the watchers\<close>

definition awaited :: "clause list \<Rightarrow> lit \<Rightarrow> solver \<Rightarrow> watcher list \<Rightarrow> bool" where
  "awaited cs l s ws \<longleftrightarrow> (\<forall>c < length cs. Negation l \<in> ends s c \<longrightarrow> c \<notin> w_clause ` set ws \<longrightarrow> guard s c (Negation l))"

definition comp_loop :: "clause list \<Rightarrow> lit set \<Rightarrow> declevel \<Rightarrow> lit \<Rightarrow> solver \<Rightarrow> solver \<Rightarrow> watcher list \<Rightarrow> watcher list \<Rightarrow> bool" where
  "comp_loop cs P lvl l s0 s ks ws \<longleftrightarrow> sound_loop every lvl l s0 s ks ws \<and> propFrame s0 s \<and> orig cs s
     \<and> full cs ((wlist s)[nat l := ks @ ws]) s \<and> guarded cs P s \<and> awaited cs l s ws
     \<and> P \<subseteq> set (trail s) \<and> nat l < length (wlist s)"

lemma full_update:
  assumes "full cs (W[i := ws]) s" and "i < length W" and "w_clause ` set ws \<inter> {..<length cs} \<subseteq> w_clause ` set ws'"
    and "\<And>w. w \<in> set ws' \<Longrightarrow> w \<notin> set ws \<Longrightarrow> other w \<in> set (lits (store s ! w_clause w))"
  shows "full cs (W[i := ws']) s"
proof -
  have "c \<in> w_clause ` set (W[i := ws'] ! j)" if "c \<in> w_clause ` set (W[i := ws] ! j)" "c < length cs" for c j
    using that assms(2,3) by (cases "j = i") auto
  then have "c \<in> w_clause ` set (home (W[i := ws']) s c ! j)"
    if "c \<in> w_clause ` set (home (W[i := ws]) s c ! j)" "c < length cs" for c j
    using that by (simp add: home_def split: if_splits)
  moreover have "other w \<in> set (lits (store s ! w_clause w))" if w: "j < length W" "w \<in> set (W[i := ws'] ! j)" for j w
  proof -
    have old: "other w \<in> set (lits (store s ! w_clause w))" if "w \<in> set (W[i := ws] ! j)"
      using that w(1) assms(1) by (simp add: full_def)
    show ?thesis
    proof (cases "j = i")
      case True
      then show ?thesis using w old assms(2,4) by (cases "w \<in> set ws") auto
    qed (use w old in simp)
  qed
  ultimately show ?thesis using assms(1) by (simp add: full_def)
qed

text \<open>A watcher is replaced by another one of the same clause.\<close>

lemma full_replace:
  assumes "full cs (W[i := ks @ w # ws]) s" and "i < length W" and "f \<in> set (lits (store s ! w_clause w))"
  shows "full cs (W[i := (ks @ [\<lparr>other = f, w_clause = w_clause w\<rparr>]) @ ws]) s"
  by (rule full_update [OF assms(1,2)]) (use assms(3) in auto)

lemma awaited_true:
  assumes i: "sound_loop every lvl l s0 s ks (w # ws)" and a: "awaited cs l s (w # ws)" and o: "orig cs s"
    and k: "k \<in> set (lits (store s ! w_clause w))" "isTrue (model s) k"
  shows "awaited cs l s ws"
  unfolding awaited_def
proof (intro allI impI)
  fix c assume c: "c < length cs" "Negation l \<in> ends s c" "c \<notin> w_clause ` set ws"
  have p: "pinv every lvl {l} s" "lev (model s) l = lvl" using i by (simp_all add: sound_loop_def)
  show "guard s c (Negation l)"
  proof (cases "c = w_clause w")
    case True
    have "lev (model s) k \<le> lvl"
      using lev_le [OF p(1) clause_false_lit(2) [OF p(1) sound_clause(1) [OF i] k(1)] k(2)] .
    then show ?thesis using k p(2) sound_literal(1) [OF i] True by (auto simp: guard_def)
  qed (use a c in \<open>simp add: awaited_def\<close>)
qed

text \<open>The swap that puts the false literal second.\<close>

lemma full_csame:
  assumes "full cs W s" and "store_same (store s) (store s')" and "wlistBin s' = wlistBin s"
    and "\<And>c. c < length cs \<Longrightarrow> ends s' c = ends s c" and "length cs \<le> length (store s)"
    and "\<And>l w. l < length W \<Longrightarrow> w \<in> set (W ! l) \<Longrightarrow> w_clause w < length (store s)"
  shows "full cs W s'"
proof -
  have lits: "set (lits (store s' ! c)) = set (lits (store s ! c))" "Len (store s' ! c) = Len (store s ! c)"
    if "c < length (store s)" for c
    using csame_lits [OF store_same_nth [OF assms(2) that]] by simp_all
  then have "home W s' c = home W s c" if "c < length cs" for c
    using that assms(3,5) by (simp add: home_def)
  then show ?thesis using assms(1,4,6) lits(1) by (simp add: full_def)
qed

text \<open>All watchers are about clauses of the store.\<close>

lemma list_bound:
  assumes "sound_loop a lvl l s0 s ks ws" and "0 \<le> l" and "i < length (wlist s)"
    and "w \<in> set ((wlist s)[nat l := ks @ ws] ! i)"
  shows "w_clause w < length (store s)"
proof (cases "i = nat l")
  case True
  then have "w \<in> set (ks @ ws)" using assms(3,4) by simp
  then show ?thesis using assms(1) by (auto simp: sound_loop_def long_list_def long_ok_def)
next
  case False
  then have "w \<in> set (wlist s ! i)" "int i \<notin> {l}" using assms(2,4) by auto
  then show ?thesis
    using assms(1,3) by (auto simp: sound_loop_def pinv_def watch_except_def long_list_def long_ok_def)
qed

lemma ends_exch:
  assumes "swap (store s ! d) 0 1 = Some cl" and "d < length (store s)"
  shows "ends (s\<lparr>store := (store s)[d := cl]\<rparr>) c = ends s c"
proof (cases "c = d")
  case True
  have len: "0 < length (lits (store s ! d))" "1 < length (lits (store s ! d))" and "lits cl = exch (lits (store s ! d)) 0 1"
    using swap_spec [OF assms(1)] by (auto simp: Len_def simp del: length_greater_0_conv)
  then have "lits cl ! 0 = lits (store s ! d) ! 1" "lits cl ! 1 = lits (store s ! d) ! 0"
    using nth_exch [OF len len(1)] nth_exch [OF len len(2)] by simp_all
  then show ?thesis using assms(2) True by (auto simp: ends_def)
qed (simp add: ends_def)

lemma comp_normalize:
  assumes i: "comp_loop cs P lvl l s0 s ks (w # ws)" and sw: "swap (store s ! w_clause w) 0 1 = Some cl"
    and new: "sound_loop every lvl l s0 (s\<lparr>store := (store s)[w_clause w := cl]\<rparr>) ks (w # ws)"
  shows "comp_loop cs P lvl l s0 (s\<lparr>store := (store s)[w_clause w := cl]\<rparr>) ks (w # ws)"
proof -
  let ?t = "s\<lparr>store := (store s)[w_clause w := cl]\<rparr>"
  have s: "sound_loop every lvl l s0 s ks (w # ws)" "orig cs s" "full cs ((wlist s)[nat l := ks @ w # ws]) s"
    "guarded cs P s" "awaited cs l s (w # ws)" using i by (simp_all add: comp_loop_def)
  have d: "w_clause w < length (store s)" using sound_clause(1) [OF s(1)] .
  have cl: "csame (store s ! w_clause w) cl" using swap_spec [OF sw] by simp
  note e = ends_exch [OF sw d]
  have "full cs ((wlist s)[nat l := ks @ w # ws]) ?t"
    by (rule full_csame [OF s(3)])
      (use e s(2) cl d list_bound [OF s(1) sound_literal(1) [OF s(1)]] in \<open>auto simp: orig_def intro: store_same_put\<close>)
  moreover have "guarded cs P ?t" "awaited cs l ?t (w # ws)"
    using s(4,5) e guard_store [OF cl d] by (simp_all add: guarded_def awaited_def)
  ultimately show ?thesis
    using i new orig_store [OF s(2) cl d] by (simp add: comp_loop_def propFrame_def)
qed

text \<open>The move of the watch.\<close>

lemma comp_move:
  fixes w
  defines "d \<equiv> w_clause w"
  assumes i: "comp_loop cs P lvl l s0 s ks (w # ws)" and second: "lits (store s ! d) ! 1 = Negation l"
    and k: "2 \<le> k" "k < Len (store s ! d)" "\<not> isFalse (model s) (lits (store s ! d) ! k)"
    and sw: "swap (store s ! d) 1 k = Some cl"
    and m: "m = Negation (lits (store s ! d) ! k)" "0 \<le> m" "m < int (length (wlist s))"
    and t: "t = s\<lparr>store := (store s)[d := cl],
      wlist := (wlist s)[nat m := wlist s ! nat m @ [\<lparr>other = lits (store s ! d) ! 0, w_clause = d\<rparr>]]\<rparr>"
    and new: "sound_loop every lvl l s0 t ks ws"
  shows "comp_loop cs P lvl l s0 t ks ws"
proof -
  have s: "sound_loop every lvl l s0 s ks (w # ws)" "orig cs s" "full cs ((wlist s)[nat l := ks @ w # ws]) s"
    "guarded cs P s" "awaited cs l s (w # ws)" "P \<subseteq> set (trail s)" using i by (simp_all add: comp_loop_def)
  have p: "pinv every lvl {l} s" using s(1) by (simp add: sound_loop_def)
  let ?ls = "lits (store s ! d)"
  have d: "d < length (store s)" using sound_clause(1) [OF s(1)] by (simp add: d_def)
  have cl: "csame (store s ! d) cl" "lits cl = exch ?ls 1 k" using swap_spec [OF sw] by simp_all
  have dist: "distinct ?ls" using core_clause [OF pinv_core [OF p] d] by (auto simp: clause_ok_def distinct_map)
  have len: "0 < length ?ls" "1 < length ?ls" "k < length ?ls" using k by (auto simp: Len_def)
  have l: "0 \<le> l" using sound_literal(1) [OF s(1)] .
  have new2: "lits cl ! 0 = ?ls ! 0" "lits cl ! 1 = ?ls ! k"
    using cl(2) k(1) len nth_exch [of 1 ?ls k 0] nth_exch [of 1 ?ls k 1] by auto
  have ne: "?ls ! k \<noteq> Negation l" "?ls ! 0 \<noteq> Negation l"
    using dist len k(1) second nth_eq_iff_index_eq [of ?ls k 1] nth_eq_iff_index_eq [of ?ls 0 1] by auto
  have ml: "m \<noteq> l" using m(1) ne(1) by (metis Negation_Negation)
  have pos: "0 \<le> x" if "x \<in> set ?ls" for x using clause_false_lit(3) [OF p d that] .
  have lk: "lit_ok (nbVars s) (?ls ! k)" using clause_false_lit(2) [OF p d nth_mem [OF len(3)]] .
  have e: "ends t c = ends s c" if "c \<noteq> d" for c using that by (simp add: ends_def t)
  have ed: "ends t d = {?ls ! 0, ?ls ! k}" "ends s d = {?ls ! 0, Negation l}"
    using d new2 second by (simp_all add: ends_def t)
  have g: "guard t c x = guard s c x" for c x using guard_store [OF cl(1) d] by (simp add: guard_def t)
  have notk: "Negation (?ls ! k) \<notin> set (trail s)"
    using false_in_trail [OF pinv_core [OF p] lk] k(3) by blast
  have "guarded cs P t"
    unfolding guarded_def g
  proof (intro allI ballI impI)
    fix c x assume c: "c < length cs" "x \<in> ends t c" "Negation x \<in> P"
    have "x \<in> ends s c" using c(2,3) e ed notk s(6) by (cases "c = d") auto
    then show "guard s c x" using c s(4) by (simp add: guarded_def)
  qed
  moreover have "awaited cs l t ws"
    unfolding awaited_def g
  proof (intro allI impI)
    fix c assume c: "c < length cs" "Negation l \<in> ends t c" "c \<notin> w_clause ` set ws"
    then have "c \<noteq> d" using ed(1) ne by auto
    then show "guard s c (Negation l)" using c s(5) e by (simp add: awaited_def d_def)
  qed
  moreover have "full cs ((wlist t)[nat l := ks @ ws]) t"
  proof -
    let ?W = "(wlist s)[nat l := ks @ w # ws]" and ?W' = "(wlist t)[nat l := ks @ ws]"
    have nl: "nat m \<noteq> nat l" using ml m(2) l by (simp add: eq_nat_nat_iff)
    have b: "nat l < length (wlist s)" "nat m < length (wlist s)"
      using i m(2,3) by (simp_all add: comp_loop_def nat_less_iff)
    have grow: "set (?W ! j) \<subseteq> insert w (set (?W' ! j))" for j
      using nl b by (cases "j = nat l"; cases "j = nat m") (auto simp: t)
    have other: "set (?W ! j) \<subseteq> set (?W' ! j)" if "j \<noteq> nat l" for j
      using nl b that by (cases "j = nat m") (auto simp: t)
    have "c \<in> w_clause ` set (home ?W' t c ! nat (Negation x))"
      if c: "c < length cs" "x \<in> ends t c" for c x
    proof (cases "c = d")
      case False
      then have old: "c \<in> w_clause ` set (home ?W s c ! nat (Negation x))"
        using s(3) c e unfolding full_def by blast
      have "Len (store t ! c) = Len (store s ! c)" using False by (simp add: t)
      then show ?thesis
        using old False grow [of "nat (Negation x)"] by (auto simp: home_def t d_def split: if_splits)
    next
      case True
      have L: "Len (store t ! c) \<noteq> 2" "Len (store s ! c) \<noteq> 2" using True k d csame_lits(2) [OF cl(1)] by (auto simp: t)
      show ?thesis
      proof (cases "x = ?ls ! k")
        case True
        have "d \<in> w_clause ` set (?W' ! nat m)" using nl m(2,3) by (simp add: t nat_less_iff)
        then show ?thesis using L True m(1) \<open>c = d\<close> by (simp add: home_def)
      next
        case False
        then have x: "x = ?ls ! 0" using c(2) ed(1) \<open>c = d\<close> by simp
        have "Negation x \<noteq> l" using ne(2) x by (metis Negation_Negation)
        moreover have "0 \<le> x" using pos x nth_mem [OF len(1)] by simp
        ultimately have "nat (Negation x) \<noteq> nat l" using l by (simp add: eq_nat_nat_iff)
        then have "set (?W ! nat (Negation x)) \<subseteq> set (?W' ! nat (Negation x))" by (rule other)
        moreover have "d \<in> w_clause ` set (?W ! nat (Negation x))"
          using s(3) c(1) L(2) \<open>c = d\<close> x ed(2) unfolding full_def home_def by fastforce
        ultimately show ?thesis using L \<open>c = d\<close> by (auto simp: home_def)
      qed
    qed
    moreover have "other u \<in> set (lits (store t ! w_clause u))" if u: "j < length ?W'" "u \<in> set (?W' ! j)" for j u
    proof -
      have lits: "set (lits (store t ! c)) = set (lits (store s ! c))" for c
        using csame_lits(1) [OF cl(1)] d by (cases "c = d") (simp_all add: t)
      show ?thesis
      proof (cases "u \<in> set (?W ! j)")
        case True
        then show ?thesis using s(3) u(1) lits unfolding full_def by (simp add: t)
      next
        case False
        then have "u = \<lparr>other = ?ls ! 0, w_clause = d\<rparr>"
          using u nl m(3) by (cases "j = nat l"; cases "j = nat m") (auto simp: t)
        then show ?thesis using lits nth_mem [OF len(1)] by simp
      qed
    qed
    ultimately show ?thesis by (simp add: full_def)
  qed
  moreover have "orig cs t" using orig_same [OF s(2), of t] store_same_put [OF d cl(1)] by (simp add: t)
  moreover have "propFrame s0 t" "P \<subseteq> set (trail t)" "nat l < length (wlist t)"
    using i by (simp_all add: comp_loop_def propFrame_def t)
  ultimately show ?thesis using new by (simp add: comp_loop_def)
qed

text \<open>The first literal is bound.\<close>

lemma comp_unit:
  fixes w
  defines "d \<equiv> w_clause w"
  assumes i: "comp_loop cs P lvl l s0 s ks (w # ws)" and u: "model s ! nat (Lit_Var (lits (store s ! d) ! 0)) = 0"
    and b: "boundFor s d lvl (lits (store s ! d) ! 0) t"
    and new: "sound_loop every lvl l s0 t (ks @ [\<lparr>other = lits (store s ! d) ! 0, w_clause = d\<rparr>]) ws"
    and pr: "progress lvl s t"
  shows "comp_loop cs P lvl l s0 t (ks @ [\<lparr>other = lits (store s ! d) ! 0, w_clause = d\<rparr>]) ws"
proof -
  let ?f = "lits (store s ! d) ! 0"
  let ?ks = "ks @ [\<lparr>other = ?f, w_clause = d\<rparr>]"
  have s: "sound_loop every lvl l s0 s ks (w # ws)" "orig cs s" "full cs ((wlist s)[nat l := ks @ w # ws]) s"
    "guarded cs P s" "awaited cs l s (w # ws)" "P \<subseteq> set (trail s)" using i by (simp_all add: comp_loop_def)
  have p: "pinv every lvl {l} s" "l \<in> set (trail s)" using s(1) by (simp_all add: sound_loop_def)
  note c = sound_clause [OF s(1), folded d_def] and l = sound_literal [OF s(1)]
  have store: "store_same (store s) (store t)" "map lits (store t) = map lits (store s)" using b by (simp_all add: boundFor_def)
  have lits: "lits (store t ! x) = lits (store s ! x)" if "x < length (store s)" for x
    using that store store_same_length [OF store(1)] by (metis nth_map)
  have e: "ends t x = ends s x" if "x < length cs" for x
    using lits [OF origD(1) [OF s(2) that]] by (simp add: ends_def)
  have lists: "wlist t = wlist s" "wlistBin t = wlistBin s" "wlistPb t = wlistPb s" "wlistCardAMO t = wlistCardAMO s"
    using b by (simp_all add: boundFor_def same_lists_def)
  have o: "orig cs t" using orig_same [OF s(2) store(1)] b lists by (simp add: boundFor_def)
  have "full cs ((wlist s)[nat l := ?ks @ ws]) s"
    by (rule full_replace [OF s(3), folded d_def]) (use i c in \<open>simp_all add: comp_loop_def d_def\<close>)
  then have "full cs ((wlist t)[nat l := ?ks @ ws]) t"
    unfolding lists(1)
  proof (rule full_csame [OF _ store(1) lists(2) e])
    show "length cs \<le> length (store s)" using s(2) by (simp add: orig_def)
    fix j v assume j: "j < length ((wlist s)[nat l := ?ks @ ws])" "v \<in> set ((wlist s)[nat l := ?ks @ ws] ! j)"
    show "w_clause v < length (store s)"
      using list_bound [OF new l(1), of j v] j store_same_length [OF store(1)] lists(1) by simp
  qed
  moreover have "guarded cs P t" by (rule guarded_progress [OF pinv_core [OF p(1)] s(2) pr s(6,4) e])
  moreover have "awaited cs l t ws"
    unfolding awaited_def
  proof (intro allI impI)
    fix x assume x: "x < length cs" "Negation l \<in> ends t x" "x \<notin> w_clause ` set ws"
    show "guard t x (Negation l)"
    proof (cases "x = d")
      case True
      have "nat (Lit_Var ?f) < length (model s)"
        using core_index [OF pinv_core [OF p(1)] clause_false_lit(2) [OF p(1) c(1,5)]] by simp
      then have m: "model t ! nat (Lit_Var ?f) = lvlToSignedLvl ?f lvl" using b by (simp add: boundFor_def)
      then have "isTrue (model t) ?f" using l(3) by (intro isTrue_signed) simp_all
      moreover have "lev (model t) ?f = lvl" unfolding m using l(3) by (simp add: lev_signed)
      moreover have "lev (model t) (Negation l) = lvl" using new l(1) by (simp add: sound_loop_def)
      ultimately show ?thesis
        using True lits [OF c(1)] c(5) unfolding guard_def by (intro bexI [of _ ?f]) simp_all
    next
      case False
      then have "guard s x (Negation l)" using s(5) x e d_def by (simp add: awaited_def)
      then show ?thesis using guard_progress [OF pinv_core [OF p(1)] origD(1) [OF s(2) x(1)] pr] p(2) l(1) by simp
    qed
  qed
  moreover have "propFrame s0 t" "nat l < length (wlist t)" "P \<subseteq> set (trail t)"
    using i b lists progress_trail [OF pr] by (auto simp: comp_loop_def propFrame_def boundFor_def)
  ultimately show ?thesis using new o by (simp add: comp_loop_def)
qed

definition comp_confl :: "clause list \<Rightarrow> lit set \<Rightarrow> declevel \<Rightarrow> lit \<Rightarrow> solver \<Rightarrow> solver \<Rightarrow> watcher list \<Rightarrow> cid \<Rightarrow> bool" where
  "comp_confl cs P lvl l s0 s ks c \<longleftrightarrow> sound_loop every lvl l s0 s ks [] \<and> confl_ok every lvl s c
     \<and> propFrame s0 s \<and> orig cs s \<and> full cs ((wlist s)[nat l := ks]) s \<and> guarded cs P s \<and> P \<subseteq> set (trail s)
     \<and> nat l < length (wlist s)"

interpretation comp: clause_loop "comp_loop cs P lvl l s0" "comp_confl cs P lvl l s0" l lvl for cs P lvl l s0
proof (standard, goal_cases)
  case (1 s ks w ws)
  then show ?case using sound.clause [of every lvl l s0 s ks w ws] by (simp add: comp_loop_def)
next
  case (2 s ks w ws)
  then have s: "sound_loop every lvl l s0 s ks (w # ws)" "awaited cs l s (w # ws)" "orig cs s"
    "full cs ((wlist s)[nat l := ks @ w # ws]) s" "nat l < length (wlist s)" by (simp_all add: comp_loop_def)
  have "other w \<in> set (lits (store s ! w_clause w))"
    using s(4,5) unfolding full_def by (auto dest!: spec [of _ "nat l"])
  then have "awaited cs l s ws" using awaited_true [OF s(1-3)] 2(2) by blast
  then show ?case using 2 sound.keep [OF s(1) 2(2)] by (simp add: comp_loop_def)
next
  case (3 s ks w ws cl)
  then have "sound_loop every lvl l s0 s ks (w # ws)" by (simp add: comp_loop_def)
  then show ?case using comp_normalize [OF 3(1,3) sound.normalize [OF _ 3(2,3)]] by blast
next
  case (4 s ks w ws)
  then have s: "sound_loop every lvl l s0 s ks (w # ws)" "awaited cs l s (w # ws)" "orig cs s"
    "full cs ((wlist s)[nat l := ks @ w # ws]) s" "nat l < length (wlist s)" by (simp_all add: comp_loop_def)
  note f = sound_clause(5) [OF s(1)]
  show ?case
    using 4 sound.first [OF s(1) 4(2)] awaited_true [OF s(1-3) f 4(2)] full_replace [OF s(4,5) f]
    by (simp add: comp_loop_def)
next
  case (5 s ks w ws k cl m)
  then have s: "sound_loop every lvl l s0 s ks (w # ws)" by (simp add: comp_loop_def)
  show ?case by (rule comp_move [OF 5(1-9) refl sound.move [OF s 5(2-9)]])
next
  case (6 s ks w ws t)
  then have s: "sound_loop every lvl l s0 s ks (w # ws)" by (simp add: comp_loop_def)
  have "progress lvl s t"
    using pinv_bind [of every _ "{l}", OF _ sound_clause(1) [OF s] 6(4) sound_clause(5) [OF s] _ 6(5)] s by (simp add: sound_loop_def)
  then show ?case using comp_unit [OF 6(1,4,5) sound.unit [OF s 6(2-5)]] by blast
next
  case (7 s ks w ws)
  then have s: "sound_loop every lvl l s0 s ks (w # ws)" "orig cs s"
    "full cs ((wlist s)[nat l := ks @ w # ws]) s" "nat l < length (wlist s)" by (simp_all add: comp_loop_def)
  show ?case
    using 7(1) sound.conflict [OF s(1) 7(2-4)] full_replace [OF s(3,4) sound_clause(5) [OF s(1)]]
    by (simp add: comp_loop_def comp_confl_def)
qed

section \<open>Propagation\<close>

definition comp_state :: "clause list \<Rightarrow> lit set \<Rightarrow> solver \<Rightarrow> bool" where
  "comp_state cs P s \<longleftrightarrow> orig cs s \<and> full cs (wlist s) s \<and> guarded cs P s"

definition compPost :: "clause list \<Rightarrow> lit set \<Rightarrow> lit \<Rightarrow> solver \<Rightarrow> solver \<times> cid option \<Rightarrow> bool" where
  "compPost cs P l s = (\<lambda>(s', r). propFrame s s' \<and> comp_state cs (if r = None then insert l P else P) s')"

lemma propagateBin_comp:
  assumes "1 \<le> lvl"
  shows "wlp (propagateBin s lvl ws) (\<lambda>(s', r). propFrame s s' \<and> store s' = store s \<and> wlist s' = wlist s
     \<and> (\<forall>v. model s ! v \<noteq> 0 \<longrightarrow> model s' ! v = model s ! v) \<and> (r = None \<longrightarrow> (\<forall>w \<in> set ws. isTrue (model s') (other w))))"
proof (induction ws arbitrary: s)
  case (Cons w ws)
  let ?v = "nat (Lit_Var (other w))"
  let ?t = "s\<lparr>reason := (reason s)[?v := Some (w_clause w)], model := (model s)[?v := lvlToSignedLvl (other w) lvl],
     trail := trail s @ [other w]\<rparr>"
  let ?Q = "\<lambda>s ws (s', r). propFrame s s' \<and> store s' = store s \<and> wlist s' = wlist s
     \<and> (\<forall>v. model s ! v \<noteq> 0 \<longrightarrow> model s' ! v = model s ! v) \<and> (r = None \<longrightarrow> (\<forall>w \<in> set ws. isTrue (model s') (other w)))"
  have stay: "isTrue (model t) (other w)" if "\<forall>v. model s ! v \<noteq> 0 \<longrightarrow> model t ! v = model s ! v" "isTrue (model s) (other w)" for s t
    using that by (simp add: isTrue_def)
  have unbound: "wlp (propagateBin ?t lvl ws) (?Q s (w # ws))" if u: "model s ! ?v = 0" "?v < length (model s)"
  proof (rule wlp_mono [OF Cons.IH], clarify, intro conjI impI ballI allI)
    fix t r
    assume post: "propFrame ?t t" "\<forall>v. model ?t ! v \<noteq> 0 \<longrightarrow> model t ! v = model ?t ! v"
      "r = None \<longrightarrow> (\<forall>w \<in> set ws. isTrue (model t) (other w))"
    show "propFrame s t" using post(1) by (simp add: propFrame_def)
    show "model t ! v = model s ! v" if "model s ! v \<noteq> 0" for v
      using post(2) [rule_format, of v] that u(1) by (cases "v = ?v") simp_all
    have "isTrue (model ?t) (other w)" using u(2) assms by (intro isTrue_signed) simp_all
    then have "isTrue (model t) (other w)" using stay post(2) by blast
    then show "isTrue (model t) (other x)" if "r = None" "x \<in> set (w # ws)" for x using that post(3) by auto
  qed simp_all
  have bound: "wlp (propagateBin s lvl ws) (?Q s (w # ws))" if "isTrue (model s) (other w)"
    by (rule wlp_mono [OF Cons.IH]) (use stay [OF _ that] in auto)
  show ?case
    using unbound bound by (auto simp: Let_def isTrue_def nat_less_iff)
qed simp

lemma bin_awaited:
  assumes p: "pinv every lvl {} s" "pinv every lvl {} t" and cst: "comp_state cs P s"
    and l: "l \<in> set (trail s)" "lev (model s) l = lvl" and keep: "\<forall>v. model s ! v \<noteq> 0 \<longrightarrow> model t ! v = model s ! v"
    and same: "store t = store s" "wlist t = wlist s"
    and tru: "\<forall>w \<in> set (wlistBin s ! nat l). isTrue (model t) (other w)" and nl: "nat l < length (wlistBin s)"
  shows "awaited cs l t (wlist t ! nat l)"
  unfolding awaited_def
proof (intro allI impI)
  fix c assume c: "c < length cs" "Negation l \<in> ends t c" "c \<notin> w_clause ` set (wlist t ! nat l)"
  have l0: "0 \<le> l" using core_trail(3) [OF pinv_core [OF p(1)] l(1)] .
  have "\<forall>p \<in> ends s c. c \<in> w_clause ` set (home (wlist s) s c ! nat (Negation p))"
    using cst c(1) by (simp add: comp_state_def full_def)
  moreover have "Negation l \<in> ends s c" using c(2) same by (simp add: ends_def)
  ultimately have "c \<in> w_clause ` set (home (wlist s) s c ! nat (Negation (Negation l)))" by blast
  then have "c \<in> w_clause ` set (wlistBin s ! nat l)"
    using c(3) same by (simp add: home_def split: if_splits)
  then obtain w where w: "w \<in> set (wlistBin s ! nat l)" "w_clause w = c" by auto
  have "bin_ok s (int (nat l)) w" using p(1) nl w(1) unfolding pinv_def watch_except_def by blast
  then have o: "c < length (store t)" "other w \<in> set (lits (store t ! c))" using w(2) same by (auto simp: bin_ok_def)
  have true: "isTrue (model t) (other w)" using tru w(1) by blast
  have "lev (model t) (other w) \<le> lvl" using lev_le [OF p(2) clause_false_lit(2) [OF p(2) o] true] .
  moreover have "lev (model t) (Negation l) = lvl"
    using l keep l0 trail_bound [OF pinv_core [OF p(1)] l(1)] by simp
  ultimately show "guard t c (Negation l)" using o(2) true by (auto simp: guard_def)
qed

lemma simplifyPropClauses_comp:
  assumes p: "pinv every lvl {} s" and cst: "comp_state cs P s" and l: "l \<in> set (trail s)" "lev (model s) l = lvl"
    and P: "P \<subseteq> set (trail s)" and a: "awaited cs l s (wlist s ! nat l)"
  shows "wlp (simplifyPropClauses s l lvl) (compPost cs P l s)"
proof -
  have loop: "wlp (propClauseLoop s l lvl [] (wlist s ! nat l)) (comp.loopPost cs P lvl l s)"
    if i: "0 \<le> l" "l < int (length (wlist s))"
  proof (rule comp.loop)
    have "pinv every lvl {l} s" using p by (auto simp: pinv_def watch_except_def)
    moreover have "long_list s l (wlist s ! nat l)"
      using p i by (auto simp: pinv_def watch_except_def dest: spec [of _ "nat l"])
    ultimately show "comp_loop cs P lvl l s s [] (wlist s ! nat l)"
      using cst l P a i by (simp add: comp_loop_def sound_loop_def comp_state_def nat_less_iff)
  qed
  have put: "compPost cs P l s (t\<lparr>wlist := (wlist t)[nat l := ks]\<rparr>, r)"
    if post: "comp.loopPost cs P lvl l s (t, ks, r)" for t ks r
  proof -
    let ?t = "t\<lparr>wlist := (wlist t)[nat l := ks]\<rparr>"
    have same: "orig cs ?t = orig cs t" "guarded cs Q ?t = guarded cs Q t" "full cs W ?t = full cs W t" for Q W
      by (simp_all add: orig_def guarded_def guard_def ends_def full_def home_def)
    show ?thesis
    proof (cases r)
      case None
      then have i: "comp_loop cs P lvl l s t ks []" using post by (simp add: comp.loopPost_def)
      then have "guarded cs (insert l P) t"
        unfolding comp_loop_def guarded_def awaited_def by (auto dest!: spec)
      then show ?thesis using i None unfolding compPost_def comp_state_def
        by (simp add: same comp_loop_def propFrame_def)
    next
      case (Some c)
      then have "comp_confl cs P lvl l s t ks c" using post by (simp add: comp.loopPost_def)
      then show ?thesis using Some unfolding compPost_def comp_state_def
        by (simp add: same comp_confl_def propFrame_def)
    qed
  qed
  show ?thesis
    unfolding simplifyPropClauses_def wlp_bind wlp_geti
  proof (intro impI)
    assume "0 \<le> l" "l < int (length (wlist s))"
    from loop [OF this] show "wlp (propClauseLoop s l lvl [] (wlist s ! nat l)) (\<lambda>x. wlp (case x of (s, ks, confl) \<Rightarrow>
        do { wl \<leftarrow> puti (wlist s) l ks; Some (s\<lparr>wlist := wl\<rparr>, confl) }) (compPost cs P l s))"
      by (rule wlp_mono) (use put in auto)
  qed
qed

lemma comp_bin:
  assumes p: "pinv every lvl {} s" and cst: "comp_state cs P s" and l: "l \<in> set (trail s)" "lev (model s) l = lvl"
    and P: "P \<subseteq> set (trail s)" and i: "0 \<le> l" "l < int (length (wlistBin s))"
  shows "wlp (propagateBin s lvl (wlistBin s ! nat l)) (\<lambda>(t, r). kept every lvl s t \<and> propFrame s t \<and> comp_state cs P t
     \<and> (r = None \<longrightarrow> awaited cs l t (wlist t ! nat l)))"
proof -
  have nl: "nat l < length (wlistBin s)" using i by (simp add: nat_less_iff)
  then have "\<forall>w \<in> set (wlistBin s ! nat l). bin_ok s (int (nat l)) w"
    using p unfolding pinv_def watch_except_def by blast
  then have one: "wlp (propagateBin s lvl (wlistBin s ! nat l)) (\<lambda>(t, r). kept every lvl s t)"
    using propagateBin_spec [OF p _ l, of "wlistBin s ! nat l"] i by (auto simp: kept_def elim!: wlp_mono)
  have "1 \<le> lvl" using p by (simp add: pinv_def)
  note both = wlp_conj [OF one propagateBin_comp [OF this, of s "wlistBin s ! nat l"]]
  show ?thesis
  proof (rule wlp_mono [OF both], clarify)
    fix t and r :: "cid option"
    assume k: "kept every lvl s t" and f: "propFrame s t" and same: "store t = store s" "wlist t = wlist s"
      and keep: "\<forall>v. model s ! v \<noteq> 0 \<longrightarrow> model t ! v = model s ! v"
      and tru: "r = None \<longrightarrow> (\<forall>w \<in> set (wlistBin s ! nat l). isTrue (model t) (other w))"
    have o: "orig cs t" using orig_same [of cs s t] cst same f by (simp add: comp_state_def propFrame_def)
    have pt: "pinv every lvl {} t" "progress lvl s t" using k by (simp_all add: kept_def)
    have "guarded cs P t"
      by (rule guarded_progress [OF pinv_core [OF p] _ pt(2) P]) (use cst same in \<open>simp_all add: comp_state_def ends_def\<close>)
    moreover have "full cs (wlist t) t"
      using cst same f full_cong [of t s cs] by (simp add: comp_state_def propFrame_def)
    moreover have "awaited cs l t (wlist t ! nat l)" if "r = None"
      using bin_awaited [OF p pt(1) cst l keep same _ nl] tru that by blast
    ultimately show "comp_state cs P t \<and> (r = None \<longrightarrow> awaited cs l t (wlist t ! nat l))"
      using o by (simp add: comp_state_def)
  qed
qed

text \<open>A step that may stop with a conflict, and what follows it.\<close>

lemma wlp_stop:
  assumes "wlp m Q" and "\<And>t c. Q (t, Some c) \<Longrightarrow> R (t, Some c)" and "\<And>t. Q (t, None) \<Longrightarrow> wlp (f t) R"
  shows "wlp (do { (s, confl) \<leftarrow> m; if confl \<noteq> None then Some (s, confl) else f s }) R"
  unfolding wlp_bind by (rule wlp_mono [OF assms(1)]) (use assms(2,3) in auto)

lemma propagateLit_comp:
  assumes p: "pinv every lvl {} s" and cst: "comp_state cs P s" and l: "l \<in> set (trail s)" "lev (model s) l = lvl"
    and P: "P \<subseteq> set (trail s)"
  shows "wlp (propagateLit s l lvl) (compPost cs P l s)"
proof -
  have none: "wlp (do { cs \<leftarrow> geti (wlistPb u) l; (s, confl) \<leftarrow> propagatePbs u lvl cs;
      if confl \<noteq> None then Some (s, confl) else do { cs \<leftarrow> geti (wlistCardAMO s) l; propagateAMOs s lvl cs } }) (compPost cs P l s)"
    if u: "pinv every lvl {} u" "compPost cs P l s (u, None)" for u
  proof (cases "geti (wlistPb u) l")
    case (Some ds)
    then have "ds = []" using u(2) by (auto simp: compPost_def comp_state_def orig_def geti_def nat_less_iff split: if_splits)
    moreover have "wlp (geti (wlistCardAMO u) l) (\<lambda>cs. cs = [])"
      using u(1) by (simp add: pinv_def watch_except_def nat_less_iff)
    then have "wlp (geti (wlistCardAMO u) l) (\<lambda>ds. wlp (propagateAMOs u lvl ds) (compPost cs P l s))"
      by (rule wlp_mono) (use u(2) in simp)
    ultimately show ?thesis using Some by simp
  qed simp
  have long: "wlp (do { (s, confl) \<leftarrow> simplifyPropClauses t l lvl;
      if confl \<noteq> None then Some (s, confl) else do { cs \<leftarrow> geti (wlistPb s) l; (s, confl) \<leftarrow> propagatePbs s lvl cs;
      if confl \<noteq> None then Some (s, confl) else do { cs \<leftarrow> geti (wlistCardAMO s) l; propagateAMOs s lvl cs } } })
      (compPost cs P l s)"
    if k: "kept every lvl s t" "propFrame s t" "comp_state cs P t" "awaited cs l t (wlist t ! nat l)" for t
  proof -
    have t: "pinv every lvl {} t" "l \<in> set (trail t)" "lev (model t) l = lvl" "P \<subseteq> set (trail t)"
      using confl_trail [OF k(1) pinv_core [OF p] l] k(1) P progress_trail [of lvl s t] by (auto simp: kept_def)
    have trans: "compPost cs P l t x \<Longrightarrow> compPost cs P l s x" for x
      using propFrame_trans [OF k(2)] by (auto simp: compPost_def)
    note spec = wlp_conj [OF simplifyPropClauses_spec [OF t(1-3)] simplifyPropClauses_comp [OF t(1) k(3) t(2-4) k(4)]]
    show ?thesis by (rule wlp_stop [OF spec]) (use trans none in auto)
  qed
  have "wlp (do { (s, confl) \<leftarrow> propagateBin s lvl (wlistBin s ! nat l);
      if confl \<noteq> None then Some (s, confl) else do { (s, confl) \<leftarrow> simplifyPropClauses s l lvl;
      if confl \<noteq> None then Some (s, confl) else do { cs \<leftarrow> geti (wlistPb s) l; (s, confl) \<leftarrow> propagatePbs s lvl cs;
      if confl \<noteq> None then Some (s, confl) else do { cs \<leftarrow> geti (wlistCardAMO s) l; propagateAMOs s lvl cs } } } })
      (compPost cs P l s)" if "0 \<le> l" "l < int (length (wlistBin s))"
    by (rule wlp_stop [OF comp_bin [OF p cst l P that]], simp add: compPost_def, rule long, simp_all)
  then show ?thesis
    by (cases "geti (wlistBin s) l") (auto simp: propagateLit_def geti_def split: if_splits)
qed

text \<open>The propagation loop: what precedes \<open>i\<close> in the trail has been propagated.\<close>

definition settled :: "clause list \<Rightarrow> declevel \<Rightarrow> solver \<Rightarrow> cid option \<Rightarrow> bool" where
  "settled cs lvl s r \<longleftrightarrow> (\<exists>ys zs. trail s = ys @ zs \<and> comp_state cs (set ys) s
     \<and> (if r = None then zs = [] else \<forall>k \<in> set zs. lev (model s) k = lvl))"

lemma propagate_comp:
  assumes "pinv every lvl {} s" and "\<forall>l \<in> set (drop i (trail s)). lev (model s) l = lvl"
    and "comp_state cs (set (take i (trail s))) s"
  shows "wlp (propagate s i lvl) (\<lambda>(s', r). propFrame s s' \<and> settled cs lvl s' r)"
proof (rule wlp_eqI)
  fix x assume "propagate s i lvl = Some x"
  then show "case x of (s', r) \<Rightarrow> propFrame s s' \<and> settled cs lvl s' r"
    using assms
  proof (induction rule: propagate.raw_induct [rotated, consumes 1, case_names 1])
    case (1 F s i lvl x)
    show ?case
    proof (cases "i < length (trail s)")
      case True
      let ?l = "trail s ! i"
      have l: "?l \<in> set (trail s)" "lev (model s) ?l = lvl"
        using True "1.prems"(2) by (auto simp: drop_nth)
      have P: "set (take i (trail s)) \<subseteq> set (trail s)" by (rule set_take_subset)
      have eq: "do { (s, confl) \<leftarrow> propagateLit s ?l lvl; if confl \<noteq> None then Some (s, confl) else F s (i + 1) lvl } = Some x"
        using "1.hyps" True by (simp only: if_True)
      then obtain t r where t: "propagateLit s ?l lvl = Some (t, r)"
        "(if r \<noteq> None then Some (t, r) else F t (i + 1) lvl) = Some x" by (auto simp: bind_eq_Some_conv)
      have k: "kept every lvl s t" and post: "compPost cs (set (take i (trail s))) ?l s (t, r)"
        using wlp_SomeD [OF propagateLit_spec [OF "1.prems"(1) l] t(1)]
          wlp_SomeD [OF propagateLit_comp [OF "1.prems"(1,3) l P] t(1)] by (auto simp: roundPost_def)
      obtain new where new: "trail t = trail s @ new" "\<forall>m \<in> set new. lev (model t) m = lvl"
        using k by (auto simp: kept_def progress_def)
      have old: "lev (model t) m = lvl" if "m \<in> set (drop i (trail s))" for m
        using confl_trail(2) [OF k pinv_core [OF "1.prems"(1)], of m] "1.prems"(2) in_set_dropD that by fastforce
      have rest: "\<forall>m \<in> set (drop i (trail t)). lev (model t) m = lvl"
        using new True old by auto
      show ?thesis
      proof (cases r)
        case None
        then have run: "F t (i + 1) lvl = Some x" using t(2) by simp
        have "take (i + 1) (trail t) = take i (trail s) @ [?l]"
          using True new(1) by (simp add: take_Suc_nth)
        then have "comp_state cs (set (take (i + 1) (trail t))) t" "propFrame s t"
          using post None by (simp_all add: compPost_def)
        moreover have "\<forall>m \<in> set (drop (i + 1) (trail t)). lev (model t) m = lvl"
          using rest set_drop_subset_set_drop [of i "i + 1" "trail t"] by auto
        ultimately show ?thesis
          using "1.IH" [OF run] k propFrame_trans by (fastforce simp: kept_def)
      next
        case (Some c)
        then have x: "x = (t, r)" using t(2) by simp
        have "trail t = take i (trail t) @ drop i (trail t)" by simp
        moreover have "take i (trail t) = take i (trail s)" using True new(1) by simp
        ultimately have "settled cs lvl t r"
          using post rest Some unfolding settled_def
          by (intro exI [of _ "take i (trail t)"] exI [of _ "drop i (trail t)"]) (simp add: compPost_def)
        then show ?thesis using x post by (simp add: compPost_def)
      qed
    next
      case False
      then have x: "x = (s, None)" using "1.hyps" by simp
      have "settled cs lvl s None"
        using False "1.prems"(3) unfolding settled_def by (intro exI [of _ "trail s"] exI [of _ "[]"]) simp
      then show ?thesis by (simp add: x)
    qed
  qed
qed

text \<open>A decision or an asserted literal, up to the fixpoint or the conflict.\<close>

lemma unifyLiteral_comp:
  assumes pre: "unifyPre every lvl s l" and cst: "comp_state cs (set (trail s)) s"
  shows "wlp (unifyLiteral s l lvl) (\<lambda>(t, r). pinv every lvl {} t \<and> (\<forall>c. r = Some c \<longrightarrow> confl_ok every lvl t c)
     \<and> nbVars t = nbVars s \<and> learned t = learned s \<and> varQueue t = varQueue s \<and> settled cs lvl t r
     \<and> (\<forall>v < length (model s). model s ! v \<noteq> 0 \<longrightarrow> model t ! v = model s ! v)
     \<and> set (trail s) \<subseteq> set (trail t) \<and> model t ! nat (Lit_Var l) \<noteq> 0)"
proof -
  let ?s = "s\<lparr>model := (model s)[nat (Lit_Var l) := lvlToSignedLvl l lvl], trail := trail s @ [l]\<rparr>"
  note b = unify_bound [OF pre]
  have pr: "progress lvl s ?s" and core: "core every s" using b(2) pre by (simp_all add: unifyPre_def)
  have "orig cs ?s" "full cs (wlist ?s) ?s"
    using cst orig_cong [of ?s s cs] full_cong [of ?s s cs] by (simp_all add: comp_state_def)
  moreover have "guarded cs (set (trail s)) ?s"
    by (rule guarded_progress [OF core _ pr]) (use cst in \<open>simp_all add: comp_state_def ends_def\<close>)
  ultimately have cst': "comp_state cs (set (take (length (trail ?s) - 1) (trail ?s))) ?s" by (simp add: comp_state_def)
  have last: "\<forall>k \<in> set (drop (length (trail ?s) - 1) (trail ?s)). lev (model ?s) k = lvl" using b(3) by simp
  have "wlp (propagate ?s (length (trail ?s) - 1) lvl) (\<lambda>x. roundPost every lvl ?s x
      \<and> (case x of (t, r) \<Rightarrow> propFrame ?s t \<and> settled cs lvl t r))"
    by (rule wlp_conj [OF propagate_spec [OF b(1) last] propagate_comp [OF b(1) last cst']])
  then have "wlp (propagate ?s (length (trail ?s) - 1) lvl) (\<lambda>(t, r). pinv every lvl {} t \<and> (\<forall>c. r = Some c \<longrightarrow> confl_ok every lvl t c)
     \<and> nbVars t = nbVars s \<and> learned t = learned s \<and> varQueue t = varQueue s \<and> settled cs lvl t r
     \<and> (\<forall>v < length (model s). model s ! v \<noteq> 0 \<longrightarrow> model t ! v = model s ! v)
     \<and> set (trail s) \<subseteq> set (trail t) \<and> model t ! nat (Lit_Var l) \<noteq> 0)"
  proof (rule wlp_mono)
    fix x assume "roundPost every lvl ?s x \<and> (case x of (t, r) \<Rightarrow> propFrame ?s t \<and> settled cs lvl t r)"
    moreover obtain t r where x: "x = (t, r)" by (cases x)
    ultimately have t: "roundPost every lvl ?s (t, r)" "propFrame ?s t" "settled cs lvl t r" by simp_all
    then have k: "pinv every lvl {} t" "progress lvl ?s t" "\<forall>c. r = Some c \<longrightarrow> confl_ok every lvl t c"
      by (simp_all add: roundPost_def kept_def)
    have tr: "progress lvl s t" by (rule progress_trans [OF pr k(2)]) (use b(1) in \<open>simp add: pinv_def\<close>)
    have "l \<in> set (trail t)" using progress_trail [OF k(2)] by simp
    then have "model t ! nat (Lit_Var l) \<noteq> 0" using trail_bound [OF pinv_core [OF k(1)]] by blast
    then show "case x of (t, r) \<Rightarrow> pinv every lvl {} t \<and> (\<forall>c. r = Some c \<longrightarrow> confl_ok every lvl t c)
     \<and> nbVars t = nbVars s \<and> learned t = learned s \<and> varQueue t = varQueue s \<and> settled cs lvl t r
     \<and> (\<forall>v < length (model s). model s ! v \<noteq> 0 \<longrightarrow> model t ! v = model s ! v)
     \<and> set (trail s) \<subseteq> set (trail t) \<and> model t ! nat (Lit_Var l) \<noteq> 0"
      using k t tr by (auto simp: x progress_def propFrame_def)
  qed
  then show ?thesis by (simp add: unifyLiteral_def Let_def)
qed

end
