(* ===== verification/Cover.thy ===== *)
theory Cover
  imports SolverInv
begin

text \<open>
  The variable queue never loses an unbound variable: what bumps, backjumps and rebuilds do to it,
  although \<open>rebuildOrderHeap\<close> and \<open>cleanupBindings\<close> put variables into it twice. So when no
  literal is left to choose, all variables are bound.
\<close>

section \<open>Pools of variables\<close>

text \<open>The queue holds variables below \<open>n\<close>.\<close>

definition pool :: "nat \<Rightarrow> rat queue \<Rightarrow> bool" where
  "pool n q \<longleftrightarrow> pool_ok q \<and> length (activity q) = n"

lemma pool_bound: "pool n q \<Longrightarrow> v \<in># elements q \<Longrightarrow> v < n"
  by (auto simp: pool_def pool_ok_def located_def elements_def)

lemma pool_contains: "pool n q \<Longrightarrow> q_contains q v \<Longrightarrow> v \<in># elements q"
  using contains_member by (auto simp: pool_def elements_def)

lemma pool_insert: "pool n q \<Longrightarrow> v < n \<Longrightarrow> wlp (q_insert q v) (\<lambda>q'. pool n q' \<and> elements q' = add_mset v (elements q))"
  by (rule wp_wlp, rule wp_mono [OF q_insert_spec]) (auto simp: pool_def elements_def)

lemma pool_insertAll:
  "pool n q \<Longrightarrow> \<forall>v \<in> set vs. v < n \<Longrightarrow> wlp (insertAll q vs) (\<lambda>q'. pool n q' \<and> elements q \<subseteq># elements q')"
proof (induction vs arbitrary: q)
  case (Cons v vs)
  then have "wlp (insertAll q' vs) (\<lambda>q''. pool n q'' \<and> elements q \<subseteq># elements q'')"
    if "pool n q'" "elements q' = add_mset v (elements q)" for q'
    by (intro wlp_mono [OF Cons.IH [OF that(1)]]) (use that(2) in \<open>auto simp: insert_subset_eq_iff intro: subset_mset.trans\<close>)
  then show ?case using Cons.prems by (auto intro!: wlp_mono [OF pool_insert])
qed simp

lemma clearIndices_length: "wlp (clearIndices ind vs) (\<lambda>ind'. length ind' = length ind)"
  by (induction ind vs rule: clearIndices.induct) (auto elim!: wlp_mono)

lemma setIndices_bound: "wlp (setIndices ind i vs) (\<lambda>_. \<forall>v \<in> set vs. v < length ind)"
  by (induction ind i vs rule: setIndices.induct) (auto elim!: wlp_mono)

lemma pool_build:
  assumes q: "pool n q" and vs: "\<forall>v \<in> set vs. v < n"
  shows "wlp (q_build q vs) (\<lambda>q'. pool n q' \<and> elements q' = mset vs)"
proof (rule wlp_eqI)
  fix q' assume run: "q_build q vs = Some q'"
  then obtain ind ind' where i: "clearIndices (indices q) (content q) = Some ind" "setIndices ind 0 vs = Some ind'"
    by (auto simp: q_build_def bind_eq_Some_conv)
  have "\<forall>v \<in> set vs. v < length (indices q)"
    using wlp_SomeD [OF clearIndices_length i(1)] wlp_SomeD [OF setIndices_bound i(2)] by simp
  then have "wp (q_build q vs) (\<lambda>q'. activity q' = activity q \<and> pool_ok q' \<and> mset (content q') = mset vs
     \<and> (distinct vs \<longrightarrow> queue_ok q'))"
    using q vs by (intro q_build_spec) (auto simp: pool_def)
  then show "pool n q' \<and> elements q' = mset vs"
    using q run by (auto simp: wp_iff pool_def elements_def)
qed

interpretation bounded: var_pool "pool n" elements q_empty removeMin chooseLoop for n
proof (unfold_locales, goal_cases)
  case (1 q)
  then show ?case by (simp add: q_empty_elements)
next
  case (2 q)
  then have "content q \<noteq> []" by (simp add: q_empty_def)
  with 2 removeMin_spec [of q] show ?case by (auto simp: pool_def elements_def elim!: wp_mono)
next
  case (3 m q)
  then show ?case by (rule chooseLoop.simps)
qed

section \<open>The solver's queue\<close>

definition covered :: "nat set \<Rightarrow> solver \<Rightarrow> bool" where
  "covered X s \<longleftrightarrow> pool (nat (nbVars s)) (varQueue s) \<and> length (model s) = nat (nbVars s)
     \<and> (\<forall>v < length (model s). model s ! v = 0 \<longrightarrow> v \<in> X \<or> v \<in># elements (varQueue s))"

lemma chooseLit_cover:
  assumes "covered {} s"
  shows "wlp (chooseLit s) (\<lambda>(l, t). learned t = learned s \<and> (if l = - 1 then \<forall>v < length (model s). model s ! v \<noteq> 0
     else covered {nat (Lit_Var l)} t))"
proof -
  have q: "pool (nat (nbVars s)) (varQueue s)" and len: "length (model s) = nat (nbVars s)"
    and cov: "\<forall>v < length (model s). model s ! v = 0 \<longrightarrow> v \<in># elements (varQueue s)" using assms by (auto simp: covered_def)
  have "\<forall>v \<in># elements (varQueue s). v < length (model s)" using pool_bound [OF q] len by simp
  note pick = wp_wlp [OF bounded.pick_complete [OF q this]]
  have sign: "SignedLit (int v) b \<noteq> - 1" "nat (Lit_Var (SignedLit (int v) b)) = v" for v b
    using SignedLit_var [of "int v" b] by linarith+
  show ?thesis
    unfolding chooseLit_def wlp_bind [of "chooseLoop _ _"]
  proof (rule wlp_mono [OF pick], clarify)
    fix r q'
    assume r: "pool (nat (nbVars s)) q'" "case r of None \<Rightarrow> elements q' = {#} \<and> (\<forall>v \<in># elements (varQueue s). model s ! v \<noteq> 0)
      | Some x \<Rightarrow> x \<in># elements (varQueue s) \<and> model s ! x = 0
          \<and> (\<forall>v \<in># elements (varQueue s). model s ! v = 0 \<longrightarrow> v = x \<or> v \<in># elements q')"
    show "wlp (let s = s\<lparr>varQueue := q'\<rparr> in case r of None \<Rightarrow> Some (- 1, s)
        | Some v \<Rightarrow> do { p \<leftarrow> get (polarity s) v; Some (SignedLit (int v) (\<not> p), s) })
      (\<lambda>(l, t). learned t = learned s \<and> (if l = - 1 then \<forall>v < length (model s). model s ! v \<noteq> 0
        else covered {nat (Lit_Var l)} t))"
      using r cov len sign by (cases r) (auto simp: covered_def Let_def)
  qed
qed

lemma rebuild_cover:
  assumes "covered {} s"
  shows "wlp (rebuildOrderHeap s) (\<lambda>t. learned t = learned s \<and> covered {} t)"
proof (cases "nbVars s < 0 \<or> length (model s) < nat (nbVars s)")
  case False
  let ?n = "nat (nbVars s)"
  let ?unbound = "filter (\<lambda>v. model s ! v = 0) [0..<?n]"
  have q: "pool ?n (varQueue s)" and len: "length (model s) = ?n" using assms by (auto simp: covered_def)
  have "\<forall>v \<in> set (replicate ?n 0 @ ?unbound). v < ?n" by auto
  from pool_build [OF q this] have "wlp (q_build (varQueue s) (replicate ?n 0 @ ?unbound))
      (\<lambda>q'. learned (s\<lparr>varQueue := q'\<rparr>) = learned s \<and> covered {} (s\<lparr>varQueue := q'\<rparr>))"
    by (rule wlp_mono) (use len in \<open>auto simp: covered_def\<close>)
  then show ?thesis using False by (simp add: rebuildOrderHeap_def)
qed (auto simp: rebuildOrderHeap_def)

section \<open>Backjumps\<close>

lemma resetOptimPolarity_only: "wlp (resetOptimPolarity s) (\<lambda>t. \<exists>ps. t = s\<lparr>polarity := ps\<rparr>)"
proof (cases "sMinLits s")
  case None
  then show ?thesis by (auto simp: resetOptimPolarity_def intro: exI [of _ "polarity s"])
next
  case (Some ls)
  then show ?thesis by (auto simp: resetOptimPolarity_def intro: wlp_I)
qed

lemma unbindReason_only: "wlp (unbindReason s v) (\<lambda>t. model t = model s \<and> varQueue t = varQueue s \<and> learned t = learned s
    \<and> nbVars t = nbVars s)"
  by (auto simp: unbindReason_def split: option.split)

lemma unbindLits_cover:
  assumes "covered {} s" and "\<forall>v \<in> set ins. v < nat (nbVars s)"
  shows "wlp (unbindLits s ls ins) (\<lambda>(t, ins'). covered {} t \<and> learned t = learned s \<and> nbVars t = nbVars s
     \<and> (\<forall>v \<in> set ins'. v < nat (nbVars s)))"
  using assms
proof (induction ls arbitrary: s ins)
  case (Cons l ls)
  let ?v = "nat (Lit_Var l)"
  let ?Q = "\<lambda>(t, ins'). covered {} t \<and> learned t = learned s \<and> nbVars t = nbVars s \<and> (\<forall>v \<in> set ins'. v < nat (nbVars s))"
  have q: "pool (nat (nbVars s)) (varQueue s)" and len: "length (model s) = nat (nbVars s)"
    and cov: "\<forall>v < length (model s). model s ! v = 0 \<longrightarrow> v \<in># elements (varQueue s)" using Cons.prems(1) by (auto simp: covered_def)
  have go: "wlp (unbindLits t ls ins') ?Q"
    if t: "model t = (model s)[?v := 0]" "learned t = learned s" "nbVars t = nbVars s" "pool (nat (nbVars s)) (varQueue t)"
      "elements (varQueue s) \<subseteq># elements (varQueue t)" "?v \<in># elements (varQueue t)" "\<forall>v \<in> set ins'. v < nat (nbVars s)" for t ins'
  proof -
    have "v \<in># elements (varQueue t)" if "v < length (model t)" "model t ! v = 0" for v
      using that t(1,5,6) cov by (cases "v = ?v") (auto dest: mset_subset_eqD)
    then have "covered {} t" using t len by (simp add: covered_def)
    from Cons.IH [OF this, of ins'] t show ?thesis by simp
  qed
  have step: "wlp (if q_contains (varQueue t) ?v then unbindLits t ls ins
      else do { q \<leftarrow> q_insert (varQueue t) ?v; unbindLits (t\<lparr>varQueue := q\<rparr>) ls (ins @ [?v]) }) ?Q"
    if t: "model t = (model s)[?v := 0]" "learned t = learned s" "nbVars t = nbVars s" "varQueue t = varQueue s"
      and v: "?v < nat (nbVars s)" for t
  proof (cases "q_contains (varQueue t) ?v")
    case True
    have "wlp (unbindLits t ls ins) ?Q"
      by (rule go [OF t(1-3)]) (use t(4) q Cons.prems(2) True pool_contains [OF q] in simp_all)
    then show ?thesis using True by simp
  next
    case False
    have "wlp (q_insert (varQueue t) ?v) (\<lambda>q. wlp (unbindLits (t\<lparr>varQueue := q\<rparr>) ls (ins @ [?v])) ?Q)"
    proof (rule wlp_mono [OF pool_insert])
      show "pool (nat (nbVars s)) (varQueue t)" "?v < nat (nbVars s)" using t(4) q v by simp_all
      fix q' assume "pool (nat (nbVars s)) q' \<and> elements q' = add_mset ?v (elements (varQueue t))"
      then show "wlp (unbindLits (t\<lparr>varQueue := q'\<rparr>) ls (ins @ [?v])) ?Q"
        using t v Cons.prems(2) by (intro go) auto
    qed
    then show ?thesis using False by simp
  qed
  have one: "wlp (unbindReason (s\<lparr>model := (model s)[?v := 0]\<rparr>) (Lit_Var l)) (\<lambda>t. wlp (puti (polarity t) (Lit_Var l) b)
      (\<lambda>ps. wlp (if q_contains (varQueue (t\<lparr>polarity := ps\<rparr>)) ?v then unbindLits (t\<lparr>polarity := ps\<rparr>) ls ins
      else do { q \<leftarrow> q_insert (varQueue (t\<lparr>polarity := ps\<rparr>)) ?v; unbindLits (t\<lparr>polarity := ps, varQueue := q\<rparr>) ls (ins @ [?v]) }) ?Q))"
    if "?v < nat (nbVars s)" for b
    by (rule wlp_mono [OF unbindReason_only], rule wlp_I) (use step that in simp)
  from this [of "IsPositive l"] show ?case
    using len by (auto simp: Let_def nat_less_iff elim!: wlp_mono)
qed simp

lemma cleanup_cover:
  assumes "covered {} s"
  shows "wlp (cleanupBindings s lvl) (\<lambda>t. covered {} t \<and> learned t = learned s)"
proof -
  have rest: "wlp (insertAll (varQueue t) (rev ins)) (\<lambda>q. wlp (resetOptimPolarity (t\<lparr>trail := ls, varQueue := q\<rparr>))
      (\<lambda>t. covered {} t \<and> learned t = learned s))"
    if t: "covered {} t" "learned t = learned s" "nbVars t = nbVars s" "\<forall>v \<in> set ins. v < nat (nbVars s)" for t ins ls
  proof (rule wlp_mono [OF pool_insertAll])
    show "pool (nat (nbVars s)) (varQueue t)" using t by (simp add: covered_def)
    show "\<forall>v \<in> set (rev ins). v < nat (nbVars s)" using t(4) by simp
    fix q assume q: "pool (nat (nbVars s)) q \<and> elements (varQueue t) \<subseteq># elements q"
    then have "covered {} (t\<lparr>trail := ls, varQueue := q\<rparr>)"
      using t(1,3) by (auto simp: covered_def dest: mset_subset_eqD)
    then show "wlp (resetOptimPolarity (t\<lparr>trail := ls, varQueue := q\<rparr>)) (\<lambda>t. covered {} t \<and> learned t = learned s)"
      by (intro wlp_mono [OF resetOptimPolarity_only]) (use t(2) in \<open>auto simp: covered_def\<close>)
  qed
  have "wlp (unbindLits s ls []) (\<lambda>(t, ins). wlp (do { q \<leftarrow> insertAll (varQueue t) (rev ins);
      resetOptimPolarity (t\<lparr>trail := f t, varQueue := q\<rparr>) }) (\<lambda>t. covered {} t \<and> learned t = learned s))" for ls f
    by (rule wlp_mono [OF unbindLits_cover [OF assms]]) (use rest in auto)
  then have "wlp (do { (t, ins) \<leftarrow> unbindLits s ls []; q \<leftarrow> insertAll (varQueue t) (rev ins);
      resetOptimPolarity (t\<lparr>trail := f t, varQueue := q\<rparr>) }) (\<lambda>t. covered {} t \<and> learned t = learned s)" for ls f
    by (simp add: case_prod_beta')
  then show ?thesis unfolding cleanupBindings_def Let_def by (simp add: wlp_I)
qed

end
