(* ===== verification/LearnFrame.thy ===== *)
theory LearnFrame
  imports Cover
begin

text \<open>
  What the analysis of a conflict may change: it only calls the operations below, so a relation
  between states that they satisfy, reflexive and transitive, holds of the whole analysis up to
  the clause that is added to the store.
\<close>

locale learn_frame =
  fixes R :: "solver \<Rightarrow> solver \<Rightarrow> bool"
  assumes refl: "R s s"
    and trans: "R s t \<Longrightarrow> R t u \<Longrightarrow> R s u"
    and varBump: "wlp (varBumpActivity s v) (R s)"
    and clauseBump: "wlp (clauseBumpActivity s c) (R s)"
    and decays: "R s (clauseDecayActivity (varDecayActivity s))"
    and buffer: "R s (s\<lparr>bufLit := l\<rparr>)"
begin

definition keeps :: "solver \<Rightarrow> solver \<times> 'a \<Rightarrow> bool" where
  "keeps s = (\<lambda>(t, _). R s t)"

lemma keeps_pair [simp]: "keeps s (t, x) = R s t"
  by (simp add: keeps_def)

lemma keeps_from: "R s t \<Longrightarrow> wlp m (keeps t) \<Longrightarrow> wlp m (keeps s)"
  by (auto simp: keeps_def elim!: wlp_mono intro: trans)

lemma keeps_first:
  "wlp m (keeps s) \<Longrightarrow> (\<And>t x. R s t \<Longrightarrow> wlp (f t x) Q) \<Longrightarrow> wlp (do { (t, x) \<leftarrow> m; f t x }) Q"
  by (auto simp: keeps_def elim!: wlp_mono)

lemma keeps_then:
  assumes "wlp m (keeps s)" and "\<And>t x. R s t \<Longrightarrow> wlp (f t x) (keeps t)"
  shows "wlp (do { (t, x) \<leftarrow> m; f t x }) (keeps s)"
  by (rule keeps_first [OF assms(1)]) (rule keeps_from [OF _ assms(2)])

lemma meetLit_keeps: "wlp (meetLit s an lvl l) (keeps s)"
  by (auto simp: meetLit_def Let_def intro!: wlp_mono [OF varBump])

lemma addClauseLits_keeps: "wlp (addClauseLits s an lvl ls) (keeps s)"
proof (induction ls arbitrary: s an)
  case (Cons l ls)
  have "wlp (do { (s, an) \<leftarrow> meetLit s an lvl l; addClauseLits s an lvl ls }) (keeps s)"
    by (rule keeps_then [OF meetLit_keeps Cons.IH])
  then show ?case using Cons.IH by (auto simp del: wlp_bind simp: wlp_bind [of "litStatus _ _"])
qed (simp add: refl)

lemma addReasonLits_keeps: "wlp (addReasonLits s an lvl ls) (keeps s)"
proof (induction ls arbitrary: s an)
  case (Cons l ls)
  have "wlp (do { (s, an) \<leftarrow> meetLit s an lvl l; addReasonLits s an lvl ls }) (keeps s)"
    by (rule keeps_then [OF meetLit_keeps Cons.IH])
  then show ?case
    using Cons.IH by (auto simp del: wlp_bind simp: wlp_bind [of "litStatus _ _"] wlp_bind [of "geti _ _"])
qed (simp add: refl)

lemma reason_keeps:
  "wlp (case r of None \<Rightarrow> Some (s, an)
     | Some c \<Rightarrow> do { s \<leftarrow> clauseBumpActivity s c; cl \<leftarrow> getC s c; addReasonLits s an lvl (lits cl) }) (keeps s)"
proof (cases r)
  case (Some c)
  have "wlp (addReasonLits t an lvl ls) (keeps s)" if "R s t" for t ls
    by (rule keeps_from [OF that addReasonLits_keeps])
  then show ?thesis using Some by (auto intro!: wlp_mono [OF clauseBump])
qed (simp add: refl)

lemma resolveLoop_keeps: "wlp (resolveLoop s an lvl n) (keeps s)"
proof (induction n arbitrary: s an rule: less_induct)
  case (less n)
  show ?case
  proof (cases "nbLvl an > 1")
    case True
    have go: "wlp (do { (s, an) \<leftarrow> (case r of None \<Rightarrow> Some (s, an')
        | Some c \<Rightarrow> do { s \<leftarrow> clauseBumpActivity s c; cl \<leftarrow> getC s c; addReasonLits s an' lvl (lits cl) });
        resolveLoop s an lvl (m - 1) }) (keeps s)" if "0 < m" "m \<le> n" for r m an'
      by (rule keeps_then [OF reason_keeps less.IH]) (use that in simp)
    have "wlp (scanTrail s an lvl n) (\<lambda>x. wlp (case x of (an, n) \<Rightarrow> do {
        l \<leftarrow> get (trail s) (n - 1);
        let v = Lit_Var l;
        b \<leftarrow> geti (assumptions s) v;
        if b then Some (s, None)
        else do {
          let an = an\<lparr>nbLvl := nbLvl an - 1\<rparr>;
          r \<leftarrow> geti (reason s) v;
          (s, an) \<leftarrow> (case r of
              None \<Rightarrow> Some (s, an)
            | Some c \<Rightarrow> do {
                s \<leftarrow> clauseBumpActivity s c;
                cl \<leftarrow> getC s c;
                addReasonLits s an lvl (lits cl) });
          resolveLoop s an lvl (n - 1) } }) (keeps s))"
      by (rule wlp_mono [OF scanTrail_wlp])
        (use go refl in \<open>auto simp: Let_def wlp_bind [of "get _ _"] wlp_bind [of "geti _ _"] simp del: wlp_bind\<close>)
    then show ?thesis using True by (subst resolveLoop.simps) (simp only: if_True wlp_bind [of "scanTrail _ _ _ _"])
  next
    case False
    then show ?thesis by (subst resolveLoop.simps) (simp add: refl)
  qed
qed

text \<open>The clause that is learned is added at the end of the store.\<close>

definition learns :: "solver \<Rightarrow> solver \<times> learnt \<Rightarrow> bool" where
  "learns s = (\<lambda>(t, r). case r of LearntClause d \<Rightarrow> (\<exists>u cl. R s u \<and> t = u\<lparr>store := store u @ [cl]\<rparr> \<and> d = length (store u))
     | _ \<Rightarrow> R s t)"

lemma learns_from: "R s t \<Longrightarrow> learns t x \<Longrightarrow> learns s x"
  unfolding learns_def by (cases x) (auto split: learnt.splits intro: trans)

lemma learns_simps [simp]: "learns s (t, LearntEmpty) = R s t" "learns s (t, LearntUnit l) = R s t"
  by (simp_all add: learns_def)

lemma alloc_learns: "R s u \<Longrightarrow> wlp (case alloc u cl of (d, t) \<Rightarrow> Some (t, LearntClause d)) (learns s)"
  by (auto simp: alloc_def learns_def)

lemma learnClause_keeps: "wlp (learnClause s c lvl) (learns s)"
proof -
  let ?d = "\<lambda>t. clauseDecayActivity (varDecayActivity t)"
  have d: "R s ((?d t)\<lparr>bufLit := l\<rparr>)" if "R s t" for t l using that decays buffer trans by blast
  show ?thesis
    unfolding learnClause_def Let_def
    apply (rule wlp_if, simp)
    apply (rule wlp_first [OF clauseBump], rule wlp_then)
    apply (rule keeps_first [OF keeps_from [OF _ addClauseLits_keeps]], assumption)
    apply (rule keeps_first [OF keeps_from [OF _ resolveLoop_keeps]], assumption)
    subgoal for t cl u an v r
      by (cases r) (use d [of v] in \<open>auto intro!: wlp_I alloc_learns\<close>)
    done
qed

end

text \<open>The queue keeps its elements, and no clause becomes or stops being a learned one.\<close>

definition steady :: "solver \<Rightarrow> solver \<Rightarrow> bool" where
  "steady s t \<longleftrightarrow> learned t = learned s
     \<and> (\<forall>n. pool n (varQueue s) \<longrightarrow> pool n (varQueue t) \<and> elements (varQueue t) = elements (varQueue s))"

lemma steady_queue: "learned t = learned s \<Longrightarrow> varQueue t = varQueue s \<Longrightarrow> steady s t"
  by (simp add: steady_def)

lemma bump_pool:
  assumes "pool n q" and "length acts = length (activity q)"
  shows "wlp (if q_contains (q\<lparr>activity := acts\<rparr>) v then decrease (q\<lparr>activity := acts\<rparr>) v else Some (q\<lparr>activity := acts\<rparr>))
    (\<lambda>q'. pool n q' \<and> elements q' = elements q)"
proof -
  let ?q = "q\<lparr>activity := acts\<rparr>"
  have q: "pool_ok ?q" "length acts = n" "elements ?q = elements q" using assms by (auto simp: pool_def pool_ok_def elements_def)
  show ?thesis
  proof (cases "q_contains ?q v")
    case True
    have "wlp (decrease ?q v) (\<lambda>q'. pool n q' \<and> elements q' = elements q)"
      by (rule wp_wlp, rule wp_mono [OF decrease_spec [OF q(1) True]]) (use q in \<open>auto simp: pool_def elements_def\<close>)
    then show ?thesis using True by simp
  next
    case False
    then show ?thesis using q by (simp add: pool_def)
  qed
qed

lemma varBump_steady: "wlp (varBumpActivity s v) (steady s)"
proof -
  let ?q = "varQueue s"
  have go: "wlp (if q_contains (?q\<lparr>activity := acts\<rparr>) (nat v) then decrease (?q\<lparr>activity := acts\<rparr>) (nat v)
      else Some (?q\<lparr>activity := acts\<rparr>)) (\<lambda>q. wlp (Some (s\<lparr>varQueue := q, varInc := i\<rparr>)) (steady s))"
    if "length acts = length (activity ?q)" for acts i
  proof (cases "\<exists>n. pool n ?q")
    case True
    then obtain n where n: "pool n ?q" by blast
    then have "pool m ?q \<longleftrightarrow> m = n" for m by (auto simp: pool_def)
    then show ?thesis by (intro wlp_mono [OF bump_pool [OF n that]]) (simp add: steady_def)
  qed (simp add: steady_def wlp_I)
  show ?thesis
    unfolding varBumpActivity_def Let_def wlp_bind wlp_geti wlp_puti
  proof (intro impI)
    let ?x = "float64 (activity ?q ! nat v + varInc s)"
    let ?acts = "(activity ?q)[nat v := ?x]"
    show "wlp (case if maxVarActivity < ?x then (map rescaleVar ?acts, rescaleVar (varInc s)) else (?acts, varInc s) of
        (acts, inc) \<Rightarrow> do { q \<leftarrow> if q_contains (?q\<lparr>activity := acts\<rparr>) (nat v) then decrease (?q\<lparr>activity := acts\<rparr>) (nat v)
            else Some (?q\<lparr>activity := acts\<rparr>); Some (s\<lparr>varQueue := q, varInc := inc\<rparr>) }) (steady s)"
      using go [of ?acts "varInc s"] go [of "map rescaleVar ?acts" "rescaleVar (varInc s)"]
      by (cases "maxVarActivity < ?x") (simp_all only: if_True if_False prod.case wlp_bind length_map length_list_update)
  qed
qed

lemma clauseBump_steady: "wlp (clauseBumpActivity s c) (steady s)"
  by (auto simp: clauseBumpActivity_def Let_def intro!: steady_queue wlp_I)

interpretation steady: learn_frame steady
proof (unfold_locales, goal_cases)
  case (6 s l)
  then show ?case by (simp add: steady_queue)
qed (auto simp: varBump_steady clauseBump_steady steady_def clauseDecayActivity_def varDecayActivity_def)

text \<open>What all these operations leave alone, as far as the invariant is concerned.\<close>

interpretation heuristic: learn_frame heuristic
proof (unfold_locales, goal_cases)
  case (2 s t u)
  then show ?case by (rule heuristic_trans)
next
  case (5 s)
  then show ?case using heuristic_trans [OF varDecayActivity_frame clauseDecayActivity_frame] .
qed (simp_all add: varBumpActivity_frame clauseBumpActivity_frame, simp add: heuristic_def)

end
