(* ===== verification/Complete.thy ===== *)
theory Complete
  imports SearchProof Watched LearnFrame
begin

text \<open>
  The search on a problem of clauses keeps what makes a model: when it finds no literal to bind,
  its bindings satisfy all clauses and units of the problem.
\<close>

section \<open>Steps that do not bind\<close>

text \<open>The literals of the clauses and the lists stay.\<close>

definition still :: "solver \<Rightarrow> solver \<Rightarrow> bool" where
  "still s t \<longleftrightarrow> same_lists s t \<and> store_same (store s) (store t) \<and> map lits (store t) = map lits (store s)
     \<and> learned t = learned s"

lemma still_heuristic: "heuristic s t \<Longrightarrow> learned t = learned s \<Longrightarrow> still s t"
  by (simp add: still_def heuristic_def same_lists_def)

lemma still_lits:
  assumes "still s t" and "c < length (store s)"
  shows "lits (store t ! c) = lits (store s ! c)"
  using assms store_same_length unfolding still_def by (metis nth_map)

lemma comp_still:
  assumes cst: "comp_state cs P s" and st: "still s t" and bound: "\<And>l w. l < length (wlist s) \<Longrightarrow> w \<in> set (wlist s ! l) \<Longrightarrow> w_clause w < length (store s)"
    and P: "Q \<subseteq> P" and g: "\<And>c w. c < length cs \<Longrightarrow> w \<in> ends s c \<Longrightarrow> Negation w \<in> Q \<Longrightarrow> guard s c w \<Longrightarrow> guard t c w"
  shows "comp_state cs Q t"
proof -
  have o: "orig cs s" "full cs (wlist s) s" "guarded cs P s" using cst by (simp_all add: comp_state_def)
  have same: "store_same (store s) (store t)" "wlistBin t = wlistBin s" "wlist t = wlist s" "wlistPb t = wlistPb s"
    "learned t = learned s" using st by (simp_all add: still_def same_lists_def)
  have e: "ends t c = ends s c" if "c < length cs" for c
    using still_lits [OF st origD(1) [OF o(1) that]] by (simp add: ends_def)
  have "orig cs t" by (rule orig_same [OF o(1)]) (use same in simp_all)
  moreover have "full cs (wlist t) t"
    unfolding same(3) by (rule full_csame [OF o(2) same(1,2) e _ bound]) (use o(1) in \<open>simp_all add: orig_def\<close>)
  moreover have "guarded cs Q t"
    unfolding guarded_def
  proof (intro allI impI ballI)
    fix c w assume c: "c < length cs" "w \<in> ends t c" "Negation w \<in> Q"
    then have "guard s c w" using o(3) e P by (auto simp: guarded_def)
    then show "guard t c w" using g c e by simp
  qed
  ultimately show ?thesis by (simp add: comp_state_def)
qed

lemma comp_cong:
  assumes "store t = store s" "model t = model s" "wlist t = wlist s" "wlistBin t = wlistBin s" "wlistPb t = wlistPb s"
    "learned t = learned s"
  shows "comp_state cs P t = comp_state cs P s"
proof -
  have "guard t = guard s" "ends t = ends s" using assms(1,2) by (simp_all add: fun_eq_iff guard_def ends_def)
  then have "guarded cs P t = guarded cs P s" by (simp add: guarded_def)
  then show ?thesis using assms full_cong [of t s cs] orig_cong [of t s cs] by (simp add: comp_state_def)
qed

lemma stable_bound:
  "stable a s \<Longrightarrow> l < length (wlist s) \<Longrightarrow> w \<in> set (wlist s ! l) \<Longrightarrow> w_clause w < length (store s)"
  by (rule fresh_id) (auto simp: stable_def)

lemma guard_still:
  assumes "still s t" and "c < length (store s)" and "model t = model s"
  shows "guard t c w = guard s c w"
  using still_lits [OF assms(1,2)] assms(3) by (simp add: guard_def)

lemma comp_still_model:
  assumes "comp_state cs P s" and "stable a s" and "still s t" and "model t = model s"
  shows "comp_state cs P t"
proof (rule comp_still [OF assms(1,3) stable_bound [OF assms(2)] subset_refl])
  fix c w assume c: "c < length cs" "guard s c w"
  have "c < length (store s)" using assms(1) c(1) by (simp add: comp_state_def orig_def)
  then show "guard t c w" using guard_still [OF assms(3)] assms(4) c(2) by simp
qed

lemma comp_heuristic:
  "comp_state cs P s \<Longrightarrow> stable a s \<Longrightarrow> heuristic s t \<Longrightarrow> learned t = learned s \<Longrightarrow> comp_state cs P t"
  using comp_still_model still_heuristic by (simp add: heuristic_def)

section \<open>Backjumps\<close>

lemma true_in_trail:
  assumes "core a s" and "lit_ok (nbVars s) k"
  shows "isTrue (model s) k \<longleftrightarrow> k \<in> set (trail s)"
proof -
  have k: "0 \<le> k" using assms(2) by (simp add: lit_ok_def)
  have "lit_ok (nbVars s) (Negation k)" using assms(2) k by (simp add: lit_ok_def)
  from false_in_trail [OF assms(1) this] show ?thesis using isFalse_Negation [OF k] by simp
qed

lemma cleanup_comp:
  assumes st: "stable a s" and tr: "trail s = ys @ zs" and cst: "comp_state cs (set ys) s"
    and zs: "\<forall>k \<in> set zs. j < lev (model s) k" and b: "backtracked j s t" and l: "learned t = learned s"
  shows "comp_state cs (set (trail t)) t"
proof -
  have core: "core a s" using st by (simp add: stable_def)
  have still: "still s t" using b l by (simp add: backtracked_def still_def)
  have sub: "set (trail t) \<subseteq> set ys" using b tr zs by (fastforce simp: backtracked_def)
  show ?thesis
  proof (rule comp_still [OF cst still stable_bound [OF st] sub])
    fix c w assume c: "c < length cs" "w \<in> ends s c" "Negation w \<in> set (trail t)" "guard s c w"
    have o: "orig cs s" using cst by (simp add: comp_state_def)
    obtain k where k: "k \<in> set (lits (store s ! c))" "isTrue (model s) k" "lev (model s) k \<le> lev (model s) w"
      using c(4) by (auto simp: guard_def)
    have w: "Negation w \<in> set (trail s)" "lev (model s) w \<le> j" "0 \<le> w"
      using b c(3) end_ok(2) [OF core o c(1,2)] by (auto simp: backtracked_def)
    have "k \<in> set (trail s)" using true_in_trail [OF core core_lit [OF core origD(1) [OF o c(1)] k(1)]] k(2) by simp
    moreover have "lev (model s) k \<le> j" using k(3) w(2) by simp
    ultimately have mk: "model t ! nat (Lit_Var k) = model s ! nat (Lit_Var k)" using b by (simp add: backtracked_def)
    have mw: "model t ! nat (Lit_Var w) = model s ! nat (Lit_Var w)"
      using b w by (auto simp: backtracked_def dest!: bspec [of _ _ "Negation w"])
    have "isTrue (model t) k" using k(2) mk by (simp add: isTrue_def)
    then show "guard t c w"
      using k(1,3) mk mw still_lits [OF still origD(1) [OF o c(1)]] unfolding guard_def by (intro bexI [of _ k]) simp_all
  qed
qed

section \<open>Forgetting clauses\<close>

definition pruned :: "clause list \<Rightarrow> lit set \<Rightarrow> solver \<Rightarrow> solver \<Rightarrow> bool" where
  "pruned cs P s t \<longleftrightarrow> comp_state cs P t \<and> model t = model s \<and> varQueue t = varQueue s"

lemma unwatchLit_comp:
  assumes cst: "comp_state cs P s" and c: "length cs \<le> c"
  shows "wlp (unwatchLit s c l) (\<lambda>t. pruned cs P s t \<and> learned t = learned s)"
proof -
  let ?i = "nat (Negation l)"
  have o: "orig cs s" "full cs (wlist s) s" "guarded cs P s" using cst by (simp_all add: comp_state_def)
  have "pruned cs P s (s\<lparr>wlist := (wlist s)[?i := swap_remove (wlist s ! ?i) j]\<rparr>)"
    if j: "indexWatcher (wlist s ! ?i) c = Some j" and i: "?i < length (wlist s)" for j
  proof -
    let ?ws = "wlist s ! ?i" and ?t = "s\<lparr>wlist := (wlist s)[?i := swap_remove (wlist s ! ?i) j]\<rparr>"
    have at: "j < length ws \<and> w_clause (ws ! j) = c" if "indexWatcher ws c = Some j" for ws
      using that by (induction ws arbitrary: j) (auto split: if_splits)
    have sr: "set ?ws = insert (?ws ! j) (set (swap_remove ?ws j))" "w_clause (?ws ! j) = c"
      using at [OF j] set_swap_remove by blast+
    have "full cs ((wlist s)[?i := ?ws]) s" using o(2) by simp
    then have "full cs ((wlist s)[?i := swap_remove ?ws j]) s"
      by (rule full_update [OF _ i]) (use sr c in auto)
    then show ?thesis
      using o full_cong [of ?t s cs] orig_cong [of ?t s cs]
      by (simp add: pruned_def comp_state_def guarded_def guard_def ends_def)
  qed
  then have "wlp (indexWatcher (wlist s ! ?i) c) (\<lambda>j. pruned cs P s (s\<lparr>wlist := (wlist s)[?i := swap_remove (wlist s ! ?i) j]\<rparr>))"
    if "?i < length (wlist s)" using that by (auto intro: wlp_eqI)
  then show ?thesis by (auto simp: unwatchLit_def nat_less_iff)
qed

lemma unwatchClause_comp:
  assumes cst: "comp_state cs P s" and c: "length cs \<le> c"
  shows "wlp (unwatchClause s c) (\<lambda>t. pruned cs P s t \<and> learned t = learned s)"
proof -
  have "wlp (unwatchLit t c l) (\<lambda>u. pruned cs P s u \<and> learned u = learned s)" if "pruned cs P s t \<and> learned t = learned s" for t l
    by (rule wlp_mono [OF unwatchLit_comp [OF _ c]]) (use that in \<open>auto simp: pruned_def\<close>)
  then show ?thesis
    unfolding unwatchClause_def by (auto intro!: wlp_mono [OF unwatchLit_comp [OF assms]])
qed

lemma comp_learned:
  "comp_state cs P s \<Longrightarrow> \<forall>d \<in> set ls. length cs \<le> d \<Longrightarrow> comp_state cs P (s\<lparr>learned := ls\<rparr>)"
  using full_cong [of "s\<lparr>learned := ls\<rparr>" s cs] by (simp add: comp_state_def orig_def guarded_def guard_def ends_def)

lemma reduceLoop_comp:
  assumes "comp_state cs P s"
  shows "wlp (reduceLoop keep unwatchClause s i n r) (\<lambda>(t, _). pruned cs P s t)"
  using assms
proof (induction n arbitrary: s i r)
  case 0
  then show ?case by (simp add: pruned_def)
next
  case (Suc n)
  have L: "\<forall>d \<in> set (learned s). length cs \<le> d" using Suc.prems by (simp add: comp_state_def orig_def)
  have "wlp (unwatchClause (s\<lparr>learned := (learned s)[i := d]\<rparr>) c) (\<lambda>t. wlp (reduceLoop keep unwatchClause t (Suc i) n (Suc r))
      (\<lambda>(t, _). pruned cs P s t))" if "d \<in> set (learned s)" "c \<in> set (learned s)" for d c
  proof (rule wlp_mono [OF unwatchClause_comp])
    have "\<forall>e \<in> set ((learned s)[i := d]). length cs \<le> e"
      using L that(1) set_update_subset_insert [of "learned s" i d] by auto
    then show "comp_state cs P (s\<lparr>learned := (learned s)[i := d]\<rparr>)" by (rule comp_learned [OF Suc.prems])
    show "length cs \<le> c" using L that(2) by blast
    fix t assume t: "pruned cs P (s\<lparr>learned := (learned s)[i := d]\<rparr>) t \<and> learned t = learned (s\<lparr>learned := (learned s)[i := d]\<rparr>)"
    then have "comp_state cs P t" by (simp add: pruned_def)
    from Suc.IH [OF this] show "wlp (reduceLoop keep unwatchClause t (Suc i) n (Suc r)) (\<lambda>(t, _). pruned cs P s t)"
      by (rule wlp_mono) (use t in \<open>auto simp: pruned_def\<close>)
  qed
  then show ?case using Suc by (auto simp: nat_less_iff intro: wlp_mono)
qed

lemma reduceLearned_comp:
  assumes "comp_state cs P s"
  shows "wlp (reduceLearned s) (pruned cs P s)"
proof -
  have go: "wlp (reduceLoop keep unwatchClause t 0 n 0) (\<lambda>x. wlp (case x of (u, r) \<Rightarrow>
      Some (u\<lparr>learned := take (length (learned u) - r) (learned u)\<rparr>)) (pruned cs P s))" if t: "pruned cs P s t" for t keep n
  proof -
    have "pruned cs P s (u\<lparr>learned := take k (learned u)\<rparr>)" if u: "pruned cs P t u" for u k
    proof -
      have c: "comp_state cs P u" using u by (simp add: pruned_def)
      then have "\<forall>d \<in> set (take k (learned u)). length cs \<le> d" by (auto simp: comp_state_def orig_def dest: in_set_takeD)
      from comp_learned [OF c this] show ?thesis using t u by (simp add: pruned_def)
    qed
    moreover have "comp_state cs P t" using t by (simp add: pruned_def)
    ultimately show ?thesis by (intro wlp_mono [OF reduceLoop_comp]) auto
  qed
  have "\<forall>d \<in> set ls. length cs \<le> d" if "set ls = set (learned s)" for ls
    using that assms by (simp add: comp_state_def orig_def)
  then have sorted: "pruned cs P s (s\<lparr>learned := ls\<rparr>)" if "set ls = set (learned s)" for ls
    using that comp_learned [OF assms] by (simp add: pruned_def)
  have post: "pruned cs P s (postponeNbMax t)" if "pruned cs P s t" for t
    using that comp_cong [of "postponeNbMax t" t cs P] by (simp add: pruned_def postponeNbMax_def)
  show ?thesis
    using go [OF sorted] go [OF post [OF sorted]]
    by (auto simp: reduceLearned_def sortLearned_def Let_def elim!: wlp_mono)
qed

lemma forgetClauses_comp:
  assumes "comp_state cs P s"
  shows "wlp (forgetClauses s) (pruned cs P s)"
proof -
  have c: "comp_state cs P (s\<lparr>idxReduce := i\<rparr>)" for i
    using assms comp_cong [of "s\<lparr>idxReduce := i\<rparr>" s cs P] by simp
  have "pruned cs P s (bumpNbMax t)" if "pruned cs P (s\<lparr>idxReduce := i\<rparr>) t" for t i
    using that comp_cong [of "bumpNbMax t" t cs P] by (simp add: pruned_def bumpNbMax_def)
  then show ?thesis
    using assms by (auto simp: forgetClauses_def pruned_def [of cs P s s] intro!: wlp_mono [OF reduceLearned_comp [OF c]])
qed

section \<open>A new clause\<close>

text \<open>Two elements are appended to lists of lists.\<close>

lemma two_appends:
  fixes W :: "'a list list" and x y :: 'a
  assumes "i < length W" and "j < length W"
  defines "V \<equiv> W[i := W ! i @ [x], j := W[i := W ! i @ [x]] ! j @ [y]]"
  shows "length V = length W" "set (W ! k) \<subseteq> set (V ! k)" "set (V ! k) \<subseteq> set (W ! k) \<union> {x, y}"
    "x \<in> set (V ! i)" "y \<in> set (V ! j)"
  using assms by (cases "k = i"; cases "k = j"; cases "i = j"; simp add: subset_insertI2 subset_iff)+

text \<open>Watching a clause adds it to the lists of its first two literals.\<close>

definition watches :: "solver \<Rightarrow> cid \<Rightarrow> solver \<Rightarrow> bool" where
  "watches s c t \<longleftrightarrow> (\<exists>wb wl. t = s\<lparr>wlistBin := wb, wlist := wl\<rparr>) \<and> length (wlist t) = length (wlist s)
     \<and> (\<forall>k. set (wlistBin s ! k) \<subseteq> set (wlistBin t ! k)) \<and> (\<forall>k. set (wlist s ! k) \<subseteq> set (wlist t ! k))
     \<and> (\<forall>k. \<forall>w \<in> set (wlist t ! k). w \<in> set (wlist s ! k) \<or> w_clause w = c \<and> other w \<in> ends s c)
     \<and> (\<forall>p \<in> ends s c. c \<in> w_clause ` set (home (wlist t) t c ! nat (Negation p)))"

lemma watchClause_watches:
  assumes "prop_clause (store s ! c)" and "2 \<le> Len (store s ! c)" and pos: "\<forall>p \<in> ends s c. 0 \<le> p"
  shows "wlp (watchClause s c) (watches s c)"
proof -
  let ?cl = "store s ! c"
  let ?l0 = "lits ?cl ! 0" and ?l1 = "lits ?cl ! 1"
  let ?i = "nat (Negation ?l0)" and ?j = "nat (Negation ?l1)"
  let ?x = "\<lparr>other = ?l1, w_clause = c\<rparr>" and ?y = "\<lparr>other = ?l0, w_clause = c\<rparr>"
  let ?V = "\<lambda>W. W[?i := W ! ?i @ [?x], ?j := W[?i := W ! ?i @ [?x]] ! ?j @ [?y]]"
  have ends: "ends s c = {?l0, ?l1}" by (simp add: ends_def)
  have app: "wlp (appendAt W (Negation ?l0) ?x) (\<lambda>V. wlp (appendAt V (Negation ?l1) ?y) Q)"
    if "?i < length W \<Longrightarrow> ?j < length W \<Longrightarrow> Q (?V W)" for W Q
    using that pos ends by (simp add: nat_less_iff)
  have bin: "watches s c (s\<lparr>wlistBin := ?V (wlistBin s)\<rparr>)" if "Len ?cl = 2" "?i < length (wlistBin s)" "?j < length (wlistBin s)"
  proof -
    have "s\<lparr>wlistBin := ?V (wlistBin s)\<rparr> = s\<lparr>wlistBin := ?V (wlistBin s), wlist := wlist s\<rparr>" by simp
    then have "\<exists>wb wl. s\<lparr>wlistBin := ?V (wlistBin s)\<rparr> = s\<lparr>wlistBin := wb, wlist := wl\<rparr>" by blast
    moreover have "c \<in> w_clause ` set (?V (wlistBin s) ! ?i)" "c \<in> w_clause ` set (?V (wlistBin s) ! ?j)"
      using imageI [OF two_appends(4) [OF that(2,3), where x = ?x and y = ?y], of w_clause]
        imageI [OF two_appends(5) [OF that(2,3), where x = ?x and y = ?y], of w_clause] by (simp_all only: watcher.select_convs)
    ultimately show ?thesis
      using two_appends(2) [OF that(2,3)] that(1) by (simp add: watches_def home_def ends)
  qed
  have long: "watches s c (s\<lparr>wlist := ?V (wlist s)\<rparr>)" if L: "Len ?cl \<noteq> 2" "?i < length (wlist s)" "?j < length (wlist s)"
  proof -
    have "s\<lparr>wlist := ?V (wlist s)\<rparr> = s\<lparr>wlistBin := wlistBin s, wlist := ?V (wlist s)\<rparr>" by simp
    then have "\<exists>wb wl. s\<lparr>wlist := ?V (wlist s)\<rparr> = s\<lparr>wlistBin := wb, wlist := wl\<rparr>" by blast
    moreover have "c \<in> w_clause ` set (?V (wlist s) ! ?i)" "c \<in> w_clause ` set (?V (wlist s) ! ?j)"
      using imageI [OF two_appends(4) [OF L(2,3), where x = ?x and y = ?y], of w_clause]
        imageI [OF two_appends(5) [OF L(2,3), where x = ?x and y = ?y], of w_clause] by (simp_all only: watcher.select_convs)
    moreover have "w \<in> set (wlist s ! k) \<or> w_clause w = c \<and> other w \<in> ends s c" if "w \<in> set (?V (wlist s) ! k)" for k w
      using that two_appends(3) [OF L(2,3), where k = k and x = ?x and y = ?y] ends by auto
    ultimately show ?thesis
      using two_appends(2) [OF L(2,3)] L(1) by (simp add: watches_def home_def ends)
  qed
  have "\<not> PseudoBoolean ?cl" "Cardinality ?cl = 1" using assms(1) by (auto simp: prop_clause_def PseudoBoolean_def)
  then show ?thesis
    unfolding watchClause_def using bin long by (auto intro!: app simp del: wlp_appendAt One_nat_def)
qed

lemma watches_comp:
  assumes cst: "comp_state cs P s" and c: "ends s c \<subseteq> set (lits (store s ! c))" and w: "watches s c t"
  shows "comp_state cs P t"
proof -
  have o: "orig cs s" "full cs (wlist s) s" "guarded cs P s" using cst by (simp_all add: comp_state_def)
  have same: "store t = store s" "learned t = learned s" "wlistPb t = wlistPb s" "model t = model s" using w by (auto simp: watches_def)
  have e: "ends t = ends s" "guard t = guard s" using same by (simp_all add: fun_eq_iff ends_def guard_def)
  have "set (home (wlist s) s d ! k) \<subseteq> set (home (wlist t) t d ! k)" for d k
    using w same by (simp add: home_def watches_def)
  then have "d \<in> w_clause ` set (home (wlist t) t d ! nat (Negation p))" if "d < length cs" "p \<in> ends s d" for d p
    using o(2) that unfolding full_def by blast
  moreover have "other x \<in> set (lits (store t ! w_clause x))" if "k < length (wlist t)" "x \<in> set (wlist t ! k)" for k x
    using that w o(2) c same unfolding full_def watches_def by fastforce
  ultimately have "full cs (wlist t) t" by (simp add: full_def e)
  then show ?thesis using o same e orig_cong [of t s cs] by (simp add: comp_state_def guarded_def)
qed

lemma alloc_comp:
  assumes cst: "comp_state cs P s" and st: "stable a s"
  shows "comp_state cs P (s\<lparr>store := store s @ [cl]\<rparr>)"
proof -
  let ?t = "s\<lparr>store := store s @ [cl]\<rparr>"
  have o: "orig cs s" "full cs (wlist s) s" "guarded cs P s" using cst by (simp_all add: comp_state_def)
  have nth: "store ?t ! c = store s ! c" if "c < length (store s)" for c using that by (simp add: nth_append)
  have old: "store ?t ! c = store s ! c" if "c < length cs" for c using nth origD(1) [OF o(1) that] by blast
  have "orig cs ?t" using o(1) old by (simp add: orig_def)
  moreover have "home (wlist s) ?t c = home (wlist s) s c" "ends ?t c = ends s c" if "c < length cs" for c
    using old [OF that] by (simp_all add: home_def ends_def)
  then have "full cs (wlist s) ?t"
    using o(2) nth [OF stable_bound [OF st]] by (simp add: full_def)
  moreover have "guarded cs P ?t" using o(3) old by (simp add: guarded_def guard_def ends_def)
  ultimately show ?thesis by (simp add: comp_state_def)
qed

lemma covered_steady:
  assumes "covered X s" and "steady s t" and "model t = model s" and "nbVars t = nbVars s"
  shows "covered X t"
  using assms unfolding covered_def steady_def by metis

lemma addLearned_comp:
  assumes cst: "comp_state cs P t" and st: "stable every t" and cl: "clause_ok every (nbVars t) cl" "prop_clause cl" "2 \<le> Len cl"
    and s1: "s1 = t\<lparr>store := store t @ [cl], lbdSt := x\<rparr>" and c: "c = length (store t)" and cov: "covered {} t"
  shows "wlp (addLearned s1 c) (\<lambda>u. comp_state cs P u \<and> covered {} u)"
proof -
  let ?s = "s1\<lparr>learned := learned s1 @ [c]\<rparr>"
  have st0: "stable every (t\<lparr>store := store t @ [cl]\<rparr>)" by (rule alloc_stable [OF st cl(1) refl])
  have s: "stable every ?s" using stable_same [OF st0, of ?s] s1 by (simp add: same_core_def same_lists_def forgot_def)
  have len: "length cs \<le> c" using cst c by (simp add: comp_state_def orig_def)
  have "comp_state cs P (t\<lparr>store := store t @ [cl], learned := learned t @ [c]\<rparr>)"
    using comp_learned [OF alloc_comp [OF cst st, of cl], of "learned t @ [c]"] len cst
    by (simp add: comp_state_def orig_def)
  then have cs: "comp_state cs P ?s"
    using comp_cong [of ?s "t\<lparr>store := store t @ [cl], learned := learned t @ [c]\<rparr>" cs P] by (simp add: s1)
  have at: "store ?s ! c = cl" by (simp add: s1 c)
  have "0 < length (lits cl)" "1 < length (lits cl)" using cl(3) by (auto simp: Len_def simp del: length_greater_0_conv)
  then have e: "ends ?s c \<subseteq> set (lits cl)" unfolding ends_def at by (metis empty_subsetI insert_subset nth_mem)
  have pos: "\<forall>p \<in> ends ?s c. 0 \<le> p" using e cl(1) by (auto simp: clause_ok_def lit_ok_def)
  have cv: "covered {} ?s" using cov by (simp add: covered_def s1)
  have bump: "comp_state cs P (certify v line) \<and> covered {} (certify v line)"
    if w: "watches ?s c u" "stable every u" and v: "heuristic u v \<and> steady u v" for u v line
  proof -
    have u: "comp_state cs P u" by (rule watches_comp [OF cs _ w(1)]) (use e at in simp)
    have "comp_state cs P v" by (rule comp_heuristic [OF u w(2)]) (use v in \<open>simp_all add: steady_def\<close>)
    then have "comp_state cs P (certify v line)" using comp_cong [of "certify v line" v cs P] by (simp add: certify_def)
    moreover have "covered {} u" using w(1) cv by (auto simp: watches_def covered_def)
    then have "covered {} v" by (rule covered_steady) (use v in \<open>simp_all add: heuristic_def\<close>)
    then have "covered {} (certify v line)" by (simp add: covered_def certify_def)
    ultimately show ?thesis by simp
  qed
  have fresh: "\<forall>l < length (wlist ?s). c \<notin> w_clause ` set (wlist ?s ! l)"
    using stable_bound [OF st] c s1 by fastforce
  have "wlp (watchClause ?s c) (\<lambda>u. stable every u \<and> (\<exists>wb wl. u = ?s\<lparr>wlistBin := wb, wlist := wl\<rparr>))"
    by (rule watchClause_spec [OF s]) (use at cl s1 c fresh in simp_all)
  moreover have "wlp (watchClause ?s c) (watches ?s c)"
    by (rule watchClause_watches) (use at cl pos in simp_all)
  ultimately have watch: "wlp (watchClause ?s c) (\<lambda>u. (stable every u \<and> (\<exists>wb wl. u = ?s\<lparr>wlistBin := wb, wlist := wl\<rparr>)) \<and> watches ?s c u)"
    by (rule wlp_conj)
  show ?thesis
    unfolding addLearned_def
    apply (rule wlp_first [OF watch])
    apply (rule wlp_first [OF wlp_conj [OF clauseBumpActivity_frame clauseBump_steady]])
    apply (rule wlp_then)
    using bump by auto
qed

section \<open>The search\<close>

text \<open>The units of the problem stay on the trail.\<close>

definition units :: "lit list \<Rightarrow> solver \<Rightarrow> bool" where
  "units us s \<longleftrightarrow> (\<forall>u \<in> set us. u \<in> set (trail s) \<and> lev (model s) u = 1)"

definition tracked :: "clause list \<Rightarrow> lit list \<Rightarrow> solver \<Rightarrow> bool" where
  "tracked cs us s \<longleftrightarrow> comp_state cs (set (trail s)) s \<and> units us s \<and> covered {} s"

definition trackReady :: "clause list \<Rightarrow> lit list \<Rightarrow> solver \<Rightarrow> bool" where
  "trackReady cs us s \<longleftrightarrow> ready every s \<and> tracked cs us s"

definition trackNext :: "clause list \<Rightarrow> lit list \<Rightarrow> declevel \<Rightarrow> solver \<Rightarrow> lit \<Rightarrow> bool" where
  "trackNext cs us lvl s l \<longleftrightarrow> nextOk every lvl s l \<and> nbVars s < 2 ^ 30 \<and> comp_state cs (set (trail s)) s \<and> units us s
     \<and> (if l = - 1 then \<forall>v < length (model s). model s ! v \<noteq> 0 else covered {nat (Lit_Var l)} s)"

definition pending :: "clause list \<Rightarrow> lit list \<Rightarrow> declevel \<Rightarrow> solver \<Rightarrow> cid option \<Rightarrow> bool" where
  "pending cs us lvl s r \<longleftrightarrow> pinv every lvl {} s \<and> nbVars s < 2 ^ 30 \<and> settled cs lvl s r \<and> units us s \<and> covered {} s
     \<and> (\<forall>c. r = Some c \<longrightarrow> confl_ok every lvl s c)"

definition turned :: "clause list \<Rightarrow> lit list \<Rightarrow> solver \<times> outcome \<Rightarrow> bool" where
  "turned cs us = (\<lambda>(s, r). case r of
     Done st \<Rightarrow> if st = Indet then trackReady cs us s else st = Unsat
   | Next l lvl \<Rightarrow> trackNext cs us lvl s l)"

text \<open>The bindings satisfy the clauses and the units.\<close>

definition holds :: "declevel list \<Rightarrow> lit \<Rightarrow> bool" where
  "holds m k \<longleftrightarrow> lit_ok (int (length m)) k \<and> isTrue m k"

definition solved :: "clause list \<Rightarrow> lit list \<Rightarrow> declevel list \<Rightarrow> bool" where
  "solved cs us m \<longleftrightarrow> (\<forall>c \<in> set cs. \<exists>k \<in> set (lits c). holds m k) \<and> (\<forall>u \<in> set us. holds m u)"

lemma trackNext_solved:
  assumes "trackNext cs us lvl s (- 1)"
  shows "solved cs us (model s) \<and> int (length (model s)) = nbVars s"
proof -
  have core: "core every s" and cst: "comp_state cs (set (trail s)) s" and us: "units us s"
    and all: "\<forall>v < length (model s). model s ! v \<noteq> 0" using assms by (auto simp: trackNext_def nextOk_def)
  have o: "orig cs s" "guarded cs (set (trail s)) s" using cst by (simp_all add: comp_state_def)
  have len: "int (length (model s)) = nbVars s" using core_nbVars [OF core] by simp
  have "\<exists>k \<in> set (lits (cs ! c)). holds (model s) k" if c: "c < length cs" for c
  proof -
    let ?w = "lits (store s ! c) ! 0"
    have w: "?w \<in> ends s c" by (simp add: ends_def)
    note e = end_ok [OF core o(1) c w]
    have "\<exists>k \<in> set (lits (store s ! c)). isTrue (model s) k"
    proof (cases "isTrue (model s) ?w")
      case False
      then have "isFalse (model s) ?w" using core_index [OF core e(1)] all by (simp add: isFalse_iff)
      then have "Negation ?w \<in> set (trail s)" using false_in_trail [OF core e(1)] by blast
      then have "guard s c ?w" using o(2) c w by (simp add: guarded_def)
      then show ?thesis by (auto simp: guard_def)
    qed (use e(3) in blast)
    then show ?thesis using csame_lits(1) [OF origD(4) [OF o(1) c]] core_lit [OF core origD(1) [OF o(1) c]] len
      by (auto simp: holds_def)
  qed
  then have "\<forall>c \<in> set cs. \<exists>k \<in> set (lits c). holds (model s) k" by (auto simp: in_set_conv_nth)
  moreover have "\<forall>u \<in> set us. holds (model s) u" using us core_trail(1,2) [OF core] len by (auto simp: units_def holds_def)
  ultimately show ?thesis using len by (simp add: solved_def)
qed

lemma cleanup_tracked:
  assumes st: "stable every s" and tr: "trail s = ys @ zs" and cst: "comp_state cs (set ys) s"
    and zs: "\<forall>k \<in> set zs. j < lev (model s) k" and us: "units us s" and cov: "covered {} s" and j: "1 \<le> j"
  shows "wlp (cleanupBindings s j) (\<lambda>t. stable every t \<and> backtracked j s t \<and> tracked cs us t)"
proof (rule wlp_mono [OF wlp_conj [OF cleanupBindings_spec [OF st j] cleanup_cover [OF cov]]], elim conjE)
  fix t assume t: "stable every t" "backtracked j s t" "covered {} t" "learned t = learned s"
  have "comp_state cs (set (trail t)) t" by (rule cleanup_comp [OF st tr cst zs t(2,4)])
  moreover have "units us t" using us t(2) j by (auto simp: units_def backtracked_def)
  ultimately show "stable every t \<and> backtracked j s t \<and> tracked cs us t" using t by (simp add: tracked_def)
qed

lemma decide_tracked:
  assumes p: "pinv every lvl {} s" and tr: "tracked cs us s" and n: "nbVars s < 2 ^ 30"
  shows "wlp (chooseLit s) (\<lambda>(l, t). trackNext cs us (lvl + 1) t l)"
proof -
  have sz: "sizes_ok s" using p by (simp add: pinv_def core_def)
  have st: "stable every s" using p by (simp add: pinv_stable)
  have c: "comp_state cs (set (trail s)) s" "units us s" "covered {} s" using tr by (simp_all add: tracked_def)
  have "trackNext cs us (lvl + 1) t l"
    if t: "nextOk every (lvl + 1) t l" "nbVars t = nbVars s" "heuristic s t" "learned t = learned s"
      and cov: "if l = - 1 then \<forall>v < length (model s). model s ! v \<noteq> 0 else covered {nat (Lit_Var l)} t" for l t
  proof -
    have same: "trail t = trail s" "model t = model s" using t(3) by (simp_all add: heuristic_def)
    have "comp_state cs (set (trail t)) t" using comp_heuristic [OF c(1) st t(3,4)] same by simp
    moreover have "units us t" using c(2) same by (simp add: units_def)
    ultimately show ?thesis using t(1,2) n cov same by (simp add: trackNext_def)
  qed
  then show ?thesis
    by (intro wlp_mono [OF wlp_conj [OF wlp_conj [OF chooseLit_next [OF p] chooseLit_spec [OF sz]] chooseLit_cover [OF c(3)]]]) auto
qed

lemma unify_tracked:
  assumes "trackNext cs us lvl s l" and "l \<noteq> - 1"
  shows "wlp (unifyLiteral s l lvl) (\<lambda>(t, r). pending cs us lvl t r)"
proof -
  have pre: "unifyPre every lvl s l" and n: "nbVars s < 2 ^ 30" and cst: "comp_state cs (set (trail s)) s"
    and us: "units us s" and cov: "covered {nat (Lit_Var l)} s" using assms by (simp_all add: trackNext_def nextOk_def)
  have core: "core every s" using pre by (simp add: unifyPre_def)
  show ?thesis
  proof (rule wlp_mono [OF unifyLiteral_comp [OF pre cst]], clarify)
    fix t r
    assume t: "pinv every lvl {} t" "\<forall>c. r = Some c \<longrightarrow> confl_ok every lvl t c" "nbVars t = nbVars s"
      "varQueue t = varQueue s" "settled cs lvl t r" "\<forall>v < length (model s). model s ! v \<noteq> 0 \<longrightarrow> model t ! v = model s ! v"
      "set (trail s) \<subseteq> set (trail t)" "model t ! nat (Lit_Var l) \<noteq> 0"
    have len: "length (model t) = length (model s)"
      using core_nbVars [OF core] core_nbVars [OF pinv_core [OF t(1)]] t(3) by simp
    have "lev (model t) u = 1" if "u \<in> set us" for u
      using us that t(6) core_trail(4) [OF core, of u] trail_bound [OF core, of u] by (simp add: units_def)
    then have "units us t" using us t(7) by (auto simp: units_def)
    moreover have "covered {} t"
      using cov t(3,4,6,8) len unfolding covered_def by (metis empty_iff insert_iff)
    ultimately show "pending cs us lvl t r" using t n by (simp add: pending_def)
  qed
qed

lemma afterPropagation_tracked:
  assumes "pending cs us lvl s None"
  shows "wlp (afterPropagation s lvl) (turned cs us)"
proof -
  have p: "pinv every lvl {} s" and n: "nbVars s < 2 ^ 30" and us: "units us s" and cov: "covered {} s"
    and cst: "comp_state cs (set (trail s)) s" using assms by (auto simp: pending_def settled_def)
  have st: "stable every s" using p by (simp add: pinv_stable)
  have restart: "wlp (cleanupBindings (s\<lparr>lbdSt := x\<rparr>) 1) (\<lambda>t. turned cs us (t, Done Indet))" for x
  proof -
    have "stable every (s\<lparr>lbdSt := x\<rparr>)" using stable_same [OF st, of "s\<lparr>lbdSt := x\<rparr>"]
      by (simp add: same_core_def same_lists_def forgot_def)
    moreover have "comp_state cs (set (trail s)) (s\<lparr>lbdSt := x\<rparr>)" using comp_cong [of "s\<lparr>lbdSt := x\<rparr>" s] cst by simp
    moreover have "covered {} (s\<lparr>lbdSt := x\<rparr>)" "units us (s\<lparr>lbdSt := x\<rparr>)" using cov us by (simp_all add: covered_def units_def)
    ultimately have "wlp (cleanupBindings (s\<lparr>lbdSt := x\<rparr>) 1) (\<lambda>t. stable every t \<and> backtracked 1 (s\<lparr>lbdSt := x\<rparr>) t \<and> tracked cs us t)"
      by (intro cleanup_tracked [where ys = "trail s" and zs = "[]"]) simp_all
    then show ?thesis
      by (rule wlp_mono) (use n restart_top backtracked_nbVars in \<open>auto simp: turned_def trackReady_def ready_def\<close>)
  qed
  have "wlp (forgetClauses s) (\<lambda>t. wlp (chooseLit t) (\<lambda>(l, u). turned cs us (u, Next l (lvl + 1))))"
  proof (rule wlp_mono [OF wlp_conj [OF forgetClauses_spec [OF st] forgetClauses_comp [OF cst]]], elim conjE)
    fix t assume t: "forgot every s t" "pruned cs (set (trail s)) s t"
    then have "tracked cs us t" using us cov by (simp add: tracked_def pruned_def forgot_def units_def covered_def)
    moreover have "pinv every lvl {} t" "nbVars t < 2 ^ 30" using forgot_pinv [OF p t(1)] t(1) n by (simp_all add: forgot_def)
    ultimately show "wlp (chooseLit t) (\<lambda>(l, u). turned cs us (u, Next l (lvl + 1)))"
      by (intro wlp_mono [OF decide_tracked]) (auto simp: turned_def)
  qed
  with restart show ?thesis by (auto simp: afterPropagation_def elim!: wlp_mono)
qed

text \<open>After a conflict above the top level: \<open>ys\<close> has been propagated, \<open>zs\<close> is of the level of the conflict.\<close>

definition broken :: "clause list \<Rightarrow> lit list \<Rightarrow> declevel \<Rightarrow> solver \<Rightarrow> bool" where
  "broken cs us lvl s \<longleftrightarrow> pinv every lvl {} s \<and> 1 < lvl \<and> nbVars s < 2 ^ 30 \<and> settled cs lvl s (Some 0) \<and> units us s \<and> covered {} s"

lemma broken_cleanup:
  assumes "broken cs us lvl s" and "1 \<le> j" and "j < lvl" and "stable every t" and "trail t = trail s" and "model t = model s"
    and "\<And>P. comp_state cs P s \<Longrightarrow> comp_state cs P t" and "covered {} t"
  shows "wlp (cleanupBindings t j) (\<lambda>u. stable every u \<and> backtracked j t u \<and> tracked cs us u)"
proof -
  obtain ys zs where s: "trail s = ys @ zs" "comp_state cs (set ys) s" "\<forall>k \<in> set zs. lev (model s) k = lvl"
    using assms(1) by (auto simp: broken_def settled_def)
  have "units us t" using assms(1,5,6) by (simp add: broken_def units_def)
  then show ?thesis
    by (intro cleanup_tracked [where ys = ys and zs = zs]) (use assms s in auto)
qed

lemma broken_same:
  assumes "broken cs us lvl s" and "heuristic s t" and "steady s t"
  shows "broken cs us lvl t"
proof -
  have st: "stable every s" and cov: "covered {} s" using assms(1) by (simp_all add: broken_def pinv_stable)
  have same: "trail t = trail s" "model t = model s" "nbVars t = nbVars s" "learned t = learned s"
    using assms(2,3) by (simp_all add: heuristic_def steady_def)
  have "pinv every lvl {} t" using assms(1,2) stable_heuristic [OF st] same by (simp add: broken_def pinv_stable)
  moreover have "settled cs lvl t (Some 0)"
    using assms(1) comp_heuristic [OF _ st assms(2) same(4)] same(1,2) by (fastforce simp: broken_def settled_def)
  moreover have "covered {} t" using covered_steady [OF cov assms(3)] same by simp
  ultimately show ?thesis using assms(1) same by (simp add: broken_def units_def)
qed

lemma learnUnit_tracked:
  assumes b: "broken cs us lvl s" and l: "lit_ok (nbVars s) l" "isFalse (model s) l" "lev (model s) l = lvl"
  shows "wlp (learnUnit s l) (turned cs us)"
proof -
  have p: "pinv every lvl {} s" and lvl: "1 < lvl" and n: "nbVars s < 2 ^ 30" using b by (simp_all add: broken_def)
  show ?thesis
  proof (rule learnUnit_wlp [OF p lvl l, where P = "tracked cs us"])
    fix x
    show "wlp (cleanupBindings (s\<lparr>lbdSt := x\<rparr>) 1) (\<lambda>t. stable every t \<and> backtracked 1 (s\<lparr>lbdSt := x\<rparr>) t \<and> tracked cs us t)"
    proof (rule broken_cleanup [OF b order_refl lvl])
      show "stable every (s\<lparr>lbdSt := x\<rparr>)"
        using p stable_same [of every s "s\<lparr>lbdSt := x\<rparr>"] by (simp add: pinv_stable same_core_def same_lists_def forgot_def)
      show "comp_state cs P (s\<lparr>lbdSt := x\<rparr>)" if "comp_state cs P s" for P using comp_cong [of "s\<lparr>lbdSt := x\<rparr>" s] that by simp
      show "covered {} (s\<lparr>lbdSt := x\<rparr>)" using b by (simp add: broken_def covered_def)
    qed simp_all
  next
    fix t line
    assume t: "stable every t" "pinv every 1 {} t" "nbVars t = nbVars s" "model t ! nat (Lit_Var l) = 0" "tracked cs us t"
    let ?c = "certify t line"
    have c: "pinv every 1 {} ?c" "nbVars ?c = nbVars s" "model ?c = model t" "trail ?c = trail t"
      using t(1-3) certify_frame [of t line] stable_heuristic [OF t(1)] by (auto simp: pinv_stable heuristic_def)
    have "comp_state cs (set (trail ?c)) ?c" "units us ?c" "covered {nat (Lit_Var l)} ?c"
      using t(5) comp_cong [of ?c t] by (auto simp: tracked_def certify_def units_def covered_def)
    moreover have "unifyPre every 1 ?c l" using unifyPre_top [OF c(1)] l(1) t(4) c(2,3) by simp
    then have "nextOk every 1 ?c l" by (rule nextOk_unify)
    moreover have ne: "l \<noteq> - 1" using l(1) by (auto simp: lit_ok_def)
    ultimately have "trackNext cs us 1 ?c l" using n c(2) by (simp add: trackNext_def)
    then have u: "wlp (unifyLiteral ?c l 1) (\<lambda>(t, r). pending cs us 1 t r)" using ne by (rule unify_tracked)
    have next_: "wlp (rebuildOrderHeap u) (\<lambda>v. wlp (chooseLit v) (\<lambda>(k, w). turned cs us (w, Next k 2)))"
      if u: "pending cs us 1 u None" for u
    proof (rule wlp_mono [OF wlp_conj [OF rebuildOrderHeap_frame rebuild_cover]], rule_tac [2] wlp_mono [OF decide_tracked])
      have us: "stable every u" "comp_state cs (set (trail u)) u" "units us u" using u by (auto simp: pending_def pinv_stable settled_def)
      fix v assume v: "heuristic u v \<and> learned v = learned u \<and> covered {} v"
      then have same: "trail v = trail u" "model v = model u" "nbVars v = nbVars u" by (simp_all add: heuristic_def)
      show "pinv every 1 {} v" "nbVars v < 2 ^ 30" using u v stable_heuristic [OF us(1)] same by (auto simp: pending_def pinv_stable)
      show "tracked cs us v" using comp_heuristic [OF us(2,1)] v us(3) same by (simp add: tracked_def units_def)
    qed (use u in \<open>auto simp: turned_def pending_def\<close>)
    show "wlp (unifyLiteral ?c l 1) (\<lambda>(u, confl). if confl \<noteq> None then turned cs us (setUnsat u, Done Unsat)
        else wlp (rebuildOrderHeap u) (\<lambda>v. wlp (chooseLit v) (\<lambda>(k, w). turned cs us (w, Next k 2))))"
      by (rule wlp_mono [OF u]) (use next_ in \<open>auto simp: turned_def\<close>)
  qed
qed

lemma comp_lock:
  assumes "comp_state cs P s" and "stable every s" and c: "c < length (store s)"
  shows "comp_state cs P (s\<lparr>reason := r, store := (store s)[c := lock (store s ! c)]\<rparr>)"
proof -
  have "lits (lock (store s ! c)) = map lits (store s) ! c" using c by (simp add: lock_def)
  then have "map lits ((store s)[c := lock (store s ! c)]) = map lits (store s)" by (simp add: map_update)
  moreover have "store_same (store s) ((store s)[c := lock (store s ! c)])" by (rule store_same_put [OF c csame_lock])
  ultimately have "still s (s\<lparr>reason := r, store := (store s)[c := lock (store s ! c)]\<rparr>)"
    by (simp add: still_def same_lists_def)
  then show ?thesis by (rule comp_still_model [OF assms(1,2)]) simp
qed

lemma two_lits:
  assumes "2 \<le> length ls"
  obtains a b ks where "ls = a # b # ks"
  using assms by (cases ls; cases "tl ls") auto

lemma learnLong_tracked:
  assumes b: "broken cs us lvl s" and lo: "learnt_ok every lvl s cl" and h: "heuristic s t" "steady s t"
    and s1: "s1 = t\<lparr>store := store t @ [cl]\<rparr>" and c: "c = length (store s)"
  shows "wlp (learnLong s1 c) (turned cs us)"
proof -
  have p: "pinv every lvl {} s" and lvl: "1 < lvl" and n: "nbVars s < 2 ^ 30" using b by (simp_all add: broken_def)
  have bt: "broken cs us lvl t" by (rule broken_same [OF b h])
  have lent: "c = length (store t)" using h store_same_length c by (auto simp: heuristic_def)
  have pt: "stable every t" "trail t = trail s" "model t = model s" "nbVars t = nbVars s" "covered {} t"
    using p h stable_heuristic bt by (auto simp: pinv_stable heuristic_def broken_def)
  have clo: "clause_ok every (nbVars t) cl" "prop_clause cl" "2 \<le> Len cl" using lo pt(4) by (simp_all add: learnt_ok_def)
  have l1: "lits cl ! 1 \<in> set (lits cl)" "lits cl ! 1 \<in> set (tl (lits cl))"
    by (rule two_lits [OF clo(3) [unfolded Len_def]], simp)+
  have j: "1 \<le> lev (model s) (lits cl ! 1)" "lev (model s) (lits cl ! 1) < lvl" using lo l1 by (auto simp: learnt_ok_def isFalse_def)
  show ?thesis
  proof (rule learnLong_wlp [where P = "\<lambda>u. added every t c cl u \<and> (\<forall>P. comp_state cs P t \<longrightarrow> comp_state cs P u) \<and> covered {} u"
        and m = "model s" and ls = "lits cl"])
    fix x
    have a: "wlp (addLearned (s1\<lparr>lbdSt := x\<rparr>) c) (added every t c cl)"
      by (rule addLearned_spec [OF pt(1) clo _ lent]) (simp add: s1)
    have "wlp (addLearned (s1\<lparr>lbdSt := x\<rparr>) c) (\<lambda>u. comp_state cs P u \<and> covered {} u)" if "comp_state cs P t" for P
      by (rule addLearned_comp [OF that pt(1) clo _ lent pt(5)]) (simp add: s1)
    moreover obtain P where "comp_state cs P t" using bt by (auto simp: broken_def settled_def)
    ultimately have "wlp (addLearned (s1\<lparr>lbdSt := x\<rparr>) c) (\<lambda>u. (\<forall>P. comp_state cs P t \<longrightarrow> comp_state cs P u) \<and> covered {} u)"
      unfolding wlp_iff by blast
    from wlp_conj [OF a this] show "wlp (addLearned (s1\<lparr>lbdSt := x\<rparr>) c) (\<lambda>u. lits (store u ! c) = lits cl \<and> model u = model s
        \<and> added every t c cl u \<and> (\<forall>P. comp_state cs P t \<longrightarrow> comp_state cs P u) \<and> covered {} u)"
      by (rule wlp_mono) (simp add: added_def pt(3))
  next
    fix u assume u: "added every t c cl u \<and> (\<forall>P. comp_state cs P t \<longrightarrow> comp_state cs P u) \<and> covered {} u"
    let ?j = "lev (model s) (lits cl ! 1)"
    have "wlp (cleanupBindings u ?j) (\<lambda>v. stable every v \<and> backtracked ?j u v \<and> tracked cs us v)"
      by (rule broken_cleanup [OF bt j]) (use u in \<open>simp_all add: added_def\<close>)
    then show "wlp (cleanupBindings u ?j) (\<lambda>v. turned cs us
        (v\<lparr>reason := (reason v)[nat (Lit_Var (lits cl ! 0)) := Some c], store := (store v)[c := lock (store v ! c)]\<rparr>,
         Next (lits cl ! 0) ?j))"
    proof (rule wlp_mono, elim conjE)
      fix v assume v: "stable every v" "backtracked ?j u v" "tracked cs us v"
      let ?v = "v\<lparr>reason := (reason v)[nat (Lit_Var (lits cl ! 0)) := Some c], store := (store v)[c := lock (store v ! c)]\<rparr>"
      have cv: "c < length (store v)" "csame cl (store v ! c)"
        using v(2) u store_same_length store_same_nth csame_trans by (fastforce simp: backtracked_def added_def)+
      have nb: "nbVars v = nbVars s" using backtracked_nbVars [OF v(2)] u pt(4) by (simp add: added_def)
      have "unifyPre every ?j ?v (lits cl ! 0)"
        by (rule asserting [OF p lo v(1) cv v(2)]) (use u pt in \<open>simp_all add: added_def\<close>)
      then have "nextOk every ?j ?v (lits cl ! 0)" by (rule nextOk_unify)
      moreover have "comp_state cs (set (trail v)) ?v" using v(3) by (intro comp_lock [OF _ v(1) cv(1)]) (simp add: tracked_def)
      moreover have "units us ?v" "covered {nat (Lit_Var (lits cl ! 0))} ?v"
        using v(3) by (auto simp: tracked_def units_def covered_def)
      moreover have "lits cl ! 0 \<in> set (lits cl)" using clo(3) by (cases "lits cl") (auto simp: Len_def)
      then have "lits cl ! 0 \<noteq> - 1" using clo(1) by (auto simp: clause_ok_def lit_ok_def)
      ultimately show "turned cs us (?v, Next (lits cl ! 0) ?j)" using n nb by (simp add: turned_def trackNext_def)
    qed
  qed (use clo(3) in \<open>simp add: Len_def\<close>)
qed

lemma afterConflict_tracked:
  assumes "pending cs us lvl s (Some c)"
  shows "wlp (afterConflict s c lvl) (turned cs us)"
proof -
  have p: "pinv every lvl {} s" and confl: "confl_ok every lvl s c" and n: "nbVars s < 2 ^ 30"
    using assms by (simp_all add: pending_def)
  show ?thesis
  proof (cases "1 < lvl")
    case False
    then have "lvl = 1" using p by (simp add: pinv_def)
    then show ?thesis using afterConflict_top [of every s c] p confl by (auto simp: refuted_def turned_def elim!: wlp_mono)
  next
    case lvl: True
    show ?thesis
    proof (rule afterConflict_wlp)
      fix i d x
      let ?s = "s\<lparr>NbConflicts := i, varDecay := d, lbdSt := x\<rparr>"
      have ps: "pinv every lvl {} ?s" "confl_ok every lvl ?s c" "nbVars ?s < 2 ^ 30"
        using forgot_pinv [OF p stable_same [of every s ?s]] p confl n
        by (simp_all add: pinv_stable same_core_def same_lists_def confl_ok_def)
      have "comp_state cs P s = comp_state cs P ?s" for P using comp_cong [of ?s s] by simp
      then have b: "broken cs us lvl ?s"
        using assms ps lvl by (simp add: broken_def pending_def settled_def units_def covered_def)
      show "wlp (learnClause ?s c lvl) (\<lambda>(t, r). wlp (case r of
           LearntEmpty \<Rightarrow> learnUnit t (- 1)
         | LearntUnit unit \<Rightarrow> learnUnit t unit
         | LearntClause c \<Rightarrow> learnLong t c) (turned cs us))"
      proof (rule wlp_mono [OF wlp_conj [OF learnClause_spec [OF ps(1) lvl ps(2,3)] steady.learnClause_keeps]], clarify)
        fix t r assume post: "learn_post every lvl ?s (t, r)" "steady.learns ?s (t, r)"
        show "wlp (case r of
             LearntEmpty \<Rightarrow> learnUnit t (- 1)
           | LearntUnit unit \<Rightarrow> learnUnit t unit
           | LearntClause c \<Rightarrow> learnLong t c) (turned cs us)"
        proof (cases r)
          case (LearntUnit l)
          then have u: "heuristic ?s t" "lit_ok (nbVars ?s) l" "isFalse (model ?s) l" "lev (model ?s) l = lvl" "steady ?s t"
            using post by (simp_all add: learn_post_def)
          then have "nbVars t = nbVars ?s" "model t = model ?s" by (simp_all add: heuristic_def)
          then have "wlp (learnUnit t l) (turned cs us)"
            using u by (intro learnUnit_tracked [OF broken_same [OF b u(1,5)]]) simp_all
          then show ?thesis by (simp add: LearntUnit)
        next
          case (LearntClause e)
          then obtain u cl where u: "e = length (store ?s)" "heuristic ?s u" "t = u\<lparr>store := store u @ [cl]\<rparr>"
            "learnt_ok every lvl ?s cl"
            using post by (auto simp: learn_post_def)
          obtain v cl' where v: "steady ?s v" "t = v\<lparr>store := store v @ [cl']\<rparr>"
            using post(2) LearntClause by (auto simp: steady.learns_def)
          have "learned u = learned v" "varQueue u = varQueue v"
            using arg_cong [OF v(2), of learned] arg_cong [OF v(2), of varQueue] u(3) by simp_all
          then have "steady ?s u" using v(1) by (simp add: steady_def)
          then have "wlp (learnLong t e) (turned cs us)" by (rule learnLong_tracked [OF b u(4,2) _ u(3,1)])
          then show ?thesis by (simp add: LearntClause)
        qed (use post in \<open>simp add: learn_post_def\<close>)
      qed
    qed
  qed
qed

interpretation model_search: search_loop "trackNext cs us" "trackReady cs us" "\<lambda>s st. st = Sat \<longrightarrow> solved cs us (model s) \<and> int (length (model s)) = nbVars s" for cs us
proof (unfold_locales, goal_cases)
  case (1 lvl s l)
  have t: "wlp (case r of None \<Rightarrow> afterPropagation t lvl | Some c \<Rightarrow> afterConflict t c lvl) (turned cs us)" if "pending cs us lvl t r" for t r
    using that afterPropagation_tracked afterConflict_tracked by (cases r) simp_all
  have "wlp (case r of None \<Rightarrow> afterPropagation t lvl | Some c \<Rightarrow> afterConflict t c lvl) (\<lambda>(u, r). case r of
        Done st \<Rightarrow> if st = Indet then trackReady cs us u else st = Sat \<longrightarrow> solved cs us (model u) \<and> int (length (model u)) = nbVars u
      | Next l lvl \<Rightarrow> trackNext cs us lvl u l)" if "pending cs us lvl t r" for t r
    by (rule wlp_mono [OF t [OF that]]) (auto simp: turned_def split: outcome.splits if_splits)
  then show ?case by (intro wlp_mono [OF unify_tracked [OF 1]]) (auto split del: if_split)
next
  case (2 lvl s)
  then show ?case using trackNext_solved by simp
next
  case (3 s)
  then have "pinv every 1 {} s" "nbVars s < 2 ^ 30" "tracked cs us s" by (simp_all add: trackReady_def ready_def)
  then show ?case using decide_tracked [of 1 s cs us] by simp
next
  case (4 s n)
  let ?s = "s\<lparr>NbRestarts := n\<rparr>"
  have r: "ready every s" "tracked cs us s" using 4 by (simp_all add: trackReady_def)
  have rs: "ready every ?s" using r(1) by (rule ready_same) (simp add: same_core_def same_lists_def)
  have cs: "comp_state cs (set (trail s)) ?s" "stable every ?s" "covered {} ?s" "units us ?s"
    using r(2) rs comp_cong [of ?s s] by (simp_all add: tracked_def ready_def pinv_stable covered_def units_def)
  have "trackReady cs us t" if "heuristic ?s t" "learned t = learned ?s" "covered {} t" for t
    using ready_heuristic [OF rs that(1)] comp_heuristic [OF cs(1,2) that(1,2)] that(1,3) cs(4)
    by (simp add: trackReady_def tracked_def heuristic_def units_def)
  then show ?case by (intro wlp_mono [OF wlp_conj [OF rebuildOrderHeap_frame rebuild_cover [OF cs(3)]]]) auto
next
  case (5 s st)
  have "ready every (s\<lparr>sStatus := st\<rparr>)" if "ready every s"
    using that by (rule ready_same) (simp add: same_core_def same_lists_def)
  then show ?case
    using 5 comp_cong [of "s\<lparr>sStatus := st\<rparr>" s] by (simp add: trackReady_def tracked_def covered_def units_def)
qed simp_all

end
