(* ===== verification/Simplifiers.thy ===== *)
theory Simplifiers
  imports ParseSlice
begin

text \<open>
  Model of the simplifiers of \<open>solver/problem.go\<close> for cardinality and pseudo-boolean constraints,
  \<open>simplifyCard\<close> and \<open>simplifyPB\<close>, and of the detection of at-most-one constraints among the
  binary clauses. \<open>simplifyPB\<close> ends and keeps the models of the problem.
\<close>

section \<open>Cardinality constraints\<close>

text \<open>
  The loop over the literals of a constraint. A true literal is counted but not stepped over, so it
  is counted until the bound is reached.
\<close>

partial_function (option) cardLitLoop ::
  "declevel list \<Rightarrow> clause \<Rightarrow> nat \<Rightarrow> nat \<Rightarrow> int \<Rightarrow> int \<Rightarrow> (clause \<times> nat \<times> bool) option" where
  "cardLitLoop ms c n j nbSat cd =
     (if j < n then do {
        l \<leftarrow> Get c j;
        m \<leftarrow> geti ms (Lit_Var l);
        if m = 0 then cardLitLoop ms c n (Suc j) nbSat cd
        else if (m = 1) = IsPositive l then
          (if nbSat + 1 = cd then Some (c, n, True) else cardLitLoop ms c n j (nbSat + 1) cd)
        else do {
          x \<leftarrow> Get c (n - 1);
          c \<leftarrow> Set c j x;
          cardLitLoop ms c (n - 1) j nbSat cd } }
      else Some (c, n, False))"

declare cardLitLoop.simps [code]

text \<open>The loop over the constraints; the last component says that the function returned.\<close>

partial_function (option) cardClauseLoop ::
  "problem \<Rightarrow> nat \<Rightarrow> nat \<Rightarrow> bool \<Rightarrow> (problem \<times> nat \<times> bool \<times> bool) option" where
  "cardClauseLoop pb nb i restart =
     (if i < nb then do {
        c \<leftarrow> get (Clauses pb) i;
        let cd = Cardinality c;
        (c, n, sat) \<leftarrow> cardLitLoop (pModel pb) c (Len c) 0 0 cd;
        cs \<leftarrow> put (Clauses pb) i c;
        let pb = pb\<lparr>Clauses := cs\<rparr>;
        if sat then do {
          x \<leftarrow> get cs (nb - 1);
          cs \<leftarrow> put cs i x;
          cardClauseLoop (pb\<lparr>Clauses := cs\<rparr>) (nb - 1) i restart }
        else if int n < cd then Some (pb\<lparr>pStatus := Unsat\<rparr>, nb, restart, True)
        else if int n = cd then do {
          pb \<leftarrow> addUnits pb c n;
          if pStatus pb = Unsat then Some (pb, nb, restart, True)
          else do {
            x \<leftarrow> get (Clauses pb) (nb - 1);
            cs \<leftarrow> put (Clauses pb) i x;
            cardClauseLoop (pb\<lparr>Clauses := cs\<rparr>) (nb - 1) i True } }
        else do {
          c \<leftarrow> (if Len c \<noteq> n then Shrink c n else Some c);
          cs \<leftarrow> put cs i c;
          cardClauseLoop (pb\<lparr>Clauses := cs\<rparr>) nb (Suc i) restart } }
      else Some (pb, nb, restart, False))"

declare cardClauseLoop.simps [code]

partial_function (option) simplifyCardLoop :: "problem \<Rightarrow> nat \<Rightarrow> (problem \<times> nat \<times> bool) option" where
  "simplifyCardLoop pb nb = do {
     (pb, nb, restart, ret) \<leftarrow> cardClauseLoop pb nb 0 False;
     if ret then Some (pb, nb, True)
     else if restart then simplifyCardLoop pb nb
     else Some (pb, nb, False) }"

declare simplifyCardLoop.simps [code]

definition simplifyCard :: "problem \<Rightarrow> problem option" where
  "simplifyCard pb = do {
     (pb, nb, ret) \<leftarrow> simplifyCardLoop pb (length (Clauses pb));
     if ret then Some pb else updateStatus pb nb }"

section \<open>Pseudo-boolean constraints\<close>

lemma removeLit_Len: "removeLit c j = Some c' \<Longrightarrow> Len c' = Len c - 1 \<and> j < Len c"
  by (auto simp: removeLit_def removeLast_def Len_def bind_eq_Some_conv split: option.splits if_splits)

lemma updateCardinality_Len [simp]: "Len (updateCardinality c k) = Len c"
  by (simp add: Len_def)

lemma addUnit_Clauses: "addUnit pb l = Some pb' \<Longrightarrow> Clauses pb' = Clauses pb"
  by (auto simp: addUnit_def bind_eq_Some_conv split: if_splits)

text \<open>
  The loop over the literals of the constraint \<open>c\<close>: \<open>cd\<close> and \<open>wSum\<close> are the local copies of its
  bound and of the sum of its weights, 64-bit integers. The result ends with whether something changed and
  whether the function returned.
\<close>

function pbLitLoop :: "problem \<Rightarrow> clause \<Rightarrow> nat \<Rightarrow> int \<Rightarrow> int \<Rightarrow> bool
    \<Rightarrow> (problem \<times> clause \<times> int \<times> int \<times> bool \<times> bool) option" where
  "pbLitLoop pb c j cd wSum modified =
     (if j < Len c then do {
        l \<leftarrow> Get c j;
        w \<leftarrow> Weight c j;
        m \<leftarrow> geti (pModel pb) (Lit_Var l);
        if m = 0 then
          if int64 (wSum - w) < cd then do {
            pb \<leftarrow> addUnit pb l;
            if pStatus pb = Unsat then Some (pb, c, cd, wSum, modified, True)
            else do {
              c \<leftarrow> removeLit c j;
              pbLitLoop pb (updateCardinality c (int64 (- w))) j (int64 (cd - w)) (int64 (wSum - w)) True } }
          else pbLitLoop pb c (Suc j) cd wSum modified
        else if (m = 1) = IsPositive l then do {
          c \<leftarrow> removeLit (updateCardinality c (int64 (- w))) j;
          pbLitLoop pb c j (int64 (cd - w)) (int64 (wSum - w)) True }
        else do {
          c \<leftarrow> removeLit c j;
          pbLitLoop pb c j cd (int64 (wSum - w)) True } }
      else Some (pb, c, cd, wSum, modified, False))"
  by pat_completeness auto
termination
  by (relation "measure (\<lambda>(pb, c, j, cd, wSum, modified). Len c - j)") (auto dest!: removeLit_Len)

declare pbLitLoop.simps [simp del]

lemma pbLitLoop_frame:
  "pbLitLoop pb c j cd wSum modified = Some (pb', c', cd', wSum', modified', ret) \<Longrightarrow>
     Clauses pb' = Clauses pb \<and> Len c' \<le> Len c \<and> (modified' \<longrightarrow> modified \<or> Len c' < Len c) \<and> (modified \<longrightarrow> modified')"
proof (induction pb c j cd wSum modified rule: pbLitLoop.induct)
  case (1 pb c j cd wSum modified)
  note p = "1.prems" [unfolded pbLitLoop.simps [of pb c j cd wSum modified]]
  show ?case
  proof (cases "j < Len c")
    case j: True
    obtain l w m where lwm: "Get c j = Some l" "Weight c j = Some w" "geti (pModel pb) (Lit_Var l) = Some m"
      using p j by (auto simp: bind_eq_Some_conv)
    note ih = "1.IH" [OF j lwm]
    consider (unit) "m = 0" "int64 (wSum - w) < cd" | (skip) "m = 0" "\<not> int64 (wSum - w) < cd"
      | (sat) "m \<noteq> 0" "(m = 1) = IsPositive l" | (false) "m \<noteq> 0" "(m = 1) \<noteq> IsPositive l" by blast
    then show ?thesis
    proof cases
      case unit
      obtain pb1 where pb1: "addUnit pb l = Some pb1" using p j lwm unit by (auto simp: bind_eq_Some_conv)
      show ?thesis
      proof (cases "pStatus pb1 = Unsat")
        case True
        then show ?thesis using p j lwm unit pb1 addUnit_Clauses [OF pb1] by auto
      next
        case False
        obtain d where d: "removeLit c j = Some d" using p j lwm unit pb1 False by (auto simp: bind_eq_Some_conv)
        show ?thesis
          using ih(1) [OF unit pb1 False d] removeLit_Len [OF d] addUnit_Clauses [OF pb1] p j lwm unit pb1 False d by auto
      qed
    next
      case skip
      then show ?thesis using ih(2) p j lwm by simp
    next
      case sat
      obtain d where d: "removeLit (updateCardinality c (int64 (- w))) j = Some d" using p j lwm sat by (auto simp: bind_eq_Some_conv)
      show ?thesis using ih(3) [OF sat d] removeLit_Len [OF d] p j lwm sat d by auto
    next
      case false
      obtain d where d: "removeLit c j = Some d" using p j lwm false by (auto simp: bind_eq_Some_conv)
      show ?thesis using ih(4) [OF false d] removeLit_Len [OF d] p j lwm false d by auto
    qed
  qed (use p in auto)
qed

text \<open>The loop over the constraints.\<close>

function pbClauseLoop :: "problem \<Rightarrow> nat \<Rightarrow> bool \<Rightarrow> (problem \<times> bool \<times> bool) option" where
  "pbClauseLoop pb i modified =
     (if i < length (Clauses pb) then do {
        c \<leftarrow> get (Clauses pb) i;
        (pb, c, cd, wSum, modified, ret) \<leftarrow> pbLitLoop pb c 0 (Cardinality c) (WeightSum c) modified;
        cs \<leftarrow> put (Clauses pb) i c;
        if ret then Some (pb\<lparr>Clauses := cs\<rparr>, modified, True)
        else if cd \<le> 0 then pbClauseLoop (pb\<lparr>Clauses := swap_remove cs i\<rparr>) i True
        else if wSum < cd then Some (pb\<lparr>Clauses := [], pStatus := Unsat\<rparr>, modified, True)
        else pbClauseLoop (pb\<lparr>Clauses := cs\<rparr>) (Suc i) modified }
      else Some (pb, modified, False))"
  by pat_completeness auto
termination
  by (relation "measure (\<lambda>(pb, i, modified). length (Clauses pb) - i)")
    (auto simp: put_def dest!: pbLitLoop_frame split: if_splits)

declare pbClauseLoop.simps [simp del]

text \<open>A pass that changes something makes the problem smaller.\<close>

definition pbSize :: "problem \<Rightarrow> nat" where
  "pbSize pb = (\<Sum>c\<leftarrow>Clauses pb. Suc (Len c))"

lemma sum_list_put:
  "i < length cs \<Longrightarrow> (\<Sum>c\<leftarrow>cs[i := d]. f c) + f (cs ! i) = (\<Sum>c\<leftarrow>cs. f c) + f d" for f :: "'a \<Rightarrow> nat"
proof (induction cs arbitrary: i)
  case (Cons c cs)
  then show ?case by (cases i) (auto simp: add_ac)
qed simp

lemma sum_list_swap_remove:
  "i < length cs \<Longrightarrow> (\<Sum>c\<leftarrow>swap_remove cs i. f c) + f (cs ! i) = (\<Sum>c\<leftarrow>cs. f c)" for f :: "'a \<Rightarrow> nat"
  using arg_cong [OF mset_swap_remove [of i cs], of "\<lambda>M. \<Sum>c\<in>#M. f c"] by (simp add: sum_mset_sum_list [symmetric] add.commute)

lemma pbClauseLoop_size:
  "pbClauseLoop pb i modified = Some (pb', modified', ret) \<Longrightarrow> \<not> ret \<Longrightarrow>
     pbSize pb' \<le> pbSize pb \<and> (modified' \<longrightarrow> modified \<or> pbSize pb' < pbSize pb)"
proof (induction pb i modified rule: pbClauseLoop.induct)
  case (1 pb i modified)
  note p = "1.prems"(1) [unfolded pbClauseLoop.simps [of pb i modified]]
  show ?case
  proof (cases "i < length (Clauses pb)")
    case i: True
    let ?c = "Clauses pb ! i"
    obtain pb1 c cd wSum m1 r1 where l: "pbLitLoop pb ?c 0 (Cardinality ?c) (WeightSum ?c) modified = Some (pb1, c, cd, wSum, m1, r1)"
      using p i by (auto simp: bind_eq_Some_conv)
    note f = pbLitLoop_frame [OF l]
    let ?cs = "(Clauses pb)[i := c]"
    have s: "(\<Sum>d\<leftarrow>?cs. Suc (Len d)) + Suc (Len ?c) = (\<Sum>d\<leftarrow>Clauses pb. Suc (Len d)) + Suc (Len c)"
      by (rule sum_list_put [OF i])
    have put: "put (Clauses pb1) i c = Some ?cs" using f i by simp
    have r1: "\<not> r1" using p i l put "1.prems"(2) by auto
    consider (drop) "cd \<le> 0" | (unsat) "\<not> cd \<le> 0" "wSum < cd" | (keep) "\<not> cd \<le> 0" "\<not> wSum < cd" by blast
    then show ?thesis
    proof cases
      case drop
      have "(\<Sum>d\<leftarrow>swap_remove ?cs i. Suc (Len d)) + Suc (Len c) = (\<Sum>d\<leftarrow>?cs. Suc (Len d))"
        using sum_list_swap_remove [of i ?cs "\<lambda>d. Suc (Len d)"] i by simp
      moreover have "pbSize pb' \<le> pbSize (pb1\<lparr>Clauses := swap_remove ?cs i\<rparr>)"
        using "1.IH"(1) [OF i get_Some [OF i] l refl refl refl refl refl put r1 drop] p i l put r1 drop "1.prems"(2) by simp
      ultimately show ?thesis using s f by (simp add: pbSize_def)
    next
      case unsat
      then show ?thesis using p i l put r1 "1.prems"(2) by simp
    next
      case keep
      have "pbSize pb' \<le> pbSize (pb1\<lparr>Clauses := ?cs\<rparr>) \<and> (modified' \<longrightarrow> m1 \<or> pbSize pb' < pbSize (pb1\<lparr>Clauses := ?cs\<rparr>))"
        using "1.IH"(2) [OF i get_Some [OF i] l refl refl refl refl refl put r1 keep] p i l put r1 keep "1.prems"(2) by simp
      then show ?thesis using s f by (auto simp: pbSize_def)
    qed
  qed (use p in auto)
qed

function simplifyPBLoop :: "problem \<Rightarrow> (problem \<times> bool) option" where
  "simplifyPBLoop pb = do {
     (pb, modified, ret) \<leftarrow> pbClauseLoop pb 0 False;
     if ret then Some (pb, True)
     else if modified then simplifyPBLoop pb
     else Some (pb, False) }"
  by pat_completeness auto
termination
  by (relation "measure pbSize") (auto dest!: pbClauseLoop_size)

declare simplifyPBLoop.simps [simp del]

definition simplifyPB :: "problem \<Rightarrow> problem option" where
  "simplifyPB pb = do {
     pb \<leftarrow> replicateUnits pb;
     (pb, ret) \<leftarrow> simplifyPBLoop pb;
     Some (if \<not> ret \<and> pStatus pb = Indet \<and> Clauses pb = [] then pb\<lparr>pStatus := Sat\<rparr> else pb) }"

section \<open>Correctness of the simplification of pseudo-boolean constraints\<close>

text \<open>The state of the loop over the literals.\<close>

definition pbLoop_ok :: "problem \<Rightarrow> clause \<Rightarrow> int \<Rightarrow> int \<Rightarrow> bool" where
  "pbLoop_ok pb c cd wSum \<longleftrightarrow> pb_inv pb \<and> pStatus pb \<noteq> Unsat \<and> lits_ok (NbVars pb) (lits c) \<and> pbData c \<noteq> None
     \<and> length (c_weights c) = length (lits c) \<and> (\<forall>w \<in> set (c_weights c). 0 < w) \<and> wSum = sum_list (c_weights c)
     \<and> wSum < 2 ^ 62 \<and> cd < 2 ^ 62 \<and> wSum - cd < 2 ^ 62 \<and> (0 < cd \<longrightarrow> flags_clear c \<and> Cardinality c = cd)"

definition pbLoop_sat :: "asg \<Rightarrow> problem \<Rightarrow> clause \<Rightarrow> int \<Rightarrow> bool" where
  "pbLoop_sat a pb c cd \<longleftrightarrow> agree a (pModel pb) \<and> cd \<le> wsum a (terms c)"

definition pbLoop_post :: "problem \<Rightarrow> clause \<Rightarrow> int \<Rightarrow> problem \<times> clause \<times> int \<times> int \<times> bool \<times> bool \<Rightarrow> bool" where
  "pbLoop_post pb c cd = (\<lambda>(pb', c', cd', wSum', modified', ret). \<not> ret \<and> pbLoop_ok pb' c' cd' wSum'
     \<and> NbVars pb' = NbVars pb \<and> Clauses pb' = Clauses pb \<and> mset (lits c') \<subseteq># mset (lits c)
     \<and> (\<forall>a. pbLoop_sat a pb' c' cd' = pbLoop_sat a pb c cd))"

lemma pbLoop_post_trans:
  assumes "pbLoop_post pb1 c1 cd1 r" and "NbVars pb1 = NbVars pb" and "Clauses pb1 = Clauses pb"
    and "mset (lits c1) \<subseteq># mset (lits c)" and "\<And>a. pbLoop_sat a pb1 c1 cd1 = pbLoop_sat a pb c cd"
  shows "pbLoop_post pb c cd r"
  using assms subset_mset.order_trans by (fastforce simp: pbLoop_post_def)

text \<open>A literal is removed; its weight leaves the sum and, when it is true, the bound.\<close>

lemma Weight_nth: "pbData c \<noteq> None \<Longrightarrow> length (c_weights c) = length (lits c) \<Longrightarrow> j < Len c \<Longrightarrow> Weight c j = Some (c_weights c ! j)"
  by (auto simp: Weight_def c_weights_def Len_def)

lemma removeLit_wp:
  assumes "j < Len c" and "length (c_weights c) = length (lits c)"
  shows "wp (removeLit c j) (\<lambda>c'. mset (lits c) = add_mset (lits c ! j) (mset (lits c'))
     \<and> mset (c_weights c) = add_mset (c_weights c ! j) (mset (c_weights c'))
     \<and> (\<forall>a. wsum a (terms c) = (if lit_true a (lits c ! j) then c_weights c ! j else 0) + wsum a (terms c'))
     \<and> length (c_weights c') = length (lits c') \<and> lbdValue c' = lbdValue c \<and> (pbData c' = None \<longleftrightarrow> pbData c = None))"
proof (rule wp_mono [OF removeLit_spec])
  show "j < length (lits c)" "length (c_weights c) = length (lits c)" using assms by (simp_all add: Len_def)
  have j: "j < length (terms c)" "terms c ! j = (lits c ! j, c_weights c ! j)"
    using assms by (simp_all add: terms_def Len_def)
  fix c' assume c: "terms c' = swap_remove (terms c) j \<and> lits c' = swap_remove (lits c) j
    \<and> c_weights c' = swap_remove (c_weights c) j \<and> lbdValue c' = lbdValue c \<and> (pbData c' = None) = (pbData c = None)"
  have "wsum a (terms c) = wsum a (terms c ! j # swap_remove (terms c) j)" for a
    by (rule wsum_cong_mset) (simp add: mset_swap_remove [OF j(1)])
  then show "mset (lits c) = add_mset (lits c ! j) (mset (lits c'))
     \<and> mset (c_weights c) = add_mset (c_weights c ! j) (mset (c_weights c'))
     \<and> (\<forall>a. wsum a (terms c) = (if lit_true a (lits c ! j) then c_weights c ! j else 0) + wsum a (terms c'))
     \<and> length (c_weights c') = length (lits c') \<and> lbdValue c' = lbdValue c \<and> (pbData c' = None) = (pbData c = None)"
    using c assms j by (simp add: mset_swap_remove [of j] Len_def)
qed

lemma Cardinality_cong: "lbdValue c = lbdValue d \<Longrightarrow> Cardinality c = Cardinality d \<and> flags_clear c = flags_clear d"
  by (simp add: Cardinality_def Learned_def flags_clear_def)

lemma updateCardinality_lbd: "lbdValue c = lbdValue d \<Longrightarrow> lbdValue (updateCardinality c k) = lbdValue (updateCardinality d k)"
  by (simp add: updateCardinality_def)

lemma pbLoop_remove:
  assumes ok: "pbLoop_ok pb c cd wSum" and j: "j < Len c"
    and m: "mset (lits c) = add_mset (lits c ! j) (mset (lits c'))" "mset (c_weights c) = add_mset (c_weights c ! j) (mset (c_weights c'))"
      "length (c_weights c') = length (lits c')" "pbData c' \<noteq> None"
    and pb': "pb_inv pb'" "pStatus pb' \<noteq> Unsat" "NbVars pb' = NbVars pb"
    and word: "if true then lbdValue c' = lbdValue (updateCardinality c (- (c_weights c ! j))) else lbdValue c' = lbdValue c"
  shows "pbLoop_ok pb' c' (if true then cd - c_weights c ! j else cd) (wSum - c_weights c ! j) \<and> mset (lits c') \<subseteq># mset (lits c)"
proof -
  let ?w = "c_weights c ! j"
  have "set (lits c') \<subseteq> set (lits c)" "set (c_weights c') \<subseteq> set (c_weights c)"
    using arg_cong [OF m(1), of set_mset] arg_cong [OF m(2), of set_mset] by auto
  moreover have "sum_list (c_weights c) = ?w + sum_list (c_weights c')"
    using arg_cong [OF m(2), of sum_mset] by (simp add: sum_mset_sum_list)
  moreover have "0 < ?w" using ok j by (auto simp: pbLoop_ok_def Len_def)
  moreover have "flags_clear c' \<and> Cardinality c' = (if true then cd - ?w else cd)" if "0 < (if true then cd - ?w else cd)"
  proof (cases true)
    case True
    have w: "0 < ?w" using ok j by (auto simp: pbLoop_ok_def Len_def)
    then have "0 < cd" and fl: "flags_clear c" "Cardinality c = cd" using ok that True by (auto simp: pbLoop_ok_def)
    have "cd \<le> 2 ^ 30" using flags_clear_fits [OF fl(1)] fl(2) by (simp add: card_fits_def)
    then have "?w < 2 ^ 32" using that True by simp
    from updateCardinality_decrease [OF fl(1) less_imp_le [OF w] this]
    show ?thesis using word True that fl(2) Cardinality_cong [of c' "updateCardinality c (- ?w)"] by simp
  next
    case False
    then show ?thesis using ok that word Cardinality_cong [of c' c] by (simp add: pbLoop_ok_def)
  qed
  ultimately show ?thesis using ok m pb' by (auto simp: pbLoop_ok_def)
qed

lemma pbLitLoop_spec:
  "pbLoop_ok pb c cd wSum \<Longrightarrow> wp (pbLitLoop pb c j cd wSum modified) (pbLoop_post pb c cd)"
proof (induction pb c j cd wSum modified rule: pbLitLoop.induct)
  case (1 pb c j cd wSum modified)
  note ok = "1.prems" and step = pbLitLoop.simps [of pb c j cd wSum modified]
  show ?case
  proof (cases "j < Len c")
    case False
    then show ?thesis using ok by (simp add: step pbLoop_post_def)
  next
    case j: True
    let ?l = "lits c ! j" and ?w = "c_weights c ! j"
    let ?m = "pModel pb ! nat (Lit_Var ?l)"
    have inv: "pb_inv pb" "pStatus pb \<noteq> Unsat" and pd: "pbData c \<noteq> None" and len: "length (c_weights c) = length (lits c)"
      and pos: "\<forall>w \<in> set (c_weights c). 0 < w" and ws: "wSum = sum_list (c_weights c)"
      using ok by (simp_all add: pbLoop_ok_def)
    have lok: "lit_ok (NbVars pb) ?l" using ok j by (auto simp: pbLoop_ok_def Len_def)
    have um: "units_model (pModel pb) (Units pb)" and nb: "int (length (pModel pb)) = NbVars pb"
      using inv(1) by (simp_all add: pb_inv_def)
    have lok': "lit_ok (int (length (pModel pb))) ?l" using lok nb by simp
    have lwm: "Get c j = Some ?l" "Weight c j = Some ?w" "geti (pModel pb) (Lit_Var ?l) = Some ?m"
      using j Weight_nth [OF pd len j] lit_ok_index [OF lok'] by (simp_all add: Get_def Len_def)
    have nn: "\<forall>p \<in> set (terms c). 0 \<le> snd p" using pos by (fastforce simp: terms_def dest: set_zip_rightD)
    have sum: "sum_list (map snd (terms c)) = wSum" using ws len by (simp add: terms_def)
    have mem: "(?l, ?w) \<in> set (terms c)" using j len by (auto simp: terms_def set_zip Len_def)
    have "?w \<in> set (c_weights c)" using j len by (simp add: Len_def)
    then have "0 < ?w" "?w \<le> wSum" using pos member_le_sum_list [of ?w "c_weights c"] by (auto simp: ws less_imp_le)
    then have in64: "int64 (wSum - ?w) = wSum - ?w" "int64 (cd - ?w) = cd - ?w" "int64 (- ?w) = - ?w"
      using ok by (intro int64_abs; auto simp: pbLoop_ok_def abs_less_iff)+
    note step = step [unfolded lwm bind.bind_lunit in64]
    note ih = "1.IH" [OF j lwm, unfolded in64]
    note rem = removeLit_wp [OF j len]
    consider (unit) "?m = 0" "wSum - ?w < cd" | (skip) "?m = 0" "\<not> wSum - ?w < cd"
      | (sat) "?m \<noteq> 0" "(?m = 1) = IsPositive ?l" | (false) "?m \<noteq> 0" "(?m = 1) \<noteq> IsPositive ?l" by blast
    then show ?thesis
    proof cases
      case unit
      obtain pb1 where pb1: "addUnit pb ?l = Some pb1" "Clauses pb1 = Clauses pb" "NbVars pb1 = NbVars pb" "pb_inv pb1"
        "pStatus pb1 = pStatus pb" "pModel pb1 = (pModel pb)[nat (Lit_Var ?l) := if IsPositive ?l then 1 else - 1]"
        using addUnit_spec [OF inv(1) lok] unit(1) by (auto simp: wp_iff split: if_splits)
      have ns: "pStatus pb1 \<noteq> Unsat" using inv(2) pb1(5) by simp
      have agr: "agree a (pModel pb1) \<longleftrightarrow> agree a (pModel pb) \<and> lit_true a ?l" for a
        using agree_add [OF um lok'] unit(1) pb1(6) by simp
      obtain d where d: "removeLit c j = Some d" "mset (lits c) = add_mset ?l (mset (lits d))"
        "mset (c_weights c) = add_mset ?w (mset (c_weights d))" "length (c_weights d) = length (lits d)"
        "lbdValue d = lbdValue c" "pbData d \<noteq> None"
        "\<And>a. wsum a (terms c) = (if lit_true a ?l then ?w else 0) + wsum a (terms d)"
        using rem pd by (auto simp: wp_iff)
      let ?d = "updateCardinality d (- ?w)"
      have ok1: "pbLoop_ok pb1 ?d (cd - ?w) (wSum - ?w) \<and> mset (lits ?d) \<subseteq># mset (lits c)"
        using pbLoop_remove [OF ok j, of ?d pb1 True] d pb1(3,4) ns updateCardinality_lbd [OF d(5)] by simp
      have "pbLoop_sat a pb1 ?d (cd - ?w) = pbLoop_sat a pb c cd" for a
      proof -
        have "\<not> lit_true a ?l \<Longrightarrow> wsum a (terms c) \<le> wSum - ?w"
          using wsum_false_bound [OF nn mem, of a] by (simp add: sum)
        then have "lit_true a ?l" if "cd \<le> wsum a (terms c)" using that unit(2) by linarith
        moreover have "cd - ?w \<le> wsum a (terms d) \<longleftrightarrow> cd \<le> wsum a (terms c)" if "lit_true a ?l" using d(7) [of a] that by auto
        ultimately show ?thesis using agr by (auto simp: pbLoop_sat_def)
      qed
      then have "wp (pbLitLoop pb1 ?d j (cd - ?w) (wSum - ?w) True) (pbLoop_post pb c cd)"
        using ok1 pb1 by (intro wp_mono [OF ih(1) [OF unit pb1(1) ns d(1)]]) (auto intro: pbLoop_post_trans)
      then show ?thesis using j lwm unit pb1(1) ns d(1) by (simp add: step)
    next
      case skip
      then show ?thesis using ih(2) [OF skip ok] j lwm by (simp add: step)
    next
      case sat
      let ?u = "updateCardinality c (- ?w)"
      have "j < Len ?u" "length (c_weights ?u) = length (lits ?u)" using j len by simp_all
      from removeLit_wp [OF this] obtain d where d: "removeLit ?u j = Some d" "mset (lits c) = add_mset ?l (mset (lits d))"
        "mset (c_weights c) = add_mset ?w (mset (c_weights d))" "length (c_weights d) = length (lits d)"
        "lbdValue d = lbdValue ?u" "pbData d \<noteq> None"
        "\<And>a. wsum a (terms c) = (if lit_true a ?l then ?w else 0) + wsum a (terms d)"
        using pd by (auto simp: wp_iff)
      have ok1: "pbLoop_ok pb d (cd - ?w) (wSum - ?w) \<and> mset (lits d) \<subseteq># mset (lits c)"
        using pbLoop_remove [OF ok j, of d pb True] d inv by simp
      have "pbLoop_sat a pb d (cd - ?w) = pbLoop_sat a pb c cd" for a
        using agree_lit [OF _ lok', of a] sat d(7) [of a] by (auto simp: pbLoop_sat_def)
      then have "wp (pbLitLoop pb d j (cd - ?w) (wSum - ?w) True) (pbLoop_post pb c cd)"
        using ok1 by (intro wp_mono [OF ih(3) [OF sat d(1)]]) (auto intro: pbLoop_post_trans)
      then show ?thesis using j lwm sat d(1) by (simp add: step)
    next
      case false
      obtain d where d: "removeLit c j = Some d" "mset (lits c) = add_mset ?l (mset (lits d))"
        "mset (c_weights c) = add_mset ?w (mset (c_weights d))" "length (c_weights d) = length (lits d)"
        "lbdValue d = lbdValue c" "pbData d \<noteq> None"
        "\<And>a. wsum a (terms c) = (if lit_true a ?l then ?w else 0) + wsum a (terms d)"
        using rem pd by (auto simp: wp_iff)
      have ok1: "pbLoop_ok pb d cd (wSum - ?w) \<and> mset (lits d) \<subseteq># mset (lits c)"
        using pbLoop_remove [OF ok j, of d pb False] d inv by simp
      have "pbLoop_sat a pb d cd = pbLoop_sat a pb c cd" for a
        using agree_lit [OF _ lok', of a] false d(7) [of a] by (auto simp: pbLoop_sat_def)
      then have "wp (pbLitLoop pb d j cd (wSum - ?w) True) (pbLoop_post pb c cd)"
        using ok1 by (intro wp_mono [OF ih(4) [OF false d(1)]]) (auto intro: pbLoop_post_trans)
      then show ?thesis using j lwm false d(1) by (simp add: step)
    qed
  qed
qed

text \<open>The constraints of the problem are well formed.\<close>

definition pbs_ok :: "problem \<Rightarrow> bool" where
  "pbs_ok pb \<longleftrightarrow> pb_inv pb \<and> pStatus pb \<noteq> Unsat \<and> (\<forall>c \<in> set (Clauses pb). pb_ok c)"

text \<open>Every constraint left has the literals of a constraint there was, less some.\<close>

definition pbs_sub :: "problem \<Rightarrow> problem \<Rightarrow> bool" where
  "pbs_sub pb pb' \<longleftrightarrow> (\<forall>d \<in> set (Clauses pb'). \<exists>c \<in> set (Clauses pb). mset (lits d) \<subseteq># mset (lits c))"

lemma pbs_sub_trans: "pbs_sub pb pb1 \<Longrightarrow> pbs_sub pb1 pb2 \<Longrightarrow> pbs_sub pb pb2"
  unfolding pbs_sub_def by (meson subset_mset.order_trans)

definition pbs_post :: "problem \<Rightarrow> problem \<Rightarrow> bool \<Rightarrow> bool" where
  "pbs_post pb pb' ret \<longleftrightarrow> NbVars pb' = NbVars pb \<and> (if ret then pStatus pb' = Unsat \<and> (\<forall>a. \<not> pb_models a pb)
     else pbs_ok pb' \<and> pbs_sub pb pb' \<and> (\<forall>a. pb_models a pb' = pb_models a pb))"

lemma pbs_post_trans:
  assumes "pbs_post pb1 pb2 ret" and "NbVars pb1 = NbVars pb" and "pbs_sub pb pb1" and "\<And>a. pb_models a pb1 = pb_models a pb"
  shows "pbs_post pb pb2 ret"
  using assms pbs_sub_trans [of pb pb1 pb2] by (auto simp: pbs_post_def split: if_splits)

lemma pbLoop_start:
  assumes "pbs_ok pb" and "c \<in> set (Clauses pb)"
  shows "pbLoop_ok pb c (Cardinality c) (WeightSum c)"
proof -
  have inv: "pb_inv pb" "pStatus pb \<noteq> Unsat" "lits_ok (NbVars pb) (lits c)" and ok: "pb_ok c"
    using assms by (auto simp: pbs_ok_def pb_inv_def)
  then obtain p where p: "pbData c = Some p" "length (weights p) = length (lits c)" "\<forall>w \<in> set (weights p). 0 < w"
    "sum_fits (weights p)" "flags_clear c" by (auto simp: pb_ok_def)
  have "WeightSum c = sum_list (weights p)" using p(1,4) by (simp add: WeightSum_def sum64_small)
  moreover have "sum_list (weights p) < 2 ^ 62" using sum_fits_sum [OF p(4)] by simp
  moreover have "0 < Cardinality c" "Cardinality c \<le> 2 ^ 30" using flags_clear_fits [OF p(5)] by (simp_all add: card_fits_def)
  ultimately show ?thesis using inv p by (auto simp: pbLoop_ok_def c_weights_def)
qed

lemma pbLoop_pb_ok: "pbLoop_ok pb c cd wSum \<Longrightarrow> 0 < cd \<Longrightarrow> pb_ok c"
  by (auto simp: pbLoop_ok_def pb_ok_def c_weights_def sum_fits_pos less_imp_le)

lemma mset_put:
  assumes "i < length cs"
  obtains M where "mset cs = add_mset (cs ! i) M" and "\<And>d. mset (cs[i := d]) = add_mset d M"
  by (rule that [of "mset cs - {#cs ! i#}"]) (simp_all add: assms mset_update)

text \<open>One constraint is simplified in place.\<close>

lemma pbs_step:
  assumes ok: "pbs_ok pb" and i: "i < length (Clauses pb)"
    and post: "pbLoop_post pb (Clauses pb ! i) (Cardinality (Clauses pb ! i)) (pb1, c, cd, wSum, m, ret)"
  defines "cs \<equiv> (Clauses pb)[i := c]"
  shows "0 < cd \<Longrightarrow> pbs_ok (pb1\<lparr>Clauses := cs\<rparr>) \<and> pbs_sub pb (pb1\<lparr>Clauses := cs\<rparr>) \<and> (\<forall>a. pb_models a (pb1\<lparr>Clauses := cs\<rparr>) = pb_models a pb)"
    and "cd \<le> 0 \<Longrightarrow> pbs_ok (pb1\<lparr>Clauses := swap_remove cs i\<rparr>) \<and> pbs_sub pb (pb1\<lparr>Clauses := swap_remove cs i\<rparr>)
      \<and> (\<forall>a. pb_models a (pb1\<lparr>Clauses := swap_remove cs i\<rparr>) = pb_models a pb)"
    and "wSum < cd \<Longrightarrow> \<not> pb_models a pb"
proof -
  let ?c = "Clauses pb ! i"
  have inv: "pb_inv pb" and okc: "\<forall>c \<in> set (Clauses pb). pb_ok c" using ok by (simp_all add: pbs_ok_def)
  have l: "pbLoop_ok pb1 c cd wSum" "NbVars pb1 = NbVars pb" "Clauses pb1 = Clauses pb" "mset (lits c) \<subseteq># mset (lits ?c)"
    "\<And>a. pbLoop_sat a pb1 c cd = pbLoop_sat a pb ?c (Cardinality ?c)" using post by (simp_all add: pbLoop_post_def)
  have inv1: "pb_inv pb1" "pStatus pb1 \<noteq> Unsat" "lits_ok (NbVars pb1) (lits c)" using l(1) by (simp_all add: pbLoop_ok_def)
  have others: "\<forall>d \<in> set (Clauses pb). lits_ok (NbVars pb1) (lits d)" using inv l(2) by (simp add: pb_inv_def)
  obtain M where M: "mset (Clauses pb) = add_mset ?c M" "mset cs = add_mset c M"
    unfolding cs_def by (rule mset_put [OF i]) blast
  have sets: "set (Clauses pb) = insert ?c (set_mset M)" "set cs = insert c (set_mset M)"
    using arg_cong [OF M(1), of set_mset] arg_cong [OF M(2), of set_mset] by simp_all
  have sat: "pb_models a pb \<longleftrightarrow> pbLoop_sat a pb1 c cd \<and> (\<forall>d \<in># M. sat_clause a d)" for a
    using pb_models_agree [OF inv, of a] l(5) [of a] by (auto simp: sets(1) pbLoop_sat_def sat_clause_def)
  have cs: "set cs \<subseteq> insert c (set (Clauses pb))" unfolding cs_def by (rule set_update_subset_insert)
  have inv2: "pb_inv (pb1\<lparr>Clauses := ds\<rparr>)" if "set ds \<subseteq> insert c (set (Clauses pb))" for ds
    by (rule pb_inv_clauses [OF inv1(1)]) (use that inv1(3) others in blast)
  have sat1: "pb_models a (pb1\<lparr>Clauses := ds\<rparr>) \<longleftrightarrow> agree a (pModel pb1) \<and> (\<forall>d \<in> set ds. sat_clause a d)" if "set ds \<subseteq> insert c (set (Clauses pb))" for a ds
    using pb_models_agree [OF inv2 [OF that], of a] by simp
  show "pbs_ok (pb1\<lparr>Clauses := cs\<rparr>) \<and> pbs_sub pb (pb1\<lparr>Clauses := cs\<rparr>) \<and> (\<forall>a. pb_models a (pb1\<lparr>Clauses := cs\<rparr>) = pb_models a pb)"
    if cd: "0 < cd"
  proof (intro conjI allI)
    have "pb_ok c" by (rule pbLoop_pb_ok [OF l(1) cd])
    then show "pbs_ok (pb1\<lparr>Clauses := cs\<rparr>)" using inv2 [OF cs] inv1(2) okc cs by (auto simp: pbs_ok_def)
    show "pbs_sub pb (pb1\<lparr>Clauses := cs\<rparr>)" using cs l(4) nth_mem [OF i] by (fastforce simp: pbs_sub_def)
    have "Cardinality c = cd" using l(1) cd by (simp add: pbLoop_ok_def)
    then show "pb_models a (pb1\<lparr>Clauses := cs\<rparr>) = pb_models a pb" for a
      unfolding sat sat1 [OF cs] by (auto simp: sets(2) pbLoop_sat_def sat_clause_def)
  qed
  show "pbs_ok (pb1\<lparr>Clauses := swap_remove cs i\<rparr>) \<and> pbs_sub pb (pb1\<lparr>Clauses := swap_remove cs i\<rparr>)
      \<and> (\<forall>a. pb_models a (pb1\<lparr>Clauses := swap_remove cs i\<rparr>) = pb_models a pb)" if cd: "cd \<le> 0"
  proof (intro conjI allI)
    have "i < length cs" "cs ! i = c" using i by (simp_all add: cs_def)
    then have "mset (swap_remove cs i) = M" using mset_swap_remove [of i cs] M(2) by simp
    then have m: "set (swap_remove cs i) = set_mset M" by (metis set_mset_mset)
    then have s: "set (swap_remove cs i) \<subseteq> set (Clauses pb)" by (auto simp: sets(1))
    show "pbs_ok (pb1\<lparr>Clauses := swap_remove cs i\<rparr>)" using inv2 inv1(2) okc s by (auto simp: pbs_ok_def)
    show "pbs_sub pb (pb1\<lparr>Clauses := swap_remove cs i\<rparr>)" using s by (auto simp: pbs_sub_def)
    fix a
    have nn: "\<forall>p \<in> set (terms c). 0 \<le> snd p" using l(1) by (fastforce simp: pbLoop_ok_def terms_def dest: set_zip_rightD)
    have "cd \<le> wsum a (terms c)" using cd wsum_bounds [OF nn, of a] by linarith
    then show "pb_models a (pb1\<lparr>Clauses := swap_remove cs i\<rparr>) = pb_models a pb"
      using s sat [of a] by (subst sat1) (auto simp: pbLoop_sat_def m)
  qed
  show "\<not> pb_models a pb" if "wSum < cd"
  proof -
    have nn: "\<forall>p \<in> set (terms c). 0 \<le> snd p" using l(1) by (fastforce simp: pbLoop_ok_def terms_def dest: set_zip_rightD)
    have "wsum a (terms c) \<le> wSum" using wsum_bounds [OF nn, of a] l(1) by (simp add: pbLoop_ok_def terms_def)
    then show ?thesis using that sat [of a] by (simp add: pbLoop_sat_def)
  qed
qed

lemma pbClauseLoop_spec: "pbs_ok pb \<Longrightarrow> wp (pbClauseLoop pb i modified) (\<lambda>(pb', modified', ret). pbs_post pb pb' ret)"
proof (induction pb i modified rule: pbClauseLoop.induct)
  case (1 pb i modified)
  note ok = "1.prems" and step = pbClauseLoop.simps [of pb i modified]
  show ?case
  proof (cases "i < length (Clauses pb)")
    case False
    then show ?thesis using ok by (auto simp: step pbs_post_def pbs_sub_def)
  next
    case i: True
    let ?c = "Clauses pb ! i"
    obtain pb1 c cd wSum m ret where l: "pbLitLoop pb ?c 0 (Cardinality ?c) (WeightSum ?c) modified = Some (pb1, c, cd, wSum, m, ret)"
      and post: "pbLoop_post pb ?c (Cardinality ?c) (pb1, c, cd, wSum, m, ret)"
      using pbLitLoop_spec [OF pbLoop_start [OF ok nth_mem [OF i]], of 0 modified] by (auto simp: wp_iff)
    let ?cs = "(Clauses pb)[i := c]"
    have f: "Clauses pb1 = Clauses pb" "NbVars pb1 = NbVars pb" "\<not> ret" using post by (simp_all add: pbLoop_post_def)
    have put: "put (Clauses pb1) i c = Some ?cs" using f i by simp
    note s = pbs_step [OF ok i post] and ih = "1.IH" [OF i get_Some [OF i] l refl refl refl refl refl put f(3)]
    consider (drop) "cd \<le> 0" | (unsat) "\<not> cd \<le> 0" "wSum < cd" | (keep) "\<not> cd \<le> 0" "\<not> wSum < cd" by blast
    then show ?thesis
    proof cases
      case drop
      then have "wp (pbClauseLoop (pb1\<lparr>Clauses := swap_remove ?cs i\<rparr>) i True) (\<lambda>(pb', modified', ret). pbs_post pb pb' ret)"
        using s(2) f(2) by (intro wp_mono [OF ih(1)]) (auto intro: pbs_post_trans)
      then show ?thesis using i l put f(3) drop by (simp add: step)
    next
      case unsat
      then show ?thesis using i l put f(2,3) s(3) by (simp add: step pbs_post_def)
    next
      case keep
      then have "wp (pbClauseLoop (pb1\<lparr>Clauses := ?cs\<rparr>) (Suc i) m) (\<lambda>(pb', modified', ret). pbs_post pb pb' ret)"
        using s(1) f(2) by (intro wp_mono [OF ih(2)]) (auto intro: pbs_post_trans)
      then show ?thesis using i l put f(3) keep by (simp add: step)
    qed
  qed
qed

lemma simplifyPBLoop_spec: "pbs_ok pb \<Longrightarrow> wp (simplifyPBLoop pb) (\<lambda>(pb', ret). pbs_post pb pb' ret)"
proof (induction pb rule: simplifyPBLoop.induct)
  case (1 pb)
  obtain pb1 m ret where l: "pbClauseLoop pb 0 False = Some (pb1, m, ret)" and post: "pbs_post pb pb1 ret"
    using pbClauseLoop_spec [OF "1.prems", of 0 False] by (auto simp: wp_iff)
  show ?case
  proof (cases "\<not> ret \<and> m")
    case True
    then have p: "pbs_ok pb1" "NbVars pb1 = NbVars pb" "pbs_sub pb pb1" "\<And>a. pb_models a pb1 = pb_models a pb" using post by (simp_all add: pbs_post_def)
    have "wp (simplifyPBLoop pb1) (\<lambda>(pb', ret). pbs_post pb pb' ret)"
      using True p by (intro wp_mono [OF "1.IH" [OF l refl refl]]) (auto intro: pbs_post_trans)
    then show ?thesis using True l by (simp add: simplifyPBLoop.simps [of pb])
  qed (use l post in \<open>auto simp: simplifyPBLoop.simps [of pb]\<close>)
qed

lemma replicateUnitsIn_same: "units_model ms us \<Longrightarrow> set ls \<subseteq> set us \<Longrightarrow> replicateUnitsIn ms ls = Some ms"
proof (induction ls)
  case (Cons l ls)
  then have l: "lit_ok (int (length ms)) l" "ms ! nat (Lit_Var l) = (if IsPositive l then 1 else - 1)"
    by (auto simp: units_model_def)
  have "puti ms (Lit_Var l) (if IsPositive l then 1 else - 1) = Some ms"
    using lit_ok_index [OF l(1)] l(2) by (simp add: puti_def list_update_same_conv)
  then show ?case using Cons by simp
qed simp

lemma simplifyPB_spec:
  assumes "pbs_ok pb"
  shows "wp (simplifyPB pb) (\<lambda>pb'. NbVars pb' = NbVars pb \<and> (if pStatus pb' = Unsat then \<forall>a. \<not> pb_models a pb
    else pbs_ok pb' \<and> pbs_sub pb pb' \<and> (\<forall>a. pb_models a pb' = pb_models a pb)))"
proof -
  have "replicateUnits pb = Some pb"
    using assms replicateUnitsIn_same [of "pModel pb" "Units pb"] by (simp add: replicateUnits_def pbs_ok_def pb_inv_def)
  moreover obtain pb1 ret where "simplifyPBLoop pb = Some (pb1, ret)" "pbs_post pb pb1 ret"
    using simplifyPBLoop_spec [OF assms] by (auto simp: wp_iff)
  moreover have "pbs_ok (pb1\<lparr>pStatus := Sat\<rparr>)" if "pbs_ok pb1" using that by (simp add: pbs_ok_def)
  ultimately show ?thesis
    by (auto simp: simplifyPB_def pbs_post_def pbs_sub_def pb_models_def pbs_ok_def split: if_splits)
qed

section \<open>At-most-one constraints\<close>

text \<open>
  The first loop of \<open>DetectAtMostOne\<close>: the literals that each literal implies through a binary
  clause, and the index of that clause.
\<close>

fun collectBinaries :: "lit list list \<Rightarrow> nat list list \<Rightarrow> nat \<Rightarrow> clause list \<Rightarrow> (lit list list \<times> nat list list) option" where
  "collectBinaries props idx i [] = Some (props, idx)"
| "collectBinaries props idx i (c # cs) =
     (if Len c = 2 then do {
        lit1 \<leftarrow> First c;
        lit2 \<leftarrow> Second c;
        props \<leftarrow> appendAt props (Negation lit1) lit2;
        props \<leftarrow> appendAt props (Negation lit2) lit1;
        idx \<leftarrow> appendAt idx (Negation lit1) i;
        idx \<leftarrow> appendAt idx (Negation lit2) i;
        collectBinaries props idx (Suc i) cs }
      else collectBinaries props idx (Suc i) cs)"

text \<open>Is there a binary clause of \<open>other\<close> with each of the literals?\<close>

fun inClique :: "lit list list \<Rightarrow> lit \<Rightarrow> lit list \<Rightarrow> bool option" where
  "inClique props other [] = Some True"
| "inClique props other (l # ls) = do {
     ps \<leftarrow> geti props (Negation l);
     if other \<in> set ps then inClique props other ls else Some False }"

fun growClique :: "bool list \<Rightarrow> lit list list \<Rightarrow> nat list \<Rightarrow> nat \<Rightarrow> lit list \<Rightarrow> lit list \<Rightarrow> nat list
    \<Rightarrow> (lit list \<times> nat list) option" where
  "growClique considered props idx j [] constr toRemove = Some (constr, toRemove)"
| "growClique considered props idx j (other # others) constr toRemove = do {
     seen \<leftarrow> geti considered other;
     if seen then growClique considered props idx (Suc j) others constr toRemove
     else do {
       ok \<leftarrow> inClique props other (tl constr);
       if ok then do {
         k \<leftarrow> get idx j;
         growClique considered props idx (Suc j) others (constr @ [other]) (toRemove @ [k]) }
       else growClique considered props idx (Suc j) others constr toRemove } }"

fun markClique :: "bool list \<Rightarrow> lit list \<Rightarrow> bool list option" where
  "markClique considered [] = Some considered"
| "markClique considered (l # ls) = do {
     considered \<leftarrow> puti considered (Negation l) True;
     markClique considered ls }"

fun cliqueLoop :: "lit list list \<Rightarrow> nat list list \<Rightarrow> problem \<Rightarrow> bool list \<Rightarrow> nat list \<Rightarrow> nat list
    \<Rightarrow> (problem \<times> nat list) option" where
  "cliqueLoop props idx pb considered toRemove [] = Some (pb, toRemove)"
| "cliqueLoop props idx pb considered toRemove (i # is) = do {
     seen \<leftarrow> get considered i;
     if seen then cliqueLoop props idx pb considered toRemove is
     else do {
       others \<leftarrow> get props i;
       if length others < 2 then cliqueLoop props idx pb considered toRemove is
       else do {
         ks \<leftarrow> get idx i;
         (constr, toRemove) \<leftarrow> growClique considered props ks 0 others [Negation (int i)] toRemove;
         if length constr > 2 then do {
           considered \<leftarrow> markClique considered constr;
           c \<leftarrow> NewCardClause constr (int (length constr) - 1);
           cliqueLoop props idx (pb\<lparr>Clauses := Clauses pb @ [c]\<rparr>) considered toRemove is }
         else cliqueLoop props idx pb considered toRemove is } } }"

text \<open>\<open>removeBinaries\<close>: the loop ends at the last index to remove, so what follows it is dropped too.\<close>

fun removeLoop :: "nat \<Rightarrow> nat list \<Rightarrow> clause list \<Rightarrow> clause list" where
  "removeLoop j toRemove [] = []"
| "removeLoop j [] (c # cs) = []"
| "removeLoop j (k # ks) (c # cs) =
     (if j = k then (if ks = [] then [] else removeLoop (Suc j) ks cs)
      else c # removeLoop (Suc j) (k # ks) cs)"

definition removeBinaries :: "problem \<Rightarrow> nat list \<Rightarrow> problem option" where
  "removeBinaries pb toRemove =
     (if toRemove = [] then Some pb
      else if length (Clauses pb) < length toRemove then None
      else Some (pb\<lparr>Clauses := removeLoop 0 toRemove (Clauses pb)\<rparr>))"

definition DetectAtMostOne :: "problem \<Rightarrow> problem option" where
  "DetectAtMostOne pb =
     (if NbVars pb < 0 then None
      else do {
        let n = nat (NbVars pb * 2);
        (props, idx) \<leftarrow> collectBinaries (replicate n []) (replicate n []) 0 (Clauses pb);
        (pb, toRemove) \<leftarrow> cliqueLoop props idx pb (replicate n False) [] [0..<n];
        removeBinaries pb toRemove })"

section \<open>What goes wrong\<close>

text \<open>
  The pairwise encoding of at most one of three variables: all three clauses are removed and no
  cardinality constraint is left, so the problem that is left has more models.
\<close>

definition pairwiseExample :: problem where
  "pairwiseExample = (emptyProblem 3)\<lparr>Clauses := [NewClause [1, 3], NewClause [1, 5], NewClause [3, 5]], pModel := [0, 0, 0]\<rparr>"

lemma DetectAtMostOne_drops_constraint:
  "map_option Clauses (DetectAtMostOne pairwiseExample) = Some [] \<and> \<not> pb_models (\<lambda>_. True) pairwiseExample"
proof
  show "map_option Clauses (DetectAtMostOne pairwiseExample) = Some []" by code_simp
  show "\<not> pb_models (\<lambda>_. True) pairwiseExample"
    by (simp add: pb_models_def pairwiseExample_def emptyProblem_def prop_clause_sat)
      (simp add: NewClause_def lit_true_def lit_simps)
qed

text \<open>
  At least one of one variable, at least two of three: the true literal of the unit is counted twice in
  the second constraint, which is dropped as satisfied.
\<close>

definition cardExample :: problem where
  "cardExample = (emptyProblem 3)\<lparr>pModel := [0, 0, 0], Clauses :=
     [\<lparr>lits = [0], lbdValue = 0, c_activity = 0, pbData = None\<rparr>,
      \<lparr>lits = [0, 2, 4], lbdValue = 1, c_activity = 0, pbData = None\<rparr>]\<rparr>"

lemma simplifyCard_drops_constraint:
  "map_option (\<lambda>pb. (Clauses pb, Units pb, pStatus pb)) (simplifyCard cardExample) = Some ([], [0], Sat)
   \<and> \<not> pb_models (\<lambda>v. v = 0) cardExample"
proof
  show "map_option (\<lambda>pb. (Clauses pb, Units pb, pStatus pb)) (simplifyCard cardExample) = Some ([], [0], Sat)" by code_simp
  show "\<not> pb_models (\<lambda>v. v = 0) cardExample"
    by (simp add: pb_models_def cardExample_def emptyProblem_def sat_clause_def terms_def c_weights_def lit_true_def
        Cardinality_def Learned_def masks_numeral lit_simps)
qed

end
