(* ===== verification/ParsePb.thy ===== *)
theory ParsePb
  imports Simplifiers
begin

text \<open>
  Model of \<open>ParseCardConstrs\<close> and \<open>ParsePBConstrs\<close> of \<open>solver/parser_pb.go\<close>: lists of constraints
  become simplified problems. \<open>ParsePBConstrs\<close> keeps the models of the constraints, as long as the
  literals fit 32 bits and the sums of the weights 64.
\<close>

section \<open>Pseudo-boolean constraints\<close>

text \<open>The loop that raises the number of variables.\<close>

fun raiseVars :: "int \<Rightarrow> int list \<Rightarrow> int" where
  "raiseVars n [] = n"
| "raiseVars n (i # is) = (let v = Lit_Var (litOf i) in raiseVars (if v \<ge> n then v + 1 else n) is)"

text \<open>The loop that adds the literals that are not units yet.\<close>

fun addNewUnits :: "lit list \<Rightarrow> int list \<Rightarrow> lit list" where
  "addNewUnits us [] = us"
| "addNewUnits us (i # is) =
     (let l = litOf i in addNewUnits (if l \<in> set us then us else us @ [l]) is)"

definition pb_appendClause :: "problem \<Rightarrow> PBConstr \<Rightarrow> problem option" where
  "pb_appendClause pb c = do {
     cl \<leftarrow> NewPBClause (map litOf (pc_Lits c)) (pc_Weights c) (pc_AtLeast c);
     Some (pb\<lparr>Clauses := Clauses pb @ [cl]\<rparr>) }"

text \<open>One constraint; the flag says that the function returned.\<close>

definition parseConstr :: "problem \<Rightarrow> PBConstr \<Rightarrow> (problem \<times> bool) option" where
  "parseConstr pb c =
     (let pb = pb\<lparr>NbVars := raiseVars (NbVars pb) (pc_Lits c)\<rparr>; cd = pc_AtLeast c; sumW = PB_WeightSum c in
      if cd \<le> 0 then Some (pb, False)
      else if sumW < cd then Some (pb\<lparr>pStatus := Unsat\<rparr>, True)
      else if sumW = cd then Some (pb\<lparr>Units := addNewUnits (Units pb) (pc_Lits c)\<rparr>, False)
      else do { pb \<leftarrow> pb_appendClause pb c; Some (pb, False) })"

fun parseConstrs :: "problem \<Rightarrow> PBConstr list \<Rightarrow> (problem \<times> bool) option" where
  "parseConstrs pb [] = Some (pb, False)"
| "parseConstrs pb (c # cs) = do {
     (pb, ret) \<leftarrow> parseConstr pb c;
     if ret then Some (pb, True) else parseConstrs pb cs }"

definition ParsePBConstrs :: "PBConstr list \<Rightarrow> problem option" where
  "ParsePBConstrs cs = do {
     (pb, ret) \<leftarrow> parseConstrs (emptyProblem 0) cs;
     if ret then Some pb
     else if NbVars pb < 0 then None
     else do {
       (ms, confl) \<leftarrow> bindUnits (replicate (nat (NbVars pb)) 0) (Units pb);
       let pb = pb\<lparr>pModel := ms\<rparr>;
       if confl then Some (pb\<lparr>pStatus := Unsat\<rparr>) else simplifyPB pb } }"

section \<open>Cardinality constraints\<close>

text \<open>One constraint; with as many literals as its bound it becomes units.\<close>

definition parseCard :: "problem \<Rightarrow> CardConstr \<Rightarrow> (problem \<times> bool) option" where
  "parseCard pb c =
     (let cd = cc_AtLeast c; n = int (length (cc_Lits c)) in
      if cd \<le> 0 then Some (pb, False)
      else if n < cd then Some (pb\<lparr>pStatus := Unsat\<rparr>, True)
      else do {
        (ls, nbVars) \<leftarrow> encodeLits (cc_Lits c) (NbVars pb);
        let pb = pb\<lparr>NbVars := nbVars\<rparr>;
        if n = cd then Some (pb\<lparr>Units := Units pb @ ls\<rparr>, False)
        else do {
          cl \<leftarrow> NewCardClause ls cd;
          Some (pb\<lparr>Clauses := Clauses pb @ [cl]\<rparr>, False) } })"

fun parseCards :: "problem \<Rightarrow> CardConstr list \<Rightarrow> (problem \<times> bool) option" where
  "parseCards pb [] = Some (pb, False)"
| "parseCards pb (c # cs) = do {
     (pb, ret) \<leftarrow> parseCard pb c;
     if ret then Some (pb, True) else parseCards pb cs }"

definition ParseCardConstrs :: "CardConstr list \<Rightarrow> problem option" where
  "ParseCardConstrs cs = do {
     (pb, ret) \<leftarrow> parseCards (emptyProblem 0) cs;
     if ret then Some pb
     else if NbVars pb < 0 then None
     else do {
       (ms, confl) \<leftarrow> bindUnits (replicate (nat (NbVars pb)) 0) (Units pb);
       let pb = pb\<lparr>pModel := ms\<rparr>;
       if confl then Some (pb\<lparr>pStatus := Unsat\<rparr>) else simplifyCard pb } }"

section \<open>Correctness of \<open>ParsePBConstrs\<close>\<close>

text \<open>The weights of a constraint, all 1 when there are none.\<close>

definition pc_ws :: "PBConstr \<Rightarrow> int list" where
  "pc_ws c = (case pc_Weights c of None \<Rightarrow> replicate (length (pc_Lits c)) 1 | Some ws \<Rightarrow> ws)"

lemma pc_ws_normal:
  assumes "pb_normal c" and "sum_fits (pc_ws c)"
  shows "length (pc_ws c) = length (pc_Lits c)" "\<forall>w \<in> set (pc_ws c). 0 < w"
    "PB_WeightSum c = sum_list (pc_ws c)" "pb_holds a c \<longleftrightarrow> pc_AtLeast c \<le> isum a (pc_Lits c) (pc_ws c)"
  using assms
  by (auto simp: pc_ws_def pb_normal_def PB_WeightSum_def pb_holds_def sum_list_replicate sum64_small split: option.splits)

lemma isum_all:
  assumes "length ws = length ls" and "\<forall>w \<in> set ws. 0 < w"
  shows "isum a ls ws \<le> sum_list ws" "sum_list ws \<le> isum a ls ws \<longleftrightarrow> (\<forall>l \<in> set ls. ilit_true a l)"
proof -
  have "isum a ls ws \<le> sum_list ws \<and> (sum_list ws \<le> isum a ls ws \<longleftrightarrow> (\<forall>l \<in> set ls. ilit_true a l))"
    using assms by (induction ws ls rule: list_induct2) auto
  then show "isum a ls ws \<le> sum_list ws" "sum_list ws \<le> isum a ls ws \<longleftrightarrow> (\<forall>l \<in> set ls. ilit_true a l)" by blast+
qed

lemma NewPBClause_constr:
  assumes "pb_normal c" and "card_fits (pc_AtLeast c)" and "sum_fits (pc_ws c)"
  shows "wp (NewPBClause (map IntToLit (pc_Lits c)) (pc_Weights c) (pc_AtLeast c)) (\<lambda>cl. pb_ok cl
     \<and> mset (lits cl) = mset (map IntToLit (pc_Lits c)) \<and> (\<forall>a. sat_clause a cl \<longleftrightarrow> pb_holds a c))"
proof (cases "pc_Weights c")
  case None
  then have "length (map IntToLit (pc_Lits c)) < 2 ^ 62"
    using assms(3) by (simp add: pc_ws_def sum_fits_def sum_list_replicate)
  with None show ?thesis
    using wp_mono [OF NewPBClause_nil_weights [OF assms(2)]] by (simp add: sat_clause_def terms_def pb_holds_def isum_def)
next
  case (Some ws)
  let ?ls = "map IntToLit (pc_Lits c)"
  have ws: "length ws = length ?ls" "\<forall>w \<in> set ws. 0 < w" "sum_fits ws"
    using assms(1,3) Some by (simp_all add: pb_normal_def pc_ws_def)
  have "mset (lits cl) = mset ?ls \<and> (\<forall>a. sat_clause a cl \<longleftrightarrow> pb_holds a c)"
    if cl: "pb_ok cl" "Cardinality cl = pc_AtLeast c" "mset (terms cl) = mset (zip ?ls ws)" for cl
  proof
    have "length (c_weights cl) = length (lits cl)" using cl(1) by (auto simp: pb_ok_def c_weights_def)
    then show "mset (lits cl) = mset ?ls" using zip_mset_map [of "c_weights cl" "lits cl" ?ls ws] cl(3) ws(1) by (simp add: terms_def)
    show "\<forall>a. sat_clause a cl \<longleftrightarrow> pb_holds a c"
      using wsum_cong_mset [OF cl(3)] cl(2) by (simp add: sat_clause_def pb_holds_def isum_def Some)
  qed
  then show ?thesis unfolding Some by (intro wp_mono [OF NewPBClause_pb_ok [OF assms(2) ws]]) blast
qed

lemma raiseVars_bound:
  "0 \<le> n \<Longrightarrow> small_lits is \<Longrightarrow> n \<le> raiseVars n is \<and> lits_ok (raiseVars n is) (map IntToLit is)
     \<and> (\<forall>k \<ge> n. (\<forall>i \<in> set is. \<bar>i\<bar> \<le> k) \<longrightarrow> raiseVars n is \<le> k)"
proof (induction "is" arbitrary: n)
  case (Cons i "is")
  let ?v = "Lit_Var (litOf i)"
  let ?n = "if ?v \<ge> n then ?v + 1 else n"
  have v: "0 \<le> ?v" "0 \<le> IntToLit i" "?v = \<bar>i\<bar> - 1"
    using Cons.prems IntToLit_nonneg [of i] litOf_exact [of i] by auto
  have "?n \<le> raiseVars ?n is \<and> lits_ok (raiseVars ?n is) (map IntToLit is) \<and> (\<forall>k \<ge> ?n. (\<forall>i \<in> set is. \<bar>i\<bar> \<le> k) \<longrightarrow> raiseVars ?n is \<le> k)"
    using Cons.prems v by (intro Cons.IH) auto
  then show ?case using v by (auto simp: Let_def lit_ok_def split: if_splits)
qed simp

lemma set_addNewUnits: "small_lits is \<Longrightarrow> set (addNewUnits us is) = set us \<union> IntToLit ` set is"
  by (induction us "is" rule: addNewUnits.induct) (auto simp: Let_def litOf_exact)

text \<open>The state between constraints.\<close>

definition constrs_inv :: "problem \<Rightarrow> bool" where
  "constrs_inv pb \<longleftrightarrow> 0 \<le> NbVars pb \<and> pStatus pb = Indet \<and> lits_ok (NbVars pb) (Units pb)
     \<and> (\<forall>c \<in> set (Clauses pb). pb_ok c \<and> lits_ok (NbVars pb) (lits c))"

text \<open>
  The constraints accepted: normal, with bounds and variables that fit the words of the solver, and
  weights whose sum is below \<open>2 ^ 62\<close>.
\<close>

definition constr_fits :: "PBConstr \<Rightarrow> bool" where
  "constr_fits c \<longleftrightarrow> pb_normal c \<and> sum_fits (pc_ws c) \<and> pc_AtLeast c \<le> 2 ^ 30 \<and> (\<forall>l \<in> set (pc_Lits c). \<bar>l\<bar> < 2 ^ 30)"

definition from_constrs :: "PBConstr list \<Rightarrow> problem \<Rightarrow> bool" where
  "from_constrs cs pb \<longleftrightarrow> NbVars pb < 2 ^ 30
     \<and> (\<forall>d \<in> set (Clauses pb). \<exists>c \<in> set cs. mset (lits d) \<subseteq># mset (map IntToLit (pc_Lits c)))"

lemma constrs_inv_mono:
  assumes "constrs_inv pb" and "NbVars pb \<le> n"
  shows "constrs_inv (pb\<lparr>NbVars := n\<rparr>)"
  using assms lit_ok_mono [of "NbVars pb" _ n] by (auto simp: constrs_inv_def)

definition constrs_post :: "PBConstr list \<Rightarrow> PBConstr list \<Rightarrow> problem \<Rightarrow> problem \<times> bool \<Rightarrow> bool" where
  "constrs_post all cs pb = (\<lambda>(pb', ret).
     if ret then pStatus pb' = Unsat \<and> (\<forall>a. \<exists>c \<in> set cs. \<not> pb_holds a c)
     else constrs_inv pb' \<and> from_constrs all pb' \<and> (\<forall>a. pb_models a pb' \<longleftrightarrow> pb_models a pb \<and> (\<forall>c \<in> set cs. pb_holds a c)))"

lemma parseConstrs_spec:
  assumes "\<forall>c \<in> set all. constr_fits c"
  shows "set cs \<subseteq> set all \<Longrightarrow> constrs_inv pb \<Longrightarrow> from_constrs all pb \<Longrightarrow> wp (parseConstrs pb cs) (constrs_post all cs pb)"
proof (induction cs arbitrary: pb)
  case Nil
  then show ?case by (simp add: constrs_post_def)
next
  case (Cons c cs)
  have c: "constr_fits c" using assms Cons.prems(1) by simp
  have "\<bar>l\<bar> \<le> 2 ^ 30 - 1" if "l \<in> set (pc_Lits c)" for l using c that zle_diff1_eq by (auto simp: constr_fits_def)
  then have fits: "pb_normal c" "pc_AtLeast c \<le> 2 ^ 30" "\<forall>l \<in> set (pc_Lits c). \<bar>l\<bar> \<le> 2 ^ 30 - 1"
    "small_lits (pc_Lits c)" "sum_fits (pc_ws c)" "map litOf (pc_Lits c) = map IntToLit (pc_Lits c)"
    using c by (auto simp: constr_fits_def pb_normal_def small_lits_def intro!: litOf_exact)
  let ?n = "raiseVars (NbVars pb) (pc_Lits c)" and ?k = "pc_AtLeast c"
  let ?pb = "pb\<lparr>NbVars := ?n\<rparr>"
  have n: "NbVars pb \<le> ?n" "lits_ok ?n (map IntToLit (pc_Lits c))" "?n < 2 ^ 30"
  proof -
    have nb: "0 \<le> NbVars pb" "NbVars pb \<le> 2 ^ 30 - 1" using Cons.prems(2,3) by (simp_all add: constrs_inv_def from_constrs_def)
    note r = raiseVars_bound [OF nb(1) fits(4)]
    have "?n \<le> 2 ^ 30 - 1" using r nb(2) fits(3) by blast
    then show "NbVars pb \<le> ?n" "lits_ok ?n (map IntToLit (pc_Lits c))" "?n < 2 ^ 30" using r by simp_all
  qed
  have inv: "constrs_inv ?pb" using constrs_inv_mono [OF Cons.prems(2) n(1)] .
  have frm: "from_constrs all ?pb" using Cons.prems(3) n(3) by (simp add: from_constrs_def)
  note w = pc_ws_normal [OF fits(1,5)]
  note s = isum_all [OF w(1,2)]
  have go: "wp (parseConstrs pb1 cs) (constrs_post all (c # cs) pb)"
    if "constrs_inv pb1" "from_constrs all pb1" "\<And>a. pb_models a pb1 \<longleftrightarrow> pb_models a pb \<and> pb_holds a c" for pb1
    using Cons.prems(1) that by (intro wp_mono [OF Cons.IH [of pb1]]) (auto simp: constrs_post_def split: if_splits)
  consider (triv) "?k \<le> 0" | (unsat) "0 < ?k" "PB_WeightSum c < ?k" | (all) "0 < ?k" "PB_WeightSum c = ?k"
    | (keep) "0 < ?k" "?k < PB_WeightSum c" by linarith
  then show ?case
  proof cases
    case triv
    have "wp (parseConstrs ?pb cs) (constrs_post all (c # cs) pb)"
      by (rule go [OF inv frm]) (use pb_holds_trivial [OF fits(1) triv] in \<open>simp add: pb_models_def\<close>)
    then show ?thesis using triv by (simp add: parseConstr_def Let_def)
  next
    case unsat
    have "\<not> pb_holds a c" for a using s(1) [of a] unsat w(3,4) by simp
    then show ?thesis using unsat by (simp add: parseConstr_def Let_def constrs_post_def)
  next
    case all
    let ?pb1 = "?pb\<lparr>Units := addNewUnits (Units pb) (pc_Lits c)\<rparr>"
    have "pb_holds a c \<longleftrightarrow> (\<forall>l \<in> set (pc_Lits c). ilit_true a l)" for a using s(2) [of a] all w(3,4) by simp
    then have "wp (parseConstrs ?pb1 cs) (constrs_post all (c # cs) pb)"
      by (intro go) (use inv frm n(2) in \<open>auto simp: constrs_inv_def from_constrs_def pb_models_def set_addNewUnits [OF fits(4)]\<close>)
    then show ?thesis using all by (simp add: parseConstr_def Let_def)
  next
    case keep
    have "card_fits ?k" using keep fits(2) by (simp add: card_fits_def)
    from NewPBClause_constr [OF fits(1) this fits(5)] obtain cl where cl: "NewPBClause (map IntToLit (pc_Lits c)) (pc_Weights c) ?k = Some cl"
      "pb_ok cl" "mset (lits cl) = mset (map IntToLit (pc_Lits c))" "\<And>a. sat_clause a cl \<longleftrightarrow> pb_holds a c" by (auto simp: wp_iff)
    let ?pb1 = "?pb\<lparr>Clauses := Clauses pb @ [cl]\<rparr>"
    have "set (lits cl) = set (map IntToLit (pc_Lits c))" by (rule set_via_mset [OF cl(3)])
    then have "lits_ok ?n (lits cl)" using n(2) by (simp only:)
    then have "constrs_inv ?pb1" using inv cl(2) by (simp add: constrs_inv_def)
    moreover have "from_constrs all ?pb1" using frm cl(3) Cons.prems(1) by (auto simp: from_constrs_def)
    ultimately have "wp (parseConstrs ?pb1 cs) (constrs_post all (c # cs) pb)"
      by (rule go) (auto simp: pb_models_def cl(4))
    then show ?thesis using keep cl(1) by (simp add: parseConstr_def Let_def pb_appendClause_def fits(6))
  qed
qed

definition pbs_parsed :: "PBConstr list \<Rightarrow> problem \<Rightarrow> bool" where
  "pbs_parsed cs pb \<longleftrightarrow> (if pStatus pb = Unsat then \<forall>a. \<exists>c \<in> set cs. \<not> pb_holds a c
     else pbs_ok pb \<and> from_constrs cs pb \<and> (\<forall>a. pb_models a pb \<longleftrightarrow> (\<forall>c \<in> set cs. pb_holds a c)))"

lemma ParsePBConstrs_spec:
  assumes "\<forall>c \<in> set cs. constr_fits c"
  shows "wp (ParsePBConstrs cs) (pbs_parsed cs)"
proof -
  have "constrs_inv (emptyProblem 0)" "from_constrs cs (emptyProblem 0)" and e: "pb_models a (emptyProblem 0)" for a
    by (simp_all add: constrs_inv_def from_constrs_def pb_models_def emptyProblem_def)
  from parseConstrs_spec [OF assms subset_refl this(1,2)] obtain pb1 ret
    where p: "parseConstrs (emptyProblem 0) cs = Some (pb1, ret)" and post: "constrs_post cs cs (emptyProblem 0) (pb1, ret)"
    by (auto simp: wp_iff)
  show ?thesis
  proof (cases ret)
    case True
    then show ?thesis using p post by (simp add: ParsePBConstrs_def constrs_post_def pbs_parsed_def)
  next
    case False
    then have inv: "constrs_inv pb1" "from_constrs cs pb1" and sat: "pb_models a pb1 \<longleftrightarrow> (\<forall>c \<in> set cs. pb_holds a c)" for a
      using post e by (simp_all add: constrs_post_def)
    define ms0 where "ms0 = replicate (nat (NbVars pb1)) (0 :: int)"
    have um: "units_model ms0 []" and ok: "lits_ok (int (length ms0)) (Units pb1)"
      using inv by (auto simp: ms0_def units_model_def constrs_inv_def)
    obtain ms confl where b: "bindUnits ms0 (Units pb1) = Some (ms, confl)" "length ms = length ms0"
      and bp: "if confl then \<forall>a. agree a ms0 \<longrightarrow> (\<exists>u \<in> set (Units pb1). \<not> lit_true a u) else units_model ms (Units pb1)"
      using bindUnits_spec [OF um ok, unfolded append_Nil] by (auto simp: wp_iff)
    define pb2 where "pb2 = pb1\<lparr>pModel := ms\<rparr>"
    have s2: "pb_models a pb2 = pb_models a pb1" for a by (simp add: pb_models_def pb2_def)
    show ?thesis
    proof (cases confl)
      case True
      have "agree a ms0" for a by (simp add: agree_def ms0_def)
      then have "\<exists>c \<in> set cs. \<not> pb_holds a c" for a
        using True bp sat [of a] by (auto simp: pb_models_def)
      then show ?thesis using True False inv p b by (simp add: ParsePBConstrs_def constrs_inv_def ms0_def pbs_parsed_def)
    next
      case ok: False
      have "pbs_ok pb2"
        using ok bp inv b by (auto simp: pb2_def pbs_ok_def pb_inv_def constrs_inv_def ms0_def)
      then have "wp (simplifyPB pb2) (pbs_parsed cs)"
      proof (rule wp_mono [OF simplifyPB_spec])
        fix pb assume pb: "NbVars pb = NbVars pb2 \<and> (if pStatus pb = Unsat then \<forall>a. \<not> pb_models a pb2
          else pbs_ok pb \<and> pbs_sub pb2 pb \<and> (\<forall>a. pb_models a pb = pb_models a pb2))"
        have "from_constrs cs pb" if "pbs_sub pb2 pb"
          using that inv(2) pb unfolding from_constrs_def pbs_sub_def pb2_def by simp (meson subset_mset.order_trans)
        then show "pbs_parsed cs pb" using pb s2 sat by (auto simp: pbs_parsed_def split: if_splits)
      qed
      then show ?thesis
        using False ok inv p b by (simp add: ParsePBConstrs_def constrs_inv_def ms0_def [symmetric] pb2_def [symmetric])
    qed
  qed
qed

text \<open>
  C11. Parsing pseudo-boolean constraints: on normal constraints over variables below \<open>2 ^ 30\<close>, with
  bounds up to \<open>2 ^ 30\<close> and weights that sum up to less than \<open>2 ^ 62\<close>, \<open>ParsePBConstrs\<close> ends without
  panic. When it answers Unsat, no assignment satisfies the constraints; otherwise the problem has
  their models, its partial model matches its units, and its constraints are well formed.
\<close>

theorem ParsePBConstrs_correct:
  assumes "\<forall>c \<in> set cs. constr_fits c"
  shows "wp (ParsePBConstrs cs) (\<lambda>pb. if pStatus pb = Unsat then \<forall>a. \<exists>c \<in> set cs. \<not> pb_holds a c
     else pb_inv pb \<and> (\<forall>c \<in> set (Clauses pb). pb_ok c) \<and> (\<forall>a. pb_sat a pb \<longleftrightarrow> (\<forall>c \<in> set cs. pb_holds a c)))"
  by (rule wp_mono [OF ParsePBConstrs_spec [OF assms]]) (simp add: pbs_parsed_def pbs_ok_def pb_sat_def split: if_splits)

text \<open>\<open>x\<close>, and \<open>3 x + 2 y + 2 z \<ge> 5\<close>, which leaves \<open>2 y + 2 z \<ge> 2\<close>.\<close>

definition pbConstrExample :: "PBConstr list" where
  "pbConstrExample = [\<lparr>pc_Lits = [1], pc_Weights = None, pc_AtLeast = 1\<rparr>,
     \<lparr>pc_Lits = [1, 2, 3], pc_Weights = Some [3, 2, 2], pc_AtLeast = 5\<rparr>]"

theorem ParsePBConstrs_correct_witness:
  "\<exists>pb. ParsePBConstrs pbConstrExample = Some pb \<and> Units pb = [0]
     \<and> map (\<lambda>c. (lits c, Cardinality c)) (Clauses pb) = [([4, 2], 2)]
     \<and> (\<forall>a. pb_sat a pb \<longleftrightarrow> (\<forall>c \<in> set pbConstrExample. pb_holds a c))"
proof -
  have fits: "\<forall>c \<in> set pbConstrExample. constr_fits c" by (simp add: pbConstrExample_def constr_fits_def pb_normal_def pc_ws_def sum_fits_def)
  have "map_option (\<lambda>pb. (pStatus pb, Units pb, map (\<lambda>c. (lits c, Cardinality c)) (Clauses pb))) (ParsePBConstrs pbConstrExample)
      = Some (Indet, [0], [([4, 2], 2)])" by code_simp
  then show ?thesis using ParsePBConstrs_correct [OF fits] by (auto simp: wp_iff)
qed

end
