(* ===== verification/Models.thy ===== *)
theory Models
  imports Answers Complete ParsePb
begin

text \<open>
  The other half of the answers, for problems of clauses: \<open>New\<close> watches every clause and puts
  every variable into the queue, so a model that \<open>Solve\<close> returns satisfies the problem. At the end,
  the composition of the parsers, \<open>New\<close> and \<open>Solve\<close>.
\<close>

section \<open>All clauses are watched\<close>

text \<open>The clauses from \<open>i\<close> on are not watched yet.\<close>

definition unwatched :: "clause list \<Rightarrow> nat \<Rightarrow> solver \<Rightarrow> bool" where
  "unwatched cs i s \<longleftrightarrow> store s = cs \<and> learned s = [] \<and> (\<forall>l < length (wlistPb s). wlistPb s ! l = [])
     \<and> full (take i cs) (wlist s) s"

lemma ends_lits: "2 \<le> Len (store s ! i) \<Longrightarrow> ends s i \<subseteq> set (lits (store s ! i))"
  unfolding Len_def by (erule two_lits) (simp add: ends_def)

lemma full_next:
  assumes "full (take i cs) W s" and "i < length cs" and "\<forall>p \<in> ends s i. i \<in> w_clause ` set (home W s i ! nat (Negation p))"
  shows "full (take (Suc i) cs) W s"
  using assms by (simp add: full_def less_Suc_eq)

lemma unwatched_next:
  assumes u: "unwatched cs i s" and i: "i < length cs"
    and c: "\<forall>c \<in> set cs. prop_clause c \<and> 2 \<le> Len c \<and> (\<forall>k \<in> set (lits c). 0 \<le> k)"
  shows "wlp (watchClause s i) (\<lambda>t. unwatched cs (Suc i) t \<and> model t = model s \<and> nbVars t = nbVars s)"
proof -
  have o: "orig (take i cs) s" using u c i by (auto simp: unwatched_def orig_def)
  have ci: "prop_clause (store s ! i)" "2 \<le> Len (store s ! i)" "\<forall>k \<in> set (lits (store s ! i)). 0 \<le> k"
    using u c i by (auto simp: unwatched_def)
  note sub = ends_lits [OF ci(2)]
  have "comp_state (take i cs) {} s" using o u by (simp add: comp_state_def guarded_def unwatched_def)
  then have "comp_state (take i cs) {} t" if "watches s i t" for t
    by (rule watches_comp [OF _ sub that])
  moreover have "ends t = ends s" if "watches s i t" for t using that by (auto simp: watches_def ends_def fun_eq_iff)
  ultimately have "unwatched cs (Suc i) t \<and> model t = model s \<and> nbVars t = nbVars s" if w: "watches s i t" for t
  proof -
    have t: "store t = store s" "learned t = learned s" "wlistPb t = wlistPb s" "model t = model s" "nbVars t = nbVars s"
      using w by (auto simp: watches_def)
    have "full (take i cs) (wlist t) t" using \<open>\<And>t. watches s i t \<Longrightarrow> comp_state _ {} t\<close> [OF w] by (simp add: comp_state_def)
    moreover have "\<forall>p \<in> ends t i. i \<in> w_clause ` set (home (wlist t) t i ! nat (Negation p))"
      using w \<open>\<And>t. watches s i t \<Longrightarrow> ends t = ends s\<close> [OF w] by (simp add: watches_def)
    ultimately have "full (take (Suc i) cs) (wlist t) t" by (intro full_next [OF _ i])
    then show ?thesis using u t by (simp add: unwatched_def)
  qed
  with watchClause_watches [OF ci(1,2)] sub ci(3) show ?thesis by (blast intro: wlp_mono)
qed

lemma watchAll_unwatched:
  assumes "unwatched cs i s" and "i \<le> length cs"
    and c: "\<forall>c \<in> set cs. prop_clause c \<and> 2 \<le> Len c \<and> (\<forall>k \<in> set (lits c). 0 \<le> k)"
  shows "wlp (watchAll s [i..<length cs]) (\<lambda>t. unwatched cs (length cs) t \<and> model t = model s \<and> nbVars t = nbVars s)"
  using assms(1,2)
proof (induction "length cs - i" arbitrary: i s)
  case (Suc n)
  then have i: "i < length cs" by simp
  have "wlp (watchAll t [Suc i..<length cs]) (\<lambda>t. unwatched cs (length cs) t \<and> model t = model s \<and> nbVars t = nbVars s)"
    if "unwatched cs (Suc i) t \<and> model t = model s \<and> nbVars t = nbVars s" for t
    using Suc.hyps(1) [of "Suc i" t] Suc.hyps(2) that i by simp
  then show ?case
    using i by (auto simp: upt_conv_Cons intro: wlp_mono [OF unwatched_next [OF Suc.prems(1) i c]])
qed simp

section \<open>Starting the search\<close>

text \<open>The clauses of a parsed CNF contain no variable bound by a unit.\<close>

definition clausal :: "problem \<Rightarrow> bool" where
  "clausal pb \<longleftrightarrow> fit_problem pb \<and> (\<forall>c \<in> set (Clauses pb). clean (pModel pb) c)"

lemma clausal_clause:
  assumes "clausal pb" and "c \<in> set (Clauses pb)"
  shows "prop_clause c" "2 \<le> Len c" "\<forall>k \<in> set (lits c). 0 \<le> k \<and> lit_ok (NbVars pb) k" "wsat every c"
proof -
  have c: "clean (pModel pb) c" "lits_ok (NbVars pb) (lits c)" using assms by (auto simp: clausal_def fit_problem_def pb_inv_def)
  then show "prop_clause c" "2 \<le> Len c" "\<forall>k \<in> set (lits c). 0 \<le> k \<and> lit_ok (NbVars pb) k"
    by (auto simp: clean_def Len_def lit_ok_def)
  have "Cardinality c = 1" "terms c = zip (lits c) (replicate (length (lits c)) 1)" "2 \<le> length (lits c)"
    using c(1) by (auto simp: clean_def prop_clause_def terms_def c_weights_def)
  from this(3) obtain x y ks where "lits c = x # y # ks" by (rule two_lits)
  with \<open>terms c = _\<close> have "1 \<le> tsum every (terms c)" by (simp add: tsum_def sum_list_replicate)
  then show "wsat every c" by (simp add: wsat_def \<open>Cardinality c = 1\<close>)
qed

lemma clausal_every: "clausal pb \<Longrightarrow> pb_val every pb"
  using clausal_clause(4) by (simp add: pb_val_def proper_def)

text \<open>A literal of a clause is not bound by the units.\<close>

lemma clausal_guarded:
  assumes "clausal pb" and "store s = Clauses pb"
  shows "guarded (Clauses pb) (set (Units pb)) s"
  unfolding guarded_def
proof (intro allI impI ballI)
  fix c w assume c: "c < length (Clauses pb)" "w \<in> ends s c" "Negation w \<in> set (Units pb)"
  have cl: "store s ! c \<in> set (Clauses pb)" using c(1) assms(2) by simp
  have "ends s c \<subseteq> set (lits (store s ! c))" by (rule ends_lits [OF clausal_clause(2) [OF assms(1) cl]])
  then have "pModel pb ! nat (Lit_Var w) = 0" using c(2) cl assms(1) by (auto simp: clausal_def clean_def)
  moreover have "units_model (pModel pb) (Units pb)" using assms(1) by (simp add: clausal_def fit_problem_def pb_inv_def)
  then have "pModel pb ! nat (Lit_Var (Negation w)) \<noteq> 0" using c(3) by (auto simp: units_model_def)
  moreover have "0 \<le> w" using \<open>ends s c \<subseteq> _\<close> c(2) clausal_clause(3) [OF assms(1) cl] by blast
  then have "Lit_Var (Negation w) = Lit_Var w" by (simp add: lit_ok_def)
  ultimately show "guard s c w" by simp
qed

lemma New_tracked:
  assumes pb: "clausal pb" and st: "pStatus pb \<noteq> Unsat"
  shows "wlp (New pb) (tracked (Clauses pb) (Units pb))"
proof (rule New_wlp [OF st])
  fix s and acts :: "rat list" assume s: "started pb s" and len: "length acts = nat (NbVars pb)"
  let ?cs = "Clauses pb"
  have fit: "pb_inv pb" "units_model (pModel pb) (Units pb)" "length (pModel pb) = nat (NbVars pb)"
    using pb by (auto simp: clausal_def fit_problem_def pb_inv_def)
  have um: "bindUnitLits (pModel pb) (Units pb) = Some (pModel pb)" by (rule bindUnitLits_same [OF fit(2)])
  have fin: "tracked ?cs (Units pb) (t\<lparr>varQueue := q, model := pModel pb, trail := Units pb\<rparr>)"
    if t: "unwatched ?cs (length ?cs) t" "nbVars t = NbVars pb" and q: "activity q = acts \<and> queue_ok q \<and> elements q = mset [0..<length acts]" for t q
  proof -
    let ?t = "t\<lparr>varQueue := q, model := pModel pb, trail := Units pb\<rparr>"
    have "orig ?cs ?t" "full ?cs (wlist ?t) ?t"
      using t(1) clausal_clause(1,2) [OF pb] full_cong [of ?t t] by (auto simp: unwatched_def orig_def)
    moreover have "guarded ?cs (set (Units pb)) ?t" using t(1) by (intro clausal_guarded [OF pb]) (simp add: unwatched_def)
    moreover have "units (Units pb) ?t" using fit(2) by (auto simp: units_def units_model_def)
    moreover have "covered {} ?t" using q t(2) len fit(3) by (simp add: covered_def pool_def queue_ok_def)
    ultimately show ?thesis by (simp add: tracked_def comp_state_def)
  qed
  have "wlp (watchAll u [0..<length ?cs]) (\<lambda>t. unwatched ?cs (length ?cs) t \<and> model t = pModel pb \<and> nbVars t = NbVars pb)"
    if "unwatched ?cs 0 u" "model u = pModel pb" "nbVars u = NbVars pb" for u
    using watchAll_unwatched [OF that(1)] clausal_clause(1-3) [OF pb] that(2,3) by simp
  then have "wlp (initWatcherList s ?cs) (\<lambda>t. unwatched ?cs (length ?cs) t \<and> model t = pModel pb \<and> nbVars t = NbVars pb)"
    using s by (simp add: initWatcherList_def Let_def started_def unwatched_def full_def)
  then show "wlp (initWatcherList s ?cs) (\<lambda>t. wlp (newQueue acts) (\<lambda>q. wlp (bindUnitLits (model t) (Units pb)) (\<lambda>m.
      tracked ?cs (Units pb) (t\<lparr>varQueue := q, model := m, trail := Units pb\<rparr>))))"
    by (rule wlp_mono) (use um fin in \<open>auto intro!: wlp_mono [OF wp_wlp [OF newQueue_spec]]\<close>)
qed

lemma Solve_solved:
  assumes pb: "clausal pb" and st: "pStatus pb \<noteq> Unsat"
  shows "wlp (New pb \<bind> Solve) (\<lambda>(s, st). st = Sat \<longrightarrow> (\<exists>m. lastModel s = Some m \<and> int (length m) = nbVars s
     \<and> solved (Clauses pb) (Units pb) m))"
proof -
  have "fit_problem pb" using pb by (simp add: clausal_def)
  note new = wlp_conj [OF New_spec [OF this clausal_every [OF pb] st] New_tracked [OF pb st]]
  show ?thesis
  proof (rule wlp_first [OF new], elim conjE)
    fix s assume s: "ready every s" "sStatus s \<noteq> Unsat" "tracked (Clauses pb) (Units pb) s"
    then have "trackReady (Clauses pb) (Units pb) s" by (simp add: trackReady_def)
    from model_search.Solve [OF this s(2)] show "wlp (Solve s) (\<lambda>(s, st). st = Sat \<longrightarrow>
        (\<exists>m. lastModel s = Some m \<and> int (length m) = nbVars s \<and> solved (Clauses pb) (Units pb) m))"
      by (rule wlp_mono) auto
  qed
qed

section \<open>The model of the interface\<close>

lemma modelBits_spec:
  "i + length ls \<le> length res \<Longrightarrow> modelBits res i ls = Some (take i res @ map (\<lambda>lvl. 0 < lvl) ls @ drop (i + length ls) res)"
proof (induction ls arbitrary: res i)
  case (Cons lvl ls)
  then have "take (Suc i) (res[i := 0 < lvl]) = take i res @ [0 < lvl]"
    by (simp add: take_Suc_conv_app_nth)
  with Cons show ?case by (simp add: put_def)
qed simp

text \<open>The assignment that \<open>Model\<close> returns.\<close>

definition bools :: "bool list \<Rightarrow> asg" where
  "bools bs v \<longleftrightarrow> 0 \<le> v \<and> nat v < length bs \<and> bs ! nat v"

lemma Model_bools:
  assumes "lastModel s = Some m" and "int (length m) = nbVars s"
  shows "\<exists>bs. Model s = Some bs \<and> (\<forall>k. holds m k \<longrightarrow> lit_true (bools bs) k)"
proof -
  have n: "length m = nat (nbVars s)" "\<not> nbVars s < 0" using assms(2) by simp_all
  then have "Model s = Some (map (\<lambda>lvl. 0 < lvl) m)"
    by (simp add: Model_def assms(1) modelBits_spec)
  moreover have "lit_true (bools (map (\<lambda>lvl. 0 < lvl) m)) k" if "holds m k" for k
    using that lit_ok_index [of "length m" k] by (auto simp: holds_def lit_true_def bools_def isTrue_def)
  ultimately show ?thesis by blast
qed

lemma solved_sat:
  assumes "clausal pb" and "solved (Clauses pb) (Units pb) m" and "\<forall>k. holds m k \<longrightarrow> lit_true a k"
  shows "pb_models a pb"
  using assms prop_clause_sat [OF clausal_clause(1) [OF assms(1)]] by (fastforce simp: pb_models_def solved_def)

lemma Solve_model:
  assumes "clausal pb" and "pStatus pb \<noteq> Unsat"
  shows "wlp (New pb \<bind> Solve) (\<lambda>(s, st). st = Sat \<longrightarrow> (\<exists>bs. Model s = Some bs \<and> pb_models (bools bs) pb))"
  by (rule wlp_mono [OF Solve_solved [OF assms]]) (use Model_bools solved_sat [OF assms(1)] in fastforce)

section \<open>From the clauses to the model\<close>

lemma parsed_clausal:
  assumes "\<forall>line \<in> set cnf. \<forall>v \<in> set line. v \<noteq> 0 \<and> \<bar>v\<bar> < 2 ^ 30" and "0 \<le> n" and "n < 2 ^ 30"
  obtains pb where "ParseSliceNb cnf n = Some pb" and "pStatus pb = Unsat \<longrightarrow> (\<forall>a. \<not> cnf_sat a cnf)"
    and "pStatus pb \<noteq> Unsat \<longrightarrow> clausal pb \<and> (\<forall>a. pb_models a pb = cnf_sat a cnf)"
proof -
  have "\<forall>line \<in> set cnf. small_lits line" using assms(1) by (fastforce simp: small_lits_def)
  from parseSlice_vars [OF assms(2) this] obtain pb where run: "ParseSliceNb cnf n = Some pb"
    and post: "if pStatus pb = Unsat then \<forall>a. \<not> cnf_sat a cnf
      else pb_inv pb \<and> (\<forall>a. pb_models a pb = cnf_sat a cnf) \<and> pStatus pb = (if Clauses pb = [] then Sat else Indet)
        \<and> (\<forall>c \<in> set (Clauses pb). clean (pModel pb) c) \<and> parsed_vars n cnf pb"
    by (auto simp: wp_iff ParseSliceNb_def)
  have "clausal pb" if "pStatus pb \<noteq> Unsat"
    using that post parsed_fit [OF assms(1,3) _ _ _ run] by (simp add: clausal_def)
  then show ?thesis using run post by (intro that [of pb]) simp_all
qed

text \<open>
  C3. Models of clauses: when the search on a problem of clauses without unit variables answers Sat,
  \<open>Model\<close> does not panic and returns an assignment that satisfies every clause and unit.
\<close>

theorem Solve_sat_correct:
  assumes "clausal pb" and "pStatus pb \<noteq> Unsat"
  shows "wlp (New pb \<bind> Solve) (\<lambda>(s, st). st = Sat \<longrightarrow> (\<exists>bs. Model s = Some bs \<and> pb_sat (bools bs) pb))"
  using Solve_model [OF assms] assms(2) by (simp add: pb_sat_def)

theorem Solve_sat_correct_witness:
  "\<exists>s bs. (New conflictExample \<bind> Solve) = Some (s, Sat) \<and> Model s = Some bs \<and> pb_sat (bools bs) conflictExample"
proof -
  have pb: "clausal conflictExample" "pStatus conflictExample \<noteq> Unsat"
    using conflictExample_ok(1,2)
    by (simp_all add: clausal_def conflictExample_def clean_def prop_clause_def NewClause_def Cardinality_def
        Learned_def learnedMask_def lit_simps)
  have "map_option snd (New conflictExample \<bind> Solve) = Some Sat" by code_simp
  then obtain s where "(New conflictExample \<bind> Solve) = Some (s, Sat)" by (cases "New conflictExample \<bind> Solve") auto
  with wlp_SomeD [OF Solve_sat_correct [OF pb] this] show ?thesis by auto
qed

lemma solve_cnf_nb:
  assumes "\<forall>line \<in> set cnf. \<forall>v \<in> set line. v \<noteq> 0 \<and> \<bar>v\<bar> < 2 ^ 30" and "0 \<le> n" and "n < 2 ^ 30"
  shows "wlp (do { pb \<leftarrow> ParseSliceNb cnf n; s \<leftarrow> New pb; Solve s }) (\<lambda>(s, st).
       st = Sat \<and> (\<exists>bs. Model s = Some bs \<and> cnf_sat (bools bs) cnf)
     \<or> st = Unsat \<and> (\<forall>a. \<not> cnf_sat a cnf))"
proof -
  obtain pb where pb: "ParseSliceNb cnf n = Some pb" "pStatus pb = Unsat \<longrightarrow> (\<forall>a. \<not> cnf_sat a cnf)"
    "pStatus pb \<noteq> Unsat \<longrightarrow> clausal pb \<and> (\<forall>a. pb_models a pb = cnf_sat a cnf)" by (rule parsed_clausal [OF assms])
  show ?thesis
  proof (cases "pStatus pb = Unsat")
    case True
    then show ?thesis using pb(1,2) by (simp add: New_def Solve_def)
  next
    case False
    then have c: "clausal pb" "fit_problem pb" "pb_models a pb = cnf_sat a cnf" for a using pb(3) by (auto simp: clausal_def)
    have "wlp (New pb \<bind> Solve) (\<lambda>(s, st). st = Sat \<or> st = Unsat)"
      unfolding wlp_bind by (rule wlp_I) (rule Solve_decided)
    moreover have "wlp (New pb \<bind> Solve) (\<lambda>(s, st). st = Unsat \<longrightarrow> (\<forall>a. \<not> pb_models a pb))"
      using New_Solve [OF c(2) False] by (fastforce simp: wlp_iff)
    ultimately have "wlp (New pb \<bind> Solve) (\<lambda>(s, st). st = Sat \<and> (\<exists>bs. Model s = Some bs \<and> cnf_sat (bools bs) cnf)
        \<or> st = Unsat \<and> (\<forall>a. \<not> cnf_sat a cnf))"
      using Solve_model [OF c(1) False] c(3) by (fastforce simp: wlp_iff)
    then show ?thesis by (simp only: pb(1) Option.bind.simps)
  qed
qed

lemma solve_cnf:
  assumes "\<forall>line \<in> set cnf. \<forall>v \<in> set line. v \<noteq> 0 \<and> \<bar>v\<bar> < 2 ^ 30"
  shows "wlp (do { pb \<leftarrow> ParseSlice cnf; s \<leftarrow> New pb; Solve s }) (\<lambda>(s, st).
       st = Sat \<and> (\<exists>bs. Model s = Some bs \<and> cnf_sat (bools bs) cnf)
     \<or> st = Unsat \<and> (\<forall>a. \<not> cnf_sat a cnf))"
  using solve_cnf_nb [OF assms, of 0] by (simp only: ParseSlice_def ParseSliceNb_def) simp

text \<open>
  C1. From the clauses to the answer: parsing a CNF, building the solver and solving answers Sat
  with a model of the CNF, which \<open>Model\<close> returns, or Unsat when the CNF has no model; nothing else.
\<close>

theorem solve_cnf_correct:
  assumes "\<forall>line \<in> set cnf. \<forall>v \<in> set line. v \<noteq> 0 \<and> \<bar>v\<bar> < 2 ^ 30"
  shows "wlp (do { pb \<leftarrow> ParseSlice cnf; s \<leftarrow> New pb; Solve s }) (\<lambda>(s, st).
       st = Sat \<and> (\<exists>bs. Model s = Some bs \<and> cnf_sat (bools bs) cnf)
     \<or> st = Unsat \<and> (\<forall>a. \<not> cnf_sat a cnf))"
  using assms by (rule solve_cnf)

theorem solve_cnf_correct_witness:
  "(\<exists>s bs. (do { pb \<leftarrow> ParseSlice [[1, 2, 3], [- 1, 2], [1, - 2]]; s \<leftarrow> New pb; Solve s }) = Some (s, Sat)
      \<and> Model s = Some bs \<and> cnf_sat (bools bs) [[1, 2, 3], [- 1, 2], [1, - 2]])
   \<and> (\<forall>a. \<not> cnf_sat a [[1, 2], [- 1, 2], [1, - 2], [- 1, - 2]])"
proof -
  let ?run = "\<lambda>cnf. do { pb \<leftarrow> ParseSlice cnf; s \<leftarrow> New pb; Solve s }"
  have "map_option snd (?run [[1, 2, 3], [- 1, 2], [1, - 2]]) = Some Sat" by code_simp
  then obtain s where s: "?run [[1, 2, 3], [- 1, 2], [1, - 2]] = Some (s, Sat)" by auto
  have "map_option snd (?run [[1, 2], [- 1, 2], [1, - 2], [- 1, - 2]]) = Some Unsat" by code_simp
  then obtain t where t: "?run [[1, 2], [- 1, 2], [1, - 2], [- 1, - 2]] = Some (t, Unsat)" by auto
  have "\<forall>a. \<not> cnf_sat a [[1, 2], [- 1, 2], [1, - 2], [- 1, - 2]]"
    using wlp_SomeD [OF solve_cnf_correct t] by simp
  moreover have "\<exists>bs. Model s = Some bs \<and> cnf_sat (bools bs) [[1, 2, 3], [- 1, 2], [1, - 2]]"
    using wlp_SomeD [OF solve_cnf_correct s] by simp
  ultimately show ?thesis using s by blast
qed

section \<open>From pseudo-boolean constraints to the answer\<close>

lemma distinct_sub: "mset xs \<subseteq># mset ys \<Longrightarrow> distinct (map f ys) \<Longrightarrow> distinct (map f xs)"
  using image_mset_subseteq_mono [of "mset xs" "mset ys" f]
  by (metis distinct_append mset_append mset_eq_imp_distinct_iff mset_map ex_mset subset_mset.le_iff_add)

lemma parsed_constrs_fit:
  assumes "\<forall>c \<in> set cs. distinct (map abs (pc_Lits c)) \<and> 0 \<notin> set (pc_Lits c)" and "pbs_ok pb" and "from_constrs cs pb"
  shows "fit_problem pb"
proof -
  have "fit_clause d" if d: "d \<in> set (Clauses pb)" for d
  proof -
    obtain c where c: "c \<in> set cs" "mset (lits d) \<subseteq># mset (map IntToLit (pc_Lits c))" using assms(3) d by (auto simp: from_constrs_def)
    have "map Lit_Var (map IntToLit (pc_Lits c)) = map (\<lambda>k. k - 1) (map abs (pc_Lits c))"
    proof -
      have "Lit_Var (IntToLit x) = \<bar>x\<bar> - 1" if "x \<in> set (pc_Lits c)" for x
        using assms(1) c(1) that by (intro Lit_Var_IntToLit) auto
      then show ?thesis by simp
    qed
    then have "distinct (map Lit_Var (map IntToLit (pc_Lits c)))"
      using assms(1) c(1) by (simp only: distinct_map) (auto simp: inj_on_def)
    then have "distinct (map Lit_Var (lits d))" by (rule distinct_sub [OF c(2)])
    moreover have "pb_ok d" using assms(2) d by (simp add: pbs_ok_def)
    ultimately show ?thesis by (auto simp: fit_clause_def pb_ok_def c_weights_def prop_clause_def)
  qed
  then show ?thesis using assms(2,3) by (simp add: fit_problem_def pbs_ok_def from_constrs_def)
qed

text \<open>
  C4. From the constraints to the answer: parsing normal pseudo-boolean constraints, each over distinct
  variables below \<open>2 ^ 30\<close>, with bounds up to \<open>2 ^ 30\<close> and weights that sum up to less than \<open>2 ^ 62\<close>,
  building the solver and solving answers Sat or Unsat, if it ends, and Unsat only when no assignment
  satisfies the constraints.
\<close>

theorem solve_pb_correct:
  assumes "\<forall>c \<in> set cs. constr_fits c \<and> distinct (map abs (pc_Lits c))"
  shows "wlp (do { pb \<leftarrow> ParsePBConstrs cs; s \<leftarrow> New pb; Solve s })
    (\<lambda>(s, st). st = Sat \<or> st = Unsat \<and> (\<forall>a. \<exists>c \<in> set cs. \<not> pb_holds a c))"
proof -
  have fits: "\<forall>c \<in> set cs. constr_fits c" and "\<forall>c \<in> set cs. distinct (map abs (pc_Lits c)) \<and> 0 \<notin> set (pc_Lits c)"
    using assms by (auto simp: constr_fits_def pb_normal_def)
  note fit = parsed_constrs_fit [OF this(2)]
  have "wlp (New pb \<bind> Solve) (\<lambda>(s, st). st = Sat \<or> st = Unsat \<and> (\<forall>a. \<exists>c \<in> set cs. \<not> pb_holds a c))"
    if pb: "pbs_parsed cs pb" for pb
  proof (cases "pStatus pb = Unsat \<or> (\<forall>a. \<exists>c \<in> set cs. \<not> pb_holds a c)")
    case True
    then have "\<forall>a. \<exists>c \<in> set cs. \<not> pb_holds a c" using pb by (auto simp: pbs_parsed_def)
    then show ?thesis unfolding wlp_bind by (intro wlp_I wlp_mono [OF Solve_decided]) auto
  next
    case False
    then obtain a where a: "\<forall>c \<in> set cs. pb_holds a c" by blast
    then have "pb_models a pb" "pbs_ok pb" "from_constrs cs pb" "pStatus pb \<noteq> Unsat"
      using pb False by (auto simp: pbs_parsed_def split: if_splits)
    from New_Solve [OF fit [OF this(2,3)] this(4,1)] show ?thesis by (rule wlp_mono) auto
  qed
  then show ?thesis by (rule wlp_first [OF wp_wlp [OF ParsePBConstrs_spec [OF fits]]])
qed

text \<open>\<open>2 x + y + z \<ge> 3\<close>, and \<open>x\<close> excludes \<open>y\<close> and \<open>z\<close>.\<close>

definition pbUnsatExample :: "PBConstr list" where
  "pbUnsatExample = [\<lparr>pc_Lits = [1, 2, 3], pc_Weights = Some [2, 1, 1], pc_AtLeast = 3\<rparr>,
     \<lparr>pc_Lits = [- 1, - 2], pc_Weights = None, pc_AtLeast = 1\<rparr>, \<lparr>pc_Lits = [- 1, - 3], pc_Weights = None, pc_AtLeast = 1\<rparr>]"

theorem solve_pb_correct_witness:
  "map_option snd (do { pb \<leftarrow> ParsePBConstrs pbUnsatExample; s \<leftarrow> New pb; Solve s }) = Some Unsat
   \<and> (\<forall>a. \<exists>c \<in> set pbUnsatExample. \<not> pb_holds a c)"
proof -
  have run: "map_option snd (do { pb \<leftarrow> ParsePBConstrs pbUnsatExample; s \<leftarrow> New pb; Solve s }) = Some Unsat" by code_simp
  have "\<forall>c \<in> set pbUnsatExample. constr_fits c \<and> distinct (map abs (pc_Lits c))"
    by (simp add: pbUnsatExample_def constr_fits_def pb_normal_def pc_ws_def sum_fits_def)
  from solve_pb_correct [OF this] run show ?thesis by (auto simp: wlp_iff)
qed

end
