(* ===== verification/ParseDimacs.thy ===== *)
theory ParseDimacs
  imports ParseSlice Solver GoStrings
begin

text \<open>
  The DIMACS reader \<open>ParseCNF\<close> of \<open>solver/parser.go\<close>, which reads its input byte by byte: the rest of
  the input is a list of characters, and its end is the only error of the underlying reader. The
  variable \<open>b\<close> of the code, the last byte read, is passed along; it is 0 at the end. With it, the
  printer \<open>CNF\<close> of \<open>solver/problem.go\<close>, whose output it reads back.
\<close>

section \<open>Numbers\<close>

definition isSpace :: "char \<Rightarrow> bool" where
  "isSpace b \<longleftrightarrow> b = CHR '' '' \<or> b = CHR 0x09 \<or> b = CHR 0x0A \<or> b = CHR 0x0D"

text \<open>The result of \<open>readInt\<close>: the end of the input, a byte that is no digit, or a number.\<close>

datatype read_int = AtEof | NotDigit | ReadInt int

fun skipSpaces :: "char \<Rightarrow> string \<Rightarrow> (char \<times> string) option" where
  "skipSpaces b r =
     (if isSpace b then (case r of [] \<Rightarrow> None | c # r \<Rightarrow> skipSpaces c r) else Some (b, r))"

declare skipSpaces.simps [simp del]

fun readDigits :: "int \<Rightarrow> int \<Rightarrow> char \<Rightarrow> string \<Rightarrow> read_int \<times> char \<times> string" where
  "readDigits neg res b r =
     (if \<not> isDigit b then (NotDigit, b, r)
      else
        let res = int64 (10 * res + (of_char b - 48)) in
        case r of
          [] \<Rightarrow> (AtEof, CHR 0x00, [])
        | c # r \<Rightarrow> if isSpace c then (ReadInt (int64 (res * neg)), c, r) else readDigits neg res c r)"

declare readDigits.simps [simp del]

definition readInt :: "char \<Rightarrow> string \<Rightarrow> read_int \<times> char \<times> string" where
  "readInt b r = (case skipSpaces b r of
     None \<Rightarrow> (AtEof, CHR 0x00, [])
   | Some (b, r) \<Rightarrow>
       if b = CHR ''-'' then (case r of [] \<Rightarrow> (NotDigit, CHR 0x00, []) | c # r \<Rightarrow> readDigits (- 1) 0 c r)
       else readDigits 1 0 b r)"

section \<open>Header and clauses\<close>

datatype dimacs_error = BadHeader | BadNbVars string | BadNbClauses string | BadInt | BadLit int

text \<open>\<open>ReadString\<close> up to the end of the line; without one it is an error.\<close>

definition dimacsHeader :: "string \<Rightarrow> dimacs_error + int \<times> int \<times> string" where
  "dimacsHeader r =
     (let line = takeWhile (\<lambda>c. c \<noteq> CHR 0x0A) r; r = dropWhile (\<lambda>c. c \<noteq> CHR 0x0A) r; fs = Fields line in
      if r = [] \<or> length fs < 3 then Inl BadHeader
      else case Atoi (fs ! 1) of
        None \<Rightarrow> Inl (BadNbVars (fs ! 1))
      | Some nv \<Rightarrow> (case Atoi (fs ! 2) of
          None \<Rightarrow> Inl (BadNbClauses (fs ! 2))
        | Some nbClauses \<Rightarrow> Inr (nv, nbClauses, tl r)))"

lemma skipSpaces_len: "skipSpaces b r = Some (b', r') \<Longrightarrow> length r' \<le> length r"
  by (induction b r rule: skipSpaces.induct) (subst (asm) (2) skipSpaces.simps, auto split: if_splits list.splits)

lemma readDigits_len:
  "readDigits neg res b r = (x, b', r') \<Longrightarrow> length r' \<le> length r \<and> (x = ReadInt v \<longrightarrow> length r' < length r)"
proof (induction neg res b r rule: readDigits.induct)
  case (1 neg res b r)
  then show ?case
    by (subst (asm) (2) readDigits.simps) (fastforce simp: Let_def split: if_splits list.splits)
qed

lemma readInt_len: "readInt b r = (x, b', r') \<Longrightarrow> length r' \<le> length r \<and> (x = ReadInt v \<longrightarrow> length r' < length r)"
  by (fastforce simp: readInt_def dest: skipSpaces_len readDigits_len [of _ _ _ _ _ _ _ v]
      split: option.splits if_splits list.splits prod.splits)

text \<open>The literals of a clause up to its 0 or the end of the input; the flag says that it is kept.\<close>

function readClause :: "int \<Rightarrow> lit list \<Rightarrow> char \<Rightarrow> string \<Rightarrow> dimacs_error + lit list \<times> bool \<times> string" where
  "readClause nv ls b r = (case readInt b r of
     (AtEof, b, r) \<Rightarrow> Inr (ls, ls \<noteq> [], r)
   | (NotDigit, b, r) \<Rightarrow> Inl BadInt
   | (ReadInt v, b, r) \<Rightarrow>
       if v = 0 then Inr (ls, True, r)
       else if v > nv \<or> int64 (- v) > nv then Inl (BadLit v)
       else readClause nv (ls @ [litOf v]) b r)"
  by pat_completeness auto
termination
  by (relation "measure (\<lambda>(nv, ls, b, r). length r)") (auto dest: readInt_len [OF sym])

declare readClause.simps [simp del]

lemma readClause_len: "readClause nv ls b r = Inr (ls', k, r') \<Longrightarrow> length r' \<le> length r"
proof (induction nv ls b r rule: readClause.induct)
  case (1 nv ls b r)
  obtain x b1 r1 where x: "readInt b r = (x, b1, r1)" by (cases "readInt b r")
  show ?case
  proof (cases x)
    case (ReadInt v)
    then show ?thesis
      using 1 x readInt_len [OF x, of v] by (subst (asm) (2) readClause.simps) (fastforce split: if_splits)
  qed (use 1(2) x readInt_len [OF x] in \<open>auto simp: readClause.simps [of nv ls b r]\<close>)
qed

lemma dimacsHeader_len: "dimacsHeader r = Inr (n, m, r') \<Longrightarrow> length r' \<le> length r"
  using length_dropWhile_le [of "\<lambda>c. c \<noteq> CHR 0x0A" r]
  by (auto simp: dimacsHeader_def Let_def split: if_splits option.splits)

text \<open>
  The loop of \<open>ParseCNF\<close> from the next byte on. The header makes a slice of integers and one of
  pointers, both of 8 bytes.
\<close>

function dimacsLoop :: "problem \<Rightarrow> string \<Rightarrow> (dimacs_error + problem) option" where
  "dimacsLoop pb [] = Some (Inr pb)"
| "dimacsLoop pb (b # r) =
     (if b = CHR ''c'' then dimacsLoop pb (tl (dropWhile (\<lambda>c. c \<noteq> CHR 0x0A) r))
      else if b = CHR ''p'' then
        (case dimacsHeader r of
           Inl e \<Rightarrow> Some (Inl e)
         | Inr (nv, nbClauses, r) \<Rightarrow>
             if \<not> makeFits 8 nv \<or> \<not> makeFits 8 nbClauses then None
             else dimacsLoop (pb\<lparr>NbVars := nv, pModel := replicate (nat nv) 0, Clauses := []\<rparr>) r)
      else
        (case readClause (NbVars pb) [] b r of
           Inl e \<Rightarrow> Some (Inl e)
         | Inr (ls, keep, r) \<Rightarrow>
             dimacsLoop (if keep then pb\<lparr>Clauses := Clauses pb @ [NewClause ls]\<rparr> else pb) r))"
  by pat_completeness auto
termination
proof (relation "measure (\<lambda>(pb, r). length r)", goal_cases)
  case (2 pb b r)
  have "length (dropWhile (\<lambda>c. c \<noteq> CHR 0x0A) r) \<le> length r" by (rule length_dropWhile_le)
  then show ?case by simp
qed (auto simp: less_Suc_eq_le dest: readClause_len dimacsHeader_len)

definition ParseCNF :: "string \<Rightarrow> (dimacs_error + problem) option" where
  "ParseCNF input = do {
     r \<leftarrow> dimacsLoop (emptyProblem 0) input;
     case r of Inl e \<Rightarrow> Some (Inl e) | Inr pb \<Rightarrow> do { pb \<leftarrow> simplify2 pb; Some (Inr pb) } }"


section \<open>The printer\<close>

definition newline :: string where
  "newline = [CHR 0x0A]"

definition pb_CNF :: "problem \<Rightarrow> string" where
  "pb_CNF pb = ''p cnf '' @ showInt (NbVars pb) @ '' '' @ showInt (int (length (Clauses pb) + length (Units pb))) @ newline
     @ concat (map (\<lambda>u. showInt (Lit_Int u) @ '' 0'' @ newline) (Units pb))
     @ concat (map (\<lambda>c. c_CNF c @ newline) (Clauses pb))"

section \<open>Reading back\<close>

abbreviation addDigit :: "nat \<Rightarrow> char \<Rightarrow> nat" where
  "addDigit n c \<equiv> 10 * n + (of_char c - 48)"

lemma addDigit_mono: "n \<le> foldl addDigit n ds"
proof (induction ds arbitrary: n)
  case (Cons d ds)
  have "n \<le> addDigit n d" by simp
  also have "\<dots> \<le> foldl addDigit (addDigit n d) ds" by (rule Cons.IH)
  finally show ?case by simp
qed simp

lemma int_digit: "isDigit c \<Longrightarrow> (of_char c :: int) - 48 = int (of_char c - 48)"
proof -
  assume "isDigit c"
  then have "48 \<le> (of_char c :: nat)" by (simp add: isDigit_def)
  moreover have "(of_char c :: int) = int (of_char c)" by (simp add: of_nat_of_char)
  ultimately show ?thesis by simp
qed

lemma readDigits_run:
  "ds \<noteq> [] \<Longrightarrow> list_all isDigit ds \<Longrightarrow> isSpace c \<Longrightarrow> foldl addDigit n ds < 2 ^ 63 \<Longrightarrow> neg = 1 \<or> neg = - 1 \<Longrightarrow>
    readDigits neg (int n) (hd ds) (tl ds @ c # rest) = (ReadInt (int (foldl addDigit n ds) * neg), c, rest)"
proof (induction ds arbitrary: n)
  case (Cons d ds)
  have d: "isDigit d" using Cons.prems by simp
  have "addDigit n d < 2 ^ 63" using Cons.prems(4) addDigit_mono [of "addDigit n d" ds] by simp
  then have w: "int64 (10 * int n + (of_char d - 48)) = int (addDigit n d)"
    using int_digit [OF d] by (simp add: int64_id)
  show ?case
  proof (cases ds)
    case Nil
    have "int64 (int (addDigit n d) * neg) = int (addDigit n d) * neg"
      using \<open>addDigit n d < 2 ^ 63\<close> Cons.prems(5) by (auto intro!: int64_id)
    then show ?thesis
      using Nil d w Cons.prems(3) by (simp add: readDigits.simps [of neg "int n"] Let_def)
  next
    case (Cons e es)
    have "\<not> isSpace e" using Cons.prems(2) Cons by (auto simp: isDigit_def isSpace_def)
    then show ?thesis
      using Cons d w Cons.IH [of "addDigit n d"] Cons.prems by (simp add: readDigits.simps [of neg "int n"] Let_def)
  qed
qed simp

lemma isSpace_cases: "isSpace (CHR '' '')" "isSpace (CHR 0x0A)"
  by (simp_all add: isSpace_def)

lemma digit_not_space: "isDigit d \<Longrightarrow> \<not> isSpace d \<and> d \<noteq> CHR ''-'' \<and> d \<noteq> CHR ''c'' \<and> d \<noteq> CHR ''p''"
  by (auto simp: isDigit_def isSpace_def)

lemma readInt_space: "isSpace b \<Longrightarrow> readInt b (c # r) = readInt c r"
  by (simp add: readInt_def skipSpaces.simps [of b "c # r"])

lemma readInt_showInt:
  assumes n: "- (2 ^ 63) < n" "n < 2 ^ 63" and c: "isSpace c" and t: "b # r = showInt n @ c # rest"
  shows "readInt b r = (ReadInt n, c, rest)"
proof -
  define m where "m = nat \<bar>n\<bar>"
  have m: "foldl addDigit 0 (itoa m) = m" using undigits_itoa [of m] by (simp add: undigits_def)
  obtain d ds where ds: "itoa m = d # ds" by (cases "itoa m") (simp_all add: itoa_nonempty [of m, simplified])
  have dig: "isDigit d" "list_all isDigit (itoa m)" using itoa_digits [of m] ds by auto
  have run: "readDigits neg 0 d (ds @ c # rest) = (ReadInt (int m * neg), c, rest)" if "neg = 1 \<or> neg = - 1" for neg
  proof -
    have "readDigits neg (int 0) (hd (itoa m)) (tl (itoa m) @ c # rest) = (ReadInt (int (foldl addDigit 0 (itoa m)) * neg), c, rest)"
      using dig(2) c that n m by (intro readDigits_run) (auto simp: m_def)
    then show ?thesis unfolding m by (simp add: ds)
  qed
  show ?thesis
  proof (cases "n < 0")
    case True
    have "b = CHR ''-''" "r = d # ds @ c # rest" using t True ds by (simp_all add: showInt_def m_def)
    then show ?thesis
      using run [of "- 1"] True by (simp add: readInt_def skipSpaces.simps [of "CHR ''-''"] isSpace_def m_def)
  next
    case False
    have "b = d" "r = ds @ c # rest" using t False ds by (simp_all add: showInt_def m_def)
    then show ?thesis
      using run [of 1] False digit_not_space [OF dig(1)] by (simp add: readInt_def skipSpaces.simps [of d] m_def)
  qed
qed

text \<open>A clause as \<open>CNF\<close> prints it.\<close>

definition intsText :: "int list \<Rightarrow> string" where
  "intsText is = concat (map (\<lambda>i. showInt i @ '' '') is) @ ''0''"

lemma readClause_text:
  assumes "nv \<le> 2 ^ 30"
  shows "\<forall>i \<in> set is. i \<noteq> 0 \<and> \<bar>i\<bar> \<le> nv \<Longrightarrow> isSpace c \<Longrightarrow>
    readClause nv ls c (intsText is @ newline @ rest) = Inr (ls @ map IntToLit is, True, rest)"
proof (induction "is" arbitrary: ls c)
  case Nil
  have "readInt (CHR ''0'') (newline @ rest) = (ReadInt 0, CHR 0x0A, rest)"
  proof (rule readInt_showInt)
    show "CHR ''0'' # newline @ rest = showInt 0 @ CHR 0x0A # rest"
      by (simp add: showInt_def itoa.simps [of 0] newline_def) code_simp
  qed (simp_all add: isSpace_cases)
  then show ?case
    using Nil by (simp add: readClause.simps [of _ _ c] intsText_def readInt_space)
next
  case (Cons i "is")
  obtain b r where br: "showInt i @ CHR '' '' # intsText is @ newline @ rest = b # r"
    by (cases "showInt i @ CHR '' '' # intsText is @ newline @ rest") auto
  have "readInt b r = (ReadInt i, CHR '' '', intsText is @ newline @ rest)"
    using Cons.prems assms br isSpace_cases by (intro readInt_showInt [OF _ _ _ br [symmetric]]) auto
  then have "readInt c (intsText (i # is) @ newline @ rest) = (ReadInt i, CHR '' '', intsText is @ newline @ rest)"
    using br Cons.prems(2) by (simp add: intsText_def readInt_space)
  moreover have "litOf i = IntToLit i" "int64 (- i) = - i"
    using Cons.prems(1) assms by (auto intro!: litOf_exact int64_abs)
  ultimately show ?case
    using Cons.IH [of "CHR '' ''" "ls @ [IntToLit i]"] Cons.prems isSpace_cases
    by (auto simp: readClause.simps [of _ _ c])
qed

lemma readClause_first:
  assumes "isSpace c" shows "readClause nv ls b r = readClause nv ls c (b # r)"
  using assms by (simp add: readClause.simps [of _ _ c] readClause.simps [of _ _ b] readInt_space)

lemma showInt_first: "\<exists>b r. showInt i = b # r \<and> b \<noteq> CHR ''c'' \<and> b \<noteq> CHR ''p''"
proof -
  have "itoa m \<noteq> [] \<and> isDigit (hd (itoa m))" for m using itoa_hd by simp
  then have "\<exists>b r. itoa m = b # r \<and> b \<noteq> CHR ''c'' \<and> b \<noteq> CHR ''p''" for m
    by (metis digit_not_space list.collapse)
  then show ?thesis by (auto simp: showInt_def)
qed

lemma intsText_first: "\<exists>b r. intsText is = b # r \<and> b \<noteq> CHR ''c'' \<and> b \<noteq> CHR ''p''"
proof (cases "is")
  case (Cons i js)
  then show ?thesis using showInt_first [of i] by (auto simp: intsText_def)
qed (simp add: intsText_def)

lemma dimacsLoop_clause:
  assumes "\<forall>i \<in> set is. i \<noteq> 0 \<and> \<bar>i\<bar> \<le> NbVars pb" "NbVars pb \<le> 2 ^ 30"
  shows "dimacsLoop pb (intsText is @ newline @ rest)
    = dimacsLoop (pb\<lparr>Clauses := Clauses pb @ [NewClause (map IntToLit is)]\<rparr>) rest"
proof -
  obtain b r where b: "intsText is = b # r" "b \<noteq> CHR ''c''" "b \<noteq> CHR ''p''" using intsText_first by blast
  have "readClause (NbVars pb) [] b (r @ newline @ rest) = Inr (map IntToLit is, True, rest)"
    using readClause_text [OF assms(2,1) isSpace_cases(1), of "[]" rest] readClause_first [OF isSpace_cases(1)] b(1) by simp
  then show ?thesis using b by simp
qed

lemma dimacsLoop_clauses:
  assumes "NbVars pb \<le> 2 ^ 30"
  shows "\<forall>is \<in> set iss. \<forall>i \<in> set is. i \<noteq> 0 \<and> \<bar>i\<bar> \<le> NbVars pb \<Longrightarrow>
    dimacsLoop pb (concat (map (\<lambda>is. intsText is @ newline) iss))
    = Some (Inr (pb\<lparr>Clauses := Clauses pb @ map (\<lambda>is. NewClause (map IntToLit is)) iss\<rparr>))"
  using assms
proof (induction iss arbitrary: pb)
  case (Cons "is" iss)
  then show ?case using dimacsLoop_clause [of "is" pb] by simp
qed simp

lemma dimacsHeader_text:
  assumes "inInt64 n" "inInt64 m"
  shows "dimacsHeader ('' cnf '' @ showInt n @ '' '' @ showInt m @ newline @ rest) = Inr (n, m, rest)"
proof -
  let ?line = "'' cnf '' @ showInt n @ '' '' @ showInt m"
  have w: "wordLike ''cnf''" by (simp add: wordLike_def asciiSpace_def)
  have "Fields ?line = Fields (joinSpace [''cnf'', showInt n, showInt m])"
    by (simp add: Fields_def asciiSpace_def)
  then have f: "Fields ?line = [''cnf'', showInt n, showInt m]"
    using Fields_joinSpace [of "[''cnf'', showInt n, showInt m]"] w showInt_word by simp
  have nl: "\<forall>c \<in> set ?line. c \<noteq> CHR 0x0A"
    using showInt_word [of n] showInt_word [of m] by (auto simp: wordLike_def asciiSpace_def)
  have "takeWhile (\<lambda>c. c \<noteq> CHR 0x0A) (?line @ newline @ rest) = ?line"
    "dropWhile (\<lambda>c. c \<noteq> CHR 0x0A) (?line @ newline @ rest) = newline @ rest"
    using nl by (auto simp: newline_def takeWhile_append2 dropWhile_append2)
  then show ?thesis
    using f assms by (simp add: dimacsHeader_def Let_def newline_def)
qed

lemma Lit_Int_bound: "lit_ok n l \<Longrightarrow> Lit_Int l \<noteq> 0 \<and> \<bar>Lit_Int l\<bar> \<le> n"
  by (auto simp: lit_ok_def Lit_Int_nonneg Lit_Var_nonneg)

lemma c_CNF_ints: "c_CNF c = intsText (map Lit_Int (lits c))"
  by (simp add: c_CNF_def intsText_def comp_def)

lemma pb_CNF_ints:
  "pb_CNF pb = ''p cnf '' @ showInt (NbVars pb) @ '' '' @ showInt (int (length (Clauses pb) + length (Units pb))) @ newline
     @ concat (map (\<lambda>is. intsText is @ newline) (map (\<lambda>u. [Lit_Int u]) (Units pb) @ map (\<lambda>c. map Lit_Int (lits c)) (Clauses pb)))"
  by (simp add: pb_CNF_def c_CNF_ints comp_def) (simp add: intsText_def)

text \<open>The problem that the reader hands to the simplifier: the units are clauses.\<close>

definition unitsAsClauses :: "problem \<Rightarrow> problem" where
  "unitsAsClauses pb = (emptyProblem (NbVars pb))\<lparr>pModel := replicate (nat (NbVars pb)) 0,
     Clauses := map NewClause (map (\<lambda>u. [u]) (Units pb) @ map lits (Clauses pb))\<rparr>"

lemma ParseCNF_text:
  assumes n: "0 \<le> NbVars pb" "NbVars pb \<le> 2 ^ 30" and m: "length (Clauses pb) + length (Units pb) \<le> 2 ^ 45"
    and ls: "lits_ok (NbVars pb) (Units pb)" "\<forall>c \<in> set (Clauses pb). lits_ok (NbVars pb) (lits c)"
  shows "ParseCNF (pb_CNF pb) = map_option Inr (simplify2 (unitsAsClauses pb))"
proof -
  let ?iss = "map (\<lambda>u. [Lit_Int u]) (Units pb) @ map (\<lambda>c. map Lit_Int (lits c)) (Clauses pb)"
  let ?pb = "(emptyProblem 0)\<lparr>NbVars := NbVars pb, pModel := replicate (nat (NbVars pb)) 0, Clauses := []\<rparr>"
  have iss: "\<forall>is \<in> set ?iss. \<forall>i \<in> set is. i \<noteq> 0 \<and> \<bar>i\<bar> \<le> NbVars pb"
    using ls Lit_Int_bound by fastforce
  have again: "map IntToLit (map Lit_Int ks) = ks" if "lits_ok (NbVars pb) ks" for ks
    using that by (simp add: map_idI IntToLit_Lit_Int lit_ok_def)
  have eq: "map (\<lambda>is. NewClause (map IntToLit is)) ?iss = Clauses (unitsAsClauses pb)"
    using ls again by (auto simp: unitsAsClauses_def IntToLit_Lit_Int lit_ok_def comp_def)
  have h: "dimacsHeader ('' cnf '' @ showInt (NbVars pb) @ '' '' @ showInt (int (length (Clauses pb) + length (Units pb))) @ newline
      @ concat (map (\<lambda>is. intsText is @ newline) ?iss))
     = Inr (NbVars pb, int (length (Clauses pb) + length (Units pb)), concat (map (\<lambda>is. intsText is @ newline) ?iss))"
    using n m by (intro dimacsHeader_text) (auto simp: inInt64_def)
  have "dimacsLoop (emptyProblem 0) (pb_CNF pb) = dimacsLoop ?pb (concat (map (\<lambda>is. intsText is @ newline) ?iss))"
    using h n m by (simp add: makeFits_def pb_CNF_ints del: map_append concat_append)
  also have "\<dots> = Some (Inr (?pb\<lparr>Clauses := Clauses ?pb @ map (\<lambda>is. NewClause (map IntToLit is)) ?iss\<rparr>))"
    using n iss by (intro dimacsLoop_clauses) simp_all
  also have "?pb\<lparr>Clauses := Clauses ?pb @ map (\<lambda>is. NewClause (map IntToLit is)) ?iss\<rparr> = unitsAsClauses pb"
    using eq by (simp add: unitsAsClauses_def emptyProblem_def)
  finally show ?thesis
    by (cases "simplify2 (unitsAsClauses pb)") (simp_all add: ParseCNF_def)
qed

text \<open>
  C12. Reading back what \<open>CNF\<close> prints of a problem of clauses that is not known to be unsatisfiable
  gives, without error or panic, a problem with the same variables and models, or the status Unsat
  when it has none. There are at most \<open>2 ^ 30\<close> variables and \<open>2 ^ 45\<close> clauses. (\<open>CNF\<close> does not print
  the status: a problem whose status alone says Unsat may read back satisfiable.)
\<close>

lemma ParseCNF_CNF_solver:
  assumes "pStatus pb \<noteq> Unsat" and "0 \<le> NbVars pb" "NbVars pb \<le> 2 ^ 30" "length (Clauses pb) + length (Units pb) \<le> 2 ^ 45"
    and "lits_ok (NbVars pb) (Units pb)" "\<forall>c \<in> set (Clauses pb). lits_ok (NbVars pb) (lits c) \<and> prop_clause c"
  shows "\<exists>pb'. ParseCNF (pb_CNF pb) = Some (Inr pb') \<and> NbVars pb' = NbVars pb
     \<and> (if pStatus pb' = Unsat then \<forall>a. \<not> pb_sat a pb
        else (\<forall>a. pb_sat a pb' = pb_sat a pb) \<and> (pStatus pb' = Sat \<longleftrightarrow> Clauses pb' = []))"
proof -
  let ?q = "unitsAsClauses pb"
  have pc: "prop_clause (NewClause ls)" for ls
    by (simp add: prop_clause_def NewClause_def Cardinality_def Learned_def learnedMask_def)
  have inv: "pb_inv ?q" "pStatus ?q = Indet" "\<forall>c \<in> set (Clauses ?q). prop_clause c"
    using assms pc by (auto simp: unitsAsClauses_def emptyProblem_def pb_inv_def units_model_def NewClause_def)
  have sat: "pb_models a ?q = pb_models a pb" for a
    using assms(6) by (simp add: pb_models_def unitsAsClauses_def emptyProblem_def prop_clause_sat [OF pc] ball_Un prop_clause_sat)
      (simp add: NewClause_def)
  have "wp (simplify2 ?q) (\<lambda>pb'. simplify_post ?q pb' \<and> (pStatus pb' \<noteq> Unsat \<longrightarrow> (\<forall>c \<in> set (Clauses pb'). clean (pModel pb') c)))"
    using inv by (rule simplify2_spec)
  then obtain pb' where "simplify2 ?q = Some pb'" "simplify_post ?q pb'" by (auto simp: wp_iff)
  moreover have "NbVars ?q = NbVars pb" by (simp add: unitsAsClauses_def emptyProblem_def)
  ultimately show ?thesis
    using ParseCNF_text [of pb] assms sat by (intro exI [of _ pb']) (auto simp: simplify_post_def pb_sat_def split: if_splits)
qed

definition printedExample :: problem where
  "printedExample = (emptyProblem 3)\<lparr>Clauses := [NewClause [0, 3, 4], NewClause [1, 2]], Units := [3]\<rparr>"

lemma ParseCNF_CNF_solver_witness:
  "\<exists>pb'. ParseCNF (pb_CNF printedExample) = Some (Inr pb') \<and> NbVars pb' = NbVars printedExample
     \<and> (if pStatus pb' = Unsat then \<forall>a. \<not> pb_sat a printedExample
        else (\<forall>a. pb_sat a pb' = pb_sat a printedExample) \<and> (pStatus pb' = Sat \<longleftrightarrow> Clauses pb' = []))"
  by (rule ParseCNF_CNF_solver)
    (simp_all add: printedExample_def emptyProblem_def NewClause_def lit_ok_def Lit_Var_nonneg prop_clause_def
      Cardinality_def Learned_def learnedMask_def)

text \<open>Without a last 0 the last literal is lost when the file ends with it.\<close>

lemma ParseCNF_loses_literal:
  "ParseCNF (''p cnf 2 1'' @ newline @ ''1 2'')
    = Some (Inr \<lparr>NbVars = 2, Clauses = [], pStatus = Sat, Units = [IntToLit 1], pModel = [1, 0],
        minLits = None, minWeights = None\<rparr>)"
  by code_simp

end
