(* ===== verification/FormulaSolve.thy ===== *)
theory FormulaSolve
  imports Cnf Models ParseDimacs "HOL-Library.List_Lexorder" "HOL-Library.Char_ord"
begin

text \<open>
  The entry points of \<open>bf/bf.go\<close>: \<open>Solve\<close>, which hands the clauses of a formula to the solver and
  reads the names of the variables back, and the printer \<open>Dimacs\<close>. The code ranges over a Go map;
  the model takes the order of the table.
\<close>

section \<open>The entry points\<close>

fun bindNames :: "(variable \<times> int) list \<Rightarrow> bool list \<Rightarrow> fmodel \<Rightarrow> fmodel option" where
  "bindNames [] m r = Some r"
| "bindNames ((v, idx) # vs) m r = do {
     b \<leftarrow> geti m (idx - 1);
     bindNames vs m (r(vname v \<mapsto> b)) }"

text \<open>\<open>solve\<close>: the inner option is \<open>None\<close> for the nil map of an unsatisfiable formula.\<close>

definition cnf_solve :: "int list list \<times> vars \<Rightarrow> fmodel option option" where
  "cnf_solve cnf = do {
     pb \<leftarrow> ParseSlice (fst cnf);
     s \<leftarrow> New pb;
     (s, st) \<leftarrow> Solve s;
     if st \<noteq> Sat then Some None
     else do {
       m \<leftarrow> Model s;
       r \<leftarrow> bindNames (v_pb (snd cnf)) m (\<lambda>_. None);
       Some (Some r) } }"

definition bf_Solve :: "formula \<Rightarrow> fmodel option option" where
  "bf_Solve f = do { cnf \<leftarrow> asCnf f; cnf_solve cnf }"

text \<open>\<open>Dimacs\<close> on a writer that does not fail; the names are sorted.\<close>

definition dimacsNames :: "vars \<Rightarrow> string" where
  "dimacsNames vs = concat (map (\<lambda>n. ''c '' @ n @ ''='' @
       showInt (case map_of (v_pb vs) (pbVar n) of None \<Rightarrow> 0 | Some idx \<Rightarrow> idx) @ newline)
     (sort (map (\<lambda>(v, idx). vname v) (filter (\<lambda>(v, idx). \<not> vdummy v) (v_pb vs)))))"

definition dimacsClause :: "int list \<Rightarrow> string" where
  "dimacsClause c = joinSpace (map showInt c) @ '' 0'' @ newline"

definition Dimacs :: "formula \<Rightarrow> string option" where
  "Dimacs f = do {
     (cs, vs) \<leftarrow> asCnf f;
     Some (''p cnf '' @ showInt (int (length (v_all vs))) @ '' '' @ showInt (int (length cs)) @ newline
       @ dimacsNames vs @ concat (map dimacsClause cs)) }"

section \<open>What the conversion numbers\<close>

text \<open>Only variables of the formula enter the table, and the literals are numbers of the table.\<close>

definition lits_upto :: "vars \<Rightarrow> int list list \<Rightarrow> bool" where
  "lits_upto vs cs \<longleftrightarrow> (\<forall>c \<in> set cs. \<forall>n \<in> set c. n \<noteq> 0 \<and> \<bar>n\<bar> \<le> int (length (v_all vs)))"

lemma lits_upto_guard:
  "c0 \<in> set cs \<Longrightarrow> set cs' \<subseteq> insert (c0 @ [- d]) (set cs) \<Longrightarrow> lits_upto vs cs \<Longrightarrow> lits_upto vs [[d]] \<Longrightarrow> lits_upto vs cs'"
proof -
  assume c0: "c0 \<in> set cs" and sub: "set cs' \<subseteq> insert (c0 @ [- d]) (set cs)" and u: "lits_upto vs cs" "lits_upto vs [[d]]"
  have "lits_upto vs ((c0 @ [- d]) # cs)" using c0 u unfolding lits_upto_def by auto
  then have "\<forall>c \<in> insert (c0 @ [- d]) (set cs). \<forall>n \<in> set c. n \<noteq> 0 \<and> \<bar>n\<bar> \<le> int (length (v_all vs))"
    by (simp only: lits_upto_def list.set)
  then show ?thesis unfolding lits_upto_def using sub by blast
qed

definition num_post :: "vars \<Rightarrow> variable set \<Rightarrow> int list list \<Rightarrow> vars \<Rightarrow> bool" where
  "num_post vs V cs vs' \<longleftrightarrow> vars_inv vs' \<and> extends vs vs' \<and> distinct (map fst (v_pb vs'))
     \<and> dom (map_of (v_pb vs')) \<subseteq> dom (map_of (v_pb vs)) \<union> V \<and> lits_upto vs' cs"

lemma lits_upto_extends: "lits_upto vs cs \<Longrightarrow> extends vs vs' \<Longrightarrow> lits_upto vs' cs"
  unfolding lits_upto_def extends_def by fastforce

lemma lits_upto_simps [simp]:
  "lits_upto vs []" "lits_upto vs (c # cs) \<longleftrightarrow> (\<forall>n \<in> set c. n \<noteq> 0 \<and> \<bar>n\<bar> \<le> int (length (v_all vs))) \<and> lits_upto vs cs"
  "lits_upto vs (cs @ ds) \<longleftrightarrow> lits_upto vs cs \<and> lits_upto vs ds"
  by (auto simp: lits_upto_def)

lemma num_post_trans: "num_post vs V cs vs1 \<Longrightarrow> num_post vs1 W ds vs2 \<Longrightarrow> num_post vs (V \<union> W) ds vs2"
  unfolding num_post_def by (blast intro: extends_trans)

lemma litValue_distinct: "distinct (map fst (v_pb vs)) \<Longrightarrow> distinct (map fst (v_pb (snd (litValue vs v sg))))"
  by (auto simp: litValue_def Let_def distinct_update split: option.splits)

lemma litValue_num:
  assumes "vars_inv vs" "\<not> reserved v" "distinct (map fst (v_pb vs))"
  obtains n vs' where "litValue vs v sg = (n, vs')" "num_post vs {v} [[n]] vs'"
proof -
  obtain val vs' where l: "litValue vs v sg = (if sg then - val else val, vs')"
    "vars_inv vs'" "extends vs vs'" "0 < val" "val \<le> int (length (v_all vs'))"
    "\<And>u. u \<noteq> v \<Longrightarrow> map_of (v_pb vs') u = map_of (v_pb vs) u"
    by (rule litValue_spec [OF assms(1,2), of sg]) blast
  have "distinct (map fst (v_pb vs'))" using litValue_distinct [OF assms(3), of v sg] l(1) by simp
  moreover have "dom (map_of (v_pb vs')) \<subseteq> dom (map_of (v_pb vs)) \<union> {v}" using l(6) by fastforce
  ultimately show ?thesis using that [OF l(1)] l by (simp add: num_post_def)
qed

lemma dummy_num:
  assumes "vars_inv vs" "distinct (map fst (v_pb vs))"
  obtains d vs' where "dummy vs = (d, vs')" "num_post vs {} [[d]] vs'" "0 < d"
proof (rule that)
  show "dummy vs = (fst (dummy vs), snd (dummy vs))" by simp
  show "num_post vs {} [[fst (dummy vs)]] (snd (dummy vs))" "0 < fst (dummy vs)"
    using dummy_spec [OF assms(1)] assms(2) by (auto simp: num_post_def)
qed

lemma cnf_numbered:
  "vars_inv vs \<Longrightarrow> unreserved f \<Longrightarrow> distinct (map fst (v_pb vs)) \<Longrightarrow>
     wlp (cnfRec f vs) (\<lambda>(cs, vs'). num_post vs (fvars f) cs vs')"
  "vars_inv vs \<Longrightarrow> \<forall>f \<in> set fs. unreserved f \<Longrightarrow> distinct (map fst (v_pb vs)) \<Longrightarrow> lits_upto vs res \<Longrightarrow>
     wlp (cnfAnd res fs vs) (\<lambda>(cs, vs'). num_post vs (\<Union>f \<in> set fs. fvars f) cs vs')"
  "vars_inv vs \<Longrightarrow> \<forall>f \<in> set fs. unreserved f \<Longrightarrow> distinct (map fst (v_pb vs)) \<Longrightarrow> lits_upto vs res \<Longrightarrow> lits_upto vs [ls] \<Longrightarrow>
     wlp (cnfOr res ls fs vs) (\<lambda>(cs, vs'). num_post vs (\<Union>f \<in> set fs. fvars f) cs vs')"
  "vars_inv vs \<Longrightarrow> \<forall>f \<in> set fs. unreserved f \<Longrightarrow> distinct (map fst (v_pb vs)) \<Longrightarrow> lits_upto vs res \<Longrightarrow> lits_upto vs [[d]] \<Longrightarrow>
     wlp (cnfGuard d res fs vs) (\<lambda>(cs, vs'). num_post vs (\<Union>f \<in> set fs. fvars f) cs vs')"
proof (induction f vs and res fs vs and res ls fs vs and d res fs vs
    rule: cnfRec_cnfAnd_cnfOr_cnfGuard.induct)
  case (1 v sg vs)
  then obtain n vs' where "litValue vs v sg = (n, vs')" "num_post vs {v} [[n]] vs'"
    by (auto elim: litValue_num [of vs v sg])
  then show ?case by simp
next
  case (9 res f fs vs)
  have "wlp (cnfAnd (res @ cs) fs vs1) (\<lambda>(ds, vs2). num_post vs (fvars f \<union> (\<Union>f \<in> set fs. fvars f)) ds vs2)"
    if c: "cnfRec f vs = Some (cs, vs1)" for cs vs1
  proof -
    have p: "num_post vs (fvars f) cs vs1" using 9(1) 9(3-) c by (auto simp: wlp_iff)
    then have "wlp (cnfAnd (res @ cs) fs vs1) (\<lambda>(ds, vs2). num_post vs1 (\<Union>f \<in> set fs. fvars f) ds vs2)"
      using 9(4-) lits_upto_extends by (intro 9(2) [OF c refl]) (auto simp: num_post_def)
    then show ?thesis by (rule wlp_mono) (use num_post_trans [OF p] in auto)
  qed
  then show ?case by (auto simp: wlp_iff bind_eq_Some_conv)
next
  case (11 res ls v sg fs vs)
  then obtain n vs1 where l: "litValue vs v sg = (n, vs1)" and p: "num_post vs {v} [[n]] vs1"
    by (auto elim: litValue_num [of vs v sg])
  have "wlp (cnfOr res (ls @ [n]) fs vs1) (\<lambda>(ds, vs2). num_post vs1 (\<Union>f \<in> set fs. fvars f) ds vs2)"
    using 11(3-) p lits_upto_extends [of vs "[ls]" vs1] lits_upto_extends [of vs res vs1]
    by (intro 11(1) [OF l [symmetric] refl]) (auto simp: num_post_def)
  then have "wlp (cnfOr res (ls @ [n]) fs vs1) (\<lambda>(ds, vs2). num_post vs ({v} \<union> (\<Union>f \<in> set fs. fvars f)) ds vs2)"
    by (rule wlp_mono) (use num_post_trans [OF p] in auto)
  then show ?case using l by simp
next
  case (12 res ls subs fs vs)
  then obtain d vs0 where dm: "dummy vs = (d, vs0)" and p0: "num_post vs {} [[d]] vs0"
    by (auto elim: dummy_num [of vs])
  have "wlp (cnfOr cs (ls @ [d]) fs vs1) (\<lambda>(ds, vs2). num_post vs ((\<Union>f \<in> set subs. fvars f) \<union> (\<Union>f \<in> set fs. fvars f)) ds vs2)"
    if c: "cnfGuard d res subs vs0 = Some (cs, vs1)" for cs vs1
  proof -
    have "wlp (cnfGuard d res subs vs0) (\<lambda>(cs, vs1). num_post vs0 (\<Union>f \<in> set subs. fvars f) cs vs1)"
    proof (rule 12(1) [OF dm [symmetric] refl])
      show "\<forall>f \<in> set subs. unreserved f" using 12(4) by simp
      show "lits_upto vs0 res" using 12(6) p0 by (auto simp: num_post_def intro: lits_upto_extends)
    qed (use p0 in \<open>simp_all add: num_post_def\<close>)
    then have p01: "num_post vs0 (\<Union>f \<in> set subs. fvars f) cs vs1" using c by (simp add: wlp_iff)
    have p1: "num_post vs (\<Union>f \<in> set subs. fvars f) cs vs1" using num_post_trans [OF p0 p01] by simp
    have "lits_upto vs1 [[d]]" by (rule lits_upto_extends [of vs0]) (use p0 p01 in \<open>simp_all add: num_post_def\<close>)
    then have "wlp (cnfOr cs (ls @ [d]) fs vs1) (\<lambda>(ds, vs2). num_post vs1 (\<Union>f \<in> set fs. fvars f) ds vs2)"
      using 12(4-) p1 lits_upto_extends [of vs "[ls]" vs1]
      by (intro 12(2) [OF dm [symmetric] refl c refl]) (simp_all add: num_post_def ball_Un)
    then show ?thesis by (rule wlp_mono) (use num_post_trans [OF p1] in auto)
  qed
  then show ?case using dm by (auto simp: wlp_iff bind_eq_Some_conv)
next
  case (19 d res f fs vs)
  have "wlp (cnfGuard d (res @ cs') fs vs1) (\<lambda>(ds, vs2). num_post vs (fvars f \<union> (\<Union>f \<in> set fs. fvars f)) ds vs2)"
    if c: "cnfRec f vs = Some (cs, vs1)" and c0: "get cs 0 = Some c0" and c': "put cs 0 (c0 @ [- d]) = Some cs'" for cs vs1 c0 cs'
  proof -
    have p: "num_post vs (fvars f) cs vs1" using 19(1) 19(3-) c by (auto simp: wlp_iff)
    have d: "lits_upto vs1 [[d]]" by (rule lits_upto_extends [OF 19(7)]) (use p in \<open>simp add: num_post_def\<close>)
    have "c0 \<in> set cs" using c0 by (auto simp: get_def split: if_splits)
    moreover have "cs' = cs[0 := c0 @ [- d]]" using c' by (simp add: put_def split: if_splits)
    then have "set cs' \<subseteq> insert (c0 @ [- d]) (set cs)" by (simp only: set_update_subset_insert)
    moreover have "lits_upto vs1 cs" using p by (simp add: num_post_def)
    ultimately have "lits_upto vs1 cs'" using d by (rule lits_upto_guard)
    then have "wlp (cnfGuard d (res @ cs') fs vs1) (\<lambda>(ds, vs2). num_post vs1 (\<Union>f \<in> set fs. fvars f) ds vs2)"
      using p d 19(4-) lits_upto_extends by (intro 19(2) [OF c refl c0 c']) (auto simp: num_post_def)
    then show ?thesis by (rule wlp_mono) (use num_post_trans [OF p] in auto)
  qed
  then show ?case by (auto simp: wlp_iff bind_eq_Some_conv)
qed (auto simp: num_post_def)

section \<open>Soundness of the entry point\<close>

lemma ntrue_ilit: "n \<noteq> 0 \<Longrightarrow> ilit_true a n \<longleftrightarrow> ntrue (\<lambda>k. a (k - 1)) n"
  by (auto simp: lit_true_def ntrue_def)

lemma clauses_hold_cnf:
  assumes "lits_upto vs cs" shows "cnf_sat a cs \<longleftrightarrow> clauses_hold (\<lambda>k. a (k - 1)) cs"
  using assms by (fastforce simp: cnf_sat_def clauses_hold_def lits_upto_def ntrue_ilit)

text \<open>The map that the names get: every variable of the table has its bit.\<close>

lemma bindNames_spec:
  "bindNames vs m r = Some r' \<Longrightarrow> distinct (map fst vs) \<Longrightarrow> inj_on vname (fst ` set vs) \<Longrightarrow>
     (\<forall>(v, idx) \<in> set vs. r' (vname v) = Some (bools m (idx - 1)))
     \<and> (\<forall>n. n \<notin> vname ` fst ` set vs \<longrightarrow> r' n = r n)"
proof (induction vs m r rule: bindNames.induct)
  case (2 v idx vs m r)
  obtain b where b: "geti m (idx - 1) = Some b" and rest: "bindNames vs m (r(vname v \<mapsto> b)) = Some r'"
    using 2(2) by (auto simp: bind_eq_Some_conv)
  have "b = bools m (idx - 1)" using b by (auto simp: geti_def bools_def split: if_splits)
  moreover have "vname v \<notin> vname ` fst ` set vs" using 2(3,4) by (auto simp: inj_on_def)
  ultimately show ?case using 2(1) [OF b rest] 2(3,4) by (auto simp: inj_on_def)
qed simp

text \<open>
  The formula may use each name once, so not both as a variable and as a dummy of \<open>Unique\<close>.
\<close>

definition solvable :: "formula \<Rightarrow> bool" where
  "solvable f \<longleftrightarrow> unreserved f \<and> const_free f \<and> inj_on vname (fvars f)
     \<and> (\<forall>cs vs. asCnf f = Some (cs, vs) \<longrightarrow> int (length (v_all vs)) < 2 ^ 30)"

lemma asCnf_table:
  assumes "unreserved f" and "asCnf f = Some (cs, vs)"
  shows "distinct (map fst (v_pb vs))" "fst ` set (v_pb vs) \<subseteq> fvars f" "lits_upto vs cs"
    "fvars (nnf f) \<subseteq> dom (map_of (v_pb vs))"
    "clauses_hold s cs \<Longrightarrow> Formula.holds (decode vs s) (nnf f)"
proof -
  have u: "unreserved (nnf f)" using assms(1) nnf_fvars by (auto simp: unreserved_def)
  have "wlp (asCnf f) (\<lambda>(cs, vs). num_post \<lparr>v_all = [], v_pb = []\<rparr> (fvars (nnf f)) cs vs)"
    unfolding asCnf_def using vars_inv_empty u by (intro cnf_numbered(1)) auto
  then have n: "num_post \<lparr>v_all = [], v_pb = []\<rparr> (fvars (nnf f)) cs vs" using assms(2) by (auto simp: wlp_iff)
  then show "distinct (map fst (v_pb vs))" "lits_upto vs cs" by (simp_all add: num_post_def)
  show "fst ` set (v_pb vs) \<subseteq> fvars f"
    using n nnf_fvars [of f] by (auto simp: num_post_def dom_map_of_conv_image_fst)
  consider "nnf f = TrueConst" | "nnf f = FalseConst" | "nnf_part (nnf f)"
    using nnf_is_nnf [of f] by (auto simp: is_nnf_def nnf_part_def)
  then have "fvars (nnf f) \<subseteq> dom (map_of (v_pb vs)) \<and> (\<forall>s. clauses_hold s cs \<longrightarrow> Formula.holds (decode vs s) (nnf f))"
  proof cases
    case 3
    from sound_post_cnfRec(1) [OF vars_inv_empty this u] show ?thesis
      using assms(2) unfolding asCnf_def by (auto simp: wp_iff sound_post_def)
  qed (use assms(2) in \<open>auto simp: asCnf_def\<close>)
  then show "fvars (nnf f) \<subseteq> dom (map_of (v_pb vs))" "clauses_hold s cs \<Longrightarrow> Formula.holds (decode vs s) (nnf f)"
    by auto
qed

lemma solve_clauses:
  assumes "lits_upto vs cs" "int (length (v_all vs)) < 2 ^ 30"
    and run: "ParseSlice cs = Some pb" "New pb = Some s0" "Solve s0 = Some (s, st)"
  shows "st = Sat \<and> (\<exists>bs. Model s = Some bs \<and> cnf_sat (bools bs) cs) \<or> st = Unsat \<and> (\<forall>a. \<not> cnf_sat a cs)"
proof -
  have "\<forall>line \<in> set cs. \<forall>v \<in> set line. v \<noteq> 0 \<and> \<bar>v\<bar> < 2 ^ 30"
    using assms(1,2) by (fastforce simp: lits_upto_def)
  moreover have "(do { pb \<leftarrow> ParseSlice cs; s \<leftarrow> New pb; Solve s }) = Some (s, st)" using run by simp
  ultimately show ?thesis using wlp_SomeD [OF solve_cnf] by fastforce
qed

text \<open>
  C2. From a formula to the answer, for formulas without constants and without empty conjunctions and
  disjunctions, that use neither a name twice nor a reserved one, and whose translation has fewer than
  \<open>2 ^ 30\<close> variables: when \<open>Solve\<close> returns a map, the formula evaluates to true under it; when it
  returns nil and the normal form is shallow, no assignment satisfies the formula. (With constants the
  answer can be wrong, since the normal form inverts them.)
\<close>

lemma bf_Solve_correct:
  assumes "solvable f"
  shows "wlp (bf_Solve f) (\<lambda>r. case r of
       Some m \<Rightarrow> Eval m f = Some True
     | None \<Rightarrow> shallow (nnf f) \<longrightarrow> (\<forall>m. Eval m f \<noteq> Some True))"
proof (rule wlp_eqI)
  fix r assume run: "bf_Solve f = Some r"
  note ok = assms [unfolded solvable_def]
  obtain cs vs where c: "asCnf f = Some (cs, vs)" using run by (auto simp: bf_Solve_def bind_eq_Some_conv)
  have "cnf_solve (cs, vs) = Some r" using run c by (simp add: bf_Solve_def)
  then obtain pb s0 s st where p: "ParseSlice cs = Some pb" "New pb = Some s0" "Solve s0 = Some (s, st)"
    and rest: "(if st \<noteq> Sat then Some None
     else do { m \<leftarrow> Model s; r \<leftarrow> bindNames (v_pb vs) m (\<lambda>_. None); Some (Some r) }) = Some r"
    unfolding cnf_solve_def fst_conv snd_conv by (fastforce simp: bind_eq_Some_conv)
  have u: "unreserved f" and "int (length (v_all vs)) < 2 ^ 30" using ok c by auto
  note t = asCnf_table [OF u c]
  have ans: "st = Sat \<and> (\<exists>bs. Model s = Some bs \<and> cnf_sat (bools bs) cs) \<or> st = Unsat \<and> (\<forall>a. \<not> cnf_sat a cs)"
    by (rule solve_clauses [OF t(3) _ p]) fact
  have ev: "Eval m f = Eval m (nnf f)" for m using ok nnf_solid [of f "asg_of m"] by (simp add: Eval_holds)
  show "case r of Some m \<Rightarrow> Eval m f = Some True | None \<Rightarrow> shallow (nnf f) \<longrightarrow> (\<forall>m. Eval m f \<noteq> Some True)"
  proof (cases "st = Sat")
    case True
    then obtain bs m where m: "Model s = Some bs" "cnf_sat (bools bs) cs" "bindNames (v_pb vs) bs (\<lambda>_. None) = Some m" "r = Some m"
      using ans rest by (auto simp: bind_eq_Some_conv)
    have "inj_on vname (fst ` set (v_pb vs))" using t(2) ok by (auto intro: inj_on_subset)
    note b = bindNames_spec [OF m(3) t(1) this]
    have at: "m (vname v) = Some (decode vs (\<lambda>k. bools bs (k - 1)) v)" if "v \<in> fvars (nnf f)" for v
    proof -
      from subsetD [OF t(4) that] obtain idx where "map_of (v_pb vs) v = Some idx" by auto
      then show ?thesis using b by (auto simp: decode_def dest!: map_of_SomeD)
    qed
    have "Formula.holds (decode vs (\<lambda>k. bools bs (k - 1))) (nnf f)"
      using m(2) t(3) by (intro t(5)) (simp add: clauses_hold_cnf)
    moreover have "Formula.holds (decode vs (\<lambda>k. bools bs (k - 1))) (nnf f) = Formula.holds (asg_of m) (nnf f)"
      by (rule holds_cong) (simp add: asg_of_def at)
    ultimately have "Eval m (nnf f) = Some True" using at by (simp add: Eval_holds bound_def)
    then show ?thesis using m(4) ev by simp
  next
    case False
    then have st: "r = None" "\<forall>a. \<not> cnf_sat a cs" using ans rest by auto
    have "Eval m f \<noteq> Some True" if sh: "shallow (nnf f)" for m
    proof
      assume "Eval m f = Some True"
      then have "Formula.holds (asg_of m) (nnf f)" using ev by (auto simp: Eval_holds split: if_splits)
      then obtain s where "clauses_hold s cs" using asCnf_complete [OF u sh] c by fastforce
      then have "cnf_sat (\<lambda>v. s (v + 1)) cs" using t(3) by (simp add: clauses_hold_cnf)
      then show False using st(2) by blast
    qed
    then show ?thesis using st(1) by simp
  qed
qed

definition solveExample :: formula where
  "solveExample = FAnd [FOr [Var ''a'', FNot (Var ''b'')], Var ''b'']"

lemma bf_Solve_correct_witness:
  "(\<exists>m. bf_Solve solveExample = Some (Some m) \<and> Eval m solveExample = Some True)
   \<and> (\<forall>m. Eval m (FAnd [Var ''a'', FNot (Var ''a'')]) \<noteq> Some True)"
proof
  have c: "asCnf solveExample = Some ([[1, - 2], [2]],
      \<lparr>v_all = [(pbVar ''a'', 1), (pbVar ''b'', 2)], v_pb = [(pbVar ''a'', 1), (pbVar ''b'', 2)]\<rparr>)"
    by code_simp
  have "solvable solveExample"
    using c by (auto simp: solvable_def) (simp_all add: solveExample_def Var_def pbVar_def reserved_def unreserved_def inj_on_def)
  note s = bf_Solve_correct [OF this]
  have "map_option (\<lambda>r. r \<noteq> None) (bf_Solve solveExample) = Some True" by code_simp
  then obtain m where "bf_Solve solveExample = Some (Some m)" by auto
  then show "\<exists>m. bf_Solve solveExample = Some (Some m) \<and> Eval m solveExample = Some True"
    using wlp_SomeD [OF s] by fastforce
next
  let ?f = "FAnd [Var ''a'', FNot (Var ''a'')]"
  have c: "asCnf ?f = Some ([[1], [- 1]], \<lparr>v_all = [(pbVar ''a'', 1)], v_pb = [(pbVar ''a'', 1)]\<rparr>)"
    by code_simp
  have "solvable ?f"
    using c by (auto simp: solvable_def) (simp_all add: Var_def pbVar_def reserved_def unreserved_def inj_on_def)
  note s = bf_Solve_correct [OF this]
  have "map_option (\<lambda>r. r \<noteq> None) (bf_Solve ?f) = Some False" by code_simp
  then have "bf_Solve ?f = Some None" by auto
  moreover have "shallow (nnf ?f)" by (simp add: Var_def pbVar_def andSimp_def)
  ultimately show "\<forall>m. Eval m ?f \<noteq> Some True" using wlp_SomeD [OF s] by fastforce
qed

end
