(* ===== verification/Unique.thy ===== *)
theory Unique
  imports Formula
begin

text \<open>
  Model of the exactly-one constraints of \<open>bf/bf.go\<close>: the pairwise encoding \<open>uniqueSmall\<close> and the
  two-dimensional one of \<open>uniqueRec\<close>, which arranges the variables in lines and columns with a
  dummy variable for each. \<open>None\<close> is a panic.
\<close>

section \<open>Square roots\<close>

text \<open>
  \<open>int(math.Ceil(math.Sqrt(n)))\<close> and \<open>int(math.Sqrt(n) + 0.5)\<close>, with the exact root: the least
  \<open>k\<close> with \<open>n \<le> k * k\<close>, and the least \<open>k\<close> with \<open>n \<le> k * k + k\<close>.
\<close>

function ceilSqrtFrom :: "nat \<Rightarrow> nat \<Rightarrow> nat" where
  "ceilSqrtFrom k n = (if n \<le> k * k then k else ceilSqrtFrom (Suc k) n)"
  by pat_completeness auto
termination
proof (relation "measure (\<lambda>(k, n). n - k)")
  fix k n :: nat
  assume "\<not> n \<le> k * k"
  then have "k < n" using le_square [of k] by linarith
  then show "((Suc k, n), k, n) \<in> measure (\<lambda>(k, n). n - k)" by simp
qed simp

function roundSqrtFrom :: "nat \<Rightarrow> nat \<Rightarrow> nat" where
  "roundSqrtFrom k n = (if n \<le> k * k + k then k else roundSqrtFrom (Suc k) n)"
  by pat_completeness auto
termination
  by (relation "measure (\<lambda>(k, n). n - k)") auto

declare ceilSqrtFrom.simps [simp del] roundSqrtFrom.simps [simp del]

definition ceilSqrt :: "nat \<Rightarrow> nat" where
  "ceilSqrt n = ceilSqrtFrom 0 n"

definition roundSqrt :: "nat \<Rightarrow> nat" where
  "roundSqrt n = roundSqrtFrom 0 n"

lemma ceilSqrtFrom_spec:
  "(\<forall>m < k. m * m < n) \<Longrightarrow> n \<le> ceilSqrtFrom k n * ceilSqrtFrom k n \<and> (\<forall>m < ceilSqrtFrom k n. m * m < n)"
  by (induction k n rule: ceilSqrtFrom.induct) (simp add: ceilSqrtFrom.simps less_Suc_eq)

lemma roundSqrtFrom_spec:
  "(\<forall>m < k. m * m + m < n) \<Longrightarrow>
   n \<le> roundSqrtFrom k n * roundSqrtFrom k n + roundSqrtFrom k n \<and> (\<forall>m < roundSqrtFrom k n. m * m + m < n)"
  by (induction k n rule: roundSqrtFrom.induct) (simp add: roundSqrtFrom.simps less_Suc_eq)

lemma ceilSqrt_spec: "n \<le> ceilSqrt n * ceilSqrt n" "m < ceilSqrt n \<Longrightarrow> m * m < n"
  using ceilSqrtFrom_spec [of 0 n] by (simp_all add: ceilSqrt_def)

lemma roundSqrt_spec: "n \<le> roundSqrt n * roundSqrt n + roundSqrt n" "m < roundSqrt n \<Longrightarrow> m * m + m < n"
  using roundSqrtFrom_spec [of 0 n] by (simp_all add: roundSqrt_def)

lemma ceilSqrt_ceiling: "int (ceilSqrt n) = \<lceil>sqrt (real n)\<rceil>"
proof (rule sym, rule ceiling_unique)
  show "sqrt (real n) \<le> real_of_int (int (ceilSqrt n))"
    using ceilSqrt_spec(1) [of n] by (intro real_le_lsqrt) (simp_all add: power2_eq_square flip: of_nat_mult)
  show "real_of_int (int (ceilSqrt n)) - 1 < sqrt (real n)"
  proof (cases "ceilSqrt n")
    case (Suc m)
    then have "m * m < n" using ceilSqrt_spec(2) [of m n] by simp
    then have "real m < sqrt (real n)"
      by (intro real_less_rsqrt) (simp add: power2_eq_square flip: of_nat_mult)
    then show ?thesis by (simp add: Suc)
  qed (smt (verit) of_nat_0 of_int_0 real_sqrt_ge_zero of_nat_0_le_iff)
qed

lemma roundSqrt_floor: "int (roundSqrt n) = \<lfloor>sqrt (real n) + 1 / 2\<rfloor>"
proof (rule sym, rule floor_unique)
  let ?k = "roundSqrt n"
  have "real n < (real ?k + 1 / 2)\<^sup>2"
  proof -
    have "real n \<le> real (?k * ?k + ?k)" using roundSqrt_spec(1) [of n] by (simp only: of_nat_le_iff)
    then show ?thesis by (simp add: power2_eq_square field_simps)
  qed
  then have "sqrt (real n) < real ?k + 1 / 2" by (intro real_less_lsqrt) simp_all
  then show "sqrt (real n) + 1 / 2 < real_of_int (int ?k) + 1" by simp
  show "real_of_int (int ?k) \<le> sqrt (real n) + 1 / 2"
  proof (cases "?k")
    case (Suc m)
    then have "m * m + m < n" using roundSqrt_spec(2) [of m n] by simp
    then have "real (m * m + m) + 1 \<le> real n" by (simp flip: of_nat_Suc del: of_nat_add)
    then have "(real m + 1 / 2)\<^sup>2 \<le> real n" by (simp add: power2_eq_square field_simps)
    then have "real m + 1 / 2 \<le> sqrt (real n)" by (intro real_le_rsqrt)
    then show ?thesis by (simp add: Suc)
  qed simp
qed

text \<open>The grid is large enough, and both sides are shorter than the list.\<close>

lemma grid_fits: "n \<le> roundSqrt n * ceilSqrt n"
proof -
  let ?r = "roundSqrt n" and ?c = "ceilSqrt n"
  show ?thesis
  proof (cases "?c \<le> ?r")
    case True
    then show ?thesis using ceilSqrt_spec(1) [of n] by (meson le_trans mult_le_mono1)
  next
    case False
    then have "?r * ?r + ?r \<le> ?r * ?c"
      by (metis Suc_leI add.commute linorder_not_le mult_Suc_right mult_le_mono2)
    then show ?thesis using roundSqrt_spec(1) [of n] by linarith
  qed
qed

lemma sqrt_less: assumes "4 < n" shows "ceilSqrt n < n" "roundSqrt n < n"
proof -
  obtain m where m: "n = Suc m" "4 \<le> m" using assms by (cases n) auto
  have "4 * m \<le> m * m" using m by (intro mult_le_mono1)
  then have "n \<le> m * m" using m by linarith
  then show "ceilSqrt n < n" "roundSqrt n < n"
    using ceilSqrt_spec(2) [of m n] roundSqrt_spec(2) [of m n] m
    by (metis linorder_not_less not_less_eq trans_le_add1)+
qed

lemma sqrt_pos: "0 < n \<Longrightarrow> 0 < ceilSqrt n" "0 < n \<Longrightarrow> 0 < roundSqrt n"
  using ceilSqrt_spec(1) [of n] roundSqrt_spec(1) [of n] by (cases "ceilSqrt n"; cases "roundSqrt n"; simp)+

section \<open>The encodings\<close>

definition uniqueSmall :: "variable list \<Rightarrow> formula" where
  "uniqueSmall vars =
     FAnd (FOr (map FVar vars)
       # concat (map (\<lambda>i. map (\<lambda>j. FOr [FNot (FVar (vars ! i)), FNot (FVar (vars ! j))])
                    [i + 1..<length vars]) [0..<length vars - 1]))"

fun joinDash :: "string list \<Rightarrow> string" where
  "joinDash [] = ''''"
| "joinDash [s] = s"
| "joinDash (s # t # ss) = s @ ''-'' @ joinDash (t # ss)"

text \<open>The loop that puts variable \<open>i\<close> in its line and its column.\<close>

fun fillGrid :: "nat \<Rightarrow> nat \<Rightarrow> variable list \<Rightarrow> formula list list \<Rightarrow> formula list list
    \<Rightarrow> (formula list list \<times> formula list list) option" where
  "fillGrid nbCols i [] linesF colsF = Some (linesF, colsF)"
| "fillGrid nbCols i (v # vs) linesF colsF = do {
     l \<leftarrow> get linesF (i div nbCols);
     linesF \<leftarrow> put linesF (i div nbCols) (l @ [FVar v]);
     c \<leftarrow> get colsF (i mod nbCols);
     colsF \<leftarrow> put colsF (i mod nbCols) (c @ [FVar v]);
     fillGrid nbCols (Suc i) vs linesF colsF }"

definition gridVar :: "string \<Rightarrow> string \<Rightarrow> nat \<Rightarrow> variable" where
  "gridVar kind fullName i = dummyVar (kind @ ''-'' @ itoa i @ ''-'' @ fullName)"

function uniqueRec :: "variable list \<Rightarrow> formula option" where
  "uniqueRec vars =
     (if length vars \<le> 4 then Some (uniqueSmall vars)
      else
        let nbLines = roundSqrt (length vars); nbCols = ceilSqrt (length vars);
            fullName = joinDash (map vname vars);
            lines = map (gridVar ''line'' fullName) [0..<nbLines];
            cols = map (gridVar ''col'' fullName) [0..<nbCols]
        in do {
          (linesF, colsF) \<leftarrow> fillGrid nbCols 0 vars (replicate nbLines []) (replicate nbCols []);
          ul \<leftarrow> uniqueRec lines;
          uc \<leftarrow> uniqueRec cols;
          Some (FAnd (map2 (\<lambda>v fs. bf_Eq (FVar v) (FOr fs)) lines linesF
                    @ map2 (\<lambda>v fs. bf_Eq (FVar v) (FOr fs)) cols colsF @ [ul, uc])) })"
  by pat_completeness auto
termination
  by (relation "measure length") (simp_all add: sqrt_less)

declare uniqueRec.simps [simp del]

definition bf_Unique :: "string list \<Rightarrow> formula option" where
  "bf_Unique vs = uniqueRec (map pbVar vs)"

section \<open>Correctness\<close>

lemma filter_one:
  "length (filter P xs) = 1 \<longleftrightarrow>
     (\<exists>x \<in> set xs. P x) \<and> (\<forall>i j. i < j \<longrightarrow> j < length xs \<longrightarrow> \<not> (P (xs ! i) \<and> P (xs ! j)))"
proof (induction xs)
  case (Cons x xs)
  have none: "length (filter P xs) = 0 \<longleftrightarrow> (\<forall>j < length xs. \<not> P (xs ! j))"
    by (auto simp: filter_empty_conv all_set_conv_all_nth)
  have split: "(\<forall>i j. i < j \<longrightarrow> j < length (x # xs) \<longrightarrow> \<not> (P ((x # xs) ! i) \<and> P ((x # xs) ! j)))
    \<longleftrightarrow> (\<forall>j < length xs. \<not> (P x \<and> P (xs ! j))) \<and> (\<forall>i j. i < j \<longrightarrow> j < length xs \<longrightarrow> \<not> (P (xs ! i) \<and> P (xs ! j)))"
    (is "?L = ?R")
  proof
    assume l: ?L
    have "\<not> (P x \<and> P (xs ! j))" if "j < length xs" for j
      using l [rule_format, of 0 "Suc j"] that by simp
    moreover have "\<not> (P (xs ! i) \<and> P (xs ! j))" if "i < j" "j < length xs" for i j
      using l [rule_format, of "Suc i" "Suc j"] that by simp
    ultimately show ?R by blast
  next
    assume r: ?R
    show ?L
    proof (intro allI impI)
      fix i j assume "i < j" "j < length (x # xs)"
      then show "\<not> (P ((x # xs) ! i) \<and> P ((x # xs) ! j))"
        using r by (cases i; cases j) auto
    qed
  qed
  show ?case
    unfolding split using none Cons.IH by (cases "P x") (auto simp: in_set_conv_nth)
qed simp

lemma uniqueSmall_holds: "holds a (uniqueSmall vars) \<longleftrightarrow> length (filter a vars) = 1"
proof -
  have "holds a (uniqueSmall vars) \<longleftrightarrow> (\<exists>v \<in> set vars. a v)
      \<and> (\<forall>i < length vars - 1. \<forall>j. i < j \<and> j < length vars \<longrightarrow> \<not> (a (vars ! i) \<and> a (vars ! j)))"
    by (auto simp: uniqueSmall_def Suc_le_eq)
  moreover have "i < length vars - 1" if "i < j" "j < length vars" for i j
    using that by linarith
  ultimately show ?thesis unfolding filter_one by blast
qed

text \<open>What \<open>fillGrid\<close> leaves: line \<open>l\<close> holds the variables of index \<open>i\<close> with \<open>i div nbCols = l\<close>.\<close>

definition grid_inv :: "(nat \<Rightarrow> nat) \<Rightarrow> variable list \<Rightarrow> nat \<Rightarrow> formula list list \<Rightarrow> bool" where
  "grid_inv f vars k F \<longleftrightarrow> (\<forall>l < length F. set (F ! l) = FVar ` {vars ! i |i. i < k \<and> f i = l})"

lemma grid_inv_step:
  assumes "grid_inv f vars k F" and "f k < length F"
  shows "grid_inv f vars (Suc k) (F[f k := F ! f k @ [FVar (vars ! k)]])"
  using assms by (auto simp: grid_inv_def nth_list_update less_Suc_eq)

lemma fillGrid_spec:
  assumes "0 < nbCols" and "length vars \<le> nbLines * nbCols"
  shows "k \<le> length vars \<Longrightarrow> length lF = nbLines \<Longrightarrow> length cF = nbCols \<Longrightarrow>
    grid_inv (\<lambda>i. i div nbCols) vars k lF \<Longrightarrow> grid_inv (\<lambda>i. i mod nbCols) vars k cF \<Longrightarrow>
    wp (fillGrid nbCols k (drop k vars) lF cF) (\<lambda>(lF, cF). length lF = nbLines \<and> length cF = nbCols
      \<and> grid_inv (\<lambda>i. i div nbCols) vars (length vars) lF \<and> grid_inv (\<lambda>i. i mod nbCols) vars (length vars) cF)"
proof (induction "length vars - k" arbitrary: k lF cF)
  case 0
  then show ?case by simp
next
  case (Suc n)
  have k: "k < length vars" using Suc.hyps(2) by simp
  have b: "k div nbCols < length lF" "k mod nbCols < length cF"
    using k assms Suc.prems by (simp_all add: less_mult_imp_div_less)
  have "wp (fillGrid nbCols (Suc k) (drop (Suc k) vars)
     (lF[k div nbCols := lF ! (k div nbCols) @ [FVar (vars ! k)]])
     (cF[k mod nbCols := cF ! (k mod nbCols) @ [FVar (vars ! k)]]))
     (\<lambda>(lF, cF). length lF = nbLines \<and> length cF = nbCols
      \<and> grid_inv (\<lambda>i. i div nbCols) vars (length vars) lF \<and> grid_inv (\<lambda>i. i mod nbCols) vars (length vars) cF)"
    using Suc.hyps(2) k Suc.prems b
      grid_inv_step [OF Suc.prems(4) b(1)] grid_inv_step [OF Suc.prems(5) b(2)]
    by (intro Suc.hyps(1)) simp_all
  then show ?case
    using b drop_nth [OF k] by simp
qed

lemma grid_lines_hold:
  assumes "grid_inv f vars (length vars) F" and "length vs = length F"
  shows "(\<forall>g \<in> set (map2 (\<lambda>v fs. bf_Eq (FVar v) (FOr fs)) vs F). holds a g)
    \<longleftrightarrow> (\<forall>l < length F. a (vs ! l) = (\<exists>i < length vars. f i = l \<and> a (vars ! i)))"
proof -
  have "holds a (bf_Eq (FVar (vs ! l)) (FOr (F ! l))) \<longleftrightarrow> a (vs ! l) = (\<exists>i < length vars. f i = l \<and> a (vars ! i))"
    if "l < length F" for l
    using that assms(1) by (auto simp: bf_Eq_def grid_inv_def)
  then show ?thesis
    using assms(2) by (simp add: all_set_conv_all_nth)
qed

text \<open>One true line and one true column leave room for exactly one true cell.\<close>

lemma grid_one:
  fixes lines cols :: "variable list"
  assumes "length (filter a lines) = 1" and "length (filter a cols) = 1"
    and n: "n \<le> length lines * length cols" and c: "0 < length cols"
    and l: "\<forall>l < length lines. a (lines ! l) = (\<exists>i < n. i div length cols = l \<and> b i)"
    and k: "\<forall>k < length cols. a (cols ! k) = (\<exists>i < n. i mod length cols = k \<and> b i)"
  shows "(\<exists>i < n. b i) \<and> (\<forall>i j. i < j \<longrightarrow> j < n \<longrightarrow> \<not> (b i \<and> b j))"
proof
  obtain j where "j < length lines" "a (lines ! j)"
    using assms(1) unfolding filter_one by (metis in_set_conv_nth)
  then show "\<exists>i < n. b i" using l by auto
  show "\<forall>i j. i < j \<longrightarrow> j < n \<longrightarrow> \<not> (b i \<and> b j)"
  proof (intro allI impI notI)
    fix i j assume ij: "i < j" "j < n" "b i \<and> b j"
    have uniq: "p = q" if "length (filter a xs) = 1" "p < length xs" "q < length xs" "a (xs ! p)" "a (xs ! q)"
      for p q and xs :: "variable list"
      using that unfolding filter_one by (metis linorder_neqE_nat)
    have al: "m div length cols < length lines \<and> a (lines ! (m div length cols))" if "m < n" "b m" for m
    proof -
      have "m div length cols < length lines" using that n c by (simp add: less_mult_imp_div_less)
      then show ?thesis using l [rule_format, of "m div length cols"] that by blast
    qed
    have ac: "m mod length cols < length cols \<and> a (cols ! (m mod length cols))" if "m < n" "b m" for m
      using k [rule_format, of "m mod length cols"] that c mod_less_divisor [OF c, of m] by blast
    have "i div length cols = j div length cols"
      using ij al [of i] al [of j] by (intro uniq [OF assms(1)]) simp_all
    moreover have "i mod length cols = j mod length cols"
      using ij ac [of i] ac [of j] by (intro uniq [OF assms(2)]) simp_all
    ultimately have "i = j" by (metis div_mult_mod_eq)
    then show False using ij by simp
  qed
qed

lemma uniqueRec_main:
  "wp (uniqueRec vars) (\<lambda>f. \<forall>a. (holds a f \<longrightarrow> length (filter a vars) = 1)
     \<and> (length vars \<le> 4 \<longrightarrow> length (filter a vars) = 1 \<longrightarrow> holds a f))"
proof (induction vars rule: uniqueRec.induct)
  case (1 vars)
  show ?case
  proof (cases "length vars \<le> 4")
    case True
    then show ?thesis by (subst uniqueRec.simps) (simp add: uniqueSmall_holds)
  next
    case False
    define r c s where "r = roundSqrt (length vars)" and "c = ceilSqrt (length vars)"
      and "s = joinDash (map vname vars)"
    define lines cols where "lines = map (gridVar ''line'' s) [0..<r]" and "cols = map (gridVar ''col'' s) [0..<c]"
    have c0: "0 < c" and fits: "length vars \<le> r * c"
      using False grid_fits sqrt_pos(1) [of "length vars"] unfolding r_def c_def by (cases vars; simp)+
    have len: "length lines = r" "length cols = c" by (simp_all add: lines_def cols_def)
    obtain lF cF where g: "fillGrid c 0 vars (replicate r []) (replicate c []) = Some (lF, cF)"
      and gl: "length lF = r" "length cF = c"
      and gi: "grid_inv (\<lambda>i. i div c) vars (length vars) lF" "grid_inv (\<lambda>i. i mod c) vars (length vars) cF"
      using fillGrid_spec [OF c0 fits, of 0 "replicate r []" "replicate c []"]
      by (auto simp: wp_iff grid_inv_def)
    note ih = "1.IH" [OF False r_def c_def s_def lines_def [folded r_def] cols_def [folded c_def] g refl]
    obtain ul where ul: "uniqueRec lines = Some ul" "\<And>a. holds a ul \<Longrightarrow> length (filter a lines) = 1"
      using ih(1) by (auto simp: wp_iff)
    obtain uc where uc: "uniqueRec cols = Some uc" "\<And>a. holds a uc \<Longrightarrow> length (filter a cols) = 1"
      using ih(2) [OF ul(1)] by (auto simp: wp_iff)
    define ls cs where "ls = map2 (\<lambda>v fs. bf_Eq (FVar v) (FOr fs)) lines lF"
      and "cs = map2 (\<lambda>v fs. bf_Eq (FVar v) (FOr fs)) cols cF"
    have u: "uniqueRec vars = Some (FAnd (ls @ cs @ [ul, uc]))"
      using False g ul(1) uc(1)
      by (subst uniqueRec.simps)
        (simp add: Let_def r_def [symmetric] c_def [symmetric] s_def [symmetric] lines_def [symmetric]
          cols_def [symmetric] ls_def [symmetric] cs_def [symmetric])
    have "length (filter a vars) = 1" if h: "holds a (FAnd (ls @ cs @ [ul, uc]))" for a
    proof -
      have "\<forall>l < r. a (lines ! l) = (\<exists>i < length vars. i div c = l \<and> a (vars ! i))"
        "\<forall>k < c. a (cols ! k) = (\<exists>i < length vars. i mod c = k \<and> a (vars ! i))"
        using h grid_lines_hold [OF gi(1), of lines a] grid_lines_hold [OF gi(2), of cols a] gl len
        by (auto simp: ls_def cs_def)
      moreover have "length (filter a lines) = 1" "length (filter a cols) = 1" using h ul uc by auto
      ultimately have "(\<exists>i < length vars. a (vars ! i))
          \<and> (\<forall>i j. i < j \<longrightarrow> j < length vars \<longrightarrow> \<not> (a (vars ! i) \<and> a (vars ! j)))"
        using grid_one [of a lines cols "length vars" "\<lambda>i. a (vars ! i)"] fits c0 len by simp
      then show ?thesis unfolding filter_one by (metis nth_mem)
    qed
    then show ?thesis using u False by simp
  qed
qed

text \<open>
  C22. The exactly-one encoding never panics, for any number of variables: the square-root
  arithmetic of the grid keeps every index in range and makes the recursion terminate. Every
  assignment that satisfies the encoding makes exactly one of the variables true; up to four
  variables the converse holds as well.
\<close>

theorem uniqueRec_sound:
  "wp (uniqueRec vars) (\<lambda>f. \<forall>a. (holds a f \<longrightarrow> length (filter a vars) = 1)
     \<and> (length vars \<le> 4 \<longrightarrow> length (filter a vars) = 1 \<longrightarrow> holds a f))"
  by (rule uniqueRec_main)

theorem uniqueRec_sound_witness:
  "wp (uniqueRec (map pbVar [''a'', ''b'', ''c'', ''d'', ''e''])) (\<lambda>f.
     \<forall>a. (holds a f \<longrightarrow> length (filter a (map pbVar [''a'', ''b'', ''c'', ''d'', ''e''])) = 1)
     \<and> (length (map pbVar [''a'', ''b'', ''c'', ''d'', ''e'']) \<le> 4 \<longrightarrow>
        length (filter a (map pbVar [''a'', ''b'', ''c'', ''d'', ''e''])) = 1 \<longrightarrow> holds a f))"
  by (rule uniqueRec_sound)

end
