(* ===== verification/BfParser.thy ===== *)
theory BfParser
  imports Unique
begin

text \<open>
  Model of the parser of \<open>bf/parser.go\<close>, a recursive descent over the tokens of Go's scanner. The
  state of the parser is the list of tokens still to come, the first one being \<open>p.token\<close>;
  \<open>p.eof\<close> is the empty list, for which \<open>TokenText\<close> is the empty string. The functions take fuel;
  seven units per token are enough, because at most seven calls go by without consuming one.
\<close>

section \<open>The parser\<close>

datatype parse_error =
    UnexpectedToken string
  | ExpectedExpression
  | UnexpectedEOF
  | InvalidToken string
  | ExpectedParenEOF
  | ExpectedParen string
  | ExpectedIdentEOF
  | ExpectedIdent string
  | ExpectedCommaEOF
  | ExpectedComma string
  | ExpectedEOF string
  | Panic
  | OutOfFuel

type_synonym tokens = "string list"
type_synonym parsed = "parse_error + formula \<times> tokens"

definition tok :: "tokens \<Rightarrow> string" where
  "tok ts = (case ts of [] \<Rightarrow> '''' | t # _ \<Rightarrow> t)"

definition isOperator :: "string \<Rightarrow> bool" where
  "isOperator t \<longleftrightarrow> t = ''='' \<or> t = ''->'' \<or> t = ''|'' \<or> t = ''&'' \<or> t = '';''"

text \<open>\<open>token.Lookup\<close> answers \<open>IDENT\<close> for every string but the keywords of Go.\<close>

definition goKeywords :: "string list" where
  "goKeywords = [''break'', ''case'', ''chan'', ''const'', ''continue'', ''default'', ''defer'',
     ''else'', ''fallthrough'', ''for'', ''func'', ''go'', ''goto'', ''if'', ''import'',
     ''interface'', ''map'', ''package'', ''range'', ''return'', ''select'', ''struct'', ''switch'',
     ''type'', ''var'']"

text \<open>The loop over the names of a \<open>{a, b, c}\<close> constraint; the result starts at the closing brace.\<close>

function parseVars :: "string list \<Rightarrow> tokens \<Rightarrow> parse_error + string list \<times> tokens" where
  "parseVars vars ts =
     (if tok ts = ''}'' then Inr (vars, ts)
      else
        let ts1 = tl ts in
        if ts1 = [] then Inl ExpectedIdentEOF
        else if tok ts1 \<in> set goKeywords then Inl (ExpectedIdent (tok ts1))
        else
          let ts2 = tl ts1 in
          if ts2 = [] then Inl ExpectedCommaEOF
          else if tok ts2 \<noteq> ''}'' \<and> tok ts2 \<noteq> '','' then Inl (ExpectedComma (tok ts2))
          else parseVars (vars @ [tok ts1]) ts2)"
  by pat_completeness auto
termination
  by (relation "measure (\<lambda>(vars, ts). length ts)") (auto simp: Nitpick.size_list_simp(2))

declare parseVars.simps [simp del]

function (sequential) parseClause :: "nat \<Rightarrow> tokens \<Rightarrow> parsed"
  and parseEquiv :: "nat \<Rightarrow> tokens \<Rightarrow> parsed"
  and parseImplies :: "nat \<Rightarrow> tokens \<Rightarrow> parsed"
  and parseOr :: "nat \<Rightarrow> tokens \<Rightarrow> parsed"
  and parseAnd :: "nat \<Rightarrow> tokens \<Rightarrow> parsed"
  and parseNot :: "nat \<Rightarrow> tokens \<Rightarrow> parsed"
  and parseBasic :: "nat \<Rightarrow> tokens \<Rightarrow> parsed" where
  "parseClause 0 ts = Inl OutOfFuel"
| "parseClause (Suc n) ts =
     (if isOperator (tok ts) then Inl (UnexpectedToken (tok ts))
      else case parseEquiv n ts of Inl e \<Rightarrow> Inl e
      | Inr (f, ts1) \<Rightarrow>
          if ts1 = [] then Inr (f, ts1)
          else if tok ts1 = '';'' then
            if tl ts1 = [] then Inr (f, tl ts1)
            else (case parseClause n (tl ts1) of Inl e \<Rightarrow> Inl e
                  | Inr (f2, ts2) \<Rightarrow> Inr (FAnd [f, f2], ts2))
          else Inr (f, ts1))"
| "parseEquiv 0 ts = Inl OutOfFuel"
| "parseEquiv (Suc n) ts =
     (if ts = [] then Inl ExpectedExpression
      else if isOperator (tok ts) then Inl (UnexpectedToken (tok ts))
      else case parseImplies n ts of Inl e \<Rightarrow> Inl e
      | Inr (f, ts1) \<Rightarrow>
          if ts1 = [] then Inr (f, ts1)
          else if tok ts1 = ''='' then
            if tl ts1 = [] then Inl UnexpectedEOF
            else (case parseEquiv n (tl ts1) of Inl e \<Rightarrow> Inl e
                  | Inr (f2, ts2) \<Rightarrow> Inr (bf_Eq f f2, ts2))
          else Inr (f, ts1))"
| "parseImplies 0 ts = Inl OutOfFuel"
| "parseImplies (Suc n) ts =
     (case parseOr n ts of Inl e \<Rightarrow> Inl e
      | Inr (f, ts1) \<Rightarrow>
          if ts1 = [] then Inr (f, ts1)
          else if tok ts1 = ''-'' then
            if tl ts1 = [] then Inl UnexpectedEOF
            else if tok (tl ts1) \<noteq> ''>'' then Inl (InvalidToken (''-'' @ tok (tl ts1)))
            else if tl (tl ts1) = [] then Inl UnexpectedEOF
            else (case parseImplies n (tl (tl ts1)) of Inl e \<Rightarrow> Inl e
                  | Inr (f2, ts2) \<Rightarrow> Inr (Implies f f2, ts2))
          else Inr (f, ts1))"
| "parseOr 0 ts = Inl OutOfFuel"
| "parseOr (Suc n) ts =
     (case parseAnd n ts of Inl e \<Rightarrow> Inl e
      | Inr (f, ts1) \<Rightarrow>
          if ts1 = [] then Inr (f, ts1)
          else if tok ts1 = ''|'' then
            if tl ts1 = [] then Inl UnexpectedEOF
            else (case parseOr n (tl ts1) of Inl e \<Rightarrow> Inl e
                  | Inr (f2, ts2) \<Rightarrow> Inr (FOr [f, f2], ts2))
          else Inr (f, ts1))"
| "parseAnd 0 ts = Inl OutOfFuel"
| "parseAnd (Suc n) ts =
     (case parseNot n ts of Inl e \<Rightarrow> Inl e
      | Inr (f, ts1) \<Rightarrow>
          if ts1 = [] then Inr (f, ts1)
          else if tok ts1 = ''&'' then
            if tl ts1 = [] then Inl UnexpectedEOF
            else (case parseAnd n (tl ts1) of Inl e \<Rightarrow> Inl e
                  | Inr (f2, ts2) \<Rightarrow> Inr (FAnd [f, f2], ts2))
          else Inr (f, ts1))"
| "parseNot 0 ts = Inl OutOfFuel"
| "parseNot (Suc n) ts =
     (if isOperator (tok ts) then Inl (UnexpectedToken (tok ts))
      else if tok ts = ''^'' then
        if tl ts = [] then Inl UnexpectedEOF
        else (case parseNot n (tl ts) of Inl e \<Rightarrow> Inl e | Inr (f, ts1) \<Rightarrow> Inr (FNot f, ts1))
      else parseBasic n ts)"
| "parseBasic 0 ts = Inl OutOfFuel"
| "parseBasic (Suc n) ts =
     (if isOperator (tok ts) \<or> tok ts = '')'' then Inl (UnexpectedToken (tok ts))
      else if tok ts = ''('' then
        (case parseEquiv n (tl ts) of Inl e \<Rightarrow> Inl e
         | Inr (f, ts1) \<Rightarrow>
             if ts1 = [] then Inl ExpectedParenEOF
             else if tok ts1 \<noteq> '')'' then Inl (ExpectedParen (tok ts1))
             else Inr (f, tl ts1))
      else if tok ts = ''{'' then
        (case parseVars [] ts of Inl e \<Rightarrow> Inl e
         | Inr (vars, ts1) \<Rightarrow>
             (case bf_Unique vars of None \<Rightarrow> Inl Panic | Some f \<Rightarrow> Inr (f, tl ts1)))
      else Inr (Var (tok ts), tl ts))"
  by pat_completeness auto
termination
  by (relation "measure (case_sum (case_sum fst (case_sum fst fst))
      (case_sum (case_sum fst fst) (case_sum fst fst)))") simp_all

definition Parse :: "tokens \<Rightarrow> parse_error + formula" where
  "Parse ts = (case parseClause (7 * length ts + 7) ts of Inl e \<Rightarrow> Inl e
     | Inr (f, ts1) \<Rightarrow> if ts1 \<noteq> [] then Inl (ExpectedEOF (tok ts1)) else Inr f)"

section \<open>Termination\<close>

lemma tl_shorter: "ts \<noteq> [] \<Longrightarrow> length (tl ts) < length ts"
  by (cases ts) auto

lemma tok_nonempty: "tok ts \<noteq> '''' \<Longrightarrow> ts \<noteq> []"
  by (auto simp: tok_def)

text \<open>The result of a call that had enough fuel: no panic, and no more tokens than before.\<close>

definition fine :: "tokens \<Rightarrow> parsed \<Rightarrow> bool" where
  "fine ts r \<longleftrightarrow> (case r of Inl e \<Rightarrow> e \<noteq> OutOfFuel \<and> e \<noteq> Panic | Inr (f, ts1) \<Rightarrow> length ts1 \<le> length ts)"

lemma parseVars_fine:
  "case parseVars vars ts of Inl e \<Rightarrow> e \<noteq> OutOfFuel \<and> e \<noteq> Panic | Inr (vs, ts1) \<Rightarrow> length ts1 \<le> length ts"
proof (induction vars ts rule: parseVars.induct)
  case (1 vars ts)
  have "length (tl (tl ts)) \<le> length ts" by (cases ts) auto
  then show ?case
    using 1 by (subst parseVars.simps) (fastforce simp: Let_def split: sum.splits prod.splits)
qed

lemma bf_Unique_Some: "\<exists>f. bf_Unique vars = Some f"
  using uniqueRec_main [of "map pbVar vars"] by (auto simp: wp_iff bf_Unique_def)

text \<open>The seven functions by their level, from \<open>parseBasic\<close> at 0 to \<open>parseClause\<close> at 6.\<close>

definition parseAt :: "nat \<Rightarrow> nat \<Rightarrow> tokens \<Rightarrow> parsed" where
  "parseAt k = (if k = 0 then parseBasic else if k = 1 then parseNot else if k = 2 then parseAnd
     else if k = 3 then parseOr else if k = 4 then parseImplies else if k = 5 then parseEquiv
     else parseClause)"

lemma parseAt_simps [simp]:
  "parseAt 0 = parseBasic" "parseAt 1 = parseNot" "parseAt (Suc 0) = parseNot" "parseAt 2 = parseAnd"
  "parseAt 3 = parseOr" "parseAt 4 = parseImplies" "parseAt 5 = parseEquiv" "parseAt 6 = parseClause"
  by (simp_all add: parseAt_def)

text \<open>How a call at one level uses the results of the calls at lower levels.\<close>

lemma fine_simps [simp]:
  "fine ts (Inl e) \<longleftrightarrow> e \<noteq> OutOfFuel \<and> e \<noteq> Panic" "fine ts (Inr (f, ts1)) \<longleftrightarrow> length ts1 \<le> length ts"
  by (simp_all add: fine_def)

lemma fine_seq:
  assumes "fine ts r" and "\<And>f ts1. length ts1 \<le> length ts \<Longrightarrow> fine ts (g f ts1)"
  shows "fine ts (case r of Inl e \<Rightarrow> Inl e | Inr (f, ts1) \<Rightarrow> g f ts1)"
proof (cases r)
  case (Inl e)
  then show ?thesis using assms(1) by simp
next
  case (Inr p)
  then show ?thesis using assms by (cases p) simp
qed

lemma fine_mono: "fine ts r \<Longrightarrow> length ts \<le> length ts' \<Longrightarrow> fine ts' r"
  by (auto simp: fine_def split: sum.splits)

lemma fine_binary:
  assumes "fine ts r" and "\<And>ts1. length ts1 < length ts \<Longrightarrow> fine ts1 (again ts1)"
    and "e1 \<noteq> OutOfFuel" "e1 \<noteq> Panic"
  shows "fine ts (case r of Inl e \<Rightarrow> Inl e
      | Inr (f, ts1) \<Rightarrow>
          if ts1 = [] then Inr (f, ts1)
          else if tok ts1 = opr then
            if tl ts1 = [] then Inl e1
            else (case again (tl ts1) of Inl e \<Rightarrow> Inl e | Inr (f2, ts2) \<Rightarrow> Inr (mk f f2, ts2))
          else Inr (f, ts1))"
proof (rule fine_seq [OF assms(1)])
  fix f :: formula and ts1 :: tokens
  assume l: "length ts1 \<le> length ts"
  have "fine ts (again (tl ts1))" if "ts1 \<noteq> []"
    using assms(2) [of "tl ts1"] tl_shorter [OF that] l by (auto intro: fine_mono)
  then show "fine ts (if ts1 = [] then Inr (f, ts1)
          else if tok ts1 = opr then
            if tl ts1 = [] then Inl e1
            else (case again (tl ts1) of Inl e \<Rightarrow> Inl e | Inr (f2, ts2) \<Rightarrow> Inr (mk f f2, ts2))
          else Inr (f, ts1))"
    using l assms(3,4) by (auto intro!: fine_seq)
qed

lemma fuel_enough:
  "k \<le> 6 \<Longrightarrow> 7 * length ts + k < n \<Longrightarrow> fine ts (parseAt k n ts)"
proof (induction n arbitrary: k ts)
  case (Suc n)
  have same: "fine ts (parseAt (k - 1) n ts)" if "0 < k" using Suc that by (intro Suc.IH) auto
  have less: "fine ts1 (parseAt j n ts1)" if "length ts1 < length ts" "j \<le> 6" for ts1 j
    using Suc.prems that by (intro Suc.IH) auto
  have less': "fine ts (parseAt j n (tl ts))" if "ts \<noteq> []" "j \<le> 6" for j
    using less [OF tl_shorter [OF that(1)] that(2)] by (rule fine_mono) simp
  consider "k = 0" | "k = 1" | "k = 2" | "k = 3" | "k = 4" | "k = 5" | "k = 6"
    using Suc.prems(1) by linarith
  then show ?case
  proof cases
    case 1
    have "fine ts (case parseVars [] ts of Inl e \<Rightarrow> Inl e
         | Inr (vars, ts1) \<Rightarrow> (case bf_Unique vars of None \<Rightarrow> Inl Panic | Some f \<Rightarrow> Inr (f, tl ts1)))"
      proof (cases "parseVars [] ts")
      case (Inl e)
      then show ?thesis using parseVars_fine [where vars = "[]" and ts = ts] by simp
    next
      case (Inr p)
      obtain vs ts1 where p: "p = (vs, ts1)" by (cases p)
      obtain f where "bf_Unique vs = Some f" using bf_Unique_Some by blast
      then show ?thesis using parseVars_fine [where vars = "[]" and ts = ts] Inr p by simp
    qed
    moreover have "fine ts (case parseEquiv n (tl ts) of Inl e \<Rightarrow> Inl e
         | Inr (f, ts1) \<Rightarrow>
             if ts1 = [] then Inl ExpectedParenEOF
             else if tok ts1 \<noteq> '')'' then Inl (ExpectedParen (tok ts1))
             else Inr (f, tl ts1))" if "tok ts = ''(''"
      using less' [of 5] tok_nonempty [of ts] that by (intro fine_seq) auto
    ultimately show ?thesis using 1 by simp
  next
    case 2
    have "fine ts (case parseNot n (tl ts) of Inl e \<Rightarrow> Inl e | Inr (f, ts1) \<Rightarrow> Inr (FNot f, ts1))"
      if "tok ts = ''^''"
      using less' [of 1] tok_nonempty [of ts] that by (intro fine_seq) auto
    then show ?thesis using 2 same by simp
  next
    case 3
    show ?thesis
      unfolding 3 parseAt_simps parseAnd.simps
      by (rule fine_binary) (use same less [of _ 2] 3 in auto)
  next
    case 4
    show ?thesis
      unfolding 4 parseAt_simps parseOr.simps
      by (rule fine_binary) (use same less [of _ 3] 4 in auto)
  next
    case 5
    have "fine ts (parseOr n ts)" using same 5 by simp
    moreover have "fine ts (parseImplies n (tl (tl ts1)))" if "length ts1 \<le> length ts" "ts1 \<noteq> []" for ts1
    proof -
      have "length (tl (tl ts1)) < length ts" using that by (cases ts1) auto
      from fine_mono [OF less [OF this, of 4]] this show ?thesis by simp
    qed
    ultimately show ?thesis
      unfolding 5 parseAt_simps parseImplies.simps by (intro fine_seq) (auto intro!: fine_seq)
  next
    case 6
    have "fine ts (parseImplies n ts)" using same 6 by simp
    then have "fine ts (case parseImplies n ts of Inl e \<Rightarrow> Inl e
      | Inr (f, ts1) \<Rightarrow>
          if ts1 = [] then Inr (f, ts1)
          else if tok ts1 = ''='' then
            if tl ts1 = [] then Inl UnexpectedEOF
            else (case parseEquiv n (tl ts1) of Inl e \<Rightarrow> Inl e
                  | Inr (f2, ts2) \<Rightarrow> Inr (bf_Eq f f2, ts2))
          else Inr (f, ts1))"
      by (rule fine_binary) (use less [of _ 5] in auto)
    then show ?thesis unfolding 6 by simp
  next
    case 7
    have "fine ts (parseEquiv n ts)" using same 7 by simp
    moreover have "fine ts (parseClause n (tl ts1))" if "length ts1 \<le> length ts" "ts1 \<noteq> []" for ts1
    proof -
      have "length (tl ts1) < length ts" using that by (cases ts1) auto
      from fine_mono [OF less [OF this, of 6]] this show ?thesis by simp
    qed
    ultimately show ?thesis
      unfolding 7 parseAt_simps parseClause.simps by (auto intro!: fine_seq)
  qed
qed simp

text \<open>
  C26. The parser ends on every list of tokens, with a formula or a syntax error: the fuel \<open>Parse\<close>
  starts with never runs out, and building an exactly-one constraint never panics.
\<close>

theorem Parse_terminates:
  "Parse ts \<noteq> Inl OutOfFuel \<and> Parse ts \<noteq> Inl Panic"
  using fuel_enough [of 6 ts "7 * length ts + 7"]
  by (auto simp: Parse_def fine_def split: sum.splits if_splits)

section \<open>Printing and parsing\<close>

text \<open>Expressions of the language, the formulas they denote, and their tokens.\<close>

datatype expr =
    EVar string
  | EUnique "string list"
  | ENot expr
  | EAnd expr expr
  | EOr expr expr
  | EImplies expr expr
  | EEq expr expr

fun denote :: "expr \<Rightarrow> formula" where
  "denote (EVar s) = Var s"
| "denote (EUnique ss) = the (bf_Unique ss)"
| "denote (ENot e) = FNot (denote e)"
| "denote (EAnd e1 e2) = FAnd [denote e1, denote e2]"
| "denote (EOr e1 e2) = FOr [denote e1, denote e2]"
| "denote (EImplies e1 e2) = Implies (denote e1) (denote e2)"
| "denote (EEq e1 e2) = bf_Eq (denote e1) (denote e2)"

fun commas :: "string list \<Rightarrow> tokens" where
  "commas [] = []"
| "commas [s] = [s]"
| "commas (s # t # ss) = s # '','' # commas (t # ss)"

fun prec :: "expr \<Rightarrow> nat" where
  "prec (EVar s) = 0" | "prec (EUnique ss) = 0" | "prec (ENot e) = 1" | "prec (EAnd e1 e2) = 2"
| "prec (EOr e1 e2) = 3" | "prec (EImplies e1 e2) = 4" | "prec (EEq e1 e2) = 5"

text \<open>\<open>paren k e ts\<close> adds the parentheses that level \<open>k\<close> asks for; both branches of an operator
  associate to the right.\<close>

definition paren :: "nat \<Rightarrow> expr \<Rightarrow> tokens \<Rightarrow> tokens" where
  "paren k e ts = (if prec e \<le> k then ts else ''('' # ts @ ['')''])"

fun show_expr :: "expr \<Rightarrow> tokens" where
  "show_expr (EVar s) = [s]"
| "show_expr (EUnique ss) = ''{'' # commas ss @ [''}'']"
| "show_expr (ENot e) = ''^'' # paren 1 e (show_expr e)"
| "show_expr (EAnd e1 e2) = paren 1 e1 (show_expr e1) @ ''&'' # paren 2 e2 (show_expr e2)"
| "show_expr (EOr e1 e2) = paren 2 e1 (show_expr e1) @ ''|'' # paren 3 e2 (show_expr e2)"
| "show_expr (EImplies e1 e2) = paren 3 e1 (show_expr e1) @ ''-'' # ''>'' # paren 4 e2 (show_expr e2)"
| "show_expr (EEq e1 e2) = paren 4 e1 (show_expr e1) @ ''='' # paren 5 e2 (show_expr e2)"

text \<open>Names that are not tokens of the language; in braces, names that are no Go keyword.\<close>

definition plain_name :: "string \<Rightarrow> bool" where
  "plain_name s \<longleftrightarrow> \<not> isOperator s \<and> s \<notin> {'')'', ''('', ''{'', ''^''}"

fun well_named :: "expr \<Rightarrow> bool" where
  "well_named (EVar s) = plain_name s"
| "well_named (EUnique ss) = (ss \<noteq> [] \<and> (\<forall>s \<in> set ss. s \<notin> set goKeywords))"
| "well_named (ENot e) = well_named e"
| "well_named (EAnd e1 e2) = (well_named e1 \<and> well_named e2)"
| "well_named (EOr e1 e2) = (well_named e1 \<and> well_named e2)"
| "well_named (EImplies e1 e2) = (well_named e1 \<and> well_named e2)"
| "well_named (EEq e1 e2) = (well_named e1 \<and> well_named e2)"

text \<open>Tokens that cannot follow an expression of level \<open>k\<close>.\<close>

definition stops :: "nat \<Rightarrow> tokens \<Rightarrow> bool" where
  "stops k ts \<longleftrightarrow> (2 \<le> k \<longrightarrow> tok ts \<noteq> ''&'') \<and> (3 \<le> k \<longrightarrow> tok ts \<noteq> ''|'') \<and> (4 \<le> k \<longrightarrow> tok ts \<noteq> ''-'')
     \<and> (5 \<le> k \<longrightarrow> tok ts \<noteq> ''='') \<and> (6 \<le> k \<longrightarrow> tok ts \<noteq> '';'')"

text \<open>The first token of an expression.\<close>

definition starts :: "nat \<Rightarrow> tokens \<Rightarrow> bool" where
  "starts k ts \<longleftrightarrow> ts \<noteq> [] \<and> \<not> isOperator (tok ts) \<and> (k = 0 \<longrightarrow> tok ts \<noteq> ''^'')"

lemma lift_level:
  assumes "parseAt k n ts = Inr (f, rest)" and "k < 6" and "stops (Suc k) rest" and "starts k ts"
  shows "parseAt (Suc k) (Suc n) ts = Inr (f, rest)"
proof -
  consider "k = 0" | "k = 1" | "k = 2" | "k = 3" | "k = 4" | "k = 5" using assms(2) by linarith
  then show ?thesis
    using assms by cases (simp_all add: stops_def starts_def parseAt_def)
qed

lemma starts_mono: "starts k ts \<Longrightarrow> k \<le> j \<Longrightarrow> starts j ts"
  by (auto simp: starts_def)

lemma stops_mono: "stops k ts \<Longrightarrow> j \<le> k \<Longrightarrow> stops j ts"
  by (auto simp: stops_def)

lemma lift_levels:
  "parseAt k n ts = Inr (f, rest) \<Longrightarrow> k + d \<le> 6 \<Longrightarrow> stops (k + d) rest \<Longrightarrow> starts k ts \<Longrightarrow>
   parseAt (k + d) (n + d) ts = Inr (f, rest)"
proof (induction d)
  case (Suc d)
  have "parseAt (k + d) (n + d) ts = Inr (f, rest)"
    using Suc.prems by (intro Suc.IH) (auto elim: stops_mono)
  from lift_level [OF this] show ?case
    using Suc.prems starts_mono [of k ts "k + d"] by simp
qed simp

lemma tok_append [simp]: "ts \<noteq> [] \<Longrightarrow> tok (ts @ us) = tok ts" "tok (t # ts) = t"
  by (cases ts) (simp_all add: tok_def)

lemma paren_starts:
  "starts (prec e) (show_expr e @ rest) \<Longrightarrow> starts k (paren k e (show_expr e) @ rest)"
  by (auto simp: paren_def starts_def isOperator_def)

lemma show_starts: "well_named e \<Longrightarrow> starts (prec e) (show_expr e @ rest)"
proof (induction e arbitrary: rest)
  case (EAnd e1 e2)
  show ?case using paren_starts [OF EAnd.IH(1), where k = 1] EAnd.prems by (auto simp: starts_def)
next
  case (EOr e1 e2)
  show ?case using paren_starts [OF EOr.IH(1), where k = 2] EOr.prems by (auto simp: starts_def)
next
  case (EImplies e1 e2)
  show ?case using paren_starts [OF EImplies.IH(1), where k = 3] EImplies.prems by (auto simp: starts_def)
next
  case (EEq e1 e2)
  show ?case using paren_starts [OF EEq.IH(1), where k = 4] EEq.prems by (auto simp: starts_def)
qed (simp_all add: starts_def plain_name_def isOperator_def)

text \<open>The expression at its own level parses back, with enough fuel for the tokens.\<close>

definition parses :: "expr \<Rightarrow> bool" where
  "parses e \<longleftrightarrow> (\<forall>rest n. stops (prec e) rest \<longrightarrow> 7 * length (show_expr e @ rest) + prec e < n \<longrightarrow>
     parseAt (prec e) n (show_expr e @ rest) = Inr (denote e, rest))"

lemma prec_le: "prec e \<le> 5"
  by (cases e) auto

lemma parses_up:
  assumes "parses e" and "well_named e" and "prec e \<le> k" and "k \<le> 6" and "stops k rest"
    and "7 * length (show_expr e @ rest) + k < n"
  shows "parseAt k n (show_expr e @ rest) = Inr (denote e, rest)"
proof -
  have "parseAt (prec e) (n - (k - prec e)) (show_expr e @ rest) = Inr (denote e, rest)"
    using assms stops_mono [OF assms(5,3)] unfolding parses_def by simp
  from lift_levels [OF this, of "k - prec e"] show ?thesis
    using assms show_starts [OF assms(2)] by simp
qed

lemma parses_paren:
  assumes "parses e" and "well_named e" and "k \<le> 5" and "stops k rest"
    and "7 * length (paren k e (show_expr e) @ rest) + k < n"
  shows "parseAt k n (paren k e (show_expr e) @ rest) = Inr (denote e, rest)"
proof (cases "prec e \<le> k")
  case True
  then show ?thesis using assms parses_up [of e k rest n] by (simp add: paren_def)
next
  case False
  let ?ts = "''('' # show_expr e @ '')'' # rest"
  obtain m where m: "n - k = Suc m" using assms(5) by (cases "n - k") auto
  have "7 * length (show_expr e @ '')'' # rest) + 5 < m"
    using assms(5) m False by (simp add: paren_def)
  then have "parseEquiv m (show_expr e @ '')'' # rest) = Inr (denote e, '')'' # rest)"
    using parses_up [OF assms(1,2), of 5 "'')'' # rest" m] prec_le by (simp add: stops_def)
  then have "parseAt 0 (n - k) ?ts = Inr (denote e, rest)"
    by (simp add: m isOperator_def)
  moreover have "n - k + k = n" using m by linarith
  ultimately show ?thesis
    using lift_levels [of 0 "n - k" ?ts "denote e" rest k] assms False by (simp add: paren_def starts_def isOperator_def)
qed

lemma paren_nonempty: "well_named e \<Longrightarrow> paren k e (show_expr e) \<noteq> []"
  using show_starts [of e "[]"] by (auto simp: paren_def starts_def)

lemma parseVars_commas:
  "t \<noteq> ''}'' \<Longrightarrow> ss \<noteq> [] \<Longrightarrow> \<forall>s \<in> set ss. s \<notin> set goKeywords \<Longrightarrow>
   parseVars vs (t # commas ss @ ''}'' # rest) = Inr (vs @ ss, ''}'' # rest)"
proof (induction ss arbitrary: t vs rule: commas.induct)
  case (2 s)
  then show ?case by (simp add: parseVars.simps [of vs] parseVars.simps [of "vs @ [s]"] Let_def)
next
  case (3 s t' ss)
  then show ?case by (simp add: parseVars.simps [of vs] Let_def)
qed simp

text \<open>Both operands of a binary operator with the tokens \<open>os\<close>.\<close>

lemma parses_operands:
  assumes "parses e1" "parses e2" "well_named e1" "well_named e2" and "j < k" "k \<le> 5" and "os \<noteq> []"
    and "stops j (os @ paren k e2 (show_expr e2) @ rest)" "stops k rest"
    and "7 * length (paren j e1 (show_expr e1) @ os @ paren k e2 (show_expr e2) @ rest) + k \<le> n"
  shows "parseAt j n (paren j e1 (show_expr e1) @ os @ paren k e2 (show_expr e2) @ rest)
      = Inr (denote e1, os @ paren k e2 (show_expr e2) @ rest)"
    and "parseAt k n (paren k e2 (show_expr e2) @ rest) = Inr (denote e2, rest)"
    and "paren k e2 (show_expr e2) \<noteq> []"
proof -
  have "1 \<le> length os" using assms(7) by (cases os) auto
  then show "parseAt j n (paren j e1 (show_expr e1) @ os @ paren k e2 (show_expr e2) @ rest)
      = Inr (denote e1, os @ paren k e2 (show_expr e2) @ rest)"
    "parseAt k n (paren k e2 (show_expr e2) @ rest) = Inr (denote e2, rest)"
    using assms by (auto intro!: parses_paren)
  show "paren k e2 (show_expr e2) \<noteq> []"
    by (rule paren_nonempty [OF assms(4)])
qed

lemma show_parses: "well_named e \<Longrightarrow> parses e"
proof (induction e)
  case (EVar s)
  have "parseBasic n (s # rest) = Inr (Var s, rest)" if "0 < n" for n rest
    using that EVar by (cases n) (auto simp: plain_name_def)
  then show ?case by (simp add: parses_def)
next
  case (EUnique ss)
  have "parseBasic n (''{'' # commas ss @ ''}'' # rest) = Inr (denote (EUnique ss), rest)" if "0 < n" for n rest
    using that EUnique parseVars_commas [of "''{''" ss "[]" rest] bf_Unique_Some [of ss]
    by (cases n) (auto simp: isOperator_def)
  then show ?case by (simp add: parses_def)
next
  case (ENot e)
  have "parseNot n (''^'' # paren 1 e (show_expr e) @ rest) = Inr (FNot (denote e), rest)"
    if "7 * length (''^'' # paren 1 e (show_expr e) @ rest) + 1 < n" for n rest
    using that parses_paren [of e 1 rest "n - 1"] paren_nonempty [of e 1] ENot
    by (cases n) (auto simp: isOperator_def stops_def)
  then show ?case by (simp add: parses_def)
next
  case (EAnd e1 e2)
  have "parseAnd n (paren 1 e1 (show_expr e1) @ ''&'' # paren 2 e2 (show_expr e2) @ rest) = Inr (FAnd [denote e1, denote e2], rest)"
    if "7 * length (show_expr (EAnd e1 e2) @ rest) + 2 < n" "stops 2 rest" for n rest
    using that EAnd parses_operands [of e1 e2 1 2 "[''&'']" rest "n - 1"]
    by (cases n) (simp_all add: stops_def)
  then show ?case by (simp add: parses_def)
next
  case (EOr e1 e2)
  have "parseOr n (paren 2 e1 (show_expr e1) @ ''|'' # paren 3 e2 (show_expr e2) @ rest) = Inr (FOr [denote e1, denote e2], rest)"
    if "7 * length (show_expr (EOr e1 e2) @ rest) + 3 < n" "stops 3 rest" for n rest
    using that EOr parses_operands [of e1 e2 2 3 "[''|'']" rest "n - 1"]
    by (cases n) (simp_all add: stops_def)
  then show ?case by (simp add: parses_def)
next
  case (EImplies e1 e2)
  have "parseImplies n (paren 3 e1 (show_expr e1) @ ''-'' # ''>'' # paren 4 e2 (show_expr e2) @ rest) = Inr (Implies (denote e1) (denote e2), rest)"
    if "7 * length (show_expr (EImplies e1 e2) @ rest) + 4 < n" "stops 4 rest" for n rest
    using that EImplies parses_operands [of e1 e2 3 4 "[''-'', ''>'']" rest "n - 1"]
    by (cases n) (simp_all add: stops_def)
  then show ?case by (simp add: parses_def)
next
  case (EEq e1 e2)
  have "parseEquiv n (paren 4 e1 (show_expr e1) @ ''='' # paren 5 e2 (show_expr e2) @ rest) = Inr (bf_Eq (denote e1) (denote e2), rest)"
    if "7 * length (show_expr (EEq e1 e2) @ rest) + 5 < n" "stops 5 rest" for n rest
    using that EEq parses_operands [of e1 e2 4 5 "[''='']" rest "n - 1"]
      show_starts [of "EEq e1 e2" rest]
    by (cases n) (simp_all add: stops_def starts_def)
  then show ?case by (simp add: parses_def)
qed

text \<open>A whole input: expressions separated by semicolons, with or without one at the end.\<close>

fun show_clauses :: "expr list \<Rightarrow> tokens" where
  "show_clauses [] = []"
| "show_clauses [e] = show_expr e"
| "show_clauses (e # e2 # es) = show_expr e @ '';'' # show_clauses (e2 # es)"

fun denote_clauses :: "expr list \<Rightarrow> formula" where
  "denote_clauses [] = TrueConst"
| "denote_clauses [e] = denote e"
| "denote_clauses (e # e2 # es) = FAnd [denote e, denote_clauses (e2 # es)]"

lemma show_clauses_starts: "es \<noteq> [] \<Longrightarrow> \<forall>e \<in> set es. well_named e \<Longrightarrow> starts 6 (show_clauses es @ rest)"
  by (cases es rule: show_clauses.cases) (use show_starts starts_mono prec_le in \<open>fastforce simp: starts_def\<close>)+

lemma parse_clauses:
  "es \<noteq> [] \<Longrightarrow> \<forall>e \<in> set es. well_named e \<Longrightarrow> rest \<in> {[], ['';'']} \<Longrightarrow>
   7 * length (show_clauses es @ rest) + 6 < n \<Longrightarrow>
   parseClause n (show_clauses es @ rest) = Inr (denote_clauses es, [])"
proof (induction es arbitrary: n rule: show_clauses.induct)
  case (2 e)
  obtain m where m: "n = Suc m" using 2 by (cases n) auto
  have "parseEquiv m (show_expr e @ rest) = Inr (denote e, rest)"
    using 2 m prec_le parses_up [OF show_parses, of e 5 rest m] by (auto simp: stops_def tok_def)
  then show ?case
    using m 2 show_clauses_starts [of "[e]" rest] by (auto simp: starts_def)
next
  case (3 e e2 es)
  obtain m where m: "n = Suc m" using 3 by (cases n) auto
  let ?rest = "'';'' # show_clauses (e2 # es) @ rest"
  have "parseEquiv m (show_expr e @ ?rest) = Inr (denote e, ?rest)"
    using 3 m prec_le parses_up [OF show_parses, of e 5 ?rest m] by (auto simp: stops_def)
  moreover have "parseClause m (show_clauses (e2 # es) @ rest) = Inr (denote_clauses (e2 # es), [])"
    using 3 m by (intro 3(1)) auto
  ultimately show ?case
    using m 3 show_clauses_starts [of "e # e2 # es" rest] show_clauses_starts [of "e2 # es" rest]
    by (auto simp: starts_def)
qed simp

text \<open>
  C20. Parsing undoes printing: the tokens of a list of expressions, with the parentheses that the
  priorities of the operators ask for and no others, parse to the conjunction of the formulas the
  expressions denote, with or without a semicolon at the end.
\<close>

theorem Parse_roundtrip:
  assumes "es \<noteq> []" and "\<forall>e \<in> set es. well_named e" and "end \<in> {[], ['';'']}"
  shows "Parse (show_clauses es @ end) = Inr (denote_clauses es)"
  using parse_clauses [OF assms, of "7 * length (show_clauses es @ end) + 7"]
  by (simp add: Parse_def)

theorem Parse_roundtrip_witness:
  "Parse (show_clauses [EEq (EVar ''a'') (EAnd (EOr (EVar ''b'') (ENot (EVar ''c''))) (EVar ''d'')),
      EUnique [''a'', ''b'']] @ ['';''])
   = Inr (denote_clauses [EEq (EVar ''a'') (EAnd (EOr (EVar ''b'') (ENot (EVar ''c''))) (EVar ''d'')),
      EUnique [''a'', ''b'']])"
  by (rule Parse_roundtrip) (simp_all add: plain_name_def isOperator_def goKeywords_def)

end
