(* ===== verification/Rup.thy ===== *)
theory Rup
  imports ParseSlice GoStrings
begin

text \<open>
  Model of the certificate checker of the \<open>explain\<close> package: the problems of
  \<open>explain/problem.go\<close> with their unit propagation, the RUP checks \<open>Unsat\<close> and \<open>UnsatChan\<close> of
  \<open>explain/check.go\<close> and the extraction of the clauses used by a proof. A clause is a list of
  non-zero integers. A certificate is a text, split by \<open>scanLines\<close>, or the list of the strings that
  come through a channel. Indices such as \<open>-lit-1\<close> are exact integers: for the least 64-bit integer
  the code computes an index of \<open>2 ^ 63 - 1\<close> as well, and panics like the model.
\<close>

section \<open>Problems and unit propagation\<close>

record explainPb =
  e_Clauses :: "int list list"
  e_NbVars :: int
  e_NbClauses :: nat
  e_units :: "int list"
  e_tagged :: "bool list"

fun tagUnits :: "int list list \<Rightarrow> nat \<Rightarrow> bool list \<Rightarrow> bool list option" where
  "tagUnits [] i tagged = Some tagged"
| "tagUnits (c # cs) i tagged = do {
     tagged \<leftarrow> put tagged i (length c = 1);
     tagUnits cs (Suc i) tagged }"

definition initTagged :: "explainPb \<Rightarrow> explainPb option" where
  "initTagged pb = do {
     t \<leftarrow> tagUnits (e_Clauses pb) 0 (replicate (e_NbClauses pb) False);
     Some (pb\<lparr>e_tagged := t\<rparr>) }"

text \<open>
  \<open>restore\<close> slices the clauses to the announced number. The slice of a problem has at least that
  capacity: the reader allocates it, and the other functions of the package announce as many clauses
  as they have. So a problem with fewer clauses than announced gets nil clauses, from the spare cells.
\<close>

definition restore :: "explainPb \<Rightarrow> explainPb" where
  "restore pb = pb\<lparr>e_Clauses :=
     take (e_NbClauses pb) (e_Clauses pb) @ replicate (e_NbClauses pb - length (e_Clauses pb)) []\<rparr>"

text \<open>
  The loop over the literals of a clause: the number of unbound literals, counted up to two, the
  first unbound one, and whether a true literal was met.
\<close>

fun scanLits :: "int list \<Rightarrow> int list \<Rightarrow> nat \<Rightarrow> int \<Rightarrow> (nat \<times> int \<times> bool) option" where
  "scanLits us [] unbound unit = Some (unbound, unit, False)"
| "scanLits us (l # ls) unbound unit = do {
     let v = (if l < 0 then - l else l);
     binding \<leftarrow> geti us (v - 1);
     if binding = 0 then
       if unbound + 1 = 1 then scanLits us ls 1 l else Some (unbound + 1, unit, False)
     else if binding * l = v then Some (unbound, unit, True)
     else scanLits us ls unbound unit }"

definition tagClause :: "explainPb \<Rightarrow> nat \<Rightarrow> explainPb option" where
  "tagClause pb i =
     (if i < e_NbClauses pb then do {
        t \<leftarrow> put (e_tagged pb) i True; Some (pb\<lparr>e_tagged := t\<rparr>) }
      else Some pb)"

text \<open>One pass over the clauses; the last component says that the function returned true.\<close>

fun propPass :: "explainPb \<Rightarrow> int list list \<Rightarrow> nat \<Rightarrow> bool list \<Rightarrow> bool
    \<Rightarrow> (explainPb \<times> bool list \<times> bool \<times> bool) option" where
  "propPass pb [] i dn modified = Some (pb, dn, modified, False)"
| "propPass pb (c # cs) i dn modified = do {
     d \<leftarrow> get dn i;
     if d then propPass pb cs (Suc i) dn modified
     else do {
       (unbound, unit, sat) \<leftarrow> scanLits (e_units pb) c 0 0;
       if sat then do {
         dn \<leftarrow> put dn i True;
         propPass pb cs (Suc i) dn modified }
       else if unbound = 0 then do {
         pb \<leftarrow> tagClause pb i;
         Some (pb, dn, modified, True) }
       else if unbound = 1 then do {
         us \<leftarrow> (if unit < 0 then puti (e_units pb) (- unit - 1) (- 1)
               else puti (e_units pb) (unit - 1) 1);
         dn \<leftarrow> put dn i True;
         pb \<leftarrow> tagClause (pb\<lparr>e_units := us\<rparr>) i;
         propPass pb cs (Suc i) dn True }
       else propPass pb cs (Suc i) dn modified } }"

lemma propPass_progress:
  "propPass pb cs i dn m = Some (pb', dn', m', ret) \<Longrightarrow>
     length (filter Not dn') \<le> length (filter Not dn)
     \<and> (m' \<longrightarrow> m \<or> length (filter Not dn') < length (filter Not dn))"
proof -
  have upd: "length (filter Not (xs[i := True])) < length (filter Not xs)"
    if "i < length xs" "\<not> xs ! i" for xs :: "bool list" and i
    using that
  proof (induction xs arbitrary: i)
    case (Cons x xs)
    then show ?case using Cons.IH [of "i - 1"] by (cases i) auto
  qed simp
  show "propPass pb cs i dn m = Some (pb', dn', m', ret) \<Longrightarrow> ?thesis"
  proof (induction pb cs i dn m rule: propPass.induct)
    case (2 pb c cs i dn modified)
    note prems = "2.prems"
    obtain d where d: "get dn i = Some d" using prems by (cases "get dn i") auto
    then have i: "i < length dn" "d = dn ! i" by (auto simp: get_def split: if_splits)
    show ?case
    proof (cases d)
      case True
      then show ?thesis using "2.IH"(1) [OF d True] prems d by simp
    next
      case False
      obtain ub u sat where s: "scanLits (e_units pb) c 0 0 = Some (ub, u, sat)"
        using prems d False by (cases "scanLits (e_units pb) c 0 0") auto
      have less: "length (filter Not (dn[i := True])) < length (filter Not dn)"
        using upd [of i dn] i False by simp
      have put: "put dn i True = Some (dn[i := True])" using i by simp
      note ih = "2.IH"(2-) [OF d False s refl refl]
      consider "sat" | "\<not> sat" "ub = 0" | "\<not> sat" "ub \<noteq> 0" "ub = 1" | "\<not> sat" "ub \<noteq> 0" "ub \<noteq> 1" by blast
      then show ?thesis
      proof cases
        case 1
        then show ?thesis using ih(1) [OF 1 put] prems d False s put less by auto
      next
        case 2
        then show ?thesis using prems d False s by (auto simp: bind_eq_Some_conv)
      next
        case 3
        then show ?thesis
          using ih(2) [OF 3 _ put] prems d False s put less by (fastforce simp: bind_eq_Some_conv)
      next
        case 4
        then show ?thesis using ih(3) [OF 4] prems d False s by simp
      qed
    qed
  qed simp
qed

function propLoop :: "explainPb \<Rightarrow> bool list \<Rightarrow> (explainPb \<times> bool) option" where
  "propLoop pb dn = do {
     (pb, dn, modified, ret) \<leftarrow> propPass pb (e_Clauses pb) 0 dn False;
     if ret then Some (pb, True)
     else if modified then propLoop pb dn
     else Some (pb, False) }"
  by pat_completeness auto
termination
  by (relation "measure (\<lambda>(pb, dn). length (filter Not dn))") (auto dest: propPass_progress)

declare propLoop.simps [simp del]

text \<open>\<open>Problem.unsat\<close>.\<close>

definition pbUnsat :: "explainPb \<Rightarrow> (explainPb \<times> bool) option" where
  "pbUnsat pb = propLoop pb (replicate (length (e_Clauses pb)) False)"

section \<open>Reading a certificate\<close>

text \<open>\<open>parseClause\<close> on the fields of a line; the error carries no data.\<close>

fun parseClauseFields :: "string list \<Rightarrow> int list option" where
  "parseClauseFields [] = Some []"
| "parseClauseFields (f # fs) = (case Atoi f of None \<Rightarrow> None
     | Some l \<Rightarrow> map_option (\<lambda>ls. if l \<noteq> 0 then l # ls else ls) (parseClauseFields fs))"

text \<open>The function \<open>unsat\<close>: the negated literals of the clause as units, then propagation.\<close>

fun negateUnits :: "int list \<Rightarrow> int list \<Rightarrow> int list option" where
  "negateUnits us [] = Some us"
| "negateUnits us (l # ls) = do {
     us \<leftarrow> (if l > 0 then puti us (l - 1) (- 1) else puti us (- l - 1) 1);
     negateUnits us ls }"

definition unsat :: "explainPb \<Rightarrow> int list \<Rightarrow> (explainPb \<times> bool) option" where
  "unsat pb c = do {
     let oldUnits = e_units pb;
     us \<leftarrow> negateUnits (e_units pb) c;
     (pb, res) \<leftarrow> pbUnsat (pb\<lparr>e_units := us\<rparr>);
     Some (pb\<lparr>e_units := oldUnits\<rparr>, res) }"

text \<open>What the two loops do with one line of the certificate.\<close>

datatype line_result = Skipped | BadClause | Refuted | Checked "int list"

definition checkLine :: "explainPb \<Rightarrow> string \<Rightarrow> (explainPb \<times> line_result) option" where
  "checkLine pb line =
     (case Fields line of
        [] \<Rightarrow> Some (pb, Skipped)
      | f # fs \<Rightarrow>
          if Atoi f = None then Some (pb, Skipped)
          else (case parseClauseFields (f # fs) of
             None \<Rightarrow> Some (pb, BadClause)
           | Some c \<Rightarrow> do {
               (pb, res) \<leftarrow> unsat pb c;
               Some (pb, if res then Checked c else Refuted) }))"

text \<open>
  The loops of \<open>UnsatChan\<close> and \<open>Unsat\<close>. The result is \<open>None\<close> for an error and \<open>Some valid\<close> else;
  \<open>scanErr\<close> says that the scanner stopped with an error after the lines.
\<close>

fun chanLoop :: "explainPb \<Rightarrow> string list \<Rightarrow> (explainPb \<times> bool option) option" where
  "chanLoop pb [] = Some (pb, Some True)"
| "chanLoop pb (line # lines) = do {
     (pb, r) \<leftarrow> checkLine pb line;
     case r of
       Skipped \<Rightarrow> chanLoop pb lines
     | BadClause \<Rightarrow> Some (pb, None)
     | Refuted \<Rightarrow> Some (pb, Some False)
     | Checked c \<Rightarrow>
         if length c = 0 then Some (pb, Some True)
         else chanLoop (pb\<lparr>e_Clauses := e_Clauses pb @ [c]\<rparr>) lines }"

fun certLoop :: "bool \<Rightarrow> explainPb \<Rightarrow> string list \<Rightarrow> (explainPb \<times> bool option) option" where
  "certLoop scanErr pb [] = Some (pb, if scanErr then None else Some True)"
| "certLoop scanErr pb (line # lines) = do {
     (pb, r) \<leftarrow> checkLine pb line;
     case r of
       Skipped \<Rightarrow> certLoop scanErr pb lines
     | BadClause \<Rightarrow> Some (pb, None)
     | Refuted \<Rightarrow> Some (pb, Some False)
     | Checked c \<Rightarrow> certLoop scanErr (pb\<lparr>e_Clauses := e_Clauses pb @ [c]\<rparr>) lines }"

definition UnsatChan :: "explainPb \<Rightarrow> string list \<Rightarrow> (explainPb \<times> bool option) option" where
  "UnsatChan pb ch = do {
     pb \<leftarrow> initTagged pb;
     (pb, r) \<leftarrow> chanLoop pb ch;
     Some (restore pb, r) }"

definition e_Unsat :: "explainPb \<Rightarrow> string \<Rightarrow> (explainPb \<times> bool option) option" where
  "e_Unsat pb cert = do {
     pb \<leftarrow> initTagged pb;
     (pb, r) \<leftarrow> (let (lines, scanErr) = scanLines cert in certLoop scanErr pb lines);
     Some (restore pb, r) }"

text \<open>The last loop of \<open>UnsatSubset\<close>: the clauses that were tagged.\<close>

fun taggedClauses :: "int list list \<Rightarrow> bool list \<Rightarrow> nat \<Rightarrow> int list list option" where
  "taggedClauses [] tagged i = Some []"
| "taggedClauses (c # cs) tagged i = do {
     t \<leftarrow> get tagged i;
     rest \<leftarrow> taggedClauses cs tagged (Suc i);
     Some (if t then c # rest else rest) }"

section \<open>Soundness\<close>

text \<open>The clauses a refutation rests on: the tagged clauses of the problem and the learned ones.\<close>

definition core :: "explainPb \<Rightarrow> int list set" where
  "core pb = {e_Clauses pb ! i |i. i < length (e_Clauses pb) \<and> (i < e_NbClauses pb \<longrightarrow> e_tagged pb ! i)}"

definition sat_all :: "asg \<Rightarrow> int list set \<Rightarrow> bool" where
  "sat_all a C \<longleftrightarrow> (\<forall>c \<in> C. \<exists>l \<in> set c. ilit_true a l)"

definition vals_ok :: "int list \<Rightarrow> bool" where
  "vals_ok us \<longleftrightarrow> set us \<subseteq> {- 1, 0, 1}"

definition ilit_ok :: "int list \<Rightarrow> int \<Rightarrow> bool" where
  "ilit_ok us l \<longleftrightarrow> l \<noteq> 0 \<and> \<bar>l\<bar> \<le> int (length us)"

lemma ilit_true_iff: "l \<noteq> 0 \<Longrightarrow> ilit_true a l \<longleftrightarrow> a (\<bar>l\<bar> - 1) = (0 < l)"
  by (simp add: lit_true_def)

lemma scanLits_spec:
  assumes "vals_ok us" and "\<forall>l \<in> set ls. ilit_ok us l" and "agree a us"
  shows "ub \<le> 1 \<Longrightarrow> wp (scanLits us ls ub u) (\<lambda>(ub', u', sat).
     if sat then \<exists>l \<in> set ls. ilit_true a l
     else ub \<le> ub' \<and> (ub' = 0 \<longrightarrow> (\<forall>l \<in> set ls. \<not> ilit_true a l))
       \<and> (ub' = 1 \<longrightarrow> (if ub = 0 then u' \<in> set ls \<and> (\<forall>l \<in> set ls. l \<noteq> u' \<longrightarrow> \<not> ilit_true a l)
                      else u' = u \<and> (\<forall>l \<in> set ls. \<not> ilit_true a l))))"
  using assms(2)
proof (induction ls arbitrary: ub u)
  case (Cons l ls)
  define i where "i = nat (\<bar>l\<bar> - 1)"
  have l: "l \<noteq> 0" "i < length us" "0 \<le> \<bar>l\<bar> - 1" "\<bar>l\<bar> - 1 < int (length us)" and ab: "\<bar>l\<bar> - 1 = int i"
    using Cons.prems by (auto simp: ilit_ok_def i_def)
  have v: "(if l < 0 then - l else l) = \<bar>l\<bar>" by simp
  have g: "geti us (\<bar>l\<bar> - 1) = Some (us ! i)" using l by (simp add: i_def)
  have bv: "us ! i \<in> {- 1, 0, 1}" using assms(1) nth_mem [OF l(2)] unfolding vals_ok_def by blast
  have tr: "ilit_true a l \<longleftrightarrow> us ! i * l = \<bar>l\<bar>" if "us ! i \<noteq> 0"
    using assms(3) that l(1,2) bv unfolding agree_def ilit_true_iff [OF l(1)] ab by (auto simp: abs_if)
  show ?case
  proof (cases "us ! i = 0")
    case True
    then show ?thesis
      using Cons.IH [of 1 l] Cons.prems g
      by (auto simp: v Let_def elim!: wp_mono split: if_splits)
  next
    case False
    then show ?thesis
      using Cons.IH [of ub u] Cons.prems g tr
      by (auto simp: v Let_def elim!: wp_mono split: if_splits)
  qed
qed simp

definition exp_ok :: "explainPb \<Rightarrow> bool" where
  "exp_ok pb \<longleftrightarrow> length (e_tagged pb) = e_NbClauses pb \<and> e_NbClauses pb \<le> length (e_Clauses pb)
     \<and> vals_ok (e_units pb) \<and> (\<forall>c \<in> set (e_Clauses pb). \<forall>l \<in> set c. ilit_ok (e_units pb) l)"

text \<open>What propagation may do to a problem.\<close>

definition prop_step :: "explainPb \<Rightarrow> explainPb \<Rightarrow> bool \<Rightarrow> bool" where
  "prop_step pb pb' ret \<longleftrightarrow> exp_ok pb' \<and> e_Clauses pb' = e_Clauses pb \<and> e_NbClauses pb' = e_NbClauses pb
     \<and> e_NbVars pb' = e_NbVars pb \<and> length (e_units pb') = length (e_units pb) \<and> core pb \<subseteq> core pb'
     \<and> (\<forall>j. e_tagged pb ! j \<longrightarrow> e_tagged pb' ! j)
     \<and> (\<forall>a. sat_all a (core pb') \<longrightarrow> agree a (e_units pb) \<longrightarrow> agree a (e_units pb') \<and> \<not> ret)"

lemma prop_step_refl: "exp_ok pb \<Longrightarrow> prop_step pb pb False"
  by (simp add: prop_step_def)

lemma sat_all_mono: "sat_all a D \<Longrightarrow> C \<subseteq> D \<Longrightarrow> sat_all a C"
  by (auto simp: sat_all_def)

lemma prop_step_trans: "prop_step x y False \<Longrightarrow> prop_step y z r \<Longrightarrow> prop_step x z r"
  unfolding prop_step_def using sat_all_mono by (auto 5 3)

lemma agree_exists: "\<exists>a. agree a us"
  by (rule exI [of _ "\<lambda>v. us ! nat v = 1"]) (simp add: agree_def)

lemma scanLits_result:
  assumes "vals_ok us" and "\<forall>l \<in> set ls. ilit_ok us l"
  obtains ub u sat where "scanLits us ls 0 0 = Some (ub, u, sat)"
    "\<And>a. \<not> sat \<Longrightarrow> ub = 0 \<Longrightarrow> agree a us \<Longrightarrow> \<forall>l \<in> set ls. \<not> ilit_true a l"
    "\<And>a. \<not> sat \<Longrightarrow> ub = 1 \<Longrightarrow> agree a us \<Longrightarrow> \<exists>l \<in> set ls. ilit_true a l \<Longrightarrow> ilit_true a u"
    "\<not> sat \<Longrightarrow> ub = 1 \<Longrightarrow> u \<in> set ls"
proof -
  obtain a0 where "agree a0 us" using agree_exists by blast
  then obtain ub u sat where s: "scanLits us ls 0 0 = Some (ub, u, sat)"
    and u: "\<not> sat \<Longrightarrow> ub = 1 \<Longrightarrow> u \<in> set ls"
    using scanLits_spec [OF assms, of a0 0 0] by (auto simp: wp_iff split: if_splits)
  show ?thesis
    by (rule that [OF s _ _ u]) (use scanLits_spec [OF assms, of _ 0 0] s in fastforce)+
qed

text \<open>Tagging a clause of the problem adds it to the core; learned clauses belong to it already.\<close>

lemma tagClause_spec:
  assumes "exp_ok pb" and "i < length (e_Clauses pb)"
  shows "wp (tagClause pb i) (\<lambda>pb'. exp_ok pb' \<and> e_Clauses pb' = e_Clauses pb
     \<and> e_NbClauses pb' = e_NbClauses pb \<and> e_NbVars pb' = e_NbVars pb \<and> e_units pb' = e_units pb
     \<and> core pb' = insert (e_Clauses pb ! i) (core pb) \<and> (\<forall>j. e_tagged pb ! j \<longrightarrow> e_tagged pb' ! j))"
proof -
  have "core (pb\<lparr>e_tagged := (e_tagged pb)[i := True]\<rparr>) = insert (e_Clauses pb ! i) (core pb)"
    if "i < e_NbClauses pb"
    using assms that by (auto simp: core_def exp_ok_def nth_list_update)
  moreover have "core pb = insert (e_Clauses pb ! i) (core pb)" if "\<not> i < e_NbClauses pb"
    using assms that by (auto simp: core_def)
  moreover have "e_tagged pb ! j \<Longrightarrow> (e_tagged pb)[i := True] ! j" for j
    by (cases "i = j"; cases "i < length (e_tagged pb)") (simp_all add: list_update_beyond)
  ultimately show ?thesis
    using assms by (auto simp: tagClause_def exp_ok_def)
qed

lemma agree_bind:
  assumes "agree a us" and "ilit_ok us u" and "ilit_true a u"
  shows "agree a (us[nat (\<bar>u\<bar> - 1) := if u < 0 then - 1 else 1])"
  unfolding agree_def
proof (intro allI impI)
  fix v assume v: "v < length (us[nat (\<bar>u\<bar> - 1) := if u < 0 then - 1 else 1])"
    "(us[nat (\<bar>u\<bar> - 1) := if u < 0 then - 1 else 1]) ! v \<noteq> 0"
  show "a (int v) = ((us[nat (\<bar>u\<bar> - 1) := if u < 0 then - 1 else 1]) ! v = 1)"
  proof (cases "v = nat (\<bar>u\<bar> - 1)")
    case True
    then have "int v = \<bar>u\<bar> - 1" using assms(2) by (simp add: ilit_ok_def)
    then show ?thesis using v assms(2,3) True ilit_true_iff [of u a] by (auto simp: ilit_ok_def)
  next
    case False
    then show ?thesis using v assms(1) by (simp add: agree_def)
  qed
qed

lemma vals_ok_update: "vals_ok us \<Longrightarrow> x \<in> {- 1, 0, 1} \<Longrightarrow> vals_ok (us[i := x])"
  using set_update_subset_insert [of us i x] unfolding vals_ok_def by blast

lemma propPass_spec:
  "exp_ok pb \<Longrightarrow> cs = drop i (e_Clauses pb) \<Longrightarrow> i \<le> length (e_Clauses pb) \<Longrightarrow> length dn = length (e_Clauses pb) \<Longrightarrow>
   wp (propPass pb cs i dn m) (\<lambda>(pb', dn', m', ret). prop_step pb pb' ret \<and> length dn' = length dn)"
proof (induction pb cs i dn m rule: propPass.induct)
  case (1 pb i dn modified)
  then show ?case by (simp add: prop_step_refl)
next
  case (2 pb c cs i dn modified)
  note ok = "2.prems"(1)
  have i: "i < length (e_Clauses pb)" using "2.prems"(2) by (metis drop_all linorder_not_le list.distinct(1))
  have "c # cs = e_Clauses pb ! i # drop (Suc i) (e_Clauses pb)"
    using "2.prems"(2) Cons_nth_drop_Suc [OF i] by metis
  then have c: "c = e_Clauses pb ! i" "cs = drop (Suc i) (e_Clauses pb)" by simp_all
  have cok: "\<forall>l \<in> set c. ilit_ok (e_units pb) l" using ok i c(1) by (auto simp: exp_ok_def)
  have d: "get dn i = Some (dn ! i)" "put dn i True = Some (dn[i := True])" using i "2.prems"(4) by simp_all
  show ?case
  proof (cases "dn ! i")
    case True
    then show ?thesis
      using "2.IH"(1) [OF d(1) True ok c(2)] i "2.prems"(4) d by simp
  next
    case False
    obtain ub u sat where s: "scanLits (e_units pb) c 0 0 = Some (ub, u, sat)"
      and confl: "\<And>a. \<not> sat \<Longrightarrow> ub = 0 \<Longrightarrow> agree a (e_units pb) \<Longrightarrow> \<forall>l \<in> set c. \<not> ilit_true a l"
      and unit: "\<And>a. \<not> sat \<Longrightarrow> ub = 1 \<Longrightarrow> agree a (e_units pb) \<Longrightarrow> \<exists>l \<in> set c. ilit_true a l \<Longrightarrow> ilit_true a u"
      and mem: "\<not> sat \<Longrightarrow> ub = 1 \<Longrightarrow> u \<in> set c"
      using scanLits_result [OF _ cok] ok by (auto simp: exp_ok_def)
    consider "sat" | "\<not> sat" "ub = 0" | "\<not> sat" "ub \<noteq> 0" "ub = 1" | "\<not> sat" "ub \<noteq> 0" "ub \<noteq> 1" by blast
    then show ?thesis
    proof cases
      case 1
      then show ?thesis
        using "2.IH"(2) [OF d(1) False s refl refl 1 d(2) ok c(2)] i "2.prems"(4) d False s by simp
    next
      case 2
      obtain pb1 where t: "tagClause pb i = Some pb1" "exp_ok pb1" "e_Clauses pb1 = e_Clauses pb"
        "e_NbClauses pb1 = e_NbClauses pb" "e_NbVars pb1 = e_NbVars pb" "e_units pb1 = e_units pb" "core pb1 = insert c (core pb)"
        "\<And>j. e_tagged pb ! j \<Longrightarrow> e_tagged pb1 ! j"
        using tagClause_spec [OF ok i] by (auto simp: wp_iff c(1))
      have "prop_step pb pb1 True"
        using t confl [OF 2] by (auto simp: prop_step_def sat_all_def)
      then show ?thesis using 2 d False s t by simp
    next
      case 3
      have uok: "ilit_ok (e_units pb) u" using mem [OF 3(1,3)] cok by blast
      define us where "us = (e_units pb)[nat (\<bar>u\<bar> - 1) := if u < 0 then - 1 else 1]"
      have us: "(if u < 0 then puti (e_units pb) (- u - 1) (- 1) else puti (e_units pb) (u - 1) 1) = Some us"
        using uok by (auto simp: ilit_ok_def puti_def us_def)
      have ok0: "exp_ok (pb\<lparr>e_units := us\<rparr>)"
        using ok vals_ok_update [of "e_units pb" "if u < 0 then - 1 else 1"]
        by (auto simp: exp_ok_def us_def ilit_ok_def)
      obtain pb1 where t: "tagClause (pb\<lparr>e_units := us\<rparr>) i = Some pb1" "exp_ok pb1" "e_Clauses pb1 = e_Clauses pb"
        "e_NbClauses pb1 = e_NbClauses pb" "e_NbVars pb1 = e_NbVars pb" "e_units pb1 = us" "core pb1 = insert c (core pb)"
        "\<And>j. e_tagged pb ! j \<Longrightarrow> e_tagged pb1 ! j"
        using tagClause_spec [OF ok0, of i] i by (auto simp: wp_iff c(1) core_def)
      have "prop_step pb pb1 False"
        using t unit [OF 3(1,3)] agree_bind [OF _ uok]
        by (auto simp: prop_step_def sat_all_def us_def)
      then show ?thesis
        using "2.IH"(3) [OF d(1) False s refl refl 3 us d(2) t(1,2)] c(2) i "2.prems"(4) d False s us t 3
        by (auto elim!: wp_mono prop_step_trans)
    next
      case 4
      then show ?thesis
        using "2.IH"(4) [OF d(1) False s refl refl 4 ok c(2)] i "2.prems"(4) d False s by simp
    qed
  qed
qed

lemma propLoop_spec:
  "exp_ok pb \<Longrightarrow> length dn = length (e_Clauses pb) \<Longrightarrow> wp (propLoop pb dn) (\<lambda>(pb', ret). prop_step pb pb' ret)"
proof (induction pb dn rule: propLoop.induct)
  case (1 pb dn)
  obtain pb1 dn1 m ret where p: "propPass pb (e_Clauses pb) 0 dn False = Some (pb1, dn1, m, ret)"
    "prop_step pb pb1 ret" "length dn1 = length dn"
    using propPass_spec [OF "1.prems"(1), of "e_Clauses pb" 0 dn False] "1.prems"(2) by (auto simp: wp_iff)
  show ?case
  proof (cases "ret \<or> \<not> m")
    case True
    then show ?thesis using p by (subst propLoop.simps) auto
  next
    case False
    then have "wp (propLoop pb1 dn1) (\<lambda>(pb', ret). prop_step pb1 pb' ret)"
      using p "1.prems" by (intro "1.IH" [OF p(1) refl refl refl]) (auto simp: prop_step_def)
    then show ?thesis
      using p False prop_step_trans [of pb pb1] by (subst propLoop.simps) (auto elim!: wp_mono)
  qed
qed

lemma negateUnits_spec:
  assumes "negateUnits us c = Some us'"
  shows "(\<forall>l \<in> set c. ilit_ok us l) \<and> length us' = length us \<and> (vals_ok us \<longrightarrow> vals_ok us')
    \<and> (\<forall>a. agree a us \<longrightarrow> (\<forall>l \<in> set c. \<not> ilit_true a l) \<longrightarrow> agree a us')"
  using assms
proof (induction c arbitrary: us)
  case (Cons l ls)
  define b where "b = (if l > 0 then - 1 else 1 :: int)"
  have l: "ilit_ok us l" and n: "negateUnits (us[nat (\<bar>l\<bar> - 1) := b]) ls = Some us'"
    using Cons.prems by (auto simp: bind_eq_Some_conv puti_def ilit_ok_def b_def split: if_splits)
  have "agree a (us[nat (\<bar>l\<bar> - 1) := b])" if "agree a us" "\<not> ilit_true a l" for a
    using agree_bind [of a us "- l"] that l ilit_true_minus [of l a] by (auto simp: ilit_ok_def b_def split: if_splits)
  moreover have "vals_ok us \<Longrightarrow> vals_ok (us[nat (\<bar>l\<bar> - 1) := b])" by (auto simp: b_def intro: vals_ok_update)
  ultimately show ?case
    using Cons.IH [OF n] l by (auto simp: ilit_ok_def)
qed simp

definition base :: "explainPb \<Rightarrow> int list set" where
  "base pb = {e_Clauses pb ! i |i. i < e_NbClauses pb \<and> e_tagged pb ! i}"

definition learned :: "explainPb \<Rightarrow> int list set" where
  "learned pb = set (drop (e_NbClauses pb) (e_Clauses pb))"

lemma core_eq: "exp_ok pb \<Longrightarrow> core pb = base pb \<union> learned pb"
proof -
  assume ok: "exp_ok pb"
  have "learned pb = {e_Clauses pb ! i |i. i < length (e_Clauses pb) \<and> \<not> i < e_NbClauses pb}"
    unfolding learned_def set_conv_nth
    by (auto simp: not_less) (metis le_add_diff_inverse le_iff_add nat_add_left_cancel_less less_diff_conv add.commute)+
  then show ?thesis using ok by (auto simp: core_def base_def exp_ok_def)
qed

text \<open>The invariant of the checks: what was learned follows from what is tagged.\<close>

definition rup_inv :: "explainPb \<Rightarrow> bool" where
  "rup_inv pb \<longleftrightarrow> exp_ok pb \<and> (\<forall>a. sat_all a (base pb) \<longrightarrow> sat_all a (learned pb) \<and> agree a (e_units pb))"

definition rup_step :: "explainPb \<Rightarrow> explainPb \<Rightarrow> bool" where
  "rup_step pb pb' \<longleftrightarrow> rup_inv pb' \<and> e_NbClauses pb' = e_NbClauses pb \<and> e_NbVars pb' = e_NbVars pb
     \<and> e_units pb' = e_units pb
     \<and> take (e_NbClauses pb) (e_Clauses pb') = take (e_NbClauses pb) (e_Clauses pb)
     \<and> (\<forall>i < e_NbClauses pb. e_tagged pb ! i \<longrightarrow> e_tagged pb' ! i)"

lemma rup_step_refl: "rup_inv pb \<Longrightarrow> rup_step pb pb"
  by (simp add: rup_step_def)

lemma rup_step_trans: "rup_step x y \<Longrightarrow> rup_step y z \<Longrightarrow> rup_step x z"
  by (auto simp: rup_step_def)

lemma rup_step_base:
  assumes "rup_step x y" shows "base x \<subseteq> base y"
proof
  fix c assume "c \<in> base x"
  then obtain i where i: "i < e_NbClauses x" "e_tagged x ! i" "c = e_Clauses x ! i" by (auto simp: base_def)
  then have "e_Clauses y ! i = e_Clauses x ! i" using assms unfolding rup_step_def by (metis nth_take)
  moreover have "i < e_NbClauses y" "e_tagged y ! i" using i assms by (simp_all add: rup_step_def)
  ultimately show "c \<in> base y" unfolding base_def i(3) by (intro CollectI exI [of _ i]) simp
qed

lemma unsat_spec:
  assumes inv: "rup_inv pb" and u: "unsat pb c = Some (pb', res)"
  shows "rup_step pb pb' \<and> e_Clauses pb' = e_Clauses pb \<and> (\<forall>l \<in> set c. ilit_ok (e_units pb') l)
    \<and> (res \<longrightarrow> (\<forall>a. sat_all a (base pb') \<longrightarrow> (\<exists>l \<in> set c. ilit_true a l)))"
proof -
  have ok: "exp_ok pb" using inv by (simp add: rup_inv_def)
  obtain us pb1 where n: "negateUnits (e_units pb) c = Some us"
    and p: "propLoop (pb\<lparr>e_units := us\<rparr>) (replicate (length (e_Clauses pb)) False) = Some (pb1, res)"
    and pb': "pb' = pb1\<lparr>e_units := e_units pb\<rparr>"
    using u by (auto simp: unsat_def bind_eq_Some_conv pbUnsat_def Let_def)
  note neg = negateUnits_spec [OF n]
  have ok1: "exp_ok (pb\<lparr>e_units := us\<rparr>)" using ok neg by (auto simp: exp_ok_def ilit_ok_def)
  have st: "prop_step (pb\<lparr>e_units := us\<rparr>) pb1 res"
    using propLoop_spec [OF ok1, of "replicate (length (e_Clauses pb)) False"] p by simp
  have ok': "exp_ok pb'" and cl: "e_Clauses pb' = e_Clauses pb" "e_NbClauses pb' = e_NbClauses pb" "e_NbVars pb' = e_NbVars pb"
    using st neg ok by (auto simp: prop_step_def exp_ok_def ilit_ok_def pb')
  have lr: "learned pb' = learned pb" using cl by (simp add: learned_def)
  have tags: "e_tagged pb ! j \<Longrightarrow> e_tagged pb' ! j" for j
    using st by (simp add: prop_step_def pb')
  have bs: "base pb \<subseteq> base pb'" using cl tags by (auto simp: base_def)
  have inv': "rup_inv pb'"
    using inv ok' bs sat_all_mono unfolding rup_inv_def lr by (auto simp: pb')
  have "\<exists>l \<in> set c. ilit_true a l" if res "sat_all a (base pb')" for a
  proof (rule ccontr)
    assume no: "\<not> (\<exists>l \<in> set c. ilit_true a l)"
    have "sat_all a (base pb)" using that bs sat_all_mono by blast
    then have "agree a (e_units pb)" "sat_all a (learned pb')" using inv lr by (auto simp: rup_inv_def)
    then have "agree a us" using neg no by blast
    moreover have "core pb1 = core pb'" by (simp add: core_def pb')
    then have "sat_all a (core pb1)"
      using that \<open>sat_all a (learned pb')\<close> core_eq [OF ok'] by (auto simp: sat_all_def)
    ultimately show False using st that by (auto simp: prop_step_def)
  qed
  then show ?thesis
    using inv' cl tags neg by (auto simp: rup_step_def pb' ilit_ok_def)
qed

text \<open>The clause of a line, if the loops take the line for one.\<close>

definition lineClause :: "string \<Rightarrow> int list option" where
  "lineClause line = (case Fields line of [] \<Rightarrow> None
     | f # fs \<Rightarrow> if Atoi f = None then None else parseClauseFields (f # fs))"

lemma checkLine_spec:
  assumes "rup_inv pb" and "checkLine pb line = Some (pb', r)"
  shows "rup_step pb pb' \<and> e_Clauses pb' = e_Clauses pb
    \<and> (case r of Skipped \<Rightarrow> lineClause line = None | BadClause \<Rightarrow> True | Refuted \<Rightarrow> True
       | Checked c \<Rightarrow> lineClause line = Some c \<and> (\<forall>l \<in> set c. ilit_ok (e_units pb') l)
           \<and> (\<forall>a. sat_all a (base pb') \<longrightarrow> (\<exists>l \<in> set c. ilit_true a l)))"
proof -
  note refl = rup_step_refl [OF assms(1)]
  consider "pb' = pb" "r = Skipped" "lineClause line = None" | "pb' = pb" "r = BadClause"
    | c res where "lineClause line = Some c" "unsat pb c = Some (pb', res)" "r = (if res then Checked c else Refuted)"
    using assms(2)
    by (auto simp: checkLine_def lineClause_def bind_eq_Some_conv split: list.splits if_splits option.splits)
  then show ?thesis
  proof cases
    case (3 c res)
    then show ?thesis using unsat_spec [OF assms(1) 3(2)] by auto
  qed (use refl in auto)
qed

lemma learn_step:
  assumes "rup_inv pb" and "\<forall>l \<in> set c. ilit_ok (e_units pb) l"
    and "\<forall>a. sat_all a (base pb) \<longrightarrow> (\<exists>l \<in> set c. ilit_true a l)"
  shows "rup_step pb (pb\<lparr>e_Clauses := e_Clauses pb @ [c]\<rparr>)"
proof -
  have n: "e_NbClauses pb \<le> length (e_Clauses pb)" using assms(1) by (simp add: rup_inv_def exp_ok_def)
  then have b: "base (pb\<lparr>e_Clauses := e_Clauses pb @ [c]\<rparr>) = base pb"
    unfolding base_def by (intro Collect_cong ex_cong1) (simp add: nth_append)
  have l: "learned (pb\<lparr>e_Clauses := e_Clauses pb @ [c]\<rparr>) = insert c (learned pb)"
    using n by (simp add: learned_def)
  have e: "exp_ok (pb\<lparr>e_Clauses := e_Clauses pb @ [c]\<rparr>)"
    using assms(1,2) by (simp add: rup_inv_def exp_ok_def)
  have "sat_all a (insert c (learned pb)) \<and> agree a (e_units pb)" if "sat_all a (base pb)" for a
    using that assms(1,3) by (simp add: rup_inv_def sat_all_def)
  then have "rup_inv (pb\<lparr>e_Clauses := e_Clauses pb @ [c]\<rparr>)"
    using e by (simp add: rup_inv_def b l)
  then show ?thesis using n by (simp add: rup_step_def)
qed

lemma certLoop_spec:
  "rup_inv pb \<Longrightarrow> certLoop scanErr pb lines = Some (pb', r) \<Longrightarrow> rup_step pb pb'
     \<and> (r = Some True \<longrightarrow> Some [] \<in> lineClause ` set lines \<longrightarrow> (\<forall>a. \<not> sat_all a (base pb')))"
proof (induction scanErr pb lines rule: certLoop.induct)
  case (2 scanErr pb line lines)
  obtain pb1 q where l: "checkLine pb line = Some (pb1, q)"
    using "2.prems"(2) by (auto simp: bind_eq_Some_conv)
  note c = checkLine_spec [OF "2.prems"(1) l]
  have inv1: "rup_inv pb1" using c by (simp add: rup_step_def)
  show ?case
  proof (cases q)
    case Skipped
    then show ?thesis
      using "2.IH"(1) [OF l refl Skipped inv1] "2.prems"(2) l c rup_step_trans [of pb pb1 pb'] by auto
  next
    case (Checked cl)
    define pb2 where "pb2 = pb1\<lparr>e_Clauses := e_Clauses pb1 @ [cl]\<rparr>"
    have s2: "rup_step pb1 pb2" unfolding pb2_def using c Checked by (intro learn_step [OF inv1]) auto
    then have "rup_inv pb2" by (simp add: rup_step_def)
    then have ih: "rup_step pb2 pb'"
      "r = Some True \<longrightarrow> Some [] \<in> lineClause ` set lines \<longrightarrow> (\<forall>a. \<not> sat_all a (base pb'))"
      using "2.IH"(2) [OF l refl Checked] "2.prems"(2) l Checked by (auto simp: pb2_def)
    have s3: "rup_step pb1 pb'" by (rule rup_step_trans [OF s2 ih(1)])
    have "\<not> sat_all a (base pb')" if "cl = []" for a
      using that c Checked rup_step_base [OF s3] sat_all_mono [of a "base pb'" "base pb1"] by auto
    then show ?thesis
      using ih(2) c Checked rup_step_trans [of pb pb1 pb'] s3 by auto
  qed (use "2.prems"(2) l c in auto)
qed (simp add: rup_step_refl)

lemma chanLoop_spec:
  "rup_inv pb \<Longrightarrow> chanLoop pb lines = Some (pb', r) \<Longrightarrow> rup_step pb pb'
     \<and> (r = Some True \<longrightarrow> Some [] \<in> lineClause ` set lines \<longrightarrow> (\<forall>a. \<not> sat_all a (base pb')))"
proof (induction pb lines rule: chanLoop.induct)
  case (2 pb line lines)
  obtain pb1 q where l: "checkLine pb line = Some (pb1, q)"
    using "2.prems"(2) by (auto simp: bind_eq_Some_conv)
  note c = checkLine_spec [OF "2.prems"(1) l]
  have inv1: "rup_inv pb1" using c by (simp add: rup_step_def)
  show ?case
  proof (cases q)
    case Skipped
    then show ?thesis
      using "2.IH"(1) [OF l refl Skipped inv1] "2.prems"(2) l c rup_step_trans [of pb pb1 pb'] by auto
  next
    case (Checked cl)
    define pb2 where "pb2 = pb1\<lparr>e_Clauses := e_Clauses pb1 @ [cl]\<rparr>"
    have s2: "rup_step pb1 pb2" unfolding pb2_def using c Checked by (intro learn_step [OF inv1]) auto
    then have inv2: "rup_inv pb2" by (simp add: rup_step_def)
    show ?thesis
    proof (cases "cl = []")
      case True
      then show ?thesis using c Checked "2.prems"(2) l by auto
    next
      case False
      have "rup_step pb2 pb'
        \<and> (r = Some True \<longrightarrow> Some [] \<in> lineClause ` set lines \<longrightarrow> (\<forall>a. \<not> sat_all a (base pb')))"
        using "2.IH"(2) [OF l refl Checked] "2.prems"(2) l Checked False inv2 by (auto simp: pb2_def)
      then show ?thesis
        using c Checked False rup_step_trans [of pb pb1] rup_step_trans [OF s2, of pb'] by auto
    qed
  qed (use "2.prems"(2) l c in auto)
qed (simp add: rup_step_refl)

section \<open>The whole check\<close>

text \<open>
  A problem as the parser and the constructors build it: as many clauses as announced, literals of
  its variables, and a unit for a variable only if there is a unit clause for it.
\<close>

definition problem_ok :: "explainPb \<Rightarrow> bool" where
  "problem_ok pb \<longleftrightarrow> e_NbClauses pb = length (e_Clauses pb) \<and> vals_ok (e_units pb)
     \<and> (\<forall>c \<in> set (e_Clauses pb). \<forall>l \<in> set c. ilit_ok (e_units pb) l)
     \<and> (\<forall>v < length (e_units pb). e_units pb ! v \<noteq> 0 \<longrightarrow> [e_units pb ! v * (int v + 1)] \<in> set (e_Clauses pb))"

lemma tagUnits_spec:
  "i + length cs \<le> length t \<Longrightarrow> wp (tagUnits cs i t) (\<lambda>t'. length t' = length t
     \<and> (\<forall>j < length cs. t' ! (i + j) = (length (cs ! j) = 1)) \<and> (\<forall>j < i. t' ! j = t ! j))"
proof (induction cs arbitrary: i t)
  case (Cons c cs)
  have "wp (tagUnits cs (Suc i) (t[i := length c = 1])) (\<lambda>t'. length t' = length t
     \<and> (\<forall>j < length cs. t' ! (Suc i + j) = (length (cs ! j) = 1))
     \<and> (\<forall>j < Suc i. t' ! j = t[i := length c = 1] ! j))"
    using Cons.IH [of "Suc i" "t[i := length c = 1]"] Cons.prems by simp
  then show ?case
    using Cons.prems by (auto elim!: wp_mono simp: nth_Cons split: nat.splits)
qed simp

lemma initTagged_spec:
  assumes "problem_ok pb"
  shows "wp (initTagged pb) (\<lambda>pb'. rup_inv pb' \<and> e_Clauses pb' = e_Clauses pb \<and> e_NbClauses pb' = e_NbClauses pb
    \<and> e_NbVars pb' = e_NbVars pb)"
proof -
  have n: "e_NbClauses pb = length (e_Clauses pb)" using assms by (simp add: problem_ok_def)
  obtain t where t: "tagUnits (e_Clauses pb) 0 (replicate (e_NbClauses pb) False) = Some t"
    "length t = e_NbClauses pb" "\<And>j. j < e_NbClauses pb \<Longrightarrow> t ! j = (length (e_Clauses pb ! j) = 1)"
    using tagUnits_spec [of 0 "e_Clauses pb" "replicate (e_NbClauses pb) False"] n by (auto simp: wp_iff)
  define pb' where "pb' = pb\<lparr>e_tagged := t\<rparr>"
  have ok: "exp_ok pb'" using assms t n by (simp add: problem_ok_def exp_ok_def pb'_def)
  have "agree a (e_units pb)" if "sat_all a (base pb')" for a
    unfolding agree_def
  proof (intro allI impI)
    fix v assume v: "v < length (e_units pb)" "e_units pb ! v \<noteq> 0"
    let ?l = "e_units pb ! v * (int v + 1)"
    have "[?l] \<in> set (e_Clauses pb)" using assms v by (simp add: problem_ok_def)
    then obtain i where "i < e_NbClauses pb" "e_Clauses pb ! i = [?l]" using n by (metis in_set_conv_nth)
    then have "[?l] \<in> base pb'" using t(3) [of i] unfolding base_def pb'_def by force
    then have "ilit_true a ?l" using that by (auto simp: sat_all_def)
    moreover have "e_units pb ! v \<in> {- 1, 1}"
    proof -
      have "e_units pb ! v \<in> {- 1, 0, 1}" using assms nth_mem [OF v(1)] unfolding problem_ok_def vals_ok_def by blast
      then show ?thesis using v(2) by simp
    qed
    ultimately show "a (int v) = (e_units pb ! v = 1)"
      by (auto simp: lit_true_def)
  qed
  then have "rup_inv pb'"
    using ok n by (simp add: rup_inv_def learned_def sat_all_def pb'_def)
  then show ?thesis using t(1) by (simp add: initTagged_def pb'_def)
qed

lemma taggedClauses_spec:
  "i + length cs \<le> length t \<Longrightarrow> wp (taggedClauses cs t i) (\<lambda>ds. set ds = {cs ! j |j. j < length cs \<and> t ! (i + j)})"
proof (induction cs arbitrary: i)
  case (Cons c cs)
  have "{(c # cs) ! j |j. j < length (c # cs) \<and> t ! (i + j)}
      = (if t ! i then {c} else {}) \<union> {cs ! j |j. j < length cs \<and> t ! (Suc i + j)}"
    (is "?L = ?R")
  proof (rule set_eqI)
    fix x
    have zs: "(\<exists>j. P j) \<longleftrightarrow> P 0 \<or> (\<exists>j. P (Suc j))" for P :: "nat \<Rightarrow> bool"
      by (metis not0_implies_Suc)
    show "x \<in> ?L \<longleftrightarrow> x \<in> ?R"
      unfolding mem_Collect_eq by (subst zs) auto
  qed
  then show ?case
    using Cons.IH [of "Suc i"] Cons.prems by (auto elim!: wp_mono)
qed simp

text \<open>
  The contract of the loop over the lines, which \<open>Unsat\<close> and \<open>UnsatChan\<close> share: it keeps the
  invariant, and once a line held the empty clause the tagged clauses are unsatisfiable.
\<close>

locale rup_check =
  fixes loop :: "explainPb \<Rightarrow> string list \<Rightarrow> (explainPb \<times> bool option) option"
  assumes loop_spec: "rup_inv pb \<Longrightarrow> loop pb lines = Some (pb', r) \<Longrightarrow> rup_step pb pb'
     \<and> (r = Some True \<longrightarrow> Some [] \<in> lineClause ` set lines \<longrightarrow> (\<forall>a. \<not> sat_all a (base pb')))"
begin

lemma check_keeps:
  assumes ok: "problem_ok pb"
    and run: "do { pb \<leftarrow> initTagged pb; (pb, r) \<leftarrow> loop pb lines; Some (restore pb, r) } = Some (pb', r)"
  obtains pb0 pb1 where "rup_inv pb0" and "e_Clauses pb0 = e_Clauses pb" and "e_NbClauses pb0 = e_NbClauses pb"
    and "e_NbVars pb0 = e_NbVars pb" and "loop pb0 lines = Some (pb1, r)" and "rup_step pb0 pb1" and "pb' = pb1\<lparr>e_Clauses := e_Clauses pb\<rparr>"
proof -
  obtain pb0 where i: "initTagged pb = Some pb0" "rup_inv pb0" "e_Clauses pb0 = e_Clauses pb"
    "e_NbClauses pb0 = e_NbClauses pb" "e_NbVars pb0 = e_NbVars pb"
    using initTagged_spec [OF ok] by (auto simp: wp_iff)
  obtain pb1 where l: "loop pb0 lines = Some (pb1, r)" "restore pb1 = pb'"
    using run i(1) by (auto simp: bind_eq_Some_conv)
  have st: "rup_step pb0 pb1" using loop_spec [OF i(2) l(1)] ..
  have "pb' = pb1\<lparr>e_Clauses := take (e_NbClauses pb) (e_Clauses pb1)\<rparr>"
    using l(2) st i(4) by (auto simp: restore_def rup_step_def rup_inv_def exp_ok_def)
  moreover have "take (e_NbClauses pb) (e_Clauses pb1) = e_Clauses pb"
    using st i(3,4) ok by (simp add: rup_step_def problem_ok_def)
  ultimately show ?thesis using that i l(1) st by simp
qed

lemma check_sound:
  assumes ok: "problem_ok pb"
    and run: "do { pb \<leftarrow> initTagged pb; (pb, r) \<leftarrow> loop pb lines; Some (restore pb, r) }
      = Some (pb', Some True)"
    and empty: "Some [] \<in> lineClause ` set lines"
  shows "e_Clauses pb' = e_Clauses pb \<and> wp (taggedClauses (e_Clauses pb') (e_tagged pb') 0)
    (\<lambda>cs. set cs \<subseteq> set (e_Clauses pb) \<and> (\<forall>a. \<not> cnf_sat a cs))"
proof -
  obtain pb0 pb1 where i: "rup_inv pb0" "e_Clauses pb0 = e_Clauses pb" "e_NbClauses pb0 = e_NbClauses pb"
    and l: "loop pb0 lines = Some (pb1, Some True)" and st: "rup_step pb0 pb1" and r: "pb' = pb1\<lparr>e_Clauses := e_Clauses pb\<rparr>"
    by (rule check_keeps [OF ok run])
  have ns: "\<And>a. \<not> sat_all a (base pb1)" using loop_spec [OF i(1) l] empty by auto
  have n: "e_NbClauses pb = length (e_Clauses pb)" using ok by (simp add: problem_ok_def)
  have t: "length (e_tagged pb1) = e_NbClauses pb" using st i by (simp add: rup_step_def rup_inv_def exp_ok_def)
  have "base pb1 = {e_Clauses pb ! j |j. j < length (e_Clauses pb) \<and> e_tagged pb1 ! j}"
  proof -
    have "e_Clauses pb1 ! j = e_Clauses pb ! j" if "j < e_NbClauses pb" for j
      using st i that unfolding rup_step_def by (metis nth_take)
    moreover have "e_NbClauses pb1 = e_NbClauses pb" using st i by (simp add: rup_step_def)
    ultimately show ?thesis unfolding base_def n by (intro Collect_cong ex_cong1) (auto simp: n)
  qed
  moreover have "wp (taggedClauses (e_Clauses pb) (e_tagged pb1) 0)
      (\<lambda>cs. set cs = {e_Clauses pb ! j |j. j < length (e_Clauses pb) \<and> e_tagged pb1 ! j})"
    using taggedClauses_spec [of 0 "e_Clauses pb" "e_tagged pb1"] t n by simp
  ultimately show ?thesis
    using ns r by (auto elim!: wp_mono simp: sat_all_def cnf_sat_def)
qed

end

interpretation cert: rup_check "certLoop scanErr" for scanErr
  by unfold_locales (rule certLoop_spec)

interpretation chan: rup_check chanLoop
  by unfold_locales (rule chanLoop_spec)

text \<open>
  C13. A certificate that \<open>Unsat\<close> accepts and that contains the empty clause proves the problem
  unsatisfiable: the clauses the check tagged, all from the problem, have no model.
\<close>

theorem Unsat_sound:
  assumes "problem_ok pb" and "e_Unsat pb cert = Some (pb', Some True)"
    and "Some [] \<in> lineClause ` set (fst (scanLines cert))"
  shows "e_Clauses pb' = e_Clauses pb \<and> (\<forall>a. \<not> cnf_sat a (e_Clauses pb))
    \<and> wp (taggedClauses (e_Clauses pb') (e_tagged pb') 0) (\<lambda>cs. set cs \<subseteq> set (e_Clauses pb) \<and> (\<forall>a. \<not> cnf_sat a cs))"
  using cert.check_sound [OF assms(1) assms(2) [unfolded e_Unsat_def Let_def case_prod_beta [of _ "scanLines cert"]] assms(3)]
  by (auto simp: wp_iff cnf_sat_def) blast

text \<open>
  C27. The same for certificates read from the channel of a running solver, which is what the
  extraction of an unsatisfiable subset relies on: when the empty clause came through the channel and
  the check accepts, the tagged clauses have no model.
\<close>

theorem UnsatChan_sound:
  assumes "problem_ok pb" and "UnsatChan pb ch = Some (pb', Some True)"
    and "Some [] \<in> lineClause ` set ch"
  shows "e_Clauses pb' = e_Clauses pb \<and> (\<forall>a. \<not> cnf_sat a (e_Clauses pb))
    \<and> wp (taggedClauses (e_Clauses pb') (e_tagged pb') 0) (\<lambda>cs. set cs \<subseteq> set (e_Clauses pb) \<and> (\<forall>a. \<not> cnf_sat a cs))"
  using chan.check_sound [OF assms(1) assms(2) [unfolded UnsatChan_def] assms(3)]
  by (auto simp: wp_iff cnf_sat_def) blast

definition rupExample :: explainPb where
  "rupExample = \<lparr>e_Clauses = [[1, 2], [- 1, 2], [1, - 2], [- 1, - 2]], e_NbVars = 2, e_NbClauses = 4,
     e_units = [0, 0], e_tagged = []\<rparr>"

lemma rupExample_ok: "problem_ok rupExample"
  by (simp add: rupExample_def problem_ok_def vals_ok_def ilit_ok_def less_Suc_eq numeral_2_eq_2)

definition rupCert :: string where
  "rupCert = joinLines [''c learned'', ''2 0'', ''0'']"

theorem Unsat_sound_witness:
  "\<exists>pb'. e_Unsat rupExample rupCert = Some (pb', Some True)
     \<and> e_Clauses pb' = e_Clauses rupExample \<and> (\<forall>a. \<not> cnf_sat a (e_Clauses rupExample))
     \<and> wp (taggedClauses (e_Clauses pb') (e_tagged pb') 0)
         (\<lambda>cs. set cs \<subseteq> set (e_Clauses rupExample) \<and> (\<forall>a. \<not> cnf_sat a cs))"
proof -
  have "map_option snd (e_Unsat rupExample rupCert) = Some (Some True)"
    by code_simp
  then obtain pb' where r: "e_Unsat rupExample rupCert = Some (pb', Some True)"
    by auto
  have "Some [] \<in> lineClause ` set (fst (scanLines rupCert))" by code_simp
  from Unsat_sound [OF rupExample_ok r this] r show ?thesis by blast
qed

theorem UnsatChan_sound_witness:
  "\<exists>pb'. UnsatChan rupExample [''2 0'', ''0''] = Some (pb', Some True)
     \<and> e_Clauses pb' = e_Clauses rupExample \<and> (\<forall>a. \<not> cnf_sat a (e_Clauses rupExample))
     \<and> wp (taggedClauses (e_Clauses pb') (e_tagged pb') 0)
         (\<lambda>cs. set cs \<subseteq> set (e_Clauses rupExample) \<and> (\<forall>a. \<not> cnf_sat a cs))"
proof -
  have "map_option snd (UnsatChan rupExample [''2 0'', ''0'']) = Some (Some True)"
    by code_simp
  then obtain pb' where r: "UnsatChan rupExample [''2 0'', ''0''] = Some (pb', Some True)"
    by auto
  have "Some [] \<in> lineClause ` set [''2 0'', ''0'']" by code_simp
  from UnsatChan_sound [OF rupExample_ok r this] r show ?thesis by blast
qed

lemma initTagged_total: "length (e_Clauses pb) \<le> e_NbClauses pb \<Longrightarrow> initTagged pb \<noteq> None"
  using tagUnits_spec [of 0 "e_Clauses pb" "replicate (e_NbClauses pb) False"]
  by (auto simp: initTagged_def wp_iff)

text \<open>A line that the loops skip.\<close>

definition comment :: "string \<Rightarrow> bool" where
  "comment line \<longleftrightarrow> Fields line = [] \<or> Atoi (hd (Fields line)) = None"

lemma checkLine_comment: "comment line \<Longrightarrow> checkLine pb line = Some (pb, Skipped)"
  by (cases "Fields line") (simp_all add: checkLine_def comment_def)

lemma loops_comments:
  assumes "\<forall>line \<in> set lines. comment line"
  shows "certLoop scanErr pb lines = Some (pb, if scanErr then None else Some True)"
    and "chanLoop pb lines = Some (pb, Some True)"
  using assms by (induction lines) (simp_all add: checkLine_comment)

text \<open>
  C33. Both checks answer true, for every problem that has no more clauses than it announces, when no
  line of the certificate is taken for a clause: the loops end without asking whether the empty
  clause was met. So an empty certificate is valid for every problem, satisfiable or not.
\<close>

theorem empty_certificate_accepted:
  assumes "length (e_Clauses pb) \<le> e_NbClauses pb"
    and "\<forall>line \<in> set ch. comment line"
    and "scanLines cert = (lines, False)" and "\<forall>line \<in> set lines. comment line"
  shows "wp (UnsatChan pb ch) (\<lambda>(pb', r). r = Some True) \<and> wp (e_Unsat pb cert) (\<lambda>(pb', r). r = Some True)"
  using initTagged_total [OF assms(1)] assms(2-4)
  by (auto simp: UnsatChan_def e_Unsat_def loops_comments)

definition unitExample :: explainPb where
  "unitExample = \<lparr>e_Clauses = [[1]], e_NbVars = 1, e_NbClauses = 1, e_units = [1], e_tagged = []\<rparr>"

theorem empty_certificate_accepted_witness:
  "wp (UnsatChan unitExample [''c done'']) (\<lambda>(pb', r). r = Some True)
   \<and> wp (e_Unsat unitExample []) (\<lambda>(pb', r). r = Some True) \<and> cnf_sat (\<lambda>v. True) (e_Clauses unitExample)"
proof -
  have "comment ''c done''" by code_simp
  moreover have "cnf_sat (\<lambda>v. True) (e_Clauses unitExample)"
    by (simp add: unitExample_def cnf_sat_def lit_true_def)
  ultimately show ?thesis
    using empty_certificate_accepted [of unitExample "[''c done'']" "[]" "[]"]
    by (simp add: scanLines_def unitExample_def)
qed

end
