(* ===== verification/ExplainParser.thy ===== *)
theory ExplainParser
  imports Rup
begin

text \<open>
  Model of \<open>explain/parser.go\<close>, the reader of DIMACS files of the \<open>explain\<close> package, and of the
  printer \<open>CNF\<close> of \<open>explain/problem.go\<close>. A file is its text. The result is an error (\<open>Inl\<close>), the
  scanner's included, or a problem (\<open>Inr\<close>), \<open>None\<close> when the reader panics. \<open>clone\<close>, \<open>satClause\<close> and \<open>makeMus\<close> of
  \<open>explain/mus.go\<close> are here as well.
\<close>

section \<open>The reader\<close>

datatype cnf_error =
    WrongHeader nat
  | InvalidNbVars string
  | NegativeNbVars int
  | InvalidNbClauses string
  | NegativeNbClauses int
  | InvalidClause
  | LitOutOfRange int
  | ScanError

definition emptyExplainPb :: explainPb where
  "emptyExplainPb = \<lparr>e_Clauses = [], e_NbVars = 0, e_NbClauses = 0, e_units = [], e_tagged = []\<rparr>"

text \<open>The units are integers of 8 bytes, the clauses slices of 24.\<close>

definition parseHeader :: "explainPb \<Rightarrow> string list \<Rightarrow> (cnf_error + explainPb) option" where
  "parseHeader pb fs =
     (if length fs \<noteq> 4 then Some (Inl (WrongHeader (length fs)))
      else case Atoi (fs ! 2) of
        None \<Rightarrow> Some (Inl (InvalidNbVars (fs ! 2)))
      | Some nbVars \<Rightarrow>
          if nbVars < 0 then Some (Inl (NegativeNbVars nbVars))
          else if \<not> makeFits 8 nbVars then None
          else case Atoi (fs ! 3) of
            None \<Rightarrow> Some (Inl (InvalidNbClauses (fs ! 3)))
          | Some nbClauses \<Rightarrow>
              if nbClauses < 0 then Some (Inl (NegativeNbClauses nbClauses))
              else if \<not> makeFits 24 nbClauses then None
              else Some (Inr (pb\<lparr>e_NbVars := nbVars, e_units := replicate (nat nbVars) 0,
                          e_NbClauses := nat nbClauses, e_Clauses := []\<rparr>)))"

text \<open>The negation of the least 64-bit integer is itself, below every bound.\<close>

definition e_parseClause :: "explainPb \<Rightarrow> string list \<Rightarrow> (cnf_error + explainPb) option" where
  "e_parseClause pb fs = (case parseClauseFields fs of
     None \<Rightarrow> Some (Inl InvalidClause)
   | Some c \<Rightarrow>
       let pb = pb\<lparr>e_Clauses := e_Clauses pb @ [c]\<rparr> in
       if length c = 1 then
         let l = c ! 0; v = (if l < 0 then int64 (- l) else l) in
         if v > e_NbVars pb then Some (Inl (LitOutOfRange l))
         else do {
           us \<leftarrow> puti (e_units pb) (v - 1) (if l > 0 then 1 else - 1);
           Some (Inr (pb\<lparr>e_units := us\<rparr>)) }
       else Some (Inr pb))"

text \<open>The loop over the lines, and the error of the scanner after the last one.\<close>

fun parseCNFLines :: "bool \<Rightarrow> explainPb \<Rightarrow> string list \<Rightarrow> (cnf_error + explainPb) option" where
  "parseCNFLines scanErr pb [] = Some (if scanErr then Inl ScanError else Inr pb)"
| "parseCNFLines scanErr pb (line # lines) =
     (case Fields line of
        [] \<Rightarrow> parseCNFLines scanErr pb lines
      | f # fs \<Rightarrow>
          if f = ''c'' then parseCNFLines scanErr pb lines
          else do {
            r \<leftarrow> (if f = ''p'' then parseHeader pb (f # fs) else e_parseClause pb (f # fs));
            case r of Inl e \<Rightarrow> Some (Inl e) | Inr pb \<Rightarrow> parseCNFLines scanErr pb lines })"

definition e_ParseCNF :: "string \<Rightarrow> (cnf_error + explainPb) option" where
  "e_ParseCNF text = (let (lines, scanErr) = scanLines text in parseCNFLines scanErr emptyExplainPb lines)"

section \<open>The printer and the small operations\<close>

definition clauseLine :: "int list \<Rightarrow> string" where
  "clauseLine c = joinSpace (map showInt c @ [''0''])"

definition headerLine :: "int \<Rightarrow> int \<Rightarrow> string" where
  "headerLine nbVars nbClauses = joinSpace [''p'', ''cnf'', showInt nbVars, showInt nbClauses]"

text \<open>The lines that \<open>CNF\<close> joins with newlines.\<close>

fun clauseLines :: "int list list \<Rightarrow> nat \<Rightarrow> nat \<Rightarrow> string list option" where
  "clauseLines cs i 0 = Some []"
| "clauseLines cs i (Suc n) = do {
     c \<leftarrow> get cs i;
     rest \<leftarrow> clauseLines cs (Suc i) n;
     Some (clauseLine c # rest) }"

definition e_CNF :: "explainPb \<Rightarrow> string option" where
  "e_CNF pb = do {
     ls \<leftarrow> clauseLines (e_Clauses pb) 0 (e_NbClauses pb);
     Some (joinLines (headerLine (e_NbVars pb) (int (e_NbClauses pb)) # ls)) }"

fun satClause :: "int list \<Rightarrow> bool list \<Rightarrow> bool option" where
  "satClause [] model = Some False"
| "satClause (l # ls) model = do {
     pos \<leftarrow> (if l > 0 then geti model (l - 1) else Some False);
     if pos then Some True
     else do {
       neg \<leftarrow> (if l < 0 then (do { b \<leftarrow> geti model (- l - 1); Some (\<not> b) }) else Some False);
       if neg then Some True else satClause ls model } }"

fun musUnits :: "int list \<Rightarrow> int list list \<Rightarrow> int list option" where
  "musUnits us [] = Some us"
| "musUnits us (c # cs) =
     (if length c = 1 then do {
        us \<leftarrow> (if c ! 0 > 0 then puti us (c ! 0 - 1) 1 else puti us (- (c ! 0) - 1) (- 1));
        musUnits us cs }
      else musUnits us cs)"

definition makeMus :: "nat \<Rightarrow> int list list \<Rightarrow> explainPb option" where
  "makeMus nbVars cs = do {
     us \<leftarrow> musUnits (replicate nbVars 0) cs;
     Some \<lparr>e_Clauses = cs, e_NbVars = int nbVars, e_NbClauses = length cs, e_units = us, e_tagged = []\<rparr> }"

text \<open>\<open>clone\<close> copies the clauses into a slice of the announced length, padded with empty clauses.\<close>

definition clone :: "explainPb \<Rightarrow> explainPb option" where
  "clone pb =
     (if length (e_Clauses pb) > e_NbClauses pb then None
      else Some \<lparr>e_Clauses = e_Clauses pb @ replicate (e_NbClauses pb - length (e_Clauses pb)) [],
                 e_NbVars = e_NbVars pb, e_NbClauses = e_NbClauses pb,
                 e_units = copyPad (nat (e_NbVars pb)) (e_units pb), e_tagged = []\<rparr>)"

section \<open>The reader builds consistent problems\<close>

text \<open>What holds after every line: units of the variables announced, each with its unit clause.\<close>

definition reading :: "explainPb \<Rightarrow> bool" where
  "reading pb \<longleftrightarrow> int (length (e_units pb)) = e_NbVars pb \<and> vals_ok (e_units pb)
     \<and> (\<forall>c \<in> set (e_Clauses pb). 0 \<notin> set c)
     \<and> (\<forall>v < length (e_units pb). e_units pb ! v \<noteq> 0 \<longrightarrow> [e_units pb ! v * (int v + 1)] \<in> set (e_Clauses pb))"

lemma parseClauseFields_nonzero: "parseClauseFields fs = Some c \<Longrightarrow> 0 \<notin> set c"
  by (induction fs arbitrary: c) (auto split: option.splits if_splits)

text \<open>A line whose numbers are far from the ends of the 64-bit integers.\<close>

definition tame :: "string list \<Rightarrow> bool" where
  "tame fs \<longleftrightarrow> (\<forall>f \<in> set fs. \<forall>n. Atoi f = Some n \<longrightarrow> \<bar>n\<bar> < 2 ^ 43)"

lemma parseClauseFields_tame: "parseClauseFields fs = Some c \<Longrightarrow> tame fs \<Longrightarrow> \<forall>l \<in> set c. \<bar>l\<bar> < 2 ^ 43"
  by (induction fs arbitrary: c) (auto simp: tame_def split: option.splits if_splits)

lemma parseHeader_reading:
  "wlp (parseHeader pb fs) (\<lambda>r. case r of Inl e \<Rightarrow> True | Inr pb' \<Rightarrow> reading pb')"
  by (auto simp: parseHeader_def reading_def vals_ok_def split: if_splits option.splits)

lemma parseHeader_tame: "tame fs \<Longrightarrow> parseHeader pb fs \<noteq> None"
proof -
  assume "tame fs"
  then have "\<bar>n\<bar> < 2 ^ 43" if "Atoi (fs ! i) = Some n" "i < length fs" for i n
    using that by (auto simp: tame_def)
  then show ?thesis by (fastforce simp: parseHeader_def makeFits_def split: option.splits)
qed

lemma reading_add:
  assumes "reading pb" and "0 \<notin> set c"
  shows "reading (pb\<lparr>e_Clauses := e_Clauses pb @ [c]\<rparr>)"
  using assms by (simp add: reading_def)

lemma reading_unit:
  assumes "reading pb" and "l \<noteq> 0" and "\<bar>l\<bar> \<le> e_NbVars pb"
  shows "reading (pb\<lparr>e_Clauses := e_Clauses pb @ [[l]],
    e_units := (e_units pb)[nat (\<bar>l\<bar> - 1) := if l > 0 then 1 else - 1]\<rparr>)"
proof -
  define v s where "v = nat (\<bar>l\<bar> - 1)" and "s = (if l > 0 then 1 else - 1 :: int)"
  have v: "v < length (e_units pb)" "\<bar>l\<bar> = int v + 1"
    using assms by (auto simp: v_def reading_def)
  then have sl: "s * (int v + 1) = l" by (auto simp: s_def abs_if split: if_splits)
  have "[((e_units pb)[v := s]) ! u * (int u + 1)] \<in> set (e_Clauses pb @ [[l]])"
    if "u < length (e_units pb)" "(e_units pb)[v := s] ! u \<noteq> 0" for u
    using that assms(1) v(1) sl by (cases "u = v") (simp_all add: reading_def)
  moreover have "vals_ok ((e_units pb)[v := s])"
    using assms(1) by (intro vals_ok_update) (simp_all add: reading_def s_def)
  ultimately show ?thesis
    using assms unfolding v_def [symmetric] s_def [symmetric] by (simp add: reading_def)
qed

lemma e_parseClause_reading:
  assumes "reading pb"
  shows "wlp (e_parseClause pb fs) (\<lambda>r. case r of Inl e \<Rightarrow> True | Inr pb' \<Rightarrow> reading pb')"
    and "tame fs \<Longrightarrow> e_parseClause pb fs \<noteq> None"
proof -
  have "wlp (e_parseClause pb fs) (\<lambda>r. case r of Inl e \<Rightarrow> True | Inr pb' \<Rightarrow> reading pb')
    \<and> (tame fs \<longrightarrow> e_parseClause pb fs \<noteq> None)"
  proof (cases "parseClauseFields fs")
    case (Some c)
    have nz: "0 \<notin> set c" by (rule parseClauseFields_nonzero [OF Some])
    show ?thesis
    proof (cases "length c = 1")
      case False
      then show ?thesis using Some reading_add [OF assms nz] by (simp add: e_parseClause_def Let_def)
    next
      case True
      then obtain l where c: "c = [l]" by (auto simp: length_Suc_conv)
      define v where "v = (if l < 0 then int64 (- l) else l)"
      have l: "l \<noteq> 0" using nz c by auto
      have e: "e_parseClause pb fs = (if v > e_NbVars pb then Some (Inl (LitOutOfRange l)) else do {
           us \<leftarrow> puti (e_units pb) (v - 1) (if l > 0 then 1 else - 1);
           Some (Inr (pb\<lparr>e_Clauses := e_Clauses pb @ [[l]], e_units := us\<rparr>)) })"
        by (simp add: e_parseClause_def Let_def Some c v_def [symmetric])
      consider "v = \<bar>l\<bar>" | "v \<le> 0" "\<not> tame fs"
      proof (cases "\<bar>l\<bar> < 2 ^ 63")
        case False
        then have "\<not> tame fs" using parseClauseFields_tame [OF Some] c by force
        moreover have "\<bar>l\<bar> \<le> 2 ^ 63"
          using Some c by (induction fs) (auto simp: Atoi_def inInt64_def Let_def split: option.splits if_splits)
        moreover have "l < 2 ^ 63"
          using Some c by (induction fs) (auto simp: Atoi_def inInt64_def Let_def split: option.splits if_splits)
        ultimately have "l = - (2 ^ 63)" "\<not> tame fs" using False by auto
        then show ?thesis using that(2) by (simp add: v_def int64_def)
      qed (auto simp: v_def int64_abs)
      then show ?thesis
      proof cases
        case 1
        show ?thesis
        proof (cases "\<bar>l\<bar> > e_NbVars pb")
          case False
          then have "0 \<le> \<bar>l\<bar> - 1" "\<bar>l\<bar> - 1 < int (length (e_units pb))"
            using l assms by (auto simp: reading_def)
          then show ?thesis
            using False reading_unit [OF assms l] by (simp add: e 1 puti_def)
        qed (simp add: e 1)
      next
        case 2
        then show ?thesis by (simp add: e)
      qed
    qed
  qed (simp add: e_parseClause_def)
  then show "wlp (e_parseClause pb fs) (\<lambda>r. case r of Inl e \<Rightarrow> True | Inr pb' \<Rightarrow> reading pb')"
    "tame fs \<Longrightarrow> e_parseClause pb fs \<noteq> None" by simp_all
qed

text \<open>One step of the loop: the header or a clause.\<close>

definition lineStep :: "explainPb \<Rightarrow> string list \<Rightarrow> (cnf_error + explainPb) option" where
  "lineStep pb fs = (if hd fs = ''p'' then parseHeader pb fs else e_parseClause pb fs)"

lemma lineStep_reading:
  assumes "reading pb"
  shows "wlp (lineStep pb fs) (\<lambda>r. case r of Inl e \<Rightarrow> True | Inr pb' \<Rightarrow> reading pb')"
    and "tame fs \<Longrightarrow> lineStep pb fs \<noteq> None"
  using e_parseClause_reading [OF assms] parseHeader_reading parseHeader_tame
  by (auto simp: lineStep_def)

lemma parseCNFLines_Cons:
  "parseCNFLines scanErr pb (line # lines) =
     (if Fields line = [] \<or> hd (Fields line) = ''c'' then parseCNFLines scanErr pb lines
      else do { r \<leftarrow> lineStep pb (Fields line);
                case r of Inl e \<Rightarrow> Some (Inl e) | Inr pb \<Rightarrow> parseCNFLines scanErr pb lines })"
  by (cases "Fields line") (simp_all add: lineStep_def)

declare parseCNFLines.simps(2) [simp del]

lemma parseCNFLines_reading:
  "reading pb \<Longrightarrow> wlp (parseCNFLines scanErr pb lines) (\<lambda>r. case r of Inl e \<Rightarrow> True | Inr pb' \<Rightarrow> reading pb')
     \<and> ((\<forall>line \<in> set lines. tame (Fields line)) \<longrightarrow> parseCNFLines scanErr pb lines \<noteq> None)"
proof (induction lines arbitrary: pb)
  case (Cons line lines)
  show ?case
  proof (cases "Fields line = [] \<or> hd (Fields line) = ''c''")
    case False
    note step = lineStep_reading [OF Cons.prems, of "Fields line"]
    show ?thesis
    proof (cases "lineStep pb (Fields line)")
      case (Some r)
      then show ?thesis using step Cons.IH False by (cases r) (auto simp: parseCNFLines_Cons)
    qed (use step False in \<open>auto simp: parseCNFLines_Cons\<close>)
  qed (use Cons in \<open>simp add: parseCNFLines_Cons\<close>)
qed simp

text \<open>
  C28. What the reader accepts is consistent, whatever the text: a problem that is read gives a value
  to a variable only if the file has the unit clause for it; when the file has as many clauses as
  its header announces and no literal beyond the announced variables, the problem meets the
  conditions of the checks. The reader does not panic on a text whose numbers are below \<open>2 ^ 43\<close> in
  absolute value; beyond, the header can ask for slices that do not fit, and the negation of the
  least integer overflows.
\<close>

theorem ParseCNF_consistent:
  "wlp (e_ParseCNF text) (\<lambda>r. case r of Inl e \<Rightarrow> True | Inr pb \<Rightarrow>
     (\<forall>v < length (e_units pb). e_units pb ! v \<noteq> 0 \<longrightarrow> [e_units pb ! v * (int v + 1)] \<in> set (e_Clauses pb))
     \<and> (e_NbClauses pb = length (e_Clauses pb) \<longrightarrow>
        (\<forall>c \<in> set (e_Clauses pb). \<forall>l \<in> set c. \<bar>l\<bar> \<le> e_NbVars pb) \<longrightarrow> problem_ok pb))
   \<and> ((\<forall>line \<in> set (fst (scanLines text)). tame (Fields line)) \<longrightarrow> e_ParseCNF text \<noteq> None)"
proof -
  have r: "reading emptyExplainPb" by (simp add: reading_def emptyExplainPb_def vals_ok_def)
  have ok: "(\<forall>v < length (e_units pb). e_units pb ! v \<noteq> 0 \<longrightarrow> [e_units pb ! v * (int v + 1)] \<in> set (e_Clauses pb))
     \<and> (e_NbClauses pb = length (e_Clauses pb) \<longrightarrow>
        (\<forall>c \<in> set (e_Clauses pb). \<forall>l \<in> set c. \<bar>l\<bar> \<le> e_NbVars pb) \<longrightarrow> problem_ok pb)" if "reading pb" for pb
    using that by (auto simp: reading_def problem_ok_def ilit_ok_def)
  note all = parseCNFLines_reading [OF r, of "snd (scanLines text)" "fst (scanLines text)"]
  have e: "e_ParseCNF text = parseCNFLines (snd (scanLines text)) emptyExplainPb (fst (scanLines text))"
    by (simp add: e_ParseCNF_def case_prod_beta)
  show ?thesis
    unfolding e using all by (intro conjI, elim conjE wlp_mono) (use ok in \<open>auto split: sum.split\<close>)
qed

section \<open>Round trip\<close>

lemma parseClauseFields_show:
  "\<forall>l \<in> set c. l \<noteq> 0 \<and> inInt64 l \<Longrightarrow> parseClauseFields (map showInt c @ [''0'']) = Some c"
proof (induction c)
  case Nil
  have "Atoi ''0'' = Some 0" by code_simp
  then show ?case by simp
qed auto

lemma showInt_not: "showInt n \<noteq> ''c''" "showInt n \<noteq> ''p''"
proof -
  have d: "\<not> isDigit CHR ''c''" "\<not> isDigit CHR ''p''" by (simp_all add: isDigit_def)
  have "itoa m \<noteq> ''c''" "itoa m \<noteq> ''p''" for m
    using itoa_hd [of m] d by auto
  then show "showInt n \<noteq> ''c''" "showInt n \<noteq> ''p''" by (auto simp: showInt_def)
qed

lemma wordLike_0: "wordLike ''0''"
  by (simp add: wordLike_def asciiSpace_def)

lemma Fields_clauseLine: "Fields (clauseLine c) = map showInt c @ [''0'']"
  unfolding clauseLine_def by (rule Fields_joinSpace) (auto simp: showInt_word wordLike_0)

lemma clauseLines_map:
  "i + n \<le> length cs \<Longrightarrow> clauseLines cs i n = Some (map clauseLine (take n (drop i cs)))"
proof (induction n arbitrary: i)
  case (Suc n)
  then have "drop i cs = cs ! i # drop (Suc i) cs" by (intro drop_nth) simp
  then show ?case using Suc by simp
qed simp

text \<open>Clauses that print and read back: no literal zero, and the unit clauses within the variables.\<close>

definition clause_prints :: "int \<Rightarrow> int list \<Rightarrow> bool" where
  "clause_prints n c \<longleftrightarrow> (\<forall>l \<in> set c. l \<noteq> 0 \<and> inInt64 l \<and> (length c = 1 \<longrightarrow> \<bar>l\<bar> \<le> n))
     \<and> length (clauseLine c) < 65536"

lemma clause_printsI:
  assumes "\<forall>l \<in> set c. l \<noteq> 0 \<and> inInt64 l \<and> (length c = 1 \<longrightarrow> \<bar>l\<bar> \<le> n)" and "length c \<le> 3000"
  shows "clause_prints n c"
proof -
  have "length (joinSpace ss) \<le> (\<Sum>s\<leftarrow>ss. length s + 1)" for ss
    by (induction ss rule: joinSpace.induct) auto
  from this [of "map showInt c @ [''0'']"]
  have "length (clauseLine c) \<le> (\<Sum>l\<leftarrow>c. length (showInt l) + 1) + 2"
    by (simp add: clauseLine_def comp_def)
  also have "(\<Sum>l\<leftarrow>c. length (showInt l) + 1) \<le> (\<Sum>l\<leftarrow>c. 21)"
    using assms(1) length_showInt by (intro sum_list_mono) auto
  also have "\<dots> = 21 * length c" by (simp add: sum_list_triv)
  finally show ?thesis using assms by (simp add: clause_prints_def)
qed

lemma lineStep_print:
  assumes "clause_prints (e_NbVars pb) c" and "int (length (e_units pb)) = e_NbVars pb" and "e_NbVars pb < 2 ^ 63"
  shows "\<exists>pb'. lineStep pb (map showInt c @ [''0'']) = Some (Inr pb') \<and> e_Clauses pb' = e_Clauses pb @ [c]
    \<and> e_NbVars pb' = e_NbVars pb \<and> e_NbClauses pb' = e_NbClauses pb \<and> length (e_units pb') = length (e_units pb)"
proof -
  have p: "parseClauseFields (map showInt c @ [''0'']) = Some c"
    using assms(1) by (intro parseClauseFields_show) (simp add: clause_prints_def)
  have h: "hd (map showInt c @ [''0'']) \<noteq> ''p''" using showInt_not by (cases c) auto
  show ?thesis
  proof (cases "length c = 1")
    case True
    then obtain l where c: "c = [l]" by (cases c) auto
    then have "l \<noteq> 0" "\<bar>l\<bar> \<le> e_NbVars pb" using assms(1) by (auto simp: clause_prints_def)
    moreover from this have "int64 (- l) = - l" using assms(3) by (intro int64_abs) simp
    ultimately show ?thesis
      using assms(2) p h c by (auto simp: lineStep_def e_parseClause_def Let_def puti_def)
  qed (use p h in \<open>simp add: lineStep_def e_parseClause_def Let_def\<close>)
qed

lemma parseCNFLines_print:
  "\<forall>c \<in> set cs. clause_prints (e_NbVars pb) c \<Longrightarrow> int (length (e_units pb)) = e_NbVars pb \<Longrightarrow> e_NbVars pb < 2 ^ 63 \<Longrightarrow>
   \<exists>pb'. parseCNFLines False pb (map clauseLine cs) = Some (Inr pb')
     \<and> e_Clauses pb' = e_Clauses pb @ cs \<and> e_NbVars pb' = e_NbVars pb \<and> e_NbClauses pb' = e_NbClauses pb"
proof (induction cs arbitrary: pb)
  case (Cons c cs)
  have ne: "Fields (clauseLine c) \<noteq> []" "hd (Fields (clauseLine c)) \<noteq> ''c''"
    using showInt_not by (cases c; simp add: Fields_clauseLine)+
  obtain pb1 where p: "lineStep pb (Fields (clauseLine c)) = Some (Inr pb1)" "e_Clauses pb1 = e_Clauses pb @ [c]"
    "e_NbVars pb1 = e_NbVars pb" "e_NbClauses pb1 = e_NbClauses pb" "length (e_units pb1) = length (e_units pb)"
    using lineStep_print [of pb c] Cons.prems unfolding Fields_clauseLine by auto
  then show ?case
    using Cons.IH [of pb1] Cons.prems ne by (auto simp: parseCNFLines_Cons)
qed simp

text \<open>A text with a header and clauses, whatever number of clauses the header announces.\<close>

definition cnfText :: "int \<Rightarrow> nat \<Rightarrow> int list list \<Rightarrow> string" where
  "cnfText nbVars nbClauses cs = joinLines (headerLine nbVars (int nbClauses) # map clauseLine cs)"

lemma wordLike_p: "wordLike ''p''" "wordLike ''cnf''"
  by (simp_all add: wordLike_def asciiSpace_def)

lemma Fields_headerLine: "Fields (headerLine n k) = [''p'', ''cnf'', showInt n, showInt k]"
  unfolding headerLine_def by (rule Fields_joinSpace) (auto simp: showInt_word wordLike_p)

lemma headerLine_line: "inInt64 n \<Longrightarrow> inInt64 k \<Longrightarrow> lineLike (headerLine n k)"
  unfolding headerLine_def
proof (rule joinSpace_line)
  assume "inInt64 n" "inInt64 k"
  from this [THEN length_showInt]
  show "length (joinSpace [''p'', ''cnf'', showInt n, showInt k]) < 65536" by simp
qed (auto simp: showInt_word wordLike_p)

lemma clauseLine_line: "clause_prints n c \<Longrightarrow> lineLike (clauseLine c)" "clauseLine c \<noteq> []"
  unfolding clauseLine_def clause_prints_def
  by (rule joinSpace_line joinSpace_nonempty; auto simp: showInt_word wordLike_0)+

lemma e_ParseCNF_text:
  assumes "makeFits 8 n" and "makeFits 24 (int k)" and "\<forall>c \<in> set cs. clause_prints n c"
  shows "\<exists>pb. e_ParseCNF (cnfText n k cs) = Some (Inr pb) \<and> e_Clauses pb = cs \<and> e_NbVars pb = n \<and> e_NbClauses pb = k"
proof -
  have fit: "inInt64 n" "inInt64 (int k)" "0 \<le> n" "n < 2 ^ 63" using assms(1,2) by (auto simp: makeFits_def inInt64_def)
  have "headerLine n (int k) \<noteq> []"
    unfolding headerLine_def by (rule joinSpace_nonempty) (auto simp: showInt_word wordLike_p)
  then have sc: "scanLines (cnfText n k cs) = (headerLine n (int k) # map clauseLine cs, False)"
    unfolding cnfText_def using headerLine_line [OF fit(1,2)] clauseLine_line assms(3)
    by (intro scanLines_joinLines) (auto simp: last_map)
  define pb0 where "pb0 = emptyExplainPb\<lparr>e_NbVars := n, e_units := replicate (nat n) 0, e_NbClauses := k, e_Clauses := []\<rparr>"
  have "lineStep emptyExplainPb (Fields (headerLine n (int k))) = Some (Inr pb0)"
    using assms(1,2) fit by (simp add: lineStep_def Fields_headerLine parseHeader_def pb0_def)
  then have "e_ParseCNF (cnfText n k cs) = parseCNFLines False pb0 (map clauseLine cs)"
    by (simp add: e_ParseCNF_def sc parseCNFLines_Cons Fields_headerLine)
  then show ?thesis
    using parseCNFLines_print [of cs pb0] assms(3) fit by (simp add: pb0_def)
qed

text \<open>
  A problem that prints: as many clauses as announced, lines that fit the scanner's buffer, and
  slices that fit the memory.
\<close>

definition printable :: "explainPb \<Rightarrow> bool" where
  "printable pb \<longleftrightarrow> e_NbClauses pb = length (e_Clauses pb) \<and> makeFits 8 (e_NbVars pb)
     \<and> makeFits 24 (int (e_NbClauses pb)) \<and> (\<forall>c \<in> set (e_Clauses pb). clause_prints (e_NbVars pb) c)"

text \<open>
  C29. Reading back the text that \<open>CNF\<close> prints gives a problem with the same clauses, variables and
  number of clauses, for every problem that announces as many clauses as it has, whose unit clauses
  stay within its variables, whose lines are shorter than 64 kilobytes, and whose numbers of
  variables and clauses the reader can allocate.
\<close>

theorem ParseCNF_CNF:
  assumes "printable pb"
  shows "wp (do { text \<leftarrow> e_CNF pb; e_ParseCNF text }) (\<lambda>r. case r of Inl e \<Rightarrow> False
    | Inr pb' \<Rightarrow> e_Clauses pb' = e_Clauses pb \<and> e_NbVars pb' = e_NbVars pb \<and> e_NbClauses pb' = e_NbClauses pb)"
proof -
  have n: "e_NbClauses pb = length (e_Clauses pb)" using assms by (simp add: printable_def)
  then have "e_CNF pb = Some (cnfText (e_NbVars pb) (e_NbClauses pb) (e_Clauses pb))"
    using clauseLines_map [of 0 "e_NbClauses pb" "e_Clauses pb"] by (simp add: e_CNF_def cnfText_def)
  then show ?thesis
    using e_ParseCNF_text [of "e_NbVars pb" "e_NbClauses pb" "e_Clauses pb"] assms by (auto simp: printable_def)
qed

theorem ParseCNF_CNF_witness:
  "wp (do { text \<leftarrow> e_CNF rupExample; e_ParseCNF text }) (\<lambda>r. case r of Inl e \<Rightarrow> False
    | Inr pb' \<Rightarrow> e_Clauses pb' = e_Clauses rupExample \<and> e_NbVars pb' = e_NbVars rupExample
        \<and> e_NbClauses pb' = e_NbClauses rupExample)"
proof (rule ParseCNF_CNF)
  show "printable rupExample"
    by (simp add: printable_def rupExample_def inInt64_def makeFits_def clause_printsI)
qed

theorem ParseCNF_consistent_witness:
  "wlp (e_ParseCNF (cnfText 2 2 [[1], [- 1, 2]])) (\<lambda>r. case r of Inl e \<Rightarrow> True | Inr pb \<Rightarrow>
     (\<forall>v < length (e_units pb). e_units pb ! v \<noteq> 0 \<longrightarrow> [e_units pb ! v * (int v + 1)] \<in> set (e_Clauses pb))
     \<and> (e_NbClauses pb = length (e_Clauses pb) \<longrightarrow>
        (\<forall>c \<in> set (e_Clauses pb). \<forall>l \<in> set c. \<bar>l\<bar> \<le> e_NbVars pb) \<longrightarrow> problem_ok pb))
   \<and> e_ParseCNF (cnfText 2 2 [[1], [- 1, 2]]) \<noteq> None"
proof -
  have "\<forall>line \<in> set (fst (scanLines (cnfText 2 2 [[1], [- 1, 2]]))). list_all (\<lambda>f. case Atoi f of None \<Rightarrow> True
      | Some n \<Rightarrow> \<bar>n\<bar> < 2 ^ 43) (Fields line)"
    by code_simp
  then have "\<forall>line \<in> set (fst (scanLines (cnfText 2 2 [[1], [- 1, 2]]))). tame (Fields line)"
    by (fastforce simp: tame_def list_all_iff)
  then show ?thesis using ParseCNF_consistent [of "cnfText 2 2 [[1], [- 1, 2]]"] by blast
qed

lemma tagUnits_panics: "i \<le> length t \<Longrightarrow> length t < i + length cs \<Longrightarrow> tagUnits cs i t = None"
  by (induction cs arbitrary: i t) (auto simp: put_def)

text \<open>
  C36. The number of clauses in the header is trusted. A file that holds more clauses than its header
  announces is read without error, and both checks then panic when they tag its clauses, whatever
  the certificate.
\<close>

theorem header_count_panics:
  assumes "makeFits 8 n" and "makeFits 24 (int k)" and "\<forall>c \<in> set cs. clause_prints n c" and "k < length cs"
  shows "\<exists>pb. e_ParseCNF (cnfText n k cs) = Some (Inr pb) \<and> e_Clauses pb = cs
    \<and> e_Unsat pb cert = None \<and> UnsatChan pb ch = None"
proof -
  obtain pb where pb: "e_ParseCNF (cnfText n k cs) = Some (Inr pb)" "e_Clauses pb = cs" "e_NbClauses pb = k"
    using e_ParseCNF_text [OF assms(1-3)] by blast
  have "initTagged pb = None" using pb(2,3) assms(4) by (simp add: initTagged_def tagUnits_panics)
  then show ?thesis using pb by (simp add: e_Unsat_def UnsatChan_def)
qed

theorem header_count_panics_witness:
  "\<exists>pb. e_ParseCNF (cnfText 1 1 [[1], [- 1]]) = Some (Inr pb) \<and> e_Clauses pb = [[1], [- 1]]
    \<and> e_Unsat pb ''0'' = None \<and> UnsatChan pb [''0''] = None"
proof (rule header_count_panics)
  show "\<forall>c \<in> set [[1], [- 1]]. clause_prints 1 c"
    by (simp add: inInt64_def clause_printsI)
qed (simp_all add: makeFits_def)

end
