(* ===== verification/Maxsat.thy ===== *)
theory Maxsat
  imports PBConstr
begin

text \<open>
  Model of \<open>maxsat/constr.go\<close> and of the translation in \<open>maxsat/problem.go\<close> (\<open>New\<close>): weighted
  constraints over named variables become pseudo-boolean constraints over integers, a soft
  constraint with a blocking literal whose cost is its weight. A nil slice of coefficients is the
  empty list, as the code only asks for its length.
\<close>

section \<open>Constraints\<close>

record mlit =
  ml_Var :: string
  ml_Negated :: bool

record constr =
  mc_Lits :: "mlit list"
  mc_Coeffs :: "int list"
  mc_AtLeast :: int
  mc_Weight :: int

definition m_Var :: "string \<Rightarrow> mlit" where
  "m_Var s = \<lparr>ml_Var = s, ml_Negated = False\<rparr>"

definition m_Not :: "string \<Rightarrow> mlit" where
  "m_Not s = \<lparr>ml_Var = s, ml_Negated = True\<rparr>"

definition m_Negation :: "mlit \<Rightarrow> mlit" where
  "m_Negation l = \<lparr>ml_Var = ml_Var l, ml_Negated = (\<not> ml_Negated l)\<rparr>"

definition HardClause :: "mlit list \<Rightarrow> constr" where
  "HardClause ls = \<lparr>mc_Lits = ls, mc_Coeffs = [], mc_AtLeast = 1, mc_Weight = 0\<rparr>"

definition SoftClause :: "mlit list \<Rightarrow> constr" where
  "SoftClause ls = \<lparr>mc_Lits = ls, mc_Coeffs = [], mc_AtLeast = 1, mc_Weight = 1\<rparr>"

definition WeightedClause :: "mlit list \<Rightarrow> int \<Rightarrow> constr" where
  "WeightedClause ls w = \<lparr>mc_Lits = ls, mc_Coeffs = [], mc_AtLeast = 1, mc_Weight = w\<rparr>"

definition HardPBConstr :: "mlit list \<Rightarrow> int list \<Rightarrow> int \<Rightarrow> constr" where
  "HardPBConstr ls cs n = \<lparr>mc_Lits = ls, mc_Coeffs = cs, mc_AtLeast = n, mc_Weight = 0\<rparr>"

definition SoftPBConstr :: "mlit list \<Rightarrow> int list \<Rightarrow> int \<Rightarrow> constr" where
  "SoftPBConstr ls cs n = \<lparr>mc_Lits = ls, mc_Coeffs = cs, mc_AtLeast = n, mc_Weight = 1\<rparr>"

definition WeightedPBConstr :: "mlit list \<Rightarrow> int list \<Rightarrow> int \<Rightarrow> int \<Rightarrow> constr" where
  "WeightedPBConstr ls cs n w = \<lparr>mc_Lits = ls, mc_Coeffs = cs, mc_AtLeast = n, mc_Weight = w\<rparr>"

section \<open>The translation\<close>

record mproblem =
  intVars :: "string \<Rightarrow> int option"
  varInts :: "string list"
  blockWeights :: "(int \<times> int) list"
  maxWeight :: int

definition emptyMaxsat :: mproblem where
  "emptyMaxsat = \<lparr>intVars = (\<lambda>_. None), varInts = [], blockWeights = [], maxWeight = 0\<rparr>"

text \<open>The inner loop: number the variables of a constraint.\<close>

fun encodeMLits :: "mproblem \<Rightarrow> mlit list \<Rightarrow> int list \<times> mproblem" where
  "encodeMLits pb [] = ([], pb)"
| "encodeMLits pb (l # ls) =
     (let v = ml_Var l;
          pb = (if intVars pb v = None
                then pb\<lparr>varInts := varInts pb @ [v],
                        intVars := (intVars pb)(v \<mapsto> int (length (varInts pb)) + 1)\<rparr>
                else pb);
          n = the (intVars pb v);
          (ns, pb) = encodeMLits pb ls
      in ((if ml_Negated l then - n else n) # ns, pb))"

definition encodeConstr :: "mproblem \<Rightarrow> constr \<Rightarrow> (PBConstr \<times> mproblem) option" where
  "encodeConstr pb c =
     (let (ls, pb) = encodeMLits pb (mc_Lits c);
          coeffs = (if length (mc_Coeffs c) \<noteq> 0 then Some (mc_Coeffs c) else None);
          (ls, coeffs, pb) =
            (if mc_Weight c \<noteq> 0 then
               let bl = int (length (varInts pb)) + 1 in
               (ls @ [bl], map_option (\<lambda>cs. cs @ [mc_AtLeast c]) coeffs,
                pb\<lparr>varInts := varInts pb @ [''''],
                   blockWeights := blockWeights pb @ [(bl, mc_Weight c)],
                   maxWeight := int64 (maxWeight pb + mc_Weight c)\<rparr>)
             else (ls, coeffs, pb))
      in do { pc \<leftarrow> GtEq ls coeffs (mc_AtLeast c); Some (pc, pb) })"

fun encodeConstrs :: "mproblem \<Rightarrow> constr list \<Rightarrow> (PBConstr list \<times> mproblem) option" where
  "encodeConstrs pb [] = Some ([], pb)"
| "encodeConstrs pb (c # cs) = do {
     (pc, pb) \<leftarrow> encodeConstr pb c;
     (pcs, pb) \<leftarrow> encodeConstrs pb cs;
     Some (pc # pcs, pb) }"

text \<open>
  The cost function: one literal and one weight per blocking literal, the literals through
  \<open>IntToLit(int32(v))\<close>. The code iterates over a map; the model keeps the order of creation.
\<close>

definition optLits :: "mproblem \<Rightarrow> lit list" where
  "optLits pb = map (\<lambda>(v, w). litOf v) (blockWeights pb)"

definition optWeights :: "mproblem \<Rightarrow> int list" where
  "optWeights pb = map snd (blockWeights pb)"

section \<open>Meaning\<close>

definition mtrue :: "(string \<Rightarrow> bool) \<Rightarrow> mlit \<Rightarrow> bool" where
  "mtrue b l \<longleftrightarrow> b (ml_Var l) \<noteq> ml_Negated l"

definition msum :: "(string \<Rightarrow> bool) \<Rightarrow> constr \<Rightarrow> int" where
  "msum b c = (\<Sum>(l, w) \<leftarrow> zip (mc_Lits c) (if mc_Coeffs c = [] then replicate (length (mc_Lits c)) 1 else mc_Coeffs c).
     if mtrue b l then w else 0)"

definition mholds :: "(string \<Rightarrow> bool) \<Rightarrow> constr \<Rightarrow> bool" where
  "mholds b c \<longleftrightarrow> mc_AtLeast c \<le> msum b c"

text \<open>The cost of an assignment: the weights of the soft constraints it violates.\<close>

definition mcost :: "(string \<Rightarrow> bool) \<Rightarrow> constr list \<Rightarrow> int" where
  "mcost b cs = (\<Sum>c\<leftarrow>cs. if mholds b c then 0 else mc_Weight c)"

text \<open>
  Constraints whose blocking literal does block: no negative coefficient, weight or bound, and a
  soft constraint without coefficients is a clause. The coefficients and the bound, which becomes a
  coefficient too, are far from the ends of the 64-bit integers.
\<close>

definition mconstr_ok :: "constr \<Rightarrow> bool" where
  "mconstr_ok c \<longleftrightarrow> (mc_Coeffs c = [] \<or> length (mc_Coeffs c) = length (mc_Lits c))
     \<and> sum_list (map abs (mc_Coeffs c)) + 2 * \<bar>mc_AtLeast c\<bar> < 2 ^ 62
     \<and> (mc_Weight c \<noteq> 0 \<longrightarrow> 0 < mc_Weight c \<and> 0 \<le> mc_AtLeast c \<and> (\<forall>w \<in> set (mc_Coeffs c). 0 \<le> w)
          \<and> (mc_Coeffs c = [] \<longrightarrow> mc_AtLeast c = 1))"

text \<open>A bound on the variables that the translation makes: the literals and one more per constraint.\<close>

definition msize :: "constr list \<Rightarrow> nat" where
  "msize cs = (\<Sum>c\<leftarrow>cs. length (mc_Lits c) + 1)"

section \<open>Correctness of the translation\<close>

definition m_inv :: "mproblem \<Rightarrow> bool" where
  "m_inv pb \<longleftrightarrow> (\<forall>s k. intVars pb s = Some k \<longrightarrow> 1 \<le> k \<and> k \<le> int (length (varInts pb)))
     \<and> (\<forall>s t k. intVars pb s = Some k \<longrightarrow> intVars pb t = Some k \<longrightarrow> s = t)
     \<and> (\<forall>(k, w) \<in> set (blockWeights pb). 1 \<le> k \<and> k \<le> int (length (varInts pb)) \<and> k \<notin> ran (intVars pb))
     \<and> distinct (map fst (blockWeights pb))"

definition m_ext :: "mproblem \<Rightarrow> mproblem \<Rightarrow> bool" where
  "m_ext pb pb' \<longleftrightarrow> intVars pb \<subseteq>\<^sub>m intVars pb'"

definition compat :: "asg \<Rightarrow> (string \<Rightarrow> bool) \<Rightarrow> mproblem \<Rightarrow> bool" where
  "compat a b pb \<longleftrightarrow> (\<forall>s k. intVars pb s = Some k \<longrightarrow> a (k - 1) = b s)"

lemma compat_ext: "compat a b pb' \<Longrightarrow> m_ext pb pb' \<Longrightarrow> compat a b pb"
  by (auto simp: compat_def m_ext_def map_le_def dest!: bspec [OF _ domI])

lemma m_ext_refl [simp]: "m_ext pb pb"
  by (simp add: m_ext_def)

lemma m_ext_trans: "m_ext x y \<Longrightarrow> m_ext y z \<Longrightarrow> m_ext x z"
  unfolding m_ext_def by (rule map_le_trans)

lemma m_inv_new_var:
  assumes "m_inv pb" and "intVars pb v = None"
  shows "m_inv (pb\<lparr>varInts := varInts pb @ [v], intVars := (intVars pb)(v \<mapsto> int (length (varInts pb)) + 1)\<rparr>)"
proof -
  have "intVars pb s \<noteq> Some (int (length (varInts pb)) + 1)" for s
    using assms(1) by (force simp: m_inv_def)
  then show ?thesis using assms by (fastforce simp: m_inv_def ran_def)
qed

lemma encodeMLits_spec:
  "m_inv pb \<Longrightarrow> encodeMLits pb ls = (ns, pb') \<Longrightarrow> m_inv pb' \<and> m_ext pb pb' \<and> length ns = length ls
     \<and> blockWeights pb' = blockWeights pb \<and> 0 \<notin> set ns
     \<and> length (varInts pb') \<le> length (varInts pb) + length ls \<and> (\<forall>n \<in> set ns. \<bar>n\<bar> \<le> int (length (varInts pb')))
     \<and> (\<forall>a b. compat a b pb' \<longrightarrow> map (ilit_true a) ns = map (mtrue b) ls)"
proof (induction ls arbitrary: pb ns)
  case (Cons l ls)
  define v where "v = ml_Var l"
  define pb1 where "pb1 = (if intVars pb v = None
    then pb\<lparr>varInts := varInts pb @ [v], intVars := (intVars pb)(v \<mapsto> int (length (varInts pb)) + 1)\<rparr> else pb)"
  obtain ns1 where e: "encodeMLits pb1 ls = (ns1, pb')"
    and ns: "ns = (if ml_Negated l then - the (intVars pb1 v) else the (intVars pb1 v)) # ns1"
    using Cons.prems(2) [unfolded encodeMLits.simps Let_def, folded v_def, folded pb1_def]
    by (auto split: prod.splits)
  have inv1: "m_inv pb1" using Cons.prems(1) m_inv_new_var by (simp add: pb1_def)
  have ext1: "m_ext pb pb1" by (auto simp: pb1_def m_ext_def map_le_def)
  obtain k where k: "intVars pb1 v = Some k" by (cases "intVars pb v") (auto simp: pb1_def)
  then have k1: "1 \<le> k" using inv1 by (force simp: m_inv_def)
  note ih = Cons.IH [OF inv1 e]
  have bw: "blockWeights pb1 = blockWeights pb" "length (varInts pb1) \<le> Suc (length (varInts pb))"
    by (simp_all add: pb1_def)
  have "intVars pb' v = Some k" using ih k by (auto simp: m_ext_def map_le_def dest!: bspec [OF _ domI])
  then have k2: "k \<le> int (length (varInts pb'))" using ih by (force simp: m_inv_def)
  have "ilit_true a (if ml_Negated l then - k else k) = mtrue b l" if "compat a b pb'" for a b
  proof -
    have "compat a b pb1" using that ih compat_ext by blast
    then have "a (k - 1) = b v" using k by (simp add: compat_def)
    then show ?thesis using k1 by (simp add: ilit_true_minus mtrue_def v_def) (simp add: lit_true_def)
  qed
  then show ?case
    using ih ns k k1 k2 bw m_ext_trans [OF ext1] by auto
qed simp

lemma isum_flags: "isum a ns ws = (\<Sum>(t, w)\<leftarrow>zip (map (ilit_true a) ns) ws. if t then w else 0)"
  by (induction ns ws rule: list_induct2') auto

lemma msum_flags: "msum b c = (\<Sum>(t, w)\<leftarrow>zip (map (mtrue b) (mc_Lits c))
    (if mc_Coeffs c = [] then replicate (length (mc_Lits c)) 1 else mc_Coeffs c). if t then w else 0)"
proof -
  have "(\<Sum>(l, w)\<leftarrow>zip ls ws. if mtrue b l then w else 0)
      = (\<Sum>(t, w)\<leftarrow>zip (map (mtrue b) ls) ws. if t then w else (0 :: int))" for ls ws
    by (induction ls ws rule: list_induct2') auto
  then show ?thesis by (simp add: msum_def)
qed

lemma flags_nonneg:
  "\<forall>w \<in> set ws. 0 \<le> w \<Longrightarrow> (0 :: int) \<le> (\<Sum>(t, w)\<leftarrow>zip ts ws. if t then w else 0)"
  by (induction ts ws rule: list_induct2') auto

text \<open>The constraint with its blocking literal, true or false.\<close>

lemma GtEq_holds:
  assumes "mconstr_ok c" and "length ns = length (mc_Lits c)" and "0 \<notin> set ns" and "lits_fit ns"
  shows "wp (GtEq ns (if length (mc_Coeffs c) \<noteq> 0 then Some (mc_Coeffs c) else None) (mc_AtLeast c))
    (\<lambda>pc. pb_normal pc \<and> (\<forall>a b. map (ilit_true a) ns = map (mtrue b) (mc_Lits c) \<longrightarrow> pb_holds a pc = mholds b c))"
proof -
  define ws where "ws = (if mc_Coeffs c = [] then replicate (length ns) 1 else mc_Coeffs c)"
  have lens: "length (mc_Coeffs c) = length (mc_Lits c) \<or> mc_Coeffs c = []"
    and fit: "linear_fits ns (mc_Coeffs c) (mc_AtLeast c)"
    using assms(1,4) by (auto simp: mconstr_ok_def linear_fits_def)
  have sum: "mc_AtLeast c \<le> isum a ns ws \<longleftrightarrow> mholds b c"
    if "map (ilit_true a) ns = map (mtrue b) (mc_Lits c)" for a b
    unfolding mholds_def isum_flags msum_flags ws_def that assms(2) ..
  show ?thesis
  proof (cases "mc_Coeffs c = []")
    case True
    then show ?thesis
      using sum assms(3) by (simp add: GtEq_def pb_holds_def pb_normal_def ws_def)
  next
    case False
    then have "wp (GtEq ns (Some ws) (mc_AtLeast c)) (\<lambda>pc. linear_post ns ws pc
        \<and> (\<forall>a. pb_holds a pc \<longleftrightarrow> mc_AtLeast c \<le> isum a ns ws))"
      using lens fit assms(2,3) by (intro GtEq_spec) (auto simp: ws_def)
    then show ?thesis
      using sum False by (simp add: ws_def linear_post_def wp_iff) blast
  qed
qed

lemma GtEq_blocked:
  assumes ok: "mconstr_ok c" and w: "mc_Weight c \<noteq> 0" and ns: "length ns = length (mc_Lits c)"
    and "0 \<notin> set ns" and "0 < bl" and fit: "lits_fit (ns @ [bl])"
  shows "wp (GtEq (ns @ [bl]) (map_option (\<lambda>cs. cs @ [mc_AtLeast c])
      (if length (mc_Coeffs c) \<noteq> 0 then Some (mc_Coeffs c) else None)) (mc_AtLeast c))
    (\<lambda>pc. pb_normal pc \<and> (\<forall>a b. map (ilit_true a) ns = map (mtrue b) (mc_Lits c) \<longrightarrow>
       pb_holds a pc = (mholds b c \<or> ilit_true a bl)))"
proof (cases "mc_Coeffs c = []")
  case True
  have "replicate (Suc (length ns)) (1 :: int) = replicate (length ns) 1 @ [1]"
    by (simp add: replicate_append_same)
  then have "isum a (ns @ [bl]) (replicate (Suc (length ns)) 1)
      = isum a ns (replicate (length ns) 1) + (if ilit_true a bl then 1 else 0)" for a
    using isum_append [of "replicate (length ns) 1" ns a "[bl]" "[1]"] by simp
  moreover have "0 \<le> isum a ns (replicate (length ns) 1)" for a by (simp add: isum_ones)
  ultimately show ?thesis
    using True assms(3-5) ok w
    by (auto simp: GtEq_def pb_holds_def mholds_def msum_flags pb_normal_def mconstr_ok_def)
      (simp_all add: isum_flags)
next
  case False
  have n: "length (mc_Coeffs c) = length ns" "\<forall>w \<in> set (mc_Coeffs c). 0 \<le> w" "0 \<le> mc_AtLeast c"
    using ok w ns False by (auto simp: mconstr_ok_def)
  have lin: "linear_fits (ns @ [bl]) (mc_Coeffs c @ [mc_AtLeast c]) (mc_AtLeast c)"
    using ok fit by (simp add: mconstr_ok_def linear_fits_def)
  have two: "isum a (ns @ [bl]) (mc_Coeffs c @ [mc_AtLeast c])
      = isum a ns (mc_Coeffs c) + (if ilit_true a bl then mc_AtLeast c else 0)" for a
    using isum_append [of "mc_Coeffs c" ns a "[bl]" "[mc_AtLeast c]"] n by simp
  have nn: "0 \<le> isum a ns (mc_Coeffs c)" for a
    unfolding isum_flags by (rule flags_nonneg [OF n(2)])
  have "mc_AtLeast c \<le> isum a (ns @ [bl]) (mc_Coeffs c @ [mc_AtLeast c])
      \<longleftrightarrow> mholds b c \<or> ilit_true a bl" if m: "map (ilit_true a) ns = map (mtrue b) (mc_Lits c)" for a b
  proof -
    have "isum a ns (mc_Coeffs c) = msum b c" using m False by (simp add: isum_flags msum_flags)
    then show ?thesis using two [of a] nn [of a] by (simp add: mholds_def)
  qed
  moreover have "wp (GtEq (ns @ [bl]) (Some (mc_Coeffs c @ [mc_AtLeast c])) (mc_AtLeast c)) (\<lambda>pc.
      linear_post (ns @ [bl]) (mc_Coeffs c @ [mc_AtLeast c]) pc
      \<and> (\<forall>a. pb_holds a pc \<longleftrightarrow> mc_AtLeast c \<le> isum a (ns @ [bl]) (mc_Coeffs c @ [mc_AtLeast c])))"
    using n assms(4,5) lin by (intro GtEq_spec) auto
  ultimately show ?thesis
    using False by (simp add: linear_post_def wp_iff) blast
qed

text \<open>One constraint: a hard one is kept, a soft one gets a fresh blocking literal.\<close>

lemma encodeConstr_spec:
  assumes inv: "m_inv pb" and ok: "mconstr_ok c" and small: "length (varInts pb) + length (mc_Lits c) + 1 < 2 ^ 63"
  shows "wp (encodeConstr pb c) (\<lambda>(pc, pb'). m_inv pb' \<and> m_ext pb pb' \<and> pb_normal pc
     \<and> length (varInts pb') \<le> length (varInts pb) + length (mc_Lits c) + 1
     \<and> (\<exists>bl. blockWeights pb' = blockWeights pb @ (if mc_Weight c = 0 then [] else [(bl, mc_Weight c)])
          \<and> (\<forall>a b. compat a b pb' \<longrightarrow>
               pb_holds a pc = (mholds b c \<or> mc_Weight c \<noteq> 0 \<and> ilit_true a bl))))"
proof -
  obtain ns pb1 where e: "encodeMLits pb (mc_Lits c) = (ns, pb1)" by (cases "encodeMLits pb (mc_Lits c)")
  note enc = encodeMLits_spec [OF inv e]
  define bl where "bl = int (length (varInts pb1)) + 1"
  have "\<bar>n\<bar> < 2 ^ 63" if "n \<in> set ns" for n
  proof -
    have "\<bar>n\<bar> \<le> int (length (varInts pb) + length (mc_Lits c))" using enc that by force
    also have "\<dots> < int (2 ^ 63)" using small by (simp only: of_nat_less_iff)
    finally show ?thesis by simp
  qed
  moreover have "bl < 2 ^ 63" using enc small by (simp add: bl_def)
  ultimately have fits: "lits_fit ns" "lits_fit (ns @ [bl])"
    by (auto simp: lits_fit_def bl_def)
  show ?thesis
  proof (cases "mc_Weight c = 0")
    case True
    obtain pc where g: "GtEq ns (if length (mc_Coeffs c) \<noteq> 0 then Some (mc_Coeffs c) else None) (mc_AtLeast c) = Some pc"
      "pb_normal pc" "\<And>a b. map (ilit_true a) ns = map (mtrue b) (mc_Lits c) \<Longrightarrow> pb_holds a pc = mholds b c"
      using GtEq_holds [OF ok, of ns] enc fits unfolding wp_iff by blast
    have "encodeConstr pb c = Some (pc, pb1)"
      using g(1) True by (simp add: encodeConstr_def e Let_def)
    then show ?thesis using g(2,3) enc True by simp
  next
    case False
    define pb2 where "pb2 = pb1\<lparr>varInts := varInts pb1 @ [''''],
       blockWeights := blockWeights pb1 @ [(bl, mc_Weight c)], maxWeight := int64 (maxWeight pb1 + mc_Weight c)\<rparr>"
    have "m_inv pb2"
      using enc by (fastforce simp: m_inv_def pb2_def bl_def ran_def)
    moreover have "m_ext pb pb2" using enc by (simp add: m_ext_def pb2_def)
    moreover have "compat a b pb2 = compat a b pb1" for a b by (simp add: compat_def pb2_def)
    moreover have "blockWeights pb2 = blockWeights pb @ [(bl, mc_Weight c)]" using enc by (simp add: pb2_def)
    moreover have "0 < bl" by (simp add: bl_def)
    then obtain pc where g: "GtEq (ns @ [bl]) (map_option (\<lambda>cs. cs @ [mc_AtLeast c])
        (if length (mc_Coeffs c) \<noteq> 0 then Some (mc_Coeffs c) else None)) (mc_AtLeast c) = Some pc"
      "pb_normal pc" "\<And>a b. map (ilit_true a) ns = map (mtrue b) (mc_Lits c) \<Longrightarrow>
         pb_holds a pc = (mholds b c \<or> ilit_true a bl)"
      using GtEq_blocked [OF ok False, of ns bl] enc \<open>0 < bl\<close> fits unfolding wp_iff by blast
    moreover have "encodeConstr pb c = Some (pc, pb2)"
      using g(1) False by (simp add: encodeConstr_def e Let_def bl_def pb2_def)
    moreover have "length (varInts pb2) \<le> length (varInts pb) + length (mc_Lits c) + 1"
      using enc by (simp add: pb2_def)
    ultimately show ?thesis using enc False by auto
  qed
qed

text \<open>All constraints: \<open>softs\<close> pairs each blocking literal with its constraint.\<close>

lemma encodeConstrs_spec:
  "m_inv pb \<Longrightarrow> \<forall>c \<in> set cs. mconstr_ok c \<Longrightarrow> length (varInts pb) + msize cs < 2 ^ 63 \<Longrightarrow>
   wp (encodeConstrs pb cs) (\<lambda>(pcs, pb'). m_inv pb' \<and> m_ext pb pb' \<and> (\<forall>pc \<in> set pcs. pb_normal pc)
     \<and> length (varInts pb') \<le> length (varInts pb) + msize cs
     \<and> (\<exists>softs. blockWeights pb' = blockWeights pb @ map (\<lambda>(k, c). (k, mc_Weight c)) softs
          \<and> map snd softs = filter (\<lambda>c. mc_Weight c \<noteq> 0) cs
          \<and> (\<forall>a b. compat a b pb' \<longrightarrow> (\<forall>pc \<in> set pcs. pb_holds a pc) =
               ((\<forall>c \<in> set cs. mc_Weight c = 0 \<longrightarrow> mholds b c)
                \<and> (\<forall>(k, c) \<in> set softs. mholds b c \<or> ilit_true a k)))))"
proof (induction cs arbitrary: pb)
  case (Cons c cs)
  obtain pc pb1 bl where e: "encodeConstr pb c = Some (pc, pb1)" "m_inv pb1" "m_ext pb pb1" "pb_normal pc"
    and len: "length (varInts pb1) \<le> length (varInts pb) + length (mc_Lits c) + 1"
    and bw: "blockWeights pb1 = blockWeights pb @ (if mc_Weight c = 0 then [] else [(bl, mc_Weight c)])"
    and h: "\<And>a b. compat a b pb1 \<Longrightarrow> pb_holds a pc = (mholds b c \<or> mc_Weight c \<noteq> 0 \<and> ilit_true a bl)"
    using encodeConstr_spec [OF Cons.prems(1), of c] Cons.prems(2,3) by (auto simp: wp_iff msize_def)
  obtain pcs pb2 softs where es: "encodeConstrs pb1 cs = Some (pcs, pb2)" "m_inv pb2" "m_ext pb1 pb2"
    "\<forall>pc \<in> set pcs. pb_normal pc" "length (varInts pb2) \<le> length (varInts pb1) + msize cs"
    and bws: "blockWeights pb2 = blockWeights pb1 @ map (\<lambda>(k, c). (k, mc_Weight c)) softs"
    and sf: "map snd softs = filter (\<lambda>c. mc_Weight c \<noteq> 0) cs"
    and hs: "\<And>a b. compat a b pb2 \<Longrightarrow> (\<forall>pc \<in> set pcs. pb_holds a pc) =
       ((\<forall>c \<in> set cs. mc_Weight c = 0 \<longrightarrow> mholds b c) \<and> (\<forall>(k, c) \<in> set softs. mholds b c \<or> ilit_true a k))"
    using Cons.IH [OF e(2)] Cons.prems(2,3) len by (auto simp: wp_iff msize_def)
  define softs' where "softs' = (if mc_Weight c = 0 then softs else (bl, c) # softs)"
  have "blockWeights pb2 = blockWeights pb @ map (\<lambda>(k, c). (k, mc_Weight c)) softs'"
    using bw bws by (simp add: softs'_def)
  moreover have "map snd softs' = filter (\<lambda>c. mc_Weight c \<noteq> 0) (c # cs)" using sf by (simp add: softs'_def)
  moreover have "(\<forall>pc \<in> set (pc # pcs). pb_holds a pc) =
       ((\<forall>c \<in> set (c # cs). mc_Weight c = 0 \<longrightarrow> mholds b c) \<and> (\<forall>(k, c) \<in> set softs'. mholds b c \<or> ilit_true a k))"
    if "compat a b pb2" for a b
    using h [OF compat_ext [OF that es(3)]] hs [OF that] by (auto simp: softs'_def)
  ultimately show ?case
    using e es len m_ext_trans [OF e(3) es(3)] by (auto simp: wp_iff msize_def)
qed (simp add: msize_def)

text \<open>The cost function the solver is given, under an assignment.\<close>

definition blockCost :: "asg \<Rightarrow> mproblem \<Rightarrow> int" where
  "blockCost a pb = wsum a (zip (optLits pb) (optWeights pb))"

lemma blockCost_softs:
  fixes softs :: "(int \<times> constr) list"
  shows "m_inv pb \<Longrightarrow> length (varInts pb) \<le> 2 ^ 30 \<Longrightarrow> blockWeights pb = map (\<lambda>(k, c). (k, mc_Weight c)) softs \<Longrightarrow>
   blockCost a pb = (\<Sum>(k, c)\<leftarrow>softs. if ilit_true a k then mc_Weight c else 0)"
proof -
  assume b: "blockWeights pb = map (\<lambda>(k, c). (k, mc_Weight c)) softs"
    and "m_inv pb" "length (varInts pb) \<le> 2 ^ 30"
  then have "litOf k = IntToLit k" if "(k, w) \<in> set (blockWeights pb)" for k w
    using that by (intro litOf_exact) (force simp: m_inv_def)
  then have l: "optLits pb = map (\<lambda>(v, w). IntToLit v) (blockWeights pb)" by (auto simp: optLits_def)
  have "wsum a (zip (map (\<lambda>(v, w). IntToLit v) (map (\<lambda>(k, c). (k, mc_Weight c)) softs))
      (map snd (map (\<lambda>(k, c). (k, mc_Weight c)) softs)))
    = (\<Sum>(k, c)\<leftarrow>softs. if ilit_true a k then mc_Weight c else 0)" for softs :: "(int \<times> constr) list"
    by (induction softs) auto
  then show ?thesis unfolding blockCost_def l optWeights_def b .
qed

lemma mcost_softs:
  "map snd softs = filter (\<lambda>c. mc_Weight c \<noteq> 0) cs \<Longrightarrow>
   mcost b cs = (\<Sum>(k, c)\<leftarrow>softs. if mholds b c then 0 else mc_Weight c)"
proof -
  assume s: "map snd softs = filter (\<lambda>c. mc_Weight c \<noteq> 0) cs"
  have "mcost b cs = (\<Sum>c\<leftarrow>filter (\<lambda>c. mc_Weight c \<noteq> 0) cs. if mholds b c then 0 else mc_Weight c)"
    by (induction cs) (auto simp: mcost_def)
  then show ?thesis unfolding s [symmetric] by (simp add: comp_def case_prod_unfold)
qed

lemma encoding_lower:
  assumes softs: "map snd softs = filter (\<lambda>c. mc_Weight c \<noteq> 0) cs" and ok: "\<forall>c \<in> set cs. mconstr_ok c"
    and h: "\<forall>(k, c) \<in> set softs. mholds b c \<or> ilit_true a k"
  shows "(\<Sum>(k, c)\<leftarrow>softs. if mholds b c then 0 else mc_Weight c)
    \<le> (\<Sum>(k, c)\<leftarrow>softs. if ilit_true a k then mc_Weight c else 0)"
proof (rule sum_list_mono)
  fix p assume p: "p \<in> set softs"
  then have "snd p \<in> set (filter (\<lambda>c. mc_Weight c \<noteq> 0) cs)" unfolding softs [symmetric] by simp
  then have "0 < mc_Weight (snd p)" using ok by (auto simp: mconstr_ok_def)
  then show "(case p of (k, c) \<Rightarrow> if mholds b c then 0 else mc_Weight c)
      \<le> (case p of (k, c) \<Rightarrow> if ilit_true a k then mc_Weight c else 0)"
    using h p by (cases p) auto
qed

text \<open>The assignment of the integers that an assignment of the names gives.\<close>

definition encodeAsg :: "mproblem \<Rightarrow> (int \<times> constr) list \<Rightarrow> (string \<Rightarrow> bool) \<Rightarrow> asg" where
  "encodeAsg pb softs b v = (case map_of softs (v + 1) of
     Some c \<Rightarrow> \<not> mholds b c | None \<Rightarrow> \<exists>s. intVars pb s = Some (v + 1) \<and> b s)"

lemma encodeAsg_spec:
  assumes inv: "m_inv pb" and bw: "blockWeights pb = map (\<lambda>(k, c). (k, mc_Weight c)) softs"
  shows "compat (encodeAsg pb softs b) b pb"
    "\<forall>(k, c) \<in> set softs. ilit_true (encodeAsg pb softs b) k = (\<not> mholds b c)"
proof -
  have d: "distinct (map fst softs)"
    using inv by (simp add: m_inv_def bw comp_def case_prod_beta)
  have blk: "1 \<le> k \<and> k \<notin> ran (intVars pb)" if "(k, c) \<in> set softs" for k c
  proof -
    have "(\<lambda>(k, c). (k, mc_Weight c)) (k, c) \<in> set (blockWeights pb)"
      unfolding bw set_map using that by (rule imageI)
    then have "(k, mc_Weight c) \<in> set (blockWeights pb)" by simp
    moreover have "\<forall>(k, w) \<in> set (blockWeights pb). 1 \<le> k \<and> k \<notin> ran (intVars pb)"
      using inv unfolding m_inv_def by blast
    ultimately show ?thesis by blast
  qed
  show "\<forall>(k, c) \<in> set softs. ilit_true (encodeAsg pb softs b) k = (\<not> mholds b c)"
  proof clarify
    fix k c assume kc: "(k, c) \<in> set softs"
    then have "map_of softs k = Some c" using d by simp
    then show "ilit_true (encodeAsg pb softs b) k = (\<not> mholds b c)"
      using blk [OF kc] by (simp add: encodeAsg_def lit_true_def)
  qed
  show "compat (encodeAsg pb softs b) b pb"
    unfolding compat_def
  proof (intro allI impI)
    fix s k assume k: "intVars pb s = Some k"
    then have "map_of softs k = None"
      using blk by (cases "map_of softs k") (auto dest!: map_of_SomeD simp: ran_def)
    moreover have "(\<exists>t. intVars pb t = Some k \<and> b t) = b s"
      using inv k unfolding m_inv_def by blast
    ultimately show "encodeAsg pb softs b (k - 1) = b s"
      by (simp add: encodeAsg_def)
  qed
qed

text \<open>
  C14. The translation of a MAXSAT problem is exact. Every model of the pseudo-boolean constraints
  decodes to an assignment of the names that satisfies the hard constraints and costs no more than
  the solver's cost function says; every assignment that satisfies the hard constraints is the
  decoding of a model with exactly its cost. So the optimum is the same. The hypotheses bound the
  variables (one per literal and one per constraint) by \<open>2 ^ 30\<close> and leave out the soft constraints
  whose blocking literal does not block (cardinality constraints without coefficients, negative
  coefficients, weights or bounds) and coefficients whose sums leave the 64-bit integers.
\<close>

theorem maxsat_translation_exact:
  assumes "\<forall>c \<in> set cs. mconstr_ok c" and "msize cs \<le> 2 ^ 30"
  shows "wp (encodeConstrs emptyMaxsat cs) (\<lambda>(pcs, pb). (\<forall>pc \<in> set pcs. pb_normal pc)
    \<and> (\<forall>a. (\<forall>pc \<in> set pcs. pb_holds a pc) \<longrightarrow>
         (\<exists>b. compat a b pb \<and> (\<forall>c \<in> set cs. mc_Weight c = 0 \<longrightarrow> mholds b c) \<and> mcost b cs \<le> blockCost a pb))
    \<and> (\<forall>b. (\<forall>c \<in> set cs. mc_Weight c = 0 \<longrightarrow> mholds b c) \<longrightarrow>
         (\<exists>a. compat a b pb \<and> (\<forall>pc \<in> set pcs. pb_holds a pc) \<and> blockCost a pb = mcost b cs)))"
proof -
  have inv0: "m_inv emptyMaxsat" by (simp add: m_inv_def emptyMaxsat_def ran_def)
  obtain pcs pb softs where e: "encodeConstrs emptyMaxsat cs = Some (pcs, pb)" and inv: "m_inv pb"
    and norm: "\<forall>pc \<in> set pcs. pb_normal pc"
    and bw: "blockWeights pb = blockWeights emptyMaxsat @ map (\<lambda>(k, c). (k, mc_Weight c)) softs"
    and sf: "map snd softs = filter (\<lambda>c. mc_Weight c \<noteq> 0) cs"
    and h: "\<And>a b. compat a b pb \<Longrightarrow> (\<forall>pc \<in> set pcs. pb_holds a pc) =
       ((\<forall>c \<in> set cs. mc_Weight c = 0 \<longrightarrow> mholds b c) \<and> (\<forall>(k, c) \<in> set softs. mholds b c \<or> ilit_true a k))"
    and len: "length (varInts pb) \<le> 2 ^ 30"
    using encodeConstrs_spec [OF inv0 assms(1)] assms(2) unfolding wp_iff by (force simp: emptyMaxsat_def)
  have bw': "blockWeights pb = map (\<lambda>(k, c). (k, mc_Weight c)) softs" using bw by (simp add: emptyMaxsat_def)
  note cost = blockCost_softs [OF inv len bw'] mcost_softs [OF sf]
  have "\<exists>b. compat a b pb \<and> (\<forall>c \<in> set cs. mc_Weight c = 0 \<longrightarrow> mholds b c) \<and> mcost b cs \<le> blockCost a pb"
    if "\<forall>pc \<in> set pcs. pb_holds a pc" for a
  proof -
    define b where "b = (\<lambda>s. a (the (intVars pb s) - 1))"
    have c: "compat a b pb" by (simp add: compat_def b_def)
    then show ?thesis
      using h [OF c] that encoding_lower [OF sf assms(1)] unfolding cost by blast
  qed
  moreover have "\<exists>a. compat a b pb \<and> (\<forall>pc \<in> set pcs. pb_holds a pc) \<and> blockCost a pb = mcost b cs"
    if hard: "\<forall>c \<in> set cs. mc_Weight c = 0 \<longrightarrow> mholds b c" for b
  proof -
    note enc = encodeAsg_spec [OF inv bw', of b]
    have "(\<Sum>(k, c)\<leftarrow>softs. if ilit_true (encodeAsg pb softs b) k then mc_Weight c else 0)
        = (\<Sum>(k, c)\<leftarrow>softs. if mholds b c then 0 else mc_Weight c)"
      using enc(2) by (intro arg_cong [where f = sum_list] map_cong) auto
    moreover have "\<forall>pc \<in> set pcs. pb_holds (encodeAsg pb softs b) pc"
      using h [OF enc(1)] hard enc(2) by auto
    ultimately show ?thesis using enc(1) unfolding cost by blast
  qed
  ultimately show ?thesis using e norm by simp
qed

definition maxsatExample :: "constr list" where
  "maxsatExample = [HardClause [m_Var ''a'', m_Var ''b''], SoftClause [m_Not ''a''],
     WeightedPBConstr [m_Var ''b'', m_Not ''c''] [2, 1] 2 3]"

theorem maxsat_translation_exact_witness:
  "wp (encodeConstrs emptyMaxsat maxsatExample) (\<lambda>(pcs, pb). (\<forall>pc \<in> set pcs. pb_normal pc)
    \<and> (\<forall>a. (\<forall>pc \<in> set pcs. pb_holds a pc) \<longrightarrow>
         (\<exists>b. compat a b pb \<and> (\<forall>c \<in> set maxsatExample. mc_Weight c = 0 \<longrightarrow> mholds b c)
            \<and> mcost b maxsatExample \<le> blockCost a pb))
    \<and> (\<forall>b. (\<forall>c \<in> set maxsatExample. mc_Weight c = 0 \<longrightarrow> mholds b c) \<longrightarrow>
         (\<exists>a. compat a b pb \<and> (\<forall>pc \<in> set pcs. pb_holds a pc) \<and> blockCost a pb = mcost b maxsatExample)))"
  by (rule maxsat_translation_exact)
    (simp_all add: maxsatExample_def HardClause_def SoftClause_def WeightedPBConstr_def mconstr_ok_def msize_def)

text \<open>
  C34. The blocking literal of a soft constraint without coefficients counts for one, whatever the
  bound: the constraint built holds when the named literals reach the bound, or, with the blocking
  literal true, the bound minus one. So a soft cardinality constraint is not relaxed: an assignment
  of the names that misses the bound by two or more violates the problem whatever its cost, and is
  never the decoding of a model.
\<close>

theorem soft_cardinality_not_relaxed:
  assumes "m_inv pb" and "mc_Coeffs c = []" and "mc_Weight c \<noteq> 0"
  shows "wp (encodeConstr pb c) (\<lambda>(pc, pb'). \<exists>bl. blockWeights pb' = blockWeights pb @ [(bl, mc_Weight c)]
     \<and> (\<forall>a b. compat a b pb' \<longrightarrow> pb_holds a pc = (mc_AtLeast c \<le> msum b c + (if ilit_true a bl then 1 else 0)))
     \<and> (\<forall>b. msum b c + 2 \<le> mc_AtLeast c \<longrightarrow> \<not> (\<exists>a. compat a b pb' \<and> pb_holds a pc)))"
proof -
  obtain ns pb1 where e: "encodeMLits pb (mc_Lits c) = (ns, pb1)" by (cases "encodeMLits pb (mc_Lits c)")
  define bl where "bl = int (length (varInts pb1)) + 1"
  define pb2 where "pb2 = pb1\<lparr>varInts := varInts pb1 @ [''''],
       blockWeights := blockWeights pb1 @ [(bl, mc_Weight c)], maxWeight := int64 (maxWeight pb1 + mc_Weight c)\<rparr>"
  define pc where "pc = \<lparr>pc_Lits = ns @ [bl], pc_Weights = None, pc_AtLeast = mc_AtLeast c\<rparr>"
  note enc = encodeMLits_spec [OF assms(1) e]
  have g: "encodeConstr pb c = Some (pc, pb2)"
    using assms(2,3) by (simp add: encodeConstr_def e Let_def GtEq_def pc_def pb2_def bl_def)
  have h: "pb_holds a pc = (mc_AtLeast c \<le> msum b c + (if ilit_true a bl then 1 else 0))" if "compat a b pb2" for a b
  proof -
    have m: "map (ilit_true a) ns = map (mtrue b) (mc_Lits c)" using that enc by (simp add: compat_def pb2_def)
    have "msum b c = isum a ns (replicate (length ns) 1)"
      unfolding msum_flags isum_flags m using assms(2) enc by simp
    then have "msum b c = int (length (filter (ilit_true a) ns))" by (simp add: isum_ones)
    then show ?thesis unfolding pb_holds_def pc_def by (simp only: isum_ones PBConstr.simps option.case) simp
  qed
  then have "\<not> (\<exists>a. compat a b pb2 \<and> pb_holds a pc)" if "msum b c + 2 \<le> mc_AtLeast c" for b
    using that by (auto split: if_splits)
  with h show ?thesis unfolding g using enc by (auto simp: pb2_def)
qed

theorem soft_cardinality_not_relaxed_witness:
  "wp (encodeConstr emptyMaxsat (SoftPBConstr [m_Var ''a'', m_Var ''b'', m_Var ''c''] [] 2)) (\<lambda>(pc, pb').
     \<exists>bl. blockWeights pb' = [(bl, 1)]
     \<and> (\<forall>a b. compat a b pb' \<longrightarrow> pb_holds a pc
          = (2 \<le> msum b (SoftPBConstr [m_Var ''a'', m_Var ''b'', m_Var ''c''] [] 2) + (if ilit_true a bl then 1 else 0)))
     \<and> \<not> (\<exists>a. compat a (\<lambda>_. False) pb' \<and> pb_holds a pc))"
proof -
  have "m_inv emptyMaxsat" by (simp add: m_inv_def emptyMaxsat_def ran_def)
  moreover have "msum (\<lambda>_. False) (SoftPBConstr [m_Var ''a'', m_Var ''b'', m_Var ''c''] [] 2) = 0"
    by (simp add: msum_def SoftPBConstr_def m_Var_def mtrue_def numeral_3_eq_3)
  ultimately show ?thesis
    using soft_cardinality_not_relaxed [of emptyMaxsat "SoftPBConstr [m_Var ''a'', m_Var ''b'', m_Var ''c''] [] 2"]
    by (fastforce simp: SoftPBConstr_def emptyMaxsat_def elim!: wp_mono)
qed

end
