(* ===== verification/ParseOpb.thy ===== *)
theory ParseOpb
  imports ParsePb GoStrings
begin

text \<open>
  The OPB reader of \<open>solver/parser_pb.go\<close>. A file is its text. The result is an error (\<open>Inl\<close>) or a problem
  (\<open>Inr\<close>), \<open>None\<close> when the reader panics.
\<close>

section \<open>Lines\<close>

datatype opb_error =
    NoSemicolon
  | EmptyLine
  | InvalidSyntax
  | InvalidOperator string
  | InvalidValue string
  | InvalidWeight string
  | InvalidName string
  | InvalidVariable string
  | ReadError

definition variableName :: "string \<Rightarrow> bool" where
  "variableName l \<longleftrightarrow> HasPrefix l ''x'' \<or> HasPrefix l ''~x''"

text \<open>
  One literal of \<open>parseTerms\<close>, after its weight: the literal and the number of variables.
\<close>

definition parseVariable :: "int \<Rightarrow> string \<Rightarrow> (opb_error + int \<times> int) option" where
  "parseVariable nbVars l = do {
     c \<leftarrow> get l 0;
     let neg = (c = CHR ''~'');
     case Atoi (drop (if neg then 2 else 1) l) of
       None \<Rightarrow> Some (Inl (InvalidVariable l))
     | Some lit \<Rightarrow> Some (Inr (if neg then int64 (- lit) else lit, if lit > nbVars then lit else nbVars)) }"

text \<open>
  The loop of \<open>parseTerms\<close> at index \<open>i\<close>. A term without weight has weight 1; the message for a word
  that is neither a weight nor a variable reads the word at twice the index.
\<close>

function parseTermsLoop :: "string list \<Rightarrow> nat \<Rightarrow> int \<Rightarrow> int list \<Rightarrow> int list
    \<Rightarrow> (opb_error + int list \<times> int list \<times> int) option" where
  "parseTermsLoop ts i nbVars ws ls =
     (if i < length ts then
        (case Atoi (ts ! i) of
           None \<Rightarrow>
             if \<not> variableName (ts ! i) then map_option (\<lambda>t. Inl (InvalidWeight t)) (get ts (i * 2))
             else do {
               r \<leftarrow> parseVariable nbVars (ts ! i);
               case r of
                 Inl e \<Rightarrow> Some (Inl e)
               | Inr (lit, nbVars) \<Rightarrow> parseTermsLoop ts (Suc i) nbVars (ws @ [1]) (ls @ [lit]) }
         | Some w \<Rightarrow> do {
             l \<leftarrow> get ts (Suc i);
             if \<not> variableName l \<or> length l < 2 then Some (Inl (InvalidName l))
             else do {
               r \<leftarrow> parseVariable nbVars l;
               case r of
                 Inl e \<Rightarrow> Some (Inl e)
               | Inr (lit, nbVars) \<Rightarrow> parseTermsLoop ts (Suc (Suc i)) nbVars (ws @ [w]) (ls @ [lit]) } })
      else Some (Inr (ws, ls, nbVars)))"
  by pat_completeness auto
termination
  by (relation "measure (\<lambda>(ts, i, nbVars, ws, ls). length ts - i)") auto

declare parseTermsLoop.simps [simp del]

definition parseTerms :: "problem \<Rightarrow> string list \<Rightarrow> (opb_error + int list \<times> int list \<times> problem) option" where
  "parseTerms pb ts = do {
     r \<leftarrow> parseTermsLoop ts 0 (NbVars pb) [] [];
     case r of Inl e \<Rightarrow> Some (Inl e) | Inr (ws, ls, n) \<Rightarrow> Some (Inr (ws, ls, pb\<lparr>NbVars := n\<rparr>)) }"

definition parsePBOptim :: "problem \<Rightarrow> string list \<Rightarrow> (opb_error + problem) option" where
  "parsePBOptim pb fs = do {
     r \<leftarrow> parseTerms pb (tl fs);
     case r of
       Inl e \<Rightarrow> Some (Inl e)
     | Inr (ws, ls, pb) \<Rightarrow> Some (Inr (pb\<lparr>minLits := Some (map litOf ls), minWeights := Some ws\<rparr>)) }"

text \<open>The loop over the constraints of a line; the flag says that the function returned.\<close>

fun addConstrs :: "problem \<Rightarrow> PBConstr list \<Rightarrow> problem option" where
  "addConstrs pb [] = Some pb"
| "addConstrs pb (c # cs) =
     (if PB_WeightSum c < pc_AtLeast c then Some (pb\<lparr>pStatus := Unsat\<rparr>)
      else if PB_WeightSum c = pc_AtLeast c then addConstrs (pb\<lparr>Units := Units pb @ map litOf (pc_Lits c)\<rparr>) cs
      else do { pb \<leftarrow> pb_appendClause pb c; addConstrs pb cs })"

definition parsePBConstrLine :: "problem \<Rightarrow> string list \<Rightarrow> (opb_error + problem) option" where
  "parsePBConstrLine pb fs =
     (let n = length fs in
      if n < 3 then Some (Inl InvalidSyntax)
      else if fs ! (n - 2) \<noteq> ''>='' \<and> fs ! (n - 2) \<noteq> ''='' then Some (Inl (InvalidOperator (fs ! (n - 2))))
      else case Atoi (fs ! (n - 1)) of
        None \<Rightarrow> Some (Inl (InvalidValue (fs ! (n - 1))))
      | Some rhs \<Rightarrow> do {
          r \<leftarrow> parseTerms pb (take (n - 2) fs);
          case r of
            Inl e \<Rightarrow> Some (Inl e)
          | Inr (ws, ls, pb) \<Rightarrow> do {
              cs \<leftarrow> (if fs ! (n - 2) = ''>='' then map_option (\<lambda>c. [c]) (GtEq ls (Some ws) rhs)
                     else Eq ls (Some ws) rhs);
              pb \<leftarrow> addConstrs pb cs;
              Some (Inr pb) } })"

definition parsePBLine :: "problem \<Rightarrow> string \<Rightarrow> (opb_error + problem) option" where
  "parsePBLine pb line =
     (if line = [] then None
      else if last line \<noteq> CHR '';'' then Some (Inl NoSemicolon)
      else case Fields (butlast line) of
        [] \<Rightarrow> Some (Inl EmptyLine)
      | f # fs \<Rightarrow> if f = ''min:'' then parsePBOptim pb (f # fs) else parsePBConstrLine pb (f # fs))"

fun parseOPBLines :: "problem \<Rightarrow> string list \<Rightarrow> (opb_error + problem) option" where
  "parseOPBLines pb [] = Some (Inr pb)"
| "parseOPBLines pb (line # lines) =
     (if line = [] \<or> hd line = CHR ''*'' then parseOPBLines pb lines
      else do {
        r \<leftarrow> parsePBLine pb line;
        case r of Inl e \<Rightarrow> Some (Inl e) | Inr pb \<Rightarrow> parseOPBLines pb lines })"

definition ParseOPB :: "string \<Rightarrow> (opb_error + problem) option" where
  "ParseOPB text = do {
     let (lines, readError) = scanLines text;
     r \<leftarrow> parseOPBLines (emptyProblem 0) lines;
     case r of
       Inl e \<Rightarrow> Some (Inl e)
     | Inr pb \<Rightarrow>
         if readError then Some (Inl ReadError)
         else if \<not> makeFits 8 (NbVars pb) then None
         else do {
           pb \<leftarrow> simplifyPB (pb\<lparr>pModel := replicate (nat (NbVars pb)) 0\<rparr>);
           Some (Inr pb) } }"

section \<open>Faults of the reader\<close>

text \<open>Contradictory units leave the problem satisfiable: the later one wins.\<close>

lemma ParseOPB_contradictory_units:
  "ParseOPB (joinLines [''1 x1 >= 1 ;'', ''1 x1 = 0 ;''])
    = Some (Inr \<lparr>NbVars = 1, Clauses = [], pStatus = Sat, Units = [IntToLit 1, IntToLit (- 1)], pModel = [- 1],
        minLits = None, minWeights = None\<rparr>)"
  by code_simp

text \<open>A constraint that always holds makes the reader panic, and so does a wrong word in the second half of a line.\<close>

lemma ParseOPB_panics:
  "ParseOPB ''1 x1 >= 0 ;'' = None"
  "ParseOPB ''1 x1 y >= 1 ;'' = None"
  by code_simp+

end
