(* ===== verification/Services.thy ===== *)
theory Services
  imports Search ParseSlice "HOL-Library.Word"
begin

text \<open>
  The operations of \<open>solver/solver.go\<close> that use a solver more than once: assumptions, constraints
  added between searches, enumeration and counting of models, and optimisation. The channel that
  \<open>Enumerate\<close> and \<open>Optimal\<close> write to is the list of what was sent. Sums of weights and numbers of
  models wrap around as the 64-bit integers of the code do.
\<close>

section \<open>Units and constraints added later\<close>

fun propagateUnits :: "solver \<Rightarrow> lit list \<Rightarrow> solver option" where
  "propagateUnits s [] = Some s"
| "propagateUnits s (unit # us) = do {
     s \<leftarrow> cleanupBindings (s\<lparr>lbdSt := addLbd (lbdSt s) 1\<rparr>) 1;
     m \<leftarrow> puti (model s) (Lit_Var unit) (lvlToSignedLvl unit 1);
     (s, confl) \<leftarrow> unifyLiteral (s\<lparr>model := m\<rparr>) unit 1;
     if confl \<noteq> None then Some (s\<lparr>sStatus := Unsat\<rparr>)
     else do { s \<leftarrow> rebuildOrderHeap s; propagateUnits s us } }"

lemma removeLit_shorter: "removeLit c j = Some c' \<Longrightarrow> Len c' = Len c - 1 \<and> j < Len c"
  by (auto simp: removeLit_def removeLast_def Len_def bind_eq_Some_conv split: option.splits if_splits)

text \<open>The loop of \<open>AppendClause\<close> removes the literals bound at the top level.\<close>

function appendLoop :: "solver \<Rightarrow> clause \<Rightarrow> nat \<Rightarrow> int \<Rightarrow> int \<Rightarrow> (solver \<times> clause \<times> int \<times> int) option" where
  "appendLoop s c i minW maxW =
     (if i < Len c then do {
        l \<leftarrow> Get c i;
        s \<leftarrow> newVar s (Lit_Var l);
        st \<leftarrow> litStatus s l;
        if st = Sat then do {
          w \<leftarrow> Weight c i;
          c \<leftarrow> removeLit c i;
          appendLoop s (updateCardinality c (int64 (- w))) i (int64 (minW + w)) (int64 (maxW + w)) }
        else if st = Unsat then do {
          c \<leftarrow> removeLit c i;
          appendLoop s c i minW maxW }
        else do {
          w \<leftarrow> Weight c i;
          appendLoop s c (Suc i) minW (int64 (maxW + w)) } }
      else Some (s, c, minW, maxW))"
  by pat_completeness auto
termination
  by (relation "measure (\<lambda>(s, c, i, minW, maxW). Len c - i)") (auto simp: Len_def [of "updateCardinality _ _"] dest!: removeLit_shorter simp flip: Len_def)

definition AppendClause :: "solver \<Rightarrow> clause \<Rightarrow> solver option" where
  "AppendClause s c = do {
     s \<leftarrow> cleanupBindings s 1;
     let cd = Cardinality c;
     (s, c, minW, maxW) \<leftarrow> appendLoop s c 0 0 0;
     if minW \<ge> cd then Some s
     else if maxW < cd then Some (s\<lparr>sStatus := Unsat\<rparr>)
     else if maxW = cd then propagateUnits s (lits c)
     else appendClause (s\<lparr>store := store s @ [c]\<rparr>) (length (store s)) }"

section \<open>Assumptions\<close>

fun assumeLits :: "solver \<Rightarrow> lit list \<Rightarrow> solver option" where
  "assumeLits s [] = Some s"
| "assumeLits s (l # ls) = do {
     s \<leftarrow> addLearnedUnit s l;
     as \<leftarrow> puti (assumptions s) (Lit_Var l) True;
     assumeLits (s\<lparr>assumptions := as, trail := trail s @ [l]\<rparr>) ls }"

definition Assume :: "solver \<Rightarrow> lit list \<Rightarrow> (solver \<times> status) option" where
  "Assume s ls = do {
     s \<leftarrow> cleanupBindings s 0;
     if nbVars s < 0 then None
     else do {
       s \<leftarrow> assumeLits (s\<lparr>trail := [], assumptions := replicate (nat (nbVars s)) False\<rparr>) ls;
       (s, confl) \<leftarrow> propagate (s\<lparr>sStatus := Indet\<rparr>) 0 1;
       let s = (if confl \<noteq> None then s\<lparr>sStatus := Unsat\<rparr> else s);
       Some (s, sStatus s) } }"

text \<open>
  \<open>Assume\<close> unbinds every variable, those of the unit clauses of the problem included: the unit
  \<open>x1\<close> is forgotten and its negation can be assumed.
\<close>

lemma Assume_forgets_units:
  "(do { p \<leftarrow> ParseSlice [[1], [2, 3]]; s \<leftarrow> New p; (s, st) \<leftarrow> Assume s [IntToLit (- 1)]; Some (st, model s) })
    = Some (Indet, [- 1, 0, 0])"
  by code_simp

section \<open>Counting models\<close>

text \<open>\<open>decisionLits\<close>: the loop over the reasons at index \<open>i\<close>.\<close>

fun decisionLoop :: "declevel list \<Rightarrow> nat \<Rightarrow> cid option list \<Rightarrow> lit list \<Rightarrow> lit list option" where
  "decisionLoop m i [] ls = Some ls"
| "decisionLoop m i (r # rs) ls = do {
     a \<leftarrow> get m i;
     if r = None \<and> \<bar>a\<bar> > 1 then do {
       ls \<leftarrow> puti ls (\<bar>a\<bar> - 2) (if a < 0 then litOf (int i + 1) else litOf (- int i - 1));
       decisionLoop m (Suc i) rs ls }
     else decisionLoop m (Suc i) rs ls }"

definition decisionLits :: "solver \<Rightarrow> lit list option" where
  "decisionLits s = do {
     lastLit \<leftarrow> geti (trail s) (int (length (trail s)) - 1);
     a \<leftarrow> geti (model s) (Lit_Var lastLit);
     if \<bar>a\<bar> < 1 then None
     else decisionLoop (model s) 0 (reason s) (replicate (nat (\<bar>a\<bar> - 1)) 0) }"

text \<open>The number of models a partial model stands for, on 64-bit words.\<close>

fun doubleUnbound :: "64 word \<Rightarrow> declevel list \<Rightarrow> 64 word" where
  "doubleUnbound nb [] = nb"
| "doubleUnbound nb (lvl # ls) = doubleUnbound (if lvl = 0 then nb * 2 else nb) ls"

definition countCurrentModels :: "declevel list \<Rightarrow> int" where
  "countCurrentModels lm = sint (doubleUnbound 1 lm)"

text \<open>
  \<open>addCurrentModels\<close>: first the partial model and the unbound variables, at index \<open>i\<close>, then one
  model per number below \<open>nb\<close>, whose bits are the values of the unbound variables.
\<close>

fun splitModel :: "bool list \<Rightarrow> nat list \<Rightarrow> nat \<Rightarrow> declevel list \<Rightarrow> (bool list \<times> nat list) option" where
  "splitModel bs unbound i [] = Some (bs, unbound)"
| "splitModel bs unbound i (lvl # ls) =
     (if lvl = 0 then splitModel bs (unbound @ [i]) (Suc i) ls
      else do { bs \<leftarrow> put bs i (0 < lvl); splitModel bs unbound (Suc i) ls })"

fun setBits :: "64 word \<Rightarrow> bool list \<Rightarrow> nat \<Rightarrow> nat list \<Rightarrow> bool list option" where
  "setBits i bs j [] = Some bs"
| "setBits i bs j (idx # is) = do {
     let cur = i AND push_bit j 1;
     bs \<leftarrow> put bs idx (cur \<noteq> 0);
     setBits i bs (Suc j) is }"

fun sendModels :: "bool list \<Rightarrow> nat list \<Rightarrow> 64 word list \<Rightarrow> bool list list option" where
  "sendModels bs unbound [] = Some []"
| "sendModels bs unbound (i # is) = do {
     bs \<leftarrow> setBits i bs 0 unbound;
     ms \<leftarrow> sendModels bs unbound is;
     Some (bs # ms) }"

definition addCurrentModels :: "int \<Rightarrow> declevel list \<Rightarrow> (bool list list \<times> int) option" where
  "addCurrentModels n lm =
     (if n < 0 then None
      else do {
        (bs, unbound) \<leftarrow> splitModel (replicate (nat n) False) [] 0 lm;
        let nb = doubleUnbound 1 lm;
        ms \<leftarrow> sendModels bs unbound (map word_of_nat [0..<unat nb]);
        Some (ms, sint nb) })"

text \<open>After a model: the clause that excludes its decisions is added and propagated.\<close>

definition excludeModel :: "solver \<Rightarrow> solver option" where
  "excludeModel s = do {
     let s = s\<lparr>sStatus := Indet\<rparr>;
     ls \<leftarrow> decisionLits s;
     if ls = [] then Some (s\<lparr>sStatus := Unsat\<rparr>)
     else if length ls = 1 then propagateUnits s ls
     else do {
       let c = length (store s);
       s \<leftarrow> appendClause (s\<lparr>store := store s @ [NewClause ls]\<rparr>) c;
       let l = last ls;
       a \<leftarrow> geti (model s) (Lit_Var l);
       let lvl = \<bar>a\<bar> - 1;
       s \<leftarrow> cleanupBindings s lvl;
       rs \<leftarrow> puti (reason s) (Lit_Var l) (Some c);
       (s, st) \<leftarrow> propagateAndSearch (s\<lparr>reason := rs\<rparr>) l lvl;
       Some s } }"

partial_function (option) searchUntil :: "solver \<Rightarrow> solver option" where
  "searchUntil s =
     (if sStatus s = Indet then do {
        s \<leftarrow> search s;
        searchUntil (if sStatus s = Indet then s\<lparr>NbRestarts := NbRestarts s + 1\<rparr> else s) }
      else Some s)"

declare searchUntil.simps [code]

text \<open>\<open>copy(old, new)\<close> for slices.\<close>

definition copyInto :: "'a list \<Rightarrow> 'a list \<Rightarrow> 'a list" where
  "copyInto old new = take (length old) new @ drop (length new) old"

text \<open>\<open>send\<close> says whether there is a channel; the result ends with what was sent and the count.\<close>

partial_function (option) enumerateLoop :: "bool \<Rightarrow> solver \<Rightarrow> bool list list \<Rightarrow> int \<Rightarrow> (solver \<times> bool list list \<times> int) option" where
  "enumerateLoop send s sent nb =
     (if sStatus s = Unsat then Some (s, sent, nb)
      else do {
        s \<leftarrow> searchUntil s;
        if sStatus s = Sat then do {
          old \<leftarrow> lastModel s;
          let lm = copyInto old (model s);
          let s = s\<lparr>lastModel := Some lm\<rparr>;
          (ms, n) \<leftarrow> (if send then addCurrentModels (nbVars s) lm else Some ([], countCurrentModels lm));
          s \<leftarrow> excludeModel s;
          enumerateLoop send s (sent @ ms) (int64 (nb + n)) }
        else enumerateLoop send s sent nb })"

declare enumerateLoop.simps [code]

definition Enumerate :: "bool \<Rightarrow> solver \<Rightarrow> (solver \<times> bool list list \<times> int) option" where
  "Enumerate send s = enumerateLoop send (s\<lparr>lastModel := Some (replicate (length (model s)) 0)\<rparr>) [] 0"

text \<open>
  \<open>CountModels\<close> makes \<open>lastModel\<close> the same slice as the bindings, so it follows them until the end.
\<close>

partial_function (option) countLoop :: "solver \<Rightarrow> bool \<Rightarrow> int \<Rightarrow> (solver \<times> bool \<times> int) option" where
  "countLoop s shared nb =
     (if sStatus s = Unsat then Some (s, shared, nb)
      else do {
        s \<leftarrow> searchUntil s;
        if sStatus s = Sat then do {
          let n = countCurrentModels (model s);
          s \<leftarrow> excludeModel s;
          countLoop s True (int64 (nb + n)) }
        else countLoop s shared nb })"

declare countLoop.simps [code]

definition CountModels :: "solver \<Rightarrow> (solver \<times> int) option" where
  "CountModels s = do {
     (s, shared, nb) \<leftarrow> countLoop s False 0;
     Some (if shared then s\<lparr>lastModel := Some (model s)\<rparr> else s, nb) }"

section \<open>Optimisation\<close>

text \<open>The cost of the bindings, from index \<open>i\<close> of the literals to minimise.\<close>

fun costLoop :: "declevel list \<Rightarrow> int list option \<Rightarrow> nat \<Rightarrow> lit list \<Rightarrow> int \<Rightarrow> int option" where
  "costLoop m ws i [] cost = Some cost"
| "costLoop m ws i (l # ls) cost = do {
     a \<leftarrow> geti m (Lit_Var l);
     if (0 < a) = IsPositive l then do {
       w \<leftarrow> (case ws of None \<Rightarrow> Some 1 | Some ws \<Rightarrow> get ws i);
       costLoop m ws (Suc i) ls (int64 (cost + w)) }
     else costLoop m ws (Suc i) ls cost }"

definition maxCost :: "lit list \<Rightarrow> int list option \<Rightarrow> int" where
  "maxCost ls ws = (case ws of None \<Rightarrow> int (length ls) | Some ws \<Rightarrow> sum64 ws)"

text \<open>The negated literals, the heaviest first, with their weights.\<close>

definition startHypothesis :: "solver \<Rightarrow> lit list \<Rightarrow> (solver \<times> int list) option" where
  "startHypothesis s ls = do {
     (hyp, ws) \<leftarrow> sortWeighted (map Negation ls) (Some (case sMinWeights s of None \<Rightarrow> [] | Some ws \<Rightarrow> ws));
     Some (s\<lparr>hypothesis := hyp, lastModel := Some (replicate (length (model s)) 0)\<rparr>,
       case ws of None \<Rightarrow> [] | Some ws \<Rightarrow> ws) }"

definition saveModel :: "solver \<Rightarrow> solver option" where
  "saveModel s = do { old \<leftarrow> lastModel s; Some (s\<lparr>lastModel := Some (copyInto old (model s))\<rparr>) }"

text \<open>The constraint that the next model is cheaper.\<close>

definition improve :: "solver \<Rightarrow> int list \<Rightarrow> int \<Rightarrow> (solver \<times> status) option" where
  "improve s ws bound = do {
     c \<leftarrow> NewPBClause (hypothesis s) (Some ws) bound;
     s \<leftarrow> AppendClause s c;
     s \<leftarrow> rebuildOrderHeap s;
     Solve s }"

partial_function (option) minimizeLoop :: "solver \<Rightarrow> lit list \<Rightarrow> int list \<Rightarrow> status \<Rightarrow> int \<Rightarrow> (solver \<times> int) option" where
  "minimizeLoop s ls ws st cost =
     (if st = Sat then do {
        s \<leftarrow> saveModel s;
        cost \<leftarrow> costLoop (model s) (sMinWeights s) 0 ls 0;
        if cost = 0 then Some (s, 0)
        else do {
          (s, st) \<leftarrow> improve s ws (int64 (maxCost ls (sMinWeights s) - cost + 1));
          minimizeLoop s ls ws st cost } }
      else Some (s, cost))"

declare minimizeLoop.simps [code]

definition Minimize :: "solver \<Rightarrow> (solver \<times> int) option" where
  "Minimize s = do {
     (s, st) \<leftarrow> Solve s;
     if st = Unsat then Some (s, - 1)
     else case sMinLits s of
       None \<Rightarrow> Some (s, 0)
     | Some ls \<Rightarrow> do {
         (s, ws) \<leftarrow> startHypothesis s ls;
         minimizeLoop s ls ws st 0 } }"

record result =
  r_Status :: status
  r_Model :: "bool list option"
  r_Weight :: int

partial_function (option) optimalLoop :: "solver \<Rightarrow> lit list \<Rightarrow> int list \<Rightarrow> status \<Rightarrow> result list \<Rightarrow> result
    \<Rightarrow> (solver \<times> result list \<times> result) option" where
  "optimalLoop s ls ws st sent res =
     (if st = Sat then do {
        s \<leftarrow> saveModel s;
        cost \<leftarrow> costLoop (model s) (sMinWeights s) 0 ls 0;
        bs \<leftarrow> Model s;
        let res = \<lparr>r_Status = Sat, r_Model = Some bs, r_Weight = cost\<rparr>;
        if cost = 0 then Some (s, sent @ [res], res)
        else do {
          (s, st) \<leftarrow> improve s ws (int64 (maxCost ls (sMinWeights s) - cost + 1));
          optimalLoop s ls ws st (sent @ [res]) res } }
      else Some (s, sent, res))"

declare optimalLoop.simps [code]

text \<open>The results sent, when there is a channel, and the result returned.\<close>

definition Optimal :: "solver \<Rightarrow> (solver \<times> result list \<times> result) option" where
  "Optimal s = do {
     (s, st) \<leftarrow> Solve s;
     let none = \<lparr>r_Status = Indet, r_Model = None, r_Weight = 0\<rparr>;
     if st = Unsat then Some (s, [none\<lparr>r_Status := Unsat\<rparr>], none\<lparr>r_Status := Unsat\<rparr>)
     else case sMinLits s of
       None \<Rightarrow> do {
         let s = s\<lparr>lastModel := Some (model s)\<rparr>;
         bs \<leftarrow> Model s;
         let res = \<lparr>r_Status = Sat, r_Model = Some bs, r_Weight = 0\<rparr>;
         Some (s, [res], res) }
     | Some ls \<Rightarrow> do {
         (s, ws) \<leftarrow> startHypothesis s ls;
         optimalLoop s ls ws st [] none } }"

section \<open>Enumeration sends every completion once\<close>

lemma bit_of_nat_word: "bit (word_of_nat a :: 64 word) p \<longleftrightarrow> p < 64 \<and> bit a p"
proof -
  have "bit (word_of_nat a :: 64 word) p \<longleftrightarrow> bit (unat (word_of_nat a :: 64 word)) p"
    by (simp add: bit_unsigned_iff)
  also have "\<dots> \<longleftrightarrow> p < 64 \<and> bit a p"
    by (simp add: unsigned_of_nat bit_take_bit_iff)
  finally show ?thesis .
qed

lemma doubleUnbound_eq: "doubleUnbound nb lm = nb * 2 ^ length (filter (\<lambda>l. l = 0) lm)"
  by (induction nb lm rule: doubleUnbound.induct) auto

definition split_at :: "bool list \<Rightarrow> nat \<Rightarrow> declevel list \<Rightarrow> bool list \<Rightarrow> nat list \<Rightarrow> bool" where
  "split_at bs i lm bs' ub \<longleftrightarrow> length bs' = length bs \<and> distinct ub
     \<and> (\<forall>j. j \<in> set ub \<longleftrightarrow> i \<le> j \<and> j < length bs \<and> lm ! (j - i) = 0)
     \<and> length ub = length (filter (\<lambda>l. l = 0) lm)
     \<and> (\<forall>j<length bs. bs' ! j = (if i \<le> j \<and> lm ! (j - i) \<noteq> 0 then 0 < lm ! (j - i) else bs ! j))"

lemma nth_Cons_diff: "Suc i \<le> j \<Longrightarrow> (l # lm) ! (j - i) = lm ! (j - Suc i)"
  by (metis Suc_diff_le diff_Suc_Suc nth_Cons_Suc)

lemma split_at_unbound:
  assumes "split_at bs (Suc i) lm bs' ub" "i < length bs" "l = 0"
  shows "split_at bs i (l # lm) bs' (i # ub)"
proof -
  have above: "i \<le> j \<longleftrightarrow> j = i \<or> Suc i \<le> j" for j by auto
  show ?thesis
    using assms unfolding split_at_def above by (simp add: nth_Cons_diff cong: conj_cong) (auto simp: nth_Cons_diff)
qed

lemma split_at_bound:
  assumes "split_at (bs[i := 0 < l]) (Suc i) lm bs' ub" "i < length bs" "l \<noteq> 0"
  shows "split_at bs i (l # lm) bs' ub"
proof -
  have above: "i \<le> j \<longleftrightarrow> j = i \<or> Suc i \<le> j" for j by auto
  show ?thesis
    using assms unfolding split_at_def above by (simp add: nth_Cons_diff nth_list_update cong: conj_cong) (auto simp: nth_Cons_diff)
qed

lemma splitModel_spec:
  "length bs = i + length lm \<Longrightarrow> \<exists>bs' ub'. splitModel bs ub i lm = Some (bs', ub @ ub') \<and> split_at bs i lm bs' ub'"
proof (induction lm arbitrary: bs ub i)
  case (Cons l lm)
  then have i: "i < length bs" "put bs i (0 < l) = Some (bs[i := 0 < l])" by (auto simp: put_def)
  show ?case
  proof (cases "l = 0")
    case True
    with Cons.IH [of bs "Suc i" "ub @ [i]"] Cons.prems split_at_unbound [OF _ i(1)] show ?thesis by fastforce
  next
    case False
    with Cons.IH [of "bs[i := 0 < l]" "Suc i" ub] Cons.prems split_at_bound [OF _ i(1)] i(2) show ?thesis by fastforce
  qed
qed (auto simp: split_at_def)

lemma and_mask: "(w AND push_bit j 1 \<noteq> (0 :: 64 word)) = bit w j"
  by (rule bit_iff_and_push_bit_not_eq_0 [symmetric])

lemma setBits_spec:
  "distinct is \<Longrightarrow> set is \<subseteq> {..<length bs} \<Longrightarrow> \<exists>bs'. setBits w bs j is = Some bs' \<and> length bs' = length bs
     \<and> (\<forall>p<length is. bs' ! (is ! p) = bit w (j + p)) \<and> (\<forall>q. q \<notin> set is \<longrightarrow> bs' ! q = bs ! q)"
proof (induction "is" arbitrary: bs j)
  case Nil
  then show ?case by auto
next
  case (Cons i "is")
  from Cons.IH [of "bs[i := bit w j]" "Suc j"] Cons.prems obtain bs' where
    r: "setBits w (bs[i := bit w j]) (Suc j) is = Some bs'" "length bs' = length bs"
      "\<forall>p<length is. bs' ! (is ! p) = bit w (Suc j + p)" "\<forall>q. q \<notin> set is \<longrightarrow> bs' ! q = bs[i := bit w j] ! q"
    by auto
  have "\<forall>p<length (i # is). bs' ! ((i # is) ! p) = bit w (j + p)"
    using r Cons.prems by (auto simp: nth_Cons split: nat.splits)
  moreover have "put bs i (w AND push_bit j 1 \<noteq> 0) = Some (bs[i := bit w j])"
    using Cons.prems by (simp add: put_def and_mask del: push_bit_of_1)
  ultimately show ?case
    using r Cons.prems by (intro exI [of _ bs']) (auto simp del: push_bit_of_1)
qed

definition completes :: "bool list \<Rightarrow> nat list \<Rightarrow> 64 word \<Rightarrow> bool list \<Rightarrow> bool" where
  "completes bs ub w m \<longleftrightarrow> length m = length bs \<and> (\<forall>p<length ub. m ! (ub ! p) = bit w p)
     \<and> (\<forall>q. q \<notin> set ub \<longrightarrow> m ! q = bs ! q)"

lemma sendModels_spec:
  "distinct ub \<Longrightarrow> set ub \<subseteq> {..<length bs} \<Longrightarrow> \<exists>ms. sendModels bs ub ws = Some ms \<and> list_all2 (completes bs ub) ws ms"
proof (induction ws arbitrary: bs)
  case (Cons w ws)
  obtain bs' where bs': "setBits w bs 0 ub = Some bs'" "completes bs ub w bs'"
    using setBits_spec [OF Cons.prems, of w 0] by (auto simp: completes_def)
  have "length bs' = length bs" using bs'(2) by (simp add: completes_def)
  then have "\<exists>ms. sendModels bs' ub ws = Some ms \<and> list_all2 (completes bs' ub) ws ms"
    using Cons.IH [of bs'] Cons.prems by simp
  moreover have "completes bs' ub = completes bs ub"
    using bs'(2) by (auto simp: completes_def fun_eq_iff)
  ultimately obtain ms where "sendModels bs' ub ws = Some ms" "list_all2 (completes bs ub) ws ms" by auto
  then show ?case using bs' by auto
qed auto

lemma completes_inj:
  assumes "completes bs ub (word_of_nat a) m" "completes bs ub (word_of_nat b) m"
    and "a < 2 ^ length ub" "b < 2 ^ length ub" "length ub < 64"
  shows "a = b"
proof (rule bit_eqI)
  fix p
  have out: "\<not> bit c p" if "length ub \<le> p" "c < 2 ^ length ub" for c :: nat
  proof -
    have "c < 2 ^ p" using that power_increasing [of "length ub" p "2 :: nat"] by linarith
    then show ?thesis by (simp add: bit_iff_odd)
  qed
  show "bit a p = bit b p"
  proof (cases "p < length ub")
    case True
    then have "bit (word_of_nat a :: 64 word) p = bit (word_of_nat b :: 64 word) p"
      using assms(1,2) by (simp add: completes_def)
    then show ?thesis using True assms(5) by (simp add: bit_of_nat_word)
  next
    case False
    then show ?thesis using out assms by simp
  qed
qed

lemma completes_sur:
  assumes "distinct ub" "length ub < 64" "length m = length bs" "\<forall>q<length bs. q \<notin> set ub \<longrightarrow> m ! q = bs ! q"
    "set ub \<subseteq> {..<length bs}"
  shows "\<exists>a<2 ^ length ub. \<forall>m'. completes bs ub (word_of_nat a) m' \<longrightarrow> m' = m"
proof -
  define a where "a = horner_sum of_bool (2 :: nat) (map (\<lambda>i. m ! i) ub)"
  have bit: "bit a p = m ! (ub ! p)" if "p < length ub" for p
    using that by (simp add: a_def bit_horner_sum_bit_iff)
  have lt: "a < 2 ^ length ub"
    using horner_sum_of_bool_2_less [of "map (\<lambda>i. m ! i) ub"] by (simp add: a_def)
  moreover have "m' = m" if c: "completes bs ub (word_of_nat a) m'" for m'
  proof (rule nth_equalityI)
    show "length m' = length m" using c assms(3) by (simp add: completes_def)
    fix q assume q: "q < length m'"
    show "m' ! q = m ! q"
    proof (cases "q \<in> set ub")
      case True
      then obtain p where "p < length ub" "q = ub ! p" by (auto simp: in_set_conv_nth)
      then show ?thesis using c bit assms(2) by (simp add: completes_def bit_of_nat_word)
    next
      case False
      then show ?thesis using c q assms(3,4) by (simp add: completes_def)
    qed
  qed
  ultimately show ?thesis by blast
qed

lemma unat_pow: "k < 64 \<Longrightarrow> unat (2 ^ k :: 64 word) = 2 ^ k"
  using unsigned_of_nat [of "2 ^ k", where ?'a = nat and ?'b = 64] by (simp add: take_bit_nat_eq_self)

lemma sint_pow:
  assumes "k < 63" shows "sint (2 ^ k :: 64 word) = 2 ^ k"
proof -
  have "(2 :: int) ^ k < 2 ^ 63" using assms by (intro power_strict_increasing) auto
  moreover have "(- (2 ^ 63) :: int) \<le> 0" "(0 :: int) \<le> 2 ^ k" by auto
  ultimately have "signed_take_bit 63 ((2 :: int) ^ k) = 2 ^ k"
    by (intro signed_take_bit_int_eq_self) linarith+
  then show ?thesis using signed_of_int [of "2 ^ k", where ?'a = int and ?'b = 64] by simp
qed

text \<open>
  C25. \<open>addCurrentModels\<close> sends every completion of a model that leaves fewer than 63 variables unbound
  exactly once, and returns how many it sent, which is what \<open>countCurrentModels\<close> counts.
\<close>

lemma addCurrentModels_correct:
  assumes len: "length lm = nat n" and n: "0 \<le> n"
    and few: "length (filter (\<lambda>l. l = 0) lm) < 63"
  shows "\<exists>ms. addCurrentModels n lm = Some (ms, int (length ms)) \<and> countCurrentModels lm = int (length ms) \<and> distinct ms
    \<and> set ms = {m. length m = length lm \<and> (\<forall>i<length lm. lm ! i \<noteq> 0 \<longrightarrow> m ! i = (0 < lm ! i))}"
proof -
  obtain bs ub where s: "splitModel (replicate (nat n) False) [] 0 lm = Some (bs, ub)"
    and at0: "split_at (replicate (nat n) False) 0 lm bs ub"
    using splitModel_spec [of "replicate (nat n) False" 0 lm "[]"] len by auto
  have sp: "splitModel (replicate (nat n) False) [] 0 lm = Some (bs, ub)" "length bs = length lm"
      "distinct ub" "set ub = {j. j < length lm \<and> lm ! j = 0}" "length ub = length (filter (\<lambda>l. l = 0) lm)"
      "\<forall>j<length lm. bs ! j = (if lm ! j \<noteq> 0 then 0 < lm ! j else False)"
    using s at0 len by (auto simp: split_at_def)
  let ?k = "length ub"
  let ?ws = "map word_of_nat [0..<2 ^ ?k] :: 64 word list"
  have nb: "doubleUnbound 1 lm = 2 ^ ?k" using sp(5) by (simp add: doubleUnbound_eq)
  have k: "?k < 63" using few sp(5) by simp
  have "set ub \<subseteq> {..<length bs}" using sp(2,4) by auto
  from sendModels_spec [OF sp(3) this, of ?ws] obtain ms where
    ms: "sendModels bs ub ?ws = Some ms" "list_all2 (completes bs ub) ?ws ms" by blast
  have lms: "length ms = 2 ^ ?k" using list_all2_lengthD [OF ms(2)] by simp
  have at: "completes bs ub (word_of_nat a) (ms ! a)" if "a < 2 ^ ?k" for a
    using list_all2_nthD [OF ms(2), of a] that by simp
  have un: "unat (2 ^ ?k :: 64 word) = 2 ^ ?k" using k by (simp add: unat_pow)
  have si: "sint (2 ^ ?k :: 64 word) = int (length ms)" using k lms by (simp add: sint_pow)
  have dis: "distinct ms"
    unfolding distinct_conv_nth
  proof (intro allI impI notI)
    fix a b assume ab: "a < length ms" "b < length ms" "a \<noteq> b" "ms ! a = ms ! b"
    then show False using completes_inj [of bs ub a "ms ! a" b] at [of a] at [of b] lms k by simp
  qed
  have "set ms = {m. length m = length lm \<and> (\<forall>i<length lm. lm ! i \<noteq> 0 \<longrightarrow> m ! i = (0 < lm ! i))}" (is "_ = ?S")
  proof (intro equalityI subsetI)
    fix m assume "m \<in> set ms"
    then obtain a where a: "a < 2 ^ ?k" "m = ms ! a" by (metis in_set_conv_nth lms)
    show "m \<in> ?S" using at [OF a(1)] a(2) sp(2,4,6) by (auto simp: completes_def)
  next
    fix m assume m: "m \<in> ?S"
    have "\<exists>a<2 ^ ?k. \<forall>m'. completes bs ub (word_of_nat a) m' \<longrightarrow> m' = m"
      using m sp k by (intro completes_sur) auto
    then obtain a where "a < 2 ^ ?k" "ms ! a = m" using at by blast
    then show "m \<in> set ms" using lms nth_mem by metis
  qed
  then show ?thesis
    using n sp(1) ms(1) nb un si dis by (intro exI [of _ ms]) (simp add: addCurrentModels_def countCurrentModels_def)
qed


lemma addCurrentModels_correct_witness:
  "\<exists>ms. addCurrentModels 3 [1, 0, - 2] = Some (ms, int (length ms)) \<and> countCurrentModels [1, 0, - 2] = int (length ms)
    \<and> distinct ms \<and> set ms = {m. length m = length [1 :: int, 0, - 2]
      \<and> (\<forall>i<length [1 :: int, 0, - 2]. [1 :: int, 0, - 2] ! i \<noteq> 0 \<longrightarrow> m ! i = (0 < [1 :: int, 0, - 2] ! i))}"
  by (rule addCurrentModels_correct) auto

end
