(* ===== verification/CuttingPlanes.thy ===== *)
theory CuttingPlanes
  imports Search Restart
begin

text \<open>
  The pseudo-boolean conflict analysis (\<open>solver/learn_pb.go\<close>) and the search that uses it when
  \<open>CuttingPlanes\<close> is on. A constraint is the list of the signed weights of all variables and a
  cardinality. The two buffers the code reuses for these lists are as long as the variables the
  solver was built with, \<open>n\<close> below: a constraint over a variable added later panics. Weights,
  their products and the cardinality wrap around as 64-bit integers do; the theorems are about
  constraints small enough.
\<close>

section \<open>Constraints as signed weights\<close>

record pbset =
  pw :: "int list"
  pcard :: int

text \<open>\<open>abs\<close> on the 64-bit integers.\<close>

definition abs64 :: "int \<Rightarrow> int" where
  "abs64 w = (if w < 0 then int64 (- w) else w)"

fun pbSetLoop :: "int list \<Rightarrow> clause \<Rightarrow> nat list \<Rightarrow> int list option" where
  "pbSetLoop ws c [] = Some ws"
| "pbSetLoop ws c (i # is) = do {
     l \<leftarrow> Get c i;
     w \<leftarrow> Weight c i;
     ws \<leftarrow> puti ws (Lit_Var l) (if IsPositive l then w else int64 (- w));
     pbSetLoop ws c is }"

definition toPbSet :: "nat \<Rightarrow> clause \<Rightarrow> pbset option" where
  "toPbSet n c = do {
     ws \<leftarrow> pbSetLoop (replicate n 0) c [0..<Len c];
     Some \<lparr>pw = ws, pcard = Cardinality c\<rparr> }"

text \<open>The loop of \<open>clause\<close> from variable \<open>i\<close> on.\<close>

fun pbTerms :: "nat \<Rightarrow> int list \<Rightarrow> (lit \<times> int) list" where
  "pbTerms i [] = []"
| "pbTerms i (w # ws) =
     (if w = 0 then pbTerms (Suc i) ws
      else (litOf (if w < 0 then - (int i + 1) else int i + 1), abs64 w) # pbTerms (Suc i) ws)"

definition pbClause :: "pbset \<Rightarrow> clause option" where
  "pbClause pb = NewPBClause (map fst (pbTerms 0 (pw pb))) (Some (map snd (pbTerms 0 (pw pb)))) (pcard pb)"

text \<open>\<open>clash\<close>: the loop gives the new weights and the new cardinality.\<close>

fun clashLoop :: "int list \<Rightarrow> int list \<Rightarrow> int \<Rightarrow> (int list \<times> int) option" where
  "clashLoop [] ws2 cd = Some ([], cd)"
| "clashLoop (w1 # ws1) [] cd = None"
| "clashLoop (w1 # ws1) (w2 # ws2) cd = do {
     (ws, cd) \<leftarrow> clashLoop ws1 ws2 (if int64 (w1 * w2) < 0 then int64 (cd - min (abs64 w1) (abs64 w2)) else cd);
     Some (int64 (w1 + w2) # ws, cd) }"

definition clash :: "pbset \<Rightarrow> pbset \<Rightarrow> pbset option" where
  "clash pb1 pb2 = do {
     (ws, cd) \<leftarrow> clashLoop (pw pb1) (pw pb2) (int64 (pcard pb1 + pcard pb2));
     Some \<lparr>pw = ws, pcard = cd\<rparr> }"

fun pbSlackLoop :: "solver \<Rightarrow> declevel \<Rightarrow> nat \<Rightarrow> int list \<Rightarrow> int \<Rightarrow> int option" where
  "pbSlackLoop s lvl i [] res = Some res"
| "pbSlackLoop s lvl i (w # ws) res =
     (if w = 0 then pbSlackLoop s lvl (Suc i) ws res
      else do {
        let l = (if w < 0 then Negation (litOf (int i + 1)) else litOf (int i + 1));
        a \<leftarrow> get (model s) i;
        st \<leftarrow> litStatus s l;
        pbSlackLoop s lvl (Suc i) ws (if st \<noteq> Unsat \<or> \<bar>a\<bar> > lvl then int64 (res + abs64 w) else res) })"

definition slack :: "solver \<Rightarrow> pbset \<Rightarrow> declevel \<Rightarrow> int option" where
  "slack s pb lvl = pbSlackLoop s lvl 0 (pw pb) (int64 (- pcard pb))"

definition falsifies :: "pbset \<Rightarrow> lit \<Rightarrow> bool option" where
  "falsifies pb l = do {
     w \<leftarrow> geti (pw pb) (Lit_Var l);
     Some (w \<noteq> 0 \<and> (w < 0) = IsPositive l) }"

text \<open>The loop of \<open>backtrackLevel\<close> from variable \<open>i\<close> on, for the variable \<open>v\<close> of level \<open>lvl\<close>.\<close>

fun maxLevel :: "declevel list \<Rightarrow> var \<Rightarrow> declevel \<Rightarrow> nat \<Rightarrow> int list \<Rightarrow> declevel \<Rightarrow> declevel option" where
  "maxLevel m v lvl i [] mx = Some mx"
| "maxLevel m v lvl i (w # ws) mx =
     (if w = 0 \<or> int i = v then maxLevel m v lvl (Suc i) ws mx
      else do {
        a \<leftarrow> get m i;
        maxLevel m v lvl (Suc i) ws (if \<bar>a\<bar> > mx \<and> \<bar>a\<bar> \<noteq> lvl then \<bar>a\<bar> else mx) })"

definition backtrackLevel :: "pbset \<Rightarrow> solver \<Rightarrow> lit \<Rightarrow> declevel option" where
  "backtrackLevel pb s l = do {
     a \<leftarrow> geti (model s) (Lit_Var l);
     maxLevel (model s) (Lit_Var l) \<bar>a\<bar> 0 (pw pb) 1 }"

text \<open>\<open>onlyFalsified\<close>: the literals of the trail from \<open>ptr\<close>, here \<open>pos\<close>, down.\<close>

fun falsifiedLoop :: "pbset \<Rightarrow> declevel list \<Rightarrow> declevel \<Rightarrow> lit \<Rightarrow> lit list \<Rightarrow> lit option" where
  "falsifiedLoop pb m lvl res [] = Some res"
| "falsifiedLoop pb m lvl res (l # ls) = do {
     a \<leftarrow> geti m (Lit_Var l);
     if \<bar>a\<bar> \<noteq> lvl then Some res
     else do {
       f \<leftarrow> falsifies pb l;
       if f then if res \<noteq> - 1 then Some (- 1) else falsifiedLoop pb m lvl l ls
       else falsifiedLoop pb m lvl res ls } }"

definition onlyFalsified :: "pbset \<Rightarrow> solver \<Rightarrow> int \<Rightarrow> declevel \<Rightarrow> lit option" where
  "onlyFalsified pb s pos lvl =
     (if pos < 0 then Some (- 1)
      else if int (length (trail s)) \<le> pos then None
      else falsifiedLoop pb (model s) lvl (- 1) (rev (take (nat pos + 1) (trail s))))"

section \<open>Rounding\<close>

definition divRound :: "int \<Rightarrow> int \<Rightarrow> int" where
  "divRound coeff w =
     (if w = 0 then 0
      else if w smod coeff = 0 then w sdiv coeff
      else if w > 0 then w sdiv coeff + 1
      else w sdiv coeff - 1)"

definition divideBy :: "pbset \<Rightarrow> int \<Rightarrow> pbset option" where
  "divideBy pb coeff =
     (if coeff = 0 then None
      else Some \<lparr>pw = map (divRound coeff) (pw pb),
        pcard = (if pcard pb smod coeff = 0 then pcard pb sdiv coeff else pcard pb sdiv coeff + 1)\<rparr>)"

text \<open>The literals that are not falsified and whose weight \<open>wi\<close> does not divide are removed.\<close>

fun weakenLoop :: "declevel list \<Rightarrow> int \<Rightarrow> nat \<Rightarrow> int list \<Rightarrow> int \<Rightarrow> (int list \<times> int) option" where
  "weakenLoop m wi j [] cd = Some ([], cd)"
| "weakenLoop m wi j (w # ws) cd =
     (if w = 0 then do { (ws, cd) \<leftarrow> weakenLoop m wi (Suc j) ws cd; Some (0 # ws, cd) }
      else do {
        a \<leftarrow> get m j;
        if wi = 0 then None
        else if w smod wi \<noteq> 0 \<and> (a = 0 \<or> (a > 0) = (w > 0))
        then do { (ws, cd) \<leftarrow> weakenLoop m wi (Suc j) ws (int64 (cd - abs64 w)); Some (0 # ws, cd) }
        else do { (ws, cd) \<leftarrow> weakenLoop m wi (Suc j) ws cd; Some (w # ws, cd) } })"

definition roundToOne :: "pbset \<Rightarrow> solver \<Rightarrow> var \<Rightarrow> pbset option" where
  "roundToOne pb s locked = do {
     w \<leftarrow> geti (pw pb) locked;
     if abs64 w = 1 then Some pb
     else do {
       (ws, cd) \<leftarrow> weakenLoop (model s) (abs64 w) 0 (pw pb) (pcard pb);
       divideBy \<lparr>pw = ws, pcard = cd\<rparr> (abs64 w) } }"

section \<open>Resolution\<close>

text \<open>The inner loop of \<open>cuttingPlanes\<close>: back to the last literal that \<open>pb\<close> falsifies.\<close>

function skipTrue :: "solver \<Rightarrow> pbset \<Rightarrow> declevel \<Rightarrow> int \<Rightarrow> (solver \<times> declevel \<times> int \<times> lit) option" where
  "skipTrue s pb lvl pos = do {
     l \<leftarrow> geti (trail s) pos;
     f \<leftarrow> falsifies pb l;
     if f then Some (s, lvl, pos, l)
     else do {
       r \<leftarrow> geti (reason s) (Lit_Var l);
       m \<leftarrow> puti (model s) (Lit_Var l) 0;
       skipTrue (s\<lparr>model := m\<rparr>) pb (if r = None then lvl - 1 else lvl) (pos - 1) } }"
  by pat_completeness auto
termination
  by (relation "measure (\<lambda>(s, pb, lvl, pos). nat (pos + 1))") (auto simp: geti_def split: if_splits)

declare skipTrue.simps [simp del]

fun markSeen :: "bool list \<Rightarrow> lit list \<Rightarrow> bool list option" where
  "markSeen seen [] = Some seen"
| "markSeen seen (l # ls) = do { seen \<leftarrow> puti seen (Lit_Var l) True; markSeen seen ls }"

text \<open>The reason is rounded and added.\<close>

definition resolveReason :: "nat \<Rightarrow> solver \<Rightarrow> pbset \<Rightarrow> var \<Rightarrow> clause \<Rightarrow> pbset option" where
  "resolveReason n s pb v cl = do {
     pb2 \<leftarrow> toPbSet n cl;
     pb2 \<leftarrow> roundToOne pb2 s v;
     clash pb pb2 }"

text \<open>The rest of the body of the loop, for the falsified literal \<open>l\<close>.\<close>

definition resolveStep :: "nat \<Rightarrow> solver \<Rightarrow> pbset \<Rightarrow> declevel \<Rightarrow> bool list \<Rightarrow> lit
    \<Rightarrow> (solver \<times> pbset \<times> declevel \<times> bool list) option" where
  "resolveStep n s pb lvl seen l = do {
     let v = Lit_Var l;
     s \<leftarrow> varBumpActivity s v;
     pb \<leftarrow> roundToOne pb s v;
     r \<leftarrow> geti (reason s) v;
     case r of
       None \<Rightarrow> Some (s, pb, lvl - 1, seen)
     | Some c \<Rightarrow> do {
         cl \<leftarrow> getC s c;
         seen \<leftarrow> markSeen seen (lits cl);
         s \<leftarrow> clauseBumpActivity s c;
         cl \<leftarrow> getC s c;
         pb \<leftarrow> resolveReason n s pb v cl;
         Some (s, pb, lvl, seen) } }"

text \<open>The outer loop; the last component says that it was left at the top level.\<close>

partial_function (option) resolvePB :: "nat \<Rightarrow> solver \<Rightarrow> pbset \<Rightarrow> int \<Rightarrow> declevel \<Rightarrow> bool list
    \<Rightarrow> (solver \<times> pbset \<times> int \<times> declevel \<times> bool list \<times> bool) option" where
  "resolvePB n s pb pos lvl seen = do {
     l \<leftarrow> onlyFalsified pb s pos lvl;
     if l \<ge> 0 then Some (s, pb, pos, lvl, seen, False)
     else if lvl = 1 then Some (s, pb, pos, lvl, seen, True)
     else do {
       (s, lvl, pos, l) \<leftarrow> skipTrue s pb lvl pos;
       (s, pb, lvl, seen) \<leftarrow> resolveStep n s pb lvl seen l;
       resolvePB n s pb pos lvl seen } }"

declare resolvePB.simps [code]

fun bumpSeen :: "solver \<Rightarrow> nat \<Rightarrow> bool list \<Rightarrow> solver option" where
  "bumpSeen s i [] = Some s"
| "bumpSeen s i (b # bs) = do {
     s \<leftarrow> (if b then varBumpActivity s (int i) else Some s);
     bumpSeen s (Suc i) bs }"

text \<open>\<open>cuttingPlanes\<close>: the learned constraint, the literals it propagates and their level.\<close>

definition cuttingPlanes :: "nat \<Rightarrow> solver \<Rightarrow> cid \<Rightarrow> declevel
    \<Rightarrow> (solver \<times> clause option \<times> lit list \<times> declevel) option" where
  "cuttingPlanes n s confl lvl =
     (if nbVars s < 0 then None
      else do {
        s \<leftarrow> clauseBumpActivity s confl;
        cl \<leftarrow> getC s confl;
        seen \<leftarrow> markSeen (replicate (nat (nbVars s)) False) (lits cl);
        pb \<leftarrow> toPbSet n cl;
        (s, pb, pos, lvl, seen, top) \<leftarrow> resolvePB n s pb (int (length (trail s)) - 1) lvl seen;
        if top then Some (s, None, [], - 1)
        else do {
          l \<leftarrow> onlyFalsified pb s pos lvl;
          let unit = Negation l;
          btLvl \<leftarrow> backtrackLevel pb s unit;
          pb \<leftarrow> roundToOne pb s (Lit_Var unit);
          s \<leftarrow> bumpSeen s 0 seen;
          c \<leftarrow> pbClause pb;
          (propagated, learned, ok) \<leftarrow> SimplifyPB c;
          if \<not> ok then Some (s, None, [], - 1)
          else if propagated \<noteq> [] then Some (s, None, propagated, 1)
          else Some (s, learned, [unit], btLvl) } })"

section \<open>The search with cutting planes\<close>

fun learnUnitsPB :: "solver \<Rightarrow> cid option \<Rightarrow> lit list \<Rightarrow> (solver \<times> cid option \<times> bool) option" where
  "learnUnitsPB s confl [] = Some (s, confl, True)"
| "learnUnitsPB s confl (unit # us) = do {
     a \<leftarrow> (if unit = - 1 then Some 1 else geti (model s) (Lit_Var unit));
     st \<leftarrow> (if unit = - 1 then Some Unsat else litStatus s unit);
     if unit = - 1 \<or> \<bar>a\<bar> = 1 \<and> st = Unsat then Some (setUnsat s, confl, False)
     else do {
       s \<leftarrow> cleanupBindings (s\<lparr>lbdSt := addLbd (lbdSt s) 1\<rparr>) 1;
       s \<leftarrow> addLearnedUnit s unit;
       m \<leftarrow> puti (model s) (Lit_Var unit) (lvlToSignedLvl unit 1);
       (s, confl) \<leftarrow> unifyLiteral (s\<lparr>model := m\<rparr>) unit 1;
       if confl \<noteq> None then Some (setUnsat s, confl, False) else learnUnitsPB s None us } }"

fun setReasons :: "cid option list \<Rightarrow> cid \<Rightarrow> lit list \<Rightarrow> cid option list option" where
  "setReasons rs c [] = Some rs"
| "setReasons rs c (l # ls) = do { rs \<leftarrow> puti rs (Lit_Var l) (Some c); setReasons rs c ls }"

text \<open>A learned constraint: its literals follow at the level it came with.\<close>

definition learnPB :: "solver \<Rightarrow> clause option \<Rightarrow> lit list \<Rightarrow> declevel \<Rightarrow> (solver \<times> cid option) option" where
  "learnPB s learnt propagated lvl = (case learnt of
     None \<Rightarrow> None
   | Some cl \<Rightarrow> do {
       let c = length (store s);
       s \<leftarrow> addLearned (s\<lparr>store := store s @ [cl]\<rparr>) c;
       cl \<leftarrow> getC s c;
       s \<leftarrow> updC s c (lock cl);
       s \<leftarrow> cleanupBindings s lvl;
       rs \<leftarrow> setReasons (reason s) c propagated;
       unifyLiterals (s\<lparr>reason := rs\<rparr>) propagated lvl })"

partial_function (option) conflictLoop :: "nat \<Rightarrow> solver \<Rightarrow> cid option \<Rightarrow> lit \<Rightarrow> declevel \<Rightarrow> (solver \<times> outcome) option" where
  "conflictLoop n s confl l lvl = (case confl of
     None \<Rightarrow> Some (s, Next l lvl)
   | Some c \<Rightarrow> do {
       let nb = NbConflicts s + 1;
       let s = s\<lparr>NbConflicts := nb, varDecay := nextDecay s nb,
                 lbdSt := addConflict (lbdSt s) (int (length (trail s)))\<rparr>;
       (s, learnt, propagated, newLvl) \<leftarrow> cuttingPlanes n s c lvl;
       if newLvl = - 1 then Some (setUnsat s, Done Unsat)
       else if newLvl = 1 then do {
         (s, confl, ok) \<leftarrow> learnUnitsPB s confl propagated;
         if \<not> ok then Some (s, Done Unsat)
         else do {
           s \<leftarrow> rebuildOrderHeap s;
           (l, s) \<leftarrow> chooseLit s;
           conflictLoop n s confl l 2 } }
       else do {
         (s, confl) \<leftarrow> learnPB s learnt propagated newLvl;
         if confl = None then do { (l, s) \<leftarrow> chooseLit s; Some (s, Next l (newLvl + 1)) }
         else conflictLoop n s confl l newLvl } })"

declare conflictLoop.simps [code]

definition forgetPB :: "solver \<Rightarrow> solver option" where
  "forgetPB s =
     (if NbConflicts s \<ge> idxReduce s * nbMax s then
        if nbMax s = 0 then None
        else do {
          s \<leftarrow> reduceLearnedPB (s\<lparr>idxReduce := NbConflicts s sdiv nbMax s + 1\<rparr>);
          Some (bumpNbMax s) }
      else Some s)"

text \<open>\<open>next\<close> is \<open>lubyNextRestart\<close>, which starts at \<open>512 * luby 1\<close> and is part of the result.\<close>

partial_function (option) propagateAndSearchPB :: "nat \<Rightarrow> solver \<Rightarrow> int \<Rightarrow> lit \<Rightarrow> declevel \<Rightarrow> (solver \<times> int \<times> status) option" where
  "propagateAndSearchPB n s next l lvl =
     (if l = - 1 then Some (s, next, Sat)
      else do {
        (s, confl) \<leftarrow> unifyLiteral s l lvl;
        case confl of
          None \<Rightarrow>
            if NbConflicts s \<ge> next then do {
              k \<leftarrow> luby (word_of_int (NbRestarts s) + 2);
              s \<leftarrow> cleanupBindings s 1;
              Some (s, int64 (next + sint (512 * k)), Indet) }
            else do {
              s \<leftarrow> forgetPB s;
              (l, s) \<leftarrow> chooseLit s;
              propagateAndSearchPB n s next l (lvl + 1) }
        | Some c \<Rightarrow> do {
            (s, r) \<leftarrow> conflictLoop n s (Some c) l lvl;
            case r of Done st \<Rightarrow> Some (s, next, st) | Next l lvl \<Rightarrow> propagateAndSearchPB n s next l lvl } })"

declare propagateAndSearchPB.simps [code]


section \<open>Meaning of the constraints\<close>

text \<open>
  The weights that an assignment satisfies, and those that the bindings \<open>m\<close> do not falsify, from
  variable \<open>i\<close> on. A constraint is in conflict when the second are too light.
\<close>

definition contrib :: "bool \<Rightarrow> int \<Rightarrow> int" where
  "contrib b w = (if (0 < w) = b then \<bar>w\<bar> else 0)"

fun pbSum :: "asg \<Rightarrow> nat \<Rightarrow> int list \<Rightarrow> int" where
  "pbSum a i [] = 0"
| "pbSum a i (w # ws) = contrib (a (int i)) w + pbSum a (Suc i) ws"

definition pbset_holds :: "asg \<Rightarrow> pbset \<Rightarrow> bool" where
  "pbset_holds a pb \<longleftrightarrow> pcard pb \<le> pbSum a 0 (pw pb)"

definition freeW :: "declevel \<Rightarrow> int \<Rightarrow> int" where
  "freeW x w = (if x = 0 \<or> (0 < x) = (0 < w) then \<bar>w\<bar> else 0)"

fun pbFree :: "declevel list \<Rightarrow> nat \<Rightarrow> int list \<Rightarrow> int" where
  "pbFree m i [] = 0"
| "pbFree m i (w # ws) = freeW (m ! i) w + pbFree m (Suc i) ws"

definition conflicting :: "declevel list \<Rightarrow> pbset \<Rightarrow> bool" where
  "conflicting m pb \<longleftrightarrow> pbFree m 0 (pw pb) < pcard pb"

lemma freeW_bounds: "0 \<le> freeW x w" "freeW x w \<le> \<bar>w\<bar>"
  by (auto simp: freeW_def)

lemma freeW_0 [simp]: "freeW x 0 = 0"
  by (simp add: freeW_def)

lemma contrib_0 [simp]: "contrib b 0 = 0"
  by (simp add: contrib_def)

lemma contrib_bounds: "0 \<le> contrib b w" "contrib b w \<le> \<bar>w\<bar>"
  by (auto simp: contrib_def)

lemma pbFree_nonneg: "0 \<le> pbFree m i ws"
  by (induction m i ws rule: pbFree.induct) (auto intro: add_nonneg_nonneg freeW_bounds)

lemma pbFree_at: "k < length ws \<Longrightarrow> freeW (m ! (i + k)) (ws ! k) \<le> pbFree m i ws"
proof (induction ws arbitrary: i k)
  case (Cons w ws)
  show ?case
  proof (cases k)
    case 0
    then show ?thesis using pbFree_nonneg [of m "Suc i" ws] by simp
  next
    case (Suc k')
    then show ?thesis using Cons.IH [of k' "Suc i"] Cons.prems freeW_bounds(1) [of "m ! i" w] by simp
  qed
qed simp

text \<open>The size of the weights, which bounds all that is computed with them.\<close>

abbreviation asum :: "int list \<Rightarrow> int" where
  "asum ws \<equiv> sum_list (map abs ws)"

lemma abs64_id: "\<bar>w\<bar> < 2 ^ 63 \<Longrightarrow> abs64 w = \<bar>w\<bar>"
  by (simp add: abs64_def int64_abs)

lemma asum_nonneg: "0 \<le> asum ws"
  by (rule sum_list_nonneg) auto

lemma asum_mem: "w \<in> set ws \<Longrightarrow> \<bar>w\<bar> \<le> asum ws"
  by (rule member_le_sum_list) auto

lemma asum_nth: "k < length ws \<Longrightarrow> \<bar>ws ! k\<bar> \<le> asum ws"
  by (rule asum_mem) simp

lemma asum_split: "asum ws = pbSum (\<lambda>_. True) i ws + pbSum (\<lambda>_. False) i ws"
  by (induction ws arbitrary: i) (auto simp: contrib_def)

section \<open>Addition\<close>

lemma clashLoop_spec:
  "length ws1 = length ws2 \<Longrightarrow> i + length ws1 \<le> length m \<Longrightarrow>
   asum ws1 < 2 ^ 31 \<Longrightarrow> asum ws2 < 2 ^ 31 \<Longrightarrow> asum ws1 + \<bar>cd\<bar> < 2 ^ 62 \<Longrightarrow> \<exists>ws cd'. clashLoop ws1 ws2 cd = Some (ws, cd') \<and> length ws = length ws1
     \<and> (\<forall>a. pbSum a i ws1 + pbSum a i ws2 - cd = pbSum a i ws - cd')
     \<and> pbFree m i ws - cd' \<le> pbFree m i ws1 + pbFree m i ws2 - cd
     \<and> (\<forall>k<length ws. ws ! k = ws1 ! k + ws2 ! k)"
proof (induction ws1 ws2 cd arbitrary: i rule: clashLoop.induct)
  case (3 w1 ws1 w2 ws2 cd)
  let ?cd = "if w1 * w2 < 0 then cd - min \<bar>w1\<bar> \<bar>w2\<bar> else cd"
  have small: "\<bar>w1\<bar> < 2 ^ 31" "\<bar>w2\<bar> < 2 ^ 31" "asum ws1 < 2 ^ 31" "asum ws2 < 2 ^ 31" "asum ws1 + \<bar>w1\<bar> + \<bar>cd\<bar> < 2 ^ 62"
    using 3(4-6) asum_nonneg [of ws1] asum_nonneg [of ws2] by auto
  have "\<bar>w1 * w2\<bar> \<le> 2 ^ 31 * 2 ^ 31" unfolding abs_mult using small by (intro mult_mono) auto
  then have prod: "int64 (w1 * w2) = w1 * w2" by (intro int64_abs) simp
  have sum: "int64 (w1 + w2) = w1 + w2" "abs64 w1 = \<bar>w1\<bar>" "abs64 w2 = \<bar>w2\<bar>"
    using small by (auto intro!: int64_abs abs64_id)
  have m: "0 \<le> min \<bar>w1\<bar> \<bar>w2\<bar>" "min \<bar>w1\<bar> \<bar>w2\<bar> \<le> \<bar>w1\<bar>" by auto
  then have cdw: "int64 (cd - min \<bar>w1\<bar> \<bar>w2\<bar>) = cd - min \<bar>w1\<bar> \<bar>w2\<bar>" "asum ws1 + \<bar>?cd\<bar> < 2 ^ 62"
    using small(5) asum_nonneg [of ws1] by (auto intro!: int64_abs simp del: min_less_iff_disj)
  have eq: "(if int64 (w1 * w2) < 0 then int64 (cd - min (abs64 w1) (abs64 w2)) else cd) = ?cd"
    by (simp add: prod sum cdw(1))
  note ih = 3(1) [unfolded eq, of "Suc i"]
  from ih 3(2,3) small(3,4) cdw(2) obtain ws cd' where
    r: "clashLoop ws1 ws2 ?cd = Some (ws, cd')" "length ws = length ws1"
      "\<forall>a. pbSum a (Suc i) ws1 + pbSum a (Suc i) ws2 - ?cd = pbSum a (Suc i) ws - cd'"
      "pbFree m (Suc i) ws - cd' \<le> pbFree m (Suc i) ws1 + pbFree m (Suc i) ws2 - ?cd"
      "\<forall>k<length ws. ws ! k = ws1 ! k + ws2 ! k"
    by auto
  have c: "contrib b w1 + contrib b w2 - cd = contrib b (w1 + w2) - ?cd" for b
    by (auto simp: contrib_def mult_less_0_iff min_def)
  have f: "freeW x (w1 + w2) - ?cd \<le> freeW x w1 + freeW x w2 - cd" for x
    by (auto simp: freeW_def mult_less_0_iff min_def)
  have "pbSum a i (w1 # ws1) + pbSum a i (w2 # ws2) - cd = pbSum a i ((w1 + w2) # ws) - cd'" for a
    using spec [OF r(3), of a] c [of "a (int i)"] by (simp only: pbSum.simps)
  moreover have "pbFree m i ((w1 + w2) # ws) - cd' \<le> pbFree m i (w1 # ws1) + pbFree m i (w2 # ws2) - cd"
    using r(4) f [of "m ! i"] by (simp only: pbFree.simps)
  ultimately show ?case
    using r(1,2,5) eq sum(1) by (intro exI [of _ "(w1 + w2) # ws"] exI [of _ cd']) (auto simp: nth_Cons split: nat.splits)
qed auto

section \<open>Rounding\<close>

lemma smod_zero:
  assumes c: "0 < c" shows "w smod c = 0 \<longleftrightarrow> c dvd (w :: int)"
proof -
  have "w smod c = w mod c - c * of_bool (sgn w \<noteq> sgn c \<and> \<not> c dvd w)"
    by (rule signed_modulo_int_eq_modulo_int)
  moreover have "w mod c \<noteq> c" using pos_mod_bound [OF c, of w] by linarith
  moreover have "w mod c = 0 \<longleftrightarrow> c dvd w" by (auto simp: dvd_eq_mod_eq_0)
  ultimately show ?thesis using c by (cases "c dvd w") (auto simp: of_bool_def)
qed

lemma sdiv_nonneg: "0 \<le> w \<Longrightarrow> 0 < c \<Longrightarrow> w sdiv c = w div (c :: int)"
  by (simp add: signed_divide_int_def sgn_if)

lemma sdiv_neg: "w < 0 \<Longrightarrow> 0 < c \<Longrightarrow> w sdiv c = - ((- w) div (c :: int))"
  by (simp add: signed_divide_int_def sgn_if)

text \<open>The weights are rounded away from 0, and so is a positive cardinality.\<close>

definition ceilDiv :: "int \<Rightarrow> int \<Rightarrow> int" where
  "ceilDiv w c = (if c dvd w then w div c else w div c + 1)"

lemma ceilDiv_bounds:
  assumes "0 < c" shows "w \<le> c * ceilDiv w c" "c * (ceilDiv w c - 1) < w"
proof -
  have d: "c * (w div c) + w mod c = w" "0 \<le> w mod c" "w mod c < c" using assms by simp_all
  have "w mod c = 0 \<longleftrightarrow> c dvd w" by (simp add: dvd_eq_mod_eq_0)
  then show "w \<le> c * ceilDiv w c" "c * (ceilDiv w c - 1) < w"
    using d assms unfolding ceilDiv_def by (simp_all only: distrib_left right_diff_distrib split: if_split) linarith+
qed

lemma divRound_pos: "0 < c \<Longrightarrow> 0 < w \<Longrightarrow> divRound c w = ceilDiv w c"
  by (simp add: divRound_def smod_zero ceilDiv_def sdiv_nonneg)

lemma divRound_neg: "0 < c \<Longrightarrow> w < 0 \<Longrightarrow> divRound c w = - ceilDiv (- w) c"
  by (simp add: divRound_def smod_zero ceilDiv_def sdiv_neg)

lemma ceilDiv_pos: "0 < c \<Longrightarrow> 0 < w \<Longrightarrow> 0 < ceilDiv w c"
  using ceilDiv_bounds(1) [of c w] by (smt (verit) zero_less_mult_iff)

lemma ceilDiv_self: "0 < c \<Longrightarrow> ceilDiv c c = 1"
  by (simp add: ceilDiv_def)

lemma weakenLoop_spec:
  "0 < wi \<Longrightarrow> j + length ws \<le> length m \<Longrightarrow> asum ws + \<bar>cd\<bar> < 2 ^ 62 \<Longrightarrow> \<exists>ws' cd'. weakenLoop m wi j ws cd = Some (ws', cd') \<and> length ws' = length ws
     \<and> (\<forall>a. pbSum a j ws - cd \<le> pbSum a j ws' - cd')
     \<and> pbFree m j ws' - cd' = pbFree m j ws - cd
     \<and> asum ws' + \<bar>cd' - cd\<bar> \<le> asum ws
     \<and> (\<forall>k<length ws. (wi dvd ws ! k \<longrightarrow> ws' ! k = ws ! k)
          \<and> (freeW (m ! (j + k)) (ws' ! k) \<noteq> 0 \<longrightarrow> wi dvd ws' ! k))"
proof (induction ws arbitrary: j cd)
  case (Cons w ws)
  define drops where "drops \<longleftrightarrow> w \<noteq> 0 \<and> \<not> wi dvd w \<and> (m ! j = 0 \<or> (m ! j > 0) = (w > 0))"
  let ?cd = "if drops then cd - \<bar>w\<bar> else cd" and ?w = "if drops then 0 else w"
  have small: "abs64 w = \<bar>w\<bar>" "int64 (cd - \<bar>w\<bar>) = cd - \<bar>w\<bar>" "asum ws + \<bar>?cd\<bar> < 2 ^ 62"
    using Cons.prems(3) asum_nonneg [of ws] by (auto intro!: abs64_id int64_abs)
  from Cons.IH [of "Suc j" ?cd] Cons.prems(1,2) small(3) obtain ws' cd' where
    r: "weakenLoop m wi (Suc j) ws ?cd = Some (ws', cd')" "length ws' = length ws"
      "\<forall>a. pbSum a (Suc j) ws - ?cd \<le> pbSum a (Suc j) ws' - cd'"
      "pbFree m (Suc j) ws' - cd' = pbFree m (Suc j) ws - ?cd" "asum ws' + \<bar>cd' - ?cd\<bar> \<le> asum ws"
      "\<forall>k<length ws. (wi dvd ws ! k \<longrightarrow> ws' ! k = ws ! k) \<and> (freeW (m ! (Suc j + k)) (ws' ! k) \<noteq> 0 \<longrightarrow> wi dvd ws' ! k)"
    by (auto simp del: if_split)
  have w: "weakenLoop m wi j (w # ws) cd = Some (?w # ws', cd')"
    using r(1) Cons.prems(1,2) by (auto simp: drops_def smod_zero get_def small(1,2))
  have "pbSum a j (w # ws) - cd \<le> pbSum a j (?w # ws') - cd'" for a
    using spec [OF r(3), of a] contrib_bounds [of "a (int j)" w] by (auto simp: drops_def split: if_splits)
  moreover have "pbFree m j (?w # ws') - cd' = pbFree m j (w # ws) - cd"
    using r(4) by (auto simp: drops_def freeW_def split: if_splits)
  moreover have "(wi dvd (w # ws) ! k \<longrightarrow> (?w # ws') ! k = (w # ws) ! k)
      \<and> (freeW (m ! (j + k)) ((?w # ws') ! k) \<noteq> 0 \<longrightarrow> wi dvd (?w # ws') ! k)" if "k < length (w # ws)" for k
    using r(6) that by (cases k) (auto simp: drops_def freeW_def split: if_splits)
  moreover have "asum (?w # ws') + \<bar>cd' - cd\<bar> \<le> asum (w # ws)" using r(5) by (auto split: if_splits)
  ultimately show ?case
    using w r(2) by (intro exI [of _ "?w # ws'"] exI [of _ cd']) (simp del: weakenLoop.simps if_split)
qed simp

lemma sum_divRound: "0 < c \<Longrightarrow> pbSum a i ws \<le> c * pbSum a i (map (divRound c) ws)"
proof (induction ws arbitrary: i)
  case (Cons w ws)
  have "contrib b w \<le> c * contrib b (divRound c w)" for b
    using Cons.prems ceilDiv_bounds(1) [of c w] ceilDiv_bounds(1) [of c "- w"] ceilDiv_pos [of c w] ceilDiv_pos [of c "- w"]
      divRound_pos [of c w] divRound_neg [of c w]
    by (cases w "0 :: int" rule: linorder_cases) (auto simp: contrib_def divRound_def [of c 0])
  then show ?case using Cons.IH [of "Suc i"] Cons.prems by (simp add: distrib_left add_mono)
qed simp

lemma free_divRound:
  "0 < c \<Longrightarrow> (\<And>k. k < length ws \<Longrightarrow> freeW (m ! (i + k)) (ws ! k) \<noteq> 0 \<Longrightarrow> c dvd ws ! k)
    \<Longrightarrow> c * pbFree m i (map (divRound c) ws) = pbFree m i ws"
proof (induction ws arbitrary: i)
  case (Cons w ws)
  have d: "freeW x w \<noteq> 0 \<longrightarrow> c dvd w \<Longrightarrow> c * freeW x (divRound c w) = freeW x w" for x
    using Cons.prems(1) ceilDiv_pos [of c w] ceilDiv_pos [of c "- w"] divRound_pos [of c w] divRound_neg [of c w]
    by (cases w "0 :: int" rule: linorder_cases) (auto simp: freeW_def divRound_def [of c 0] ceilDiv_def split: if_splits)
  have "c * pbFree m (Suc i) (map (divRound c) ws) = pbFree m (Suc i) ws"
    using Cons.prems(2) [of "Suc _"] Cons.prems(1) by (intro Cons.IH) auto
  then show ?case using d [of "m ! i"] Cons.prems(2) [of 0] by (simp add: distrib_left)
qed simp

lemma divRound_small:
  assumes "0 < c" shows "\<bar>divRound c w\<bar> \<le> \<bar>w\<bar>"
proof -
  have up: "ceilDiv w c \<le> w" if "0 < w" for w
  proof -
    have "ceilDiv w c - 1 \<le> c * (ceilDiv w c - 1)"
      using assms ceilDiv_pos [OF assms that] by (intro mult_le_cancel_right1 [THEN iffD2]) auto
    then show ?thesis using ceilDiv_bounds(2) [OF assms, of w] by linarith
  qed
  show ?thesis
    using up [of w] up [of "- w"] ceilDiv_pos [OF assms, of w] ceilDiv_pos [OF assms, of "- w"]
      divRound_pos [OF assms, of w] divRound_neg [OF assms, of w]
    by (cases w "0 :: int" rule: linorder_cases) (auto simp: divRound_def [of c 0])
qed

lemma asum_divRound: "0 < c \<Longrightarrow> asum (map (divRound c) ws) \<le> asum ws"
  unfolding map_map by (rule sum_list_mono) (simp add: divRound_small)

lemma divRound_unit: "w \<noteq> 0 \<Longrightarrow> divRound \<bar>w\<bar> w = (if 0 < w then 1 else - 1)"
  by (cases "0 < w") (simp_all add: divRound_pos divRound_neg ceilDiv_self)

text \<open>
  \<open>roundToOne\<close> gives the variable the weight 1, is sound, and keeps the difference between the
  weights that are not falsified and the cardinality below \<open>k\<close>: 0 for a constraint in conflict, 1
  for a constraint that propagates the variable.
\<close>

lemma roundToOne_spec:
  assumes len: "length (pw pb) \<le> length (model s)" and v: "v < length (pw pb)" "pw pb ! v \<noteq> 0"
    and small: "asum (pw pb) + \<bar>pcard pb\<bar> < 2 ^ 62"
    and free: "pbFree (model s) 0 (pw pb) < pcard pb + k * \<bar>pw pb ! v\<bar>"
    and k: "k = 0 \<or> k = 1 \<and> freeW (model s ! v) (pw pb ! v) \<noteq> 0"
  shows "\<exists>pb'. roundToOne pb s (int v) = Some pb' \<and> length (pw pb') = length (pw pb)
    \<and> pw pb' ! v = (if 0 < pw pb ! v then 1 else - 1)
    \<and> pbFree (model s) 0 (pw pb') < pcard pb' + k
    \<and> asum (pw pb') \<le> asum (pw pb) \<and> \<bar>pcard pb'\<bar> \<le> asum (pw pb) + \<bar>pcard pb\<bar>
    \<and> (\<forall>a. pbset_holds a pb \<longrightarrow> pbset_holds a pb')"
proof (cases "\<bar>pw pb ! v\<bar> = 1")
  case True
  then have "abs64 (pw pb ! v) = 1" by (simp add: abs64_id)
  then show ?thesis
    using v free True asum_nonneg [of "pw pb"] by (intro exI [of _ pb]) (auto simp: roundToOne_def geti_def)
next
  case False
  define c where "c = \<bar>pw pb ! v\<bar>"
  have c: "0 < c" "c \<noteq> 1" using v(2) False by (auto simp: c_def)
  have c64: "abs64 (pw pb ! v) = c"
    using asum_nth [OF v(1)] small unfolding c_def by (intro abs64_id) simp
  obtain ws cd where w: "weakenLoop (model s) c 0 (pw pb) (pcard pb) = Some (ws, cd)" "length ws = length (pw pb)"
      "\<forall>a. pbSum a 0 (pw pb) - pcard pb \<le> pbSum a 0 ws - cd"
      "pbFree (model s) 0 ws - cd = pbFree (model s) 0 (pw pb) - pcard pb" "asum ws + \<bar>cd - pcard pb\<bar> \<le> asum (pw pb)"
      "\<forall>k<length (pw pb). (c dvd pw pb ! k \<longrightarrow> ws ! k = pw pb ! k) \<and> (freeW (model s ! k) (ws ! k) \<noteq> 0 \<longrightarrow> c dvd ws ! k)"
    using weakenLoop_spec [OF c(1), of 0 "pw pb" "model s" "pcard pb"] len small by auto
  have wv: "ws ! v = pw pb ! v" using w(6) v(1) by (simp add: c_def)
  let ?F = "pbFree (model s) 0 ws" and ?F' = "pbFree (model s) 0 (map (divRound c) ws)"
  have F: "?F < cd + k * c" using free w(4) by (simp add: c_def)
  have F': "c * ?F' = ?F" using w(2,6) c(1) by (intro free_divRound) auto
  have "k * c \<le> ?F"
  proof (cases "k = 0")
    case False
    then have "freeW (model s ! v) (ws ! v) = c" using k wv by (auto simp: freeW_def c_def split: if_splits)
    then show ?thesis using pbFree_at [of v ws "model s" 0] v(1) w(2) k False by simp
  qed (simp add: pbFree_nonneg)
  then have cd: "0 < cd" using F by linarith
  define d where "d = ceilDiv cd c"
  have d: "(if cd smod c = 0 then cd sdiv c else cd sdiv c + 1) = d"
    using cd c(1) by (simp add: d_def ceilDiv_def smod_zero sdiv_nonneg)
  have bd: "cd \<le> c * d" "c * (d - 1) < cd" using ceilDiv_bounds [OF c(1)] by (simp_all add: d_def)
  have "c * (?F' - k) < c * d" using F F' bd(1) by (simp add: right_diff_distrib mult.commute)
  then have free': "?F' < d + k" using c(1) by simp
  have sound: "d \<le> pbSum a 0 (map (divRound c) ws)" if "pcard pb \<le> pbSum a 0 (pw pb)" for a
  proof -
    have "cd \<le> pbSum a 0 ws" using that spec [OF w(3), of a] by linarith
    then have "c * (d - 1) < c * pbSum a 0 (map (divRound c) ws)"
      using sum_divRound [OF c(1), of a 0 ws] bd(2) by linarith
    then show ?thesis using c(1) by simp
  qed
  have "0 < d" "d \<le> cd"
    using ceilDiv_pos [OF c(1) cd] divRound_small [OF c(1), of cd] divRound_pos [OF c(1) cd] cd by (simp_all add: d_def)
  then have size: "asum (map (divRound c) ws) \<le> asum (pw pb)" "\<bar>d\<bar> \<le> asum (pw pb) + \<bar>pcard pb\<bar>"
    using asum_divRound [OF c(1), of ws] w(5) asum_nonneg [of ws] by linarith+
  have "divRound c (pw pb ! v) = (if 0 < pw pb ! v then 1 else - 1)"
    using divRound_unit [OF v(2)] by (simp add: c_def)
  then show ?thesis
    using v w(1,2) wv c d free' sound size
    by (intro exI [of _ "\<lparr>pw = map (divRound c) ws, pcard = d\<rparr>"])
      (auto simp: roundToOne_def geti_def divideBy_def c64 pbset_holds_def simp del: if_split map_map)
qed

section \<open>Resolving with a reason\<close>

text \<open>
  A clause that propagates the true literal \<open>l\<close>: without its weight the literals that are not
  falsified are too light.
\<close>

definition litFree :: "declevel list \<Rightarrow> wterm \<Rightarrow> int" where
  "litFree m p = (let x = m ! nat (Lit_Var (fst p)) in if x = 0 \<or> (0 < x) = IsPositive (fst p) then snd p else 0)"

definition propagates :: "declevel list \<Rightarrow> clause \<Rightarrow> lit \<Rightarrow> bool" where
  "propagates m c l \<longleftrightarrow> length (c_weights c) = length (lits c) \<and> (\<forall>w \<in> set (c_weights c). 0 < w)
     \<and> lits_ok (int (length m)) (lits c) \<and> distinct (map Lit_Var (lits c))
     \<and> (\<exists>w. (l, w) \<in> set (terms c) \<and> sum_list (map (litFree m) (terms c)) < Cardinality c + w)
     \<and> m ! nat (Lit_Var l) \<noteq> 0 \<and> (0 < m ! nat (Lit_Var l)) = IsPositive l"

lemma pbSum_update:
  "k < length ws \<Longrightarrow> ws ! k = 0 \<Longrightarrow> pbSum a i (ws[k := w]) = pbSum a i ws + contrib (a (int (i + k))) w"
proof (induction ws arbitrary: i k)
  case (Cons x ws)
  then show ?case by (cases k) (auto simp del: of_nat_add of_nat_Suc simp: Cons.IH [of "k - 1" "Suc i"])
qed simp

lemma pbFree_update:
  "k < length ws \<Longrightarrow> ws ! k = 0 \<Longrightarrow> pbFree m i (ws[k := w]) = pbFree m i ws + freeW (m ! (i + k)) w"
proof (induction ws arbitrary: i k)
  case (Cons x ws)
  then show ?case by (cases k) auto
qed simp

definition sgnWeight :: "wterm \<Rightarrow> int" where
  "sgnWeight p = (if IsPositive (fst p) then snd p else - snd p)"

lemma contrib_sgnWeight: "0 < w \<Longrightarrow> contrib (a (Lit_Var l)) (sgnWeight (l, w)) = (if lit_true a l then w else 0)"
  by (auto simp: contrib_def sgnWeight_def lit_true_def)

lemma freeW_sgnWeight: "0 < w \<Longrightarrow> freeW (m ! nat (Lit_Var l)) (sgnWeight (l, w)) = litFree m (l, w)"
  by (cases "IsPositive l") (simp_all add: freeW_def sgnWeight_def litFree_def Let_def)

lemma pbSetLoop_spec:
  assumes c: "length (c_weights c) = length (lits c)" "\<forall>w \<in> set (c_weights c). 0 < w \<and> w < 2 ^ 63"
      "lits_ok (int (length ws)) (lits c)" "distinct (map Lit_Var (lits c))"
    and i: "i \<le> length (lits c)" "\<forall>k. i \<le> k \<longrightarrow> k < length (lits c) \<longrightarrow> ws ! nat (Lit_Var (lits c ! k)) = 0"
  shows "\<exists>ws'. pbSetLoop ws c [i..<length (lits c)] = Some ws' \<and> length ws' = length ws
    \<and> (\<forall>a. pbSum a 0 ws' = pbSum a 0 ws + wsum a (drop i (terms c)))
    \<and> pbFree m 0 ws' = pbFree m 0 ws + sum_list (map (litFree m) (drop i (terms c)))
    \<and> (\<forall>k. i \<le> k \<longrightarrow> k < length (lits c) \<longrightarrow> ws' ! nat (Lit_Var (lits c ! k)) = sgnWeight (terms c ! k))
    \<and> (\<forall>v<length ws. (\<forall>k. i \<le> k \<longrightarrow> k < length (lits c) \<longrightarrow> nat (Lit_Var (lits c ! k)) \<noteq> v) \<longrightarrow> ws' ! v = ws ! v)"
  using i c(3)
proof (induction "length (lits c) - i" arbitrary: i ws)
  case 0
  then show ?case by (intro exI [of _ ws]) (auto simp: terms_def c(1))
next
  case (Suc n)
  let ?l = "lits c ! i" and ?w = "c_weights c ! i"
  let ?v = "nat (Lit_Var ?l)"
  have il: "i < length (lits c)" using Suc.hyps(2) by simp
  then have l: "lit_ok (int (length ws)) ?l" using Suc.prems(3) nth_mem [OF il] by blast
  have v: "?v < length ws" "0 \<le> Lit_Var ?l" using l lit_ok_var [OF l] by (auto simp: lit_ok_def)
  have w: "Weight c i = Some ?w" "0 < ?w"
    using il c(1,2) by (auto simp: Weight_def c_weights_def get_def split: option.splits)
  have wid: "int64 (- ?w) = - ?w"
  proof (rule int64_abs)
    have "?w \<in> set (c_weights c)" using il c(1) by simp
    then show "\<bar>- ?w\<bar> < 2 ^ 63" using c(2) by fastforce
  qed
  note w = w wid
  have t: "terms c ! i = (?l, ?w)" using il c(1) by (simp add: terms_def)
  let ?ws = "ws[?v := sgnWeight (terms c ! i)]"
  have ne: "nat (Lit_Var (lits c ! k)) \<noteq> ?v" if "i < k" "k < length (lits c)" for k
  proof -
    have "lit_ok (int (length ws)) (lits c ! k)" using Suc.prems(3) nth_mem [OF that(2)] by blast
    then have "0 \<le> Lit_Var (lits c ! k)" by (rule lit_ok_var)
    moreover have "Lit_Var (lits c ! k) \<noteq> Lit_Var ?l"
      using that il c(4) nth_eq_iff_index_eq [of "map Lit_Var (lits c)" k i] by simp
    ultimately show ?thesis using v(2) by simp
  qed
  have same: "?ws ! nat (Lit_Var (lits c ! k)) = ws ! nat (Lit_Var (lits c ! k))" if "Suc i \<le> k" "k < length (lits c)" for k
    using ne [of k] that by (intro nth_list_update_neq) auto
  have "\<exists>ws'. pbSetLoop ?ws c [Suc i..<length (lits c)] = Some ws' \<and> length ws' = length ?ws
    \<and> (\<forall>a. pbSum a 0 ws' = pbSum a 0 ?ws + wsum a (drop (Suc i) (terms c)))
    \<and> pbFree m 0 ws' = pbFree m 0 ?ws + sum_list (map (litFree m) (drop (Suc i) (terms c)))
    \<and> (\<forall>k. Suc i \<le> k \<longrightarrow> k < length (lits c) \<longrightarrow> ws' ! nat (Lit_Var (lits c ! k)) = sgnWeight (terms c ! k))
    \<and> (\<forall>v<length ?ws. (\<forall>k. Suc i \<le> k \<longrightarrow> k < length (lits c) \<longrightarrow> nat (Lit_Var (lits c ! k)) \<noteq> v) \<longrightarrow> ws' ! v = ?ws ! v)"
    using Suc.hyps(2) Suc.prems il same by (intro Suc.hyps(1)) auto
  then obtain ws' where r: "pbSetLoop ?ws c [Suc i..<length (lits c)] = Some ws'" "length ws' = length ws"
    "\<forall>a. pbSum a 0 ws' = pbSum a 0 ?ws + wsum a (drop (Suc i) (terms c))"
    "pbFree m 0 ws' = pbFree m 0 ?ws + sum_list (map (litFree m) (drop (Suc i) (terms c)))"
    "\<forall>k. Suc i \<le> k \<longrightarrow> k < length (lits c) \<longrightarrow> ws' ! nat (Lit_Var (lits c ! k)) = sgnWeight (terms c ! k)"
    "\<forall>v<length ws. (\<forall>k. Suc i \<le> k \<longrightarrow> k < length (lits c) \<longrightarrow> nat (Lit_Var (lits c ! k)) \<noteq> v) \<longrightarrow> ws' ! v = ?ws ! v"
    by auto
  have at_i: "ws' ! ?v = sgnWeight (terms c ! i)" using r(6) v(1) ne by auto
  have dr: "drop i (terms c) = terms c ! i # drop (Suc i) (terms c)"
    using il c(1) by (intro Cons_nth_drop_Suc [symmetric]) (simp add: terms_def)
  have "puti ws (Lit_Var ?l) (if IsPositive ?l then ?w else int64 (- ?w)) = Some ?ws"
    using v by (simp add: puti_def sgnWeight_def t nat_less_iff w(3))
  then have 1: "pbSetLoop ws c [i..<length (lits c)] = Some ws'"
    using il r(1) w(1) by (simp add: upt_rec [of i] Get_def get_def)
  have z: "ws ! ?v = 0" using Suc.prems(2) il by simp
  have 2: "pbSum a 0 ws' = pbSum a 0 ws + wsum a (drop i (terms c))" for a
    using spec [OF r(3), of a] pbSum_update [OF v(1) z, of a 0 "sgnWeight (terms c ! i)"] v(2)
    by (simp add: dr t contrib_sgnWeight w(2))
  have 3: "pbFree m 0 ws' = pbFree m 0 ws + sum_list (map (litFree m) (drop i (terms c)))"
    using r(4) pbFree_update [OF v(1) z, of m 0 "sgnWeight (terms c ! i)"]
    by (simp add: dr t freeW_sgnWeight w(2))
  have 4: "ws' ! nat (Lit_Var (lits c ! k)) = sgnWeight (terms c ! k)" if "i \<le> k" "k < length (lits c)" for k
    using r(5) at_i that by (cases "k = i") auto
  have 5: "ws' ! u = ws ! u" if "u < length ws" "\<forall>k. i \<le> k \<longrightarrow> k < length (lits c) \<longrightarrow> nat (Lit_Var (lits c ! k)) \<noteq> u" for u
    using r(6) that il by auto
  show ?case
    by (rule exI [of _ ws'], intro conjI allI impI) (rule 1 r(2) 2 3 4 5; assumption?)+
qed

lemma pbSum_zeros: "pbSum a i (replicate n 0) = 0" "pbFree m i (replicate n 0) = 0"
  by (induction n arbitrary: i) auto

lemma wsum_both: "\<forall>p \<in> set ts. 0 \<le> snd p \<Longrightarrow> wsum (\<lambda>_. True) ts + wsum (\<lambda>_. False) ts = sum_list (map snd ts)"
  by (induction ts) (auto simp: lit_true_def split: prod.splits)

lemma toPbSet_spec:
  assumes "length (c_weights c) = length (lits c)" "\<forall>w \<in> set (c_weights c). 0 < w \<and> w < 2 ^ 63"
      "lits_ok (int n) (lits c)" "distinct (map Lit_Var (lits c))"
  shows "\<exists>pb. toPbSet n c = Some pb \<and> length (pw pb) = n \<and> pcard pb = Cardinality c
    \<and> asum (pw pb) = sum_list (c_weights c)
    \<and> (\<forall>a. pbset_holds a pb \<longleftrightarrow> sat_clause a c) \<and> pbFree m 0 (pw pb) = sum_list (map (litFree m) (terms c))
    \<and> (\<forall>k<length (lits c). pw pb ! nat (Lit_Var (lits c ! k)) = sgnWeight (terms c ! k))"
proof -
  have nn: "nat (Lit_Var (lits c ! k)) < n" if "k < length (lits c)" for k
  proof -
    have "lit_ok (int n) (lits c ! k)" using assms(3) nth_mem [OF that] by blast
    then show ?thesis using lit_ok_var [of "int n" "lits c ! k"] by (simp add: lit_ok_def nat_less_iff)
  qed
  obtain ws where "pbSetLoop (replicate n 0) c [0..<length (lits c)] = Some ws" "length ws = n"
      "\<forall>a. pbSum a 0 ws = wsum a (terms c)" "pbFree m 0 ws = sum_list (map (litFree m) (terms c))"
      "\<forall>k<length (lits c). ws ! nat (Lit_Var (lits c ! k)) = sgnWeight (terms c ! k)"
    using pbSetLoop_spec [OF assms(1,2), of "replicate n 0" 0 m] assms(3,4) nn by (auto simp: pbSum_zeros)
  moreover from this have "asum ws = sum_list (c_weights c)"
    using assms(1,2) wsum_both [of "terms c"] asum_split [of ws 0]
    by (fastforce simp: terms_def dest: set_zip_rightD)
  ultimately show ?thesis
    by (intro exI [of _ "\<lparr>pw = ws, pcard = Cardinality c\<rparr>"])
      (simp add: toPbSet_def pbset_holds_def sat_clause_def Len_def)
qed

text \<open>
  C16. A step of the cutting-planes analysis: a constraint in conflict that the literal \<open>l\<close> falsifies
  is resolved with the clause that propagated \<open>l\<close>. Neither rounding nor addition panics; the result
  no longer mentions the variable, is still in conflict, and follows from the constraint and the
  clause. In both, the weights and the cardinality sum up to less than \<open>2 ^ 31\<close>, so that no product
  wraps around.
\<close>

lemma cutting_planes_step:
  assumes n: "length (pw pb) = length (model s)" and l: "0 \<le> l"
    and confl: "conflicting (model s) pb" and fals: "falsifies pb l = Some True"
    and pr: "propagates (model s) c l"
    and small: "asum (pw pb) + \<bar>pcard pb\<bar> < 2 ^ 31" "sum_list (c_weights c) + \<bar>Cardinality c\<bar> < 2 ^ 31"
  shows "\<exists>pb1 pb'. roundToOne pb s (Lit_Var l) = Some pb1
    \<and> resolveReason (length (model s)) s pb1 (Lit_Var l) c = Some pb'
    \<and> length (pw pb') = length (model s) \<and> pw pb' ! nat (Lit_Var l) = 0
    \<and> conflicting (model s) pb'
    \<and> (\<forall>a. pbset_holds a pb \<longrightarrow> sat_clause a c \<longrightarrow> pbset_holds a pb')"
proof -
  let ?v = "nat (Lit_Var l)"
  have v: "0 \<le> Lit_Var l" "?v < length (pw pb)" "pw pb ! ?v \<noteq> 0" "(pw pb ! ?v < 0) = IsPositive l"
    using fals by (auto simp: falsifies_def geti_def bind_eq_Some_conv split: if_splits)
  obtain pb1 where pb1: "roundToOne pb s (Lit_Var l) = Some pb1" "length (pw pb1) = length (pw pb)"
      "pw pb1 ! ?v = (if IsPositive l then - 1 else 1)" "pbFree (model s) 0 (pw pb1) < pcard pb1"
      "\<forall>a. pbset_holds a pb \<longrightarrow> pbset_holds a pb1" "asum (pw pb1) \<le> asum (pw pb)" "\<bar>pcard pb1\<bar> \<le> asum (pw pb) + \<bar>pcard pb\<bar>"
    using roundToOne_spec [of pb s ?v 0] n v confl small(1) by (auto simp: conflicting_def)
  note p = pr [unfolded propagates_def]
  obtain w k where k: "k < length (lits c)" "terms c ! k = (l, w)"
      "sum_list (map (litFree (model s)) (terms c)) < Cardinality c + w"
    using p by (auto simp: in_set_conv_nth terms_def)
  have kl: "lits c ! k = l" "0 < w" using k(1,2) p by (auto simp: terms_def)
  obtain pb2 where pb2: "toPbSet (length (model s)) c = Some pb2" "length (pw pb2) = length (model s)"
      "pcard pb2 = Cardinality c" "\<forall>a. pbset_holds a pb2 \<longleftrightarrow> sat_clause a c"
      "pbFree (model s) 0 (pw pb2) = sum_list (map (litFree (model s)) (terms c))"
      "pw pb2 ! ?v = sgnWeight (l, w)" "asum (pw pb2) = sum_list (c_weights c)"
  proof -
    have "\<forall>w \<in> set (c_weights c). 0 < w \<and> w < 2 ^ 63"
    proof
      fix w assume w: "w \<in> set (c_weights c)"
      then have "w \<le> sum_list (c_weights c)" using p by (intro member_le_sum_list) (auto simp: less_imp_le)
      then show "0 < w \<and> w < 2 ^ 63" using w p small(2) by auto
    qed
    then show ?thesis using that toPbSet_spec [of c "length (model s)" "model s"] p k(1,2) kl(1) by auto
  qed
  have w2: "\<bar>pw pb2 ! ?v\<bar> = w" "freeW (model s ! ?v) (pw pb2 ! ?v) \<noteq> 0" "(0 < pw pb2 ! ?v) = IsPositive l"
    using pb2(6) kl(2) p by (auto simp: sgnWeight_def freeW_def)
  obtain pb3 where pb3: "roundToOne pb2 s (Lit_Var l) = Some pb3" "length (pw pb3) = length (model s)"
      "pw pb3 ! ?v = (if IsPositive l then 1 else - 1)" "pbFree (model s) 0 (pw pb3) < pcard pb3 + 1"
      "\<forall>a. pbset_holds a pb2 \<longrightarrow> pbset_holds a pb3" "asum (pw pb3) \<le> asum (pw pb2)" "\<bar>pcard pb3\<bar> \<le> asum (pw pb2) + \<bar>pcard pb2\<bar>"
    using roundToOne_spec [of pb2 s ?v 1] n v w2 pb2 k(3) kl(2) small(2) by auto
  have size: "asum (pw pb1) < 2 ^ 31" "asum (pw pb3) < 2 ^ 31" "\<bar>pcard pb1\<bar> < 2 ^ 31" "\<bar>pcard pb3\<bar> < 2 ^ 31"
    using pb1(6,7) pb3(6,7) small pb2(3,7) by linarith+
  have cw: "int64 (pcard pb1 + pcard pb3) = pcard pb1 + pcard pb3"
    using size(3,4) by (intro int64_abs) (simp add: abs_less_iff)
  have "asum (pw pb1) + \<bar>pcard pb1 + pcard pb3\<bar> < 2 ^ 62"
    using size abs_triangle_ineq [of "pcard pb1" "pcard pb3"] by simp
  then obtain ws cd where cl: "clashLoop (pw pb1) (pw pb3) (pcard pb1 + pcard pb3) = Some (ws, cd)" "length ws = length (pw pb1)"
      "\<forall>a. pbSum a 0 (pw pb1) + pbSum a 0 (pw pb3) - (pcard pb1 + pcard pb3) = pbSum a 0 ws - cd"
      "pbFree (model s) 0 ws - cd \<le> pbFree (model s) 0 (pw pb1) + pbFree (model s) 0 (pw pb3) - (pcard pb1 + pcard pb3)"
      "\<forall>k<length ws. ws ! k = pw pb1 ! k + pw pb3 ! k"
    using clashLoop_spec [of "pw pb1" "pw pb3" 0 "model s" "pcard pb1 + pcard pb3"] pb1(2) pb3(2) n size by auto
  have "resolveReason (length (model s)) s pb1 (Lit_Var l) c = Some \<lparr>pw = ws, pcard = cd\<rparr>"
    using pb2(1) pb3(1) cl(1) by (simp add: resolveReason_def clash_def cw)
  moreover have "ws ! ?v = 0" using cl(2,5) pb1(2,3) pb3(3) v(2) by simp
  moreover have "conflicting (model s) \<lparr>pw = ws, pcard = cd\<rparr>"
    using cl(4) pb1(4) pb3(4) by (simp add: conflicting_def)
  moreover have "pbset_holds a \<lparr>pw = ws, pcard = cd\<rparr>" if "pbset_holds a pb" "sat_clause a c" for a
  proof -
    have "pbset_holds a pb1" "pbset_holds a pb3" using that pb1(5) pb2(4) pb3(5) by auto
    then show ?thesis using spec [OF cl(3), of a] by (simp add: pbset_holds_def)
  qed
  ultimately show ?thesis
    using pb1(1,2) cl(2) n by (intro exI [of _ pb1] exI [of _ "\<lparr>pw = ws, pcard = cd\<rparr>"]) simp
qed

definition resolveExample :: "solver \<times> pbset \<times> clause" where
  "resolveExample = (emptySolver\<lparr>model := [2, - 2, - 2]\<rparr>, \<lparr>pw = [- 2, 1, 0], pcard = 2\<rparr>,
     \<lparr>lits = [0, 4], lbdValue = 2, c_activity = 0, pbData = Some \<lparr>weights = [3, 2], watched = [False, False]\<rparr>\<rparr>)"

lemma cutting_planes_step_witness:
  "case resolveExample of (s, pb, c) \<Rightarrow>
    \<exists>pb1 pb'. roundToOne pb s (Lit_Var 0) = Some pb1
    \<and> resolveReason (length (model s)) s pb1 (Lit_Var 0) c = Some pb'
    \<and> length (pw pb') = length (model s) \<and> pw pb' ! nat (Lit_Var 0) = 0
    \<and> conflicting (model s) pb'
    \<and> (\<forall>a. pbset_holds a pb \<longrightarrow> sat_clause a c \<longrightarrow> pbset_holds a pb')"
proof -
  have "Cardinality (snd (snd resolveExample)) = 3" by code_simp
  moreover have v: "Lit_Var 0 = 0" "Lit_Var 4 = 2" "IsPositive 0" "IsPositive 4" by (simp_all add: lit_simps)
  ultimately show ?thesis
    unfolding resolveExample_def prod.case
    by (intro cutting_planes_step)
      (simp_all add: conflicting_def freeW_def falsifies_def geti_def propagates_def terms_def c_weights_def
        litFree_def lit_ok_def numeral_2_eq_2)
qed

end
