(* ===== verification/Spec2Isabelle.thy ===== *)
theory Spec2Isabelle
  imports ParseSlice FormulaSolve BfParser ExplainParser Maxsat Models ParseOpb ParseDimacs Services CuttingPlanes
begin

text \<open>
  A model of \<open>gophersat\<close>, a SAT, pseudo-boolean and MAXSAT solver in Go, and its correctness.

  \<^bold>\<open>The program.\<close> A text or a slice of clauses becomes a problem (\<open>solver/parser.go\<close>,
  \<open>solver/problem.go\<close>): constraints, unit literals and a partial model, simplified. \<open>New\<close> builds
  a solver from a problem and \<open>Solve\<close> runs conflict-driven clause learning on it
  (\<open>solver/solver.go\<close>, \<open>watcher.go\<close>, \<open>learn.go\<close>), choosing variables with a heap (\<open>queue.go\<close>)
  and restarting by the quality of what it learns (\<open>lbd.go\<close>, \<open>luby.go\<close>). On top of it stand
  boolean formulas and their clausal form (\<open>bf/\<close>), weighted partial MAXSAT (\<open>maxsat/\<close>) and the
  check of certificates and the explanation of unsatisfiability (\<open>explain/\<close>).

  \<^bold>\<open>How code becomes definitions.\<close> A statement that can panic has an \<open>option\<close> value, \<open>None\<close> the
  panic; blocks are \<open>do\<close> blocks. Slices are lists, read and written by \<open>get\<close>, \<open>put\<close>, \<open>geti\<close>
  and \<open>puti\<close>, which panic out of range. A 64-bit integer is an \<open>int\<close>; where its value is not
  bounded by the length of a slice in memory (sums, products and negations of weights, numbers read
  from a text), the result is wrapped around by \<open>int64\<close>, as \<open>sum64\<close> does for the sums of weights,
  and \<open>litOf\<close> truncates to 32 bits the integers that become literals. The literals themselves and the
  packed cardinality of a clause are also given on 32-bit words, the argument of \<open>luby\<close> on 64-bit
  ones. \<open>make\<close> panics beyond an address space of 48 bits (\<open>makeFits\<close>). Floating-point
  numbers are rationals rounded to nearest, ties to even, after every operation (\<open>float64\<close>,
  \<open>float32\<close>); activities are rescaled long before infinity. Loops are recursive functions with the
  measure that makes them end; the loops of the search, which may run forever, are partial functions
  with no value when they do not return or panic. Pointers to clauses are indices of a store.

  \<^bold>\<open>Theories.\<close>
  \<^item> \<open>Prelude\<close>: panicking statements and their weakest preconditions \<open>wp\<close> and \<open>wlp\<close>, slices,
    integers at their width, decimal numbers. \<open>GoStrings\<close>: fields, numbers and lines of texts, with
    the limit of \<open>bufio.Scanner\<close>. \<open>GoFloat\<close>: rounding.
  \<^item> \<open>Types\<close>, \<open>Clause\<close>, \<open>PBConstr\<close>: literals (\<open>types.go\<close>), clauses with their packed flags
    (\<open>clause.go\<close>), user-level constraints (\<open>pb.go\<close>, \<open>card.go\<close>). Round trips and bounds of the
    encodings, the meaning of every constructor, \<open>SimplifyPB\<close>.
  \<^item> \<open>Problem\<close>, \<open>SimplifyProp\<close>, \<open>Simplifiers\<close>: problems and their simplifiers (\<open>problem.go\<close>).
    \<open>ParseSlice\<close>, \<open>ParsePb\<close>, \<open>ParseOpb\<close>, \<open>ParseDimacs\<close>: the parsers of slices of clauses and of
    constraints and the readers of OPB and DIMACS texts (\<open>parser.go\<close>, \<open>parser_pb.go\<close>). The models of
    a problem are kept. \<open>pb_sat\<close> says that an assignment is a model: the status is not Unsat, and the
    units and the constraints hold (\<open>pb_models\<close>).
  \<^item> \<open>Formula\<close>, \<open>Unique\<close>, \<open>Cnf\<close>, \<open>BfParser\<close>, \<open>FormulaSolve\<close>: formulas, exactly-one constraints,
    clausal form, parser and entry points of \<open>bf/\<close>.
  \<^item> \<open>Rup\<close>, \<open>ExplainParser\<close>: certificates and files of \<open>explain/\<close>. \<open>Maxsat\<close>: the translation of
    \<open>maxsat/\<close>.
  \<^item> \<open>Queue\<close>, \<open>Restart\<close>: the variable heap as a refinement of a set with priorities; the restart
    statistics as sliding windows and the Luby sequence.
  \<^item> \<open>Solver\<close>, \<open>Watch\<close>, \<open>Learn\<close>, \<open>Search\<close>: the definitions of the solver, the state as the record
    \<open>solver\<close> with the fields of \<open>Solver\<close>, one function per method. \<open>CuttingPlanes\<close>: the analysis of
    \<open>learn_pb.go\<close>, the search that uses it, and the soundness of its resolution step. \<open>Services\<close>:
    assumptions, added constraints, enumeration and optimisation.
  \<^item> \<open>SolverInv\<close>, \<open>Propagation\<close>, \<open>PropPB\<close>, \<open>LearnProof\<close>, \<open>LearnTop\<close>, \<open>Backjump\<close>, \<open>SearchProof\<close>,
    \<open>Soundness\<close>, \<open>Answers\<close>: the soundness of the solver. The invariant \<open>core\<close> is relative to an
    assignment that satisfies the problem: all clauses are true in it, literals bound at the top
    level are true in it, and every other bound literal is a decision or is implied by its reason.
    Propagation, conflict analysis, backjumps and forgetting keep it; \<open>New\<close> establishes it; a
    conflict at the top level contradicts it, so Unsat is never answered when there is a model.
    \<open>SearchLoop\<close> holds the rules for the loops; \<open>search_step\<close> and \<open>reachable\<close> are the search as a
    transition system.
  \<^item> \<open>Cover\<close>, \<open>LearnFrame\<close>, \<open>Watched\<close>, \<open>Complete\<close>, \<open>Models\<close>: the models of clauses. Every
    unbound variable stays in the queue, every clause is in the lists of two of its literals, which propagation
    visits when one becomes false, and so, when no variable is left to choose, every clause is true. \<open>Models\<close>
    joins the parsers, the search and the answers.

  \<^bold>\<open>Bounds.\<close> The theorems are stated for less than \<open>2 ^ 30\<close> variables, or up to as many: the distance
  of a learned clause is counted in the low bits of a word next to its flags, and literals are
  32-bit numbers. The weights of a constraint sum up to less than \<open>2 ^ 62\<close> (\<open>sum_fits\<close>), so that
  sums with a cardinality do not wrap around; in one step of the cutting-planes analysis to less than
  \<open>2 ^ 31\<close>, since weights are multiplied. Statements about loops that may not end are partial
  (\<open>wlp\<close>): they say what an answer means when there is one; runs that answer are evaluated in the
  witnesses.

  \<^bold>\<open>Not modelled.\<close> The command line (\<open>main.go\<close>), package comments and \<open>preprocess.go\<close>, which is
  commented out; the statistics displayed and the goroutines that display them; the reader of weighted
  CNF texts and the calls of the solver by \<open>maxsat/\<close>; the goroutines of \<open>UnsatSubset\<close> and the
  searches for minimal unsatisfiable subsets (\<open>explain/mus.go\<close>). No theorem states that the search
  ends, nor that the model found for cardinality and pseudo-boolean constraints satisfies them. The loop
  of the cutting-planes analysis, the searches of \<open>Services\<close> and the OPB reader are definitions with
  evaluated runs and few general theorems.
\<close>

end
